(* ===== verification/Zuh_Prelude.thy ===== *)
theory Zuh_Prelude
  imports Main "HOL-Library.Word" "HOL-Library.While_Combinator"
begin

text \<open>
  The vocabulary every component shares: the machine types, byte strings and C
  strings, decimal formatting (the \<^verbatim>\<open>%u\<close> of \<^verbatim>\<open>snprintf\<close>), short-circuit sequencing
  of stateful calls (the \<^verbatim>\<open>a && b && c\<close> chains of the source), and the lemmas about
  lists that several components use.

  A byte is a HOL \<^typ>\<open>char\<close> (eight bits) and \<open>cval c\<close> is its value as an
  \<^verbatim>\<open>unsigned char\<close>. A \<^verbatim>\<open>size_t\<close> that only counts bytes or elements is the natural number
  it denotes; where the source relies on the width (checked sums, 64-bit totals read
  from the network), the width is written out or the value is a \<^typ>\<open>64 word\<close>.
\<close>

unbundle bit_operations_syntax

section \<open>Machine types\<close>

type_synonym bytes = "char list"
type_synonym u64 = "64 word"
type_synonym size_t = "64 word"

abbreviation cval :: "char \<Rightarrow> nat" where
  "cval c \<equiv> of_char c"

definition SIZE_MAX :: nat where
  "SIZE_MAX = 18446744073709551615"

definition UINT64_MAX :: nat where
  "UINT64_MAX = 18446744073709551615"

lemma SIZE_MAX_pow: "SIZE_MAX = 2 ^ 64 - 1"
  by (simp add: SIZE_MAX_def)

lemma UINT64_MAX_pow: "UINT64_MAX = 2 ^ 64 - 1"
  by (simp add: UINT64_MAX_def)

lemma cval_eq_iff: "cval a = cval b \<longleftrightarrow> a = b"
  by (metis char_of_char)

lemma cval_char_of [simp]: "n < 256 \<Longrightarrow> cval (char_of n) = n"
  by simp

section \<open>C strings\<close>

text \<open>
  A \<^verbatim>\<open>char *\<close> that is read with \<^verbatim>\<open>strlen\<close> denotes the bytes before its first NUL.
\<close>

definition NUL :: char where
  "NUL = CHR 0x00"

definition c_string :: "bytes \<Rightarrow> bytes" where
  "c_string s = takeWhile (\<lambda>c. c \<noteq> NUL) s"

lemma c_string_id: "NUL \<notin> set s \<Longrightarrow> c_string s = s"
  unfolding c_string_def by (rule takeWhile_eq_all_conv [THEN iffD2]) auto

lemma c_string_no_NUL [simp]: "NUL \<notin> set (c_string s)"
  unfolding c_string_def by (auto dest: set_takeWhileD)

lemma cval_NUL [simp]: "cval NUL = 0"
  by (simp add: NUL_def)

definition CR :: char where
  "CR = CHR 0x0D"

definition LF :: char where
  "LF = CHR 0x0A"

definition HTAB :: char where
  "HTAB = CHR 0x09"

definition SP :: char where
  "SP = CHR '' ''"

abbreviation CRLF :: bytes where
  "CRLF \<equiv> [CR, LF]"

lemma cval_control [simp]: "cval CR = 13" "cval LF = 10" "cval HTAB = 9" "cval SP = 32"
  by (simp_all add: CR_def LF_def HTAB_def SP_def)

lemma control_distinct [simp]: "CR \<noteq> LF" "LF \<noteq> CR" "CR \<noteq> NUL" "LF \<noteq> NUL" "SP \<noteq> CR" "SP \<noteq> LF" "SP \<noteq> NUL"
  by (simp_all add: CR_def LF_def NUL_def SP_def)

text \<open>\<^verbatim>\<open>tolower\<close> on ASCII, and the same for a whole name: what the case-insensitive comparisons compare.\<close>

definition lower :: "char \<Rightarrow> char" where
  "lower c = (if cval (CHR ''A'') \<le> cval c \<and> cval c \<le> cval (CHR ''Z'') then char_of (cval c + 32) else c)"

lemma lower_upper [simp]:
    "lower (CHR ''A'') = CHR ''a''"
    "lower (CHR ''B'') = CHR ''b''"
    "lower (CHR ''C'') = CHR ''c''"
    "lower (CHR ''D'') = CHR ''d''"
    "lower (CHR ''E'') = CHR ''e''"
    "lower (CHR ''F'') = CHR ''f''"
    "lower (CHR ''G'') = CHR ''g''"
    "lower (CHR ''H'') = CHR ''h''"
    "lower (CHR ''I'') = CHR ''i''"
    "lower (CHR ''J'') = CHR ''j''"
    "lower (CHR ''K'') = CHR ''k''"
    "lower (CHR ''L'') = CHR ''l''"
    "lower (CHR ''M'') = CHR ''m''"
    "lower (CHR ''N'') = CHR ''n''"
    "lower (CHR ''O'') = CHR ''o''"
    "lower (CHR ''P'') = CHR ''p''"
    "lower (CHR ''Q'') = CHR ''q''"
    "lower (CHR ''R'') = CHR ''r''"
    "lower (CHR ''S'') = CHR ''s''"
    "lower (CHR ''T'') = CHR ''t''"
    "lower (CHR ''U'') = CHR ''u''"
    "lower (CHR ''V'') = CHR ''v''"
    "lower (CHR ''W'') = CHR ''w''"
    "lower (CHR ''X'') = CHR ''x''"
    "lower (CHR ''Y'') = CHR ''y''"
    "lower (CHR ''Z'') = CHR ''z''"
  by code_simp+

lemma lower_same [simp]: "cval c < 65 \<or> 90 < cval c \<Longrightarrow> lower c = c"
  by (auto simp: lower_def)

lemma cval_lower: "cval (lower c) = (if 65 \<le> cval c \<and> cval c \<le> 90 then cval c + 32 else cval c)"
  by (simp add: lower_def)

lemma lower_idem [simp]: "lower (lower c) = lower c"
  by (simp add: cval_eq_iff [symmetric] cval_lower)

text \<open>To evaluate \<^const>\<open>c_string\<close> on a literal.\<close>

lemmas literal_simps = c_string_def NUL_def

section \<open>Decimal formatting\<close>

definition digit_char :: "nat \<Rightarrow> char" where
  "digit_char d = char_of (48 + d)"

definition is_digit :: "char \<Rightarrow> bool" where
  "is_digit c \<longleftrightarrow> 48 \<le> cval c \<and> cval c \<le> 57"

text \<open>What \<^verbatim>\<open>%u\<close>, \<^verbatim>\<open>%lu\<close> and a non-negative \<^verbatim>\<open>%d\<close> print.\<close>

fun show_nat :: "nat \<Rightarrow> bytes" where
  "show_nat n = (if n < 10 then [digit_char n] else show_nat (n div 10) @ [digit_char (n mod 10)])"

declare show_nat.simps [simp del]

text \<open>\<^verbatim>\<open>%d\<close> of any \<^verbatim>\<open>int\<close>.\<close>

definition show_int :: "int \<Rightarrow> bytes" where
  "show_int i = (if i < 0 then ''-'' @ show_nat (nat (- i)) else show_nat (nat i))"

fun dec_value :: "nat \<Rightarrow> bytes \<Rightarrow> nat" where
  "dec_value v [] = v"
| "dec_value v (c # cs) = dec_value (v * 10 + (cval c - 48)) cs"

lemma cval_digit_char [simp]: "d < 10 \<Longrightarrow> cval (digit_char d) = 48 + d"
  by (simp add: digit_char_def)

lemma digit_char_0: "digit_char 0 = CHR ''0''"
  by code_simp

lemma is_digit_digit_char [simp]: "d < 10 \<Longrightarrow> is_digit (digit_char d)"
  by (simp add: is_digit_def)

lemma dec_value_append: "dec_value v (xs @ ys) = dec_value (dec_value v xs) ys"
  by (induction xs arbitrary: v) auto

lemma dec_value_ge: "v * 10 ^ length cs \<le> dec_value v cs"
proof (induction cs arbitrary: v)
  case (Cons c cs)
  have "v * 10 ^ length (c # cs) \<le> (v * 10 + (cval c - 48)) * 10 ^ length cs"
    by (simp add: algebra_simps)
  also have "\<dots> \<le> dec_value v (c # cs)" using Cons by simp
  finally show ?case .
qed simp

lemma dec_value_mono: "v \<le> dec_value v cs"
  using dec_value_ge [of v cs] by (rule order_trans [rotated]) simp

lemma show_nat_nonempty [simp]: "show_nat n \<noteq> []"
  by (subst show_nat.simps) simp

lemma show_nat_digits: "c \<in> set (show_nat n) \<Longrightarrow> is_digit c"
proof (induction n rule: show_nat.induct)
  case (1 n)
  then show ?case
    by (cases "n < 10") (auto simp: show_nat.simps [of n])
qed

lemma dec_value_show_nat: "dec_value 0 (show_nat n) = n"
proof (induction n rule: show_nat.induct)
  case (1 n)
  then show ?case
    by (cases "n < 10") (simp_all add: show_nat.simps [of n] dec_value_append)
qed

lemma show_nat_inject: "show_nat m = show_nat n \<longleftrightarrow> m = n"
  by (metis dec_value_show_nat)

section \<open>Sequencing\<close>

text \<open>
  \<open>c_and f g\<close> is the C expression \<^verbatim>\<open>f() && g()\<close> of two calls that change a state:
  the second runs only if the first returned non-zero. \<open>c_all\<close> is a chain of them.
\<close>

definition c_and :: "('s \<Rightarrow> bool \<times> 's) \<Rightarrow> ('s \<Rightarrow> bool \<times> 's) \<Rightarrow> 's \<Rightarrow> bool \<times> 's" where
  "c_and f g s = (case f s of (ok, s') \<Rightarrow> if ok then g s' else (False, s'))"

fun c_all :: "('s \<Rightarrow> bool \<times> 's) list \<Rightarrow> 's \<Rightarrow> bool \<times> 's" where
  "c_all [] s = (True, s)"
| "c_all (f # fs) s = (case f s of (ok, s') \<Rightarrow> if ok then c_all fs s' else (False, s'))"

section \<open>Shared lemmas\<close>

named_theorems heap_facts \<open>effects of an operation on the allocation statistics\<close>

lemma takeWhile_append_not: "\<not> P y \<Longrightarrow> (\<forall>x \<in> set xs. P x) \<Longrightarrow> takeWhile P (xs @ y # ys) = xs"
  by (induction xs) auto

lemma dropWhile_append_not: "\<not> P y \<Longrightarrow> (\<forall>x \<in> set xs. P x) \<Longrightarrow> dropWhile P (xs @ y # ys) = y # ys"
  by (induction xs) auto

text \<open>A separator that does not occur before it splits a text in one way only.\<close>

lemma split_unique:
  "c \<notin> set xs \<Longrightarrow> c \<notin> set ys \<Longrightarrow> xs @ c # u = ys @ c # v \<Longrightarrow> xs = ys \<and> u = v"
  by (auto simp: append_eq_append_conv2 Cons_eq_append_conv append_eq_Cons_conv)

lemma unat_64_le: "unat (w :: 64 word) \<le> SIZE_MAX"
  using unsigned_less [of w, where ?'a = nat] by (simp add: SIZE_MAX_def)

end
