(* ===== verification/Zuh_Alloc.thy ===== *)
theory Zuh_Alloc
  imports Zuh_Prelude
begin

text \<open>
  \<^verbatim>\<open>src/zuh_alloc.c\<close>: checked size arithmetic and the instrumented allocator.

  The heap is the allocator's own static state: the statistics \<^verbatim>\<open>g_stats\<close>, the fault
  injection counter \<^verbatim>\<open>g_fail_after\<close>, and the answers the C library's \<^verbatim>\<open>malloc\<close> and
  \<^verbatim>\<open>realloc\<close> will give, which the program does not choose: \<open>sys_answers\<close> lists whether
  each coming request succeeds (an exhausted list means success). Every lemma holds for
  every list, so for every pattern of failures. A block is known by the size its header
  records, so an allocation returns whether it succeeded, and the contents live in the
  record of whoever owns the pointer.
\<close>

section \<open>Checked arithmetic\<close>

text \<open>
  \<^verbatim>\<open>SIZE_MAX - b\<close> is taken in the integers, so that the test also reads correctly for the
  numbers beyond \<^verbatim>\<open>SIZE_MAX\<close> that a HOL list may have as its length and a C object cannot.
\<close>

definition zuh_size_add :: "nat \<Rightarrow> nat \<Rightarrow> nat option" where
  "zuh_size_add a b = (if int a > int SIZE_MAX - int b then None else Some (a + b))"

definition zuh_size_mul :: "nat \<Rightarrow> nat \<Rightarrow> nat option" where
  "zuh_size_mul a b = (if a \<noteq> 0 \<and> b > SIZE_MAX div a then None else Some (a * b))"

lemma size_add_None: "zuh_size_add a b = None \<longleftrightarrow> SIZE_MAX < a + b"
  by (auto simp: zuh_size_add_def)

lemma size_add_Some: "zuh_size_add a b = Some c \<longleftrightarrow> c = a + b \<and> a + b \<le> SIZE_MAX"
  by (auto simp: zuh_size_add_def)

lemma size_mul_Some: "zuh_size_mul a b = Some c \<longleftrightarrow> c = a * b \<and> a * b \<le> SIZE_MAX"
proof (cases "a = 0")
  case False
  then have "b \<le> SIZE_MAX div a \<longleftrightarrow> a * b \<le> SIZE_MAX"
    by (simp add: less_eq_div_iff_mult_less_eq mult.commute)
  with False show ?thesis by (auto simp: zuh_size_mul_def)
qed (auto simp: zuh_size_mul_def SIZE_MAX_def)

section \<open>The allocator's state\<close>

record heap =
  live_blocks :: size_t
  live_bytes :: size_t
  total_allocs :: size_t
  total_frees :: size_t
  peak_bytes :: size_t
  fail_after :: int
  sys_answers :: "bool list"

text \<open>\<^verbatim>\<open>sizeof(zuh_align)\<close>: a \<^verbatim>\<open>long double\<close> is 16 bytes on the 64-bit targets.\<close>

definition ZUH_HDR :: nat where
  "ZUH_HDR = 16"

definition should_fail :: "heap \<Rightarrow> bool \<times> heap" where
  "should_fail h =
     (if fail_after h < 0 then (False, h)
      else if fail_after h = 0 then (True, h)
      else (False, h\<lparr>fail_after := fail_after h - 1\<rparr>))"

definition sys_malloc :: "heap \<Rightarrow> bool \<times> heap" where
  "sys_malloc h = (case sys_answers h of [] \<Rightarrow> (True, h) | a # as \<Rightarrow> (a, h\<lparr>sys_answers := as\<rparr>))"

definition note_peak :: "heap \<Rightarrow> heap" where
  "note_peak h = (if live_bytes h > peak_bytes h then h\<lparr>peak_bytes := live_bytes h\<rparr> else h)"

definition note_alloc :: "nat \<Rightarrow> heap \<Rightarrow> heap" where
  "note_alloc n h = note_peak
     (h\<lparr>live_blocks := live_blocks h + 1,
        live_bytes := live_bytes h + of_nat n,
        total_allocs := total_allocs h + 1\<rparr>)"

definition zuh_alloc :: "nat \<Rightarrow> heap \<Rightarrow> bool \<times> heap" where
  "zuh_alloc n h =
     (case zuh_size_add n ZUH_HDR of
        None \<Rightarrow> (False, h)
      | Some tot \<Rightarrow>
          (case should_fail h of (fl, h1) \<Rightarrow>
             if fl then (False, h1)
             else (case sys_malloc h1 of (ok, h2) \<Rightarrow>
               if ok then (True, note_alloc n h2) else (False, h2))))"

definition zuh_calloc :: "nat \<Rightarrow> nat \<Rightarrow> heap \<Rightarrow> bool \<times> heap" where
  "zuh_calloc count sz h =
     (case zuh_size_mul count sz of None \<Rightarrow> (False, h) | Some n \<Rightarrow> zuh_alloc n h)"

text \<open>The block argument is \<open>None\<close> for a NULL pointer, else the size in its header.\<close>

definition zuh_realloc :: "nat option \<Rightarrow> nat \<Rightarrow> heap \<Rightarrow> bool \<times> heap" where
  "zuh_realloc p n h =
     (case p of
        None \<Rightarrow> zuh_alloc n h
      | Some old \<Rightarrow>
          (case zuh_size_add n ZUH_HDR of
             None \<Rightarrow> (False, h)
           | Some tot \<Rightarrow>
               (case should_fail h of (fl, h1) \<Rightarrow>
                  if fl then (False, h1)
                  else (case sys_malloc h1 of (ok, h2) \<Rightarrow>
                    if ok then (True, note_peak (h2\<lparr>live_bytes := live_bytes h2 - of_nat old + of_nat n\<rparr>))
                    else (False, h2)))))"

definition zuh_free :: "nat option \<Rightarrow> heap \<Rightarrow> heap" where
  "zuh_free p h =
     (case p of
        None \<Rightarrow> h
      | Some n \<Rightarrow> h\<lparr>live_bytes := live_bytes h - of_nat n,
                     live_blocks := live_blocks h - 1,
                     total_frees := total_frees h + 1\<rparr>)"

definition zuh_alloc_stats_reset :: "heap \<Rightarrow> heap" where
  "zuh_alloc_stats_reset h =
     h\<lparr>live_blocks := 0, live_bytes := 0, total_allocs := 0, total_frees := 0, peak_bytes := 0,
       fail_after := -1\<rparr>"

definition zuh_alloc_fail_after :: "int \<Rightarrow> heap \<Rightarrow> heap" where
  "zuh_alloc_fail_after n h = h\<lparr>fail_after := n\<rparr>"

text \<open>A heap on which nothing has been allocated and every request will succeed.\<close>

definition fresh_heap :: heap where
  "fresh_heap = \<lparr>live_blocks = 0, live_bytes = 0, total_allocs = 0, total_frees = 0,
                 peak_bytes = 0, fail_after = -1, sys_answers = []\<rparr>"

section \<open>Balance of the statistics\<close>

text \<open>
  \<open>grew h h' k n\<close>: between \<open>h\<close> and \<open>h'\<close> the live blocks grew by \<open>k\<close> and the live bytes
  by \<open>n\<close> (modulo \<open>2 ^ 64\<close>, as the counters themselves).
\<close>

definition grew :: "heap \<Rightarrow> heap \<Rightarrow> size_t \<Rightarrow> size_t \<Rightarrow> bool" where
  "grew h h' k n \<longleftrightarrow> live_blocks h' = live_blocks h + k \<and> live_bytes h' = live_bytes h + n"

lemma grew_refl [simp]: "grew h h 0 0"
  by (simp add: grew_def)

lemma grew_trans: "grew h h1 k n \<Longrightarrow> grew h1 h2 k' n' \<Longrightarrow> grew h h2 (k + k') (n + n')"
  by (simp add: grew_def)

lemma note_peak_live [simp]:
  "live_blocks (note_peak h) = live_blocks h" "live_bytes (note_peak h) = live_bytes h"
  by (simp_all add: note_peak_def)

lemma should_fail_live:
  "live_blocks (snd (should_fail h)) = live_blocks h" "live_bytes (snd (should_fail h)) = live_bytes h"
  by (simp_all add: should_fail_def)

lemma sys_malloc_live:
  "live_blocks (snd (sys_malloc h)) = live_blocks h" "live_bytes (snd (sys_malloc h)) = live_bytes h"
  by (simp_all add: sys_malloc_def split: list.splits)

lemma should_fail_grew: "should_fail h = (b, h') \<Longrightarrow> grew h h' 0 0"
  using should_fail_live [of h] by (simp add: grew_def)

lemma sys_malloc_grew: "sys_malloc h = (b, h') \<Longrightarrow> grew h h' 0 0"
  using sys_malloc_live [of h] by (simp add: grew_def)

lemma zuh_alloc_grew [heap_facts]:
  "zuh_alloc n h = (ok, h') \<Longrightarrow> grew h h' (if ok then 1 else 0) (if ok then of_nat n else 0)"
  by (auto simp: zuh_alloc_def note_alloc_def grew_def
      split: option.splits prod.splits if_splits dest!: should_fail_grew sys_malloc_grew)

lemma zuh_calloc_grew:
  "zuh_calloc 1 n h = (ok, h') \<Longrightarrow> grew h h' (if ok then 1 else 0) (if ok then of_nat n else 0)"
  by (auto simp: zuh_calloc_def zuh_size_mul_def split: if_splits option.splits dest!: zuh_alloc_grew)

lemma zuh_realloc_grew [heap_facts]:
  "zuh_realloc (Some old) n h = (ok, h') \<Longrightarrow>
   grew h h' 0 (if ok then of_nat n - of_nat old else 0)"
  by (auto simp: zuh_realloc_def grew_def
      split: option.splits prod.splits if_splits dest!: should_fail_grew sys_malloc_grew)

lemma zuh_realloc_None [simp]: "zuh_realloc None n h = zuh_alloc n h"
  by (simp add: zuh_realloc_def)

lemma zuh_free_grew [heap_facts]: "grew h (zuh_free (Some n) h) (- 1) (- of_nat n)"
  by (simp add: zuh_free_def grew_def)

lemma zuh_free_None [simp]: "zuh_free None h = h"
  by (simp add: zuh_free_def)

section \<open>A heap with enough memory\<close>

text \<open>On such a heap no request below the size limit fails: what totality lemmas assume.\<close>

definition plenty :: "heap \<Rightarrow> bool" where
  "plenty h \<longleftrightarrow> fail_after h < 0 \<and> sys_answers h = []"

lemma plenty_fresh [simp]: "plenty fresh_heap"
  by (simp add: plenty_def fresh_heap_def)

lemma plenty_note [simp]: "plenty (note_alloc n h) = plenty h" "plenty (note_peak h) = plenty h"
  by (simp_all add: plenty_def note_alloc_def note_peak_def)

lemma plenty_free [simp]: "plenty (zuh_free p h) = plenty h"
  by (simp add: plenty_def zuh_free_def split: option.splits)

lemma zuh_alloc_plenty:
  assumes "plenty h" "n + ZUH_HDR \<le> SIZE_MAX"
  shows "zuh_alloc n h = (True, note_alloc n h)"
proof -
  have "zuh_size_add n ZUH_HDR = Some (n + ZUH_HDR)" using assms(2) by (simp add: size_add_Some)
  with assms(1) show ?thesis
    by (simp add: zuh_alloc_def should_fail_def sys_malloc_def plenty_def)
qed

lemma zuh_realloc_plenty:
  assumes "plenty h" "n + ZUH_HDR \<le> SIZE_MAX"
  shows "\<exists>h'. zuh_realloc p n h = (True, h') \<and> plenty h'"
proof (cases p)
  case None
  with zuh_alloc_plenty [OF assms] assms(1) show ?thesis by simp
next
  case (Some old)
  have "zuh_size_add n ZUH_HDR = Some (n + ZUH_HDR)" using assms(2) by (simp add: size_add_Some)
  with assms(1) Some show ?thesis
    by (auto simp: zuh_realloc_def should_fail_def sys_malloc_def) (auto simp: plenty_def note_peak_def)
qed

text \<open>Nothing the program does makes such a heap fail later.\<close>

lemma plenty_alloc: "zuh_alloc n h = (ok, h') \<Longrightarrow> plenty h \<Longrightarrow> plenty h'"
  by (auto simp: zuh_alloc_def should_fail_def sys_malloc_def split: option.splits if_splits list.splits)
    (auto simp: plenty_def)

lemma plenty_realloc:
  assumes "zuh_realloc q n h = (ok, h')" "plenty h"
  shows "plenty h'"
proof (cases q)
  case None
  with assms plenty_alloc show ?thesis by simp
next
  case (Some old)
  with assms show ?thesis
    by (auto simp: zuh_realloc_def should_fail_def sys_malloc_def split: option.splits if_splits list.splits)
      (auto simp: plenty_def)
qed

end
