(* ===== verification/Zuh_Buffer.thy ===== *)
theory Zuh_Buffer
  imports Zuh_Alloc
begin

text \<open>
  \<^verbatim>\<open>src/zuh_buffer.c\<close>: the checked growable buffer. \<open>buf_data\<close> holds the \<^verbatim>\<open>len\<close> meaningful
  bytes of the allocation, so \<^verbatim>\<open>len\<close> is its length; the bytes between \<^verbatim>\<open>len\<close> and \<^verbatim>\<open>cap\<close>
  are never read before they are written. The pointer is NULL exactly when \<^verbatim>\<open>cap\<close> is 0.
  An operation takes and returns the buffer and the allocator's heap; its \<^typ>\<open>bool\<close> is the
  C function's 1 or 0.
\<close>

section \<open>State and operations\<close>

record zuh_buffer =
  buf_data :: bytes
  buf_cap :: nat
  buf_max :: nat
  buf_hit_limit :: bool

abbreviation buf_len :: "zuh_buffer \<Rightarrow> nat" where
  "buf_len b \<equiv> length (buf_data b)"

text \<open>The allocation behind the buffer, as \<^verbatim>\<open>zuh_realloc\<close> and \<^verbatim>\<open>zuh_free\<close> see it.\<close>

definition buf_block :: "zuh_buffer \<Rightarrow> nat option" where
  "buf_block b = (if buf_cap b = 0 then None else Some (buf_cap b))"

definition zuh_buf_hit_limit :: "zuh_buffer \<Rightarrow> bool" where
  "zuh_buf_hit_limit b = buf_hit_limit b"

text \<open>
  The growth loop of \<^verbatim>\<open>grow_to\<close> over its variable \<^verbatim>\<open>cap\<close> and a flag for \<^verbatim>\<open>break\<close>. It is a
  loop of the source that need not end on its own: with \<^verbatim>\<open>cap == 1\<close> the increment is 0.
\<close>

definition grow_cond :: "nat \<Rightarrow> nat \<times> bool \<Rightarrow> bool" where
  "grow_cond need = (\<lambda>(cap, brk). \<not> brk \<and> cap < need)"

definition grow_body :: "nat \<Rightarrow> nat \<Rightarrow> nat \<times> bool \<Rightarrow> nat \<times> bool" where
  "grow_body mx need = (\<lambda>(cap, brk).
     (case zuh_size_add cap (cap div 2) of
        None \<Rightarrow> (need, True)
      | Some tot \<Rightarrow> if mx \<noteq> 0 \<and> tot > mx then (mx, True) else (tot, False)))"

definition grow_cap :: "nat \<Rightarrow> nat \<Rightarrow> nat \<Rightarrow> nat" where
  "grow_cap mx need cap = fst (while (grow_cond need) (grow_body mx need) (cap, False))"

definition grow_to :: "zuh_buffer \<Rightarrow> nat \<Rightarrow> heap \<Rightarrow> bool \<times> zuh_buffer \<times> heap" where
  "grow_to b need h =
     (if need \<le> buf_cap b then (True, b, h)
      else if buf_max b \<noteq> 0 \<and> need > buf_max b then (False, b\<lparr>buf_hit_limit := True\<rparr>, h)
      else
        let cap = grow_cap (buf_max b) need (if buf_cap b \<noteq> 0 then buf_cap b else 64);
            cap = (if cap < need then need else cap);
            cap = (if buf_max b \<noteq> 0 \<and> cap > buf_max b then buf_max b else cap)
        in (case zuh_realloc (buf_block b) cap h of
              (ok, h') \<Rightarrow> if ok then (True, b\<lparr>buf_cap := cap\<rparr>, h') else (False, b, h')))"

definition zuh_buf_init :: "nat \<Rightarrow> nat \<Rightarrow> heap \<Rightarrow> bool \<times> zuh_buffer \<times> heap" where
  "zuh_buf_init initial_cap mx h =
     (let b = \<lparr>buf_data = [], buf_cap = 0, buf_max = mx, buf_hit_limit = False\<rparr>;
          initial_cap = (if mx \<noteq> 0 \<and> initial_cap > mx then mx else initial_cap)
      in if initial_cap = 0 then (True, b, h) else grow_to b initial_cap h)"

definition zuh_buf_free :: "zuh_buffer \<Rightarrow> heap \<Rightarrow> zuh_buffer \<times> heap" where
  "zuh_buf_free b h = (b\<lparr>buf_data := [], buf_cap := 0\<rparr>, zuh_free (buf_block b) h)"

definition zuh_buf_reset :: "zuh_buffer \<Rightarrow> zuh_buffer" where
  "zuh_buf_reset b = b\<lparr>buf_data := []\<rparr>"

definition zuh_buf_reserve :: "zuh_buffer \<Rightarrow> nat \<Rightarrow> heap \<Rightarrow> bool \<times> zuh_buffer \<times> heap" where
  "zuh_buf_reserve b extra h =
     (case zuh_size_add (buf_len b) extra of
        None \<Rightarrow> (False, b, h)
      | Some need \<Rightarrow> grow_to b need h)"

definition zuh_buf_append :: "bytes \<Rightarrow> zuh_buffer \<times> heap \<Rightarrow> bool \<times> zuh_buffer \<times> heap" where
  "zuh_buf_append src = (\<lambda>(b, h).
     if length src = 0 then (True, b, h)
     else (case zuh_size_add (buf_len b) (length src) of
        None \<Rightarrow> (False, b, h)
      | Some need \<Rightarrow>
          (case grow_to b need h of (ok, b', h') \<Rightarrow>
             if ok then (True, b'\<lparr>buf_data := buf_data b' @ src\<rparr>, h') else (False, b', h'))))"

definition zuh_buf_append_str :: "bytes \<Rightarrow> zuh_buffer \<times> heap \<Rightarrow> bool \<times> zuh_buffer \<times> heap" where
  "zuh_buf_append_str s = zuh_buf_append (c_string s)"

definition zuh_buf_append_byte :: "char \<Rightarrow> zuh_buffer \<times> heap \<Rightarrow> bool \<times> zuh_buffer \<times> heap" where
  "zuh_buf_append_byte c = zuh_buf_append [c]"

text \<open>The backwards conversion into \<^verbatim>\<open>char tmp[20]\<close>: \<open>i\<close> is the index, \<open>tmp\<close> what is written.\<close>

fun u64_digits :: "nat \<Rightarrow> u64 \<Rightarrow> bytes \<Rightarrow> bytes" where
  "u64_digits 0 v tmp = tmp"
| "u64_digits (Suc i) v tmp =
     (if v > 0 then u64_digits i (v div 10) (char_of (48 + unat (v mod 10)) # tmp) else tmp)"

definition zuh_buf_append_u64 :: "u64 \<Rightarrow> zuh_buffer \<times> heap \<Rightarrow> bool \<times> zuh_buffer \<times> heap" where
  "zuh_buf_append_u64 v =
     (if v = 0 then zuh_buf_append_byte (CHR ''0'') else zuh_buf_append (u64_digits 20 v []))"

definition zuh_buf_consume :: "zuh_buffer \<Rightarrow> nat \<Rightarrow> zuh_buffer" where
  "zuh_buf_consume b n =
     (if n \<ge> buf_len b then b\<lparr>buf_data := []\<rparr> else b\<lparr>buf_data := drop n (buf_data b)\<rparr>)"

text \<open>
  On success the C function also stores the data pointer; the C string it points to is
  \<open>c_string (buf_data b)\<close>, since a NUL is written at \<^verbatim>\<open>data[len]\<close>.
\<close>

definition zuh_buf_cstr :: "zuh_buffer \<times> heap \<Rightarrow> bool \<times> zuh_buffer \<times> heap" where
  "zuh_buf_cstr = (\<lambda>(b, h).
     (case zuh_size_add (buf_len b) 1 of
        None \<Rightarrow> (False, b, h)
      | Some need \<Rightarrow> grow_to b need h))"

section \<open>The invariant\<close>

text \<open>
  What every buffer satisfies between calls: the contents fit the allocation, the
  allocation respects the cap, and the capacity is one from which the growth loop makes
  progress.
\<close>

definition buf_inv :: "zuh_buffer \<Rightarrow> bool" where
  "buf_inv b \<longleftrightarrow> buf_len b \<le> buf_cap b \<and> buf_cap b \<le> SIZE_MAX \<and> buf_max b \<le> SIZE_MAX
     \<and> (buf_max b \<noteq> 0 \<longrightarrow> buf_cap b \<le> buf_max b)
     \<and> (buf_cap b = 0 \<or> 64 \<le> buf_cap b \<or> buf_cap b = buf_max b)"

lemma buf_inv_fits: "buf_inv b \<Longrightarrow> buf_len b \<le> buf_cap b"
  by (simp add: buf_inv_def)

lemma buf_inv_len_max: "buf_inv b \<Longrightarrow> buf_max b \<noteq> 0 \<Longrightarrow> buf_len b \<le> buf_max b"
  by (simp add: buf_inv_def)

text \<open>
  The growth loop. It starts at 64 or above, so half of \<^verbatim>\<open>cap\<close> is never 0: it stops, and at a
  capacity that holds \<open>need\<close>.
\<close>

definition grow_loop_inv :: "nat \<Rightarrow> nat \<times> bool \<Rightarrow> bool" where
  "grow_loop_inv need = (\<lambda>(cap, brk). 64 \<le> cap \<and> cap \<le> SIZE_MAX \<and> (brk \<longrightarrow> need \<le> cap))"

lemma grow_body_inv:
  assumes "grow_loop_inv need s" "grow_cond need s" "need \<le> SIZE_MAX" "mx \<noteq> 0 \<longrightarrow> need \<le> mx"
    "mx \<le> SIZE_MAX"
  shows "grow_loop_inv need (grow_body mx need s)"
  using assms
  by (cases s) (auto simp: grow_loop_inv_def grow_cond_def grow_body_def size_add_Some
      split: option.splits)

lemma grow_body_measure:
  assumes "grow_loop_inv need s" "grow_cond need s" "mx \<noteq> 0 \<longrightarrow> need \<le> mx"
  shows "need - fst (grow_body mx need s) < need - fst s"
proof -
  obtain cap where s: "s = (cap, False)" and cap: "64 \<le> cap" "cap < need"
    using assms(1,2) by (cases s) (auto simp: grow_loop_inv_def grow_cond_def)
  have "0 < cap div 2"
    using cap(1) by simp
  then have "cap < cap + cap div 2"
    by simp
  then show ?thesis
    using cap assms(3) unfolding s
    by (auto simp: grow_body_def size_add_Some split: option.splits)
qed

lemma grow_cap_terminates:
  assumes "64 \<le> cap" "cap \<le> SIZE_MAX" "need \<le> SIZE_MAX" "mx \<noteq> 0 \<longrightarrow> need \<le> mx" "mx \<le> SIZE_MAX"
  shows "\<exists>s. while_option (grow_cond need) (grow_body mx need) (cap, False) = Some s"
proof (rule measure_while_option_Some [where P = "grow_loop_inv need" and f = "\<lambda>s. need - fst s"])
  show "grow_loop_inv need (cap, False)"
    using assms by (simp add: grow_loop_inv_def)
qed (use grow_body_inv [OF _ _ assms(3-5)] grow_body_measure [OF _ _ assms(4)] in auto)

lemma grow_cap_ge:
  assumes "64 \<le> cap" "cap \<le> SIZE_MAX" "need \<le> SIZE_MAX" "mx \<noteq> 0 \<longrightarrow> need \<le> mx" "mx \<le> SIZE_MAX"
  shows "64 \<le> grow_cap mx need cap" "grow_cap mx need cap \<le> SIZE_MAX" "need \<le> grow_cap mx need cap"
proof -
  obtain s where s: "while_option (grow_cond need) (grow_body mx need) (cap, False) = Some s"
    using grow_cap_terminates [OF assms] by blast
  have "grow_loop_inv need (cap, False)"
    using assms by (simp add: grow_loop_inv_def)
  then have inv: "grow_loop_inv need s"
    using while_option_rule [where P = "grow_loop_inv need", OF grow_body_inv [OF _ _ assms(3-5)] s]
    by blast
  have stop: "\<not> grow_cond need s"
    by (rule while_option_stop [OF s])
  have eq: "grow_cap mx need cap = fst s"
    by (simp add: grow_cap_def while_def s)
  show "64 \<le> grow_cap mx need cap" "grow_cap mx need cap \<le> SIZE_MAX" "need \<le> grow_cap mx need cap"
    using inv stop unfolding eq by (cases s; auto simp: grow_loop_inv_def grow_cond_def)+
qed

lemma grow_cap_le:
  assumes "64 \<le> cap" "cap \<le> SIZE_MAX" "need \<le> SIZE_MAX" "mx \<noteq> 0 \<longrightarrow> need \<le> mx" "mx \<le> SIZE_MAX"
    and "cap \<le> 2 * need + 64"
  shows "grow_cap mx need cap \<le> 2 * need + 64"
proof -
  obtain s where s: "while_option (grow_cond need) (grow_body mx need) (cap, False) = Some s"
    using grow_cap_terminates [OF assms(1-5)] by blast
  have "fst (grow_body mx need s) \<le> 2 * need + 64"
    if "fst s \<le> 2 * need + 64" "grow_cond need s" for s
    using that by (cases s) (auto simp: grow_cond_def grow_body_def size_add_Some split: option.splits)
  then have "fst s \<le> 2 * need + 64"
    using while_option_rule [where P = "\<lambda>s. fst s \<le> 2 * need + 64", OF _ s] assms(6) by simp
  then show ?thesis by (simp add: grow_cap_def while_def s)
qed

text \<open>
  Everything \<^verbatim>\<open>grow_to\<close> promises its callers: the contents and the cap are untouched, the
  invariant holds again, the statistics move by the change of capacity, success means the
  requested size fits, and failure leaves the capacity as it was.
\<close>

definition buf_blocks :: "zuh_buffer \<Rightarrow> size_t" where
  "buf_blocks b = (if buf_cap b = 0 then 0 else 1)"

definition buf_bytes :: "zuh_buffer \<Rightarrow> size_t" where
  "buf_bytes b = of_nat (buf_cap b)"

definition buf_grew :: "zuh_buffer \<times> heap \<Rightarrow> zuh_buffer \<times> heap \<Rightarrow> bool" where
  "buf_grew s s' \<longleftrightarrow> grew (snd s) (snd s')
     (buf_blocks (fst s') - buf_blocks (fst s)) (buf_bytes (fst s') - buf_bytes (fst s))"

lemma buf_grew_refl [simp]: "buf_grew s s"
  by (simp add: buf_grew_def)

lemma buf_grew_trans: "buf_grew s t \<Longrightarrow> buf_grew t u \<Longrightarrow> buf_grew s u"
  by (simp add: buf_grew_def grew_def)

lemma buf_grew_data [simp]: "buf_grew s (b\<lparr>buf_data := d\<rparr>, h) = buf_grew s (b, h)"
  by (simp add: buf_grew_def buf_blocks_def buf_bytes_def)

lemma grow_to_data:
  assumes "grow_to b need h = (ok, b', h')"
  shows "buf_data b' = buf_data b" "buf_max b' = buf_max b"
  using assms by (auto simp: grow_to_def Let_def split: if_splits prod.splits)

lemma grow_to_grow:
  assumes inv: "buf_inv b" and need: "need \<le> SIZE_MAX"
    and grow: "buf_cap b < need" "buf_max b \<noteq> 0 \<longrightarrow> need \<le> buf_max b"
  obtains c where "need \<le> c" "c \<le> SIZE_MAX" "buf_max b \<noteq> 0 \<longrightarrow> c \<le> buf_max b" "c \<le> 2 * need + 64"
    "64 \<le> c \<or> c = buf_max b"
    "\<forall>h. grow_to b need h =
      (case zuh_realloc (buf_block b) c h of
         (ok, h') \<Rightarrow> if ok then (True, b\<lparr>buf_cap := c\<rparr>, h') else (False, b, h'))"
proof -
  define c0 where "c0 = (if buf_cap b \<noteq> 0 then buf_cap b else 64)"
  have c0: "64 \<le> c0" "c0 \<le> SIZE_MAX"
    using inv grow by (auto simp: c0_def buf_inv_def SIZE_MAX_def)
  have mx: "buf_max b \<le> SIZE_MAX"
    using inv by (simp add: buf_inv_def)
  define c1 where "c1 = grow_cap (buf_max b) need c0"
  note ge = grow_cap_ge [OF c0 need grow(2) mx, folded c1_def]
  have le: "c1 \<le> 2 * need + 64"
    using grow_cap_le [OF c0 need grow(2) mx] grow(1) by (simp add: c0_def c1_def)
  have nfit: "\<not> need \<le> buf_cap b" and nover: "\<not> (buf_max b \<noteq> 0 \<and> need > buf_max b)"
    and same: "(if c1 < need then need else c1) = c1"
    using grow ge(3) by auto
  show thesis
  proof (rule that [of "if buf_max b \<noteq> 0 \<and> c1 > buf_max b then buf_max b else c1"])
    show "\<forall>h. grow_to b need h =
      (case zuh_realloc (buf_block b) (if buf_max b \<noteq> 0 \<and> c1 > buf_max b then buf_max b else c1) h of
         (ok, h') \<Rightarrow> if ok then (True, b\<lparr>buf_cap := if buf_max b \<noteq> 0 \<and> c1 > buf_max b
           then buf_max b else c1\<rparr>, h') else (False, b, h'))"
      unfolding grow_to_def Let_def c0_def [symmetric] c1_def [symmetric] if_not_P [OF nfit]
        if_not_P [OF nover] same by (intro allI refl)
  qed (use ge le grow mx in auto)
qed

lemma grow_to_spec:
  assumes inv: "buf_inv b" and need: "need \<le> SIZE_MAX"
    and g: "grow_to b need h = (ok, b', h')"
  shows "buf_inv b'" "ok \<Longrightarrow> need \<le> buf_cap b'" "buf_cap b \<le> buf_cap b'" "buf_grew (b, h) (b', h')"
    "\<not> ok \<Longrightarrow> buf_cap b' = buf_cap b"
proof -
  consider (fits) "need \<le> buf_cap b" | (over) "buf_cap b < need" "buf_max b \<noteq> 0" "buf_max b < need"
    | (grow) "buf_cap b < need" "buf_max b \<noteq> 0 \<longrightarrow> need \<le> buf_max b"
    by linarith
  then have "buf_inv b' \<and> (ok \<longrightarrow> need \<le> buf_cap b') \<and> buf_cap b \<le> buf_cap b'
    \<and> buf_grew (b, h) (b', h') \<and> (\<not> ok \<longrightarrow> buf_cap b' = buf_cap b)"
  proof cases
    case fits
    with g inv show ?thesis by (simp add: grow_to_def)
  next
    case over
    with g inv show ?thesis
      by (auto simp: grow_to_def buf_inv_def buf_grew_def buf_blocks_def buf_bytes_def)
  next
    case grow
    obtain c where
      c: "need \<le> c" "c \<le> SIZE_MAX" "buf_max b \<noteq> 0 \<longrightarrow> c \<le> buf_max b" "c \<le> 2 * need + 64" "64 \<le> c \<or> c = buf_max b"
      and eq: "\<forall>h. grow_to b need h =
        (case zuh_realloc (buf_block b) c h of
           (ok, h') \<Rightarrow> if ok then (True, b\<lparr>buf_cap := c\<rparr>, h') else (False, b, h'))"
      by (rule grow_to_grow [OF inv need grow])
    obtain ok' h'' where r: "zuh_realloc (buf_block b) c h = (ok', h'')"
      by (cases "zuh_realloc (buf_block b) c h")
    have res: "ok = ok'" "h' = h''" "b' = (if ok' then b\<lparr>buf_cap := c\<rparr> else b)"
      using g r by (auto simp: eq split: if_splits)
    have "buf_grew (b, h) (b', h')"
      using r res grow(1) c(1)
      by (cases "buf_cap b = 0")
        (auto simp: buf_grew_def buf_block_def buf_blocks_def buf_bytes_def dest!: zuh_alloc_grew zuh_realloc_grew)
    moreover have "buf_inv b'"
      using res inv c grow(1) by (simp add: buf_inv_def)
    ultimately show ?thesis
      using res c(1) grow(1) by simp
  qed
  then show "buf_inv b'" "ok \<Longrightarrow> need \<le> buf_cap b'" "buf_cap b \<le> buf_cap b'"
    "buf_grew (b, h) (b', h')" "\<not> ok \<Longrightarrow> buf_cap b' = buf_cap b"
    by blast+
qed

text \<open>
  The interface of an appending writer: what the components that build a request, a URL or
  a key out of pieces need to know of the buffer. An append adds its bytes or leaves the
  contents alone; \<open>rel\<close> is whatever else a step guarantees about the state it leaves.
\<close>

locale byte_writer =
  fixes append :: "bytes \<Rightarrow> 's \<Rightarrow> bool \<times> 's"
    and contents :: "'s \<Rightarrow> bytes"
    and inv :: "'s \<Rightarrow> bool"
    and rel :: "'s \<Rightarrow> 's \<Rightarrow> bool"
  assumes append_inv: "inv s \<Longrightarrow> append t s = (ok, s') \<Longrightarrow> inv s'"
    and append_ok: "inv s \<Longrightarrow> append t s = (True, s') \<Longrightarrow> contents s' = contents s @ t"
    and append_fail: "inv s \<Longrightarrow> append t s = (False, s') \<Longrightarrow> contents s' = contents s"
    and append_rel: "inv s \<Longrightarrow> append t s = (ok, s') \<Longrightarrow> rel s s'"
    and rel_refl: "rel s s"
    and rel_trans: "rel s s1 \<Longrightarrow> rel s1 s2 \<Longrightarrow> rel s s2"
begin

text \<open>
  \<open>writes t op\<close>: a successful \<open>op\<close> adds exactly \<open>t\<close>, a failed one some prefix of it.
\<close>

definition writes :: "bytes \<Rightarrow> ('s \<Rightarrow> bool \<times> 's) \<Rightarrow> bool" where
  "writes t op \<longleftrightarrow> (\<forall>s ok s'. inv s \<longrightarrow> op s = (ok, s') \<longrightarrow>
     inv s' \<and> rel s s' \<and> (ok \<longrightarrow> contents s' = contents s @ t)
       \<and> (\<not> ok \<longrightarrow> (\<exists>p q. t = p @ q \<and> contents s' = contents s @ p)))"

lemma writesI:
  assumes "\<And>s ok s'. inv s \<Longrightarrow> op s = (ok, s') \<Longrightarrow> inv s' \<and> rel s s'
    \<and> (ok \<longrightarrow> contents s' = contents s @ t)
    \<and> (\<not> ok \<longrightarrow> (\<exists>p q. t = p @ q \<and> contents s' = contents s @ p))"
  shows "writes t op"
  using assms unfolding writes_def by blast

lemma writesD:
  assumes "writes t op" "inv s" "op s = (ok, s')"
  shows "inv s'" "rel s s'" "ok \<Longrightarrow> contents s' = contents s @ t"
    "\<not> ok \<Longrightarrow> \<exists>p q. t = p @ q \<and> contents s' = contents s @ p"
  using assms unfolding writes_def by blast+

lemma writes_append: "writes t (append t)"
proof (rule writesI)
  fix s ok s' assume s: "inv s" and run: "append t s = (ok, s')"
  show "inv s' \<and> rel s s' \<and> (ok \<longrightarrow> contents s' = contents s @ t)
    \<and> (\<not> ok \<longrightarrow> (\<exists>p q. t = p @ q \<and> contents s' = contents s @ p))"
    using append_inv [OF s run] append_rel [OF s run] append_ok [OF s] append_fail [OF s] run
    by (cases ok) (auto intro: exI [of _ "[]"])
qed

lemma writes_nothing: "writes [] (\<lambda>s. (True, s))"
  by (rule writesI) (simp add: rel_refl)

lemma writes_c_and:
  assumes f: "writes t f" and g: "writes u g"
  shows "writes (t @ u) (c_and f g)"
proof (rule writesI)
  fix s ok s' assume s: "inv s" and run: "c_and f g s = (ok, s')"
  obtain ok1 s1 where f1: "f s = (ok1, s1)" by (cases "f s")
  note F = writesD [OF f s f1]
  show "inv s' \<and> rel s s' \<and> (ok \<longrightarrow> contents s' = contents s @ t @ u)
    \<and> (\<not> ok \<longrightarrow> (\<exists>p q. t @ u = p @ q \<and> contents s' = contents s @ p))"
  proof (cases ok1)
    case True
    with run f1 have g1: "g s1 = (ok, s')" by (simp add: c_and_def)
    note G = writesD [OF g F(1) g1]
    have "\<exists>p q. t @ u = p @ q \<and> contents s' = contents s @ p" if "\<not> ok"
    proof -
      from G(4) that obtain p q where "u = p @ q" "contents s' = contents s1 @ p"
        by blast
      with F(3) [OF True] have "t @ u = (t @ p) @ q \<and> contents s' = contents s @ (t @ p)"
        by simp
      then show ?thesis by blast
    qed
    then show ?thesis
      using G(1) rel_trans [OF F(2) G(2)] G(3) F(3) [OF True] by auto
  next
    case False
    with run f1 have "ok = False" "s' = s1" by (auto simp: c_and_def)
    moreover obtain p q where "t = p @ q" "contents s1 = contents s @ p"
      using F(4) [OF False] by blast
    moreover from this have "t @ u = p @ (q @ u)" by simp
    ultimately show ?thesis using F(1,2) by blast
  qed
qed

lemma c_all_Cons: "c_all (f # fs) = c_and f (c_all fs)"
  by (rule ext) (simp add: c_and_def)

lemma writes_c_all: "list_all2 writes ts fs \<Longrightarrow> writes (concat ts) (c_all fs)"
proof (induction rule: list_all2_induct)
  case Nil
  have "c_all [] = (\<lambda>s. (True, s))" by (rule ext) simp
  then show ?case using writes_nothing by simp
next
  case (Cons t ts f fs)
  then show ?case by (simp add: c_all_Cons writes_c_and del: c_all.simps)
qed

lemma writes_if: "(c \<Longrightarrow> writes t f) \<Longrightarrow> (\<not> c \<Longrightarrow> writes u g) \<Longrightarrow>
    writes (if c then t else u) (if c then f else g)"
  by simp

end

text \<open>What a step leaves alone: the cap, the accounting, and the flag, which is never cleared.\<close>

definition buf_rel :: "zuh_buffer \<times> heap \<Rightarrow> zuh_buffer \<times> heap \<Rightarrow> bool" where
  "buf_rel s s' \<longleftrightarrow> buf_grew s s' \<and> buf_max (fst s') = buf_max (fst s)
     \<and> (buf_hit_limit (fst s) \<longrightarrow> buf_hit_limit (fst s')) \<and> buf_cap (fst s) \<le> buf_cap (fst s')"

abbreviation buf_contents :: "zuh_buffer \<times> heap \<Rightarrow> bytes" where
  "buf_contents s \<equiv> buf_data (fst s)"

abbreviation buf_ok :: "zuh_buffer \<times> heap \<Rightarrow> bool" where
  "buf_ok s \<equiv> buf_inv (fst s)"

lemma grow_to_rel:
  assumes "buf_inv b" "need \<le> SIZE_MAX" "grow_to b need h = (ok, b', h')"
  shows "buf_rel (b, h) (b', h')"
proof -
  have "buf_hit_limit b \<longrightarrow> buf_hit_limit b'"
    using assms(3) by (auto simp: grow_to_def Let_def split: if_splits prod.splits)
  then show ?thesis
    using grow_to_spec(3,4) [OF assms] grow_to_data [OF assms(3)] by (simp add: buf_rel_def)
qed

lemma zuh_buf_append_spec:
  assumes inv: "buf_inv b" and run: "zuh_buf_append t (b, h) = (ok, b', h')"
  shows "buf_inv b'" "buf_rel (b, h) (b', h')" "buf_data b' = (if ok then buf_data b @ t else buf_data b)"
proof -
  have "buf_inv b' \<and> buf_rel (b, h) (b', h')
    \<and> buf_data b' = (if ok then buf_data b @ t else buf_data b)"
  proof (cases "t = [] \<or> zuh_size_add (buf_len b) (length t) = None")
    case True
    then show ?thesis
      using inv run by (auto simp: zuh_buf_append_def buf_rel_def split: if_splits)
  next
    case False
    then obtain need where need: "zuh_size_add (buf_len b) (length t) = Some need" by auto
    then have n: "need \<le> SIZE_MAX" "need = buf_len b + length t" by (auto simp: size_add_Some)
    obtain ok1 b1 h1 where g: "grow_to b need h = (ok1, b1, h1)"
      by (cases "grow_to b need h")
    note G = grow_to_spec [OF inv n(1) g] grow_to_data [OF g] grow_to_rel [OF inv n(1) g]
    have res: "ok = ok1" "h' = h1" "b' = (if ok1 then b1\<lparr>buf_data := buf_data b1 @ t\<rparr> else b1)"
      using run False need g by (auto simp: zuh_buf_append_def split: if_splits)
    show ?thesis
    proof (cases ok1)
      case True
      with res G n(2) show ?thesis by (simp add: buf_inv_def buf_rel_def)
    next
      case False
      with res G show ?thesis by simp
    qed
  qed
  then show "buf_inv b'" "buf_rel (b, h) (b', h')"
    "buf_data b' = (if ok then buf_data b @ t else buf_data b)"
    by simp_all
qed

interpretation bufw: byte_writer zuh_buf_append buf_contents buf_ok buf_rel
proof
  fix s t ok s'
  assume "buf_ok s" "zuh_buf_append t s = (ok, s')"
  then show "buf_ok s'" "buf_rel s s'"
    using zuh_buf_append_spec [of "fst s" t "snd s" ok "fst s'" "snd s'"] by simp_all
next
  fix s t s'
  assume "buf_ok s" "zuh_buf_append t s = (True, s')"
  then show "buf_contents s' = buf_contents s @ t"
    using zuh_buf_append_spec [of "fst s" t "snd s" True "fst s'" "snd s'"] by simp
next
  fix s t s'
  assume "buf_ok s" "zuh_buf_append t s = (False, s')"
  then show "buf_contents s' = buf_contents s"
    using zuh_buf_append_spec [of "fst s" t "snd s" False "fst s'" "snd s'"] by simp
qed (auto simp: buf_rel_def intro: buf_grew_trans)

lemma writes_str [intro]: "bufw.writes (c_string t) (zuh_buf_append_str t)"
  by (simp add: zuh_buf_append_str_def bufw.writes_append)

lemma writes_byte [intro]: "bufw.writes [c] (zuh_buf_append_byte c)"
  by (simp add: zuh_buf_append_byte_def bufw.writes_append)

section \<open>The other operations\<close>

lemma buf_append_data:
  "zuh_buf_append d (b, h) = (ok, b', h') \<Longrightarrow> buf_data b' = (if ok then buf_data b @ d else buf_data b)"
  by (auto simp: zuh_buf_append_def grow_to_def Let_def split: if_splits option.splits prod.splits)

lemma zuh_buf_init_spec:
  assumes mx: "mx \<le> SIZE_MAX" and ic: "initial_cap \<le> SIZE_MAX"
    and run: "zuh_buf_init initial_cap mx h = (ok, b, h')"
  shows "buf_inv b" "buf_data b = []" "buf_max b = mx" "buf_cap b \<noteq> 0 \<or> \<not> ok \<or> initial_cap = 0"
    "grew h h' (buf_blocks b) (buf_bytes b)" "\<not> buf_hit_limit b"
proof -
  define b0 where "b0 = \<lparr>buf_data = [], buf_cap = 0, buf_max = mx, buf_hit_limit = False\<rparr>"
  define c where "c = (if mx \<noteq> 0 \<and> initial_cap > mx then mx else initial_cap)"
  have inv: "buf_inv b0" and c: "c \<le> SIZE_MAX" and fits: "\<not> (mx \<noteq> 0 \<and> c > mx)"
    and c0: "c = 0 \<longleftrightarrow> initial_cap = 0"
    using mx ic by (auto simp: b0_def c_def buf_inv_def)
  have run': "(if c = 0 then (True, b0, h) else grow_to b0 c h) = (ok, b, h')"
    using run unfolding zuh_buf_init_def Let_def b0_def c_def .
  have "buf_inv b \<and> buf_data b = [] \<and> buf_max b = mx \<and> (buf_cap b \<noteq> 0 \<or> \<not> ok \<or> initial_cap = 0)
    \<and> grew h h' (buf_blocks b) (buf_bytes b) \<and> \<not> buf_hit_limit b"
  proof (cases "c = 0")
    case True
    with run' inv c0 show ?thesis by (auto simp: b0_def buf_blocks_def buf_bytes_def)
  next
    case False
    with run' have g: "grow_to b0 c h = (ok, b, h')" by simp
    have "\<not> buf_hit_limit b"
      using g fits by (auto simp: grow_to_def Let_def b0_def split: if_splits prod.splits)
    then show ?thesis
      using grow_to_spec [OF inv c g] grow_to_data [OF g] False
      by (auto simp: b0_def buf_grew_def buf_blocks_def buf_bytes_def)
  qed
  then show "buf_inv b" "buf_data b = []" "buf_max b = mx" "buf_cap b \<noteq> 0 \<or> \<not> ok \<or> initial_cap = 0"
    "grew h h' (buf_blocks b) (buf_bytes b)" "\<not> buf_hit_limit b"
    by blast+
qed

lemma zuh_buf_free_spec:
  assumes "buf_inv b" "zuh_buf_free b h = (b', h')"
  shows "buf_inv b'" "buf_data b' = []" "grew h h' (- buf_blocks b) (- buf_bytes b)"
  using assms zuh_free_grew [of h "buf_cap b"]
  by (auto simp: zuh_buf_free_def buf_inv_def buf_block_def buf_blocks_def buf_bytes_def)

lemma zuh_buf_cstr_spec:
  assumes inv: "buf_inv b" and run: "zuh_buf_cstr (b, h) = (ok, b', h')"
  shows "buf_inv b'" "buf_data b' = buf_data b" "buf_rel (b, h) (b', h')"
    "ok \<Longrightarrow> buf_len b' < buf_cap b'"
proof -
  have "buf_inv b' \<and> buf_data b' = buf_data b \<and> buf_rel (b, h) (b', h') \<and> (ok \<longrightarrow> buf_len b' < buf_cap b')"
  proof (cases "zuh_size_add (buf_len b) 1")
    case None
    with run inv show ?thesis by (auto simp: zuh_buf_cstr_def buf_rel_def)
  next
    case (Some need)
    then have n: "need \<le> SIZE_MAX" "need = buf_len b + 1" by (auto simp: size_add_Some)
    have g: "grow_to b need h = (ok, b', h')"
      using run Some by (simp add: zuh_buf_cstr_def)
    show ?thesis
      using grow_to_spec [OF inv n(1) g] grow_to_data [OF g] grow_to_rel [OF inv n(1) g] n(2) by auto
  qed
  then show "buf_inv b'" "buf_data b' = buf_data b" "buf_rel (b, h) (b', h')"
    "ok \<Longrightarrow> buf_len b' < buf_cap b'" by blast+
qed

lemma zuh_buf_reserve_spec:
  assumes inv: "buf_inv b" and run: "zuh_buf_reserve b extra h = (ok, b', h')"
  shows "buf_inv b'" "buf_data b' = buf_data b" "buf_rel (b, h) (b', h')"
proof -
  have "buf_inv b' \<and> buf_data b' = buf_data b \<and> buf_rel (b, h) (b', h')"
  proof (cases "zuh_size_add (buf_len b) extra")
    case None
    with run inv show ?thesis by (auto simp: zuh_buf_reserve_def buf_rel_def)
  next
    case (Some need)
    then have n: "need \<le> SIZE_MAX" by (auto simp: size_add_Some)
    have g: "grow_to b need h = (ok, b', h')"
      using run Some by (simp add: zuh_buf_reserve_def)
    show ?thesis
      using grow_to_spec [OF inv n g] grow_to_data [OF g] grow_to_rel [OF inv n g] by auto
  qed
  then show "buf_inv b'" "buf_data b' = buf_data b" "buf_rel (b, h) (b', h')" by blast+
qed

lemma zuh_buf_consume_data: "buf_data (zuh_buf_consume b n) = drop n (buf_data b)"
  by (simp add: zuh_buf_consume_def)

lemma zuh_buf_consume_inv: "buf_inv b \<Longrightarrow> buf_inv (zuh_buf_consume b n)"
  by (auto simp: zuh_buf_consume_def buf_inv_def)

lemma zuh_buf_reset_inv: "buf_inv b \<Longrightarrow> buf_inv (zuh_buf_reset b)"
  by (auto simp: zuh_buf_reset_def buf_inv_def)

text \<open>Twenty digits are enough for every 64-bit value, and come out most significant first.\<close>

lemma unat_div_10: "unat (v div 10 :: u64) = unat v div 10"
  by (simp add: unat_div_distrib)

lemma unat_mod_10: "unat (v mod 10 :: u64) = unat v mod 10"
  by (simp add: unat_mod_distrib)

lemma u64_digits_show:
  "unat v < 10 ^ i \<Longrightarrow> u64_digits i v tmp = (if v = 0 then tmp else show_nat (unat v) @ tmp)"
proof (induction i arbitrary: v tmp)
  case 0
  then have "v = 0" by (simp add: unat_eq_zero)
  then show ?case by simp
next
  case (Suc i)
  show ?case
  proof (cases "v = 0")
    case False
    then have pos: "v > 0" using word_neq_0_conv by blast
    have small: "unat (v div 10) < 10 ^ i"
      using Suc.prems unfolding unat_div_10 by (simp add: less_mult_imp_div_less)
    have zero: "v div 10 = 0 \<longleftrightarrow> unat v < 10"
      using unat_div_10 [of v] unat_eq_zero [of "v div 10"] by (simp add: div_eq_0_iff)
    show ?thesis
    proof (cases "unat v < 10")
      case True
      then have "v div 10 = 0" using zero by simp
      with True Suc.IH [OF small] pos show ?thesis
        by (simp add: show_nat.simps [of "unat v"] digit_char_def unat_mod_10)
    next
      case False
      then have "v div 10 \<noteq> 0" using zero by simp
      with False Suc.IH [OF small] pos show ?thesis
        by (simp add: show_nat.simps [of "unat v"] digit_char_def unat_mod_10 unat_div_10)
    qed
  qed simp
qed

lemma writes_u64: "bufw.writes (show_nat (unat v)) (zuh_buf_append_u64 v)"
proof (cases "v = 0")
  case True
  have "show_nat 0 = [CHR ''0'']"
    by (simp add: show_nat.simps [of 0] digit_char_0)
  with True show ?thesis
    using writes_byte [of "CHR ''0''"] by (simp add: zuh_buf_append_u64_def)
next
  case False
  have "unat v < 10 ^ 20"
    using unsigned_less [of v, where ?'a = nat] by simp
  then have "u64_digits 20 v [] = show_nat (unat v)"
    using False by (simp add: u64_digits_show)
  with False show ?thesis
    using bufw.writes_append [of "show_nat (unat v)"] by (simp add: zuh_buf_append_u64_def)
qed

lemma writes_cstr: "bufw.writes [] zuh_buf_cstr"
proof (rule bufw.writesI)
  fix s ok s' assume s: "buf_ok s" and run: "zuh_buf_cstr s = (ok, s')"
  show "buf_ok s' \<and> buf_rel s s' \<and> (ok \<longrightarrow> buf_contents s' = buf_contents s @ [])
    \<and> (\<not> ok \<longrightarrow> (\<exists>p q. [] = p @ q \<and> buf_contents s' = buf_contents s @ p))"
    using zuh_buf_cstr_spec [of "fst s" "snd s" ok "fst s'" "snd s'"] s run by simp
qed

text \<open>A text built in a fresh buffer: what is there when every append succeeded.\<close>

lemma writes_fresh:
  assumes "zuh_buf_init ic mx h = (True, b, h1)" "ic \<le> SIZE_MAX" "mx \<le> SIZE_MAX"
    and "bufw.writes t f" and "f (b, h1) = (True, b2, h2)"
  shows "buf_data b2 = t" "buf_inv b2"
  using bufw.writesD [OF assms(4) _ assms(5)] zuh_buf_init_spec [OF assms(3,2,1)] by simp_all

section \<open>Enough memory\<close>

text \<open>
  The contract extended with success: in a state with room for them, bytes are written.
  The room of a buffer is what its cap and the address space leave, less the byte that
  \<^verbatim>\<open>zuh_buf_cstr\<close> may add, on a heap where no allocation fails.
\<close>

locale total_writer = byte_writer append contents inv rel
  for append :: "bytes \<Rightarrow> 's \<Rightarrow> bool \<times> 's" and contents inv rel +
  fixes room :: "'s \<Rightarrow> nat \<Rightarrow> bool"
  assumes append_total: "room s (length t + n) \<Longrightarrow> \<exists>s'. append t s = (True, s') \<and> room s' n"
begin

definition fills :: "bytes \<Rightarrow> ('s \<Rightarrow> bool \<times> 's) \<Rightarrow> bool" where
  "fills t f \<longleftrightarrow> (\<forall>s n. room s (length t + n) \<longrightarrow> (\<exists>s'. f s = (True, s') \<and> room s' n))"

lemma fills_append: "fills t (append t)"
  by (simp add: fills_def append_total)

lemma fills_nothing: "fills [] (\<lambda>s. (True, s))"
  by (simp add: fills_def)

lemma fills_c_and: "fills t f \<Longrightarrow> fills u g \<Longrightarrow> fills (t @ u) (c_and f g)"
  by (fastforce simp: fills_def c_and_def add.assoc)

lemma fills_c_all: "list_all2 fills ts fs \<Longrightarrow> fills (concat ts) (c_all fs)"
proof (induction rule: list_all2_induct)
  case Nil
  have "c_all [] = (\<lambda>s. (True, s))" by (rule ext) simp
  then show ?case using fills_nothing by simp
next
  case (Cons t ts f fs)
  then show ?case by (simp add: c_all_Cons fills_c_and del: c_all.simps)
qed

text \<open>\<open>exact t f\<close>: the operation writes \<open>t\<close>, and does so whenever there is room for it.\<close>

definition exact :: "bytes \<Rightarrow> ('s \<Rightarrow> bool \<times> 's) \<Rightarrow> bool" where
  "exact t f \<longleftrightarrow> writes t f \<and> fills t f"

lemma exact_append: "exact t (append t)"
  by (simp add: exact_def fills_append writes_append)

lemma exact_nothing: "exact [] (\<lambda>s. (True, s))"
  by (simp add: exact_def fills_nothing writes_nothing)

lemma exact_c_and: "exact t f \<Longrightarrow> exact u g \<Longrightarrow> exact (t @ u) (c_and f g)"
  by (simp add: exact_def fills_c_and writes_c_and)

lemma exact_c_all: "list_all2 exact ts fs \<Longrightarrow> exact (concat ts) (c_all fs)"
proof (induction rule: list_all2_induct)
  case Nil
  have "c_all [] = (\<lambda>s. (True, s))" by (rule ext) simp
  then show ?case using exact_nothing by simp
next
  case (Cons t ts f fs)
  then show ?case by (simp add: c_all_Cons exact_c_and del: c_all.simps)
qed

lemma exactD:
  assumes "exact t f" "inv s" "f s = (ok, s')"
  shows "inv s'" "rel s s'" "ok \<Longrightarrow> contents s' = contents s @ t"
  using writesD [of t f s ok s'] assms by (simp_all add: exact_def)

lemma exact_total: "exact t f \<Longrightarrow> room s (length t + n) \<Longrightarrow> fst (f s)"
  unfolding exact_def fills_def by fastforce

end

definition buf_room :: "zuh_buffer \<times> heap \<Rightarrow> nat \<Rightarrow> bool" where
  "buf_room s n \<longleftrightarrow> buf_inv (fst s) \<and> plenty (snd s)
     \<and> buf_len (fst s) + n + 1 \<le> (if buf_max (fst s) = 0 then 2 ^ 62 else min (buf_max (fst s)) (2 ^ 62))"

lemma grow_to_plenty:
  assumes inv: "buf_inv b" and h: "plenty h"
    and need: "need \<le> 2 ^ 62" "buf_max b \<noteq> 0 \<longrightarrow> need \<le> buf_max b"
  shows "\<exists>c h'. grow_to b need h = (True, b\<lparr>buf_cap := c\<rparr>, h') \<and> plenty h'"
proof (cases "need \<le> buf_cap b")
  case True
  with h show ?thesis by (auto simp: grow_to_def intro: exI [of _ "buf_cap b"])
next
  case False
  have "need \<le> SIZE_MAX" using need(1) by (simp add: SIZE_MAX_def)
  moreover have "buf_cap b < need" using False by simp
  ultimately obtain c where c: "need \<le> c" "c \<le> SIZE_MAX" "buf_max b \<noteq> 0 \<longrightarrow> c \<le> buf_max b"
      "c \<le> 2 * need + 64" "64 \<le> c \<or> c = buf_max b"
    and eq: "\<forall>h. grow_to b need h =
        (case zuh_realloc (buf_block b) c h of
           (ok, h') \<Rightarrow> if ok then (True, b\<lparr>buf_cap := c\<rparr>, h') else (False, b, h'))"
    by (rule grow_to_grow [OF inv _ _ need(2)])
  have "c + ZUH_HDR \<le> SIZE_MAX" using c(4) need(1) by (simp add: SIZE_MAX_def ZUH_HDR_def)
  from zuh_realloc_plenty [OF h this, of "buf_block b"] show ?thesis by (auto simp: eq)
qed

lemma buf_append_room:
  assumes "buf_room s (length t + n)"
  shows "\<exists>s'. zuh_buf_append t s = (True, s') \<and> buf_room s' n"
proof -
  obtain b h where s: "s = (b, h)" by (rule prod.exhaust)
  have a: "buf_inv b" "plenty h" "buf_len b + length t + n + 1 \<le> 2 ^ 62"
    "buf_max b \<noteq> 0 \<longrightarrow> buf_len b + length t + n + 1 \<le> buf_max b"
    using assms s by (auto simp: buf_room_def split: if_splits)
  show ?thesis
  proof (cases "t = []")
    case True
    with assms s show ?thesis by (simp add: zuh_buf_append_def)
  next
    case False
    have sz: "zuh_size_add (buf_len b) (length t) = Some (buf_len b + length t)"
      using a(3) by (simp add: size_add_Some SIZE_MAX_def)
    obtain c h' where g: "grow_to b (buf_len b + length t) h = (True, b\<lparr>buf_cap := c\<rparr>, h')" "plenty h'"
      using grow_to_plenty [OF a(1,2), of "buf_len b + length t"] a(3,4) by auto
    then have run: "zuh_buf_append t (b, h) = (True, b\<lparr>buf_cap := c, buf_data := buf_data b @ t\<rparr>, h')"
      using False sz by (simp add: zuh_buf_append_def)
    then have "buf_inv (b\<lparr>buf_cap := c, buf_data := buf_data b @ t\<rparr>)"
      by (rule zuh_buf_append_spec(1) [OF a(1)])
    with run g(2) a s show ?thesis by (auto simp: buf_room_def)
  qed
qed

interpretation buft: total_writer zuh_buf_append buf_contents buf_ok buf_rel buf_room
  by unfold_locales (rule buf_append_room)

lemma fills_cstr: "buft.fills [] zuh_buf_cstr"
  unfolding buft.fills_def
proof (intro allI impI)
  fix s :: "zuh_buffer \<times> heap" and n assume r: "buf_room s (length [] + n)"
  obtain b h where s: "s = (b, h)" by (rule prod.exhaust)
  have a: "buf_inv b" "plenty h" "buf_len b + n + 1 \<le> 2 ^ 62"
    "buf_max b \<noteq> 0 \<longrightarrow> buf_len b + n + 1 \<le> buf_max b"
    using r s by (auto simp: buf_room_def split: if_splits)
  have sz: "zuh_size_add (buf_len b) 1 = Some (buf_len b + 1)"
    using a(3) by (simp add: size_add_Some SIZE_MAX_def)
  obtain c h' where g: "grow_to b (buf_len b + 1) h = (True, b\<lparr>buf_cap := c\<rparr>, h')" "plenty h'"
    using grow_to_plenty [OF a(1,2), of "buf_len b + 1"] a(3,4) by auto
  then have run: "zuh_buf_cstr (b, h) = (True, b\<lparr>buf_cap := c\<rparr>, h')"
    using sz by (simp add: zuh_buf_cstr_def)
  with zuh_buf_cstr_spec(1) [OF a(1) run] g(2) a s
  show "\<exists>s'. zuh_buf_cstr s = (True, s') \<and> buf_room s' n" by (auto simp: buf_room_def)
qed

lemma exact_byte: "buft.exact [c] (zuh_buf_append_byte c)"
  by (simp add: zuh_buf_append_byte_def buft.exact_append)

lemma exact_str: "buft.exact (c_string t) (zuh_buf_append_str t)"
  by (simp add: zuh_buf_append_str_def buft.exact_append)

lemma exact_cstr: "buft.exact [] zuh_buf_cstr"
  by (simp add: buft.exact_def fills_cstr writes_cstr)

lemma zuh_buf_init_room:
  assumes "plenty h" "ic \<le> 2 ^ 62" "mx \<le> SIZE_MAX" "n + 1 \<le> 2 ^ 62" "mx \<noteq> 0 \<longrightarrow> n + 1 \<le> mx"
  shows "\<exists>b h'. zuh_buf_init ic mx h = (True, b, h') \<and> buf_room (b, h') n \<and> buf_data b = [] \<and> buf_max b = mx"
proof -
  obtain ok b h' where run: "zuh_buf_init ic mx h = (ok, b, h')" by (rule prod_cases3)
  have ic: "ic \<le> SIZE_MAX" using assms(2) by (simp add: SIZE_MAX_def)
  note I = zuh_buf_init_spec [OF assms(3) ic run]
  define c where "c = (if mx \<noteq> 0 \<and> ic > mx then mx else ic)"
  define b0 where "b0 = \<lparr>buf_data = [], buf_cap = 0, buf_max = mx, buf_hit_limit = False\<rparr>"
  have b0: "buf_inv b0" using assms(3) by (simp add: b0_def buf_inv_def)
  have c: "c \<le> 2 ^ 62" "buf_max b0 \<noteq> 0 \<longrightarrow> c \<le> buf_max b0"
    using assms(2) by (auto simp: c_def b0_def)
  have "zuh_buf_init ic mx h = (if c = 0 then (True, b0, h) else grow_to b0 c h)"
    by (simp add: zuh_buf_init_def c_def b0_def Let_def)
  with grow_to_plenty [OF b0 assms(1) c] run assms(1) have "ok" "plenty h'"
    by (auto split: if_splits)
  with run I assms(4,5) show ?thesis by (auto simp: buf_room_def)
qed

text \<open>No operation spoils a heap on which every request succeeds.\<close>

definition keeps_plenty :: "(zuh_buffer \<times> heap \<Rightarrow> bool \<times> zuh_buffer \<times> heap) \<Rightarrow> bool" where
  "keeps_plenty f \<longleftrightarrow> (\<forall>s ok s'. f s = (ok, s') \<longrightarrow> plenty (snd s) \<longrightarrow> plenty (snd s'))"

lemma plenty_grow: "grow_to b n h = (ok, b', h') \<Longrightarrow> plenty h \<Longrightarrow> plenty h'"
  by (auto simp: grow_to_def Let_def split: if_splits prod.splits dest: plenty_realloc)

lemma keeps_append: "keeps_plenty (zuh_buf_append t)"
  by (auto simp: keeps_plenty_def zuh_buf_append_def split: prod.splits option.splits if_splits dest: plenty_grow)

lemma keeps_cstr: "keeps_plenty zuh_buf_cstr"
  by (auto simp: keeps_plenty_def zuh_buf_cstr_def split: prod.splits option.splits if_splits dest: plenty_grow)

lemma keeps_c_and: "keeps_plenty f \<Longrightarrow> keeps_plenty g \<Longrightarrow> keeps_plenty (c_and f g)"
  by (fastforce simp: keeps_plenty_def c_and_def split: prod.splits if_splits)

lemma keeps_c_all: "list_all keeps_plenty fs \<Longrightarrow> keeps_plenty (c_all fs)"
proof (induction fs)
  case (Cons f fs)
  have "c_all (f # fs) = c_and f (c_all fs)" by (rule ext) (simp add: c_and_def)
  with Cons show ?case by (simp add: keeps_c_and del: c_all.simps)
qed (simp add: keeps_plenty_def)

lemma keepsD: "f s = (ok, s') \<Longrightarrow> plenty (snd s) \<Longrightarrow> keeps_plenty f \<Longrightarrow> plenty (snd s')"
  unfolding keeps_plenty_def by blast

lemma plenty_buf_init: "zuh_buf_init i m h = (ok, b, h') \<Longrightarrow> plenty h \<Longrightarrow> plenty h'"
  by (auto simp: zuh_buf_init_def Let_def split: if_splits dest: plenty_grow)

definition empty_buffer :: zuh_buffer where
  "empty_buffer = \<lparr>buf_data = [], buf_cap = 0, buf_max = 0, buf_hit_limit = False\<rparr>"

lemma empty_buffer_simps [simp]: "buf_data empty_buffer = []" "buf_inv empty_buffer" "buf_max empty_buffer = 0"
  by (simp_all add: empty_buffer_def buf_inv_def)

lemma empty_buffer_room [simp]: "buf_room (empty_buffer, fresh_heap) n \<longleftrightarrow> n < 2 ^ 62"
  by (auto simp: buf_room_def)

section \<open>Any sequence of operations\<close>

datatype buf_op =
    BAppend bytes
  | BAppendStr bytes
  | BAppendU64 u64
  | BReserve nat
  | BConsume nat
  | BReset
  | BCstr

fun buf_step :: "buf_op \<Rightarrow> zuh_buffer \<times> heap \<Rightarrow> zuh_buffer \<times> heap" where
  "buf_step (BAppend t) s = snd (zuh_buf_append t s)"
| "buf_step (BAppendStr t) s = snd (zuh_buf_append_str t s)"
| "buf_step (BAppendU64 v) s = snd (zuh_buf_append_u64 v s)"
| "buf_step (BReserve n) s = snd (zuh_buf_reserve (fst s) n (snd s))"
| "buf_step (BConsume n) s = (zuh_buf_consume (fst s) n, snd s)"
| "buf_step BReset s = (zuh_buf_reset (fst s), snd s)"
| "buf_step BCstr s = snd (zuh_buf_cstr s)"

lemma writes_step: "bufw.writes t f \<Longrightarrow> buf_ok s \<Longrightarrow> buf_ok (snd (f s)) \<and> buf_rel s (snd (f s))"
  using bufw.writesD(1,2) [of t f s "fst (f s)" "snd (f s)"] by simp

lemma buf_rel_shrink: "buf_rel (b, h) (b\<lparr>buf_data := d\<rparr>, h)"
  by (simp add: buf_rel_def buf_grew_def buf_blocks_def buf_bytes_def)

lemma buf_step_ok:
  assumes "buf_ok s"
  shows "buf_ok (buf_step x s) \<and> buf_rel s (buf_step x s)"
proof (cases x)
  case (BReserve n)
  obtain ok b' h' where run: "zuh_buf_reserve (fst s) n (snd s) = (ok, b', h')"
    by (rule prod_cases3)
  with assms BReserve show ?thesis
    using zuh_buf_reserve_spec [OF assms run] by simp
next
  case BCstr
  obtain ok b' h' where run: "zuh_buf_cstr (fst s, snd s) = (ok, b', h')"
    by (rule prod_cases3)
  with assms BCstr show ?thesis
    using zuh_buf_cstr_spec [OF assms run] by simp
next
  case (BConsume n)
  with assms zuh_buf_consume_inv [OF assms, of n] show ?thesis
    using buf_rel_shrink [of "fst s" "snd s" "drop n (buf_data (fst s))"]
      buf_rel_shrink [of "fst s" "snd s" "[]"]
    by (simp add: zuh_buf_consume_def)
next
  case BReset
  with assms zuh_buf_reset_inv [OF assms] show ?thesis
    using buf_rel_shrink [of "fst s" "snd s" "[]"] by (simp add: zuh_buf_reset_def)
next
  case (BAppend t)
  then show ?thesis using writes_step [OF bufw.writes_append assms] by simp
next
  case (BAppendStr t)
  then show ?thesis using writes_step [OF writes_str assms] by simp
next
  case (BAppendU64 v)
  then show ?thesis using writes_step [OF writes_u64 assms] by simp
qed

lemma buf_steps_ok:
  "buf_ok s \<Longrightarrow> buf_ok (fold buf_step xs s) \<and> buf_rel s (fold buf_step xs s)"
proof (induction xs arbitrary: s)
  case (Cons x xs)
  from buf_step_ok [OF Cons.prems] Cons.IH [of "buf_step x s"] show ?case
    by (auto intro: bufw.rel_trans)
qed (simp add: bufw.rel_refl)

lemma grow_to_fail:
  assumes "grow_to b need h = (ok, b', h')" "\<not> ok"
  shows "(buf_max b \<noteq> 0 \<and> buf_max b < need \<and> buf_hit_limit b')
    \<or> (\<exists>c. \<not> fst (zuh_realloc (buf_block b) c h))"
proof (cases "buf_max b \<noteq> 0 \<and> need > buf_max b")
  case True
  with assms show ?thesis by (auto simp: grow_to_def split: if_splits)
next
  case False
  show ?thesis
  proof (rule ccontr)
    assume "\<not> ?thesis"
    then have "fst (zuh_realloc (buf_block b) c h)" for c by blast
    with assms False show False
      by (simp add: grow_to_def Let_def prod.case_eq_if del: fst_conv split: if_splits)
  qed
qed

section \<open>Properties\<close>

text \<open>
  The growth loop of \<^verbatim>\<open>grow_to\<close>, which would spin for ever on a capacity of 1, stops on
  every buffer the module can produce, and stops with room for what was asked.
\<close>
lemma buffer_growth_terminates:
  assumes "buf_inv b" and "buf_cap b < need" and "need \<le> SIZE_MAX"
    and "buf_max b \<noteq> 0 \<longrightarrow> need \<le> buf_max b"
  shows "\<exists>cap brk. while_option (grow_cond need) (grow_body (buf_max b) need)
             (if buf_cap b \<noteq> 0 then buf_cap b else 64, False) = Some (cap, brk)
           \<and> need \<le> cap \<and> cap \<le> SIZE_MAX"
proof -
  let ?c0 = "if buf_cap b \<noteq> 0 then buf_cap b else 64"
  have c0: "64 \<le> ?c0" "?c0 \<le> SIZE_MAX" and mx: "buf_max b \<le> SIZE_MAX"
    using assms by (auto simp: buf_inv_def SIZE_MAX_def)
  obtain s where s: "while_option (grow_cond need) (grow_body (buf_max b) need) (?c0, False) = Some s"
    using grow_cap_terminates [OF c0 assms(3,4) mx] by blast
  then have "grow_cap (buf_max b) need ?c0 = fst s"
    by (simp add: grow_cap_def while_def)
  with s grow_cap_ge [OF c0 assms(3,4) mx] show ?thesis
    by (cases s) auto
qed

definition example_buffer :: zuh_buffer where
  "example_buffer = \<lparr>buf_data = [], buf_cap = 64, buf_max = 200, buf_hit_limit = False\<rparr>"

lemma buffer_growth_terminates_witness:
  "\<exists>cap brk. while_option (grow_cond 100) (grow_body 200 100) (64, False) = Some (cap, brk)
     \<and> 100 \<le> cap \<and> cap \<le> SIZE_MAX"
  using buffer_growth_terminates [of example_buffer 100]
  by (simp add: example_buffer_def buf_inv_def SIZE_MAX_def)

text \<open>
  An append either adds exactly its bytes or changes no byte; it fails only for a
  length past \<^verbatim>\<open>SIZE_MAX\<close>, for the cap (and then the cap is reported) or for the allocator;
  and the contents always fit the allocation and the cap.
\<close>
lemma buffer_append_exact:
  assumes inv: "buf_inv b" and run: "zuh_buf_append t (b, h) = (ok, b', h')"
  shows "buf_inv b' \<and> buf_data b' = (if ok then buf_data b @ t else buf_data b)
    \<and> (buf_max b \<noteq> 0 \<and> buf_max b < buf_len b + length t \<and> t \<noteq> [] \<longrightarrow> \<not> ok)
    \<and> (\<not> ok \<longrightarrow> SIZE_MAX < buf_len b + length t
           \<or> (buf_max b \<noteq> 0 \<and> buf_max b < buf_len b + length t \<and> buf_hit_limit b')
           \<or> (\<exists>c. \<not> fst (zuh_realloc (buf_block b) c h)))"
proof (intro conjI impI)
  show "buf_inv b'" "buf_data b' = (if ok then buf_data b @ t else buf_data b)"
    by (fact zuh_buf_append_spec [OF inv run])+
  show "SIZE_MAX < buf_len b + length t
       \<or> (buf_max b \<noteq> 0 \<and> buf_max b < buf_len b + length t \<and> buf_hit_limit b')
       \<or> (\<exists>c. \<not> fst (zuh_realloc (buf_block b) c h))" if "\<not> ok"
  proof (cases "zuh_size_add (buf_len b) (length t)")
    case None
    then show ?thesis by (simp add: size_add_None)
  next
    case (Some need)
    then have need: "need = buf_len b + length t" by (simp add: size_add_Some)
    obtain ok1 b1 h1 where g: "grow_to b need h = (ok1, b1, h1)" by (rule prod_cases3)
    have "\<not> ok1" "b' = b1"
      using run that Some g by (auto simp: zuh_buf_append_def split: if_splits)
    with grow_to_fail [OF g] need show ?thesis by auto
  qed
  show "\<not> ok" if "buf_max b \<noteq> 0 \<and> buf_max b < buf_len b + length t \<and> t \<noteq> []"
  proof
    assume ok
    with zuh_buf_append_spec [OF inv run] that show False
      by (auto simp: buf_inv_def buf_rel_def)
  qed
qed

lemma buffer_append_exact_witness:
  "\<not> fst (zuh_buf_append (replicate 201 (CHR ''x'')) (example_buffer, fresh_heap))"
proof -
  have inv: "buf_inv example_buffer" by (simp add: example_buffer_def buf_inv_def SIZE_MAX_def)
  obtain ok b' h' where run: "zuh_buf_append (replicate 201 (CHR ''x'')) (example_buffer, fresh_heap)
      = (ok, b', h')" by (rule prod_cases3)
  with buffer_append_exact [OF inv run] show ?thesis
    by (simp add: example_buffer_def)
qed

text \<open>
  No sequence of operations leaks or loses an allocation: from initialisation through
  any operations to \<^verbatim>\<open>zuh_buf_free\<close>, under any pattern of allocation failures, the live
  blocks and bytes end where they began, and the invariant held in between.
\<close>
lemma buffer_allocation_balance:
  assumes "mx \<le> SIZE_MAX" and "initial_cap \<le> SIZE_MAX"
    and "zuh_buf_init initial_cap mx h = (ok, b, h1)"
    and "fold buf_step ops (b, h1) = (b2, h2)"
  shows "buf_inv b2 \<and> grew h (snd (zuh_buf_free b2 h2)) 0 0"
proof -
  note init = zuh_buf_init_spec [OF assms(1-3)]
  have inv: "buf_inv b2" and rel: "buf_rel (b, h1) (b2, h2)"
    using buf_steps_ok [of "(b, h1)" ops] init(1) assms(4) by simp_all
  obtain b3 h3 where free: "zuh_buf_free b2 h2 = (b3, h3)" by fastforce
  show ?thesis
    using init(5) inv rel zuh_buf_free_spec(3) [OF inv free] free
    by (auto simp: buf_rel_def buf_grew_def grew_def)
qed

lemma buffer_allocation_balance_witness:
  "grew fresh_heap (snd (zuh_buf_free
     (\<lparr>buf_data = ''ab'', buf_cap = 64, buf_max = 0, buf_hit_limit = False\<rparr>)
     (fresh_heap\<lparr>live_blocks := 1, live_bytes := 64, total_allocs := 1, peak_bytes := 64\<rparr>))) 0 0"
proof -
  have init: "zuh_buf_init 0 0 fresh_heap =
     (True, \<lparr>buf_data = [], buf_cap = 0, buf_max = 0, buf_hit_limit = False\<rparr>, fresh_heap)"
    by (simp add: zuh_buf_init_def)
  have step: "fold buf_step [BAppend ''ab'']
       (\<lparr>buf_data = [], buf_cap = 0, buf_max = 0, buf_hit_limit = False\<rparr>, fresh_heap) =
     (\<lparr>buf_data = ''ab'', buf_cap = 64, buf_max = 0, buf_hit_limit = False\<rparr>,
      fresh_heap\<lparr>live_blocks := 1, live_bytes := 64, total_allocs := 1, peak_bytes := 64\<rparr>)"
    by (simp add: zuh_buf_append_def size_add_Some zuh_size_add_def SIZE_MAX_def grow_to_def Let_def
        grow_cap_def grow_cond_def while_unfold buf_block_def zuh_alloc_def ZUH_HDR_def
        should_fail_def sys_malloc_def note_alloc_def note_peak_def fresh_heap_def)
  show ?thesis
    using buffer_allocation_balance [OF _ _ init step] by (simp add: SIZE_MAX_def)
qed

text \<open>
  \<^verbatim>\<open>zuh_buf_append_u64\<close> writes the decimal numeral of every 64-bit value, in full or not
  at all.
\<close>
lemma append_u64_decimal:
  assumes "buf_inv b" and "zuh_buf_append_u64 v (b, h) = (ok, b', h')"
  shows "buf_data b' = (if ok then buf_data b @ show_nat (unat v) else buf_data b)"
proof (cases ok)
  case True
  with assms bufw.writesD(3) [OF writes_u64, of "(b, h)" v ok "(b', h')"] show ?thesis by simp
next
  case False
  then have "buf_data b' = buf_data b"
    using assms zuh_buf_append_spec(3) [OF assms(1)]
    by (auto simp: zuh_buf_append_u64_def zuh_buf_append_byte_def split: if_splits)
  with False show ?thesis by simp
qed

lemma append_u64_decimal_witness:
  "\<exists>b' h'. zuh_buf_append_u64 18446744073709551615 (example_buffer, fresh_heap) = (True, b', h')
     \<and> buf_data b' = show_nat 18446744073709551615"
proof -
  have inv: "buf_inv example_buffer" by (simp add: example_buffer_def buf_inv_def SIZE_MAX_def)
  obtain ok b' h' where run: "zuh_buf_append_u64 18446744073709551615 (example_buffer, fresh_heap)
      = (ok, b', h')" by (rule prod_cases3)
  have num: "unat (18446744073709551615 :: u64) = 18446744073709551615" by simp
  then have digits: "u64_digits 20 18446744073709551615 [] = show_nat 18446744073709551615"
    by (subst u64_digits_show) simp_all
  have "length (show_nat 18446744073709551615) = 20" by (simp add: show_nat.simps)
  with digits have ok
    using run by (simp add: zuh_buf_append_u64_def zuh_buf_append_def example_buffer_def
        zuh_size_add_def SIZE_MAX_def grow_to_def)
  with append_u64_decimal [OF inv run] run show ?thesis
    by (simp add: example_buffer_def)
qed

text \<open>
  The limit flag outlives the failure it describes: once a buffer has refused bytes
  for its cap, every later failure, an allocation failure included, is reported as the cap.
\<close>
lemma hit_limit_sticky:
  assumes "buf_ok s" and "zuh_buf_hit_limit (fst s)"
  shows "zuh_buf_hit_limit (fst (fold buf_step ops s))"
  using buf_steps_ok [OF assms(1), of ops] assms(2) by (simp add: buf_rel_def zuh_buf_hit_limit_def)

lemma hit_limit_sticky_witness:
  "zuh_buf_hit_limit (fst (fold buf_step [BReset, BConsume 3, BAppend ''abc'']
     (example_buffer\<lparr>buf_hit_limit := True\<rparr>, fresh_heap)))"
  by (rule hit_limit_sticky)
    (simp_all add: example_buffer_def buf_inv_def SIZE_MAX_def zuh_buf_hit_limit_def)

end
