(* ===== verification/Zuh_Error.thy ===== *)
theory Zuh_Error
  imports Zuh_Prelude
begin

text \<open>
  \<^verbatim>\<open>src/zuh_error.h\<close> and \<^verbatim>\<open>src/zuh_error.c\<close>: the stable error codes, the error object a
  failing call fills in, and the class chain an R condition carries. The enum values are
  the datatype's constructors in the source's order, and the order of the type class
  \<^verbatim>\<open>linorder\<close> is the order of the C enum, so \<^verbatim>\<open>code >= ZUH_CODE_PUBLIC_COUNT\<close> reads
  the same here. The out-of-range guards of the C functions (an \<^verbatim>\<open>int\<close> outside the enum)
  have no counterpart in the datatype.
\<close>

section \<open>Codes and phases\<close>

datatype zuh_code =
    ZUH_OK
  | ZUH_ERR_NOMEM
  | ZUH_ERR_OVERFLOW
  | ZUH_ERR_DNS
  | ZUH_ERR_CONNECT
  | ZUH_ERR_TIMEOUT
  | ZUH_ERR_TLS
  | ZUH_ERR_TLS_CERT
  | ZUH_ERR_TLS_HOSTNAME
  | ZUH_ERR_TLS_HANDSHAKE
  | ZUH_ERR_TLS_PIN
  | ZUH_ERR_TLS_UNSUPPORTED
  | ZUH_ERR_PARSE
  | ZUH_ERR_URL
  | ZUH_ERR_PROXY
  | ZUH_ERR_PROXY_AUTH
  | ZUH_ERR_REDIRECT
  | ZUH_ERR_TOO_MANY_REDIRECTS
  | ZUH_ERR_BODY_LIMIT
  | ZUH_ERR_BODY_DECODE
  | ZUH_ERR_BODY_NOT_REPLAYABLE
  | ZUH_ERR_HTTP_STATUS
  | ZUH_ERR_HTTP_CLIENT
  | ZUH_ERR_HTTP_SERVER
  | ZUH_ERR_CANCELLED
  | ZUH_ERR_INTERRUPTED
  | ZUH_ERR_FORK
  | ZUH_ERR_IO
  | ZUH_ERR_CLOSED
  | ZUH_ERR_WOULDBLOCK

definition all_codes :: "zuh_code list" where
  "all_codes =
     [ZUH_OK, ZUH_ERR_NOMEM, ZUH_ERR_OVERFLOW, ZUH_ERR_DNS, ZUH_ERR_CONNECT, ZUH_ERR_TIMEOUT,
      ZUH_ERR_TLS, ZUH_ERR_TLS_CERT, ZUH_ERR_TLS_HOSTNAME, ZUH_ERR_TLS_HANDSHAKE, ZUH_ERR_TLS_PIN,
      ZUH_ERR_TLS_UNSUPPORTED, ZUH_ERR_PARSE, ZUH_ERR_URL, ZUH_ERR_PROXY, ZUH_ERR_PROXY_AUTH,
      ZUH_ERR_REDIRECT, ZUH_ERR_TOO_MANY_REDIRECTS, ZUH_ERR_BODY_LIMIT, ZUH_ERR_BODY_DECODE,
      ZUH_ERR_BODY_NOT_REPLAYABLE, ZUH_ERR_HTTP_STATUS, ZUH_ERR_HTTP_CLIENT, ZUH_ERR_HTTP_SERVER,
      ZUH_ERR_CANCELLED, ZUH_ERR_INTERRUPTED, ZUH_ERR_FORK, ZUH_ERR_IO, ZUH_ERR_CLOSED,
      ZUH_ERR_WOULDBLOCK]"

fun code_val :: "zuh_code \<Rightarrow> nat" where
  "code_val ZUH_OK = 0"
| "code_val ZUH_ERR_NOMEM = 1"
| "code_val ZUH_ERR_OVERFLOW = 2"
| "code_val ZUH_ERR_DNS = 3"
| "code_val ZUH_ERR_CONNECT = 4"
| "code_val ZUH_ERR_TIMEOUT = 5"
| "code_val ZUH_ERR_TLS = 6"
| "code_val ZUH_ERR_TLS_CERT = 7"
| "code_val ZUH_ERR_TLS_HOSTNAME = 8"
| "code_val ZUH_ERR_TLS_HANDSHAKE = 9"
| "code_val ZUH_ERR_TLS_PIN = 10"
| "code_val ZUH_ERR_TLS_UNSUPPORTED = 11"
| "code_val ZUH_ERR_PARSE = 12"
| "code_val ZUH_ERR_URL = 13"
| "code_val ZUH_ERR_PROXY = 14"
| "code_val ZUH_ERR_PROXY_AUTH = 15"
| "code_val ZUH_ERR_REDIRECT = 16"
| "code_val ZUH_ERR_TOO_MANY_REDIRECTS = 17"
| "code_val ZUH_ERR_BODY_LIMIT = 18"
| "code_val ZUH_ERR_BODY_DECODE = 19"
| "code_val ZUH_ERR_BODY_NOT_REPLAYABLE = 20"
| "code_val ZUH_ERR_HTTP_STATUS = 21"
| "code_val ZUH_ERR_HTTP_CLIENT = 22"
| "code_val ZUH_ERR_HTTP_SERVER = 23"
| "code_val ZUH_ERR_CANCELLED = 24"
| "code_val ZUH_ERR_INTERRUPTED = 25"
| "code_val ZUH_ERR_FORK = 26"
| "code_val ZUH_ERR_IO = 27"
| "code_val ZUH_ERR_CLOSED = 28"
| "code_val ZUH_ERR_WOULDBLOCK = 29"

lemma all_codes_code_val: "all_codes ! code_val c = c"
  by (cases c) (simp_all add: all_codes_def)

lemma code_val_inject: "code_val a = code_val b \<longleftrightarrow> a = b"
  by (metis all_codes_code_val)

instantiation zuh_code :: linorder
begin

definition less_eq_zuh_code :: "zuh_code \<Rightarrow> zuh_code \<Rightarrow> bool" where
  "less_eq_zuh_code a b = (code_val a \<le> code_val b)"

definition less_zuh_code :: "zuh_code \<Rightarrow> zuh_code \<Rightarrow> bool" where
  "less_zuh_code a b = (code_val a < code_val b)"

instance
  by standard (auto simp: less_eq_zuh_code_def less_zuh_code_def code_val_inject)

end

datatype zuh_phase =
    ZUH_PHASE_NONE
  | ZUH_PHASE_DNS
  | ZUH_PHASE_CONNECT
  | ZUH_PHASE_TLS
  | ZUH_PHASE_WRITE
  | ZUH_PHASE_TTFB
  | ZUH_PHASE_READ
  | ZUH_PHASE_DECODE

section \<open>The error object\<close>

record zuh_error =
  err_code :: zuh_code
  err_phase :: zuh_phase
  err_backend_code :: int
  err_backend :: bytes
  err_message :: bytes

definition ZUH_ERR_MSG_MAX :: nat where
  "ZUH_ERR_MSG_MAX = 256"

definition zuh_error_clear :: "zuh_error \<Rightarrow> zuh_error" where
  "zuh_error_clear e =
     e\<lparr>err_code := ZUH_OK, err_phase := ZUH_PHASE_NONE, err_backend_code := 0,
       err_backend := [], err_message := []\<rparr>"

text \<open>The message is what \<^verbatim>\<open>vsnprintf\<close> leaves in the 256-byte array: cut to 255 bytes.\<close>

definition zuh_error_set :: "zuh_error \<Rightarrow> zuh_code \<Rightarrow> zuh_phase \<Rightarrow> bytes \<Rightarrow> zuh_error" where
  "zuh_error_set e c ph msg =
     e\<lparr>err_code := c, err_phase := ph, err_backend_code := 0, err_backend := [],
       err_message := take (ZUH_ERR_MSG_MAX - 1) msg\<rparr>"

definition zuh_error_set_backend :: "zuh_error \<Rightarrow> bytes option \<Rightarrow> int \<Rightarrow> zuh_error" where
  "zuh_error_set_backend e backend bc =
     (case backend of
        None \<Rightarrow> e\<lparr>err_backend_code := bc\<rparr>
      | Some s \<Rightarrow> e\<lparr>err_backend := take 23 s, err_backend_code := bc\<rparr>)"

definition no_error :: zuh_error where
  "no_error = \<lparr>err_code = ZUH_OK, err_phase = ZUH_PHASE_NONE, err_backend_code = 0,
               err_backend = [], err_message = []\<rparr>"

lemma zuh_error_set_fields [simp]:
  "err_code (zuh_error_set e c ph msg) = c"
  "err_phase (zuh_error_set e c ph msg) = ph"
  by (simp_all add: zuh_error_set_def)

lemma zuh_error_clear_code [simp]: "err_code (zuh_error_clear e) = ZUH_OK"
  by (simp add: zuh_error_clear_def)

lemma zuh_error_message_fits: "length (err_message (zuh_error_set e c ph msg)) < ZUH_ERR_MSG_MAX"
  by (simp add: zuh_error_set_def ZUH_ERR_MSG_MAX_def)

section \<open>Class names\<close>

definition k_class :: "bytes list" where
  "k_class =
     [''zu_ok'', ''zu_memory_error'', ''zu_overflow_error'', ''zu_dns_error'', ''zu_connect_error'',
      ''zu_timeout_error'', ''zu_tls_error'', ''zu_tls_certificate_error'', ''zu_tls_hostname_error'',
      ''zu_tls_handshake_error'', ''zu_tls_pin_error'', ''zu_tls_unsupported_error'',
      ''zu_http_parse_error'', ''zu_url_error'', ''zu_proxy_error'', ''zu_proxy_auth_error'',
      ''zu_redirect_error'', ''zu_too_many_redirects'', ''zu_body_limit_error'',
      ''zu_body_decode_error'', ''zu_body_not_replayable'', ''zu_http_status_error'',
      ''zu_http_client_error'', ''zu_http_server_error'', ''zu_cancelled_error'',
      ''zu_interrupted_error'', ''zu_fork_error'', ''zu_io_error'', ''zu_closed'',
      ''zu_wouldblock'']"

text \<open>\<open>None\<close> is the source's \<^verbatim>\<open>ZUH_CODE_COUNT\<close>: a direct child of \<^verbatim>\<open>zu_error\<close>.\<close>

fun class_parent :: "zuh_code \<Rightarrow> zuh_code option" where
  "class_parent ZUH_ERR_TLS_CERT = Some ZUH_ERR_TLS"
| "class_parent ZUH_ERR_TLS_HOSTNAME = Some ZUH_ERR_TLS"
| "class_parent ZUH_ERR_TLS_HANDSHAKE = Some ZUH_ERR_TLS"
| "class_parent ZUH_ERR_TLS_PIN = Some ZUH_ERR_TLS"
| "class_parent ZUH_ERR_TLS_UNSUPPORTED = Some ZUH_ERR_TLS"
| "class_parent ZUH_ERR_PROXY_AUTH = Some ZUH_ERR_PROXY"
| "class_parent ZUH_ERR_TOO_MANY_REDIRECTS = Some ZUH_ERR_REDIRECT"
| "class_parent ZUH_ERR_INTERRUPTED = Some ZUH_ERR_CANCELLED"
| "class_parent ZUH_ERR_HTTP_CLIENT = Some ZUH_ERR_HTTP_STATUS"
| "class_parent ZUH_ERR_HTTP_SERVER = Some ZUH_ERR_HTTP_STATUS"
| "class_parent _ = None"

definition zuh_code_class :: "zuh_code \<Rightarrow> bytes" where
  "zuh_code_class c = k_class ! code_val c"

text \<open>
  The loop of \<^verbatim>\<open>zuh_code_class_chain\<close>; the first argument is \<^verbatim>\<open>max - n\<close>, the room left in
  the caller's array.
\<close>

fun class_chain_loop :: "nat \<Rightarrow> zuh_code \<Rightarrow> bytes list" where
  "class_chain_loop 0 c = []"
| "class_chain_loop (Suc room) c =
     zuh_code_class c # (case class_parent c of None \<Rightarrow> [] | Some p \<Rightarrow> class_chain_loop room p)"

text \<open>What is written into the array, in order; its length is the value returned.\<close>

definition zuh_code_class_chain :: "zuh_code \<Rightarrow> nat \<Rightarrow> bytes list" where
  "zuh_code_class_chain c mx =
     (if mx = 0 then []
      else if c \<le> ZUH_OK \<or> c \<ge> ZUH_ERR_CLOSED then []
      else let out = class_chain_loop mx c;
               out = (if length out < mx then out @ [''zu_error''] else out)
           in (if length out < mx then out @ [''zuhttp_error''] else out))"

definition ZUH_CLASS_CHAIN_MAX :: nat where
  "ZUH_CLASS_CHAIN_MAX = 5"

definition zuh_code_public :: "zuh_code \<Rightarrow> zuh_code" where
  "zuh_code_public c = (if c \<ge> ZUH_ERR_CLOSED then ZUH_ERR_IO else c)"

fun zuh_phase_name :: "zuh_phase \<Rightarrow> bytes" where
  "zuh_phase_name ZUH_PHASE_DNS = ''dns''"
| "zuh_phase_name ZUH_PHASE_CONNECT = ''connect''"
| "zuh_phase_name ZUH_PHASE_TLS = ''tls''"
| "zuh_phase_name ZUH_PHASE_WRITE = ''write''"
| "zuh_phase_name ZUH_PHASE_TTFB = ''ttfb''"
| "zuh_phase_name ZUH_PHASE_READ = ''read''"
| "zuh_phase_name ZUH_PHASE_DECODE = ''decode''"
| "zuh_phase_name ZUH_PHASE_NONE = ''none''"

fun zuh_code_retryable :: "zuh_code \<Rightarrow> bool" where
  "zuh_code_retryable ZUH_ERR_DNS = True"
| "zuh_code_retryable ZUH_ERR_CONNECT = True"
| "zuh_code_retryable ZUH_ERR_IO = True"
| "zuh_code_retryable ZUH_ERR_TIMEOUT = True"
| "zuh_code_retryable _ = False"

section \<open>The class tree\<close>

text \<open>
  An R handler for a class catches an error whose chain contains the class. The whole
  chain always fits the array the R layer passes, a public error is always caught by
  \<^verbatim>\<open>zu_error\<close> and \<^verbatim>\<open>zuhttp_error\<close>, and by every class above its own.
\<close>

lemma class_chain_full:
  assumes "ZUH_OK < c" "c < ZUH_ERR_CLOSED"
  shows "zuh_code_class_chain c ZUH_CLASS_CHAIN_MAX =
    zuh_code_class c # (case class_parent c of None \<Rightarrow> [] | Some p \<Rightarrow> [zuh_code_class p])
      @ [''zu_error'', ''zuhttp_error'']"
  using assms
  by (cases c) (simp_all add: zuh_code_class_chain_def ZUH_CLASS_CHAIN_MAX_def
      less_zuh_code_def less_eq_zuh_code_def numeral_eq_Suc)

lemma class_parent_root: "class_parent c = Some p \<Longrightarrow> class_parent p = None"
  by (cases c) auto

lemma k_class_distinct: "distinct k_class"
  by (simp add: k_class_def)

lemma code_val_lt: "code_val c < length k_class"
  by (cases c) (simp_all add: k_class_def)

lemma zuh_code_class_inject: "zuh_code_class a = zuh_code_class b \<longleftrightarrow> a = b"
  unfolding zuh_code_class_def
  by (metis nth_eq_iff_index_eq k_class_distinct code_val_lt code_val_inject)

text \<open>
  Every public error's chain starts with its own class, ends with the two classes
  every zuhttp error inherits, fits the array of \<^verbatim>\<open>ZUH_CLASS_CHAIN_MAX\<close> pointers, and a
  handler for the parent class also catches the child: the parent's chain is what follows
  the child's own class.
\<close>
lemma class_chain_inherits:
  assumes "ZUH_OK < c" and "c < ZUH_ERR_CLOSED"
  shows "hd (zuh_code_class_chain c ZUH_CLASS_CHAIN_MAX) = zuh_code_class c
    \<and> length (zuh_code_class_chain c ZUH_CLASS_CHAIN_MAX) \<le> ZUH_CLASS_CHAIN_MAX - 1
    \<and> (\<exists>cs. zuh_code_class_chain c ZUH_CLASS_CHAIN_MAX = cs @ [''zu_error'', ''zuhttp_error''])
    \<and> (class_parent c = Some p \<longrightarrow>
         tl (zuh_code_class_chain c ZUH_CLASS_CHAIN_MAX) = zuh_code_class_chain p ZUH_CLASS_CHAIN_MAX)"
proof -
  have parent: "ZUH_OK < p \<and> p < ZUH_ERR_CLOSED" if "class_parent c = Some p"
    using that assms by (cases c) (auto simp: less_zuh_code_def)
  have "tl (zuh_code_class_chain c ZUH_CLASS_CHAIN_MAX) = zuh_code_class_chain p ZUH_CLASS_CHAIN_MAX"
    if p: "class_parent c = Some p"
    using class_chain_full [OF assms] class_chain_full [of p] parent [OF p] p class_parent_root [OF p]
    by simp
  with class_chain_full [OF assms] show ?thesis
    by (cases "class_parent c") (auto simp: ZUH_CLASS_CHAIN_MAX_def)
qed

lemma class_chain_inherits_witness:
  "hd (zuh_code_class_chain ZUH_ERR_TLS_CERT ZUH_CLASS_CHAIN_MAX) = ''zu_tls_certificate_error''
    \<and> tl (zuh_code_class_chain ZUH_ERR_TLS_CERT ZUH_CLASS_CHAIN_MAX)
        = zuh_code_class_chain ZUH_ERR_TLS ZUH_CLASS_CHAIN_MAX"
  using class_chain_inherits [of ZUH_ERR_TLS_CERT ZUH_ERR_TLS]
  by (simp add: less_zuh_code_def zuh_code_class_def k_class_def)

text \<open>
  The code an R condition carries is never one of the stream-level signals, is unchanged
  for a public code, and is retryable exactly when the failure itself was, or was an
  orderly close or a would-block that escaped.
\<close>

lemma code_public_is_public: "zuh_code_public c < ZUH_ERR_CLOSED"
  by (cases c) (simp_all add: zuh_code_public_def less_zuh_code_def less_eq_zuh_code_def)

lemma code_public_idem [simp]: "zuh_code_public (zuh_code_public c) = zuh_code_public c"
  by (cases c) (simp_all add: zuh_code_public_def less_eq_zuh_code_def)

lemma code_public_OK: "zuh_code_public c = ZUH_OK \<longleftrightarrow> c = ZUH_OK"
  by (cases c) (simp_all add: zuh_code_public_def less_eq_zuh_code_def)

lemma retryable_tls: "class_parent c = Some ZUH_ERR_TLS \<Longrightarrow> \<not> zuh_code_retryable c"
  by (cases c) auto

end
