(* ===== verification/Zuh_Headers.thy ===== *)
theory Zuh_Headers
  imports Zuh_Buffer Zuh_Error
begin

text \<open>
  \<^verbatim>\<open>src/zuh_headers.c\<close>: the header list. A field's name and value are its bytes (\<^verbatim>\<open>nlen\<close> and
  \<^verbatim>\<open>vlen\<close> are their lengths; each lives in an allocation one byte longer, for its NUL); the
  list of fields is the meaningful part of the array of \<open>hs_cap\<close> slots. A NULL value
  behaves as the empty one and a NULL name as the empty, invalid one, so neither has a
  case of its own. An operation takes and returns the list and the allocator's heap.
\<close>

section \<open>Names and values\<close>

fun ncasecmp_loop :: "bytes \<Rightarrow> bytes \<Rightarrow> int" where
  "ncasecmp_loop (a # as) (b # bs) =
     (if lower a \<noteq> lower b then (if cval (lower a) < cval (lower b) then -1 else 1)
      else ncasecmp_loop as bs)"
| "ncasecmp_loop _ _ = 0"

definition zuh_ascii_ncasecmp :: "bytes \<Rightarrow> bytes \<Rightarrow> int" where
  "zuh_ascii_ncasecmp a b =
     (if length a \<noteq> length b then (if length a < length b then -1 else 1)
      else ncasecmp_loop a b)"

definition zuh_ascii_casecmp :: "bytes \<Rightarrow> bytes \<Rightarrow> int" where
  "zuh_ascii_casecmp a b = zuh_ascii_ncasecmp (c_string a) (c_string b)"

definition is_tchar :: "char \<Rightarrow> bool" where
  "is_tchar c \<longleftrightarrow>
     (cval (CHR ''a'') \<le> cval c \<and> cval c \<le> cval (CHR ''z''))
     \<or> (cval (CHR ''A'') \<le> cval c \<and> cval c \<le> cval (CHR ''Z''))
     \<or> (cval (CHR ''0'') \<le> cval c \<and> cval c \<le> cval (CHR ''9''))
     \<or> c \<in> set [CHR ''!'', CHR ''#'', CHR ''$'', CHR ''%'', CHR ''&'', CHR 0x27, CHR ''*'',
              CHR ''+'', CHR ''-'', CHR ''.'', CHR ''^'', CHR ''_'', CHR 0x60, CHR ''|'', CHR ''~'']"

definition zuh_header_name_valid :: "bytes \<Rightarrow> bool" where
  "zuh_header_name_valid name \<longleftrightarrow> name \<noteq> [] \<and> list_all is_tchar name"

definition value_char_ok :: "char \<Rightarrow> bool" where
  "value_char_ok c =
     (if c = CR \<or> c = LF \<or> c = NUL then False
      else if cval c < 0x20 \<and> c \<noteq> HTAB then False
      else cval c \<noteq> 0x7F)"

definition zuh_header_value_valid :: "bytes \<Rightarrow> bool" where
  "zuh_header_value_valid v \<longleftrightarrow> list_all value_char_ok v"

text \<open>
  \<^verbatim>\<open>zuh_utf8_valid\<close>: \<open>utf8_lead c\<close> is the switch on the lead byte, giving the number of
  continuation bytes and the bounds of the first of them.
\<close>

definition utf8_lead :: "nat \<Rightarrow> (nat \<times> nat \<times> nat) option" where
  "utf8_lead c =
     (if 0xC2 \<le> c \<and> c \<le> 0xDF then Some (1, 0x80, 0xBF)
      else if c = 0xE0 then Some (2, 0xA0, 0xBF)
      else if c = 0xED then Some (2, 0x80, 0x9F)
      else if 0xE1 \<le> c \<and> c \<le> 0xEF then Some (2, 0x80, 0xBF)
      else if c = 0xF0 then Some (3, 0x90, 0xBF)
      else if c = 0xF4 then Some (3, 0x80, 0x8F)
      else if 0xF1 \<le> c \<and> c \<le> 0xF3 then Some (3, 0x80, 0xBF)
      else None)"

function zuh_utf8_valid :: "bytes \<Rightarrow> bool" where
  "zuh_utf8_valid [] = True"
| "zuh_utf8_valid (c # rest) =
     (if cval c < 0x80 then zuh_utf8_valid rest
      else (case utf8_lead (cval c) of
          None \<Rightarrow> False
        | Some (need, lo, hi) \<Rightarrow>
            if length rest < need then False
            else if cval (rest ! 0) < lo \<or> cval (rest ! 0) > hi then False
            else if list_ex (\<lambda>k. cval (rest ! (k - 1)) < 0x80 \<or> cval (rest ! (k - 1)) > 0xBF)
                     [2..<need + 1] then False
            else zuh_utf8_valid (drop need rest)))"
  by pat_completeness auto
termination by (relation "measure length") auto

section \<open>The list\<close>

record zuh_header =
  hd_name :: bytes
  hd_value :: bytes

record zuh_headers =
  hs_items :: "zuh_header list"
  hs_cap :: nat
  hs_bytes :: nat
  hs_max_count :: nat
  hs_max_name :: nat
  hs_max_value :: nat
  hs_max_bytes :: nat

definition ZUH_DEFAULT_MAX_HEADER_COUNT :: nat where
  "ZUH_DEFAULT_MAX_HEADER_COUNT = 100"

definition ZUH_DEFAULT_MAX_HEADER_NAME :: nat where
  "ZUH_DEFAULT_MAX_HEADER_NAME = 256"

definition ZUH_DEFAULT_MAX_HEADER_VALUE :: nat where
  "ZUH_DEFAULT_MAX_HEADER_VALUE = 8192"

definition ZUH_DEFAULT_MAX_HEADER_BYTES :: nat where
  "ZUH_DEFAULT_MAX_HEADER_BYTES = 65536"

definition zuh_headers_init_limited :: "nat \<Rightarrow> nat \<Rightarrow> nat \<Rightarrow> nat \<Rightarrow> zuh_headers" where
  "zuh_headers_init_limited max_count max_name max_value max_bytes =
     \<lparr>hs_items = [], hs_cap = 0, hs_bytes = 0, hs_max_count = max_count, hs_max_name = max_name,
      hs_max_value = max_value, hs_max_bytes = max_bytes\<rparr>"

definition zuh_headers_init :: zuh_headers where
  "zuh_headers_init =
     zuh_headers_init_limited ZUH_DEFAULT_MAX_HEADER_COUNT ZUH_DEFAULT_MAX_HEADER_NAME
       ZUH_DEFAULT_MAX_HEADER_VALUE ZUH_DEFAULT_MAX_HEADER_BYTES"

text \<open>\<^verbatim>\<open>sizeof(zuh_header)\<close>: two pointers and two \<^verbatim>\<open>size_t\<close>.\<close>

definition SIZEOF_HEADER :: nat where
  "SIZEOF_HEADER = 32"

definition items_block :: "zuh_headers \<Rightarrow> nat option" where
  "items_block hs = (if hs_cap hs = 0 then None else Some (SIZEOF_HEADER * hs_cap hs))"

text \<open>The two \<^verbatim>\<open>zuh_free\<close> calls of a field.\<close>

definition free_field :: "zuh_header \<Rightarrow> heap \<Rightarrow> heap" where
  "free_field f h = zuh_free (Some (length (hd_value f) + 1)) (zuh_free (Some (length (hd_name f) + 1)) h)"

definition zuh_headers_free :: "zuh_headers \<Rightarrow> heap \<Rightarrow> zuh_headers \<times> heap" where
  "zuh_headers_free hs h =
     (hs\<lparr>hs_items := [], hs_cap := 0, hs_bytes := 0\<rparr>,
      zuh_free (items_block hs) (fold free_field (hs_items hs) h))"

definition dup_n :: "bytes \<Rightarrow> heap \<Rightarrow> bool \<times> heap" where
  "dup_n s h = (case zuh_size_add (length s) 1 of None \<Rightarrow> (False, h) | Some tot \<Rightarrow> zuh_alloc tot h)"

definition reserve_one :: "zuh_headers \<Rightarrow> heap \<Rightarrow> bool \<times> zuh_headers \<times> heap" where
  "reserve_one hs h =
     (if length (hs_items hs) < hs_cap hs then (True, hs, h)
      else let cap = (if hs_cap hs \<noteq> 0 then hs_cap hs * 2 else 8) in
        (case zuh_size_mul cap SIZEOF_HEADER of
           None \<Rightarrow> (False, hs, h)
         | Some bytes \<Rightarrow>
             (case zuh_realloc (items_block hs) bytes h of (ok, h') \<Rightarrow>
                if ok then (True, hs\<lparr>hs_cap := cap\<rparr>, h') else (False, hs, h'))))"

definition zuh_headers_add ::
    "zuh_headers \<Rightarrow> bytes \<Rightarrow> bytes \<Rightarrow> heap \<Rightarrow> zuh_code \<times> zuh_headers \<times> heap" where
  "zuh_headers_add hs name val h =
     (if \<not> zuh_header_name_valid name then (ZUH_ERR_PARSE, hs, h)
      else if \<not> zuh_header_value_valid val then (ZUH_ERR_PARSE, hs, h)
      else if hs_max_count hs \<noteq> 0 \<and> length (hs_items hs) \<ge> hs_max_count hs
        then (ZUH_ERR_BODY_LIMIT, hs, h)
      else if hs_max_name hs \<noteq> 0 \<and> length name > hs_max_name hs then (ZUH_ERR_BODY_LIMIT, hs, h)
      else if hs_max_value hs \<noteq> 0 \<and> length val > hs_max_value hs then (ZUH_ERR_BODY_LIMIT, hs, h)
      else
        (case zuh_size_add (length name) (length val) of
           None \<Rightarrow> (ZUH_ERR_OVERFLOW, hs, h)
         | Some add1 \<Rightarrow>
        (case zuh_size_add add1 4 of
           None \<Rightarrow> (ZUH_ERR_OVERFLOW, hs, h)
         | Some add2 \<Rightarrow>
        (case zuh_size_add (hs_bytes hs) add2 of
           None \<Rightarrow> (ZUH_ERR_OVERFLOW, hs, h)
         | Some newbytes \<Rightarrow>
        if hs_max_bytes hs \<noteq> 0 \<and> newbytes > hs_max_bytes hs then (ZUH_ERR_BODY_LIMIT, hs, h)
        else
          (case reserve_one hs h of (ok, hs1, h1) \<Rightarrow>
             if \<not> ok then (ZUH_ERR_NOMEM, hs1, h1)
             else
               (case dup_n name h1 of (nok, h2) \<Rightarrow>
               (case dup_n val h2 of (vok, h3) \<Rightarrow>
                  if \<not> nok \<or> \<not> vok then
                    (ZUH_ERR_NOMEM, hs1,
                     zuh_free (if vok then Some (length val + 1) else None)
                       (zuh_free (if nok then Some (length name + 1) else None) h3))
                  else
                    (ZUH_OK,
                     hs1\<lparr>hs_items := hs_items hs1 @ [\<lparr>hd_name = name, hd_value = val\<rparr>],
                         hs_bytes := newbytes\<rparr>, h3))))))))"

definition zuh_headers_add_str ::
    "zuh_headers \<Rightarrow> bytes \<Rightarrow> bytes \<Rightarrow> heap \<Rightarrow> zuh_code \<times> zuh_headers \<times> heap" where
  "zuh_headers_add_str hs name val h = zuh_headers_add hs (c_string name) (c_string val) h"

text \<open>
  The loop of \<^verbatim>\<open>zuh_headers_remove\<close> at index \<open>i\<close>: \<open>kept\<close> are the fields before it, the list
  argument those from it on.
\<close>

fun remove_loop :: "bytes \<Rightarrow> zuh_header list \<Rightarrow> zuh_header list \<Rightarrow> nat \<Rightarrow> nat \<Rightarrow> heap
    \<Rightarrow> nat \<times> zuh_header list \<times> nat \<times> heap" where
  "remove_loop name kept [] bytes removed h = (removed, kept, bytes, h)"
| "remove_loop name kept (f # fs) bytes removed h =
     (if zuh_ascii_ncasecmp (hd_name f) name = 0 then
        let sub = length (hd_name f) + length (hd_value f) + 4 in
        remove_loop name kept fs (if bytes \<ge> sub then bytes - sub else 0) (removed + 1) (free_field f h)
      else remove_loop name (kept @ [f]) fs bytes removed h)"

definition zuh_headers_remove :: "zuh_headers \<Rightarrow> bytes \<Rightarrow> heap \<Rightarrow> nat \<times> zuh_headers \<times> heap" where
  "zuh_headers_remove hs name h =
     (case remove_loop (c_string name) [] (hs_items hs) (hs_bytes hs) 0 h of
        (removed, fs, bytes, h') \<Rightarrow> (removed, hs\<lparr>hs_items := fs, hs_bytes := bytes\<rparr>, h'))"

definition zuh_headers_set ::
    "zuh_headers \<Rightarrow> bytes \<Rightarrow> bytes \<Rightarrow> heap \<Rightarrow> zuh_code \<times> zuh_headers \<times> heap" where
  "zuh_headers_set hs name val h =
     (if \<not> zuh_header_name_valid (c_string name) then (ZUH_ERR_PARSE, hs, h)
      else if \<not> zuh_header_value_valid (c_string val) then (ZUH_ERR_PARSE, hs, h)
      else (case zuh_headers_remove hs name h of (_, hs1, h1) \<Rightarrow> zuh_headers_add_str hs1 name val h1))"

fun count_loop :: "bytes \<Rightarrow> zuh_header list \<Rightarrow> nat \<Rightarrow> nat" where
  "count_loop name [] c = c"
| "count_loop name (f # fs) c =
     count_loop name fs (if zuh_ascii_ncasecmp (hd_name f) name = 0 then c + 1 else c)"

definition zuh_headers_count :: "zuh_headers \<Rightarrow> bytes \<Rightarrow> nat" where
  "zuh_headers_count hs name = count_loop (c_string name) (hs_items hs) 0"

fun get_at_loop :: "bytes \<Rightarrow> nat \<Rightarrow> zuh_header list \<Rightarrow> nat \<Rightarrow> bytes option" where
  "get_at_loop name idx [] c = None"
| "get_at_loop name idx (f # fs) c =
     (if zuh_ascii_ncasecmp (hd_name f) name = 0
      then (if c = idx then Some (hd_value f) else get_at_loop name idx fs (c + 1))
      else get_at_loop name idx fs c)"

definition zuh_headers_get_at :: "zuh_headers \<Rightarrow> bytes \<Rightarrow> nat \<Rightarrow> bytes option" where
  "zuh_headers_get_at hs name idx = get_at_loop (c_string name) idx (hs_items hs) 0"

definition zuh_headers_get :: "zuh_headers \<Rightarrow> bytes \<Rightarrow> bytes option" where
  "zuh_headers_get hs name = zuh_headers_get_at hs name 0"

definition zuh_headers_total :: "zuh_headers \<Rightarrow> nat" where
  "zuh_headers_total hs = length (hs_items hs)"

definition zuh_headers_at :: "zuh_headers \<Rightarrow> nat \<Rightarrow> (bytes \<times> bytes) option" where
  "zuh_headers_at hs i =
     (if i \<ge> length (hs_items hs) then None
      else Some (hd_name (hs_items hs ! i), hd_value (hs_items hs ! i)))"

definition zuh_headers_has :: "zuh_headers \<Rightarrow> bytes \<Rightarrow> bool" where
  "zuh_headers_has hs name = (zuh_headers_get hs name \<noteq> None)"

definition write_field :: "zuh_header \<Rightarrow> zuh_buffer \<times> heap \<Rightarrow> bool \<times> zuh_buffer \<times> heap" where
  "write_field f = c_all
     [zuh_buf_append (hd_name f), zuh_buf_append '': '', zuh_buf_append (hd_value f),
      zuh_buf_append CRLF]"

definition zuh_headers_write :: "zuh_headers \<Rightarrow> zuh_buffer \<times> heap \<Rightarrow> bool \<times> zuh_buffer \<times> heap" where
  "zuh_headers_write hs = c_all (map write_field (hs_items hs))"

section \<open>Comparison and lookup\<close>

abbreviation lowers :: "bytes \<Rightarrow> bytes" where
  "lowers \<equiv> map lower"

lemma ncasecmp_loop_0: "length a = length b \<Longrightarrow> ncasecmp_loop a b = 0 \<longleftrightarrow> lowers a = lowers b"
  by (induction a b rule: list_induct2) auto

lemma ncasecmp_0: "zuh_ascii_ncasecmp a b = 0 \<longleftrightarrow> lowers a = lowers b"
  by (auto simp: zuh_ascii_ncasecmp_def ncasecmp_loop_0 dest: map_eq_imp_length_eq)

lemma casecmp_0: "zuh_ascii_casecmp a b = 0 \<longleftrightarrow> lowers (c_string a) = lowers (c_string b)"
  by (simp add: zuh_ascii_casecmp_def ncasecmp_0)

text \<open>The fields with a given name, and their values: what every lookup is about.\<close>

definition field_is :: "bytes \<Rightarrow> zuh_header \<Rightarrow> bool" where
  "field_is name f \<longleftrightarrow> lowers (hd_name f) = lowers (c_string name)"

definition values_of :: "bytes \<Rightarrow> zuh_headers \<Rightarrow> bytes list" where
  "values_of name hs = map hd_value (filter (field_is name) (hs_items hs))"

lemma values_of_cong:
  assumes "lowers (c_string a) = lowers (c_string b)"
  shows "values_of a hs = values_of b hs"
proof -
  have "field_is a = field_is b" using assms by (simp add: field_is_def fun_eq_iff)
  then show ?thesis by (simp add: values_of_def)
qed

lemma count_loop_eq: "count_loop (c_string n) fs c = c + length (filter (field_is n) fs)"
  by (induction fs arbitrary: c) (auto simp: ncasecmp_0 field_is_def)

lemma headers_count_eq: "zuh_headers_count hs n = length (values_of n hs)"
  by (simp add: zuh_headers_count_def count_loop_eq values_of_def)

lemma get_at_loop_eq:
  "c \<le> idx \<Longrightarrow> get_at_loop (c_string n) idx fs c =
     (let vs = map hd_value (filter (field_is n) fs)
      in if idx - c < length vs then Some (vs ! (idx - c)) else None)"
proof (induction fs arbitrary: c)
  case (Cons f fs)
  show ?case
  proof (cases "field_is n f \<and> c < idx")
    case True
    then have "idx - c = Suc (idx - Suc c)" by (simp add: Suc_diff_Suc)
    with True Cons.IH [of "Suc c"] show ?thesis
      by (simp add: ncasecmp_0 field_is_def Let_def)
  next
    case False
    with Cons show ?thesis by (auto simp: ncasecmp_0 field_is_def Let_def)
  qed
qed simp

lemma headers_get_at_eq:
  "zuh_headers_get_at hs n i = (if i < length (values_of n hs) then Some (values_of n hs ! i) else None)"
  by (simp add: zuh_headers_get_at_def get_at_loop_eq values_of_def Let_def)

lemma headers_get_eq: "zuh_headers_get hs n = (case values_of n hs of [] \<Rightarrow> None | v # _ \<Rightarrow> Some v)"
  by (auto simp: zuh_headers_get_def headers_get_at_eq hd_conv_nth split: list.splits)

lemma headers_has_eq: "zuh_headers_has hs n \<longleftrightarrow> values_of n hs \<noteq> []"
  by (auto simp: zuh_headers_has_def headers_get_eq split: list.splits)

section \<open>The invariant\<close>

definition wire_len :: "zuh_header \<Rightarrow> nat" where
  "wire_len f = length (hd_name f) + length (hd_value f) + 4"

definition field_ok :: "zuh_header \<Rightarrow> bool" where
  "field_ok f \<longleftrightarrow> zuh_header_name_valid (hd_name f) \<and> zuh_header_value_valid (hd_value f)"

definition hs_inv :: "zuh_headers \<Rightarrow> bool" where
  "hs_inv hs \<longleftrightarrow> list_all field_ok (hs_items hs)
     \<and> length (hs_items hs) \<le> hs_cap hs \<and> SIZEOF_HEADER * hs_cap hs \<le> SIZE_MAX
     \<and> hs_bytes hs = sum_list (map wire_len (hs_items hs))
     \<and> hs_bytes hs \<le> SIZE_MAX
     \<and> (hs_max_count hs \<noteq> 0 \<longrightarrow> length (hs_items hs) \<le> hs_max_count hs)
     \<and> (hs_max_name hs \<noteq> 0 \<longrightarrow> list_all (\<lambda>f. length (hd_name f) \<le> hs_max_name hs) (hs_items hs))
     \<and> (hs_max_value hs \<noteq> 0 \<longrightarrow> list_all (\<lambda>f. length (hd_value f) \<le> hs_max_value hs) (hs_items hs))
     \<and> (hs_max_bytes hs \<noteq> 0 \<longrightarrow> hs_bytes hs \<le> hs_max_bytes hs)"

text \<open>The live blocks and bytes that a list stands for.\<close>

definition hs_blocks :: "zuh_headers \<Rightarrow> size_t" where
  "hs_blocks hs = (if hs_cap hs = 0 then 0 else 1) + 2 * of_nat (length (hs_items hs))"

definition field_bytes :: "zuh_header \<Rightarrow> nat" where
  "field_bytes f = (length (hd_name f) + 1) + (length (hd_value f) + 1)"

definition hs_heap :: "zuh_headers \<Rightarrow> size_t" where
  "hs_heap hs = of_nat (SIZEOF_HEADER * hs_cap hs) + of_nat (sum_list (map field_bytes (hs_items hs)))"

definition hs_grew :: "zuh_headers \<times> heap \<Rightarrow> zuh_headers \<times> heap \<Rightarrow> bool" where
  "hs_grew s s' \<longleftrightarrow> grew (snd s) (snd s') (hs_blocks (fst s') - hs_blocks (fst s))
     (hs_heap (fst s') - hs_heap (fst s))"

lemma hs_grew_refl [simp]: "hs_grew s s"
  by (simp add: hs_grew_def)

lemma hs_grew_trans: "hs_grew s s1 \<Longrightarrow> hs_grew s1 s2 \<Longrightarrow> hs_grew s s2"
  by (simp add: hs_grew_def grew_def)

lemma hs_inv_init [simp]: "hs_inv (zuh_headers_init_limited c n v b)"
  by (simp add: hs_inv_def zuh_headers_init_limited_def)

lemma hs_inv_init_default [simp]: "hs_inv zuh_headers_init"
  by (simp add: zuh_headers_init_def)

lemma hs_items_init [simp]: "hs_items (zuh_headers_init_limited c n v b) = []" "hs_items zuh_headers_init = []"
  by (simp_all add: zuh_headers_init_def zuh_headers_init_limited_def)

text \<open>The parts of the invariant a removal or a rejected insertion keeps.\<close>

definition hs_limits :: "zuh_headers \<Rightarrow> nat \<times> nat \<times> nat \<times> nat" where
  "hs_limits hs = (hs_max_count hs, hs_max_name hs, hs_max_value hs, hs_max_bytes hs)"

lemma sum_list_filter_le: "sum_list (map w (filter P xs)) \<le> sum_list (map (w :: 'a \<Rightarrow> nat) xs)"
  by (induction xs) auto

lemma list_all_filter: "list_all P xs \<Longrightarrow> list_all P (filter Q xs)"
  by (simp add: list_all_iff)

lemma dup_n_grew: "dup_n s h = (ok, h') \<Longrightarrow>
    grew h h' (if ok then 1 else 0) (if ok then of_nat (length s + 1) else 0)"
  by (auto simp: dup_n_def size_add_Some split: option.splits dest!: zuh_alloc_grew)

lemma reserve_one_spec:
  assumes inv: "hs_inv hs" and run: "reserve_one hs h = (ok, hs', h')"
  shows "hs_inv hs'" "hs_items hs' = hs_items hs" "hs_bytes hs' = hs_bytes hs"
    "hs_limits hs' = hs_limits hs" "ok \<Longrightarrow> length (hs_items hs) < hs_cap hs'" "hs_grew (hs, h) (hs', h')"
proof -
  have "hs_inv hs' \<and> hs_items hs' = hs_items hs \<and> hs_bytes hs' = hs_bytes hs \<and> hs_limits hs' = hs_limits hs
    \<and> (ok \<longrightarrow> length (hs_items hs) < hs_cap hs') \<and> hs_grew (hs, h) (hs', h')"
  proof (cases "length (hs_items hs) < hs_cap hs")
    case True
    with inv run show ?thesis by (simp add: reserve_one_def)
  next
    case False
    then have eq: "length (hs_items hs) = hs_cap hs" using inv by (simp add: hs_inv_def)
    define cap where "cap = (if hs_cap hs \<noteq> 0 then hs_cap hs * 2 else 8)"
    then have cap: "hs_cap hs < cap" "0 < cap" by auto
    show ?thesis
    proof (cases "zuh_size_mul cap SIZEOF_HEADER")
      case None
      with run False inv show ?thesis by (simp add: reserve_one_def cap_def)
    next
      case (Some bs)
      then have bs: "bs = SIZEOF_HEADER * cap" "SIZEOF_HEADER * cap \<le> SIZE_MAX"
        by (simp_all add: size_mul_Some mult.commute)
      obtain ok1 h1 where re: "zuh_realloc (items_block hs) bs h = (ok1, h1)" by fastforce
      have res: "ok = ok1" "h' = h1" "hs' = (if ok1 then hs\<lparr>hs_cap := cap\<rparr> else hs)"
        using run False Some re by (auto simp: reserve_one_def cap_def Let_def split: if_splits)
      have "hs_grew (hs, h) (hs', h1)"
      proof (cases "hs_cap hs = 0")
        case True
        then have "zuh_alloc bs h = (ok1, h1)" using re by (simp add: items_block_def)
        from zuh_alloc_grew [OF this] True cap bs(1) res(3) show ?thesis
          by (cases ok1) (simp_all add: hs_grew_def hs_blocks_def hs_heap_def)
      next
        case False
        then have "zuh_realloc (Some (SIZEOF_HEADER * hs_cap hs)) bs h = (ok1, h1)"
          using re by (simp add: items_block_def)
        from zuh_realloc_grew [OF this] False cap bs(1) res(3) show ?thesis
          by (cases ok1) (simp_all add: hs_grew_def hs_blocks_def hs_heap_def)
      qed
      with res bs cap eq inv show ?thesis
        by (cases ok1) (auto simp: hs_inv_def hs_limits_def)
    qed
  qed
  then show "hs_inv hs'" "hs_items hs' = hs_items hs" "hs_bytes hs' = hs_bytes hs"
    "hs_limits hs' = hs_limits hs" "ok \<Longrightarrow> length (hs_items hs) < hs_cap hs'" "hs_grew (hs, h) (hs', h')"
    by blast+
qed

text \<open>
  The complete behaviour of an insertion: the code it returns, and what it leaves behind.
  Without an allocation failure the code is a function of the list and the field.
\<close>

definition add_refusal :: "zuh_headers \<Rightarrow> bytes \<Rightarrow> bytes \<Rightarrow> zuh_code option" where
  "add_refusal hs name val =
     (if \<not> (zuh_header_name_valid name \<and> zuh_header_value_valid val) then Some ZUH_ERR_PARSE
      else if (hs_max_count hs \<noteq> 0 \<and> hs_max_count hs \<le> length (hs_items hs))
        \<or> (hs_max_name hs \<noteq> 0 \<and> hs_max_name hs < length name)
        \<or> (hs_max_value hs \<noteq> 0 \<and> hs_max_value hs < length val) then Some ZUH_ERR_BODY_LIMIT
      else if SIZE_MAX < hs_bytes hs + (length name + length val + 4) then Some ZUH_ERR_OVERFLOW
      else if hs_max_bytes hs \<noteq> 0 \<and> hs_max_bytes hs < hs_bytes hs + (length name + length val + 4)
        then Some ZUH_ERR_BODY_LIMIT
      else None)"

definition add_alloc ::
    "zuh_headers \<Rightarrow> bytes \<Rightarrow> bytes \<Rightarrow> heap \<Rightarrow> zuh_code \<times> zuh_headers \<times> heap" where
  "add_alloc hs name val h =
     (case reserve_one hs h of (ok, hs1, h1) \<Rightarrow>
        if \<not> ok then (ZUH_ERR_NOMEM, hs1, h1)
        else
          (case dup_n name h1 of (nok, h2) \<Rightarrow>
          (case dup_n val h2 of (vok, h3) \<Rightarrow>
             if \<not> nok \<or> \<not> vok then
               (ZUH_ERR_NOMEM, hs1,
                zuh_free (if vok then Some (length val + 1) else None)
                  (zuh_free (if nok then Some (length name + 1) else None) h3))
             else
               (ZUH_OK,
                hs1\<lparr>hs_items := hs_items hs1 @ [\<lparr>hd_name = name, hd_value = val\<rparr>],
                    hs_bytes := hs_bytes hs + (length name + length val + 4)\<rparr>, h3))))"

lemma headers_add_eq:
  "zuh_headers_add hs name val h =
     (case add_refusal hs name val of Some c \<Rightarrow> (c, hs, h) | None \<Rightarrow> add_alloc hs name val h)"
proof (cases "SIZE_MAX < hs_bytes hs + (length name + length val + 4)")
  case True
  then have "zuh_size_add (length name) (length val) = None
    \<or> (\<exists>a. zuh_size_add (length name) (length val) = Some a
         \<and> (zuh_size_add a 4 = None \<or> (\<exists>b. zuh_size_add a 4 = Some b \<and> zuh_size_add (hs_bytes hs) b = None)))"
    by (auto simp: size_add_None zuh_size_add_def)
  with True show ?thesis
    by (auto simp: zuh_headers_add_def add_refusal_def)
next
  case False
  then have "zuh_size_add (length name) (length val) = Some (length name + length val)"
    "zuh_size_add (length name + length val) 4 = Some (length name + length val + 4)"
    "zuh_size_add (hs_bytes hs) (length name + length val + 4) = Some (hs_bytes hs + (length name + length val + 4))"
    by (simp_all add: size_add_Some)
  with False show ?thesis
    by (simp add: zuh_headers_add_def add_refusal_def add_alloc_def not_le not_less)
qed

lemma add_refusal_cong:
  "hs_items a = hs_items b \<Longrightarrow> hs_bytes a = hs_bytes b \<Longrightarrow> hs_limits a = hs_limits b \<Longrightarrow>
   add_refusal a n v = add_refusal b n v"
  by (simp add: add_refusal_def hs_limits_def)

lemma hs_inv_snoc:
  assumes "hs_inv hs" and "add_refusal hs name val = None" and "length (hs_items hs) < hs_cap hs"
  shows "hs_inv (hs\<lparr>hs_items := hs_items hs @ [\<lparr>hd_name = name, hd_value = val\<rparr>],
                    hs_bytes := hs_bytes hs + (length name + length val + 4)\<rparr>)"
proof -
  have "zuh_header_name_valid name" "zuh_header_value_valid val"
    "hs_max_count hs \<noteq> 0 \<longrightarrow> length (hs_items hs) < hs_max_count hs"
    "hs_max_name hs \<noteq> 0 \<longrightarrow> length name \<le> hs_max_name hs"
    "hs_max_value hs \<noteq> 0 \<longrightarrow> length val \<le> hs_max_value hs"
    "hs_bytes hs + (length name + length val + 4) \<le> SIZE_MAX"
    "hs_max_bytes hs \<noteq> 0 \<longrightarrow> hs_bytes hs + (length name + length val + 4) \<le> hs_max_bytes hs"
    using assms(2) unfolding add_refusal_def by (auto split: if_split_asm)
  with assms(1,3) show ?thesis
    by (simp add: hs_inv_def field_ok_def wire_len_def Suc_le_eq)
qed

lemma hs_inv_filter:
  assumes "hs_inv hs"
  shows "hs_inv (hs\<lparr>hs_items := filter P (hs_items hs),
                    hs_bytes := sum_list (map wire_len (filter P (hs_items hs)))\<rparr>)"
proof -
  obtain fs where fs: "fs = filter P (hs_items hs)" by simp
  then have "sum_list (map wire_len fs) \<le> hs_bytes hs" "length fs \<le> length (hs_items hs)"
    "\<And>Q. list_all Q (hs_items hs) \<Longrightarrow> list_all Q fs"
    using assms by (simp_all add: hs_inv_def sum_list_filter_le list_all_filter)
  with assms show ?thesis
    unfolding fs [symmetric] by (auto simp: hs_inv_def)
qed

lemma add_alloc_spec:
  assumes inv: "hs_inv hs" and ok: "add_refusal hs name val = None"
    and run: "add_alloc hs name val h = (c, hs', h')"
  shows "c = ZUH_OK \<or> c = ZUH_ERR_NOMEM" "hs_inv hs'" "hs_limits hs' = hs_limits hs"
    "hs_items hs' = hs_items hs @ (if c = ZUH_OK then [\<lparr>hd_name = name, hd_value = val\<rparr>] else [])"
    "hs_grew (hs, h) (hs', h')"
proof -
  obtain ok1 hs1 h1 where r: "reserve_one hs h = (ok1, hs1, h1)" by (rule prod_cases3)
  note R = reserve_one_spec [OF inv r]
  have "(c = ZUH_OK \<or> c = ZUH_ERR_NOMEM) \<and> hs_inv hs' \<and> hs_limits hs' = hs_limits hs
    \<and> hs_items hs' = hs_items hs @ (if c = ZUH_OK then [\<lparr>hd_name = name, hd_value = val\<rparr>] else [])
    \<and> hs_grew (hs, h) (hs', h')"
  proof (cases ok1)
    case False
    with run r R show ?thesis by (auto simp: add_alloc_def)
  next
    case True
    obtain nok h2 where n: "dup_n name h1 = (nok, h2)" by fastforce
    obtain vok h3 where v: "dup_n val h2 = (vok, h3)" by fastforce
    note N = dup_n_grew [OF n] and V = dup_n_grew [OF v]
    show ?thesis
    proof (cases "nok \<and> vok")
      case True
      then have res: "c = ZUH_OK" "h' = h3"
        "hs' = hs1\<lparr>hs_items := hs_items hs1 @ [\<lparr>hd_name = name, hd_value = val\<rparr>],
                    hs_bytes := hs_bytes hs + (length name + length val + 4)\<rparr>"
        using run r \<open>ok1\<close> n v by (auto simp: add_alloc_def)
      have "hs_inv hs'"
        unfolding res(3)
        using R(1-5) \<open>ok1\<close> hs_inv_snoc [of hs1 name val] add_refusal_cong [of hs1 hs name val] ok
        by (simp add: hs_limits_def)
      moreover have "hs_grew (hs, h) (hs', h')"
        using R(2,4,5,6) \<open>ok1\<close> N V True res
        by (auto simp: hs_grew_def grew_def hs_blocks_def hs_heap_def field_bytes_def)
      ultimately show ?thesis using res R by (auto simp: hs_limits_def)
    next
      case False
      then have res: "c = ZUH_ERR_NOMEM" "hs' = hs1"
        "h' = zuh_free (if vok then Some (length val + 1) else None)
                  (zuh_free (if nok then Some (length name + 1) else None) h3)"
        using run r \<open>ok1\<close> n v by (auto simp: add_alloc_def)
      have "grew h1 h' 0 0"
        using N V False res(3) by (auto simp: grew_def zuh_free_def)
      then show ?thesis
        using R res by (auto simp: hs_grew_def grew_def)
    qed
  qed
  then show "c = ZUH_OK \<or> c = ZUH_ERR_NOMEM" "hs_inv hs'" "hs_limits hs' = hs_limits hs"
    "hs_items hs' = hs_items hs @ (if c = ZUH_OK then [\<lparr>hd_name = name, hd_value = val\<rparr>] else [])"
    "hs_grew (hs, h) (hs', h')" by blast+
qed

lemma headers_add_spec:
  assumes inv: "hs_inv hs" and run: "zuh_headers_add hs name val h = (c, hs', h')"
  shows "hs_inv hs'" "hs_limits hs' = hs_limits hs"
    "hs_items hs' = hs_items hs @ (if c = ZUH_OK then [\<lparr>hd_name = name, hd_value = val\<rparr>] else [])"
    "hs_grew (hs, h) (hs', h')"
    "c = (case add_refusal hs name val of Some e \<Rightarrow> e | None \<Rightarrow> if c = ZUH_OK then ZUH_OK else ZUH_ERR_NOMEM)"
proof -
  have "hs_inv hs' \<and> hs_limits hs' = hs_limits hs
    \<and> hs_items hs' = hs_items hs @ (if c = ZUH_OK then [\<lparr>hd_name = name, hd_value = val\<rparr>] else [])
    \<and> hs_grew (hs, h) (hs', h')
    \<and> c = (case add_refusal hs name val of Some e \<Rightarrow> e | None \<Rightarrow> if c = ZUH_OK then ZUH_OK else ZUH_ERR_NOMEM)"
  proof (cases "add_refusal hs name val")
    case None
    then show ?thesis
      using run add_alloc_spec [OF inv None, of h c hs' h'] by (auto simp: headers_add_eq)
  next
    case (Some e)
    then have "e \<noteq> ZUH_OK" by (auto simp: add_refusal_def split: if_splits)
    with Some run inv show ?thesis by (auto simp: headers_add_eq)
  qed
  then show "hs_inv hs'" "hs_limits hs' = hs_limits hs"
    "hs_items hs' = hs_items hs @ (if c = ZUH_OK then [\<lparr>hd_name = name, hd_value = val\<rparr>] else [])"
    "hs_grew (hs, h) (hs', h')"
    "c = (case add_refusal hs name val of Some e \<Rightarrow> e | None \<Rightarrow> if c = ZUH_OK then ZUH_OK else ZUH_ERR_NOMEM)"
    by blast+
qed

text \<open>With memory to spare an insertion does what the list and the field say.\<close>

lemma dup_n_plenty:
  "plenty h \<Longrightarrow> length t < 2 ^ 60 \<Longrightarrow> \<exists>h'. dup_n t h = (True, h') \<and> plenty h'"
  using zuh_alloc_plenty [of h "length t + 1"]
  by (simp add: dup_n_def zuh_size_add_def SIZE_MAX_def ZUH_HDR_def)

lemma reserve_one_plenty:
  assumes "plenty h" "hs_cap hs < 2 ^ 50"
  shows "\<exists>hs' h'. reserve_one hs h = (True, hs', h') \<and> plenty h'"
proof (cases "length (hs_items hs) < hs_cap hs")
  case True
  with assms show ?thesis by (simp add: reserve_one_def)
next
  case False
  define cap where "cap = (if hs_cap hs \<noteq> 0 then hs_cap hs * 2 else 8)"
  have "cap * SIZEOF_HEADER + ZUH_HDR \<le> SIZE_MAX"
    using assms(2) by (simp add: cap_def SIZEOF_HEADER_def ZUH_HDR_def SIZE_MAX_def)
  moreover from this have "zuh_size_mul cap SIZEOF_HEADER = Some (cap * SIZEOF_HEADER)"
    by (simp add: size_mul_Some)
  moreover from calculation(1) obtain h' where "zuh_realloc (items_block hs) (cap * SIZEOF_HEADER) h = (True, h')" "plenty h'"
    using zuh_realloc_plenty [OF assms(1)] by blast
  ultimately show ?thesis using False by (simp add: reserve_one_def cap_def Let_def)
qed

lemma headers_add_plenty:
  assumes "plenty h" "hs_cap hs < 2 ^ 50" "length name < 2 ^ 60" "length val < 2 ^ 60"
  shows "fst (zuh_headers_add hs name val h) = (case add_refusal hs name val of Some c \<Rightarrow> c | None \<Rightarrow> ZUH_OK)"
proof (cases "add_refusal hs name val")
  case None
  obtain hs1 h1 where r: "reserve_one hs h = (True, hs1, h1)" "plenty h1"
    using reserve_one_plenty [OF assms(1,2)] by blast
  obtain h2 where n: "dup_n name h1 = (True, h2)" "plenty h2" using dup_n_plenty [OF r(2) assms(3)] by blast
  obtain h3 where v: "dup_n val h2 = (True, h3)" using dup_n_plenty [OF n(2) assms(4)] by blast
  from None r n v show ?thesis by (simp add: headers_add_eq add_alloc_def)
qed (simp add: headers_add_eq)

lemma plenty_dup_n: "dup_n t h = (ok, h') \<Longrightarrow> plenty h \<Longrightarrow> plenty h'"
  by (auto simp: dup_n_def split: option.splits dest: plenty_alloc)

lemma plenty_reserve: "reserve_one hs h = (ok, hs', h') \<Longrightarrow> plenty h \<Longrightarrow> plenty h'"
  by (auto simp: reserve_one_def Let_def split: if_splits option.splits prod.splits dest: plenty_realloc)

lemma plenty_headers_add: "zuh_headers_add hs n v h = (c, hs', h') \<Longrightarrow> plenty h \<Longrightarrow> plenty h'"
  by (auto simp: headers_add_eq add_alloc_def split: option.splits prod.splits if_splits dest!: plenty_reserve plenty_dup_n)

lemma plenty_headers_free: "plenty (snd (zuh_headers_free hs h)) = plenty h"
proof -
  have "plenty (fold free_field fs h) = plenty h" for fs by (induction fs arbitrary: h) (simp_all add: free_field_def)
  then show ?thesis by (simp add: zuh_headers_free_def)
qed

text \<open>The array of fields never has more than twice the slots it needs.\<close>

lemma headers_add_cap: "zuh_headers_add hs n v h = (c, hs', h') \<Longrightarrow> hs_cap hs' \<le> max (hs_cap hs) (2 * length (hs_items hs) + 8)"
  by (auto simp: headers_add_eq add_alloc_def reserve_one_def Let_def split: option.splits prod.splits if_splits)

text \<open>A removal: it keeps the fields with other names, and its byte count stays exact.\<close>

lemma remove_loop_eq:
  assumes "remove_loop (c_string n) kept fs bytes removed h = (removed', fs', bytes', h')"
    and "bytes = sum_list (map wire_len kept) + sum_list (map wire_len fs)"
  shows "fs' = kept @ filter (\<lambda>f. \<not> field_is n f) fs"
    "removed' = removed + length (filter (field_is n) fs)"
    "bytes' = sum_list (map wire_len fs')"
    "h' = fold free_field (filter (field_is n) fs) h"
proof -
  have "fs' = kept @ filter (\<lambda>f. \<not> field_is n f) fs
    \<and> removed' = removed + length (filter (field_is n) fs)
    \<and> bytes' = sum_list (map wire_len fs') \<and> h' = fold free_field (filter (field_is n) fs) h"
    using assms
  proof (induction fs arbitrary: kept bytes removed h)
    case (Cons f fs)
    show ?case
    proof (cases "field_is n f")
      case True
      then have step: "remove_loop (c_string n) kept fs (bytes - wire_len f) (removed + 1) (free_field f h)
          = (removed', fs', bytes', h')"
        using Cons.prems by (simp add: ncasecmp_0 field_is_def Let_def wire_len_def split: if_splits)
      show ?thesis
        using Cons.IH [OF step] Cons.prems(2) True by simp
    next
      case False
      then have step: "remove_loop (c_string n) (kept @ [f]) fs bytes removed h = (removed', fs', bytes', h')"
        using Cons.prems by (simp add: ncasecmp_0 field_is_def)
      show ?thesis
        using Cons.IH [OF step] Cons.prems(2) False by simp
    qed
  qed simp
  then show "fs' = kept @ filter (\<lambda>f. \<not> field_is n f) fs"
    "removed' = removed + length (filter (field_is n) fs)"
    "bytes' = sum_list (map wire_len fs')"
    "h' = fold free_field (filter (field_is n) fs) h" by blast+
qed

lemma free_fields_grew:
  "grew h (fold free_field fs h) (- (2 * of_nat (length fs))) (- of_nat (sum_list (map field_bytes fs)))"
proof (induction fs arbitrary: h)
  case (Cons f fs)
  have "grew h (free_field f h) (- 2) (- of_nat (field_bytes f))"
    by (simp add: free_field_def grew_def zuh_free_def field_bytes_def)
  with Cons [of "free_field f h"] show ?case
    by (simp add: grew_def)
qed simp

lemma sum_list_filter_split:
  "sum_list (map (w :: 'a \<Rightarrow> nat) xs) =
     sum_list (map w (filter P xs)) + sum_list (map w (filter (\<lambda>x. \<not> P x) xs))"
  by (induction xs) auto

lemma length_filter_split: "length xs = length (filter P xs) + length (filter (\<lambda>x. \<not> P x) xs)"
  by (induction xs) auto

lemma headers_remove_spec:
  assumes inv: "hs_inv hs" and run: "zuh_headers_remove hs n h = (k, hs', h')"
  shows "hs_inv hs'" "hs_limits hs' = hs_limits hs" "k = length (values_of n hs)"
    "hs_items hs' = filter (\<lambda>f. \<not> field_is n f) (hs_items hs)" "hs_grew (hs, h) (hs', h')"
proof -
  let ?gone = "filter (field_is n) (hs_items hs)"
  obtain k1 fs1 b1 h1 where r: "remove_loop (c_string n) [] (hs_items hs) (hs_bytes hs) 0 h = (k1, fs1, b1, h1)"
    by (metis prod_cases4)
  have "hs_bytes hs = sum_list (map wire_len []) + sum_list (map wire_len (hs_items hs))"
    using inv by (simp add: hs_inv_def)
  note L = remove_loop_eq [OF r this]
  have res: "k = k1" "hs' = hs\<lparr>hs_items := fs1, hs_bytes := b1\<rparr>" "h' = h1"
    using run r by (auto simp: zuh_headers_remove_def)
  show "k = length (values_of n hs)" "hs_items hs' = filter (\<lambda>f. \<not> field_is n f) (hs_items hs)"
    "hs_limits hs' = hs_limits hs"
    using res L by (simp_all add: values_of_def hs_limits_def)
  show "hs_inv hs'"
    using hs_inv_filter [OF inv, of "\<lambda>f. \<not> field_is n f"] res(2) L(1,3) by simp
  show "hs_grew (hs, h) (hs', h')"
    using free_fields_grew [of h ?gone] res L
      sum_list_filter_split [of field_bytes "hs_items hs" "field_is n"]
      length_filter_split [of "hs_items hs" "field_is n"]
    by (auto simp: hs_grew_def grew_def hs_blocks_def hs_heap_def)
qed

section \<open>The interface of a field list\<close>

text \<open>
  What the message writers and the credential stripping rely on: an insertion appends one
  field or nothing, a removal keeps exactly the fields with other names, and \<open>rel\<close> relates
  the states around any operation.
\<close>

locale field_list =
  fixes fields :: "'s \<Rightarrow> zuh_header list"
    and inv :: "'s \<Rightarrow> bool"
    and rel :: "'s \<Rightarrow> 's \<Rightarrow> bool"
    and add :: "bytes \<Rightarrow> bytes \<Rightarrow> 's \<Rightarrow> zuh_code \<times> 's"
    and remove :: "bytes \<Rightarrow> 's \<Rightarrow> nat \<times> 's"
  assumes add_step: "inv s \<Longrightarrow> add n v s = (c, s') \<Longrightarrow> inv s' \<and> rel s s' \<and> fields s' = fields s
      @ (if c = ZUH_OK then [\<lparr>hd_name = c_string n, hd_value = c_string v\<rparr>] else [])"
    and remove_step: "inv s \<Longrightarrow> remove n s = (k, s') \<Longrightarrow> inv s' \<and> rel s s'
      \<and> fields s' = filter (\<lambda>f. \<not> field_is n f) (fields s)"
    and rel_refl: "rel s s"
    and rel_trans: "rel s s1 \<Longrightarrow> rel s1 s2 \<Longrightarrow> rel s s2"
begin

definition vals :: "bytes \<Rightarrow> 's \<Rightarrow> bytes list" where
  "vals n s = map hd_value (filter (field_is n) (fields s))"

lemma vals_add:
  assumes "inv s" "add n v s = (c, s')"
  shows "vals m s' = vals m s @ (if c = ZUH_OK \<and> lowers (c_string n) = lowers (c_string m)
    then [c_string v] else [])"
  using add_step [OF assms] by (auto simp: vals_def field_is_def)

lemma vals_remove:
  assumes "inv s" "remove n s = (k, s')"
  shows "vals m s' = (if lowers (c_string n) = lowers (c_string m) then [] else vals m s)"
proof -
  have "filter (field_is m) (filter (\<lambda>f. \<not> field_is n f) (fields s))
    = (if lowers (c_string n) = lowers (c_string m) then [] else filter (field_is m) (fields s))"
    by (auto simp: field_is_def filter_empty_conv intro: filter_cong)
  then show ?thesis using remove_step [OF assms] by (simp add: vals_def)
qed

definition remove_all :: "bytes list \<Rightarrow> 's \<Rightarrow> 's" where
  "remove_all ns s = fold (\<lambda>n s. snd (remove n s)) ns s"

lemma remove_all_step:
  "inv s \<Longrightarrow> inv (remove_all ns s) \<and> rel s (remove_all ns s)
     \<and> fields (remove_all ns s) = filter (\<lambda>f. \<not> list_ex (\<lambda>n. field_is n f) ns) (fields s)"
proof (induction ns arbitrary: s)
  case (Cons n ns)
  obtain k s1 where r: "remove n s = (k, s1)" by fastforce
  note R = remove_step [OF Cons.prems r]
  with Cons.IH [of s1] r show ?case
    by (auto simp: remove_all_def intro: rel_trans filter_cong)
qed (simp add: remove_all_def rel_refl)

lemma vals_remove_all:
  assumes "inv s"
  shows "vals m (remove_all ns s) =
    (if list_ex (\<lambda>n. lowers (c_string n) = lowers (c_string m)) ns then [] else vals m s)"
proof -
  have "(\<not> list_ex (\<lambda>n. field_is n f) ns \<and> field_is m f) \<longleftrightarrow>
    (\<not> list_ex (\<lambda>n. lowers (c_string n) = lowers (c_string m)) ns \<and> field_is m f)" for f
    by (auto simp: field_is_def list_ex_iff)
  then have "filter (field_is m) (filter (\<lambda>f. \<not> list_ex (\<lambda>n. field_is n f) ns) (fields s))
    = (if list_ex (\<lambda>n. lowers (c_string n) = lowers (c_string m)) ns then []
       else filter (field_is m) (fields s))"
    by simp
  then show ?thesis using remove_all_step [OF assms, of ns] by (simp add: vals_def)
qed

definition replace :: "bytes \<Rightarrow> bytes \<Rightarrow> 's \<Rightarrow> zuh_code \<times> 's" where
  "replace n v s = add n v (snd (remove n s))"

lemma replace_step:
  assumes s: "inv s" and run: "replace n v s = (c, s')"
  shows "inv s' \<and> rel s s' \<and> fields s' = filter (\<lambda>f. \<not> field_is n f) (fields s)
      @ (if c = ZUH_OK then [\<lparr>hd_name = c_string n, hd_value = c_string v\<rparr>] else [])"
proof -
  obtain k s1 where r: "remove n s = (k, s1)" by fastforce
  then have a: "add n v s1 = (c, s')" using run by (simp add: replace_def)
  show ?thesis
    using remove_step [OF s r] add_step [OF _ a] by (auto intro: rel_trans)
qed

lemma vals_replace:
  assumes s: "inv s" and run: "replace n v s = (c, s')"
  shows "vals m s' = (if lowers (c_string n) = lowers (c_string m)
    then (if c = ZUH_OK then [c_string v] else []) else vals m s)"
proof -
  obtain k s1 where r: "remove n s = (k, s1)" by fastforce
  then have a: "add n v s1 = (c, s')" using run by (simp add: replace_def)
  have "inv s1" using remove_step [OF s r] by simp
  from vals_add [OF this a] vals_remove [OF s r] show ?thesis by simp
qed

end

abbreviation hs_ok :: "zuh_headers \<times> heap \<Rightarrow> bool" where
  "hs_ok s \<equiv> hs_inv (fst s)"

definition hs_rel :: "zuh_headers \<times> heap \<Rightarrow> zuh_headers \<times> heap \<Rightarrow> bool" where
  "hs_rel s s' \<longleftrightarrow> hs_grew s s' \<and> hs_limits (fst s') = hs_limits (fst s)"

interpretation hdl: field_list "\<lambda>s. hs_items (fst s)" hs_ok hs_rel
  "\<lambda>n v s. zuh_headers_add_str (fst s) n v (snd s)" "\<lambda>n s. zuh_headers_remove (fst s) n (snd s)"
proof
  fix s :: "zuh_headers \<times> heap" and n v c s'
  assume "hs_ok s" "zuh_headers_add_str (fst s) n v (snd s) = (c, s')"
  then show "hs_ok s' \<and> hs_rel s s' \<and> hs_items (fst s') = hs_items (fst s)
      @ (if c = ZUH_OK then [\<lparr>hd_name = c_string n, hd_value = c_string v\<rparr>] else [])"
    using headers_add_spec [of "fst s" "c_string n" "c_string v" "snd s" c "fst s'" "snd s'"]
    by (simp add: zuh_headers_add_str_def hs_rel_def)
next
  fix s :: "zuh_headers \<times> heap" and n k s'
  assume "hs_ok s" "zuh_headers_remove (fst s) n (snd s) = (k, s')"
  then show "hs_ok s' \<and> hs_rel s s' \<and> hs_items (fst s') = filter (\<lambda>f. \<not> field_is n f) (hs_items (fst s))"
    using headers_remove_spec [of "fst s" n "snd s" k "fst s'" "snd s'"]
    by (simp add: hs_rel_def)
qed (auto simp: hs_rel_def intro: hs_grew_trans)

lemma hdl_vals: "hdl.vals n s = values_of n (fst s)"
  by (simp add: hdl.vals_def values_of_def)

lemma headers_set_eq:
  "zuh_headers_set hs n v h =
     (if \<not> zuh_header_name_valid (c_string n) \<or> \<not> zuh_header_value_valid (c_string v)
      then (ZUH_ERR_PARSE, hs, h) else hdl.replace n v (hs, h))"
  by (simp add: zuh_headers_set_def hdl.replace_def prod.case_eq_if)

lemma headers_set_step:
  assumes inv: "hs_inv hs" and run: "zuh_headers_set hs n v h = (c, hs', h')"
  shows "hs_inv hs'" "hs_rel (hs, h) (hs', h')"
    "c = ZUH_OK \<Longrightarrow> values_of m hs' =
       (if lowers (c_string m) = lowers (c_string n) then [c_string v] else values_of m hs)"
    "lowers (c_string m) \<noteq> lowers (c_string n) \<Longrightarrow> values_of m hs' = values_of m hs"
proof -
  have "hs_inv hs' \<and> hs_rel (hs, h) (hs', h')
    \<and> (c = ZUH_OK \<longrightarrow> values_of m hs' =
       (if lowers (c_string m) = lowers (c_string n) then [c_string v] else values_of m hs))
    \<and> (lowers (c_string m) \<noteq> lowers (c_string n) \<longrightarrow> values_of m hs' = values_of m hs)"
  proof (cases "zuh_header_name_valid (c_string n) \<and> zuh_header_value_valid (c_string v)")
    case False
    with run inv show ?thesis by (auto simp: headers_set_eq hdl.rel_refl)
  next
    case True
    with run have r: "hdl.replace n v (hs, h) = (c, hs', h')" by (simp add: headers_set_eq)
    then show ?thesis
      using hdl.replace_step [OF _ r] hdl.vals_replace [OF _ r, of m] inv by (auto simp: hdl_vals)
  qed
  then show "hs_inv hs'" "hs_rel (hs, h) (hs', h')"
    "c = ZUH_OK \<Longrightarrow> values_of m hs' =
       (if lowers (c_string m) = lowers (c_string n) then [c_string v] else values_of m hs)"
    "lowers (c_string m) \<noteq> lowers (c_string n) \<Longrightarrow> values_of m hs' = values_of m hs"
    by blast+
qed

lemma headers_free_spec:
  assumes "hs_inv hs" "zuh_headers_free hs h = (hs', h')"
  shows "hs_inv hs'" "hs_items hs' = []" "hs_rel (hs, h) (hs', h')" "hs_blocks hs' = 0" "hs_heap hs' = 0"
proof -
  obtain h1 where h1: "h1 = fold free_field (hs_items hs) h" by simp
  have res: "hs' = hs\<lparr>hs_items := [], hs_cap := 0, hs_bytes := 0\<rparr>" "h' = zuh_free (items_block hs) h1"
    using assms(2) h1 by (simp_all add: zuh_headers_free_def)
  have g1: "grew h h1 (- (2 * of_nat (length (hs_items hs)))) (- of_nat (sum_list (map field_bytes (hs_items hs))))"
    using free_fields_grew [of h "hs_items hs"] h1 by simp
  have g2: "grew h1 h' (- (if hs_cap hs = 0 then 0 else 1)) (- of_nat (SIZEOF_HEADER * hs_cap hs))"
    using zuh_free_grew [of h1 "SIZEOF_HEADER * hs_cap hs"] res(2) by (simp add: items_block_def)
  show "hs_rel (hs, h) (hs', h')"
    using grew_trans [OF g1 g2] res(1)
    by (simp add: hs_rel_def hs_limits_def hs_grew_def hs_blocks_def hs_heap_def add.commute)
  show "hs_inv hs'" "hs_items hs' = []" "hs_blocks hs' = 0" "hs_heap hs' = 0"
    by (simp_all add: res(1) hs_inv_def hs_blocks_def hs_heap_def)
qed

section \<open>Writing the list\<close>

definition field_line :: "zuh_header \<Rightarrow> bytes" where
  "field_line f = hd_name f @ '': '' @ hd_value f @ CRLF"

lemma writes_field: "bufw.writes (field_line f) (write_field f)"
proof -
  have "bufw.writes (concat [hd_name f, '': '', hd_value f, CRLF]) (write_field f)"
    unfolding write_field_def by (rule bufw.writes_c_all) (simp add: bufw.writes_append)
  then show ?thesis by (simp add: field_line_def)
qed

lemma writes_headers: "bufw.writes (concat (map field_line (hs_items hs))) (zuh_headers_write hs)"
  unfolding zuh_headers_write_def
  by (rule bufw.writes_c_all) (simp add: list_all2_conv_all_nth writes_field)

lemma field_ok_no_break: "field_ok f \<Longrightarrow> CR \<notin> set (hd_name f) \<and> LF \<notin> set (hd_name f) \<and> NUL \<notin> set (hd_name f)
    \<and> CR \<notin> set (hd_value f) \<and> LF \<notin> set (hd_value f) \<and> NUL \<notin> set (hd_value f)"
proof -
  assume f: "field_ok f"
  have "\<not> is_tchar CR" "\<not> is_tchar LF" "\<not> is_tchar NUL"
    by (simp_all add: is_tchar_def CR_def LF_def NUL_def)
  moreover have "\<not> value_char_ok CR" "\<not> value_char_ok LF" "\<not> value_char_ok NUL"
    by (simp_all add: value_char_ok_def)
  ultimately show ?thesis
    using f by (auto simp: field_ok_def zuh_header_name_valid_def zuh_header_value_valid_def list_all_iff)
qed

section \<open>UTF-8\<close>

text \<open>RFC 3629: the scalar values, and how each is encoded.\<close>

definition scalar_value :: "nat \<Rightarrow> bool" where
  "scalar_value cp \<longleftrightarrow> cp < 0xD800 \<or> (0xE000 \<le> cp \<and> cp \<le> 0x10FFFF)"

definition utf8_encode :: "nat \<Rightarrow> bytes" where
  "utf8_encode cp =
     (if cp < 0x80 then [char_of cp]
      else if cp < 0x800 then [char_of (0xC0 + cp div 64), char_of (0x80 + cp mod 64)]
      else if cp < 0x10000 then
        [char_of (0xE0 + cp div 4096), char_of (0x80 + cp div 64 mod 64), char_of (0x80 + cp mod 64)]
      else
        [char_of (0xF0 + cp div 262144), char_of (0x80 + cp div 4096 mod 64),
         char_of (0x80 + cp div 64 mod 64), char_of (0x80 + cp mod 64)])"

lemma digits64: "(d :: nat) < 64 \<Longrightarrow> (d + 64 * k) div 64 = k \<and> (d + 64 * k) mod 64 = d"
  by simp

lemma div_64_64: "(n :: nat) div 4096 = n div 64 div 64" "n div 262144 = n div 64 div 64 div 64"
  by (simp_all add: div_mult2_eq [symmetric])

lemma encode2:
  assumes "cval c = 0xC0 + a" "cval x = 0x80 + b" "2 \<le> a" "a < 32" "b < 64"
  shows "utf8_encode (b + 64 * a) = [c, x]"
  using assms digits64 [of b a] by (simp add: utf8_encode_def flip: assms(1,2))

lemma encode3:
  assumes "cval c = 0xE0 + a" "cval x = 0x80 + b" "cval y = 0x80 + d"
    and "a < 16" "b < 64" "d < 64" "a = 0 \<longrightarrow> 32 \<le> b"
  shows "utf8_encode (d + 64 * (b + 64 * a)) = [c, x, y]"
proof -
  have "\<not> d + 64 * (b + 64 * a) < 0x800" using assms by (cases "a = 0") auto
  moreover have "d + 64 * (b + 64 * a) < 0x10000" using assms(4-6) by auto
  ultimately show ?thesis
    using assms digits64 [of b a] digits64 [of d "b + 64 * a"]
    unfolding utf8_encode_def div_64_64 by (simp flip: assms(1-3))
qed

lemma encode4:
  assumes "cval c = 0xF0 + a" "cval x = 0x80 + b" "cval y = 0x80 + d" "cval z = 0x80 + e"
    and "a < 5" "b < 64" "d < 64" "e < 64" "a = 0 \<longrightarrow> 16 \<le> b"
  shows "utf8_encode (e + 64 * (d + 64 * (b + 64 * a))) = [c, x, y, z]"
proof -
  have "\<not> e + 64 * (d + 64 * (b + 64 * a)) < 0x10000" using assms by (cases "a = 0") auto
  then show ?thesis
    using assms digits64 [of b a] digits64 [of d "b + 64 * a"] digits64 [of e "d + 64 * (b + 64 * a)"]
    unfolding utf8_encode_def div_64_64 by (simp flip: assms(1-4))
qed

lemma upt_2_4: "[2..<2] = []" "[2..<3] = [2]" "[2..<4] = [2, Suc 2]"
  by (simp_all add: upt_rec)

lemma valid2:
  assumes "cval c = 0xC0 + a" "cval x = 0x80 + b" "2 \<le> a" "a < 32" "b < 64"
  shows "zuh_utf8_valid (c # x # t) = zuh_utf8_valid t"
proof -
  have "utf8_lead (cval c) = Some (1, 0x80, 0xBF)"
    using assms by (simp add: utf8_lead_def)
  with assms show ?thesis by (simp add: upt_2_4)
qed

lemma valid3:
  assumes "cval c = 0xE0 + a" "cval x = 0x80 + b" "cval y = 0x80 + d"
    and "a < 16" "b < 64" "d < 64" "a = 0 \<longrightarrow> 32 \<le> b" "a = 13 \<longrightarrow> b < 32"
  shows "zuh_utf8_valid (c # x # y # t) = zuh_utf8_valid t"
proof -
  have "\<exists>lo hi. utf8_lead (cval c) = Some (2, lo, hi) \<and> lo \<le> 0x80 + b \<and> 0x80 + b \<le> hi"
    unfolding assms(1) utf8_lead_def using assms(4-8) by auto
  with assms show ?thesis by (auto simp: upt_2_4)
qed

lemma valid4:
  assumes "cval c = 0xF0 + a" "cval x = 0x80 + b" "cval y = 0x80 + d" "cval z = 0x80 + e"
    and "a < 5" "b < 64" "d < 64" "e < 64" "a = 0 \<longrightarrow> 16 \<le> b" "a = 4 \<longrightarrow> b < 16"
  shows "zuh_utf8_valid (c # x # y # z # t) = zuh_utf8_valid t"
proof -
  have "\<exists>lo hi. utf8_lead (cval c) = Some (3, lo, hi) \<and> lo \<le> 0x80 + b \<and> 0x80 + b \<le> hi"
    unfolding assms(1) utf8_lead_def using assms(5-10) by auto
  with assms show ?thesis by (auto simp: upt_2_4)
qed

lemma scalar3: "d < 64 \<Longrightarrow> b < 64 \<Longrightarrow> (a = 13 \<longrightarrow> b < 32) \<and> a < 16 \<longleftrightarrow>
    scalar_value (d + 64 * (b + 64 * a)) \<and> d + 64 * (b + 64 * a) < 0x10000"
  unfolding scalar_value_def by (cases "a < 13"; cases "a = 13") auto

lemma scalar4: "e < 64 \<Longrightarrow> d < 64 \<Longrightarrow> b < 64 \<Longrightarrow> a = 0 \<longrightarrow> 16 \<le> b \<Longrightarrow> (a = 4 \<longrightarrow> b < 16) \<and> a < 5 \<longleftrightarrow>
    scalar_value (e + 64 * (d + 64 * (b + 64 * a)))"
  unfolding scalar_value_def by (cases "a = 0"; cases "a < 4"; cases "a = 4") auto

lemma ex_cval: "n < 256 \<Longrightarrow> \<exists>c. cval c = n"
  by (intro exI [of _ "char_of n"]) simp

lemma valid_encode:
  assumes "scalar_value cp"
  shows "zuh_utf8_valid (utf8_encode cp @ t) = zuh_utf8_valid t"
proof -
  consider "cp < 0x80" | "0x80 \<le> cp" "cp < 0x800" | "0x800 \<le> cp" "cp < 0x10000"
    | "0x10000 \<le> cp" "cp \<le> 0x10FFFF"
    using assms unfolding scalar_value_def by linarith
  then show ?thesis
  proof cases
    case 1
    then show ?thesis by (simp add: utf8_encode_def)
  next
    case 2
    define a b where "a = cp div 64" and "b = cp mod 64"
    then have cp: "cp = b + 64 * a" "2 \<le> a" "a < 32" "b < 64" using 2 by auto
    then obtain c x where "cval c = 0xC0 + a" "cval x = 0x80 + b"
      using ex_cval [of "0xC0 + a"] ex_cval [of "0x80 + b"] by auto
    with cp show ?thesis using encode2 [of c a x b] valid2 [of c a x b t] by simp
  next
    case 3
    define a b d where "a = cp div 64 div 64" and "b = cp div 64 mod 64" and "d = cp mod 64"
    then have cp: "cp = d + 64 * (b + 64 * a)" "b < 64" "d < 64" by simp_all
    then have ab: "(a = 13 \<longrightarrow> b < 32) \<and> a < 16" "a = 0 \<longrightarrow> 32 \<le> b"
      using scalar3 [of d b a] assms 3 by auto
    then obtain c x y where "cval c = 0xE0 + a" "cval x = 0x80 + b" "cval y = 0x80 + d"
      using ex_cval [of "0xE0 + a"] ex_cval [of "0x80 + b"] ex_cval [of "0x80 + d"] cp(2,3) by auto
    with cp ab show ?thesis
      using encode3 [of c a x b y d] valid3 [of c a x b y d t] by simp
  next
    case 4
    define a b d e where "a = cp div 64 div 64 div 64" and "b = cp div 64 div 64 mod 64"
      and "d = cp div 64 mod 64" and "e = cp mod 64"
    then have cp: "cp = e + 64 * (d + 64 * (b + 64 * a))" "b < 64" "d < 64" "e < 64" by simp_all
    then have z: "a = 0 \<longrightarrow> 16 \<le> b" using 4 by auto
    with cp have ab: "(a = 4 \<longrightarrow> b < 16) \<and> a < 5"
      using scalar4 [of e d b a] assms by auto
    then obtain c x y w where "cval c = 0xF0 + a" "cval x = 0x80 + b" "cval y = 0x80 + d" "cval w = 0x80 + e"
      using ex_cval [of "0xF0 + a"] ex_cval [of "0x80 + b"] ex_cval [of "0x80 + d"]
        ex_cval [of "0x80 + e"] cp(2-4) by auto
    with cp ab z show ?thesis
      using encode4 [of c a x b y d w e] valid4 [of c a x b y d w e t] by simp
  qed
qed

lemma valid_decode:
  assumes "zuh_utf8_valid (c # rest)"
  shows "\<exists>cp t. scalar_value cp \<and> c # rest = utf8_encode cp @ t \<and> zuh_utf8_valid t"
proof (cases "cval c < 0x80")
  case True
  then have "scalar_value (cval c)" "c # rest = utf8_encode (cval c) @ rest" "zuh_utf8_valid rest"
    using assms by (simp_all add: scalar_value_def utf8_encode_def)
  then show ?thesis by blast
next
  case False
  then obtain need lo hi where lead: "utf8_lead (cval c) = Some (need, lo, hi)"
    using assms by (auto split: option.splits)
  have b: "need \<le> length rest" "lo \<le> cval (rest ! 0)" "cval (rest ! 0) \<le> hi"
    "list_all (\<lambda>k. 0x80 \<le> cval (rest ! (k - 1)) \<and> cval (rest ! (k - 1)) \<le> 0xBF) [2..<need + 1]"
    and t: "zuh_utf8_valid (drop need rest)"
    using assms False lead by (auto simp: list_ex_iff list_all_iff not_less split: if_splits)
  consider (two) "need = 1" | (three) "need = 2" | (four) "need = 3"
    using lead by (auto simp: utf8_lead_def split: if_splits)
  then show ?thesis
  proof cases
    case two
    then obtain x u where r: "rest = x # u" using b(1) by (cases rest) auto
    define p q where "p = cval c - 0xC0" and "q = cval x - 0x80"
    have pq: "cval c = 0xC0 + p" "cval x = 0x80 + q" "2 \<le> p" "p < 32" "q < 64"
      using lead b(2,3) two r by (auto simp: utf8_lead_def p_def q_def split: if_splits)
    then have "scalar_value (q + 64 * p)" "c # rest = utf8_encode (q + 64 * p) @ u" "zuh_utf8_valid u"
      using encode2 [OF pq] r t two by (auto simp: scalar_value_def)
    then show ?thesis by blast
  next
    case three
    then obtain x y u where r: "rest = x # y # u"
      using b(1) by (auto simp: Suc_le_length_iff numeral_2_eq_2)
    define p q s where "p = cval c - 0xE0" and "q = cval x - 0x80" and "s = cval y - 0x80"
    have y: "0x80 \<le> cval y" "cval y \<le> 0xBF" using b(4) three r by (simp_all add: upt_2_4)
    have pq: "cval c = 0xE0 + p" "cval x = 0x80 + q" "p < 16" "q < 64" "p = 0 \<longrightarrow> 32 \<le> q"
        "p = 13 \<longrightarrow> q < 32"
      using lead b(2,3) three r by (auto simp: utf8_lead_def p_def q_def split: if_splits)
    have s: "cval y = 0x80 + s" "s < 64" using y by (auto simp: s_def)
    have "scalar_value (s + 64 * (q + 64 * p))"
      using scalar3 [OF s(2) pq(4), of p] pq by auto
    moreover have "c # rest = utf8_encode (s + 64 * (q + 64 * p)) @ u" "zuh_utf8_valid u"
      using encode3 [OF pq(1,2) s(1) pq(3,4) s(2) pq(5)] r t three by auto
    ultimately show ?thesis by blast
  next
    case four
    then obtain x y z u where r: "rest = x # y # z # u"
      using b(1) by (auto simp: Suc_le_length_iff numeral_3_eq_3)
    define p q s w where "p = cval c - 0xF0" and "q = cval x - 0x80" and "s = cval y - 0x80"
      and "w = cval z - 0x80"
    have yz: "0x80 \<le> cval y" "cval y \<le> 0xBF" "0x80 \<le> cval z" "cval z \<le> 0xBF"
      using b(4) four r by (simp_all add: upt_2_4)
    have pq: "cval c = 0xF0 + p" "cval x = 0x80 + q" "p < 5" "q < 64" "p = 0 \<longrightarrow> 16 \<le> q" "p = 4 \<longrightarrow> q < 16"
      using lead b(2,3) four r by (auto simp: utf8_lead_def p_def q_def split: if_splits)
    have s: "cval y = 0x80 + s" "s < 64" "cval z = 0x80 + w" "w < 64"
      using yz by (auto simp: s_def w_def)
    have "scalar_value (w + 64 * (s + 64 * (q + 64 * p)))"
      using scalar4 [OF s(4,2) pq(4,5)] pq by auto
    moreover have "c # rest = utf8_encode (w + 64 * (s + 64 * (q + 64 * p))) @ u" "zuh_utf8_valid u"
      using encode4 [OF pq(1,2) s(1,3) pq(3,4) s(2,4) pq(5)] r t four by auto
    ultimately show ?thesis by blast
  qed
qed

lemma utf8_encode_nonempty: "utf8_encode cp \<noteq> []"
  by (simp add: utf8_encode_def)

section \<open>Any sequence of operations\<close>

datatype hs_op = HAdd bytes bytes | HAddStr bytes bytes | HSet bytes bytes | HRemove bytes

fun hs_step :: "hs_op \<Rightarrow> zuh_headers \<times> heap \<Rightarrow> zuh_headers \<times> heap" where
  "hs_step (HAdd n v) s = snd (zuh_headers_add (fst s) n v (snd s))"
| "hs_step (HAddStr n v) s = snd (zuh_headers_add_str (fst s) n v (snd s))"
| "hs_step (HSet n v) s = snd (zuh_headers_set (fst s) n v (snd s))"
| "hs_step (HRemove n) s = snd (zuh_headers_remove (fst s) n (snd s))"

lemma hs_step_ok:
  assumes "hs_ok s"
  shows "hs_ok (hs_step x s) \<and> hs_rel s (hs_step x s)"
proof (cases x)
  case (HAdd n v)
  obtain c hs' h' where r: "zuh_headers_add (fst s) n v (snd s) = (c, hs', h')" by (rule prod_cases3)
  show ?thesis using headers_add_spec [OF assms r] HAdd r by (simp add: hs_rel_def)
next
  case (HAddStr n v)
  obtain c s' where r: "zuh_headers_add_str (fst s) n v (snd s) = (c, s')" by (rule prod.exhaust)
  show ?thesis using hdl.add_step [OF assms r] HAddStr r by simp
next
  case (HSet n v)
  obtain c hs' h' where r: "zuh_headers_set (fst s) n v (snd s) = (c, hs', h')" by (rule prod_cases3)
  show ?thesis using headers_set_step [OF assms r] HSet r by simp
next
  case (HRemove n)
  obtain k s' where r: "zuh_headers_remove (fst s) n (snd s) = (k, s')" by (rule prod.exhaust)
  show ?thesis using hdl.remove_step [OF assms r] HRemove r by simp
qed

lemma hs_steps_ok: "hs_ok s \<Longrightarrow> hs_ok (fold hs_step xs s) \<and> hs_rel s (fold hs_step xs s)"
proof (induction xs arbitrary: s)
  case (Cons x xs)
  from hs_step_ok [OF Cons.prems] Cons.IH [of "hs_step x s"] show ?case
    by (auto intro: hdl.rel_trans)
qed (simp add: hdl.rel_refl)

section \<open>Properties\<close>

text \<open>
  C4: whatever is inserted, replaced and removed, under any pattern of allocation failures,
  a header list never holds a byte that could end a line or a string, never exceeds a
  limit, counts its wire bytes exactly, and freeing it returns the heap to where it began.
\<close>
theorem headers_never_injected:
  assumes "fold hs_step ops (zuh_headers_init_limited mc mn mv mb, h) = (hs, h1)"
  shows "(\<forall>i n v. zuh_headers_at hs i = Some (n, v) \<longrightarrow>
             zuh_header_name_valid n \<and> zuh_header_value_valid v
             \<and> CR \<notin> set (n @ v) \<and> LF \<notin> set (n @ v) \<and> NUL \<notin> set (n @ v)
             \<and> (mn \<noteq> 0 \<longrightarrow> length n \<le> mn) \<and> (mv \<noteq> 0 \<longrightarrow> length v \<le> mv))
    \<and> (mc \<noteq> 0 \<longrightarrow> zuh_headers_total hs \<le> mc)
    \<and> hs_bytes hs = length (concat (map field_line (hs_items hs)))
    \<and> (mb \<noteq> 0 \<longrightarrow> hs_bytes hs \<le> mb)
    \<and> grew h (snd (zuh_headers_free hs h1)) 0 0"
proof -
  let ?init = "zuh_headers_init_limited mc mn mv mb"
  have inv: "hs_inv hs" and rel: "hs_rel (?init, h) (hs, h1)"
    using hs_steps_ok [of "(?init, h)" ops] assms by simp_all
  have lim: "hs_max_count hs = mc" "hs_max_bytes hs = mb" "hs_max_name hs = mn" "hs_max_value hs = mv"
    using rel by (simp_all add: hs_rel_def hs_limits_def zuh_headers_init_limited_def)
  have ok: "field_ok (hs_items hs ! i)" if "i < length (hs_items hs)" for i
    using inv that by (simp add: hs_inv_def list_all_length)
  have at: "zuh_header_name_valid n \<and> zuh_header_value_valid v
      \<and> CR \<notin> set (n @ v) \<and> LF \<notin> set (n @ v) \<and> NUL \<notin> set (n @ v)
      \<and> (mn \<noteq> 0 \<longrightarrow> length n \<le> mn) \<and> (mv \<noteq> 0 \<longrightarrow> length v \<le> mv)"
    if "zuh_headers_at hs i = Some (n, v)" for i n v
    using that ok [of i] field_ok_no_break [OF ok [of i]] inv lim
    by (auto simp: zuh_headers_at_def field_ok_def hs_inv_def list_all_length split: if_splits)
  have len: "length (concat (map field_line fs)) = sum_list (map wire_len fs)" for fs
    by (induction fs) (simp_all add: field_line_def wire_len_def)
  obtain hs2 h2 where f: "zuh_headers_free hs h1 = (hs2, h2)" by fastforce
  note F = headers_free_spec [OF inv f]
  have "hs_grew (?init, h) (hs2, h2)" "hs_blocks ?init = 0" "hs_heap ?init = 0"
    using hdl.rel_trans [OF rel F(3)] by (simp_all add: hs_rel_def hs_blocks_def hs_heap_def zuh_headers_init_limited_def)
  then have "grew h h2 0 0" using F(4,5) by (simp add: hs_grew_def)
  with at inv lim f len [of "hs_items hs"] show ?thesis
    by (auto simp: hs_inv_def zuh_headers_total_def)
qed

lemma headers_never_injected_witness:
  "hs_bytes (fst (fold hs_step [HAdd ''X'' (''y'' @ CRLF @ ''Z: 1''), HRemove ''a'']
     (zuh_headers_init_limited 1 0 0 0, fresh_heap))) = 0"
proof -
  let ?init = "zuh_headers_init_limited 1 0 0 0"
  have run: "fold hs_step [HAdd ''X'' (''y'' @ CRLF @ ''Z: 1''), HRemove ''a''] (?init, fresh_heap)
      = (?init, fresh_heap)"
    by (simp add: headers_add_eq add_refusal_def zuh_header_value_valid_def value_char_ok_def
        zuh_headers_remove_def zuh_headers_init_limited_def)
  show ?thesis
    using headers_never_injected [OF run] unfolding run by simp
qed

text \<open>
  Replacing a field makes the new value the only one a lookup finds under its name, in
  any letter case, leaves every other name's values as they were, and a name or value that
  is refused as malformed changes nothing.
\<close>
lemma headers_set_lookup:
  assumes "hs_inv hs" and "zuh_headers_set hs n v h = (c, hs', h')"
  shows "(c = ZUH_OK \<longrightarrow> zuh_headers_get hs' n = Some (c_string v) \<and> zuh_headers_count hs' n = 1)
    \<and> (zuh_ascii_casecmp m n \<noteq> 0 \<longrightarrow> zuh_headers_get_at hs' m i = zuh_headers_get_at hs m i)
    \<and> (zuh_ascii_casecmp m n = 0 \<longrightarrow> zuh_headers_get_at hs' m i = zuh_headers_get_at hs' n i)
    \<and> (c = ZUH_ERR_PARSE \<longrightarrow> hs' = hs \<and> h' = h)"
proof -
  note S = headers_set_step [OF assms]
  have "values_of m hs' = values_of n hs'" if "zuh_ascii_casecmp m n = 0"
    using that by (simp add: values_of_def field_is_def casecmp_0 cong: filter_cong)
  moreover have "hs' = hs \<and> h' = h" if c: "c = ZUH_ERR_PARSE"
  proof (cases "zuh_header_name_valid (c_string n) \<and> zuh_header_value_valid (c_string v)")
    case False
    with assms(2) show ?thesis by (auto simp: headers_set_eq)
  next
    case True
    obtain k hs1 h1 where r: "zuh_headers_remove hs n h = (k, hs1, h1)" by (rule prod_cases3)
    then have "zuh_headers_add hs1 (c_string n) (c_string v) h1 = (c, hs', h')"
      using assms(2) True by (simp add: zuh_headers_set_def zuh_headers_add_str_def)
    from headers_add_spec(5) [OF headers_remove_spec(1) [OF assms(1) r] this] True c show ?thesis
      by (auto simp: add_refusal_def split: option.splits if_splits)
  qed
  ultimately show ?thesis
    using S(3) [of n] S(4) [of m] by (auto simp: headers_get_eq headers_get_at_eq headers_count_eq casecmp_0)
qed

definition example_headers :: zuh_headers where
  "example_headers = \<lparr>hs_items = [\<lparr>hd_name = ''Accept'', hd_value = ''a''\<rparr>, \<lparr>hd_name = ''accept'', hd_value = ''b''\<rparr>],
     hs_cap = 8, hs_bytes = 22, hs_max_count = 0, hs_max_name = 0, hs_max_value = 4, hs_max_bytes = 0\<rparr>"

lemma example_headers_inv: "hs_inv example_headers"
  by (simp add: hs_inv_def example_headers_def field_ok_def zuh_header_name_valid_def is_tchar_def
      zuh_header_value_valid_def value_char_ok_def SIZEOF_HEADER_def SIZE_MAX_def wire_len_def
      CR_def LF_def NUL_def HTAB_def)

lemma headers_set_lookup_witness:
  "fst (snd (zuh_headers_set example_headers ''ACCEPT'' [LF] fresh_heap)) = example_headers"
proof -
  have "zuh_headers_set example_headers ''ACCEPT'' [LF] fresh_heap = (ZUH_ERR_PARSE, example_headers, fresh_heap)"
    by (simp add: zuh_headers_set_def zuh_header_value_valid_def value_char_ok_def c_string_def)
  from headers_set_lookup [OF example_headers_inv this] show ?thesis
    using \<open>zuh_headers_set _ _ _ _ = _\<close> by simp
qed

text \<open>
  A replacement refused for a limit is not so careful: the old fields of that name are
  gone when \<^verbatim>\<open>zuh_headers_set\<close> returns, although validation runs first so that a rejected
  set keeps the old value.
\<close>
lemma set_over_limit_loses_field:
  assumes "hs_inv hs" and "hs_max_value hs \<noteq> 0" and "hs_max_value hs < length (c_string v)"
    and "zuh_header_name_valid (c_string n)" and "zuh_header_value_valid (c_string v)"
  shows "fst (zuh_headers_set hs n v h) = ZUH_ERR_BODY_LIMIT
    \<and> \<not> zuh_headers_has (fst (snd (zuh_headers_set hs n v h))) n"
proof -
  obtain c hs' h' where run: "zuh_headers_set hs n v h = (c, hs', h')" by (rule prod_cases3)
  obtain k hs1 h1 where r: "zuh_headers_remove hs n h = (k, hs1, h1)" by (rule prod_cases3)
  have a: "zuh_headers_add hs1 (c_string n) (c_string v) h1 = (c, hs', h')"
    using run r assms(4,5) by (simp add: zuh_headers_set_def zuh_headers_add_str_def)
  have "add_refusal hs1 (c_string n) (c_string v) = Some ZUH_ERR_BODY_LIMIT"
    using headers_remove_spec(2) [OF assms(1) r] assms(2-5) by (simp add: add_refusal_def hs_limits_def)
  then have c: "c = ZUH_ERR_BODY_LIMIT" using a by (simp add: headers_add_eq)
  have "hdl.replace n v (hs, h) = (c, hs', h')"
    using run assms(4,5) by (simp add: headers_set_eq)
  from hdl.vals_replace [OF _ this, of n] assms(1) c have "values_of n hs' = []" by (simp add: hdl_vals)
  with run c show ?thesis by (simp add: headers_has_eq)
qed

lemma set_over_limit_loses_field_witness:
  "zuh_headers_has example_headers ''accept''
    \<and> \<not> zuh_headers_has (fst (snd (zuh_headers_set example_headers ''accept'' ''12345'' fresh_heap))) ''accept''"
proof -
  have "zuh_headers_has example_headers ''accept''"
    by (simp add: headers_has_eq values_of_def example_headers_def field_is_def literal_simps)
  then show ?thesis
    using set_over_limit_loses_field [OF example_headers_inv, of "''12345''" "''accept''" fresh_heap]
    by (simp add: example_headers_def c_string_def zuh_header_name_valid_def is_tchar_def
        zuh_header_value_valid_def value_char_ok_def CR_def LF_def NUL_def HTAB_def)
qed

text \<open>
  \<^verbatim>\<open>zuh_utf8_valid\<close> accepts exactly the UTF-8 encodings of sequences of Unicode scalar
  values: no overlong form, no surrogate and nothing above U+10FFFF.
\<close>
lemma utf8_valid_iff:
  "zuh_utf8_valid s \<longleftrightarrow> (\<exists>cps. list_all scalar_value cps \<and> s = concat (map utf8_encode cps))"
proof
  show "\<exists>cps. list_all scalar_value cps \<and> s = concat (map utf8_encode cps)" if "zuh_utf8_valid s"
    using that
  proof (induction "length s" arbitrary: s rule: less_induct)
    case less
    show ?case
    proof (cases s)
      case Nil
      then show ?thesis by (auto intro: exI [of _ "[]"])
    next
      case (Cons c rest)
      then obtain cp t where "scalar_value cp" "s = utf8_encode cp @ t" "zuh_utf8_valid t"
        using valid_decode [of c rest] less.prems by blast
      moreover from this have "length t < length s" using utf8_encode_nonempty by simp
      moreover from calculation obtain cps where "list_all scalar_value cps" "t = concat (map utf8_encode cps)"
        using less.hyps by blast
      ultimately show ?thesis by (auto intro!: exI [of _ "cp # cps"])
    qed
  qed
  show "zuh_utf8_valid s" if "\<exists>cps. list_all scalar_value cps \<and> s = concat (map utf8_encode cps)"
  proof -
    have "zuh_utf8_valid (concat (map utf8_encode cps))" if "list_all scalar_value cps" for cps
      using that by (induction cps) (simp_all add: valid_encode del: zuh_utf8_valid.simps(2))
    with that show ?thesis by blast
  qed
qed

end
