(* ===== verification/Zuh_Framing.thy ===== *)
theory Zuh_Framing
  imports Zuh_Headers
begin

text \<open>
  \<^verbatim>\<open>src/zuh_framing.c\<close>: how many bytes of the connection are the body of this response.
  The decision, the request-smuggling defence of the client, reads only the status, the
  request method and the two framing headers.
\<close>

section \<open>Definitions\<close>

datatype zuh_frame_kind = ZUH_FRAME_NONE | ZUH_FRAME_LENGTH | ZUH_FRAME_CHUNKED | ZUH_FRAME_UNTIL_CLOSE

record zuh_framing =
  fr_kind :: zuh_frame_kind
  fr_length :: u64
  fr_poolable :: bool

definition is_ows :: "char \<Rightarrow> bool" where
  "is_ows c \<longleftrightarrow> c = SP \<or> c = HTAB"

definition zuh_trim_ows :: "bytes \<Rightarrow> bytes" where
  "zuh_trim_ows s = rev (dropWhile is_ows (rev (dropWhile is_ows s)))"

fun parse_u64_loop :: "bytes \<Rightarrow> u64 \<Rightarrow> u64 option" where
  "parse_u64_loop [] v = Some v"
| "parse_u64_loop (c # cs) v =
     (if cval c < cval (CHR ''0'') \<or> cval c > cval (CHR ''9'') then None
      else let d = of_nat (cval c - cval (CHR ''0'')) :: u64 in
        if v > (- 1 - d) div 10 then None else parse_u64_loop cs (v * 10 + d))"

definition zuh_parse_u64_strict :: "bytes \<Rightarrow> u64 option" where
  "zuh_parse_u64_strict s = (if length s = 0 then None else parse_u64_loop s 0)"

definition status_bodyless :: "int \<Rightarrow> bool" where
  "status_bodyless status =
     (if status \<ge> 100 \<and> status \<le> 199 then True else status = 204 \<or> status = 304)"

abbreviation framing_error :: "zuh_error \<Rightarrow> bytes \<Rightarrow> zuh_error" where
  "framing_error e msg \<equiv> zuh_error_set e ZUH_ERR_PARSE ZUH_PHASE_READ msg"

definition zuh_framing_decide ::
    "zuh_headers \<Rightarrow> int \<Rightarrow> bool \<Rightarrow> zuh_error \<Rightarrow> zuh_code \<times> zuh_framing \<times> zuh_error" where
  "zuh_framing_decide hs status method_is_head err =
     (let out = \<lparr>fr_kind = ZUH_FRAME_NONE, fr_length = 0, fr_poolable = True\<rparr> in
      if status < 100 \<or> status > 599 then
        (ZUH_ERR_PARSE, out, framing_error err (''invalid response status '' @ show_int status))
      else
        let n_cl = zuh_headers_count hs ''Content-Length'';
            n_te = zuh_headers_count hs ''Transfer-Encoding'' in
        if n_cl > 0 \<and> n_te > 0 then
          (ZUH_ERR_PARSE, out,
           framing_error err ''response has both Content-Length and Transfer-Encoding'')
        else if n_cl > 1 then
          (ZUH_ERR_PARSE, out,
           framing_error err (''response has '' @ show_nat n_cl @ '' Content-Length headers''))
        else if n_te > 1 then
          (ZUH_ERR_PARSE, out,
           framing_error err (''response has '' @ show_nat n_te @ '' Transfer-Encoding headers''))
        else
          let te = zuh_trim_ows (the (zuh_headers_get hs ''Transfer-Encoding'')) in
          if n_te = 1 \<and> zuh_ascii_ncasecmp te ''chunked'' \<noteq> 0 then
            (ZUH_ERR_PARSE, out, framing_error err ''unsupported Transfer-Encoding'')
          else
            let cl = zuh_parse_u64_strict (zuh_trim_ows (the (zuh_headers_get hs ''Content-Length''))) in
            if n_cl = 1 \<and> cl = None then
              (ZUH_ERR_PARSE, out, framing_error err ''malformed Content-Length'')
            else
              let out = (if n_cl = 1 then out\<lparr>fr_length := the cl\<rparr> else out) in
              if method_is_head \<or> status_bodyless status then
                (ZUH_OK, out\<lparr>fr_kind := ZUH_FRAME_NONE, fr_length := 0, fr_poolable := True\<rparr>, err)
              else if n_te = 1 then
                (ZUH_OK, out\<lparr>fr_kind := ZUH_FRAME_CHUNKED, fr_poolable := True\<rparr>, err)
              else if n_cl = 1 then
                (ZUH_OK, out\<lparr>fr_kind := ZUH_FRAME_LENGTH, fr_poolable := True\<rparr>, err)
              else (ZUH_OK, out\<lparr>fr_kind := ZUH_FRAME_UNTIL_CLOSE, fr_poolable := False\<rparr>, err))"

section \<open>Strict decimal parsing\<close>

text \<open>The overflow test is exact: it refuses a digit precisely when the sum leaves 64 bits.\<close>

lemma u64_step_fits:
  fixes v :: u64
  assumes "d < 10"
  shows "(v > (- 1 - of_nat d) div 10) = (2 ^ 64 \<le> unat v * 10 + d)"
proof -
  have d: "unat (of_nat d :: u64) = d" using assms by (simp add: unat_of_nat take_bit_nat_def)
  have "unat (- 1 - of_nat d :: u64) = 2 ^ 64 - 1 - d"
    using assms unat_sub [of "of_nat d" "- 1 :: u64"]
    by (simp add: d unsigned_minus_1_eq_mask mask_eq_exp_minus_1)
  then have "unat ((- 1 - of_nat d :: u64) div 10) = (2 ^ 64 - 1 - d) div 10"
    by (simp add: unat_div_distrib)
  then have "(v > (- 1 - of_nat d) div 10) = ((2 ^ 64 - 1 - d) div 10 < unat v)"
    by (simp add: word_less_nat_alt)
  also have "\<dots> = (2 ^ 64 \<le> unat v * 10 + d)"
    using assms by (simp add: div_less_iff_less_mult) linarith
  finally show ?thesis .
qed

lemma parse_u64_loop_eq:
  "parse_u64_loop cs v =
     (if list_all is_digit cs \<and> dec_value (unat v) cs < 2 ^ 64
      then Some (of_nat (dec_value (unat v) cs)) else None)"
proof (induction cs arbitrary: v)
  case Nil
  then show ?case using unsigned_less [of v, where ?'a = nat] by simp
next
  case (Cons c cs)
  show ?case
  proof (cases "is_digit c")
    case True
    define d where "d = cval c - 48"
    have d: "d < 10" "48 \<le> cval c" "cval c \<le> 57" using True by (auto simp: is_digit_def d_def)
    show ?thesis
    proof (cases "2 ^ 64 \<le> unat v * 10 + d")
      case True
      then have "\<not> dec_value (unat v) (c # cs) < 2 ^ 64"
        using dec_value_mono [of "unat v * 10 + d" cs] by (simp add: d_def)
      with True u64_step_fits [OF d(1), of v] d show ?thesis
        by (simp add: d_def [symmetric] Let_def)
    next
      case False
      then have "unat (v * 10 + of_nat d) = unat v * 10 + d"
        by (simp add: unat_word_ariths take_bit_nat_def unat_of_nat)
      with False u64_step_fits [OF d(1), of v] d True Cons [of "v * 10 + of_nat d"] show ?thesis
        by (simp add: d_def [symmetric] Let_def)
    qed
  qed (auto simp: is_digit_def)
qed

lemma parse_u64_eq:
  "zuh_parse_u64_strict s =
     (if s \<noteq> [] \<and> list_all is_digit s \<and> dec_value 0 s < 2 ^ 64 then Some (of_nat (dec_value 0 s)) else None)"
  by (auto simp: zuh_parse_u64_strict_def parse_u64_loop_eq)

section \<open>The decision\<close>

text \<open>
  The contract: the framing of RFC 9112, section 6.3, with every ambiguity refused. The
  kind is a function of the values of the two headers, the status and the method.
\<close>

definition bodyless :: "int \<Rightarrow> bool \<Rightarrow> bool" where
  "bodyless status head \<longleftrightarrow> head \<or> status_bodyless status"

definition framing_spec :: "bytes list \<Rightarrow> bytes list \<Rightarrow> int \<Rightarrow> bool \<Rightarrow> zuh_framing option" where
  "framing_spec cls tes status head =
     (if status < 100 \<or> 599 < status then None
      else case (cls, tes) of
        ([], []) \<Rightarrow> Some (if bodyless status head then \<lparr>fr_kind = ZUH_FRAME_NONE, fr_length = 0, fr_poolable = True\<rparr>
                        else \<lparr>fr_kind = ZUH_FRAME_UNTIL_CLOSE, fr_length = 0, fr_poolable = False\<rparr>)
      | ([cl], []) \<Rightarrow>
          (let s = zuh_trim_ows cl in
           if s \<noteq> [] \<and> list_all is_digit s \<and> dec_value 0 s < 2 ^ 64 then
             Some (if bodyless status head
                   then \<lparr>fr_kind = ZUH_FRAME_NONE, fr_length = 0, fr_poolable = True\<rparr>
                   else \<lparr>fr_kind = ZUH_FRAME_LENGTH, fr_length = of_nat (dec_value 0 s), fr_poolable = True\<rparr>)
           else None)
      | ([], [te]) \<Rightarrow>
          (if lowers (zuh_trim_ows te) = ''chunked'' then
             Some (if bodyless status head
                   then \<lparr>fr_kind = ZUH_FRAME_NONE, fr_length = 0, fr_poolable = True\<rparr>
                   else \<lparr>fr_kind = ZUH_FRAME_CHUNKED, fr_length = 0, fr_poolable = True\<rparr>)
           else None)
      | _ \<Rightarrow> None)"

lemma framing_decide_cases:
  fixes hs status head err
  defines "cls \<equiv> values_of ''Content-Length'' hs" and "tes \<equiv> values_of ''Transfer-Encoding'' hs"
  shows "case zuh_framing_decide hs status head err of (c, out, err') \<Rightarrow>
    (case framing_spec cls tes status head of
       None \<Rightarrow> c = ZUH_ERR_PARSE \<and> err_code err' = ZUH_ERR_PARSE \<and> err_phase err' = ZUH_PHASE_READ
     | Some fr \<Rightarrow> c = ZUH_OK \<and> out = fr \<and> err' = err)"
proof (cases "status < 100 \<or> 599 < status")
  case True
  then show ?thesis by (auto simp: zuh_framing_decide_def framing_spec_def)
next
  case False
  note defs = zuh_framing_decide_def framing_spec_def headers_count_eq headers_get_eq Let_def bodyless_def
    cls_def [symmetric] tes_def [symmetric]
  consider "cls = []" "tes = []" | cl where "cls = [cl]" "tes = []" | te where "cls = []" "tes = [te]"
    | "cls \<noteq> []" "tes \<noteq> []" | a b cs where "cls = a # b # cs" "tes = []"
    | a b cs where "cls = []" "tes = a # b # cs"
    by (metis neq_Nil_conv)
  then show ?thesis
  proof cases
    case 4
    with False show ?thesis by (auto simp: defs split: list.splits)
  next
    case 5
    with False show ?thesis by (simp add: defs)
  next
    case 6
    with False show ?thesis by (simp add: defs)
  qed (use False in \<open>simp_all add: defs parse_u64_eq ncasecmp_0\<close>)
qed

section \<open>Properties\<close>

text \<open>
  \<^verbatim>\<open>zuh_parse_u64_strict\<close> accepts exactly the non-empty strings of decimal digits whose
  value fits 64 bits, and returns that value: the overflow test refuses nothing it should
  take, and no sign, blank or hexadecimal digit gets through.
\<close>
lemma parse_u64_strict_exact:
  "zuh_parse_u64_strict s = Some v \<longleftrightarrow> s \<noteq> [] \<and> list_all is_digit s \<and> dec_value 0 s = unat v"
  using unsigned_less [of v, where ?'a = nat]
  by (auto simp: parse_u64_eq unat_of_nat take_bit_nat_def)

text \<open>
  C40: \<^verbatim>\<open>zuh_framing_decide\<close> is the contract \<^const>\<open>framing_spec\<close>: on every status, method and
  header list it accepts exactly the unambiguous responses, with the framing the contract
  gives them, and refuses all others with a parse error that is recorded.
\<close>
theorem framing_decide_refines:
  "(case zuh_framing_decide hs status head err of (c, out, err') \<Rightarrow>
      (if c = ZUH_OK then Some out else None))
     = framing_spec (values_of ''Content-Length'' hs) (values_of ''Transfer-Encoding'' hs) status head
   \<and> (case zuh_framing_decide hs status head err of (c, out, err') \<Rightarrow>
        (c = ZUH_OK \<and> err' = err) \<or> (c = ZUH_ERR_PARSE \<and> err_code err' = ZUH_ERR_PARSE))"
  using framing_decide_cases [where hs = hs and status = status and head = head and err = err]
  by (auto split: prod.splits option.splits)

text \<open>
  C1: no smuggling. A response with two framing headers, of the same or of different kinds,
  in any letter case and anywhere in the list, is refused whatever its status and method,
  and an accepted response frames its body by the only framing header it has: a length by
  its one \<^verbatim>\<open>Content-Length\<close>, chunks by its one \<^verbatim>\<open>Transfer-Encoding\<close>, and only a response
  without either is read to the end of the connection, which then is not pooled.
\<close>
theorem framing_no_smuggling:
  assumes "zuh_framing_decide hs status head err = (c, out, err')"
  shows "(zuh_headers_count hs ''content-length'' + zuh_headers_count hs ''transfer-encoding'' > 1
            \<longrightarrow> c = ZUH_ERR_PARSE)
    \<and> (c = ZUH_OK \<and> fr_kind out = ZUH_FRAME_LENGTH \<longrightarrow>
         zuh_headers_has hs ''content-length'' \<and> \<not> zuh_headers_has hs ''transfer-encoding'')
    \<and> (c = ZUH_OK \<and> fr_kind out = ZUH_FRAME_CHUNKED \<longrightarrow>
         zuh_headers_has hs ''transfer-encoding'' \<and> \<not> zuh_headers_has hs ''content-length'')
    \<and> (c = ZUH_OK \<longrightarrow> (fr_poolable out \<longleftrightarrow> fr_kind out \<noteq> ZUH_FRAME_UNTIL_CLOSE))
    \<and> (c = ZUH_OK \<and> fr_kind out = ZUH_FRAME_UNTIL_CLOSE \<longrightarrow>
         \<not> zuh_headers_has hs ''content-length'' \<and> \<not> zuh_headers_has hs ''transfer-encoding'')"
proof -
  have names: "values_of ''content-length'' hs = values_of ''Content-Length'' hs"
    "values_of ''transfer-encoding'' hs = values_of ''Transfer-Encoding'' hs"
    by (rule values_of_cong; simp add: literal_simps)+
  show ?thesis
    using framing_decide_cases [where hs = hs and status = status and head = head and err = err] assms
    by (auto simp: names headers_count_eq headers_has_eq framing_spec_def Let_def
        split: option.splits list.splits if_splits)
qed

lemma framing_no_smuggling_witness:
  "fst (zuh_framing_decide (zuh_headers_init\<lparr>hs_items :=
      [\<lparr>hd_name = ''CONTENT-LENGTH'', hd_value = ''5''\<rparr>,
       \<lparr>hd_name = ''Transfer-Encoding'', hd_value = ''chunked''\<rparr>]\<rparr>) 200 False no_error) = ZUH_ERR_PARSE"
proof -
  let ?hs = "zuh_headers_init\<lparr>hs_items :=
      [\<lparr>hd_name = ''CONTENT-LENGTH'', hd_value = ''5''\<rparr>,
       \<lparr>hd_name = ''Transfer-Encoding'', hd_value = ''chunked''\<rparr>]\<rparr>"
  have "zuh_headers_count ?hs ''content-length'' = 1" "zuh_headers_count ?hs ''transfer-encoding'' = 1"
    by (simp_all add: headers_count_eq values_of_def field_is_def literal_simps)
  moreover obtain c out err' where run: "zuh_framing_decide ?hs 200 False no_error = (c, out, err')"
    by (rule prod_cases3)
  ultimately show ?thesis
    using framing_no_smuggling [OF run] by simp
qed

end
