(* ===== verification/Zuh_Uri.thy ===== *)
theory Zuh_Uri
  imports Zuh_Headers
begin

text \<open>
  \<^verbatim>\<open>src/zuh_uri.c\<close>: the normalised URL every other component works on, and the policy that
  turns what the RFC 3986 parser accepts into a request target. The vendored uriparser is
  a parameter: \<open>up_parse\<close> is \<^verbatim>\<open>uriParseSingleUriExMmA\<close> and \<open>up_resolve\<close> is
  \<^verbatim>\<open>uriAddBaseUriExMmA\<close> in strict mode, both allocating on the heap they take; a
  \<open>up_uri\<close> holds the text ranges of a \<^verbatim>\<open>UriUriA\<close>, \<open>None\<close> for a range whose \<^verbatim>\<open>first\<close> is NULL.
  Strings here never contain a NUL, because \<^verbatim>\<open>zuh_uri_parse\<close> refuses one in its input.
\<close>

section \<open>The structure\<close>

text \<open>\<open>u_host_block\<close> is the size of the host's allocation, which a stripped dot leaves one longer.\<close>

record zuh_uri =
  u_scheme :: "bytes option"
  u_host :: "bytes option"
  u_host_block :: "nat option"
  u_path_query :: "bytes option"
  u_userinfo :: "bytes option"
  u_port :: "16 word"
  u_is_https :: bool
  u_port_explicit :: bool

definition zuh_uri_init :: zuh_uri where
  "zuh_uri_init = \<lparr>u_scheme = None, u_host = None, u_host_block = None, u_path_query = None,
     u_userinfo = None, u_port = 0, u_is_https = False, u_port_explicit = False\<rparr>"

definition str_block :: "bytes option \<Rightarrow> nat option" where
  "str_block s = map_option (\<lambda>x. length x + 1) s"

definition zuh_uri_free :: "zuh_uri \<Rightarrow> heap \<Rightarrow> zuh_uri \<times> heap" where
  "zuh_uri_free u h =
     (zuh_uri_init,
      zuh_free (str_block (u_userinfo u)) (zuh_free (str_block (u_path_query u))
        (zuh_free (u_host_block u) (zuh_free (str_block (u_scheme u)) h))))"

definition dup_str :: "bytes option \<Rightarrow> heap \<Rightarrow> bytes option \<times> heap" where
  "dup_str s h =
     (case s of
        None \<Rightarrow> (None, h)
      | Some t \<Rightarrow> (case zuh_alloc (length t + 1) h of (ok, h') \<Rightarrow> (if ok then Some t else None, h')))"

definition zuh_uri_copy :: "zuh_uri \<Rightarrow> heap \<Rightarrow> bool \<times> zuh_uri \<times> heap" where
  "zuh_uri_copy src h =
     (let d0 = zuh_uri_init\<lparr>u_port := u_port src, u_is_https := u_is_https src,
                 u_port_explicit := u_port_explicit src\<rparr> in
      case dup_str (u_scheme src) h of (sc, h1) \<Rightarrow>
      let d1 = d0\<lparr>u_scheme := sc\<rparr> in
      if u_scheme src \<noteq> None \<and> sc = None then (case zuh_uri_free d1 h1 of (d, h') \<Rightarrow> (False, d, h'))
      else case dup_str (u_host src) h1 of (ho, h2) \<Rightarrow>
      let d2 = d1\<lparr>u_host := ho, u_host_block := str_block ho\<rparr> in
      if u_host src \<noteq> None \<and> ho = None then (case zuh_uri_free d2 h2 of (d, h') \<Rightarrow> (False, d, h'))
      else case dup_str (u_path_query src) h2 of (pq, h3) \<Rightarrow>
      let d3 = d2\<lparr>u_path_query := pq\<rparr> in
      if u_path_query src \<noteq> None \<and> pq = None then (case zuh_uri_free d3 h3 of (d, h') \<Rightarrow> (False, d, h'))
      else case dup_str (u_userinfo src) h3 of (ui, h4) \<Rightarrow>
      let d4 = d3\<lparr>u_userinfo := ui\<rparr> in
      if u_userinfo src \<noteq> None \<and> ui = None then (case zuh_uri_free d4 h4 of (d, h') \<Rightarrow> (False, d, h'))
      else (True, d4, h4))"

section \<open>Origins\<close>

definition zuh_uri_default_port :: "bytes \<Rightarrow> 16 word" where
  "zuh_uri_default_port scheme =
     (if zuh_ascii_casecmp scheme ''https'' = 0 then 443
      else if zuh_ascii_casecmp scheme ''http'' = 0 then 80 else 0)"

definition zuh_uri_same_origin :: "zuh_uri \<Rightarrow> zuh_uri \<Rightarrow> bool" where
  "zuh_uri_same_origin a b =
     (case (u_scheme a, u_scheme b, u_host a, u_host b) of
        (Some sa, Some sb, Some ha, Some hb) \<Rightarrow>
          if zuh_ascii_casecmp sa sb \<noteq> 0 then False
          else if zuh_ascii_casecmp ha hb \<noteq> 0 then False
          else (if u_port a \<noteq> 0 then u_port a else zuh_uri_default_port sa)
             = (if u_port b \<noteq> 0 then u_port b else zuh_uri_default_port sb)
      | _ \<Rightarrow> False)"

text \<open>The result is the C function's, with the string \<^verbatim>\<open>snprintf\<close> left in the buffer of \<open>cap\<close> bytes.\<close>

definition zuh_uri_origin_string :: "zuh_uri \<Rightarrow> nat \<Rightarrow> bool \<times> bytes" where
  "zuh_uri_origin_string u cap =
     (if cap = 0 then (False, [])
      else case (u_scheme u, u_host u) of
        (Some s, Some ho) \<Rightarrow>
          (let def = zuh_uri_default_port s;
               txt = (if u_port u \<noteq> 0 \<and> u_port u \<noteq> def
                      then s @ ''://'' @ ho @ '':'' @ show_nat (unat (u_port u))
                      else s @ ''://'' @ ho)
           in (length txt < cap, take (cap - 1) txt))
      | _ \<Rightarrow> (False, []))"

section \<open>From the parser's ranges\<close>

record up_uri =
  up_scheme :: "bytes option"
  up_userinfo :: "bytes option"
  up_host :: "bytes option"
  up_ip6 :: bool
  up_ipfuture :: bool
  up_port :: bytes
  up_path :: "bytes list"
  up_query :: "bytes option"

datatype up_result = UriSuccess up_uri | UriErrorMalloc | UriErrorOther

definition rng_dup_lower :: "bytes \<Rightarrow> heap \<Rightarrow> bytes option \<times> heap" where
  "rng_dup_lower r h =
     (case zuh_alloc (length r + 1) h of (ok, h') \<Rightarrow> (if ok then Some (lowers r) else None, h'))"

definition rng_dup :: "bytes \<Rightarrow> heap \<Rightarrow> bytes option \<times> heap" where
  "rng_dup r h =
     (case zuh_alloc (length r + 1) h of (ok, h') \<Rightarrow> (if ok then Some r else None, h'))"

fun port_loop :: "bytes \<Rightarrow> nat \<Rightarrow> nat option" where
  "port_loop [] v = Some v"
| "port_loop (c # cs) v =
     (if cval c < cval (CHR ''0'') \<or> cval c > cval (CHR ''9'') then None
      else let v = v * 10 + (cval c - cval (CHR ''0'')) in
        if v > 65535 then None else port_loop cs v)"

text \<open>The port and whether it was explicit; \<open>None\<close> is the failure.\<close>

definition port_from_range :: "bytes \<Rightarrow> (16 word \<times> bool) option" where
  "port_from_range r =
     (if length r = 0 then Some (0, False)
      else (case port_loop r 0 of None \<Rightarrow> None | Some v \<Rightarrow> Some (of_nat v, True)))"

text \<open>The host after the call, or \<open>None\<close> when it is refused.\<close>

definition host_ok :: "bytes \<Rightarrow> bool \<Rightarrow> bytes option" where
  "host_ok host is_ipv6 =
     (let n = length host in
      if n = 0 then None
      else if is_ipv6 then Some host
      else if list_ex (\<lambda>i. host ! i = CHR ''.'' \<and> host ! (i - 1) = CHR ''.'') [1..<n] then None
      else if host ! 0 = CHR ''.'' then None
      else let host' = (if host ! (n - 1) = CHR ''.'' then take (n - 1) host else host) in
        if length host' > 0 then Some host' else None)"

definition append_segment :: "bytes \<Rightarrow> zuh_buffer \<times> heap \<Rightarrow> bool \<times> zuh_buffer \<times> heap" where
  "append_segment s = c_and (zuh_buf_append_byte (CHR ''/'')) (zuh_buf_append s)"

definition build_path_query :: "up_uri \<Rightarrow> heap \<Rightarrow> bytes option \<times> heap" where
  "build_path_query u h =
     (case zuh_buf_init 64 (64 * 1024) h of (ok, b, h1) \<Rightarrow>
      if \<not> ok then (None, h1)
      else case c_all
          [if up_path u = [] then zuh_buf_append_byte (CHR ''/'')
           else c_all (map append_segment (up_path u)),
           case up_query u of None \<Rightarrow> (\<lambda>s. (True, s))
           | Some q \<Rightarrow> c_and (zuh_buf_append_byte (CHR ''?'')) (zuh_buf_append q),
           zuh_buf_cstr] (b, h1) of (ok, b2, h2) \<Rightarrow>
        (case (if ok then dup_str (Some (buf_data b2)) h2 else (None, h2)) of (out, h3) \<Rightarrow>
           (out, snd (zuh_buf_free b2 h3))))"

definition from_uriparser :: "up_uri \<Rightarrow> heap \<Rightarrow> zuh_code \<times> zuh_uri \<times> heap" where
  "from_uriparser u h =
     (let bad = (\<lambda>out h. case zuh_uri_free out h of (o', h') \<Rightarrow> (ZUH_ERR_URL, o', h'));
          nomem = (\<lambda>out h. case zuh_uri_free out h of (o', h') \<Rightarrow> (ZUH_ERR_NOMEM, o', h'))
      in case (up_scheme u, up_host u) of
        (Some us, Some uh) \<Rightarrow>
         (case rng_dup_lower us h of
            (None, h1) \<Rightarrow> (ZUH_ERR_NOMEM, zuh_uri_init, h1)
          | (Some sc, h1) \<Rightarrow>
            let out = zuh_uri_init\<lparr>u_scheme := Some sc\<rparr> in
            if sc \<noteq> ''http'' \<and> sc \<noteq> ''https'' then bad out h1
            else let out = out\<lparr>u_is_https := (sc = ''https'')\<rparr> in
            if up_ipfuture u then bad out h1
            else
             (case rng_dup_lower uh h1 of
                (None, h2) \<Rightarrow> nomem out h2
              | (Some ho, h2) \<Rightarrow>
                let out = out\<lparr>u_host := Some ho, u_host_block := Some (length ho + 1)\<rparr>;
                    is_ipv6 = up_ip6 u \<or> CHR '':'' \<in> set ho in
                (case host_ok ho is_ipv6 of
                   None \<Rightarrow> bad out h2
                 | Some ho' \<Rightarrow>
                   let out = out\<lparr>u_host := Some ho'\<rparr> in
                   (case port_from_range (up_port u) of
                      None \<Rightarrow> bad out h2
                    | Some (port, expl) \<Rightarrow>
                      let port = (if \<not> expl then zuh_uri_default_port sc else port);
                          out = out\<lparr>u_port := port, u_port_explicit := expl\<rparr> in
                      if port = 0 then bad out h2
                      else
                       (case (case up_userinfo u of None \<Rightarrow> (None, h2) | Some ui \<Rightarrow> rng_dup ui h2) of
                          (ui, h3) \<Rightarrow>
                          if up_userinfo u \<noteq> None \<and> ui = None then nomem out h3
                          else
                           (case build_path_query u h3 of
                              (None, h4) \<Rightarrow> nomem (out\<lparr>u_userinfo := ui\<rparr>) h4
                            | (Some pq, h4) \<Rightarrow>
                                (ZUH_OK, out\<lparr>u_userinfo := ui, u_path_query := Some pq\<rparr>, h4)))))))
      | _ \<Rightarrow> (ZUH_ERR_URL, zuh_uri_init, h))"

definition range_has_nul :: "bytes \<Rightarrow> bool" where
  "range_has_nul s \<longleftrightarrow> NUL \<in> set s"

type_synonym uri_parser = "bytes \<Rightarrow> heap \<Rightarrow> up_result \<times> heap"

definition zuh_uri_parse ::
    "uri_parser \<Rightarrow> (up_uri \<Rightarrow> heap \<Rightarrow> heap) \<Rightarrow> bytes \<Rightarrow> heap \<Rightarrow> zuh_code \<times> zuh_uri \<times> heap" where
  "zuh_uri_parse up_parse up_free s h =
     (if range_has_nul s then (ZUH_ERR_URL, zuh_uri_init, h)
      else (case up_parse s h of
          (UriErrorMalloc, h1) \<Rightarrow> (ZUH_ERR_NOMEM, zuh_uri_init, h1)
        | (UriErrorOther, h1) \<Rightarrow> (ZUH_ERR_URL, zuh_uri_init, h1)
        | (UriSuccess u, h1) \<Rightarrow>
            (case from_uriparser u h1 of (rc, out, h2) \<Rightarrow> (rc, out, up_free u h2))))"

text \<open>The text of the base, as \<^verbatim>\<open>zuh_uri_resolve\<close> rebuilds it.\<close>

definition append_base :: "zuh_uri \<Rightarrow> zuh_buffer \<times> heap \<Rightarrow> bool \<times> zuh_buffer \<times> heap" where
  "append_base base = c_all
     [zuh_buf_append (the (u_scheme base)), zuh_buf_append ''://'',
      if CHR '':'' \<in> set (the (u_host base))
      then c_all [zuh_buf_append_byte (CHR ''[''), zuh_buf_append (the (u_host base)),
                  zuh_buf_append_byte (CHR '']'')]
      else zuh_buf_append (the (u_host base)),
      if u_port_explicit base then zuh_buf_append ('':'' @ show_nat (unat (u_port base)))
      else (\<lambda>s. (True, s)),
      zuh_buf_append (the (u_path_query base)), zuh_buf_cstr]"

fun up_code :: "up_result \<Rightarrow> zuh_code" where
  "up_code UriErrorMalloc = ZUH_ERR_NOMEM"
| "up_code _ = ZUH_ERR_URL"

definition zuh_uri_resolve ::
    "uri_parser \<Rightarrow> (up_uri \<Rightarrow> up_uri \<Rightarrow> heap \<Rightarrow> up_result \<times> heap) \<Rightarrow> (up_uri \<Rightarrow> heap \<Rightarrow> heap)
     \<Rightarrow> zuh_uri \<Rightarrow> bytes \<Rightarrow> heap \<Rightarrow> zuh_code \<times> zuh_uri \<times> heap" where
  "zuh_uri_resolve up_parse up_resolve up_free base ref h =
     (if u_scheme base = None \<or> u_host base = None \<or> u_path_query base = None
      then (ZUH_ERR_URL, zuh_uri_init, h)
      else if range_has_nul ref then (ZUH_ERR_URL, zuh_uri_init, h)
      else case zuh_buf_init 128 (64 * 1024) h of (ok, b, h1) \<Rightarrow>
      if \<not> ok then (ZUH_ERR_NOMEM, zuh_uri_init, h1)
      else case append_base base (b, h1) of (ok, b2, h2) \<Rightarrow>
      if \<not> ok then (ZUH_ERR_NOMEM, zuh_uri_init, snd (zuh_buf_free b2 h2))
      else case up_parse (buf_data b2) h2 of (rb, h3) \<Rightarrow>
      (case rb of
         UriSuccess ubase \<Rightarrow>
          (case up_parse ref h3 of (rr, h4) \<Rightarrow>
           (case rr of
              UriSuccess uref \<Rightarrow>
               (case up_resolve uref ubase h4 of (ra, h5) \<Rightarrow>
                (case ra of
                   UriSuccess uabs \<Rightarrow>
                     (case from_uriparser uabs h5 of (rc, out, h6) \<Rightarrow>
                        (rc, out, snd (zuh_buf_free b2 (up_free ubase (up_free uref (up_free uabs h6))))))
                 | e \<Rightarrow> (up_code e, zuh_uri_init, snd (zuh_buf_free b2 (up_free ubase (up_free uref h5))))))
            | e \<Rightarrow> (up_code e, zuh_uri_init, snd (zuh_buf_free b2 (up_free ubase h4)))))
       | e \<Rightarrow> (up_code e, zuh_uri_init, snd (zuh_buf_free b2 h3))))"

section \<open>What the operations compute\<close>

lemma zuh_uri_free_init [simp]: "fst (zuh_uri_free u h) = zuh_uri_init"
  by (simp add: zuh_uri_free_def)

lemma port_loop_eq:
  "v \<le> 65535 \<Longrightarrow> port_loop cs v =
     (if list_all is_digit cs \<and> dec_value v cs \<le> 65535 then Some (dec_value v cs) else None)"
proof (induction cs arbitrary: v)
  case (Cons c cs)
  have "v * 10 + (cval c - 48) \<le> dec_value (v * 10 + (cval c - 48)) cs"
    by (rule dec_value_mono)
  then show ?case
    using Cons.IH [of "v * 10 + (cval c - 48)"] by (auto simp: is_digit_def Let_def)
qed simp

lemma port_from_range_eq:
  "port_from_range r =
     (if r = [] then Some (0, False)
      else if list_all is_digit r \<and> dec_value 0 r \<le> 65535 then Some (of_nat (dec_value 0 r), True)
      else None)"
  by (simp add: port_from_range_def port_loop_eq)

text \<open>A DNS name without empty labels: what the resolver and the comparisons see.\<close>

definition plain_name :: "bytes \<Rightarrow> bool" where
  "plain_name n \<longleftrightarrow> n \<noteq> [] \<and> hd n \<noteq> CHR ''.'' \<and> last n \<noteq> CHR ''.''
     \<and> (\<forall>i. Suc i < length n \<longrightarrow> \<not> (n ! i = CHR ''.'' \<and> n ! Suc i = CHR ''.''))"

lemma host_ok_ipv6: "host_ok h True = (if h = [] then None else Some h)"
  by (simp add: host_ok_def Let_def)

lemma host_ok_plain:
  assumes "host_ok h False = Some h'"
  shows "plain_name h' \<and> (h' = h \<or> h = h' @ ''.'')"
proof -
  let ?n = "length h"
  have n: "h \<noteq> []" and adj: "\<And>i. 1 \<le> i \<Longrightarrow> i < ?n \<Longrightarrow> \<not> (h ! i = CHR ''.'' \<and> h ! (i - 1) = CHR ''.'')"
    and first: "h ! 0 \<noteq> CHR ''.''"
    and h': "h' = (if h ! (?n - 1) = CHR ''.'' then take (?n - 1) h else h)" "h' \<noteq> []"
    using assms by (auto simp: host_ok_def Let_def list_ex_iff split: if_splits)
  have adj': "\<not> (h ! i = CHR ''.'' \<and> h ! Suc i = CHR ''.'')" if "Suc i < ?n" for i
    using adj [of "Suc i"] that by auto
  show ?thesis
  proof (cases "h ! (?n - 1) = CHR ''.''")
    case True
    then have h2: "h' = take (?n - 1) h" "h = h' @ ''.''"
      using h'(1) n True append_butlast_last_id [of h] by (simp_all add: last_conv_nth butlast_conv_take)
    then have len: "length h' = ?n - 1" "2 \<le> ?n" using h'(2) by (auto simp: Suc_le_eq)
    have "last h' \<noteq> CHR ''.''"
    proof -
      have "last h' = h ! (?n - 2)" using h2(1) h'(2) len by (simp add: last_conv_nth numeral_2_eq_2)
      with adj' [of "?n - 2"] True len show ?thesis by (auto simp: numeral_2_eq_2 Suc_diff_Suc)
    qed
    moreover have "hd h' \<noteq> CHR ''.''" using h2(1) h'(2) first by (simp add: hd_conv_nth)
    moreover have "\<not> (h' ! i = CHR ''.'' \<and> h' ! Suc i = CHR ''.'')" if "Suc i < length h'" for i
      using adj' [of i] that len h2(1) by simp
    ultimately show ?thesis using h'(2) h2(2) by (simp add: plain_name_def)
  next
    case False
    with h' n first adj' show ?thesis
      by (simp add: plain_name_def hd_conv_nth last_conv_nth)
  qed
qed

definition path_query_text :: "up_uri \<Rightarrow> bytes" where
  "path_query_text u =
     (if up_path u = [] then ''/'' else concat (map (\<lambda>s. CHR ''/'' # s) (up_path u)))
     @ (case up_query u of None \<Rightarrow> [] | Some q \<Rightarrow> CHR ''?'' # q)"

lemma path_query_text_slash: "\<exists>t. path_query_text u = CHR ''/'' # t"
  by (cases "up_path u") (simp_all add: path_query_text_def)

definition pq_ops :: "up_uri \<Rightarrow> zuh_buffer \<times> heap \<Rightarrow> bool \<times> zuh_buffer \<times> heap" where
  "pq_ops u = c_and
     (if up_path u = [] then zuh_buf_append_byte (CHR ''/'') else c_all (map append_segment (up_path u)))
     (case up_query u of None \<Rightarrow> (\<lambda>s. (True, s))
      | Some q \<Rightarrow> c_and (zuh_buf_append_byte (CHR ''?'')) (zuh_buf_append q))"

lemma build_path_query_ops:
  "build_path_query u h =
     (case zuh_buf_init 64 65536 h of (ok, b, h1) \<Rightarrow>
      if \<not> ok then (None, h1)
      else case c_and (pq_ops u) zuh_buf_cstr (b, h1) of (ok, b2, h2) \<Rightarrow>
        (case (if ok then dup_str (Some (buf_data b2)) h2 else (None, h2)) of (out, h3) \<Rightarrow>
           (out, snd (zuh_buf_free b2 h3))))"
  unfolding build_path_query_def pq_ops_def
  by (auto simp: c_and_def split: prod.splits intro!: ext)

lemma exact_segment: "buft.exact (CHR ''/'' # s) (append_segment s)"
  using buft.exact_c_and [OF exact_byte [of "CHR ''/''"] buft.exact_append [of s]]
  by (simp add: append_segment_def)

lemma exact_pq: "buft.exact (path_query_text u) (pq_ops u)"
  unfolding path_query_text_def pq_ops_def
proof (rule buft.exact_c_and)
  show "buft.exact (if up_path u = [] then ''/'' else concat (map ((#) CHR ''/'') (up_path u)))
     (if up_path u = [] then zuh_buf_append_byte CHR ''/'' else c_all (map append_segment (up_path u)))"
    by (auto intro!: buft.exact_c_all exact_byte simp: list_all2_conv_all_nth exact_segment)
  show "buft.exact (case up_query u of None \<Rightarrow> [] | Some q \<Rightarrow> CHR ''?'' # q)
     (case up_query u of None \<Rightarrow> Pair True | Some q \<Rightarrow> c_and (zuh_buf_append_byte CHR ''?'') (zuh_buf_append q))"
    using buft.exact_c_and [OF exact_byte [of "CHR ''?''"] buft.exact_append]
    by (auto split: option.splits intro: buft.exact_nothing)
qed

lemma build_path_query_eq:
  assumes "build_path_query u h = (Some pq, h')"
  shows "pq = path_query_text u"
proof -
  obtain ok b h1 where i: "zuh_buf_init 64 65536 h = (ok, b, h1)" by (rule prod_cases3)
  obtain ok2 b2 h2 where r: "c_and (pq_ops u) zuh_buf_cstr (b, h1) = (ok2, b2, h2)" by (rule prod_cases3)
  have ok: "ok" "ok2" "pq = buf_data b2"
    using assms i r by (auto simp: build_path_query_ops dup_str_def split: if_splits prod.splits)
  have "buf_inv b" "buf_data b = []" using zuh_buf_init_spec [OF _ _ i] by (simp_all add: SIZE_MAX_def)
  with buft.exactD(3) [OF buft.exact_c_and [OF exact_pq exact_cstr] _ r] ok show ?thesis by simp
qed

text \<open>
  What \<^verbatim>\<open>zuh_uri.h\<close> promises of a URL that was accepted: everything above this module
  relies on it.
\<close>

definition uri_normal :: "zuh_uri \<Rightarrow> bool" where
  "uri_normal u \<longleftrightarrow>
     (\<exists>s ho p. u_scheme u = Some s \<and> u_host u = Some ho \<and> u_path_query u = Some p
        \<and> s \<in> {''http'', ''https''} \<and> u_is_https u = (s = ''https'')
        \<and> lowers ho = ho \<and> ho \<noteq> [] \<and> (CHR '':'' \<notin> set ho \<longrightarrow> plain_name ho)
        \<and> u_port u \<noteq> 0 \<and> (\<not> u_port_explicit u \<longrightarrow> u_port u = (if s = ''https'' then 443 else 80))
        \<and> hd p = CHR ''/'' \<and> p \<noteq> [])"

lemma lowers_idem [simp]: "lowers (lowers s) = lowers s"
  by simp

lemma default_port_simps [simp]:
  "zuh_uri_default_port ''https'' = 443" "zuh_uri_default_port ''http'' = 80"
  by (simp_all add: zuh_uri_default_port_def casecmp_0 literal_simps)

lemma from_uriparser_ok:
  assumes "from_uriparser u h = (ZUH_OK, out, h')"
    and ip6: "up_ip6 u \<Longrightarrow> CHR '':'' \<in> set (the (up_host u))"
  shows "uri_normal out \<and> u_path_query out = Some (path_query_text u) \<and> u_userinfo out = up_userinfo u
    \<and> u_scheme out = Some (lowers (the (up_scheme u)))
    \<and> (\<exists>ho. u_host out = Some ho \<and> set ho \<subseteq> lower ` set (the (up_host u)))
    \<and> port_from_range (up_port u) = Some (if u_port_explicit out then u_port out else 0, u_port_explicit out)"
proof -
  obtain us uh where su: "up_scheme u = Some us" "up_host u = Some uh"
    using assms(1) by (auto simp: from_uriparser_def split: option.splits)
  define sc ho where "sc = lowers us" and "ho = lowers uh"
  obtain h1 where r1: "rng_dup_lower us h = (Some sc, h1)"
    using assms(1) su by (auto simp: from_uriparser_def rng_dup_lower_def sc_def split: if_splits prod.splits)
  have sc: "sc = ''http'' \<or> sc = ''https''" and nf: "\<not> up_ipfuture u"
    using assms(1) su r1 by (auto simp: from_uriparser_def Let_def zuh_uri_free_def split: if_splits)
  obtain h2 where r2: "rng_dup_lower uh h1 = (Some ho, h2)"
    using assms(1) su r1 sc nf
    by (auto simp: from_uriparser_def Let_def zuh_uri_free_def rng_dup_lower_def ho_def split: if_splits prod.splits)
  have rest: "from_uriparser u h =
    (let out = zuh_uri_init\<lparr>u_scheme := Some sc, u_is_https := (sc = ''https''), u_host := Some ho,
         u_host_block := Some (length ho + 1)\<rparr> in
     case host_ok ho (up_ip6 u \<or> CHR '':'' \<in> set ho) of
       None \<Rightarrow> (ZUH_ERR_URL, zuh_uri_init, snd (zuh_uri_free out h2))
     | Some ho' \<Rightarrow>
       (case port_from_range (up_port u) of
          None \<Rightarrow> (ZUH_ERR_URL, zuh_uri_init, snd (zuh_uri_free (out\<lparr>u_host := Some ho'\<rparr>) h2))
        | Some (port, expl) \<Rightarrow>
          let port = (if \<not> expl then zuh_uri_default_port sc else port);
              out = out\<lparr>u_host := Some ho', u_port := port, u_port_explicit := expl\<rparr> in
          if port = 0 then (ZUH_ERR_URL, zuh_uri_init, snd (zuh_uri_free out h2))
          else
           (case (case up_userinfo u of None \<Rightarrow> (None, h2) | Some ui \<Rightarrow> rng_dup ui h2) of
              (ui, h3) \<Rightarrow>
              if up_userinfo u \<noteq> None \<and> ui = None then (ZUH_ERR_NOMEM, zuh_uri_init, snd (zuh_uri_free out h3))
              else
               (case build_path_query u h3 of
                  (None, h4) \<Rightarrow> (ZUH_ERR_NOMEM, zuh_uri_init, snd (zuh_uri_free (out\<lparr>u_userinfo := ui\<rparr>) h4))
                | (Some pq, h4) \<Rightarrow> (ZUH_OK, out\<lparr>u_userinfo := ui, u_path_query := Some pq\<rparr>, h4)))))"
    using sc nf unfolding from_uriparser_def su r1 r2 Let_def option.case prod.case
    by (auto simp: r2 zuh_uri_free_def split: option.splits prod.splits)
  obtain ho' port expl ui h3 pq h4 where
      hk: "host_ok ho (up_ip6 u \<or> CHR '':'' \<in> set ho) = Some ho'"
      and pr: "port_from_range (up_port u) = Some (port, expl)"
      and ui: "(case up_userinfo u of None \<Rightarrow> (None, h2) | Some ui \<Rightarrow> rng_dup ui h2) = (ui, h3)"
        "\<not> (up_userinfo u \<noteq> None \<and> ui = None)"
      and pq: "build_path_query u h3 = (Some pq, h4)"
      and p0: "(if \<not> expl then zuh_uri_default_port sc else port) \<noteq> 0"
      and out: "out = zuh_uri_init\<lparr>u_scheme := Some sc, u_is_https := (sc = ''https''), u_host := Some ho',
         u_host_block := Some (length ho + 1), u_port := (if \<not> expl then zuh_uri_default_port sc else port),
         u_port_explicit := expl, u_userinfo := ui, u_path_query := Some pq\<rparr>"
    using assms(1) unfolding rest Let_def
    by (auto split: option.splits prod.splits if_splits)
  have v6: "up_ip6 u \<or> CHR '':'' \<in> set ho \<longleftrightarrow> CHR '':'' \<in> set ho"
    using ip6 su(2) by (force simp: ho_def)
  have host: "ho' \<noteq> [] \<and> (CHR '':'' \<notin> set ho' \<longrightarrow> plain_name ho') \<and> (ho' = ho \<or> ho = ho' @ ''.'')"
    using hk host_ok_plain [of ho ho'] unfolding v6
    by (cases "CHR '':'' \<in> set ho") (auto simp: host_ok_ipv6 plain_name_def split: if_splits)
  have low: "lowers ho' = ho'"
  proof -
    have "lowers ho = ho" by (simp add: ho_def)
    with host show ?thesis by auto
  qed
  have "set ho' \<subseteq> set ho" using host by auto
  then have "set ho' \<subseteq> lower ` set uh" by (simp add: ho_def)
  moreover have "expl \<or> port = 0" using pr by (auto simp: port_from_range_eq split: if_splits)
  moreover have "ui = up_userinfo u"
    using ui by (auto simp: rng_dup_def split: option.splits prod.splits if_splits)
  moreover have pqe: "pq = path_query_text u" by (rule build_path_query_eq [OF pq])
  moreover have "hd pq = CHR ''/''" "pq \<noteq> []" using path_query_text_slash [of u] pqe by auto
  ultimately show ?thesis
    using out host low p0 sc su pr by (auto simp: uri_normal_def sc_def)
qed

lemma from_uriparser_fail: "from_uriparser u h = (c, out, h') \<Longrightarrow> c \<noteq> ZUH_OK \<Longrightarrow> out = zuh_uri_init"
  unfolding from_uriparser_def Let_def zuh_uri_free_def
  by (auto split: option.splits prod.splits if_splits)

lemma c_string_schemes [simp]: "c_string ''http'' = ''http''" "c_string ''https'' = ''https''"
  by (simp_all add: literal_simps)

lemma lowers_c_string: "lowers n = n \<Longrightarrow> lowers (c_string n) = c_string n"
  unfolding c_string_def by (metis take_map takeWhile_eq_take)

lemma uri_normalE:
  assumes "uri_normal u"
  obtains s ho where "u_scheme u = Some s" "u_host u = Some ho" "lowers (c_string s) = s"
    "lowers (c_string ho) = c_string ho" "u_port u \<noteq> 0"
proof -
  from assms obtain s ho where u: "u_scheme u = Some s" "u_host u = Some ho" "s \<in> {''http'', ''https''}"
      "lowers ho = ho" "u_port u \<noteq> 0"
    unfolding uri_normal_def by blast
  then have "lowers (c_string s) = s" by auto
  then show thesis by (rule that [OF u(1,2) _ lowers_c_string [OF u(4)] u(5)])
qed

lemma same_origin_normal:
  assumes "uri_normal a" "uri_normal b"
  shows "zuh_uri_same_origin a b \<longleftrightarrow>
    u_scheme a = u_scheme b \<and> c_string (the (u_host a)) = c_string (the (u_host b)) \<and> u_port a = u_port b"
  by (rule uri_normalE [OF assms(1)], rule uri_normalE [OF assms(2)])
    (simp add: zuh_uri_same_origin_def casecmp_0)

section \<open>With enough memory\<close>

lemma dup_str_plenty:
  assumes "plenty h" "length t < 2 ^ 62"
  shows "\<exists>h'. dup_str (Some t) h = (Some t, h') \<and> plenty h'"
  using zuh_alloc_plenty [of h "length t + 1"] assms
  by (simp add: dup_str_def ZUH_HDR_def SIZE_MAX_def)

text \<open>The target has to fit a buffer of 64 KiB with its NUL; a longer one is reported as no memory.\<close>

lemma build_path_query_plenty:
  assumes "plenty h"
  shows "fst (build_path_query u h) =
    (if length (path_query_text u) < 65536 then Some (path_query_text u) else None)"
proof -
  obtain b h1 where i: "zuh_buf_init 64 65536 h = (True, b, h1)" "buf_room (b, h1) 65535"
    "buf_data b = []" "buf_max b = 65536"
    using zuh_buf_init_room [OF assms, of 64 65536 65535] by (auto simp: SIZE_MAX_def)
  have inv: "buf_ok (b, h1)" using i(2) by (simp add: buf_room_def)
  obtain ok2 b2 h2 where r: "c_and (pq_ops u) zuh_buf_cstr (b, h1) = (ok2, b2, h2)" by (rule prod_cases3)
  show ?thesis
  proof (cases "length (path_query_text u) < 65536")
    case True
    have "buf_room (b, h1) (length (path_query_text u @ []) + (65535 - length (path_query_text u)))"
      using i(2) True by simp
    then obtain s' where s': "c_and (pq_ops u) zuh_buf_cstr (b, h1) = (True, s')" "plenty (snd s')"
      using buft.exact_c_and [OF exact_pq exact_cstr] unfolding buft.exact_def buft.fills_def buf_room_def by blast
    then have ok: "ok2" "plenty h2" using r by auto
    from buft.exactD(3) [OF buft.exact_c_and [OF exact_pq exact_cstr] inv r ok(1)] i(3) have "buf_data b2 = path_query_text u" by simp
    with dup_str_plenty [OF ok(2), of "path_query_text u"] True i(1) r ok(1) show ?thesis
      by (auto simp: build_path_query_ops)
  next
    case False
    have "\<not> ok2"
    proof
      assume ok2
      then obtain s1 where p: "pq_ops u (b, h1) = (True, s1)" and c: "zuh_buf_cstr s1 = (True, b2, h2)"
        using r by (auto simp: c_and_def split: prod.splits if_splits)
      note P = buft.exactD [OF exact_pq inv p]
      have "buf_len (fst s1) < buf_cap b2" "buf_inv b2" "buf_max b2 = buf_max (fst s1)"
        using zuh_buf_cstr_spec [of "fst s1" "snd s1" True b2 h2] P(1) c by (simp_all add: buf_rel_def)
      moreover have "buf_max (fst s1) = 65536" "buf_data (fst s1) = path_query_text u"
        using P(2,3) i(3,4) by (simp_all add: buf_rel_def)
      ultimately show False using False by (simp add: buf_inv_def)
    qed
    with False i(1) r show ?thesis by (simp add: build_path_query_ops)
  qed
qed

text \<open>The policy, as a predicate on what the parser found.\<close>

definition up_usable :: "up_uri \<Rightarrow> bool" where
  "up_usable u \<longleftrightarrow>
     (case (up_scheme u, up_host u) of
        (Some us, Some uh) \<Rightarrow>
          lowers us \<in> {''http'', ''https''} \<and> \<not> up_ipfuture u
          \<and> host_ok (lowers uh) (up_ip6 u \<or> CHR '':'' \<in> set (lowers uh)) \<noteq> None
          \<and> (up_port u = [] \<or> (list_all is_digit (up_port u) \<and> 0 < dec_value 0 (up_port u)
               \<and> dec_value 0 (up_port u) \<le> 65535))
      | _ \<Rightarrow> False)"

definition up_small :: "up_uri \<Rightarrow> bool" where
  "up_small u \<longleftrightarrow> length (the (up_scheme u)) < 2 ^ 62 \<and> length (the (up_host u)) < 2 ^ 62
     \<and> (\<forall>ui. up_userinfo u = Some ui \<longrightarrow> length ui < 2 ^ 62)"

lemma rng_dup_plenty:
  assumes "plenty h" "length t < 2 ^ 62"
  shows "\<exists>h'. rng_dup t h = (Some t, h') \<and> plenty h'" "\<exists>h'. rng_dup_lower t h = (Some (lowers t), h') \<and> plenty h'"
  using zuh_alloc_plenty [of h "length t + 1"] assms
  by (simp_all add: rng_dup_def rng_dup_lower_def ZUH_HDR_def SIZE_MAX_def)

lemma from_uriparser_plenty:
  assumes h: "plenty h" and small: "up_small u"
  shows "fst (from_uriparser u h) =
    (if \<not> up_usable u then ZUH_ERR_URL
     else if length (path_query_text u) < 65536 then ZUH_OK else ZUH_ERR_NOMEM)"
proof (cases "up_scheme u = None \<or> up_host u = None")
  case True
  then show ?thesis by (auto simp: from_uriparser_def up_usable_def split: option.splits)
next
  case False
  then obtain us uh where su: "up_scheme u = Some us" "up_host u = Some uh" by auto
  have len: "length us < 2 ^ 62" "length uh < 2 ^ 62" "\<And>ui. up_userinfo u = Some ui \<Longrightarrow> length ui < 2 ^ 62"
    using small su by (simp_all add: up_small_def)
  obtain h1 where r1: "rng_dup_lower us h = (Some (lowers us), h1)" "plenty h1"
    using rng_dup_plenty(2) [OF h len(1)] by blast
  obtain h2 where r2: "rng_dup_lower uh h1 = (Some (lowers uh), h2)" "plenty h2"
    using rng_dup_plenty(2) [OF r1(2) len(2)] by blast
  obtain h3 where r3: "(case up_userinfo u of None \<Rightarrow> (None, h2) | Some ui \<Rightarrow> rng_dup ui h2) = (up_userinfo u, h3)"
    "plenty h3"
    using rng_dup_plenty(1) [OF r2(2) len(3)] r2(2) by (cases "up_userinfo u") auto
  obtain pq h4 where r4: "build_path_query u h3 = (pq, h4)" by fastforce
  have pq: "pq = (if length (path_query_text u) < 65536 then Some (path_query_text u) else None)"
    using build_path_query_plenty [OF r3(2), of u] r4 by simp
  define port where "port = port_from_range (up_port u)"
  have portv: "(\<exists>p e. port = Some (p, e) \<and> (if \<not> e then zuh_uri_default_port (lowers us) else p) \<noteq> 0) \<longleftrightarrow>
      (up_port u = [] \<or> (list_all is_digit (up_port u) \<and> 0 < dec_value 0 (up_port u)
               \<and> dec_value 0 (up_port u) \<le> 65535))"
    if "lowers us \<in> {''http'', ''https''}"
  proof -
    have "(of_nat n :: 16 word) = 0 \<longleftrightarrow> n = 0" if "n \<le> 65535" for n
      using that by (auto simp: word_of_nat_eq_0_iff dest: dvd_imp_le)
    moreover have "zuh_uri_default_port (lowers us) \<noteq> 0" using that by fastforce
    ultimately show ?thesis unfolding port_def port_from_range_eq
      by (cases "up_port u = []") auto
  qed
  show ?thesis
  proof (cases "lowers us \<in> {''http'', ''https''} \<and> \<not> up_ipfuture u")
    case False
    then show ?thesis
      using su r1 by (auto simp: from_uriparser_def up_usable_def Let_def zuh_uri_free_def)
  next
    case True
    show ?thesis
    proof (cases "host_ok (lowers uh) (up_ip6 u \<or> CHR '':'' \<in> set (lowers uh))")
      case None
      then show ?thesis
        using su r1 r2 True by (auto simp: from_uriparser_def up_usable_def Let_def zuh_uri_free_def)
    next
      case (Some ho')
      note hok = this
      show ?thesis
      proof (cases "\<exists>p e. port = Some (p, e) \<and> (if \<not> e then zuh_uri_default_port (lowers us) else p) \<noteq> 0")
        case False
        then show ?thesis
          using su r1 r2 True hok portv unfolding port_def
          by (auto simp: from_uriparser_def up_usable_def Let_def zuh_uri_free_def split: option.splits prod.splits)
      next
        case pok: True
        then obtain p e where pe: "port_from_range (up_port u) = Some (p, e)"
            "(if \<not> e then zuh_uri_default_port (lowers us) else p) \<noteq> 0" unfolding port_def by blast
        have "up_usable u" using su True hok portv pok by (simp add: up_usable_def)
        then show ?thesis
          using su r1 r2 r3 r4 True hok pe pq
          by (auto simp: from_uriparser_def Let_def zuh_uri_free_def split: option.splits)
      qed
    qed
  qed
qed

section \<open>Properties\<close>

text \<open>
  What is documented of the parser: its ranges point into the text it was given, and an
  IPv6 literal contains a colon.
\<close>

definition ranges_in :: "uri_parser \<Rightarrow> bool" where
  "ranges_in up_parse \<longleftrightarrow> (\<forall>s h u h'. up_parse s h = (UriSuccess u, h') \<longrightarrow>
     (\<forall>r \<in> set_option (up_scheme u) \<union> set_option (up_userinfo u) \<union> set_option (up_host u)
            \<union> {up_port u} \<union> set (up_path u) \<union> set_option (up_query u). set r \<subseteq> set s)
     \<and> (up_ip6 u \<longrightarrow> CHR '':'' \<in> set (the (up_host u))))"

text \<open>
  A URL that \<^verbatim>\<open>zuh_uri_parse\<close> accepts is in normal form (an http or https scheme, a lower
  case host without empty labels, a non-zero port, an origin-form target) and no part of it
  carries a NUL; one it refuses leaves nothing behind.
\<close>
lemma uri_parse_normalises:
  assumes "ranges_in up_parse" and "zuh_uri_parse up_parse up_free s h = (c, out, h')"
  shows "(c = ZUH_OK \<longrightarrow> uri_normal out \<and> NUL \<notin> set (the (u_host out))
            \<and> NUL \<notin> set (the (u_path_query out)) \<and> (u_userinfo out = Some ui \<longrightarrow> NUL \<notin> set ui))
    \<and> (c \<noteq> ZUH_OK \<longrightarrow> out = zuh_uri_init \<and> c \<in> {ZUH_ERR_URL, ZUH_ERR_NOMEM})"
proof (cases "range_has_nul s")
  case True
  with assms(2) show ?thesis by (simp add: zuh_uri_parse_def)
next
  case False
  then have nul: "NUL \<notin> set s" by (simp add: range_has_nul_def)
  show ?thesis
  proof (cases "\<exists>u h1. up_parse s h = (UriSuccess u, h1)")
    case True
    then obtain u h1 where u: "up_parse s h = (UriSuccess u, h1)" by blast
    obtain h2 where f: "from_uriparser u h1 = (c, out, h2)"
      using assms(2) u False by (auto simp: zuh_uri_parse_def split: prod.splits)
    have parts: "\<forall>r \<in> set_option (up_scheme u) \<union> set_option (up_userinfo u) \<union> set_option (up_host u)
            \<union> {up_port u} \<union> set (up_path u) \<union> set_option (up_query u). set r \<subseteq> set s"
      and ip6: "up_ip6 u \<Longrightarrow> CHR '':'' \<in> set (the (up_host u))"
      using assms(1) u unfolding ranges_in_def by blast+
    have code: "c \<in> {ZUH_OK, ZUH_ERR_URL, ZUH_ERR_NOMEM}"
      using f by (auto simp: from_uriparser_def Let_def split: option.splits prod.splits if_splits)
    have low: "NUL \<notin> lower ` A" if "NUL \<notin> A" for A
    proof
      assume "NUL \<in> lower ` A"
      then obtain c where "c \<in> A" "lower c = NUL" by auto
      then have "cval c = 0" using cval_lower [of c] by (auto split: if_splits)
      then have "c = NUL" by (simp add: cval_eq_iff [symmetric])
      with \<open>c \<in> A\<close> that show False by blast
    qed
    show ?thesis
    proof (cases "c = ZUH_OK")
      case True
      note F = from_uriparser_ok [OF f [unfolded True] ip6]
      have "NUL \<notin> set (path_query_text u)"
        using parts nul by (auto simp: path_query_text_def NUL_def split: option.splits)
      moreover have "NUL \<notin> set (the (u_host out))"
      proof -
        obtain ho where ho: "u_host out = Some ho" "set ho \<subseteq> lower ` set (the (up_host u))"
          using F by blast
        obtain uh where "up_host u = Some uh"
          using f True by (auto simp: from_uriparser_def split: option.splits)
        then have "NUL \<notin> lower ` set (the (up_host u))" using parts nul by (intro low) auto
        with ho show ?thesis by auto
      qed
      ultimately show ?thesis using F True parts nul by auto
    next
      case False
      with from_uriparser_fail [OF f] code show ?thesis by simp
    qed
  next
    case False
    with assms(2) \<open>\<not> range_has_nul s\<close> show ?thesis
      by (auto simp: zuh_uri_parse_def split: up_result.splits prod.splits)
  qed
qed

definition example_parser :: uri_parser where
  "example_parser s h =
     (if s = ''HTTP://u@Ex.COM.:8080/a?b''
      then (UriSuccess \<lparr>up_scheme = Some ''HTTP'', up_userinfo = Some ''u'', up_host = Some ''Ex.COM.'',
              up_ip6 = False, up_ipfuture = False, up_port = ''8080'', up_path = [''a''],
              up_query = Some ''b''\<rparr>, h)
      else (UriErrorOther, h))"

lemma example_parser_ranges: "ranges_in example_parser"
  by (auto simp: ranges_in_def example_parser_def split: if_splits)

lemma uri_parse_normalises_witness:
  "\<exists>out h'. zuh_uri_parse example_parser (\<lambda>u h. h) ''HTTP://u@Ex.COM.:8080/a?b'' fresh_heap = (ZUH_OK, out, h')
     \<and> uri_normal out"
proof -
  let ?s = "''HTTP://u@Ex.COM.:8080/a?b''"
  define u where "u = \<lparr>up_scheme = Some ''HTTP'', up_userinfo = Some ''u'', up_host = Some ''Ex.COM.'',
              up_ip6 = False, up_ipfuture = False, up_port = ''8080'', up_path = [''a''],
              up_query = Some ''b''\<rparr>"
  have p: "example_parser ?s fresh_heap = (UriSuccess u, fresh_heap)"
    by (simp add: example_parser_def u_def)
  have host: "host_ok ''ex.com.'' False = Some ''ex.com''"
    by (simp add: host_ok_def Let_def upt_rec)
  then have "up_usable u" "up_small u" "length (path_query_text u) < 65536"
    by (simp_all add: up_usable_def up_small_def u_def path_query_text_def is_digit_def)
  with from_uriparser_plenty [of fresh_heap u] obtain out h' where
    f: "from_uriparser u fresh_heap = (ZUH_OK, out, h')"
    by (metis plenty_fresh prod.collapse)
  have run: "zuh_uri_parse example_parser (\<lambda>u h. h) ?s fresh_heap = (ZUH_OK, out, h')"
    using p f by (simp add: zuh_uri_parse_def range_has_nul_def NUL_def)
  with uri_parse_normalises [OF example_parser_ranges run] show ?thesis by blast
qed

text \<open>
  An explicit port is read in full or refused: \<^verbatim>\<open>port_from_range\<close> yields exactly the
  values from 0 to 65535, so none is truncated into another port, and only the empty text is
  no port.
\<close>
lemma port_from_range_exact:
  "port_from_range r = Some (p, expl) \<longleftrightarrow>
     (r = [] \<and> p = 0 \<and> \<not> expl) \<or> (r \<noteq> [] \<and> list_all is_digit r \<and> dec_value 0 r = unat p \<and> expl)"
proof -
  have "unat p \<le> 65535" using unsigned_less [of p, where ?'a = nat] by simp
  moreover have "of_nat (dec_value 0 r) = p \<longleftrightarrow> dec_value 0 r = unat p" if "dec_value 0 r \<le> 65535"
    using that by (auto simp: unat_of_nat take_bit_nat_def)
  ultimately show ?thesis by (auto simp: port_from_range_eq)
qed

text \<open>
  On parsed URLs \<^verbatim>\<open>zuh_uri_same_origin\<close>, which decides where credentials may go, is
  equality of scheme, host and effective port: an equivalence that no spelling of a URL
  escapes.
\<close>
lemma same_origin_is_equality:
  assumes "uri_normal a" and "uri_normal b" and "NUL \<notin> set (the (u_host a))" and "NUL \<notin> set (the (u_host b))"
  shows "zuh_uri_same_origin a b \<longleftrightarrow>
    (u_scheme a, u_host a, u_port a) = (u_scheme b, u_host b, u_port b)"
proof -
  have "the (u_host a) = the (u_host b) \<longleftrightarrow> u_host a = u_host b"
    using assms(1,2) by (auto elim!: uri_normalE)
  then show ?thesis
    using same_origin_normal [OF assms(1,2)] assms(3,4) by (simp add: c_string_id)
qed

definition example_uri :: "bytes \<Rightarrow> 16 word \<Rightarrow> bytes \<Rightarrow> zuh_uri" where
  "example_uri host port path =
     \<lparr>u_scheme = Some ''http'', u_host = Some host, u_host_block = Some (length host + 1),
      u_path_query = Some path, u_userinfo = None, u_port = port, u_is_https = False, u_port_explicit = True\<rparr>"

lemma same_origin_is_equality_witness:
  "\<not> zuh_uri_same_origin (example_uri ''a.b'' 80 ''/'') (example_uri ''a.b'' 8080 ''/'')"
proof -
  have "plain_name ''a.b''"
    by (auto simp: plain_name_def nth_Cons less_Suc_eq numeral_eq_Suc split: nat.splits)
  then have "uri_normal (example_uri ''a.b'' p ''/'')" if "p \<noteq> 0" for p
    using that by (simp add: uri_normal_def example_uri_def)
  then show ?thesis
    using same_origin_is_equality [of "example_uri ''a.b'' 80 ''/''" "example_uri ''a.b'' 8080 ''/''"]
    by (simp add: example_uri_def NUL_def)
qed

text \<open>
  With memory to spare, the verdict on a URL is a matter of the policy alone, except that
  a target of 64 KiB or more, a fault of the URL, is reported as running out of memory.
\<close>
lemma uri_verdict:
  assumes "plenty h" and "up_small u"
  shows "fst (from_uriparser u h) =
    (if \<not> up_usable u then ZUH_ERR_URL
     else if length (path_query_text u) < 65536 then ZUH_OK else ZUH_ERR_NOMEM)"
  by (rule from_uriparser_plenty [OF assms])

definition long_target :: up_uri where
  "long_target = \<lparr>up_scheme = Some ''http'', up_userinfo = None, up_host = Some ''a'',
              up_ip6 = False, up_ipfuture = False, up_port = [], up_path = [replicate 65536 (CHR ''x'')],
              up_query = None\<rparr>"

lemma uri_verdict_witness: "fst (from_uriparser long_target fresh_heap) = ZUH_ERR_NOMEM"
proof -
  have "up_usable long_target" "up_small long_target"
    by (simp_all add: up_usable_def up_small_def long_target_def host_ok_def Let_def)
  moreover have "length (path_query_text long_target) = 65537"
    by (simp add: path_query_text_def long_target_def)
  ultimately show ?thesis
    using uri_verdict [of fresh_heap long_target] by simp
qed

end
