(* ===== verification/Zuh_Redact.thy ===== *)
theory Zuh_Redact
  imports Zuh_Headers
begin

text \<open>
  \<^verbatim>\<open>src/zuh_redact.c\<close>: the one policy that hides secrets at every egress. A policy pointer
  that may be NULL is an option, and so is each of its NULL-terminated lists. The URL and the
  query are scanned over their bytes; the part still to be read is the list argument.
\<close>

section \<open>The policy\<close>

record zuh_redact_policy =
  extra_headers :: "bytes list option"
  extra_params :: "bytes list option"

definition ZUH_REDACTED :: bytes where
  "ZUH_REDACTED = ''<redacted>''"

definition k_headers :: "bytes list" where
  "k_headers = [''authorization'', ''proxy-authorization'', ''cookie'', ''set-cookie'',
     ''x-api-key'', ''x-auth-token'']"

definition k_params :: "bytes list" where
  "k_params = [''access_token'', ''api_key'', ''apikey'', ''signature'', ''sig'', ''client_secret'',
     ''password'', ''passwd'', ''pwd'', ''secret'', ''token'', ''refresh_token'', ''id_token'',
     ''private_key'', ''auth_token'', ''session_token'']"

definition zuh_redact_policy_init :: zuh_redact_policy where
  "zuh_redact_policy_init = \<lparr>extra_headers = None, extra_params = None\<rparr>"

definition in_list :: "bytes list option \<Rightarrow> bytes \<Rightarrow> bool" where
  "in_list l name =
     (case l of None \<Rightarrow> False
      | Some xs \<Rightarrow> list_ex (\<lambda>x. zuh_ascii_ncasecmp name (c_string x) = 0) xs)"

definition zuh_redact_is_secret_header :: "zuh_redact_policy option \<Rightarrow> bytes \<Rightarrow> bool" where
  "zuh_redact_is_secret_header p name =
     (if length name = 0 then False
      else if in_list (Some k_headers) name then True
      else (case p of None \<Rightarrow> False | Some p \<Rightarrow> in_list (extra_headers p) name))"

definition hexval :: "char \<Rightarrow> int" where
  "hexval c =
     (if cval (CHR ''0'') \<le> cval c \<and> cval c \<le> cval (CHR ''9'') then int (cval c) - int (cval (CHR ''0''))
      else if cval (CHR ''a'') \<le> cval c \<and> cval c \<le> cval (CHR ''f'') then int (cval c) - int (cval (CHR ''a'')) + 10
      else if cval (CHR ''A'') \<le> cval c \<and> cval c \<le> cval (CHR ''F'') then int (cval c) - int (cval (CHR ''A'')) + 10
      else -1)"

definition param_listed :: "zuh_redact_policy option \<Rightarrow> bytes \<Rightarrow> bool" where
  "param_listed p name =
     (if in_list (Some k_params) name then True
      else (case p of None \<Rightarrow> False | Some p \<Rightarrow> in_list (extra_params p) name))"

text \<open>
  The decoding loop into \<^verbatim>\<open>char dec[128]\<close>: \<open>dec\<close> is what was written, \<open>None\<close> that a byte did
  not fit.
\<close>

fun decode_loop :: "bytes \<Rightarrow> bytes \<Rightarrow> bytes option" where
  "decode_loop dec [] = Some dec"
| "decode_loop dec (c # cs) =
     (if length dec = 128 then None
      else (case cs of
          a # b # rest \<Rightarrow>
            if c = CHR ''%'' \<and> hexval a \<ge> 0 \<and> hexval b \<ge> 0
            then decode_loop (dec @ [char_of (nat (hexval a * 16 + hexval b))]) rest
            else decode_loop (dec @ [c]) cs
        | _ \<Rightarrow> decode_loop (dec @ [c]) cs))"

definition zuh_redact_is_secret_param :: "zuh_redact_policy option \<Rightarrow> bytes \<Rightarrow> bool" where
  "zuh_redact_is_secret_param p name =
     (if length name = 0 then False
      else if param_listed p name then True
      else if CHR ''%'' \<notin> set name then False
      else (case decode_loop [] name of None \<Rightarrow> False | Some dec \<Rightarrow> param_listed p dec))"

section \<open>Queries\<close>

definition is_sep :: "char \<Rightarrow> bool" where
  "is_sep c \<longleftrightarrow> c = CHR ''&'' \<or> c = CHR '';''"

text \<open>One pair of the query: from \<^verbatim>\<open>start\<close> to \<^verbatim>\<open>end\<close>, split at its first \<^verbatim>\<open>=\<close>.\<close>

definition redact_pair :: "zuh_redact_policy option \<Rightarrow> bytes \<Rightarrow> zuh_buffer \<times> heap \<Rightarrow> bool \<times> zuh_buffer \<times> heap" where
  "redact_pair p seg =
     (let name = takeWhile (\<lambda>c. c \<noteq> CHR ''='') seg in
      if CHR ''='' \<in> set seg \<and> zuh_redact_is_secret_param p name
      then c_and (zuh_buf_append (name @ ''='')) (zuh_buf_append_str ZUH_REDACTED)
      else if seg \<noteq> [] then zuh_buf_append seg
      else (\<lambda>s. (True, s)))"

function redact_query :: "zuh_redact_policy option \<Rightarrow> bytes \<Rightarrow> zuh_buffer \<times> heap \<Rightarrow> bool \<times> zuh_buffer \<times> heap" where
  "redact_query p [] = (\<lambda>s. (True, s))"
| "redact_query p (c # cs) =
     c_and (redact_pair p (takeWhile (\<lambda>c. \<not> is_sep c) (c # cs)))
       (case dropWhile (\<lambda>c. \<not> is_sep c) (c # cs) of
          [] \<Rightarrow> (\<lambda>s. (True, s))
        | sep # rest \<Rightarrow> c_and (zuh_buf_append_byte sep) (redact_query p rest))"
  by pat_completeness auto
termination
proof (relation "measure (\<lambda>(p, q). length q)")
  fix p :: "zuh_redact_policy option" and c :: char and cs sep rest
  assume "dropWhile (\<lambda>c. \<not> is_sep c) (c # cs) = sep # rest"
  then have "length (sep # rest) \<le> length (c # cs)" by (metis length_dropWhile_le)
  then show "((p, rest), p, c # cs) \<in> measure (\<lambda>(p, q). length q)" by simp
qed simp

section \<open>URLs\<close>

definition is_alpha :: "char \<Rightarrow> bool" where
  "is_alpha c \<longleftrightarrow> (cval (CHR ''a'') \<le> cval c \<and> cval c \<le> cval (CHR ''z''))
     \<or> (cval (CHR ''A'') \<le> cval c \<and> cval c \<le> cval (CHR ''Z''))"

definition is_scheme_char :: "char \<Rightarrow> bool" where
  "is_scheme_char c \<longleftrightarrow> is_alpha c \<or> is_digit c \<or> c = CHR ''+'' \<or> c = CHR ''-'' \<or> c = CHR ''.''"

text \<open>The scan for the scheme's end, at index \<open>i\<close>: the index after \<^verbatim>\<open>://\<close>, or \<open>None\<close>.\<close>

fun scheme_loop :: "nat \<Rightarrow> bytes \<Rightarrow> nat option" where
  "scheme_loop i (c # d # e # rest) =
     (if c = CHR '':'' \<and> d = CHR ''/'' \<and> e = CHR ''/'' then Some (i + 3)
      else if \<not> is_scheme_char c then None
      else scheme_loop (i + 1) (d # e # rest))"
| "scheme_loop i _ = None"

definition scheme_end :: "bytes \<Rightarrow> nat option" where
  "scheme_end url =
     (case url of [] \<Rightarrow> None | c # cs \<Rightarrow> if is_alpha c then scheme_loop 1 cs else None)"

definition in_authority :: "char \<Rightarrow> bool" where
  "in_authority c \<longleftrightarrow> c \<noteq> CHR ''/'' \<and> c \<noteq> CHR ''?'' \<and> c \<noteq> CHR ''#''"

text \<open>The authority after its last \<^verbatim>\<open>@\<close>.\<close>

definition after_at :: "bytes \<Rightarrow> bytes" where
  "after_at auth =
     (if CHR ''@'' \<in> set auth then rev (takeWhile (\<lambda>c. c \<noteq> CHR ''@'') (rev auth)) else auth)"

text \<open>Path, query and fragment.\<close>

definition redact_rest :: "zuh_redact_policy option \<Rightarrow> bytes \<Rightarrow> zuh_buffer \<times> heap \<Rightarrow> bool \<times> zuh_buffer \<times> heap" where
  "redact_rest p rest =
     (if CHR ''?'' \<notin> set rest then zuh_buf_append rest
      else
        let path = takeWhile (\<lambda>c. c \<noteq> CHR ''?'') rest;
            qs = drop (length path + 1) rest;
            only_q = takeWhile (\<lambda>c. c \<noteq> CHR ''#'') qs;
            frag = dropWhile (\<lambda>c. c \<noteq> CHR ''#'') qs
        in c_all [zuh_buf_append (path @ ''?''), redact_query p only_q,
             if frag \<noteq> [] then zuh_buf_append frag else (\<lambda>s. (True, s))])"

definition zuh_redact_url :: "zuh_redact_policy option \<Rightarrow> bytes \<Rightarrow> zuh_buffer \<times> heap \<Rightarrow> bool \<times> zuh_buffer \<times> heap" where
  "zuh_redact_url p url =
     (case scheme_end url of
        None \<Rightarrow> redact_rest p url
      | Some k \<Rightarrow>
          let auth = takeWhile in_authority (drop k url) in
          c_all [zuh_buf_append (take k url), zuh_buf_append (after_at auth),
            redact_rest p (drop (k + length auth) url)])"

definition zuh_redact_form_body :: "zuh_redact_policy option \<Rightarrow> bytes \<Rightarrow> zuh_buffer \<times> heap \<Rightarrow> bool \<times> zuh_buffer \<times> heap" where
  "zuh_redact_form_body p body = redact_query p body"

section \<open>What is written\<close>

text \<open>The same functions on texts: the specification of what each writes into the buffer.\<close>

definition pair_text :: "zuh_redact_policy option \<Rightarrow> bytes \<Rightarrow> bytes" where
  "pair_text p seg =
     (let name = takeWhile (\<lambda>c. c \<noteq> CHR ''='') seg in
      if CHR ''='' \<in> set seg \<and> zuh_redact_is_secret_param p name then name @ ''='' @ ZUH_REDACTED else seg)"

function query_text :: "zuh_redact_policy option \<Rightarrow> bytes \<Rightarrow> bytes" where
  "query_text p [] = []"
| "query_text p (c # cs) =
     pair_text p (takeWhile (\<lambda>c. \<not> is_sep c) (c # cs)) @
       (case dropWhile (\<lambda>c. \<not> is_sep c) (c # cs) of
          [] \<Rightarrow> []
        | sep # rest \<Rightarrow> sep # query_text p rest)"
  by pat_completeness auto
termination
proof (relation "measure (\<lambda>(p, q). length q)")
  fix p :: "zuh_redact_policy option" and c :: char and cs sep rest
  assume "dropWhile (\<lambda>c. \<not> is_sep c) (c # cs) = sep # rest"
  then have "length (sep # rest) \<le> length (c # cs)" by (metis length_dropWhile_le)
  then show "((p, rest), p, c # cs) \<in> measure (\<lambda>(p, q). length q)" by simp
qed simp

definition rest_text :: "zuh_redact_policy option \<Rightarrow> bytes \<Rightarrow> bytes" where
  "rest_text p rest =
     (if CHR ''?'' \<notin> set rest then rest
      else
        let path = takeWhile (\<lambda>c. c \<noteq> CHR ''?'') rest;
            qs = drop (length path + 1) rest
        in path @ ''?'' @ query_text p (takeWhile (\<lambda>c. c \<noteq> CHR ''#'') qs)
             @ dropWhile (\<lambda>c. c \<noteq> CHR ''#'') qs)"

definition url_text :: "zuh_redact_policy option \<Rightarrow> bytes \<Rightarrow> bytes" where
  "url_text p url =
     (case scheme_end url of
        None \<Rightarrow> rest_text p url
      | Some k \<Rightarrow>
          let auth = takeWhile in_authority (drop k url) in
          take k url @ after_at auth @ rest_text p (drop (k + length auth) url))"

lemma c_string_redacted [simp]: "c_string ZUH_REDACTED = ZUH_REDACTED"
  by (simp add: ZUH_REDACTED_def literal_simps)

lemma exact_pair: "buft.exact (pair_text p seg) (redact_pair p seg)"
proof (cases "CHR ''='' \<in> set seg \<and> zuh_redact_is_secret_param p (takeWhile (\<lambda>c. c \<noteq> CHR ''='') seg)")
  case True
  then show ?thesis
    using buft.exact_c_and [OF buft.exact_append exact_str [of ZUH_REDACTED],
        of "takeWhile (\<lambda>c. c \<noteq> CHR ''='') seg @ ''=''"]
    by (simp add: pair_text_def redact_pair_def Let_def)
next
  case False
  then show ?thesis
    by (auto simp: pair_text_def redact_pair_def Let_def intro: buft.exact_append buft.exact_nothing)
qed

lemma exact_query: "buft.exact (query_text p q) (redact_query p q)"
proof (induction p q rule: redact_query.induct)
  case (1 p)
  then show ?case by (simp add: buft.exact_nothing)
next
  case (2 p c cs)
  have "buft.exact (case dropWhile (\<lambda>c. \<not> is_sep c) (c # cs) of [] \<Rightarrow> [] | sep # rest \<Rightarrow> sep # query_text p rest)
       (case dropWhile (\<lambda>c. \<not> is_sep c) (c # cs) of [] \<Rightarrow> (\<lambda>s. (True, s))
        | sep # rest \<Rightarrow> c_and (zuh_buf_append_byte sep) (redact_query p rest))"
  proof (cases "dropWhile (\<lambda>c. \<not> is_sep c) (c # cs)")
    case Nil
    then show ?thesis by (simp add: buft.exact_nothing)
  next
    case (Cons sep rest)
    from buft.exact_c_and [OF exact_byte [of sep] 2 [OF Cons]] Cons show ?thesis by simp
  qed
  from buft.exact_c_and [OF exact_pair this] show ?case
    by (simp del: takeWhile.simps dropWhile.simps)
qed

lemma exact_rest: "buft.exact (rest_text p rest) (redact_rest p rest)"
proof (cases "CHR ''?'' \<in> set rest")
  case False
  then show ?thesis by (simp add: rest_text_def redact_rest_def buft.exact_append)
next
  case True
  define path qs where "path = takeWhile (\<lambda>c. c \<noteq> CHR ''?'') rest" and "qs = drop (length path + 1) rest"
  let ?frag = "dropWhile (\<lambda>c. c \<noteq> CHR ''#'') qs"
  have "buft.exact t (if t \<noteq> [] then zuh_buf_append t else (\<lambda>s. (True, s)))" for t
    using buft.exact_append [of t] buft.exact_nothing by (cases "t = []") simp_all
  note op = this [of ?frag]
  have "buft.exact (concat [path @ ''?'', query_text p (takeWhile (\<lambda>c. c \<noteq> CHR ''#'') qs), ?frag])
    (c_all [zuh_buf_append (path @ ''?''), redact_query p (takeWhile (\<lambda>c. c \<noteq> CHR ''#'') qs),
       if ?frag \<noteq> [] then zuh_buf_append ?frag else (\<lambda>s. (True, s))])"
    by (intro buft.exact_c_all) (simp add: buft.exact_append exact_query op del: dropWhile_eq_Nil_conv)
  moreover have "redact_rest p rest = c_all [zuh_buf_append (path @ ''?''), redact_query p (takeWhile (\<lambda>c. c \<noteq> CHR ''#'') qs),
       if ?frag \<noteq> [] then zuh_buf_append ?frag else (\<lambda>s. (True, s))]"
    using True by (simp only: redact_rest_def path_def qs_def Let_def not_not if_False simp_thms)
  moreover have "rest_text p rest = path @ ''?'' @ query_text p (takeWhile (\<lambda>c. c \<noteq> CHR ''#'') qs) @ ?frag"
    using True by (simp only: rest_text_def path_def qs_def Let_def not_not if_False simp_thms)
  ultimately show ?thesis by (simp only: concat.simps append_assoc append_Nil2)
qed

lemma exact_url: "buft.exact (url_text p url) (zuh_redact_url p url)"
proof (cases "scheme_end url")
  case None
  then show ?thesis by (simp add: url_text_def zuh_redact_url_def exact_rest)
next
  case (Some k)
  define auth where "auth = takeWhile in_authority (drop k url)"
  have "buft.exact (concat [take k url, after_at auth, rest_text p (drop (k + length auth) url)])
    (c_all [zuh_buf_append (take k url), zuh_buf_append (after_at auth), redact_rest p (drop (k + length auth) url)])"
    by (intro buft.exact_c_all) (simp add: buft.exact_append exact_rest)
  with Some show ?thesis
    by (simp add: url_text_def zuh_redact_url_def Let_def auth_def [symmetric] del: c_all.simps)
qed

lemma redact_url_total:
  "buf_room (b, h) (length (url_text p u)) \<Longrightarrow> fst (zuh_redact_url p u (b, h))"
  using buft.exact_total [OF exact_url, of "(b, h)" p u 0] by simp

section \<open>Splitting a query\<close>

abbreviation no_sep :: "bytes \<Rightarrow> bool" where
  "no_sep \<equiv> list_all (\<lambda>c. \<not> is_sep c)"

lemma pair_text_Nil [simp]: "pair_text p [] = []"
  by (simp add: pair_text_def)

lemma no_sep_takeWhile: "no_sep seg \<Longrightarrow> is_sep s \<Longrightarrow> takeWhile (\<lambda>c. \<not> is_sep c) (seg @ s # rest) = seg"
  by (rule takeWhile_append_not) (auto simp: list_all_iff)

lemma no_sep_dropWhile: "no_sep seg \<Longrightarrow> is_sep s \<Longrightarrow> dropWhile (\<lambda>c. \<not> is_sep c) (seg @ s # rest) = s # rest"
  by (rule dropWhile_append_not) (auto simp: list_all_iff)

lemma query_text_unfold:
  "q \<noteq> [] \<Longrightarrow> query_text p q = pair_text p (takeWhile (\<lambda>c. \<not> is_sep c) q) @
       (case dropWhile (\<lambda>c. \<not> is_sep c) q of [] \<Rightarrow> [] | sep # rest \<Rightarrow> sep # query_text p rest)"
  by (cases q) (simp_all only: query_text.simps simp_thms)

lemma query_text_last: "no_sep seg \<Longrightarrow> query_text p seg = pair_text p seg"
proof (cases "seg = []")
  case False
  assume "no_sep seg"
  then have "takeWhile (\<lambda>c. \<not> is_sep c) seg = seg" "dropWhile (\<lambda>c. \<not> is_sep c) seg = []"
    by (auto simp: list_all_iff takeWhile_eq_all_conv)
  note tw = this
  show ?thesis unfolding query_text_unfold [OF False] tw by simp
qed simp

lemma query_text_seg:
  assumes "no_sep seg" "is_sep s"
  shows "query_text p (seg @ s # rest) = pair_text p seg @ s # query_text p rest"
  by (simp add: query_text_unfold no_sep_takeWhile [OF assms] no_sep_dropWhile [OF assms])

lemma split_sep:
  assumes "q \<noteq> []" "is_sep (last q)"
  obtains seg s rest where "q = seg @ s # rest" "no_sep seg" "is_sep s"
proof -
  have "\<exists>x \<in> set q. is_sep x" using assms last_in_set by blast
  then obtain seg s rest where "q = seg @ s # rest" "is_sep s" "\<forall>y \<in> set seg. \<not> is_sep y"
    by (metis split_list_first_prop)
  with that show thesis by (auto simp: list_all_iff)
qed

lemma query_text_append:
  "pre = [] \<or> is_sep (last pre) \<Longrightarrow> query_text p (pre @ q) = query_text p pre @ query_text p q"
proof (induction "length pre" arbitrary: pre rule: less_induct)
  case less
  show ?case
  proof (cases "pre = []")
    case False
    then obtain seg s rest where pre: "pre = seg @ s # rest" "no_sep seg" "is_sep s"
      using less.prems by (auto elim: split_sep)
    have "rest = [] \<or> is_sep (last rest)" using less.prems pre(1) by (auto split: if_splits)
    then have "query_text p (rest @ q) = query_text p rest @ query_text p q"
      using less.hyps [of rest] pre(1) by simp
    then show ?thesis
      using query_text_seg [OF pre(2,3), of p rest] query_text_seg [OF pre(2,3), of p "rest @ q"] pre(1)
      by simp
  qed simp
qed

lemma query_text_secret:
  assumes pre: "pre = [] \<or> is_sep (last pre)" and post: "post = [] \<or> is_sep (hd post)"
    and name: "no_sep name" "CHR ''='' \<notin> set name" "zuh_redact_is_secret_param p name" and v: "no_sep v"
  shows "query_text p (pre @ name @ ''='' @ v @ post)
    = query_text p pre @ name @ ''='' @ ZUH_REDACTED @ (case post of [] \<Rightarrow> [] | s # r \<Rightarrow> s # query_text p r)"
proof -
  have seg: "no_sep (name @ ''='' @ v)" using name(1) v by (simp add: is_sep_def)
  have "takeWhile (\<lambda>c. c \<noteq> CHR ''='') (name @ CHR ''='' # v) = name"
    using name(2) by (intro takeWhile_append_not) auto
  then have pt: "pair_text p (name @ ''='' @ v) = name @ ''='' @ ZUH_REDACTED"
    using name(3) by (simp add: pair_text_def)
  have "query_text p ((name @ ''='' @ v) @ post) =
      (name @ ''='' @ ZUH_REDACTED) @ (case post of [] \<Rightarrow> [] | s # r \<Rightarrow> s # query_text p r)"
  proof (cases post)
    case Nil
    then show ?thesis using query_text_last [OF seg] pt by simp
  next
    case (Cons s r)
    then show ?thesis using query_text_seg [OF seg, of s p r] post pt by simp
  qed
  with query_text_append [OF pre] show ?thesis by simp
qed

lemma no_sep_redacted: "no_sep ZUH_REDACTED" "CHR ''='' \<notin> set ZUH_REDACTED"
  "CHR ''#'' \<notin> set ZUH_REDACTED" "CHR ''?'' \<notin> set ZUH_REDACTED"
  by (simp_all add: ZUH_REDACTED_def is_sep_def)

lemma set_pair_text: "set (pair_text p seg) \<subseteq> set seg \<union> set ZUH_REDACTED"
  by (auto simp: pair_text_def Let_def dest: set_takeWhileD)

lemma pair_text_no_sep: "no_sep seg \<Longrightarrow> no_sep (pair_text p seg)"
  using set_pair_text [of p seg] no_sep_redacted(1) by (auto simp: list_all_iff)

lemma pair_text_idem: "pair_text p (pair_text p seg) = pair_text p seg"
proof -
  let ?n = "takeWhile (\<lambda>c. c \<noteq> CHR ''='') seg"
  have "takeWhile (\<lambda>c. c \<noteq> CHR ''='') (?n @ CHR ''='' # ZUH_REDACTED) = ?n"
    by (intro takeWhile_append_not) (auto dest: set_takeWhileD)
  then show ?thesis by (simp add: pair_text_def Let_def)
qed

lemma query_text_cases:
  obtains (one) "no_sep q" | (more) seg s rest where "q = seg @ s # rest" "no_sep seg" "is_sep s"
proof (cases "no_sep q")
  case False
  then obtain x where "x \<in> set q" "is_sep x" by (auto simp: list_all_iff)
  then obtain seg s rest where "q = seg @ s # rest" "is_sep s" "\<forall>y \<in> set seg. \<not> is_sep y"
    by (metis split_list_first_prop)
  with more show thesis by (auto simp: list_all_iff)
qed (use one in blast)

lemma query_text_idem: "query_text p (query_text p q) = query_text p q"
proof (induction "length q" arbitrary: q rule: less_induct)
  case less
  show ?case
  proof (cases q rule: query_text_cases)
    case one
    then show ?thesis by (simp add: query_text_last pair_text_no_sep pair_text_idem)
  next
    case (more seg s rest)
    then show ?thesis
      using less.hyps [of rest] query_text_seg [OF pair_text_no_sep [OF more(2)] more(3)]
      by (simp add: query_text_seg pair_text_idem)
  qed
qed

lemma set_query_text: "set (query_text p q) \<subseteq> set q \<union> set ZUH_REDACTED"
proof (induction "length q" arbitrary: q rule: less_induct)
  case less
  show ?case
  proof (cases q rule: query_text_cases)
    case one
    then show ?thesis using set_pair_text [of p q] by (simp add: query_text_last)
  next
    case (more seg s rest)
    then show ?thesis
      using less.hyps [of rest] set_pair_text [of p seg] by (auto simp: query_text_seg)
  qed
qed

section \<open>Splitting a URL\<close>

definition scheme_ok :: "bytes \<Rightarrow> bool" where
  "scheme_ok s \<longleftrightarrow> s \<noteq> [] \<and> is_alpha (hd s) \<and> list_all is_scheme_char s"

lemma colon_not_scheme: "\<not> is_scheme_char (CHR '':'')" "\<not> is_scheme_char (CHR ''?'')"
  by (simp_all add: is_scheme_char_def is_alpha_def is_digit_def)

lemma scheme_loop_found:
  "list_all is_scheme_char s \<Longrightarrow> scheme_loop i (s @ ''://'' @ rest) = Some (i + length s + 3)"
proof (induction s arbitrary: i)
  case (Cons c s)
  have "c \<noteq> CHR '':''" using Cons.prems colon_not_scheme by auto
  then show ?case
    using Cons by (cases s; cases "tl s") auto
qed simp

lemma scheme_end_found: "scheme_ok s \<Longrightarrow> scheme_end (s @ ''://'' @ rest) = Some (length s + 3)"
  using scheme_loop_found [of "tl s" 1 rest] by (cases s) (auto simp: scheme_end_def scheme_ok_def)

lemma scheme_loop_split:
  "scheme_loop i u = Some k \<Longrightarrow> \<exists>s rest. u = s @ ''://'' @ rest \<and> list_all is_scheme_char s \<and> k = i + length s + 3"
proof (induction i u rule: scheme_loop.induct)
  case (1 i c d e rest)
  show ?case
  proof (cases "c = CHR '':'' \<and> d = CHR ''/'' \<and> e = CHR ''/''")
    case True
    with 1 show ?thesis by (intro exI [of _ "[]"] exI [of _ rest]) simp
  next
    case False
    then have c: "is_scheme_char c" "scheme_loop (i + 1) (d # e # rest) = Some k"
      using "1.prems" by (simp_all split: if_splits)
    from "1.IH" [OF False _ c(2)] c(1) obtain s r where "d # e # rest = s @ ''://'' @ r"
      "list_all is_scheme_char s" "k = i + 1 + length s + 3" by blast
    with c(1) show ?thesis by (intro exI [of _ "c # s"] exI [of _ r]) simp
  qed
qed simp_all

lemma scheme_end_split:
  assumes "scheme_end u = Some k"
  obtains s rest where "u = s @ ''://'' @ rest" "scheme_ok s" "k = length s + 3"
proof -
  obtain c cs where u: "u = c # cs" "is_alpha c" "scheme_loop 1 cs = Some k"
    using assms by (auto simp: scheme_end_def split: list.splits if_splits)
  obtain s rest where "cs = s @ ''://'' @ rest" "list_all is_scheme_char s" "k = 1 + length s + 3"
    using scheme_loop_split [OF u(3)] by blast
  with u that [of "c # s" rest] show thesis by (simp add: scheme_ok_def is_scheme_char_def)
qed

lemma scheme_loop_question: "scheme_loop i (s @ CHR ''?'' # t) = scheme_loop i (s @ CHR ''?'' # t')"
proof (induction s arbitrary: i)
  case Nil
  have "scheme_loop i (CHR ''?'' # x) = None" for x
    by (cases x; cases "tl x") (auto simp: colon_not_scheme)
  then show ?case by simp
next
  case (Cons c s)
  show ?case
  proof (cases s)
    case Nil
    have "scheme_loop i (c # CHR ''?'' # x) = None" for x
      by (cases x; cases "tl x") (auto simp: colon_not_scheme)
    with Nil show ?thesis by simp
  next
    case (Cons d s')
    then show ?thesis using Cons.IH [of "i + 1"] by (cases s') auto
  qed
qed

lemma scheme_end_question: "scheme_end (s @ CHR ''?'' # t) = scheme_end (s @ CHR ''?'' # t')"
  using scheme_loop_question [of 1 "tl s" t t'] by (cases s) (simp_all add: scheme_end_def is_alpha_def)

lemma rest_text_split:
  assumes "CHR ''?'' \<notin> set path" "CHR ''#'' \<notin> set q" "frag = [] \<or> hd frag = CHR ''#''"
  shows "rest_text p (path @ ''?'' @ q @ frag) = path @ ''?'' @ query_text p q @ frag"
proof -
  have "takeWhile (\<lambda>c. c \<noteq> CHR ''?'') (path @ CHR ''?'' # q @ frag) = path"
    using assms(1) by (intro takeWhile_append_not) auto
  moreover have "takeWhile (\<lambda>c. c \<noteq> CHR ''#'') (q @ frag) = q" "dropWhile (\<lambda>c. c \<noteq> CHR ''#'') (q @ frag) = frag"
    using assms(2,3) by (cases frag; force simp: takeWhile_eq_all_conv intro: takeWhile_append_not dropWhile_append_not)+
  ultimately show ?thesis by (simp add: rest_text_def)
qed

lemma rest_text_cases:
  obtains (plain) "CHR ''?'' \<notin> set r"
  | (query) path q frag where "r = path @ ''?'' @ q @ frag" "CHR ''?'' \<notin> set path" "CHR ''#'' \<notin> set q"
      "frag = [] \<or> hd frag = CHR ''#''"
proof (cases "CHR ''?'' \<in> set r")
  case True
  then obtain path qs where r: "r = path @ CHR ''?'' # qs" "CHR ''?'' \<notin> set path"
    by (metis split_list_first)
  show thesis
  proof (rule query)
    show "r = path @ ''?'' @ takeWhile (\<lambda>c. c \<noteq> CHR ''#'') qs @ dropWhile (\<lambda>c. c \<noteq> CHR ''#'') qs"
      using r(1) by simp
    show "CHR ''#'' \<notin> set (takeWhile (\<lambda>c. c \<noteq> CHR ''#'') qs)" by (auto dest: set_takeWhileD)
    show "dropWhile (\<lambda>c. c \<noteq> CHR ''#'') qs = [] \<or> hd (dropWhile (\<lambda>c. c \<noteq> CHR ''#'') qs) = CHR ''#''"
      using hd_dropWhile by blast
  qed (rule r(2))
next
  case False
  then show thesis by (rule plain)
qed

lemma rest_text_idem: "rest_text p (rest_text p r) = rest_text p r"
proof (cases r rule: rest_text_cases)
  case plain
  then show ?thesis by (simp add: rest_text_def)
next
  case (query path q frag)
  have "CHR ''#'' \<notin> set (query_text p q)"
    using set_query_text [of p q] query(3) no_sep_redacted(3) by auto
  note idem = rest_text_split [OF query(2) this query(4), of p]
  show ?thesis
    unfolding query(1) rest_text_split [OF query(2-4)] idem query_text_idem by (rule refl)
qed

lemma rest_text_head: "rest_text p r = [] \<longleftrightarrow> r = []" "r \<noteq> [] \<Longrightarrow> hd (rest_text p r) = hd r"
proof -
  have "(rest_text p r = [] \<longleftrightarrow> r = []) \<and> (r \<noteq> [] \<longrightarrow> hd (rest_text p r) = hd r)"
  proof (cases r rule: rest_text_cases)
    case plain
    then show ?thesis by (simp add: rest_text_def)
  next
    case (query path q frag)
    then have "rest_text p r = path @ ''?'' @ query_text p q @ frag" using rest_text_split by blast
    with query(1) show ?thesis by (cases path) simp_all
  qed
  then show "rest_text p r = [] \<longleftrightarrow> r = []" "r \<noteq> [] \<Longrightarrow> hd (rest_text p r) = hd r" by blast+
qed

lemma after_at_no_at: "CHR ''@'' \<notin> set (after_at a)"
  by (auto simp: after_at_def dest: set_takeWhileD)

lemma after_at_id: "CHR ''@'' \<notin> set a \<Longrightarrow> after_at a = a"
  by (simp add: after_at_def)

lemma after_at_userinfo: "CHR ''@'' \<notin> set a \<Longrightarrow> after_at (u @ ''@'' @ a) = a"
proof -
  assume "CHR ''@'' \<notin> set a"
  then have "\<forall>x \<in> set (rev a). x \<noteq> CHR ''@''" by auto
  from takeWhile_append_not [OF _ this, of "CHR ''@''" "rev u"] show ?thesis
    by (simp add: after_at_def)
qed

lemma set_after_at: "set (after_at a) \<subseteq> set a"
  by (auto simp: after_at_def dest: set_takeWhileD)

lemma url_text_split:
  assumes "scheme_ok s" "list_all in_authority auth" "r = [] \<or> \<not> in_authority (hd r)"
  shows "url_text p (s @ ''://'' @ auth @ r) = s @ ''://'' @ after_at auth @ rest_text p r"
proof -
  have tw: "takeWhile in_authority (auth @ r) = auth"
    using assms(2,3) takeWhile_append_not [of in_authority "hd r" auth "tl r"]
    by (cases "r = []") (auto simp: list_all_iff takeWhile_eq_all_conv)
  have se: "scheme_end (s @ ''://'' @ auth @ r) = Some (length s + 3)"
    by (rule scheme_end_found [OF assms(1)])
  have d: "drop (length s + 3) (s @ ''://'' @ auth @ r) = auth @ r"
    "take (length s + 3) (s @ ''://'' @ auth @ r) = s @ ''://''"
    by simp_all
  have "drop (length (s @ ''://'' @ auth)) ((s @ ''://'' @ auth) @ r) = r"
    by (rule append_eq_conv_conj [THEN iffD1, THEN conjunct2, symmetric]) simp
  then have d2: "drop (length s + 3 + length auth) (s @ ''://'' @ auth @ r) = r"
    by (simp add: add.commute add.left_commute)
  show ?thesis unfolding url_text_def se option.case Let_def d tw d2 by simp
qed

lemma url_text_idem: "url_text p (url_text p u) = url_text p u"
proof (cases "scheme_end u")
  case None
  have "scheme_end (rest_text p u) = None"
  proof (cases u rule: rest_text_cases)
    case plain
    with None show ?thesis by (simp add: rest_text_def)
  next
    case (query path q frag)
    then have "scheme_end (path @ ''?'' @ query_text p q @ frag) = None"
      using None scheme_end_question [of path "q @ frag" "query_text p q @ frag"] by simp
    then show ?thesis unfolding query(1) rest_text_split [OF query(2-4)] .
  qed
  with None show ?thesis by (simp add: url_text_def rest_text_idem)
next
  case (Some k)
  then obtain s rest where u: "u = s @ ''://'' @ rest" "scheme_ok s" by (rule scheme_end_split)
  define auth r where "auth = takeWhile in_authority rest" and "r = dropWhile in_authority rest"
  have ar: "rest = auth @ r" "list_all in_authority auth" "r = [] \<or> \<not> in_authority (hd r)"
    using hd_dropWhile [of in_authority rest] by (auto simp: auth_def r_def list_all_iff dest: set_takeWhileD)
  have a2: "list_all in_authority (after_at auth)" using ar(2) set_after_at [of auth] by (auto simp: list_all_iff)
  have r2: "rest_text p r = [] \<or> \<not> in_authority (hd (rest_text p r))"
    using ar(3) rest_text_head [where p = p and r = r] by auto
  show ?thesis
    unfolding u(1) ar(1) url_text_split [OF u(2) ar(2,3)] url_text_split [OF u(2) a2 r2]
    by (simp add: rest_text_idem after_at_id after_at_no_at)
qed

section \<open>Properties\<close>

text \<open>A query as its parameters: each but the last with the separator behind it.\<close>

definition query_of :: "(bytes \<times> char) list \<Rightarrow> bytes \<Rightarrow> bytes" where
  "query_of ps seg = concat (map (\<lambda>(s, c). s @ [c]) ps) @ seg"

lemma query_text_join:
  "list_all (\<lambda>(s, c). no_sep s \<and> is_sep c) ps \<Longrightarrow> no_sep seg \<Longrightarrow>
   query_text p (query_of ps seg) = query_of (map (apfst (pair_text p)) ps) (pair_text p seg)"
  by (induction ps) (auto simp: query_of_def query_text_last query_text_seg)

lemma pair_text_param:
  "CHR ''='' \<notin> set name \<Longrightarrow>
   pair_text p (name @ ''='' @ v) = (if zuh_redact_is_secret_param p name then name @ ''=<redacted>'' else name @ ''='' @ v)"
proof -
  assume "CHR ''='' \<notin> set name"
  then have "takeWhile (\<lambda>c. c \<noteq> CHR ''='') (name @ CHR ''='' # v) = name"
    by (intro takeWhile_append_not) auto
  then show ?thesis by (simp add: pair_text_def ZUH_REDACTED_def)
qed

lemma pair_text_plain: "CHR ''='' \<notin> set seg \<Longrightarrow> pair_text p seg = seg"
  by (simp add: pair_text_def)

text \<open>
  What stands before the path, and what is shown of it: nothing when there is no scheme, and otherwise the scheme
  and the host, without what ends in the last \<^verbatim>\<open>@\<close> of the authority.
\<close>

definition front_shown :: "bytes \<Rightarrow> bytes \<Rightarrow> bytes \<Rightarrow> bool" where
  "front_shown rest front shown \<longleftrightarrow>
     front = [] \<and> shown = [] \<and> scheme_end rest = None
     \<or> (\<exists>s ui hst. front = s @ ''://'' @ ui @ hst \<and> shown = s @ ''://'' @ hst \<and> scheme_ok s \<and> list_all in_authority (ui @ hst)
          \<and> (ui = [] \<or> last ui = CHR ''@'') \<and> CHR ''@'' \<notin> set hst \<and> (rest = [] \<or> \<not> in_authority (hd rest)))"

lemma url_text_front:
  assumes "front_shown rest front shown"
  shows "url_text p (front @ rest) = shown @ rest_text p rest"
  using assms unfolding front_shown_def
proof (rule disjE)
  assume "front = [] \<and> shown = [] \<and> scheme_end rest = None"
  then show ?thesis by (simp add: url_text_def)
next
  assume "\<exists>s ui hst. front = s @ ''://'' @ ui @ hst \<and> shown = s @ ''://'' @ hst \<and> scheme_ok s \<and> list_all in_authority (ui @ hst)
          \<and> (ui = [] \<or> last ui = CHR ''@'') \<and> CHR ''@'' \<notin> set hst \<and> (rest = [] \<or> \<not> in_authority (hd rest))"
  then obtain s ui hst where e: "front = s @ ''://'' @ ui @ hst" "shown = s @ ''://'' @ hst"
    and a: "scheme_ok s" "list_all in_authority (ui @ hst)" and u: "ui = [] \<or> last ui = CHR ''@''"
    and hst: "CHR ''@'' \<notin> set hst" and r: "rest = [] \<or> \<not> in_authority (hd rest)"
    by (elim exE conjE) (rule that)
  have "after_at (ui @ hst) = hst"
  proof (cases "ui = []")
    case False
    then have ui: "butlast ui @ ''@'' = ui" using u append_butlast_last_id [of ui] by simp
    have "after_at (butlast ui @ ''@'' @ hst) = hst" by (rule after_at_userinfo [OF hst])
    moreover have "butlast ui @ ''@'' @ hst = ui @ hst" unfolding append_assoc [symmetric] ui ..
    ultimately show ?thesis by (simp only:)
  qed (simp add: after_at_id hst)
  with url_text_split [OF a(1,2) r, of p] show ?thesis by (simp add: e)
qed



text \<open>
  Redaction is idempotent: a URL that was redacted once, as it is when an error message
  quotes a trace line, is left as it is by a second pass.
\<close>
lemma redact_url_idempotent:
  assumes "zuh_redact_url p u (b, h) = (True, b1, h1)" and "buf_inv b" and "buf_data b = []"
    and "zuh_redact_url p (buf_data b1) (b, h2) = (True, b3, h3)"
  shows "buf_data b3 = buf_data b1"
  using buft.exactD(3) [OF exact_url, of "(b, h)" p u True "(b1, h1)"]
    buft.exactD(3) [OF exact_url, of "(b, h2)" p "buf_data b1" True "(b3, h3)"] assms
  by (simp add: url_text_idem)

lemma redact_url_idempotent_witness:
  "\<exists>b1 h1 b3 h3. zuh_redact_url None ''http://u@h/'' (empty_buffer, fresh_heap) = (True, b1, h1)
    \<and> zuh_redact_url None (buf_data b1) (empty_buffer, fresh_heap) = (True, b3, h3) \<and> buf_data b3 = buf_data b1"
proof -
  have urls: "url_text None ''http://u@h/'' = ''http://h/''" "url_text None ''http://h/'' = ''http://h/''"
    by (simp_all add: url_text_def scheme_end_def is_scheme_char_def is_alpha_def in_authority_def
        after_at_def rest_text_def Let_def)
  obtain ok1 b1 h1 where r1: "zuh_redact_url None ''http://u@h/'' (empty_buffer, fresh_heap) = (ok1, b1, h1)"
    by (rule prod_cases3)
  have "ok1" using redact_url_total [of empty_buffer fresh_heap None "''http://u@h/''"] r1 by (simp add: urls)
  moreover from this have b1: "buf_data b1 = ''http://h/''"
    using buft.exactD(3) [OF exact_url _ r1] by (simp add: urls)
  moreover obtain ok3 b3 h3 where r3: "zuh_redact_url None (buf_data b1) (empty_buffer, fresh_heap) = (ok3, b3, h3)"
    by (rule prod_cases3)
  moreover have "ok3" using redact_url_total [of empty_buffer fresh_heap None "buf_data b1"] r3 b1 by (simp add: urls)
  ultimately show ?thesis
    using redact_url_idempotent [of None "''http://u@h/''" empty_buffer fresh_heap b1 h1 fresh_heap b3 h3] r1 by simp
qed

end
