(* ===== verification/Zuh_Redirect.thy ===== *)
theory Zuh_Redirect
  imports Zuh_Uri Zuh_Redact
begin

text \<open>
  \<^verbatim>\<open>src/zuh_redirect.c\<close>: which redirects are followed, what becomes of the method, the body
  and the credentials, and the loop detection. A header that the redaction policy calls
  secret is a credential.
\<close>

section \<open>Policy and decision\<close>

record zuh_redirect_policy =
  rp_max_redirects :: nat
  rp_allow_downgrade :: bool

definition zuh_redirect_policy_init :: zuh_redirect_policy where
  "zuh_redirect_policy_init = \<lparr>rp_max_redirects = 10, rp_allow_downgrade = False\<rparr>"

datatype zuh_redirect_action = ZUH_REDIRECT_NONE | ZUH_REDIRECT_FOLLOW

record zuh_redirect_decision =
  rd_action :: zuh_redirect_action
  rd_rewrite_to_get :: bool
  rd_drop_body :: bool
  rd_needs_rewindable :: bool
  rd_strip_credentials :: bool

definition zuh_status_is_redirect :: "int \<Rightarrow> bool" where
  "zuh_status_is_redirect status \<longleftrightarrow>
     status = 301 \<or> status = 302 \<or> status = 303 \<or> status = 307 \<or> status = 308"

definition zuh_redirect_is_credential_header :: "zuh_redact_policy option \<Rightarrow> bytes \<Rightarrow> bool" where
  "zuh_redirect_is_credential_header p name = zuh_redact_is_secret_header p (c_string name)"

definition no_decision :: zuh_redirect_decision where
  "no_decision = \<lparr>rd_action = ZUH_REDIRECT_NONE, rd_rewrite_to_get = False, rd_drop_body = False,
     rd_needs_rewindable = False, rd_strip_credentials = False\<rparr>"

definition zuh_redirect_decide ::
    "zuh_redirect_policy \<Rightarrow> int \<Rightarrow> bytes \<Rightarrow> zuh_uri \<Rightarrow> zuh_uri \<Rightarrow> nat \<Rightarrow> zuh_error
     \<Rightarrow> zuh_code \<times> zuh_redirect_decision \<times> zuh_error" where
  "zuh_redirect_decide p status method from_uri to_uri hops_so_far err =
     (let out = no_decision in
      if \<not> zuh_status_is_redirect status then (ZUH_OK, out, err)
      else if rp_max_redirects p \<noteq> 0 \<and> hops_so_far \<ge> rp_max_redirects p then
        (ZUH_ERR_TOO_MANY_REDIRECTS, out,
         zuh_error_set err ZUH_ERR_TOO_MANY_REDIRECTS ZUH_PHASE_READ
           (''stopped after '' @ show_nat (rp_max_redirects p)
            @ '' redirects, and the server sent another; raise `redirects` if the chain is expected''))
      else if \<not> rp_allow_downgrade p \<and> u_is_https from_uri \<and> \<not> u_is_https to_uri then
        (ZUH_ERR_REDIRECT, out,
         zuh_error_set err ZUH_ERR_REDIRECT ZUH_PHASE_READ ''refusing HTTPS to HTTP redirect'')
      else
        let is_head = (zuh_ascii_casecmp method ''HEAD'' = 0);
            out =
              (if status = 301 \<or> status = 302 then
                 (if zuh_ascii_casecmp method ''POST'' = 0
                  then out\<lparr>rd_rewrite_to_get := True, rd_drop_body := True\<rparr> else out)
               else if status = 303 then
                 (if \<not> is_head then out\<lparr>rd_rewrite_to_get := True\<rparr> else out)\<lparr>rd_drop_body := True\<rparr>
               else if status = 307 \<or> status = 308 then out\<lparr>rd_needs_rewindable := True\<rparr>
               else out)
        in (ZUH_OK,
            out\<lparr>rd_strip_credentials := \<not> zuh_uri_same_origin from_uri to_uri,
                rd_action := ZUH_REDIRECT_FOLLOW\<rparr>, err))"

section \<open>Credentials\<close>

text \<open>
  The loop of \<^verbatim>\<open>zuh_redirect_strip_credentials\<close> over its variables \<^verbatim>\<open>i\<close>, \<^verbatim>\<open>removed\<close>, the list
  and the heap. The name is copied into 257 bytes, so a longer one is cut, and the loop need
  not end: \<open>None\<close> is a call that does not return.
\<close>

type_synonym strip_state = "nat \<times> nat \<times> zuh_headers \<times> heap"

definition strip_cond :: "strip_state \<Rightarrow> bool" where
  "strip_cond = (\<lambda>(i, removed, hs, h). i < length (hs_items hs))"

definition strip_body :: "zuh_redact_policy option \<Rightarrow> strip_state \<Rightarrow> strip_state" where
  "strip_body p = (\<lambda>(i, removed, hs, h).
     (let nm = hd_name (hs_items hs ! i) in
      if zuh_redact_is_secret_header p nm then
        (case zuh_headers_remove hs (take ZUH_DEFAULT_MAX_HEADER_NAME nm) h of
           (k, hs', h') \<Rightarrow> (0, removed + k, hs', h'))
      else (i + 1, removed, hs, h)))"

definition zuh_redirect_strip_credentials ::
    "zuh_headers \<Rightarrow> zuh_redact_policy option \<Rightarrow> heap \<Rightarrow> (nat \<times> zuh_headers \<times> heap) option" where
  "zuh_redirect_strip_credentials hs p h =
     map_option snd (while_option strip_cond (strip_body p) (0, 0, hs, h))"

section \<open>Loop detection\<close>

record zuh_redirect_trail =
  tr_seen :: "bytes list"
  tr_cap :: nat

definition zuh_redirect_trail_init :: zuh_redirect_trail where
  "zuh_redirect_trail_init = \<lparr>tr_seen = [], tr_cap = 0\<rparr>"

definition trail_block :: "zuh_redirect_trail \<Rightarrow> nat option" where
  "trail_block t = (if tr_cap t = 0 then None else Some (8 * tr_cap t))"

definition zuh_redirect_trail_free :: "zuh_redirect_trail \<Rightarrow> heap \<Rightarrow> zuh_redirect_trail \<times> heap" where
  "zuh_redirect_trail_free t h =
     (zuh_redirect_trail_init,
      zuh_free (trail_block t) (fold (\<lambda>k h. zuh_free (Some (length k + 1)) h) (tr_seen t) h))"

definition trail_key :: "bytes \<Rightarrow> zuh_uri \<Rightarrow> heap \<Rightarrow> bytes option \<times> heap" where
  "trail_key method u h =
     (case zuh_uri_origin_string u 320 of (fits, origin) \<Rightarrow>
      if \<not> fits then (None, h)
      else case zuh_buf_init 96 0 h of (ok, b, h1) \<Rightarrow>
      if \<not> ok then (None, h1)
      else case c_all [zuh_buf_append_str method, zuh_buf_append_byte SP, zuh_buf_append_str origin,
          zuh_buf_append_str (case u_path_query u of None \<Rightarrow> ''/'' | Some pq \<Rightarrow> pq),
          zuh_buf_cstr] (b, h1) of (ok, b2, h2) \<Rightarrow>
      if \<not> ok then (None, snd (zuh_buf_free b2 h2))
      else case zuh_alloc (buf_len b2 + 1) h2 of (ok, h3) \<Rightarrow>
        (if ok then Some (buf_data b2) else None, snd (zuh_buf_free b2 h3)))"

definition zuh_redirect_trail_add ::
    "zuh_redirect_trail \<Rightarrow> bytes \<Rightarrow> zuh_uri \<Rightarrow> heap \<Rightarrow> zuh_code \<times> zuh_redirect_trail \<times> heap" where
  "zuh_redirect_trail_add t method u h =
     (case trail_key method u h of
        (None, h1) \<Rightarrow> (ZUH_ERR_NOMEM, t, h1)
      | (Some key, h1) \<Rightarrow>
          if list_ex (\<lambda>k. c_string k = c_string key) (tr_seen t)
          then (ZUH_ERR_REDIRECT, t, zuh_free (Some (length key + 1)) h1)
          else if length (tr_seen t) = tr_cap t then
            (let cap = (if tr_cap t \<noteq> 0 then tr_cap t * 2 else 8) in
             case zuh_size_mul cap 8 of
               None \<Rightarrow> (ZUH_ERR_NOMEM, t, zuh_free (Some (length key + 1)) h1)
             | Some bytes \<Rightarrow>
                 (case zuh_realloc (trail_block t) bytes h1 of (ok, h2) \<Rightarrow>
                    if \<not> ok then (ZUH_ERR_NOMEM, t, zuh_free (Some (length key + 1)) h2)
                    else (ZUH_OK, t\<lparr>tr_cap := cap, tr_seen := tr_seen t @ [key]\<rparr>, h2)))
          else (ZUH_OK, t\<lparr>tr_seen := tr_seen t @ [key]\<rparr>, h1))"

section \<open>Stripping\<close>

definition credential :: "zuh_redact_policy option \<Rightarrow> zuh_header \<Rightarrow> bool" where
  "credential p f \<longleftrightarrow> zuh_redact_is_secret_header p (hd_name f)"

lemma in_list_cong: "lowers a = lowers b \<Longrightarrow> in_list l a = in_list l b"
  by (simp add: in_list_def ncasecmp_0 cong: option.case_cong)

lemma secret_header_cong:
  "lowers a = lowers b \<Longrightarrow> zuh_redact_is_secret_header p a = zuh_redact_is_secret_header p b"
  using in_list_cong [of a b] map_eq_imp_length_eq [of lower a lower b]
  by (simp add: zuh_redact_is_secret_header_def cong: option.case_cong)

text \<open>What one turn of the loop does: a field is passed, or the credentials of its name are gone.\<close>

definition strip_inv :: "zuh_redact_policy option \<Rightarrow> zuh_headers \<times> heap \<Rightarrow> strip_state \<Rightarrow> bool" where
  "strip_inv p s0 = (\<lambda>(i, removed, hs, h).
     hs_inv hs \<and> hs_rel s0 (hs, h) \<and> i \<le> length (hs_items hs)
     \<and> list_all (\<lambda>f. \<not> credential p f) (take i (hs_items hs))
     \<and> list_all (\<lambda>f. length (hd_name f) \<le> ZUH_DEFAULT_MAX_HEADER_NAME) (hs_items hs)
     \<and> filter (\<lambda>f. \<not> credential p f) (hs_items hs) = filter (\<lambda>f. \<not> credential p f) (hs_items (fst s0))
     \<and> removed + length (hs_items hs) = length (hs_items (fst s0)))"

lemma strip_body_step:
  assumes inv: "strip_inv p s0 s" and c: "strip_cond s"
  shows "strip_inv p s0 (strip_body p s)
    \<and> (case (strip_body p s, s) of ((i', r', hs', h'), (i, r, hs, h)) \<Rightarrow>
         length (hs_items hs') < length (hs_items hs)
         \<or> (length (hs_items hs') = length (hs_items hs) \<and> i' = i + 1))"
proof -
  obtain i r hs h where s: "s = (i, r, hs, h)" by (metis prod_cases4)
  let ?f = "hs_items hs ! i"
  have i: "i < length (hs_items hs)" and hs: "hs_inv hs" "hs_rel s0 (hs, h)"
    and len: "list_all (\<lambda>f. length (hd_name f) \<le> ZUH_DEFAULT_MAX_HEADER_NAME) (hs_items hs)"
    and keep: "filter (\<lambda>f. \<not> credential p f) (hs_items hs) = filter (\<lambda>f. \<not> credential p f) (hs_items (fst s0))"
    and cnt: "r + length (hs_items hs) = length (hs_items (fst s0))"
    and pre: "list_all (\<lambda>f. \<not> credential p f) (take i (hs_items hs))"
    using inv c s by (auto simp: strip_inv_def strip_cond_def)
  show ?thesis
  proof (cases "credential p ?f")
    case False
    then show ?thesis
      using i hs len keep cnt pre
      by (simp add: s strip_inv_def strip_body_def credential_def take_Suc_conv_app_nth)
  next
    case True
    have "length (hd_name ?f) \<le> ZUH_DEFAULT_MAX_HEADER_NAME" using len i by (simp add: list_all_length)
    then have nm: "take ZUH_DEFAULT_MAX_HEADER_NAME (hd_name ?f) = hd_name ?f" by simp
    have nul: "NUL \<notin> set (hd_name ?f)"
      using hs(1) i field_ok_no_break [of ?f] by (simp add: hs_inv_def list_all_length)
    obtain k hs' h' where rm: "zuh_headers_remove hs (hd_name ?f) h = (k, hs', h')" by (rule prod_cases3)
    note R = headers_remove_spec [OF hs(1) rm]
    have same: "field_is (hd_name ?f) f \<longleftrightarrow> lowers (hd_name f) = lowers (hd_name ?f)" for f
      using nul by (simp add: field_is_def c_string_id)
    have gone: "\<And>f. field_is (hd_name ?f) f \<Longrightarrow> credential p f"
      using True secret_header_cong same unfolding credential_def by blast
    have "filter (\<lambda>f. \<not> credential p f) (hs_items hs') = filter (\<lambda>f. \<not> credential p f) (hs_items hs)"
      unfolding R(4) filter_filter using gone by (intro filter_cong) auto
    moreover have "length (hs_items hs) = k + length (hs_items hs')"
      using R(3,4) length_filter_split [of "hs_items hs" "field_is (hd_name ?f)"] by (simp add: values_of_def)
    moreover have "0 < k"
    proof -
      have "?f \<in> set (filter (field_is (hd_name ?f)) (hs_items hs))" using i same by simp
      then have "0 < length (filter (field_is (hd_name ?f)) (hs_items hs))" by (rule length_pos_if_in_set)
      then show ?thesis using R(3) by (simp add: values_of_def)
    qed
    moreover have "hs_rel s0 (hs', h')"
      by (rule hdl.rel_trans [OF hs(2)]) (use R(2,5) in \<open>simp add: hs_rel_def\<close>)
    moreover have "list_all (\<lambda>f. length (hd_name f) \<le> ZUH_DEFAULT_MAX_HEADER_NAME) (hs_items hs')"
      using len R(4) by (simp add: list_all_filter)
    ultimately show ?thesis
      using True R(1) rm nm keep cnt
      by (simp add: s strip_inv_def strip_body_def credential_def)
  qed
qed

lemma strip_terminates:
  assumes "hs_inv hs" and "list_all (\<lambda>f. length (hd_name f) \<le> ZUH_DEFAULT_MAX_HEADER_NAME) (hs_items hs)"
  shows "\<exists>n hs' h'. zuh_redirect_strip_credentials hs p h = Some (n, hs', h') \<and> hs_inv hs'
    \<and> hs_rel (hs, h) (hs', h') \<and> hs_items hs' = filter (\<lambda>f. \<not> credential p f) (hs_items hs)
    \<and> n + length (hs_items hs') = length (hs_items hs)"
proof -
  let ?P = "strip_inv p (hs, h)"
  let ?m = "\<lambda>s :: strip_state. case s of (i, r, hs, h) \<Rightarrow> (length (hs_items hs), length (hs_items hs) - i)"
  have init: "?P (0, 0, hs, h)" using assms by (simp add: strip_inv_def hdl.rel_refl)
  have "\<exists>t. while_option strip_cond (strip_body p) (0, 0, hs, h) = Some t"
  proof (rule wf_rel_while_option_Some [where P = ?P and R = "inv_image (less_than <*lex*> less_than) ?m"])
    fix s assume "?P s \<and> strip_cond s"
    then have s: "?P s" "strip_cond s" by auto
    obtain i r hs1 h1 where e: "s = (i, r, hs1, h1)" by (metis prod_cases4)
    obtain i' r' hs' h' where e': "strip_body p s = (i', r', hs', h')" by (metis prod_cases4)
    show "(strip_body p s, s) \<in> inv_image (less_than <*lex*> less_than) ?m"
      using strip_body_step [OF s] s(2) unfolding e' unfolding e
      by (auto simp: strip_cond_def)
  qed (use strip_body_step init in auto)
  then obtain t where t: "while_option strip_cond (strip_body p) (0, 0, hs, h) = Some t" by blast
  have "?P t" using while_option_rule [where P = ?P, OF _ t init] strip_body_step by blast
  moreover have "\<not> strip_cond t" by (rule while_option_stop [OF t])
  moreover obtain i r hs' h' where e: "t = (i, r, hs', h')" by (metis prod_cases4)
  ultimately have "list_all (\<lambda>f. \<not> credential p f) (hs_items hs')" "hs_inv hs'" "hs_rel (hs, h) (hs', h')"
      "filter (\<lambda>f. \<not> credential p f) (hs_items hs') = filter (\<lambda>f. \<not> credential p f) (hs_items hs)"
      "r + length (hs_items hs') = length (hs_items hs)"
    by (simp_all add: strip_inv_def strip_cond_def)
  moreover from this(1) have "filter (\<lambda>f. \<not> credential p f) (hs_items hs') = hs_items hs'"
    by (simp add: filter_id_conv list_all_iff)
  moreover have "zuh_redirect_strip_credentials hs p h = Some (r, hs', h')"
    using t e by (simp add: zuh_redirect_strip_credentials_def)
  ultimately show ?thesis by simp
qed

text \<open>The copy of a name longer than the array is not the name, so nothing is removed.\<close>

lemma strip_never_ends:
  assumes inv: "hs_inv hs" and f: "f \<in> set (hs_items hs)" "credential p f"
    and long: "ZUH_DEFAULT_MAX_HEADER_NAME < length (hd_name f)"
  shows "zuh_redirect_strip_credentials hs p h = None"
proof (rule ccontr)
  assume "zuh_redirect_strip_credentials hs p h \<noteq> None"
  then obtain t where t: "while_option strip_cond (strip_body p) (0, 0, hs, h) = Some t"
    by (auto simp: zuh_redirect_strip_credentials_def)
  let ?P = "\<lambda>s :: strip_state. case s of (i, r, hs, h) \<Rightarrow> hs_inv hs \<and> f \<in> set (hs_items hs)
      \<and> list_all (\<lambda>f. \<not> credential p f) (take i (hs_items hs))"
  have step: "?P (strip_body p s)" if s: "?P s" "strip_cond s" for s
  proof -
    obtain i r hs1 h1 where e: "s = (i, r, hs1, h1)" by (metis prod_cases4)
    let ?g = "hs_items hs1 ! i"
    show ?thesis
    proof (cases "credential p ?g")
      case False
      then show ?thesis using s unfolding e
        by (simp add: strip_body_def strip_cond_def credential_def take_Suc_conv_app_nth)
    next
      case True
      let ?nm = "take ZUH_DEFAULT_MAX_HEADER_NAME (hd_name ?g)"
      obtain k hs' h' where rm: "zuh_headers_remove hs1 ?nm h1 = (k, hs', h')" by (rule prod_cases3)
      have "length (c_string ?nm) \<le> ZUH_DEFAULT_MAX_HEADER_NAME"
        using length_takeWhile_le [of "\<lambda>c. c \<noteq> NUL" ?nm] by (simp add: c_string_def)
      then have "\<not> field_is ?nm f"
        using long map_eq_imp_length_eq [of lower "hd_name f" lower "c_string ?nm"] by (auto simp: field_is_def)
      with headers_remove_spec [OF _ rm] s True rm show ?thesis unfolding e
        by (simp add: strip_body_def credential_def)
    qed
  qed
  have "?P t" using while_option_rule [where P = ?P, OF step t] inv f(1) by simp
  then show False
    using while_option_stop [OF t] f(2) by (auto simp: strip_cond_def list_all_iff split: prod.splits)
qed

section \<open>The key of a visit\<close>

definition origin_text :: "zuh_uri \<Rightarrow> bytes" where
  "origin_text u =
     the (u_scheme u) @ ''://'' @ the (u_host u)
     @ (if u_port u \<noteq> 0 \<and> u_port u \<noteq> zuh_uri_default_port (the (u_scheme u))
        then CHR '':'' # show_nat (unat (u_port u)) else [])"

definition visit_key :: "bytes \<Rightarrow> zuh_uri \<Rightarrow> bytes" where
  "visit_key method u = method @ SP # origin_text u @ the (u_path_query u)"

text \<open>A URL as \<^verbatim>\<open>zuh_uri_parse\<close> returns it.\<close>

definition uri_clean :: "zuh_uri \<Rightarrow> bool" where
  "uri_clean u \<longleftrightarrow> uri_normal u \<and> NUL \<notin> set (the (u_host u)) \<and> NUL \<notin> set (the (u_path_query u))"

lemma digits_not: "is_digit c \<Longrightarrow> c \<noteq> NUL \<and> c \<noteq> CHR ''/'' \<and> c \<noteq> CHR '':'' \<and> c \<noteq> CHR ''@''"
  by (auto simp: is_digit_def NUL_def)

lemma show_nat_clean: "NUL \<notin> set (show_nat n)" "CHR ''/'' \<notin> set (show_nat n)" "CHR '':'' \<notin> set (show_nat n)"
  using show_nat_digits [of _ n] digits_not by blast+

lemma origin_string_clean:
  assumes "uri_clean u"
  shows "zuh_uri_origin_string u cap = (cap \<noteq> 0 \<and> length (origin_text u) < cap,
      if cap = 0 then [] else take (cap - 1) (origin_text u))"
    "NUL \<notin> set (origin_text u)"
proof -
  obtain s ho where su: "u_scheme u = Some s" "u_host u = Some ho" "s \<in> {''http'', ''https''}"
    using assms unfolding uri_clean_def uri_normal_def by blast
  have nul: "NUL \<notin> set ho" using assms su(2) by (simp add: uri_clean_def)
  from su have otxt: "(if u_port u \<noteq> 0 \<and> u_port u \<noteq> zuh_uri_default_port s
      then s @ ''://'' @ ho @ '':'' @ show_nat (unat (u_port u)) else s @ ''://'' @ ho) = origin_text u"
    by (simp add: origin_text_def)
  show "zuh_uri_origin_string u cap = (cap \<noteq> 0 \<and> length (origin_text u) < cap,
      if cap = 0 then [] else take (cap - 1) (origin_text u))"
    unfolding zuh_uri_origin_string_def su option.case prod.case Let_def otxt by simp
  show "NUL \<notin> set (origin_text u)"
    using su nul show_nat_clean(1) by (auto simp: origin_text_def NUL_def)
qed

lemma trail_key_exact:
  assumes u: "uri_clean u" and fits: "length (origin_text u) < 320" and m: "NUL \<notin> set method"
  shows "buft.exact (visit_key method u) (c_all [zuh_buf_append_str method, zuh_buf_append_byte SP,
      zuh_buf_append_str (take 319 (origin_text u)),
      zuh_buf_append_str (case u_path_query u of None \<Rightarrow> ''/'' | Some pq \<Rightarrow> pq), zuh_buf_cstr])"
proof -
  obtain pq where pq: "u_path_query u = Some pq" "NUL \<notin> set pq"
    using u by (auto simp: uri_clean_def uri_normal_def)
  have "buft.exact method (zuh_buf_append_str method)" using exact_str [of "method"] m by (simp add: c_string_id)
  moreover have "buft.exact (origin_text u) (zuh_buf_append_str (take 319 (origin_text u)))"
    using exact_str [of "origin_text u"] origin_string_clean(2) [OF u] fits by (simp add: c_string_id)
  moreover have "buft.exact pq (zuh_buf_append_str (case u_path_query u of None \<Rightarrow> ''/'' | Some pq \<Rightarrow> pq))"
    using exact_str [of pq] pq by (simp add: c_string_id)
  ultimately have "buft.exact (concat [method, [SP], origin_text u, pq, []])
     (c_all [zuh_buf_append_str method, zuh_buf_append_byte SP, zuh_buf_append_str (take 319 (origin_text u)),
      zuh_buf_append_str (case u_path_query u of None \<Rightarrow> ''/'' | Some pq \<Rightarrow> pq), zuh_buf_cstr])"
    by (intro buft.exact_c_all) (simp add: exact_byte exact_cstr)
  then show ?thesis by (simp add: visit_key_def pq)
qed

lemma trail_key_text:
  assumes u: "uri_clean u" and m: "NUL \<notin> set method" and run: "trail_key method u h = (Some key, h')"
  shows "key = visit_key method u"
proof -
  have fits: "length (origin_text u) < 320"
    using run origin_string_clean(1) [OF u, of 320] by (auto simp: trail_key_def split: if_splits)
  obtain ok b h1 where i: "zuh_buf_init 96 0 h = (ok, b, h1)" by (rule prod_cases3)
  let ?ops = "c_all [zuh_buf_append_str method, zuh_buf_append_byte SP, zuh_buf_append_str (take 319 (origin_text u)),
      zuh_buf_append_str (case u_path_query u of None \<Rightarrow> ''/'' | Some pq \<Rightarrow> pq), zuh_buf_cstr]"
  obtain ok2 b2 h2 where r: "?ops (b, h1) = (ok2, b2, h2)" by (rule prod_cases3)
  have e: "zuh_uri_origin_string u 320 = (True, take 319 (origin_text u))"
    using origin_string_clean(1) [OF u, of 320] fits by simp
  have ok: "ok" "ok2" "key = buf_data b2"
    using run r unfolding trail_key_def e i prod.case
    by (auto split: if_splits prod.splits simp del: c_all.simps)
  have "buf_inv b" "buf_data b = []" using zuh_buf_init_spec [OF _ _ i] by (simp_all add: SIZE_MAX_def)
  with buft.exactD(3) [OF trail_key_exact [OF u fits m] _ r] ok show ?thesis by simp
qed

lemma trail_key_plenty:
  assumes u: "uri_clean u" and m: "NUL \<notin> set method" and h: "plenty h"
    and fits: "length (origin_text u) < 320" "length (visit_key method u) + 2 \<le> 2 ^ 60"
  shows "fst (trail_key method u h) = Some (visit_key method u)"
proof -
  let ?n = "length (visit_key method u)"
  obtain b h1 where i: "zuh_buf_init 96 0 h = (True, b, h1)" "buf_room (b, h1) (?n + 1)" "buf_data b = []"
    using zuh_buf_init_room [OF h, of 96 0 "?n + 1"] fits(2) by (auto simp: SIZE_MAX_def)
  let ?ops = "c_all [zuh_buf_append_str method, zuh_buf_append_byte SP, zuh_buf_append_str (take 319 (origin_text u)),
      zuh_buf_append_str (case u_path_query u of None \<Rightarrow> ''/'' | Some pq \<Rightarrow> pq), zuh_buf_cstr]"
  have ex: "buft.exact (visit_key method u) ?ops" by (rule trail_key_exact [OF u fits(1) m])
  obtain b2 h2 where r: "?ops (b, h1) = (True, b2, h2)" "buf_room (b2, h2) 1"
    using ex i(2) unfolding buft.exact_def buft.fills_def by fastforce
  have "buf_data b2 = visit_key method u"
    using buft.exactD(3) [OF ex _ r(1)] i(2,3) by (simp add: buf_room_def)
  moreover have "fst (zuh_alloc (buf_len b2 + 1) h2)"
    using zuh_alloc_plenty [of h2 "?n + 1"] r(2) fits(2) calculation
    by (simp add: buf_room_def ZUH_HDR_def SIZE_MAX_def)
  moreover have e: "zuh_uri_origin_string u 320 = (True, take 319 (origin_text u))"
    using origin_string_clean(1) [OF u, of 320] fits(1) by simp
  ultimately show ?thesis
    unfolding trail_key_def e i(1) r(1) prod.case by (simp add: prod.case_eq_if)
qed

text \<open>
  The key determines the visit when no host contains a colon: the method ends at the first
  space, the scheme at the first colon, the authority at the first slash after it.
\<close>

lemma visit_key_inject:
  assumes a: "uri_normal a" and b: "uri_normal b"
    and m: "SP \<notin> set m" "SP \<notin> set n"
    and hosts: "CHR ''/'' \<notin> set (the (u_host a))" "CHR ''/'' \<notin> set (the (u_host b))"
      "CHR '':'' \<notin> set (the (u_host a))" "CHR '':'' \<notin> set (the (u_host b))"
  shows "visit_key m a = visit_key n b \<longleftrightarrow> m = n \<and>
    (u_scheme a, u_host a, u_port a, u_path_query a) = (u_scheme b, u_host b, u_port b, u_path_query b)"
proof
  assume key: "visit_key m a = visit_key n b"
  obtain sa ha pa where A: "u_scheme a = Some sa" "u_host a = Some ha" "u_path_query a = Some (CHR ''/'' # pa)"
      "sa \<in> {''http'', ''https''}" "u_port a \<noteq> 0"
    using a unfolding uri_normal_def by (metis list.collapse)
  obtain sb hb pb where B: "u_scheme b = Some sb" "u_host b = Some hb" "u_path_query b = Some (CHR ''/'' # pb)"
      "sb \<in> {''http'', ''https''}" "u_port b \<noteq> 0"
    using b unfolding uri_normal_def by (metis list.collapse)
  define pta where "pta = (if u_port a \<noteq> zuh_uri_default_port sa then CHR '':'' # show_nat (unat (u_port a)) else [])"
  define ptb where "ptb = (if u_port b \<noteq> zuh_uri_default_port sb then CHR '':'' # show_nat (unat (u_port b)) else [])"
  have "m = n \<and> origin_text a @ CHR ''/'' # pa = origin_text b @ CHR ''/'' # pb"
    using key m unfolding visit_key_def A(3) B(3) option.sel by (rule split_unique [rotated 2])
  then have mn: "m = n" and o1: "sa @ CHR '':'' # ''//'' @ (ha @ pta) @ CHR ''/'' # pa
      = sb @ CHR '':'' # ''//'' @ (hb @ ptb) @ CHR ''/'' # pb"
    using A B by (auto simp: origin_text_def pta_def ptb_def)
  have "CHR '':'' \<notin> set sa" "CHR '':'' \<notin> set sb" using A(4) B(4) by auto
  from split_unique [OF this o1] have s: "sa = sb" and o2: "(ha @ pta) @ CHR ''/'' # pa = (hb @ ptb) @ CHR ''/'' # pb"
    by auto
  have "CHR ''/'' \<notin> set (ha @ pta)" "CHR ''/'' \<notin> set (hb @ ptb)"
    using hosts A(2) B(2) show_nat_clean(2) by (auto simp: pta_def ptb_def)
  from split_unique [OF this o2] have o3: "ha @ pta = hb @ ptb" and p: "pa = pb" by auto
  have no: "CHR '':'' \<notin> set ha" "CHR '':'' \<notin> set hb" using hosts A(2) B(2) by auto
  have "ha = hb \<and> u_port a = u_port b"
  proof (cases "pta = []"; cases "ptb = []")
    assume "pta = []" "ptb = []"
    then show ?thesis using o3 s by (auto simp: pta_def ptb_def split: if_splits)
  next
    assume pt: "pta \<noteq> []" "ptb \<noteq> []"
    then have "ha @ CHR '':'' # show_nat (unat (u_port a)) = hb @ CHR '':'' # show_nat (unat (u_port b))"
      using o3 by (simp add: pta_def ptb_def split: if_splits)
    from split_unique [OF no this] show ?thesis by (simp add: show_nat_inject word_unat_eq_iff)
  next
    assume "pta = []" "ptb \<noteq> []"
    then have "CHR '':'' \<in> set (hb @ ptb)" by (auto simp: ptb_def split: if_splits)
    with o3 \<open>pta = []\<close> no show ?thesis by simp
  next
    assume "pta \<noteq> []" "ptb = []"
    then have "CHR '':'' \<in> set (ha @ pta)" by (auto simp: pta_def split: if_splits)
    with o3 \<open>ptb = []\<close> no show ?thesis by simp
  qed
  with mn s p A B show "m = n \<and>
    (u_scheme a, u_host a, u_port a, u_path_query a) = (u_scheme b, u_host b, u_port b, u_path_query b)"
    by simp
qed (simp add: visit_key_def origin_text_def)

lemma trail_add_cases:
  assumes "zuh_redirect_trail_add t method u h = (c, t', h')"
  shows "(c = ZUH_OK \<and> (\<exists>key h1. trail_key method u h = (Some key, h1)
            \<and> \<not> list_ex (\<lambda>k. c_string k = c_string key) (tr_seen t) \<and> tr_seen t' = tr_seen t @ [key]))
    \<or> (c = ZUH_ERR_REDIRECT \<and> t' = t \<and> (\<exists>key h1. trail_key method u h = (Some key, h1)
            \<and> list_ex (\<lambda>k. c_string k = c_string key) (tr_seen t)))
    \<or> (c = ZUH_ERR_NOMEM \<and> t' = t)"
  using assms
  by (auto simp: zuh_redirect_trail_add_def Let_def split: option.splits if_splits prod.splits)

section \<open>Properties\<close>

text \<open>
  C2: the redirect decision is exact. A redirect is followed exactly when the status is one of the five, the hop budget
  is not spent, and it does not lead from HTTPS to HTTP unless that was allowed; the other refusals have their
  own codes. Credentials are kept exactly within one origin; the method becomes GET on 303 unless it was HEAD and
  on 301 and 302 when it was POST; the request body is dropped exactly on 303 and on 301 and 302 after a
  POST, and is kept otherwise, which on 307 and 308 asks that it can be sent again.
\<close>
theorem redirect_decide_safe:
  assumes "zuh_redirect_decide p status method src dst hops err = (c, d, err')"
  shows "(rd_action d = ZUH_REDIRECT_FOLLOW \<longleftrightarrow> zuh_status_is_redirect status \<and> (rp_max_redirects p = 0 \<or> hops < rp_max_redirects p)
           \<and> (u_is_https src \<and> \<not> u_is_https dst \<longrightarrow> rp_allow_downgrade p))
    \<and> (rd_action d = ZUH_REDIRECT_FOLLOW \<longrightarrow> c = ZUH_OK \<and> err' = err
       \<and> (rd_strip_credentials d \<longleftrightarrow> \<not> zuh_uri_same_origin src dst)
       \<and> (rd_rewrite_to_get d \<longleftrightarrow> status = 303 \<and> zuh_ascii_casecmp method ''HEAD'' \<noteq> 0
            \<or> status \<in> {301, 302} \<and> zuh_ascii_casecmp method ''POST'' = 0)
       \<and> (rd_drop_body d \<longleftrightarrow> status = 303 \<or> status \<in> {301, 302} \<and> zuh_ascii_casecmp method ''POST'' = 0)
       \<and> (rd_needs_rewindable d \<longleftrightarrow> status \<in> {307, 308}))
    \<and> (rd_action d = ZUH_REDIRECT_NONE \<longrightarrow>
         (if \<not> zuh_status_is_redirect status then c = ZUH_OK \<and> err' = err
          else c = (if rp_max_redirects p \<noteq> 0 \<and> rp_max_redirects p \<le> hops then ZUH_ERR_TOO_MANY_REDIRECTS else ZUH_ERR_REDIRECT)
            \<and> err_code err' = c))"
proof -
  consider "\<not> zuh_status_is_redirect status"
    | "zuh_status_is_redirect status" "rp_max_redirects p \<noteq> 0 \<and> hops \<ge> rp_max_redirects p"
    | "zuh_status_is_redirect status" "\<not> (rp_max_redirects p \<noteq> 0 \<and> hops \<ge> rp_max_redirects p)"
      "\<not> rp_allow_downgrade p \<and> u_is_https src \<and> \<not> u_is_https dst"
    | "zuh_status_is_redirect status" "\<not> (rp_max_redirects p \<noteq> 0 \<and> hops \<ge> rp_max_redirects p)"
      "\<not> (\<not> rp_allow_downgrade p \<and> u_is_https src \<and> \<not> u_is_https dst)"
    by blast
  then show ?thesis
  proof cases
    case 4
    have nn: "\<not> \<not> zuh_status_is_redirect status" using 4(1) by simp
    note D = assms [unfolded zuh_redirect_decide_def Let_def if_not_P [OF 4(2)] if_not_P [OF 4(3)]
        if_not_P [OF nn], symmetric]
    from 4(1) consider "status = 301 \<or> status = 302" | "status = 303" | "status = 307 \<or> status = 308"
      unfolding zuh_status_is_redirect_def by blast
    then show ?thesis
      using D 4(1,2,3) by cases (auto simp: no_decision_def)
  qed (use assms in \<open>auto simp: zuh_redirect_decide_def Let_def no_decision_def\<close>)
qed

lemma redirect_decide_safe_witness:
  "\<exists>d. zuh_redirect_decide zuh_redirect_policy_init 302 ''post'' (example_uri ''a'' 80 ''/'')
      (example_uri ''b'' 80 ''/'') 9 no_error = (ZUH_OK, d, no_error)
    \<and> rd_strip_credentials d \<and> rd_drop_body d"
proof -
  let ?a = "example_uri ''a'' 80 ''/''" and ?b = "example_uri ''b'' 80 ''/''"
  obtain c d e where run: "zuh_redirect_decide zuh_redirect_policy_init 302 ''post'' ?a ?b 9 no_error = (c, d, e)"
    by (rule prod_cases3)
  have "\<not> zuh_uri_same_origin ?a ?b" "zuh_ascii_casecmp ''post'' ''POST'' = 0"
    by (simp_all add: zuh_uri_same_origin_def example_uri_def casecmp_0 literal_simps)
  moreover have "c = ZUH_OK" "e = no_error" "rd_action d = ZUH_REDIRECT_FOLLOW"
    using run by (auto simp: zuh_redirect_decide_def zuh_redirect_policy_init_def zuh_status_is_redirect_def
        example_uri_def Let_def)
  ultimately show ?thesis using redirect_decide_safe [OF run] run by auto
qed

text \<open>
  \<^verbatim>\<open>zuh_redirect_strip_credentials\<close> removes every credential field and no other, in the
  list's order and with an exact count, and returns, when no field name is longer than the
  array it copies one into.
\<close>
lemma strip_credentials_exact:
  assumes "hs_inv hs" and "\<forall>f \<in> set (hs_items hs). length (hd_name f) \<le> ZUH_DEFAULT_MAX_HEADER_NAME"
  shows "\<exists>n hs' h'. zuh_redirect_strip_credentials hs p h = Some (n, hs', h') \<and> hs_inv hs'
    \<and> hs_items hs' = filter (\<lambda>f. \<not> zuh_redact_is_secret_header p (hd_name f)) (hs_items hs)
    \<and> n = length (filter (\<lambda>f. zuh_redact_is_secret_header p (hd_name f)) (hs_items hs))"
proof -
  obtain n hs' h' where r: "zuh_redirect_strip_credentials hs p h = Some (n, hs', h')" "hs_inv hs'"
      "hs_items hs' = filter (\<lambda>f. \<not> credential p f) (hs_items hs)" "n + length (hs_items hs') = length (hs_items hs)"
    using strip_terminates [of hs p h] assms by (auto simp: list_all_iff)
  with length_filter_split [of "hs_items hs" "credential p"] have "n = length (filter (credential p) (hs_items hs))"
    by simp
  with r show ?thesis by (simp add: credential_def [abs_def])
qed

lemma strip_credentials_exact_witness:
  "\<exists>n hs' h'. zuh_redirect_strip_credentials
      (example_headers\<lparr>hs_items := [\<lparr>hd_name = ''COOKIE'', hd_value = ''s''\<rparr>], hs_bytes := 11\<rparr>) None fresh_heap
    = Some (n, hs', h') \<and> hs_items hs' = []"
proof -
  let ?hs = "example_headers\<lparr>hs_items := [\<lparr>hd_name = ''COOKIE'', hd_value = ''s''\<rparr>], hs_bytes := 11\<rparr>"
  have "hs_inv ?hs"
    by (simp add: hs_inv_def example_headers_def field_ok_def zuh_header_name_valid_def is_tchar_def
        zuh_header_value_valid_def value_char_ok_def SIZEOF_HEADER_def SIZE_MAX_def wire_len_def
        CR_def LF_def NUL_def HTAB_def)
  moreover have "zuh_redact_is_secret_header None ''COOKIE''"
    by (simp add: zuh_redact_is_secret_header_def in_list_def k_headers_def ncasecmp_0 literal_simps)
  ultimately show ?thesis
    using strip_credentials_exact [of ?hs None fresh_heap] by (auto simp: ZUH_DEFAULT_MAX_HEADER_NAME_def)
qed

text \<open>
  With a credential field whose name is longer than 256 bytes, which a policy can name,
  the loop never ends: the copy of the name is cut, no field has the cut name, and the scan
  starts over.
\<close>
lemma strip_credentials_diverges:
  assumes "hs_inv hs" and "f \<in> set (hs_items hs)" and "zuh_redact_is_secret_header p (hd_name f)"
    and "ZUH_DEFAULT_MAX_HEADER_NAME < length (hd_name f)"
  shows "zuh_redirect_strip_credentials hs p h = None"
  using strip_never_ends [OF assms(1,2) _ assms(4)] assms(3) by (simp add: credential_def)

lemma strip_credentials_diverges_witness:
  "zuh_redirect_strip_credentials
     (example_headers\<lparr>hs_items := [\<lparr>hd_name = replicate 257 (CHR ''x''), hd_value = ''s''\<rparr>], hs_bytes := 262\<rparr>)
     (Some \<lparr>extra_headers = Some [replicate 257 (CHR ''x'')], extra_params = None\<rparr>) fresh_heap = None"
proof (rule strip_credentials_diverges)
  let ?hs = "example_headers\<lparr>hs_items := [\<lparr>hd_name = replicate 257 (CHR ''x''), hd_value = ''s''\<rparr>], hs_bytes := 262\<rparr>"
  let ?p = "Some \<lparr>extra_headers = Some [replicate 257 (CHR ''x'')], extra_params = None\<rparr>"
  show "hs_inv ?hs"
    by (simp add: hs_inv_def example_headers_def field_ok_def zuh_header_name_valid_def is_tchar_def list_all_iff
        zuh_header_value_valid_def value_char_ok_def SIZEOF_HEADER_def SIZE_MAX_def wire_len_def
        CR_def LF_def NUL_def HTAB_def)
  have "c_string (replicate 257 (CHR ''x'')) = replicate 257 (CHR ''x'')"
    by (rule c_string_id) (simp add: NUL_def)
  then have "in_list (Some [replicate 257 (CHR ''x'')]) (replicate 257 (CHR ''x''))"
    by (simp only: in_list_def option.case list_ex_iff list.set ncasecmp_0)
      (rule bexI [of _ "replicate 257 (CHR ''x'')"], simp_all only: insertI1)
  then show "zuh_redact_is_secret_header ?p (hd_name \<lparr>hd_name = replicate 257 (CHR ''x''), hd_value = ''s''\<rparr>)"
    by (simp add: zuh_redact_is_secret_header_def)
qed (simp_all add: ZUH_DEFAULT_MAX_HEADER_NAME_def)

text \<open>
  The loop detection is exact for hosts that are names: with a trail that records the
  visits so far, a new one is reported as a loop only if the same method was sent to the
  same URL before, it is never recorded twice, and the trail then records it.
\<close>
lemma trail_detects_loops:
  assumes trail: "list_all2 (\<lambda>k (m, u). k = visit_key m u) (tr_seen t) visits"
    and visits: "\<forall>(m, u) \<in> set ((method, url) # visits). uri_clean u \<and> NUL \<notin> set m \<and> SP \<notin> set m
        \<and> CHR ''/'' \<notin> set (the (u_host u)) \<and> CHR '':'' \<notin> set (the (u_host u))"
    and run: "zuh_redirect_trail_add t method url h = (c, t', h')"
  shows "(c = ZUH_ERR_REDIRECT \<longrightarrow> (\<exists>u. (method, u) \<in> set visits
            \<and> (u_scheme u, u_host u, u_port u, u_path_query u)
              = (u_scheme url, u_host url, u_port url, u_path_query url)))
    \<and> (c = ZUH_OK \<longrightarrow> (method, url) \<notin> set visits
         \<and> list_all2 (\<lambda>k (m, u). k = visit_key m u) (tr_seen t') (visits @ [(method, url)]))
    \<and> c \<in> {ZUH_OK, ZUH_ERR_REDIRECT, ZUH_ERR_NOMEM}"
proof -
  have seen: "tr_seen t = map (\<lambda>(m, u). visit_key m u) visits"
    using trail by (simp add: list_all2_conv_all_nth list_eq_iff_nth_eq case_prod_beta)
  have nul: "c_string (visit_key m u) = visit_key m u" if "(m, u) \<in> set ((method, url) # visits)" for m u
  proof (rule c_string_id)
    have "uri_clean u" "NUL \<notin> set m" using visits that by auto
    then show "NUL \<notin> set (visit_key m u)"
      using origin_string_clean(2) [of u] by (simp add: visit_key_def uri_clean_def SP_def NUL_def)
  qed
  have key: "key = visit_key method url" if "trail_key method url h = (Some key, h1)" for key h1
    using trail_key_text [OF _ _ that] visits by simp
  have mem: "list_ex (\<lambda>k. c_string k = c_string (visit_key method url)) (tr_seen t)
      \<longleftrightarrow> (\<exists>(m, u) \<in> set visits. visit_key m u = visit_key method url)"
    using nul by (force simp: seen list_ex_iff)
  have same: "visit_key m u = visit_key method url \<longleftrightarrow> m = method \<and>
      (u_scheme u, u_host u, u_port u, u_path_query u)
        = (u_scheme url, u_host url, u_port url, u_path_query url)" if "(m, u) \<in> set visits" for m u
  proof (rule visit_key_inject)
    show "uri_normal u" "uri_normal url" "SP \<notin> set m" "SP \<notin> set method" "CHR ''/'' \<notin> set (the (u_host u))"
      "CHR ''/'' \<notin> set (the (u_host url))" "CHR '':'' \<notin> set (the (u_host u))" "CHR '':'' \<notin> set (the (u_host url))"
      using visits that by (auto simp: uri_clean_def)
  qed
  show ?thesis
    using trail_add_cases [OF run]
  proof (elim disjE conjE exE)
    fix key h1
    assume c: "c = ZUH_OK" and k: "trail_key method url h = (Some key, h1)"
      and new: "\<not> list_ex (\<lambda>k. c_string k = c_string key) (tr_seen t)" and t': "tr_seen t' = tr_seen t @ [key]"
    have "(method, url) \<notin> set visits" using new mem key [OF k] by auto
    with c t' key [OF k] trail show ?thesis by (simp add: list_all2_appendI)
  next
    fix key h1
    assume c: "c = ZUH_ERR_REDIRECT" and k: "trail_key method url h = (Some key, h1)"
      and old: "list_ex (\<lambda>k. c_string k = c_string key) (tr_seen t)"
    then show ?thesis using mem key [OF k] same by auto
  qed simp
qed

lemma uri_clean_example:
  "uri_clean (example_uri ''a'' 80 ''/'')" "uri_clean (example_uri ''::1'' 8080 ''/'')"
  "uri_clean (example_uri ''::1:8080'' 80 ''/'')"
  by (simp_all add: uri_clean_def uri_normal_def example_uri_def plain_name_def NUL_def)

lemma trail_detects_loops_witness:
  "\<exists>c t' h'. zuh_redirect_trail_add zuh_redirect_trail_init ''GET'' (example_uri ''a'' 80 ''/'') fresh_heap = (c, t', h')
    \<and> c \<noteq> ZUH_ERR_REDIRECT"
proof -
  obtain c t' h' where run: "zuh_redirect_trail_add zuh_redirect_trail_init ''GET'' (example_uri ''a'' 80 ''/'') fresh_heap
      = (c, t', h')" by (rule prod_cases3)
  show ?thesis
    using trail_detects_loops [OF _ _ run, of "[]"] run uri_clean_example
    by (auto simp: zuh_redirect_trail_init_def NUL_def SP_def example_uri_def)
qed

text \<open>
  For IPv6 hosts it is not: the key writes the host without its brackets, so two
  different origins have the same key, and the second visit is taken for a loop.
\<close>
lemma ipv6_origins_collide:
  "\<exists>a b. uri_clean a \<and> uri_clean b \<and> \<not> zuh_uri_same_origin a b
     \<and> fst (trail_key ''GET'' a fresh_heap) = fst (trail_key ''GET'' b fresh_heap)
     \<and> fst (trail_key ''GET'' a fresh_heap) \<noteq> None"
proof (intro exI conjI)
  let ?a = "example_uri ''::1'' 8080 ''/''" and ?b = "example_uri ''::1:8080'' 80 ''/''"
  show "uri_clean ?a" "uri_clean ?b" by (rule uri_clean_example)+
  show "\<not> zuh_uri_same_origin ?a ?b"
    by (simp add: zuh_uri_same_origin_def example_uri_def casecmp_0 literal_simps)
  have num: "show_nat 8080 = ''8080''" by (simp add: show_nat.simps digit_char_def) code_simp
  have "visit_key ''GET'' ?a = ''GET http://::1:8080/''" "visit_key ''GET'' ?b = ''GET http://::1:8080/''"
    by (simp_all add: visit_key_def origin_text_def example_uri_def num SP_def)
  moreover have "fst (trail_key ''GET'' u fresh_heap) = Some (visit_key ''GET'' u)" if "u \<in> {?a, ?b}" for u
    by (rule trail_key_plenty)
      (use that uri_clean_example in \<open>auto simp: NUL_def visit_key_def origin_text_def example_uri_def num\<close>)
  ultimately show "fst (trail_key ''GET'' ?a fresh_heap) = fst (trail_key ''GET'' ?b fresh_heap)"
    "fst (trail_key ''GET'' ?a fresh_heap) \<noteq> None" by simp_all
qed

end
