(* ===== verification/Zuh_Request.thy ===== *)
theory Zuh_Request
  imports Zuh_Headers
begin

text \<open>
  \<^verbatim>\<open>src/zuh_request.c\<close>: the HTTP/1.1 request head. The strings a request borrows are their
  C strings; a NULL method or target behaves as the empty, invalid one; \<open>rq_host\<close> is \<open>None\<close>
  for NULL.
\<close>

section \<open>The request\<close>

datatype zuh_target_form = ZUH_TARGET_ORIGIN | ZUH_TARGET_ABSOLUTE | ZUH_TARGET_AUTHORITY

datatype zuh_body_framing = ZUH_BODY_NONE | ZUH_BODY_LENGTH | ZUH_BODY_CHUNKED

record zuh_request =
  rq_method :: bytes
  rq_target :: bytes
  rq_host :: "bytes option"
  rq_form :: zuh_target_form
  rq_headers :: zuh_headers
  rq_body :: zuh_body_framing
  rq_content_length :: u64
  rq_close_connection :: bool

definition zuh_request_init :: zuh_request where
  "zuh_request_init = \<lparr>rq_method = [], rq_target = [], rq_host = None, rq_form = ZUH_TARGET_ORIGIN,
     rq_headers = zuh_headers_init_limited 0 0 0 0, rq_body = ZUH_BODY_NONE, rq_content_length = 0,
     rq_close_connection = False\<rparr>"

definition zuh_request_free :: "zuh_request \<Rightarrow> heap \<Rightarrow> zuh_request \<times> heap" where
  "zuh_request_free r h = (case zuh_headers_free (rq_headers r) h of (hs, h') \<Rightarrow> (r\<lparr>rq_headers := hs\<rparr>, h'))"

definition zuh_method_valid :: "bytes \<Rightarrow> bool" where
  "zuh_method_valid method = zuh_header_name_valid (c_string method)"

definition target_char_ok :: "char \<Rightarrow> bool" where
  "target_char_ok c \<longleftrightarrow> \<not> (cval c \<le> 0x20 \<or> cval c = 0x7F)"

definition zuh_target_valid :: "bytes \<Rightarrow> bool" where
  "zuh_target_valid target \<longleftrightarrow> c_string target \<noteq> [] \<and> list_all target_char_ok (c_string target)"

text \<open>One default: the field is added if the list has none of that name, and a failure ends the run.\<close>

definition add_default :: "bytes \<Rightarrow> bytes option \<Rightarrow> zuh_headers \<times> heap \<Rightarrow> zuh_code \<times> zuh_headers \<times> heap" where
  "add_default name val = (\<lambda>(hs, h).
     (case val of
        None \<Rightarrow> (ZUH_OK, hs, h)
      | Some v \<Rightarrow> if \<not> zuh_headers_has hs name then zuh_headers_add_str hs name v h else (ZUH_OK, hs, h)))"

fun add_defaults_loop :: "(bytes \<times> bytes option) list \<Rightarrow> zuh_headers \<times> heap \<Rightarrow> zuh_code \<times> zuh_headers \<times> heap" where
  "add_defaults_loop [] (hs, h) = (ZUH_OK, hs, h)"
| "add_defaults_loop ((n, v) # ds) s =
     (case add_default n v s of (rc, s') \<Rightarrow> if rc \<noteq> ZUH_OK then (rc, s') else add_defaults_loop ds s')"

definition default_fields :: "zuh_request \<Rightarrow> bytes option \<Rightarrow> (bytes \<times> bytes option) list" where
  "default_fields r user_agent =
     [(''Host'', rq_host r),
      (''User-Agent'', Some (case user_agent of Some ua \<Rightarrow> ua | None \<Rightarrow> ''zuhttp'')),
      (''Accept'', Some ''*/*''),
      (''Accept-Encoding'', Some ''gzip''),
      (''Connection'', Some (if rq_close_connection r then ''close'' else ''keep-alive''))]"

definition zuh_request_add_defaults :: "zuh_request \<Rightarrow> bytes option \<Rightarrow> heap \<Rightarrow> zuh_code \<times> zuh_request \<times> heap" where
  "zuh_request_add_defaults r user_agent h =
     (case add_defaults_loop (default_fields r user_agent) (rq_headers r, h) of
        (rc, hs, h') \<Rightarrow> (rc, r\<lparr>rq_headers := hs\<rparr>, h'))"

text \<open>The appends of \<^verbatim>\<open>zuh_request_write\<close> once the checks have passed.\<close>

definition write_framing :: "zuh_request \<Rightarrow> zuh_buffer \<times> heap \<Rightarrow> bool \<times> zuh_buffer \<times> heap" where
  "write_framing r =
     (case rq_body r of
        ZUH_BODY_LENGTH \<Rightarrow>
          if \<not> zuh_headers_has (rq_headers r) ''Content-Length''
          then c_all [zuh_buf_append_str ''Content-Length: '', zuh_buf_append_u64 (rq_content_length r),
                      zuh_buf_append_str CRLF]
          else (\<lambda>s. (True, s))
      | ZUH_BODY_CHUNKED \<Rightarrow>
          if \<not> zuh_headers_has (rq_headers r) ''Transfer-Encoding''
          then zuh_buf_append_str (''Transfer-Encoding: chunked'' @ CRLF) else (\<lambda>s. (True, s))
      | ZUH_BODY_NONE \<Rightarrow> (\<lambda>s. (True, s)))"

definition write_head :: "zuh_request \<Rightarrow> zuh_buffer \<times> heap \<Rightarrow> bool \<times> zuh_buffer \<times> heap" where
  "write_head r = c_all
     [zuh_buf_append_str (rq_method r), zuh_buf_append_byte SP, zuh_buf_append_str (rq_target r),
      zuh_buf_append_str ('' HTTP/1.1'' @ CRLF), zuh_headers_write (rq_headers r), write_framing r,
      zuh_buf_append_str CRLF]"

definition zuh_request_write :: "zuh_request \<Rightarrow> zuh_buffer \<times> heap \<Rightarrow> zuh_code \<times> zuh_buffer \<times> heap" where
  "zuh_request_write r s =
     (if \<not> zuh_method_valid (rq_method r) then (ZUH_ERR_PARSE, s)
      else if \<not> zuh_target_valid (rq_target r) then (ZUH_ERR_PARSE, s)
      else if rq_form r \<noteq> ZUH_TARGET_AUTHORITY \<and> \<not> zuh_headers_has (rq_headers r) ''Host''
        then (ZUH_ERR_PARSE, s)
      else if zuh_headers_has (rq_headers r) ''Content-Length''
        \<and> zuh_headers_has (rq_headers r) ''Transfer-Encoding'' then (ZUH_ERR_PARSE, s)
      else (case write_head r s of (ok, s') \<Rightarrow> (if ok then ZUH_OK else ZUH_ERR_NOMEM, s')))"

section \<open>What is written\<close>

definition request_ok :: "zuh_request \<Rightarrow> bool" where
  "request_ok r \<longleftrightarrow> zuh_method_valid (rq_method r) \<and> zuh_target_valid (rq_target r)
     \<and> (rq_form r = ZUH_TARGET_AUTHORITY \<or> zuh_headers_has (rq_headers r) ''Host'')
     \<and> \<not> (zuh_headers_has (rq_headers r) ''Content-Length'' \<and> zuh_headers_has (rq_headers r) ''Transfer-Encoding'')"

definition framing_lines :: "zuh_request \<Rightarrow> bytes list" where
  "framing_lines r =
     (case rq_body r of
        ZUH_BODY_LENGTH \<Rightarrow>
          if \<not> zuh_headers_has (rq_headers r) ''Content-Length''
          then [''Content-Length: '' @ show_nat (unat (rq_content_length r))] else []
      | ZUH_BODY_CHUNKED \<Rightarrow>
          if \<not> zuh_headers_has (rq_headers r) ''Transfer-Encoding''
          then [''Transfer-Encoding: chunked''] else []
      | ZUH_BODY_NONE \<Rightarrow> [])"

definition field_text :: "zuh_header \<Rightarrow> bytes" where
  "field_text f = hd_name f @ '': '' @ hd_value f"

text \<open>The lines of the head, without their line breaks; the last is the empty line that ends it.\<close>

definition head_lines :: "zuh_request \<Rightarrow> bytes list" where
  "head_lines r = [c_string (rq_method r) @ SP # c_string (rq_target r) @ '' HTTP/1.1'']
     @ map field_text (hs_items (rq_headers r)) @ framing_lines r @ [[]]"

definition lines_text :: "bytes list \<Rightarrow> bytes" where
  "lines_text ls = concat (map (\<lambda>l. l @ CRLF) ls)"

lemma exact_field: "buft.exact (field_line f) (write_field f)"
proof -
  have "buft.exact (concat [hd_name f, '': '', hd_value f, CRLF]) (write_field f)"
    unfolding write_field_def by (rule buft.exact_c_all) (simp add: buft.exact_append)
  then show ?thesis by (simp add: field_line_def)
qed

lemma exact_headers: "buft.exact (concat (map field_line (hs_items hs))) (zuh_headers_write hs)"
  unfolding zuh_headers_write_def
  by (rule buft.exact_c_all) (simp add: list_all2_conv_all_nth exact_field)

lemma exact_lit: "NUL \<notin> set t \<Longrightarrow> buft.exact t (zuh_buf_append_str t)"
  using exact_str [of t] by (simp add: c_string_id)

lemma exact_u64: "buft.exact (show_nat (unat v)) (zuh_buf_append_u64 v)"
proof (cases "v = 0")
  case True
  have "show_nat 0 = [CHR ''0'']" by (simp add: show_nat.simps [of 0] digit_char_0)
  with True show ?thesis using exact_byte [of "CHR ''0''"] by (simp add: zuh_buf_append_u64_def)
next
  case False
  have "unat v < 10 ^ 20" using unsigned_less [of v, where ?'a = nat] by simp
  then have "u64_digits 20 v [] = show_nat (unat v)" using False by (simp add: u64_digits_show)
  with False show ?thesis
    using buft.exact_append [of "show_nat (unat v)"] by (simp add: zuh_buf_append_u64_def)
qed

lemma exact_framing: "buft.exact (lines_text (framing_lines r)) (write_framing r)"
proof (cases "rq_body r")
  case ZUH_BODY_NONE
  then show ?thesis by (simp add: framing_lines_def write_framing_def lines_text_def buft.exact_nothing)
next
  case ZUH_BODY_LENGTH
  have "buft.exact (concat [''Content-Length: '', show_nat (unat (rq_content_length r)), CRLF])
    (c_all [zuh_buf_append_str ''Content-Length: '', zuh_buf_append_u64 (rq_content_length r), zuh_buf_append_str CRLF])"
    by (rule buft.exact_c_all) (simp add: exact_lit exact_u64 NUL_def CR_def LF_def)
  with ZUH_BODY_LENGTH show ?thesis
    by (simp add: framing_lines_def write_framing_def lines_text_def buft.exact_nothing del: c_all.simps)
next
  case ZUH_BODY_CHUNKED
  have "buft.exact (''Transfer-Encoding: chunked'' @ CRLF) (zuh_buf_append_str (''Transfer-Encoding: chunked'' @ CRLF))"
    by (rule exact_lit) (simp add: NUL_def CR_def LF_def)
  with ZUH_BODY_CHUNKED show ?thesis
    by (simp add: framing_lines_def write_framing_def lines_text_def buft.exact_nothing)
qed

lemma field_line_text: "field_line f = field_text f @ CRLF"
  by (simp add: field_line_def field_text_def)

lemma exact_head: "buft.exact (lines_text (head_lines r)) (write_head r)"
proof -
  have "buft.exact (concat [c_string (rq_method r), [SP], c_string (rq_target r), '' HTTP/1.1'' @ CRLF,
      concat (map field_line (hs_items (rq_headers r))), lines_text (framing_lines r), CRLF]) (write_head r)"
    unfolding write_head_def
    by (rule buft.exact_c_all)
      (simp add: exact_str exact_byte exact_headers exact_framing exact_lit NUL_def CR_def LF_def)
  then show ?thesis
    by (simp add: lines_text_def head_lines_def field_line_text [abs_def] comp_def)
qed

lemma request_write_eq:
  "zuh_request_write r s =
     (if \<not> request_ok r then (ZUH_ERR_PARSE, s)
      else (case write_head r s of (ok, s') \<Rightarrow> (if ok then ZUH_OK else ZUH_ERR_NOMEM, s')))"
  by (auto simp: zuh_request_write_def request_ok_def)

lemma tchar_no_break: "is_tchar c \<Longrightarrow> c \<noteq> CR \<and> c \<noteq> LF \<and> c \<noteq> SP"
  by (auto simp: is_tchar_def CR_def LF_def SP_def)

lemma target_char_no_break: "target_char_ok c \<Longrightarrow> c \<noteq> CR \<and> c \<noteq> LF \<and> c \<noteq> SP"
  by (auto simp: target_char_ok_def)

definition no_break :: "bytes \<Rightarrow> bool" where
  "no_break l \<longleftrightarrow> CR \<notin> set l \<and> LF \<notin> set l"

lemma head_lines_no_break:
  assumes "request_ok r" "hs_inv (rq_headers r)"
  shows "list_all no_break (head_lines r)"
proof -
  have "no_break (c_string (rq_method r))" "no_break (c_string (rq_target r))"
    using assms(1) tchar_no_break target_char_no_break
    by (fastforce simp: request_ok_def zuh_method_valid_def zuh_header_name_valid_def zuh_target_valid_def
        no_break_def list_all_iff)+
  moreover have "no_break (field_text f)" if "f \<in> set (hs_items (rq_headers r))" for f
    using assms(2) that field_ok_no_break [of f]
    by (auto simp: hs_inv_def list_all_iff no_break_def field_text_def CR_def LF_def)
  moreover have "no_break (show_nat n)" for n
    using show_nat_digits [of CR n] show_nat_digits [of LF n] by (auto simp: no_break_def is_digit_def)
  ultimately show ?thesis
    by (auto simp: head_lines_def framing_lines_def no_break_def list_all_iff CR_def LF_def SP_def
        split: zuh_body_framing.splits)
qed

section \<open>Defaults\<close>

text \<open>The value of the first default that has the name, if any.\<close>

fun default_value :: "(bytes \<times> bytes option) list \<Rightarrow> bytes \<Rightarrow> bytes list" where
  "default_value [] m = []"
| "default_value ((n, v) # ds) m =
     (if v \<noteq> None \<and> lowers (c_string n) = lowers (c_string m) then [c_string (the v)] else default_value ds m)"

lemma add_default_step:
  assumes inv: "hs_ok s" and run: "add_default n v s = (rc, s')"
  shows "hs_ok s' \<and> hs_rel s s' \<and> (rc = ZUH_OK \<longrightarrow> values_of m (fst s') =
    (if values_of m (fst s) \<noteq> [] then values_of m (fst s) else default_value [(n, v)] m))"
proof (cases "v \<noteq> None \<and> \<not> zuh_headers_has (fst s) n")
  case False
  then have "s' = s" using run by (auto simp: add_default_def split: prod.splits option.splits if_splits)
  moreover have "values_of m (fst s) \<noteq> []" if "v \<noteq> None" "lowers (c_string n) = lowers (c_string m)"
    using False that values_of_cong [OF that(2), of "fst s"] by (simp add: headers_has_eq)
  ultimately show ?thesis using inv by (auto simp: hdl.rel_refl)
next
  case True
  then obtain x where x: "v = Some x" "\<not> zuh_headers_has (fst s) n" by auto
  then have a: "zuh_headers_add_str (fst s) n x (snd s) = (rc, s')"
    using run by (simp add: add_default_def prod.case_eq_if)
  have "values_of m (fst s) = []" if "lowers (c_string n) = lowers (c_string m)"
    using x(2) values_of_cong [OF that, of "fst s"] by (simp add: headers_has_eq)
  then show ?thesis
    using hdl.add_step [OF inv a] hdl.vals_add [OF inv a, of m] x(1) by (auto simp: hdl_vals)
qed

lemma add_defaults_loop_spec:
  assumes "hs_ok s" and "add_defaults_loop ds s = (rc, s')"
  shows "hs_ok s' \<and> hs_rel s s' \<and> (rc = ZUH_OK \<longrightarrow> values_of m (fst s') =
    (if values_of m (fst s) \<noteq> [] then values_of m (fst s) else default_value ds m))"
  using assms
proof (induction ds arbitrary: s)
  case Nil
  then show ?case by (cases s) (auto simp: hdl.rel_refl)
next
  case (Cons d ds)
  obtain n v where d: "d = (n, v)" by (rule prod.exhaust)
  obtain rc1 s1 where a: "add_default n v s = (rc1, s1)" by (rule prod.exhaust)
  note A = add_default_step [OF Cons.prems(1) a, of m]
  show ?case
  proof (cases "rc1 = ZUH_OK")
    case False
    with Cons.prems(2) A a d show ?thesis by simp
  next
    case True
    with Cons.prems(2) a d have r: "add_defaults_loop ds s1 = (rc, s')" by simp
    show ?thesis
      using Cons.IH [OF _ r] A True d by (auto intro: hdl.rel_trans)
  qed
qed

section \<open>Properties\<close>

text \<open>
  C35: no request can be split. Whatever the caller put into the method, the target and the
  fields, a head that \<^verbatim>\<open>zuh_request_write\<close> accepts is the request line, one line per field,
  the framing line the body needs and the empty line: no other line is empty and none
  contains a line break of its own; a refused request leaves no byte behind.
\<close>
theorem request_head_unsplittable:
  assumes "hs_inv (rq_headers r)" and "buf_inv b" and "zuh_request_write r (b, h) = (c, b', h')"
  shows "(c = ZUH_OK \<longrightarrow> buf_data b' = buf_data b @ concat (map (\<lambda>l. l @ CRLF) (head_lines r)))
    \<and> (c = ZUH_ERR_PARSE \<longleftrightarrow> \<not> request_ok r) \<and> (c = ZUH_ERR_PARSE \<longrightarrow> b' = b \<and> h' = h)
    \<and> c \<in> {ZUH_OK, ZUH_ERR_PARSE, ZUH_ERR_NOMEM}
    \<and> (request_ok r \<longrightarrow> (\<forall>l \<in> set (head_lines r). CR \<notin> set l \<and> LF \<notin> set l)
         \<and> last (head_lines r) = [] \<and> [] \<notin> set (butlast (head_lines r)))"
proof -
  obtain ok b1 h1 where w: "write_head r (b, h) = (ok, b1, h1)" by (rule prod_cases3)
  have "[] \<notin> set (butlast (head_lines r))" if "request_ok r"
    using that by (auto simp: head_lines_def butlast_append framing_lines_def field_text_def
        split: zuh_body_framing.splits if_splits)
  moreover have "last (head_lines r) = []" by (simp add: head_lines_def)
  moreover have "\<forall>l \<in> set (head_lines r). CR \<notin> set l \<and> LF \<notin> set l" if "request_ok r"
    using head_lines_no_break [OF that assms(1)] by (simp add: list_all_iff no_break_def)
  ultimately show ?thesis
    using assms(2,3) w buft.exactD(3) [OF exact_head _ w]
    by (auto simp: request_write_eq lines_text_def split: if_splits)
qed

definition example_request :: zuh_request where
  "example_request = zuh_request_init\<lparr>rq_method := ''GET'', rq_target := ''/ HTTP/1.1'' @ CRLF @ ''X: y'',
     rq_host := Some ''h'', rq_headers := example_headers\<rparr>"

lemma request_head_unsplittable_witness:
  "fst (zuh_request_write example_request (empty_buffer, fresh_heap)) = ZUH_ERR_PARSE"
proof -
  obtain c b' h' where run: "zuh_request_write example_request (empty_buffer, fresh_heap) = (c, b', h')"
    by (rule prod_cases3)
  have "\<not> target_char_ok SP" by (simp add: target_char_ok_def)
  then have "\<not> request_ok example_request"
    by (simp add: request_ok_def example_request_def zuh_target_valid_def literal_simps SP_def CR_def LF_def)
  with request_head_unsplittable [OF _ _ run] run example_headers_inv show ?thesis
    by (simp add: example_request_def)
qed

text \<open>
  The defaults complete a request without touching what the caller set: a name the
  caller used keeps its values, \<^verbatim>\<open>Host\<close> included, each of the five other names gets one
  default, every other name is left alone, and the result can be written.
\<close>
lemma request_defaults:
  assumes "hs_inv (rq_headers r)" and "zuh_request_add_defaults r ua h = (ZUH_OK, r', h')"
    and "rq_host r = Some host"
  shows "(values_of m (rq_headers r) \<noteq> [] \<longrightarrow> values_of m (rq_headers r') = values_of m (rq_headers r))
    \<and> (values_of m (rq_headers r) = [] \<longrightarrow> values_of m (rq_headers r') = default_value (default_fields r ua) m)
    \<and> zuh_headers_has (rq_headers r') ''Host''
    \<and> (zuh_headers_get (rq_headers r) ''Host'' = None \<longrightarrow>
         zuh_headers_get (rq_headers r') ''Host'' = Some (c_string host))
    \<and> (zuh_method_valid (rq_method r) \<and> zuh_target_valid (rq_target r)
         \<and> \<not> (zuh_headers_has (rq_headers r) ''Content-Length'' \<and> zuh_headers_has (rq_headers r) ''Transfer-Encoding'')
         \<longrightarrow> request_ok r')"
proof -
  obtain hs where run: "add_defaults_loop (default_fields r ua) (rq_headers r, h) = (ZUH_OK, hs, h')"
    and r': "r' = r\<lparr>rq_headers := hs\<rparr>"
    using assms(2) by (auto simp: zuh_request_add_defaults_def split: prod.splits)
  have V: "values_of m hs = (if values_of m (rq_headers r) \<noteq> [] then values_of m (rq_headers r)
      else default_value (default_fields r ua) m)" for m
    using add_defaults_loop_spec [OF _ run, of m] assms(1) by simp
  have host: "default_value (default_fields r ua) ''Host'' = [c_string host]"
    by (simp add: default_fields_def assms(3))
  have other: "default_value (default_fields r ua) ''Content-Length'' = []"
    "default_value (default_fields r ua) ''Transfer-Encoding'' = []"
    by (simp_all add: default_fields_def literal_simps)
  show ?thesis
    using V [of m] V [of "''Host''"] V [of "''Content-Length''"] V [of "''Transfer-Encoding''"] host other
    by (auto simp: r' request_ok_def headers_has_eq headers_get_eq split: list.splits if_splits)
qed

lemma request_defaults_witness:
  "\<exists>r' h'. zuh_request_add_defaults (example_request\<lparr>rq_headers := zuh_headers_init\<lparr>hs_items :=
        map (\<lambda>n. \<lparr>hd_name = n, hd_value = ''v''\<rparr>) [''user-agent'', ''accept'', ''accept-encoding'', ''connection''],
        hs_cap := 8, hs_bytes := 61\<rparr>\<rparr>) None fresh_heap = (ZUH_OK, r', h')
    \<and> zuh_headers_get (rq_headers r') ''host'' = Some ''h''"
proof -
  let ?hs = "zuh_headers_init\<lparr>hs_items :=
        map (\<lambda>n. \<lparr>hd_name = n, hd_value = ''v''\<rparr>) [''user-agent'', ''accept'', ''accept-encoding'', ''connection''],
        hs_cap := 8, hs_bytes := 61\<rparr>"
  let ?r = "example_request\<lparr>rq_headers := ?hs\<rparr>"
  note init = zuh_headers_init_def zuh_headers_init_limited_def ZUH_DEFAULT_MAX_HEADER_COUNT_def
    ZUH_DEFAULT_MAX_HEADER_NAME_def ZUH_DEFAULT_MAX_HEADER_VALUE_def ZUH_DEFAULT_MAX_HEADER_BYTES_def
  have inv: "hs_inv ?hs"
    by (simp add: hs_inv_def init field_ok_def zuh_header_name_valid_def is_tchar_def
      zuh_header_value_valid_def value_char_ok_def SIZEOF_HEADER_def SIZE_MAX_def wire_len_def
      CR_def LF_def NUL_def HTAB_def)
  have "add_refusal ?hs ''Host'' ''h'' = None"
    by (simp add: add_refusal_def init zuh_header_name_valid_def is_tchar_def
      zuh_header_value_valid_def value_char_ok_def SIZE_MAX_def CR_def LF_def NUL_def HTAB_def)
  moreover obtain c hs1 h1 where a: "zuh_headers_add_str ?hs ''Host'' ''h'' fresh_heap = (c, hs1, h1)" by (rule prod_cases3)
  ultimately have c: "c = ZUH_OK"
    using headers_add_plenty [of fresh_heap ?hs "''Host''" "''h''"]
    by (simp add: zuh_headers_add_str_def literal_simps)
  have items: "hs_items hs1 = hs_items ?hs @ [\<lparr>hd_name = ''Host'', hd_value = ''h''\<rparr>]"
    using hdl.add_step [of "(?hs, fresh_heap)" "''Host''" "''h''" c "(hs1, h1)"] a c inv by (simp add: literal_simps)
  have have_all: "zuh_headers_has hs1 n" if "n \<in> {''User-Agent'', ''Accept'', ''Accept-Encoding'', ''Connection''}" for n
    using that items by (auto simp: headers_has_eq values_of_def field_is_def literal_simps)
  have "\<not> zuh_headers_has ?hs ''Host''" by (simp add: headers_has_eq values_of_def field_is_def literal_simps)
  then have "add_defaults_loop (default_fields ?r None) (?hs, fresh_heap) = (ZUH_OK, hs1, h1)"
    using a c have_all
    by (simp add: default_fields_def add_default_def example_request_def zuh_request_init_def prod.case_eq_if)
  then have run: "zuh_request_add_defaults ?r None fresh_heap = (ZUH_OK, ?r\<lparr>rq_headers := hs1\<rparr>, h1)"
    by (simp add: zuh_request_add_defaults_def prod.case_eq_if)
  have "values_of ''host'' ?hs = []" by (simp add: values_of_def field_is_def literal_simps)
  moreover have "default_value (default_fields ?r None) ''host'' = [''h'']"
    by (simp add: default_fields_def example_request_def zuh_request_init_def literal_simps)
  ultimately have "values_of ''host'' (rq_headers (?r\<lparr>rq_headers := hs1\<rparr>)) = [''h'']"
    using request_defaults [OF _ run, of "''h''" "''host''"] inv
    by (simp add: example_request_def zuh_request_init_def)
  then have "zuh_headers_get (rq_headers (?r\<lparr>rq_headers := hs1\<rparr>)) ''host'' = Some ''h''"
    by (simp add: headers_get_eq)
  with run show ?thesis by blast
qed

end
