(* ===== verification/Zuh_Time.thy ===== *)
theory Zuh_Time
  imports Zuh_Prelude
begin

text \<open>
  \<^verbatim>\<open>src/zuh_time.c\<close>: deadlines. The monotonic clock is outside the program, so a function that
  reads it takes the value read as its argument \<open>now\<close>; milliseconds are integers, far from
  the ends of the 64-bit range they are kept in.
\<close>

section \<open>Definitions\<close>

type_synonym zuh_millis = int

record zuh_deadline =
  dl_at :: zuh_millis
  dl_infinite :: bool

definition ZUH_FOREVER :: zuh_millis where
  "ZUH_FOREVER = 0x7FFFFFFF"

definition zuh_deadline_never :: zuh_deadline where
  "zuh_deadline_never = \<lparr>dl_at = 0, dl_infinite = True\<rparr>"

definition zuh_deadline_at :: "zuh_millis \<Rightarrow> zuh_deadline" where
  "zuh_deadline_at t = \<lparr>dl_at = t, dl_infinite = False\<rparr>"

definition zuh_deadline_in :: "zuh_millis \<Rightarrow> zuh_millis \<Rightarrow> zuh_deadline" where
  "zuh_deadline_in now ms = (if ms < 0 then zuh_deadline_never else zuh_deadline_at (now + ms))"

definition zuh_deadline_remaining :: "zuh_millis \<Rightarrow> zuh_deadline \<Rightarrow> zuh_millis" where
  "zuh_deadline_remaining now d = (if dl_infinite d then ZUH_FOREVER else dl_at d - now)"

definition zuh_deadline_expired :: "zuh_millis \<Rightarrow> zuh_deadline \<Rightarrow> bool" where
  "zuh_deadline_expired now d = (if dl_infinite d then False else zuh_deadline_remaining now d \<le> 0)"

definition zuh_deadline_min :: "zuh_deadline \<Rightarrow> zuh_deadline \<Rightarrow> zuh_deadline" where
  "zuh_deadline_min a b =
     (if dl_infinite a then b else if dl_infinite b then a else if dl_at a \<le> dl_at b then a else b)"

definition zuh_deadline_phase :: "zuh_millis \<Rightarrow> zuh_deadline \<Rightarrow> zuh_millis \<Rightarrow> zuh_deadline" where
  "zuh_deadline_phase now tot phase_ms = zuh_deadline_min tot (zuh_deadline_in now phase_ms)"

definition zuh_deadline_poll_ms :: "zuh_millis \<Rightarrow> zuh_deadline \<Rightarrow> int \<Rightarrow> int" where
  "zuh_deadline_poll_ms now d tick_ms =
     (let tick_ms = (if tick_ms \<le> 0 then 100 else tick_ms);
          rem = zuh_deadline_remaining now d
      in if rem \<le> 0 then 0 else if rem > tick_ms then tick_ms else rem)"

section \<open>Properties\<close>

text \<open>
  The timeout model. Whichever deadline fires first wins: the effective deadline of a
  phase has expired exactly when the request's has, or the phase's own budget (if it has
  one) is spent; and a wait computed from it never outlasts either the deadline or one tick,
  so an interrupt is noticed within a tick, and is zero only at the deadline.
\<close>
lemma deadline_phase_and_poll:
  assumes "start \<le> now" and "0 < tick"
  shows "(zuh_deadline_expired now (zuh_deadline_phase start tot phase_ms) \<longleftrightarrow>
      zuh_deadline_expired now tot \<or> (0 \<le> phase_ms \<and> phase_ms \<le> now - start))
    \<and> 0 \<le> zuh_deadline_poll_ms now d tick \<and> zuh_deadline_poll_ms now d tick \<le> tick
    \<and> (zuh_deadline_poll_ms now d tick = 0 \<longleftrightarrow> zuh_deadline_expired now d)
    \<and> (\<not> dl_infinite d \<and> \<not> zuh_deadline_expired now d \<longrightarrow> now + zuh_deadline_poll_ms now d tick \<le> dl_at d)"
  using assms
  by (auto simp: zuh_deadline_expired_def zuh_deadline_phase_def zuh_deadline_min_def zuh_deadline_in_def
      zuh_deadline_never_def zuh_deadline_at_def zuh_deadline_remaining_def zuh_deadline_poll_ms_def
      ZUH_FOREVER_def Let_def)

lemma deadline_phase_and_poll_witness:
  "zuh_deadline_expired 150 (zuh_deadline_phase 100 (zuh_deadline_at 1000) 50)
    \<and> zuh_deadline_poll_ms 990 (zuh_deadline_at 1000) 100 \<noteq> 0"
proof
  show "zuh_deadline_expired 150 (zuh_deadline_phase 100 (zuh_deadline_at 1000) 50)"
    using deadline_phase_and_poll [of 100 150 100 "zuh_deadline_at 1000" 50 "zuh_deadline_at 1000", THEN conjunct1]
    by simp
  show "zuh_deadline_poll_ms 990 (zuh_deadline_at 1000) 100 \<noteq> 0"
    by (simp add: zuh_deadline_poll_ms_def zuh_deadline_at_def zuh_deadline_remaining_def)
qed

end
