(* ===== verification/Zuh_Stream.thy ===== *)
theory Zuh_Stream
  imports Zuh_Time Zuh_Error
begin

text \<open>
  \<^verbatim>\<open>src/zuh_stream.c\<close>: the byte stream every protocol layer is written against. A backend (TCP,
  TLS, a tunnel) is a parameter: a state and the functions of its vtable on that state. A
  hook that is missing is \<open>None\<close>. A read or write returns a byte count, 0 for an orderly
  close, or -1 with the error set.
\<close>

section \<open>The vtable\<close>

record 's zuh_stream_vtable =
  vt_read :: "('s \<Rightarrow> nat \<Rightarrow> zuh_deadline \<Rightarrow> zuh_error \<Rightarrow> int \<times> bytes \<times> 's \<times> zuh_error) option"
  vt_write :: "('s \<Rightarrow> bytes \<Rightarrow> zuh_deadline \<Rightarrow> zuh_error \<Rightarrow> int \<times> 's \<times> zuh_error) option"
  vt_close :: "('s \<Rightarrow> 's) option"
  vt_destroy :: "('s \<Rightarrow> 's) option"
  vt_readable :: "('s \<Rightarrow> int \<Rightarrow> int) option"
  vt_name :: "bytes option"

definition ZUH_SSIZE_MAX :: nat where
  "ZUH_SSIZE_MAX = 9223372036854775807"

definition zuh_stream_read ::
    "'s zuh_stream_vtable \<Rightarrow> 's \<Rightarrow> nat \<Rightarrow> zuh_deadline \<Rightarrow> zuh_error \<Rightarrow> int \<times> bytes \<times> 's \<times> zuh_error" where
  "zuh_stream_read vt s n d err =
     (case vt_read vt of
        None \<Rightarrow> (-1, [], s, zuh_error_set err ZUH_ERR_IO ZUH_PHASE_READ ''stream is not readable'')
      | Some f \<Rightarrow> f s (if n > ZUH_SSIZE_MAX then ZUH_SSIZE_MAX else n) d err)"

definition zuh_stream_write ::
    "'s zuh_stream_vtable \<Rightarrow> 's \<Rightarrow> bytes \<Rightarrow> zuh_deadline \<Rightarrow> zuh_error \<Rightarrow> int \<times> 's \<times> zuh_error" where
  "zuh_stream_write vt s buf d err =
     (case vt_write vt of
        None \<Rightarrow> (-1, s, zuh_error_set err ZUH_ERR_IO ZUH_PHASE_WRITE ''stream is not writable'')
      | Some f \<Rightarrow> f s (if length buf > ZUH_SSIZE_MAX then take ZUH_SSIZE_MAX buf else buf) d err)"

definition zuh_stream_close :: "'s zuh_stream_vtable \<Rightarrow> 's \<Rightarrow> 's" where
  "zuh_stream_close vt s = (case vt_close vt of None \<Rightarrow> s | Some f \<Rightarrow> f s)"

definition zuh_stream_free :: "'s zuh_stream_vtable \<Rightarrow> 's \<Rightarrow> 's" where
  "zuh_stream_free vt s = (case vt_destroy vt of Some f \<Rightarrow> f s | None \<Rightarrow> zuh_stream_close vt s)"

definition zuh_stream_readable :: "'s zuh_stream_vtable \<Rightarrow> 's \<Rightarrow> int \<Rightarrow> int" where
  "zuh_stream_readable vt s timeout_ms = (case vt_readable vt of None \<Rightarrow> -1 | Some f \<Rightarrow> f s timeout_ms)"

definition zuh_stream_name :: "'s zuh_stream_vtable \<Rightarrow> bytes" where
  "zuh_stream_name vt = (case vt_name vt of None \<Rightarrow> ''unknown'' | Some n \<Rightarrow> n)"

text \<open>
  The loop of \<^verbatim>\<open>zuh_stream_write_all\<close> at offset \<open>off\<close>; \<open>clock s\<close> is what the monotonic clock
  shows in state \<open>s\<close>. A backend that always asks to retry keeps it going, so its result is
  an option, \<open>None\<close> for a call that does not return.
\<close>

partial_function (option) write_all_loop ::
    "'s zuh_stream_vtable \<Rightarrow> ('s \<Rightarrow> zuh_millis) \<Rightarrow> bytes \<Rightarrow> zuh_deadline \<Rightarrow> nat \<Rightarrow> 's \<Rightarrow> zuh_error
     \<Rightarrow> (bool \<times> 's \<times> zuh_error) option" where
  "write_all_loop vt clock buf d off s err =
     (if \<not> off < length buf then Some (True, s, err)
      else if zuh_deadline_expired (clock s) d then
        Some (False, s, zuh_error_set err ZUH_ERR_TIMEOUT ZUH_PHASE_WRITE ''write deadline exceeded'')
      else (case zuh_stream_write vt s (drop off buf) d err of (w, s', err') \<Rightarrow>
        if w > 0 then write_all_loop vt clock buf d (off + nat w) s' err'
        else if w = 0 then
          Some (False, s', zuh_error_set err' ZUH_ERR_CLOSED ZUH_PHASE_WRITE ''connection closed while writing'')
        else if err_code err' = ZUH_ERR_WOULDBLOCK then
          write_all_loop vt clock buf d off s' (zuh_error_clear err')
        else Some (False, s', err')))"

definition zuh_stream_write_all ::
    "'s zuh_stream_vtable \<Rightarrow> ('s \<Rightarrow> zuh_millis) \<Rightarrow> 's \<Rightarrow> bytes \<Rightarrow> zuh_deadline \<Rightarrow> zuh_error
     \<Rightarrow> (bool \<times> 's \<times> zuh_error) option" where
  "zuh_stream_write_all vt clock s buf d err = write_all_loop vt clock buf d 0 s err"

section \<open>What a backend promises\<close>

text \<open>
  \<open>sent s\<close> is everything the backend has put on the wire in state \<open>s\<close>. A write sends the
  prefix it reports, or nothing; a write that would block lets time pass; time never goes
  back.
\<close>

definition writes_prefix ::
    "'s zuh_stream_vtable \<Rightarrow> ('s \<Rightarrow> bytes) \<Rightarrow> bool" where
  "writes_prefix vt sent \<longleftrightarrow> (\<forall>s buf d err w s' err'. zuh_stream_write vt s buf d err = (w, s', err') \<longrightarrow>
     w \<le> int (length buf) \<and> sent s' = sent s @ take (nat w) buf)"

definition time_passes :: "'s zuh_stream_vtable \<Rightarrow> ('s \<Rightarrow> zuh_millis) \<Rightarrow> bool" where
  "time_passes vt clock \<longleftrightarrow> (\<forall>s buf d err w s' err'. zuh_stream_write vt s buf d err = (w, s', err') \<longrightarrow>
     clock s \<le> clock s' \<and> (w < 0 \<and> err_code err' = ZUH_ERR_WOULDBLOCK \<longrightarrow> clock s < clock s'))"

lemma write_all_loop_sent:
  assumes run: "write_all_loop vt clock buf d off s err = Some r"
    and "writes_prefix vt sent" and "off \<le> length buf"
  shows "\<exists>n. off \<le> n \<and> n \<le> length buf \<and> sent (fst (snd r)) = sent s @ drop off (take n buf)
    \<and> (fst r \<longrightarrow> n = length buf)"
  using assms(2,3)
proof (induction rule: write_all_loop.raw_induct [OF _ run])
  case (1 loop vt clock buf d off s err r)
  obtain w s1 err1 where w: "zuh_stream_write vt s (drop off buf) d err = (w, s1, err1)" by (rule prod_cases3)
  have sent1: "w \<le> int (length buf - off)" "sent s1 = sent s @ take (nat w) (drop off buf)"
    using "1"(3) w unfolding writes_prefix_def by fastforce+
  consider "\<not> off < length buf" | "off < length buf" "zuh_deadline_expired (clock s) d"
    | "off < length buf" "\<not> zuh_deadline_expired (clock s) d" "w > 0"
    | "off < length buf" "\<not> zuh_deadline_expired (clock s) d" "w = 0"
    | "off < length buf" "\<not> zuh_deadline_expired (clock s) d" "w < 0" "err_code err1 = ZUH_ERR_WOULDBLOCK"
    | "off < length buf" "\<not> zuh_deadline_expired (clock s) d" "w < 0" "err_code err1 \<noteq> ZUH_ERR_WOULDBLOCK"
    by linarith
  then show ?case
  proof cases
    case 3
    then have "loop vt clock buf d (off + nat w) s1 err1 = Some r" using 1(2) w by simp
    have "off + nat w \<le> length buf" using sent1(1) 1(4) by linarith
    from 1(1) [OF \<open>loop _ _ _ _ (off + nat w) _ _ = _\<close> 1(3) this] obtain n where
        n: "off + nat w \<le> n" "n \<le> length buf"
          "sent (fst (snd r)) = sent s1 @ drop (off + nat w) (take n buf)" "fst r \<longrightarrow> n = length buf"
      by auto
    have "take (nat w) (drop off buf) @ drop (off + nat w) (take n buf) = drop off (take n buf)"
      using append_take_drop_id [of "nat w" "drop off (take n buf)"] n(1)
      by (simp add: drop_take add.commute)
    with n sent1(2) show ?thesis by (intro exI [of _ n]) auto
  next
    case 5
    then have "loop vt clock buf d off s1 (zuh_error_clear err1) = Some r" using 1(2) w by simp
    from 1(1) [OF this "1"(3) "1"(4)] 5 sent1(2) show ?thesis by simp
  qed (use 1(2) w sent1 "1"(4) in \<open>auto intro!: exI [of _ off]\<close>)
qed

lemma write_all_loop_returns:
  assumes vt: "writes_prefix vt sent" and time: "time_passes vt clock" and d: "\<not> dl_infinite d"
  shows "off \<le> length buf \<Longrightarrow> \<exists>r. write_all_loop vt clock buf d off s err = Some r"
proof (induction "(length buf - off, nat (dl_at d - clock s))" arbitrary: off s err
    rule: wf_induct_rule [OF wf_lex_prod [OF wf_less_than wf_less_than]])
  case 1
  obtain w s1 err1 where w: "zuh_stream_write vt s (drop off buf) d err = (w, s1, err1)" by (rule prod_cases3)
  have wle: "w \<le> int (length buf - off)" using vt w unfolding writes_prefix_def by fastforce
  have clock: "clock s \<le> clock s1" "w < 0 \<Longrightarrow> err_code err1 = ZUH_ERR_WOULDBLOCK \<Longrightarrow> clock s < clock s1"
    using time w unfolding time_passes_def by blast+
  show ?case
  proof (cases "off < length buf \<and> \<not> zuh_deadline_expired (clock s) d")
    case False
    then show ?thesis by (subst write_all_loop.simps) auto
  next
    case True
    then have left: "0 < dl_at d - clock s"
      using d by (simp add: zuh_deadline_expired_def zuh_deadline_remaining_def)
    show ?thesis
    proof (cases "w > 0")
      case True
      then have "\<exists>r. write_all_loop vt clock buf d (off + nat w) s1 err1 = Some r"
        using wle \<open>off < _ \<and> _\<close> by (intro 1) (auto simp: nat_le_iff)
      with True \<open>off < _ \<and> _\<close> w show ?thesis by (subst write_all_loop.simps) simp
    next
      case False
      show ?thesis
      proof (cases "w < 0 \<and> err_code err1 = ZUH_ERR_WOULDBLOCK")
        case True
        then have "\<exists>r. write_all_loop vt clock buf d off s1 (zuh_error_clear err1) = Some r"
          using clock(2) left 1 by (intro 1) auto
        with True False \<open>off < _ \<and> _\<close> w show ?thesis by (subst write_all_loop.simps) simp
      next
        case False
        with \<open>\<not> w > 0\<close> \<open>off < _ \<and> _\<close> w show ?thesis by (subst write_all_loop.simps) auto
      qed
    qed
  qed
qed

text \<open>
  A write lasts at most \<open>step\<close>. No write is begun once the deadline has come, so the loop ends at most that
  much later.
\<close>

definition prompt :: "'s zuh_stream_vtable \<Rightarrow> ('s \<Rightarrow> zuh_millis) \<Rightarrow> zuh_millis \<Rightarrow> bool" where
  "prompt vt clock step \<longleftrightarrow> (\<forall>s buf d err w s' err'. zuh_stream_write vt s buf d err = (w, s', err') \<longrightarrow> clock s' \<le> clock s + step)"

lemma write_all_loop_in_time:
  assumes run: "write_all_loop vt clock buf d off s err = Some r"
    and "prompt vt clock step" and "\<not> dl_infinite d"
  shows "clock (fst (snd r)) \<le> max (clock s) (dl_at d + step)"
  using assms(2,3)
proof (induction rule: write_all_loop.raw_induct [OF _ run])
  case (1 loop vt clock buf d off s err r)
  obtain w s1 err1 where w: "zuh_stream_write vt s (drop off buf) d err = (w, s1, err1)" by (rule prod_cases3)
  have lasts: "clock s1 \<le> clock s + step" using "1"(3) w unfolding prompt_def by blast
  show ?case
  proof (cases "off < length buf \<and> \<not> zuh_deadline_expired (clock s) d")
    case False
    with "1"(2) show ?thesis by (auto split: if_splits)
  next
    case True
    then have s1: "clock s1 \<le> dl_at d + step"
      using "1"(4) lasts by (simp add: zuh_deadline_expired_def zuh_deadline_remaining_def split: if_splits)
    have "clock (fst (snd r)) \<le> max (clock s1) (dl_at d + step) \<or> fst (snd r) = s1"
      using "1"(2) True w "1"(1) [OF _ "1"(3,4)] by (auto split: if_splits)
    with s1 show ?thesis by auto
  qed
qed

section \<open>Properties\<close>

text \<open>
  C39: \<^verbatim>\<open>zuh_stream_write_all\<close> over any backend that reports what it sent: it returns, when the
  deadline is finite and a write that would block lets time pass; it then ends no later than one write after the
  deadline; success means the whole buffer went out, in order and once; and after a failure what went out
  is a prefix of it.
\<close>
theorem write_all_delivers:
  assumes "writes_prefix vt sent" and "time_passes vt clock" and "prompt vt clock step" and "\<not> dl_infinite d"
  shows "\<exists>ok s' err'. zuh_stream_write_all vt clock s buf d err = Some (ok, s', err')
    \<and> clock s' \<le> max (clock s) (dl_at d + step)
    \<and> (ok \<longrightarrow> sent s' = sent s @ buf) \<and> (\<exists>p q. buf = p @ q \<and> sent s' = sent s @ p)"
proof -
  obtain ok s' err' where run: "write_all_loop vt clock buf d 0 s err = Some (ok, s', err')"
    using write_all_loop_returns [OF assms(1,2,4), of 0 buf s err] by auto
  from write_all_loop_sent [OF run assms(1)] obtain n where
    "n \<le> length buf" "sent s' = sent s @ take n buf" "ok \<longrightarrow> n = length buf" by auto
  with run write_all_loop_in_time [OF run assms(3,4)] show ?thesis
    by (auto simp: zuh_stream_write_all_def intro!: exI [of _ "take n buf"] exI [of _ "drop n buf"])
qed

text \<open>A backend that takes two bytes at a time and would block at every odd tick.\<close>

definition slow_backend :: "(bytes \<times> zuh_millis) zuh_stream_vtable" where
  "slow_backend = \<lparr>vt_read = None,
     vt_write = Some (\<lambda>s buf d err. if odd (snd s)
        then (-1, (fst s, snd s + 1), zuh_error_set err ZUH_ERR_WOULDBLOCK ZUH_PHASE_WRITE [])
        else (int (length (take 2 buf)), (fst s @ take 2 buf, snd s + 1), err)),
     vt_close = None, vt_destroy = None, vt_readable = None, vt_name = None\<rparr>"

lemma write_all_delivers_witness:
  "\<exists>ok s' err'. zuh_stream_write_all slow_backend snd ([], 0) ''hello'' (zuh_deadline_at 100) no_error = Some (ok, s', err')
    \<and> snd s' \<le> 101 \<and> (ok \<longrightarrow> fst s' = ''hello'') \<and> (\<exists>p q. ''hello'' = p @ q \<and> fst s' = p)"
proof -
  have "writes_prefix slow_backend fst"
    by (auto simp: writes_prefix_def slow_backend_def zuh_stream_write_def min_def split: if_splits)
  moreover have "time_passes slow_backend snd"
    by (auto simp: time_passes_def slow_backend_def zuh_stream_write_def split: if_splits)
  moreover have "prompt slow_backend snd 1"
    by (auto simp: prompt_def slow_backend_def zuh_stream_write_def split: if_splits)
  ultimately show ?thesis
    using write_all_delivers [of slow_backend fst snd 1 "zuh_deadline_at 100" "([], 0)" "''hello''" no_error]
    by (simp add: zuh_deadline_at_def)
qed

end
