(* ===== verification/Zuh_Trace.thy ===== *)
theory Zuh_Trace
  imports Zuh_Redact Zuh_Time Zuh_Headers
begin

text \<open>
  \<^verbatim>\<open>src/zuh_trace.c\<close>: the event log of one operation and its timings. The clock is read once
  per appended event, so an operation takes the reading as its argument \<open>now\<close>. The array of
  256 slots and its fill count are the list of the used slots.
\<close>

section \<open>Definitions\<close>

datatype zuh_event =
    ZUH_EV_REQUEST_START
  | ZUH_EV_DNS_START
  | ZUH_EV_DNS_DONE
  | ZUH_EV_CONNECT_START
  | ZUH_EV_CONNECT_DONE
  | ZUH_EV_TLS_START
  | ZUH_EV_TLS_DONE
  | ZUH_EV_REQUEST_SENT
  | ZUH_EV_HEADERS_RECEIVED
  | ZUH_EV_BODY_CHUNK
  | ZUH_EV_REDIRECT_FOLLOWED
  | ZUH_EV_CONNECTION_REUSED
  | ZUH_EV_REQUEST_DONE

fun zuh_event_name :: "zuh_event \<Rightarrow> bytes" where
  "zuh_event_name ZUH_EV_REQUEST_START = ''request.start''"
| "zuh_event_name ZUH_EV_DNS_START = ''dns.start''"
| "zuh_event_name ZUH_EV_DNS_DONE = ''dns.done''"
| "zuh_event_name ZUH_EV_CONNECT_START = ''connect.start''"
| "zuh_event_name ZUH_EV_CONNECT_DONE = ''connect.done''"
| "zuh_event_name ZUH_EV_TLS_START = ''tls.start''"
| "zuh_event_name ZUH_EV_TLS_DONE = ''tls.done''"
| "zuh_event_name ZUH_EV_REQUEST_SENT = ''request.sent''"
| "zuh_event_name ZUH_EV_HEADERS_RECEIVED = ''headers.received''"
| "zuh_event_name ZUH_EV_BODY_CHUNK = ''body.chunk''"
| "zuh_event_name ZUH_EV_REDIRECT_FOLLOWED = ''redirect.followed''"
| "zuh_event_name ZUH_EV_CONNECTION_REUSED = ''connection.reused''"
| "zuh_event_name ZUH_EV_REQUEST_DONE = ''request.done''"

record zuh_timings =
  tm_dns :: int
  tm_connect :: int
  tm_tls :: int
  tm_request_write :: int
  tm_ttfb :: int
  tm_response_read :: int
  tm_total :: int
  tm_body_bytes_wire :: u64
  tm_body_bytes_decoded :: u64

definition zuh_timings_init :: zuh_timings where
  "zuh_timings_init = \<lparr>tm_dns = -1, tm_connect = -1, tm_tls = -1, tm_request_write = -1, tm_ttfb = -1,
     tm_response_read = -1, tm_total = -1, tm_body_bytes_wire = 0, tm_body_bytes_decoded = 0\<rparr>"

definition ZUH_TRACE_MAX :: nat where
  "ZUH_TRACE_MAX = 256"

definition ZUH_TRACE_DETAIL :: nat where
  "ZUH_TRACE_DETAIL = 256"

definition ZUH_TRACE_TRUNC :: bytes where
  "ZUH_TRACE_TRUNC = ''...''"

record zuh_trace_entry =
  te_ev :: zuh_event
  te_at_ms :: int
  te_n :: u64
  te_detail :: bytes

record zuh_trace =
  tr_t0 :: zuh_millis
  tr_ev :: "zuh_trace_entry list"
  tr_dropped :: nat

definition zuh_trace_init :: "zuh_millis \<Rightarrow> zuh_trace" where
  "zuh_trace_init now = \<lparr>tr_t0 = now, tr_ev = [], tr_dropped = 0\<rparr>"

definition zuh_trace_elapsed :: "zuh_millis \<Rightarrow> zuh_trace \<Rightarrow> int" where
  "zuh_trace_elapsed now t = now - tr_t0 t"

text \<open>The loop of \<^verbatim>\<open>copy_detail\<close> that backs off from \<open>keep\<close> to a character boundary.\<close>

fun back_off :: "bytes \<Rightarrow> nat \<Rightarrow> nat" where
  "back_off src 0 = 0"
| "back_off src (Suc k) = (if cval (src ! Suc k) AND 0xC0 = 0x80 then back_off src k else Suc k)"

text \<open>What the slot of \<open>cap\<close> bytes holds after \<^verbatim>\<open>copy_detail\<close>, up to its NUL.\<close>

definition copy_detail :: "nat \<Rightarrow> bytes option \<Rightarrow> bytes" where
  "copy_detail cap src =
     (case src of
        None \<Rightarrow> []
      | Some s \<Rightarrow> let s = c_string s; n = length s; mark = length ZUH_TRACE_TRUNC in
          if n < cap then s
          else if cap \<le> mark + 1 then []
          else take (back_off s (cap - 1 - mark)) s @ ZUH_TRACE_TRUNC)"

definition zuh_trace_add :: "zuh_millis \<Rightarrow> zuh_trace \<Rightarrow> zuh_event \<Rightarrow> bytes option \<Rightarrow> u64 \<Rightarrow> zuh_trace" where
  "zuh_trace_add now t e detail n =
     (if length (tr_ev t) \<ge> ZUH_TRACE_MAX then t\<lparr>tr_dropped := tr_dropped t + 1\<rparr>
      else t\<lparr>tr_ev := tr_ev t @ [\<lparr>te_ev = e, te_at_ms = zuh_trace_elapsed now t, te_n = n,
                                  te_detail = copy_detail ZUH_TRACE_DETAIL detail\<rparr>]\<rparr>)"

definition zuh_trace_add_at ::
    "zuh_millis \<Rightarrow> zuh_trace \<Rightarrow> zuh_event \<Rightarrow> bytes option \<Rightarrow> u64 \<Rightarrow> zuh_millis \<Rightarrow> zuh_trace" where
  "zuh_trace_add_at now t e detail n at =
     (let t = zuh_trace_add now t e detail n; k = length (tr_ev t) in
      if k = 0 \<or> te_ev (tr_ev t ! (k - 1)) \<noteq> e then t
      else let ms = at - tr_t0 t;
               floor_ms = (if k \<ge> 2 then te_at_ms (tr_ev t ! (k - 2)) else 0);
               ms = (if ms < floor_ms then floor_ms else ms)
           in if ms < te_at_ms (tr_ev t ! (k - 1))
              then t\<lparr>tr_ev := (tr_ev t)[k - 1 := (tr_ev t ! (k - 1))\<lparr>te_at_ms := ms\<rparr>]\<rparr> else t)"

definition zuh_trace_add_url ::
    "zuh_millis \<Rightarrow> zuh_trace \<Rightarrow> zuh_event \<Rightarrow> zuh_redact_policy option \<Rightarrow> bytes option \<Rightarrow> u64 \<Rightarrow> heap
     \<Rightarrow> zuh_trace \<times> heap" where
  "zuh_trace_add_url now t e p url n h =
     (case url of
        None \<Rightarrow> (zuh_trace_add now t e None n, h)
      | Some u \<Rightarrow>
          let p = (case p of None \<Rightarrow> Some zuh_redact_policy_init | Some q \<Rightarrow> Some q) in
          (case zuh_buf_init 256 (64 * 1024) h of (ok, b, h) \<Rightarrow>
            if \<not> ok then (zuh_trace_add now t e (Some ZUH_REDACTED) n, h)
            else (case c_and (zuh_redact_url p (c_string u)) zuh_buf_cstr (b, h) of (ok, b, h) \<Rightarrow>
              (zuh_trace_add now t e (Some (if ok then buf_data b else ZUH_REDACTED)) n,
               snd (zuh_buf_free b h)))))"

section \<open>Truncation keeps the text valid UTF-8\<close>

lemma utf8_multi:
  assumes "\<not> cval c < 0x80" "utf8_lead (cval c) = Some (need, lo, hi)"
  shows "zuh_utf8_valid (c # rest) \<longleftrightarrow> need \<le> length rest \<and> lo \<le> cval (rest ! 0) \<and> cval (rest ! 0) \<le> hi
    \<and> (\<forall>i. 1 \<le> i \<and> i < need \<longrightarrow> 0x80 \<le> cval (rest ! i) \<and> cval (rest ! i) \<le> 0xBF)
    \<and> zuh_utf8_valid (drop need rest)"
proof -
  have "list_ex (\<lambda>k. cval (rest ! (k - 1)) < 0x80 \<or> cval (rest ! (k - 1)) > 0xBF) [2..<need + 1]
      \<longleftrightarrow> \<not> (\<forall>i. 1 \<le> i \<and> i < need \<longrightarrow> 0x80 \<le> cval (rest ! i) \<and> cval (rest ! i) \<le> 0xBF)"
    unfolding list_ex_iff
  proof (intro iffI)
    assume "\<exists>k\<in>set [2..<need + 1]. cval (rest ! (k - 1)) < 0x80 \<or> cval (rest ! (k - 1)) > 0xBF"
    then obtain k where "2 \<le> k" "k < need + 1" "cval (rest ! (k - 1)) < 0x80 \<or> cval (rest ! (k - 1)) > 0xBF"
      by auto
    then show "\<not> (\<forall>i. 1 \<le> i \<and> i < need \<longrightarrow> 0x80 \<le> cval (rest ! i) \<and> cval (rest ! i) \<le> 0xBF)"
      by (intro notI) (drule spec [of _ "k - 1"], auto)
  next
    assume "\<not> (\<forall>i. 1 \<le> i \<and> i < need \<longrightarrow> 0x80 \<le> cval (rest ! i) \<and> cval (rest ! i) \<le> 0xBF)"
    then obtain i where "1 \<le> i" "i < need" "cval (rest ! i) < 0x80 \<or> cval (rest ! i) > 0xBF"
      by (auto simp: not_le)
    then show "\<exists>k\<in>set [2..<need + 1]. cval (rest ! (k - 1)) < 0x80 \<or> cval (rest ! (k - 1)) > 0xBF"
      by (intro bexI [of _ "i + 1"]) auto
  qed
  with assms show ?thesis by (auto simp: not_less)
qed

lemma utf8_lead_need:
  assumes "utf8_lead c = Some (need, lo, hi)"
  shows "1 \<le> need" "0x80 \<le> lo" "hi \<le> 0xBF"
  using assms by (auto simp: utf8_lead_def split: if_splits)

lemma utf8_cases:
  assumes "zuh_utf8_valid (c # rest)"
  obtains "cval c < 0x80" "zuh_utf8_valid rest"
    | need lo hi where "\<not> cval c < 0x80" "utf8_lead (cval c) = Some (need, lo, hi)"
  using assms by (cases "cval c < 0x80"; cases "utf8_lead (cval c)") auto

lemma utf8_append: "zuh_utf8_valid s \<Longrightarrow> zuh_utf8_valid t \<Longrightarrow> zuh_utf8_valid (s @ t)"
proof (induction "length s" arbitrary: s rule: less_induct)
  case less
  show ?case
  proof (cases s)
    case (Cons c rest)
    from less.prems(1) [unfolded Cons] show ?thesis
    proof (cases rule: utf8_cases)
      case 1
      then have "zuh_utf8_valid (rest @ t)" using less Cons by simp
      with 1 Cons show ?thesis by simp
    next
      case (2 need lo hi)
      note v = less.prems(1) [unfolded Cons utf8_multi [OF 2]]
      have "length (drop need rest) < length s" using Cons by simp
      with less v have "zuh_utf8_valid (drop need rest @ t)" by blast
      with v utf8_lead_need(1) [OF 2(2)] show ?thesis
        unfolding Cons append_Cons utf8_multi [OF 2] by (auto simp: nth_append)
    qed
  qed (use less.prems in simp)
qed

lemma not_continuation:
  assumes "0x80 \<le> cval c" "cval c \<le> 0xBF"
  shows "cval c AND 0xC0 = 0x80"
proof -
  have all: "\<forall>n \<in> set [128..<192]. n AND (0xC0 :: nat) = 0x80" by code_simp
  have "cval c \<in> set [128..<192]" using assms by (simp only: set_upt atLeastLessThan_iff) simp
  from bspec [OF all this] show ?thesis .
qed

lemma utf8_take:
  "zuh_utf8_valid s \<Longrightarrow> k < length s \<Longrightarrow> k = 0 \<or> cval (s ! k) AND 0xC0 \<noteq> 0x80 \<Longrightarrow> zuh_utf8_valid (take k s)"
proof (induction "length s" arbitrary: s k rule: less_induct)
  case less
  show ?case
  proof (cases "k = 0 \<or> s = []")
    case False
    then obtain j c rest where k: "k = Suc j" and s: "s = c # rest" by (cases k; cases s) auto
    from less.prems(1) [unfolded s] show ?thesis
    proof (cases rule: utf8_cases)
      case 1
      then have "zuh_utf8_valid (take j rest)"
        using less(1) [of rest j] less.prems(2,3) k s by auto
      with 1 k s show ?thesis by simp
    next
      case (2 need lo hi)
      note v = less.prems(1) [unfolded s utf8_multi [OF 2]]
      note n = utf8_lead_need [OF 2(2)]
      have cont: "cval (rest ! i) AND 0xC0 = 0x80" if "i < need" for i
        using v n that by (intro not_continuation; cases "i = 0") auto
      have j: "need \<le> j" using less.prems(3) k s cont [of j] by (force simp: not_less)
      have "length (drop need rest) < length s" using s by simp
      moreover have "j - need < length (drop need rest)" using less.prems(2) k s j by simp
      moreover have "drop need rest ! (j - need) = rest ! j" using v j by simp
      ultimately have "zuh_utf8_valid (take (j - need) (drop need rest))"
        using less(1) [of "drop need rest" "j - need"] v less.prems(3) k s by simp
      moreover have "drop need (take j rest) = take (j - need) (drop need rest)" by (simp add: drop_take)
      ultimately show ?thesis
        using v n(1) j unfolding k s take_Suc_Cons utf8_multi [OF 2] by simp
    qed
  qed auto
qed

lemma back_off_le: "back_off s k \<le> k"
  by (induction k) auto

lemma back_off_boundary: "back_off s k = 0 \<or> cval (s ! back_off s k) AND 0xC0 \<noteq> 0x80"
  by (induction k) auto

lemma copy_detail_utf8:
  assumes "zuh_utf8_valid (c_string s)"
  shows "zuh_utf8_valid (copy_detail cap (Some s))"
proof -
  have "zuh_utf8_valid (take (back_off (c_string s) k) (c_string s))" if "k < length (c_string s)" for k
    using assms that back_off_le [of "c_string s" k] back_off_boundary
    by (intro utf8_take) auto
  moreover have "zuh_utf8_valid ZUH_TRACE_TRUNC" by (simp add: ZUH_TRACE_TRUNC_def)
  ultimately show ?thesis
    using assms by (auto simp: copy_detail_def Let_def ZUH_TRACE_TRUNC_def intro!: utf8_append)
qed

lemma copy_detail_fits: "0 < cap \<Longrightarrow> length (copy_detail cap src) < cap"
proof (cases src)
  case (Some s)
  show "0 < cap \<Longrightarrow> length (copy_detail cap src) < cap"
    using back_off_le [of "c_string s" "cap - 1 - length ZUH_TRACE_TRUNC"] Some
    by (auto simp: copy_detail_def Let_def ZUH_TRACE_TRUNC_def)
qed (simp add: copy_detail_def)

section \<open>A log\<close>

text \<open>The calls that append, with the clock reading of each.\<close>

datatype trace_op =
    TAdd zuh_millis zuh_event "bytes option" u64
  | TAddAt zuh_millis zuh_event "bytes option" u64 zuh_millis
  | TAddUrl zuh_millis zuh_event "zuh_redact_policy option" "bytes option" u64

fun op_now :: "trace_op \<Rightarrow> zuh_millis" where
  "op_now (TAdd now e d n) = now"
| "op_now (TAddAt now e d n at) = now"
| "op_now (TAddUrl now e p u n) = now"

fun op_event :: "trace_op \<Rightarrow> zuh_event" where
  "op_event (TAdd now e d n) = e"
| "op_event (TAddAt now e d n at) = e"
| "op_event (TAddUrl now e p u n) = e"

text \<open>What an entry of the call may show.\<close>

fun op_shows :: "trace_op \<Rightarrow> bytes option set" where
  "op_shows (TAdd now e d n) = {d}"
| "op_shows (TAddAt now e d n at) = {d}"
| "op_shows (TAddUrl now e p None n) = {None}"
| "op_shows (TAddUrl now e p (Some u) n) =
     {Some ZUH_REDACTED, Some (url_text (Some (case p of None \<Rightarrow> zuh_redact_policy_init | Some q \<Rightarrow> q)) (c_string u))}"

fun trace_step :: "trace_op \<Rightarrow> zuh_trace \<times> heap \<Rightarrow> zuh_trace \<times> heap" where
  "trace_step (TAdd now e d n) (t, h) = (zuh_trace_add now t e d n, h)"
| "trace_step (TAddAt now e d n at) (t, h) = (zuh_trace_add_at now t e d n at, h)"
| "trace_step (TAddUrl now e p u n) (t, h) = zuh_trace_add_url now t e p u n h"

text \<open>
  The log after the calls \<open>ops\<close>: one entry or one drop per call, in order, at times that
  never go back, each showing what its call may show, cut to the slot.
\<close>

definition log_of :: "trace_op list \<Rightarrow> zuh_millis \<Rightarrow> zuh_trace \<Rightarrow> bool" where
  "log_of ops now t \<longleftrightarrow>
     length (tr_ev t) = min ZUH_TRACE_MAX (length ops) \<and> tr_dropped t = length ops - ZUH_TRACE_MAX
     \<and> sorted (0 # map te_at_ms (tr_ev t) @ [now - tr_t0 t])
     \<and> list_all2 (\<lambda>en op. te_ev en = op_event op \<and> te_detail en \<in> copy_detail ZUH_TRACE_DETAIL ` op_shows op)
         (tr_ev t) (take (length (tr_ev t)) ops)"

lemma log_of_add:
  assumes "log_of ops now0 t" "now0 \<le> now" "d \<in> op_shows op" "e = op_event op"
  shows "log_of (ops @ [op]) now (zuh_trace_add now t e d n)"
proof -
  have "sorted (0 # map te_at_ms (tr_ev t) @ [now - tr_t0 t])"
    using assms(1,2) by (auto simp: log_of_def sorted_append)
  with assms show ?thesis
    by (auto simp: log_of_def zuh_trace_add_def zuh_trace_elapsed_def sorted_append list_all2_appendI)
qed

lemma list_all2_last_change:
  "list_all2 P (xs @ [x]) ys \<Longrightarrow> (\<And>y. P x y \<Longrightarrow> P x' y) \<Longrightarrow> list_all2 P (xs @ [x']) ys"
  unfolding list_all2_append1 by (auto simp: list_all2_Cons1)

lemma log_of_add_at:
  assumes "log_of ops now0 t" "now0 \<le> now" "d \<in> op_shows op" "e = op_event op"
  shows "log_of (ops @ [op]) now (zuh_trace_add_at now t e d n at)"
proof -
  define u where "u = zuh_trace_add now t e d n"
  have u: "log_of (ops @ [op]) now u" unfolding u_def using assms by (rule log_of_add)
  define k where "k = length (tr_ev u)"
  define fl where "fl = (if k \<ge> 2 then te_at_ms (tr_ev u ! (k - 2)) else 0)"
  define ms where "ms = (if at - tr_t0 u < fl then fl else at - tr_t0 u)"
  have eq: "zuh_trace_add_at now t e d n at =
      (if k = 0 \<or> te_ev (tr_ev u ! (k - 1)) \<noteq> e then u
       else if ms < te_at_ms (tr_ev u ! (k - 1))
         then u\<lparr>tr_ev := (tr_ev u)[k - 1 := (tr_ev u ! (k - 1))\<lparr>te_at_ms := ms\<rparr>]\<rparr> else u)"
    by (simp only: zuh_trace_add_at_def Let_def u_def k_def fl_def ms_def)
  show ?thesis
  proof (cases "k = 0 \<or> te_ev (tr_ev u ! (k - 1)) \<noteq> e \<or> te_at_ms (tr_ev u ! (k - 1)) \<le> ms")
    case True
    then have "zuh_trace_add_at now t e d n at = u"
      by (auto simp: eq)
    with u show ?thesis by simp
  next
    case False
    then obtain evs x where evs: "tr_ev u = evs @ [x]" by (cases "tr_ev u" rule: rev_cases) (auto simp: k_def)
    have r: "zuh_trace_add_at now t e d n at = u\<lparr>tr_ev := evs @ [x\<lparr>te_at_ms := ms\<rparr>]\<rparr>"
      unfolding eq using False by (simp add: evs k_def)
    have fl: "fl = (if evs = [] then 0 else te_at_ms (last evs))"
      by (cases evs rule: rev_cases) (auto simp: fl_def k_def evs nth_append)
    have "fl \<le> ms" by (simp add: ms_def)
    moreover have "ms < te_at_ms x" using False by (simp add: k_def evs)
    moreover have "sorted (0 # map te_at_ms evs @ [te_at_ms x, now - tr_t0 u])"
      using u by (simp add: log_of_def evs)
    ultimately have "sorted (0 # map te_at_ms evs @ [ms, now - tr_t0 u])"
      unfolding fl by (cases evs rule: rev_cases) (auto simp: sorted_append)
    with u show ?thesis
      unfolding r by (auto simp: log_of_def evs simp del: take_append elim!: list_all2_last_change)
  qed
qed

lemma buf_init_empty: "zuh_buf_init 256 65536 h = (ok, b, h1) \<Longrightarrow> buf_inv b \<and> buf_data b = []"
  using zuh_buf_init_spec [of 65536 256 h ok b h1] by (simp add: SIZE_MAX_def)

lemma add_url_shows:
  "\<exists>d \<in> op_shows (TAddUrl now e p u n). \<exists>h'. zuh_trace_add_url now t e p u n h = (zuh_trace_add now t e d n, h')"
proof (cases u)
  case (Some s)
  define q where "q = Some (case p of None \<Rightarrow> zuh_redact_policy_init | Some q \<Rightarrow> q)"
  have q: "(case p of None \<Rightarrow> Some zuh_redact_policy_init | Some q \<Rightarrow> Some q) = q"
    by (simp add: q_def split: option.split)
  obtain ok b h1 where i: "zuh_buf_init 256 65536 h = (ok, b, h1)" by (rule prod_cases3)
  note b = buf_init_empty [OF i]
  obtain ok2 b2 h2 where r: "c_and (zuh_redact_url q (c_string s)) zuh_buf_cstr (b, h1) = (ok2, b2, h2)"
    by (rule prod_cases3)
  have "buft.exact (url_text q (c_string s) @ []) (c_and (zuh_redact_url q (c_string s)) zuh_buf_cstr)"
    by (rule buft.exact_c_and [OF exact_url exact_cstr])
  from buft.exactD(3) [OF this _ r] b have "ok2 \<Longrightarrow> buf_data b2 = url_text q (c_string s)" by simp
  then show ?thesis
    using Some i r by (auto simp: zuh_trace_add_url_def q q_def)
qed (auto simp: zuh_trace_add_url_def)

lemma log_of_step:
  assumes "log_of ops now0 t" "now0 \<le> op_now op" "trace_step op (t, h) = (t', h')"
  shows "log_of (ops @ [op]) (op_now op) t'"
proof (cases op)
  case (TAddUrl now e p u n)
  with add_url_shows [of now e p u n t h] assms show ?thesis by (auto intro!: log_of_add)
qed (use assms in \<open>auto intro!: log_of_add log_of_add_at\<close>)

lemma trace_t0 [simp]: "tr_t0 (fst (trace_step op (t, h))) = tr_t0 t"
  by (cases op) (auto simp: zuh_trace_add_def zuh_trace_add_at_def zuh_trace_add_url_def Let_def
      split: option.splits prod.splits)

lemma log_of_steps:
  assumes "sorted (t0 # map op_now ops)"
  shows "log_of ops (last (t0 # map op_now ops)) (fst (fold trace_step ops (zuh_trace_init t0, h)))"
  using assms
proof (induction ops rule: rev_induct)
  case (snoc op ops)
  obtain t h1 where t: "fold trace_step ops (zuh_trace_init t0, h) = (t, h1)" by (rule prod.exhaust)
  have "log_of ops (last (t0 # map op_now ops)) t" using snoc t by (simp add: sorted_append)
  moreover have "last (t0 # map op_now ops) \<le> op_now op"
    using snoc.prems by (cases ops rule: rev_cases) (auto simp: sorted_append)
  moreover obtain t' h' where "trace_step op (t, h1) = (t', h')" by (rule prod.exhaust)
  ultimately show ?case using log_of_step t by simp
qed (simp add: log_of_def zuh_trace_init_def)

section \<open>Properties\<close>

text \<open>
  C20: the log is honest. Over any sequence of calls with a clock that does not go back:
  every call is an entry or is counted as dropped; entries stand in call order at times that
  never decrease from zero, whatever past moments were reported; and a URL enters it only
  redacted, or as the redaction marker when memory ran out.
\<close>
theorem trace_log_honest:
  assumes "sorted (t0 # map op_now ops)" and "fold trace_step ops (zuh_trace_init t0, h) = (t, h')"
  shows "length (tr_ev t) + tr_dropped t = length ops \<and> length (tr_ev t) \<le> ZUH_TRACE_MAX
    \<and> sorted (0 # map te_at_ms (tr_ev t))
    \<and> (\<forall>i < length (tr_ev t). te_ev (tr_ev t ! i) = op_event (ops ! i)
         \<and> te_detail (tr_ev t ! i) \<in> copy_detail ZUH_TRACE_DETAIL ` op_shows (ops ! i))"
proof -
  have log: "log_of ops (last (t0 # map op_now ops)) t" using log_of_steps [OF assms(1), of h] assms(2) by simp
  then have "sorted (0 # map te_at_ms (tr_ev t))" by (simp add: log_of_def sorted_append)
  with log show ?thesis
    by (auto simp: log_of_def list_all2_conv_all_nth)
qed

lemma trace_log_honest_witness:
  "\<exists>t h'. fold trace_step [TAdd 12 ZUH_EV_DNS_DONE None 0, TAddAt 30 ZUH_EV_CONNECT_DONE None 0 5]
      (zuh_trace_init 10, fresh_heap) = (t, h') \<and> length (tr_ev t) + tr_dropped t = 2 \<and> sorted (0 # map te_at_ms (tr_ev t))"
proof -
  let ?ops = "[TAdd 12 ZUH_EV_DNS_DONE None 0, TAddAt 30 ZUH_EV_CONNECT_DONE None 0 5]"
  obtain t h' where run: "fold trace_step ?ops (zuh_trace_init 10, fresh_heap) = (t, h')" by (rule prod.exhaust)
  from trace_log_honest [OF _ run] run show ?thesis by auto
qed

text \<open>
  A detail never outgrows its slot, and cutting it keeps it valid UTF-8: the cut backs
  off to a character boundary before the mark is put.
\<close>
lemma trace_detail_utf8:
  assumes "zuh_utf8_valid (c_string s)"
  shows "zuh_utf8_valid (copy_detail ZUH_TRACE_DETAIL (Some s))
    \<and> length (copy_detail ZUH_TRACE_DETAIL (Some s)) < ZUH_TRACE_DETAIL
    \<and> (copy_detail ZUH_TRACE_DETAIL (Some s) = c_string s
       \<or> (\<exists>k. copy_detail ZUH_TRACE_DETAIL (Some s) = take k (c_string s) @ ''...''))"
  using copy_detail_utf8 [OF assms, of ZUH_TRACE_DETAIL] copy_detail_fits [of ZUH_TRACE_DETAIL "Some s"]
  by (auto simp: ZUH_TRACE_DETAIL_def) (auto simp: copy_detail_def Let_def ZUH_TRACE_TRUNC_def)

lemma trace_detail_utf8_witness:
  "length (copy_detail ZUH_TRACE_DETAIL (Some (replicate 300 (CHR ''x'')))) < ZUH_TRACE_DETAIL"
proof -
  have "zuh_utf8_valid (replicate n (CHR ''x''))" for n by (induction n) auto
  moreover have "c_string (replicate n (CHR ''x'')) = replicate n (CHR ''x'')" for n
    by (rule c_string_id) (simp add: NUL_def)
  ultimately show ?thesis using trace_detail_utf8 [of "replicate 300 (CHR ''x'')"] by simp
qed

text \<open>
  When the log is full, the check by which \<^verbatim>\<open>zuh_trace_add_at\<close> means to notice the drop looks
  at the kind of the last entry; if that is the same kind, the time of an older event is
  overwritten.
\<close>

lemma full_log_rewrites_time:
  assumes "length (tr_ev t) = ZUH_TRACE_MAX" "te_ev (last (tr_ev t)) = e"
    and "te_at_ms (tr_ev t ! 254) \<le> at - tr_t0 t" "at - tr_t0 t < te_at_ms (last (tr_ev t))"
  shows "te_at_ms (last (tr_ev (zuh_trace_add_at now t e d n at))) = at - tr_t0 t
    \<and> tr_dropped (zuh_trace_add_at now t e d n at) = tr_dropped t + 1"
proof -
  have "tr_ev t \<noteq> []" using assms(1) by (auto simp: ZUH_TRACE_MAX_def)
  then have "last (tr_ev t) = tr_ev t ! 255" using assms(1) by (simp add: last_conv_nth ZUH_TRACE_MAX_def)
  with assms \<open>tr_ev t \<noteq> []\<close> show ?thesis
    by (simp add: zuh_trace_add_at_def zuh_trace_add_def Let_def ZUH_TRACE_MAX_def last_conv_nth)
qed

end
