(* ===== verification/Zuh_Lists.thy ===== *)
theory Zuh_Lists
  imports Zuh_Framing
begin

text \<open>
  Comma-separated lists, as \<^verbatim>\<open>Connection\<close> fields and \<^verbatim>\<open>NO_PROXY\<close> carry them: the elements,
  and how a scan that skips blanks and commas, takes up to the next comma and trims meets
  exactly the trimmed elements.
\<close>

fun list_elements :: "bytes \<Rightarrow> bytes list" where
  "list_elements [] = [[]]"
| "list_elements (c # cs) =
     (if c = CHR '','' then [] # list_elements cs
      else (case list_elements cs of e # es \<Rightarrow> (c # e) # es | [] \<Rightarrow> [[c]]))"

definition list_any :: "(bytes \<Rightarrow> bool) \<Rightarrow> bytes \<Rightarrow> bool" where
  "list_any Q v \<longleftrightarrow> (\<exists>el \<in> set (list_elements v). Q (zuh_trim_ows el))"

definition list_sep :: "char \<Rightarrow> bool" where
  "list_sep c \<longleftrightarrow> is_ows c \<or> c = CHR '',''"

definition trim_right :: "bytes \<Rightarrow> bytes" where
  "trim_right el = rev (dropWhile is_ows (rev el))"

lemma trim_Nil [simp]: "zuh_trim_ows [] = []" "trim_right [] = []"
  by (simp_all add: zuh_trim_ows_def trim_right_def)

lemma list_elements_cut:
  "list_elements v = takeWhile (\<lambda>c. c \<noteq> CHR '','') v #
     (case dropWhile (\<lambda>c. c \<noteq> CHR '','') v of [] \<Rightarrow> [] | c # r \<Rightarrow> list_elements r)"
  by (induction v) auto

lemma list_any_skip:
  assumes "\<not> Q []" "list_sep c"
  shows "list_any Q (c # cs) = list_any Q cs"
proof (cases "c = CHR '',''")
  case False
  with assms(2) have "zuh_trim_ows (c # e) = zuh_trim_ows e" for e by (simp add: zuh_trim_ows_def list_sep_def)
  with False show ?thesis by (auto simp: list_any_def list_elements_cut [of cs])
qed (use assms(1) in \<open>auto simp: list_any_def\<close>)

lemma list_any_skips: "\<not> Q [] \<Longrightarrow> list_any Q (dropWhile list_sep v) = list_any Q v"
  by (induction v) (auto simp: list_any_skip)

lemma list_any_step:
  assumes "\<not> Q []"
  shows "list_any Q v \<longleftrightarrow> (case dropWhile list_sep v of [] \<Rightarrow> False
    | c # cs \<Rightarrow> Q (trim_right (takeWhile (\<lambda>c. c \<noteq> CHR '','') (c # cs)))
        \<or> list_any Q (dropWhile (\<lambda>c. c \<noteq> CHR '','') (c # cs)))"
proof (cases "dropWhile list_sep v")
  case Nil
  have "list_any Q v = list_any Q []" using list_any_skips [of Q v, OF assms] unfolding Nil by (rule sym)
  with Nil assms show ?thesis by (simp only: Nil list.case) (simp add: list_any_def)
next
  case (Cons c cs)
  have c: "\<not> list_sep c" using hd_dropWhile [of list_sep v] Cons by auto
  define el where "el = takeWhile (\<lambda>c. c \<noteq> CHR '','') (c # cs)"
  define rest where "rest = dropWhile (\<lambda>c. c \<noteq> CHR '','') (c # cs)"
  have cut: "list_elements (c # cs) = el # (case rest of [] \<Rightarrow> [] | d # r \<Rightarrow> list_elements r)"
    unfolding el_def rest_def by (rule list_elements_cut)
  have trim: "zuh_trim_ows el = trim_right el"
    using c by (simp add: zuh_trim_ows_def trim_right_def el_def list_sep_def)
  have "list_any Q (c # cs) \<longleftrightarrow> Q (trim_right el) \<or> list_any Q rest"
  proof (cases rest)
    case Nil
    then show ?thesis using assms by (simp add: list_any_def cut trim del: list_elements.simps(2))
  next
    case (Cons d r)
    have "d = CHR '',''" using hd_dropWhile [of "\<lambda>c. c \<noteq> CHR '',''" "c # cs"] Cons by (auto simp: rest_def)
    then have "list_any Q rest = list_any Q r" using Cons assms by (simp add: list_any_skip list_sep_def)
    then show ?thesis using Cons by (simp add: list_any_def cut trim del: list_elements.simps(2))
  qed
  with list_any_skips [of Q v, OF assms] Cons show ?thesis by (simp add: el_def rest_def)
qed

text \<open>The scan goes on: what is left after an element is shorter.\<close>

lemma list_scan_shrinks: "dropWhile list_sep v = c # cs \<Longrightarrow> length (dropWhile (\<lambda>c. c \<noteq> CHR '','') (c # cs)) < length v"
proof -
  assume a: "dropWhile list_sep v = c # cs"
  then have "\<not> list_sep c" using hd_dropWhile [of list_sep v] by auto
  then have "dropWhile (\<lambda>c. c \<noteq> CHR '','') (c # cs) = dropWhile (\<lambda>c. c \<noteq> CHR '','') cs" by (simp add: list_sep_def)
  moreover have "length (dropWhile (\<lambda>c. c \<noteq> CHR '','') cs) \<le> length cs" by (rule length_dropWhile_le)
  moreover have "length cs < length (dropWhile list_sep v)" by (simp add: a)
  moreover have "length (dropWhile list_sep v) \<le> length v" by (rule length_dropWhile_le)
  ultimately show ?thesis by simp
qed

end
