(* ===== verification/Zuh_Pool.thy ===== *)
theory Zuh_Pool
  imports Zuh_Lists Zuh_Time Zuh_Alloc "HOL-Library.Multiset"
begin

text \<open>
  \<^verbatim>\<open>src/zuh_pool.c\<close> and \<^verbatim>\<open>src/zuh_fork.c\<close>: the pool of idle connections and the fork guard.

  A connection is a pointer the pool does not look into: an element of a type \<open>'i\<close>. What the
  pool learns from outside (clock, process id, the probes of a connection) comes from an
  environment, a record of functions on a world state \<open>'w\<close>; a PING may run finalizers that
  release connections into the same pool, so it also answers which releases those are. The
  calls the pool makes on connections, and its taking and giving of ownership, are recorded
  in order in a log.
\<close>

section \<open>The fork guard\<close>

record zuh_fork_guard =
  fg_owner_pid :: int
  fg_armed :: bool

definition zuh_fork_guard_arm :: "int \<Rightarrow> zuh_fork_guard" where
  "zuh_fork_guard_arm pid = \<lparr>fg_owner_pid = pid, fg_armed = True\<rparr>"

definition zuh_fork_guard_tripped :: "int \<Rightarrow> zuh_fork_guard \<Rightarrow> bool" where
  "zuh_fork_guard_tripped pid g = (if \<not> fg_armed g then False else fg_owner_pid g \<noteq> pid)"

section \<open>The key\<close>

record zuh_pool_key =
  pk_scheme :: "bytes option"
  pk_host :: "bytes option"
  pk_port :: "16 word"
  pk_proxy :: "bytes option"
  pk_verify_peer :: int
  pk_verify_hostname :: int
  pk_revocation :: int
  pk_min_version :: int
  pk_alpn :: "bytes option"
  pk_http2 :: int
  pk_ca_file :: "bytes option"
  pk_ca_extra_file :: "bytes option"
  pk_ca_data_id :: "bytes option"
  pk_pins :: "bytes option"
  pk_client_cert :: "bytes option"

definition dup_or_null :: "bytes option \<Rightarrow> heap \<Rightarrow> bytes option \<times> heap" where
  "dup_or_null s h =
     (case s of
        None \<Rightarrow> (None, h)
      | Some t \<Rightarrow> (case zuh_alloc (length t + 1) h of (ok, h) \<Rightarrow> (if ok then Some t else None, h)))"

definition str_eq :: "bytes option \<Rightarrow> bytes option \<Rightarrow> bool" where
  "str_eq a b = (case (a, b) of (None, None) \<Rightarrow> True | (Some x, Some y) \<Rightarrow> x = y | _ \<Rightarrow> False)"

definition str_eq_ci :: "bytes option \<Rightarrow> bytes option \<Rightarrow> bool" where
  "str_eq_ci a b = (case (a, b) of (None, None) \<Rightarrow> True | (Some x, Some y) \<Rightarrow> zuh_ascii_casecmp x y = 0 | _ \<Rightarrow> False)"

definition zuh_pool_key_init :: zuh_pool_key where
  "zuh_pool_key_init = \<lparr>pk_scheme = None, pk_host = None, pk_port = 0, pk_proxy = None, pk_verify_peer = 1,
     pk_verify_hostname = 1, pk_revocation = 0, pk_min_version = 0, pk_alpn = None, pk_http2 = 0,
     pk_ca_file = None, pk_ca_extra_file = None, pk_ca_data_id = None, pk_pins = None, pk_client_cert = None\<rparr>"

text \<open>The string fields, in the order they are copied and freed.\<close>

definition key_strs :: "zuh_pool_key \<Rightarrow> bytes option list" where
  "key_strs k = [pk_scheme k, pk_host k, pk_proxy k, pk_alpn k, pk_ca_file k, pk_ca_extra_file k,
     pk_ca_data_id k, pk_pins k, pk_client_cert k]"

fun free_strs :: "bytes option list \<Rightarrow> heap \<Rightarrow> heap" where
  "free_strs [] h = h"
| "free_strs (s # ss) h = free_strs ss (zuh_free (map_option (\<lambda>t. length t + 1) s) h)"

definition zuh_pool_key_free :: "zuh_pool_key \<Rightarrow> heap \<Rightarrow> heap" where
  "zuh_pool_key_free k h = free_strs (key_strs k) h"

text \<open>
  The nine \<^verbatim>\<open>COPY_STR\<close> steps; \<open>done\<close> is the copy so far. A failed one frees what was copied.
\<close>

fun copy_strs :: "(bytes option \<times> (bytes option \<Rightarrow> zuh_pool_key \<Rightarrow> zuh_pool_key)) list \<Rightarrow> zuh_pool_key \<Rightarrow> heap
    \<Rightarrow> zuh_pool_key option \<times> heap" where
  "copy_strs [] dst h = (Some dst, h)"
| "copy_strs ((s, put) # rest) dst h =
     (if s = None then copy_strs rest dst h
      else (case dup_or_null s h of (d, h) \<Rightarrow>
        if d = None then (None, zuh_pool_key_free dst h) else copy_strs rest (put d dst) h))"

definition zuh_pool_key_copy :: "zuh_pool_key \<Rightarrow> heap \<Rightarrow> zuh_pool_key option \<times> heap" where
  "zuh_pool_key_copy src h =
     copy_strs
       [(pk_scheme src, \<lambda>s. pk_scheme_update (\<lambda>_. s)),
        (pk_host src, \<lambda>s. pk_host_update (\<lambda>_. s)),
        (pk_proxy src, \<lambda>s. pk_proxy_update (\<lambda>_. s)),
        (pk_alpn src, \<lambda>s. pk_alpn_update (\<lambda>_. s)),
        (pk_ca_file src, \<lambda>s. pk_ca_file_update (\<lambda>_. s)),
        (pk_ca_extra_file src, \<lambda>s. pk_ca_extra_file_update (\<lambda>_. s)),
        (pk_ca_data_id src, \<lambda>s. pk_ca_data_id_update (\<lambda>_. s)),
        (pk_pins src, \<lambda>s. pk_pins_update (\<lambda>_. s)),
        (pk_client_cert src, \<lambda>s. pk_client_cert_update (\<lambda>_. s))]
       (zuh_pool_key_init\<lparr>pk_port := pk_port src, pk_verify_peer := pk_verify_peer src,
          pk_verify_hostname := pk_verify_hostname src, pk_revocation := pk_revocation src,
          pk_min_version := pk_min_version src, pk_http2 := pk_http2 src\<rparr>) h"

definition zuh_pool_key_eq :: "zuh_pool_key \<Rightarrow> zuh_pool_key \<Rightarrow> bool" where
  "zuh_pool_key_eq a b \<longleftrightarrow>
     pk_port a = pk_port b
     \<and> pk_verify_peer a = pk_verify_peer b
     \<and> pk_verify_hostname a = pk_verify_hostname b
     \<and> pk_revocation a = pk_revocation b
     \<and> pk_min_version a = pk_min_version b
     \<and> pk_http2 a = pk_http2 b
     \<and> str_eq_ci (pk_scheme a) (pk_scheme b)
     \<and> str_eq_ci (pk_host a) (pk_host b)
     \<and> str_eq (pk_proxy a) (pk_proxy b)
     \<and> str_eq (pk_alpn a) (pk_alpn b)
     \<and> str_eq (pk_ca_file a) (pk_ca_file b)
     \<and> str_eq (pk_ca_extra_file a) (pk_ca_extra_file b)
     \<and> str_eq (pk_ca_data_id a) (pk_ca_data_id b)
     \<and> str_eq (pk_pins a) (pk_pins b)
     \<and> str_eq (pk_client_cert a) (pk_client_cert b)"

section \<open>Reasons\<close>

datatype zuh_reuse =
    ZUH_REUSE_OK
  | ZUH_NOREUSE_BODY_INCOMPLETE
  | ZUH_NOREUSE_CANCELLED
  | ZUH_NOREUSE_FRAMING
  | ZUH_NOREUSE_CLOSE_FRAMED
  | ZUH_NOREUSE_CONNECTION_CLOSE
  | ZUH_NOREUSE_REDIRECT_BODY
  | ZUH_NOREUSE_TLS_ERROR

fun zuh_reuse_name :: "zuh_reuse \<Rightarrow> bytes" where
  "zuh_reuse_name ZUH_REUSE_OK = ''ok''"
| "zuh_reuse_name ZUH_NOREUSE_BODY_INCOMPLETE = ''body_incomplete''"
| "zuh_reuse_name ZUH_NOREUSE_CANCELLED = ''cancelled''"
| "zuh_reuse_name ZUH_NOREUSE_FRAMING = ''framing''"
| "zuh_reuse_name ZUH_NOREUSE_CLOSE_FRAMED = ''close_framed''"
| "zuh_reuse_name ZUH_NOREUSE_CONNECTION_CLOSE = ''connection_close''"
| "zuh_reuse_name ZUH_NOREUSE_REDIRECT_BODY = ''redirect_body''"
| "zuh_reuse_name ZUH_NOREUSE_TLS_ERROR = ''tls_error''"

text \<open>
  \<^verbatim>\<open>header_has_token\<close>, from the cursor \<open>v\<close>; the value and the token are NUL-free. The
  comparison of equal lengths folds the case of A to Z on both sides.
\<close>

function header_has_token :: "bytes \<Rightarrow> bytes \<Rightarrow> bool" where
  "header_has_token v tok =
     (case dropWhile list_sep v of
        [] \<Rightarrow> False
      | c # cs \<Rightarrow>
          let el = trim_right (takeWhile (\<lambda>c. c \<noteq> CHR '','') (c # cs)) in
          if length el = length tok \<and> map lower el = map lower tok then True
          else header_has_token (dropWhile (\<lambda>c. c \<noteq> CHR '','') (c # cs)) tok)"
  by pat_completeness auto

termination
  by (relation "measure (\<lambda>(v, tok). length v)") (auto dest: list_scan_shrinks)

declare header_has_token.simps [simp del]

definition connection_has :: "zuh_headers \<Rightarrow> bytes \<Rightarrow> bool" where
  "connection_has h tok =
     list_ex (\<lambda>i. case zuh_headers_get_at h ''Connection'' i of None \<Rightarrow> False | Some v \<Rightarrow> header_has_token v tok)
       [0..<zuh_headers_count h ''Connection'']"

definition zuh_reuse_decide :: "zuh_code \<Rightarrow> zuh_framing \<Rightarrow> zuh_headers \<Rightarrow> int \<Rightarrow> zuh_reuse" where
  "zuh_reuse_decide rc fr resp_headers minor_version =
     (if rc \<noteq> ZUH_OK then
        (if rc \<in> {ZUH_ERR_TIMEOUT, ZUH_ERR_CANCELLED, ZUH_ERR_INTERRUPTED} then ZUH_NOREUSE_CANCELLED
         else if rc = ZUH_ERR_PARSE then ZUH_NOREUSE_FRAMING
         else if rc \<in> {ZUH_ERR_TLS, ZUH_ERR_TLS_CERT, ZUH_ERR_TLS_HOSTNAME, ZUH_ERR_TLS_HANDSHAKE,
                       ZUH_ERR_TLS_PIN, ZUH_ERR_TLS_UNSUPPORTED} then ZUH_NOREUSE_TLS_ERROR
         else ZUH_NOREUSE_BODY_INCOMPLETE)
      else if \<not> fr_poolable fr \<or> fr_kind fr = ZUH_FRAME_UNTIL_CLOSE then ZUH_NOREUSE_CLOSE_FRAMED
      else if connection_has resp_headers ''close'' then ZUH_NOREUSE_CONNECTION_CLOSE
      else if minor_version = 0 \<and> \<not> connection_has resp_headers ''keep-alive'' then ZUH_NOREUSE_CONNECTION_CLOSE
      else ZUH_REUSE_OK)"

section \<open>The pool\<close>

record 'i pool_entry =
  pe_key :: zuh_pool_key
  pe_stream :: 'i
  pe_idle_since :: zuh_millis

text \<open>A connection is taken with a key and a reason, kept as an entry, given to a request, closed, freed.\<close>

datatype 'i pool_event =
    Took zuh_pool_key 'i zuh_reuse
  | Kept "'i pool_entry"
  | Gave zuh_pool_key 'i
  | Closed 'i
  | Freed 'i


record zuh_pool_config =
  cf_max_idle :: nat
  cf_max_per_host :: nat
  cf_idle_timeout_ms :: int
  cf_stale_probe_ms :: int
  cf_keepalive_time_ms :: int
  cf_keepalive_timeout_ms :: int

definition zuh_pool_config_init :: zuh_pool_config where
  "zuh_pool_config_init = \<lparr>cf_max_idle = 16, cf_max_per_host = 4, cf_idle_timeout_ms = 30000,
     cf_stale_probe_ms = 0, cf_keepalive_time_ms = 0, cf_keepalive_timeout_ms = 0\<rparr>"

record zuh_pool_stats =
  ps_idle :: nat
  ps_hits :: nat
  ps_misses :: nat
  ps_discarded_stale :: nat
  ps_discarded_expired :: nat
  ps_discarded_capacity :: nat
  ps_discarded_unusable :: nat
  ps_discarded_fork :: nat
  ps_forks_detected :: nat

text \<open>
  The last three fields are not the C structure's: the log, the allocator and the world.
\<close>

record ('i, 'w) zuh_pool =
  pl_entries :: "'i pool_entry list"
  pl_idle :: nat
  pl_cfg :: zuh_pool_config
  pl_guard :: zuh_fork_guard
  pl_stats :: zuh_pool_stats
  pl_now_ms :: "('w \<Rightarrow> zuh_millis) option"
  pl_log :: "'i pool_event list"
  pl_heap :: heap
  pl_world :: 'w

type_synonym 'i release_call = "zuh_pool_key \<times> 'i \<times> zuh_reuse"

record ('i, 'w) pool_env =
  en_now_ms :: "'w \<Rightarrow> zuh_millis"
  en_pid :: "'w \<Rightarrow> int"
  en_readable :: "'i \<Rightarrow> int \<Rightarrow> 'w \<Rightarrow> int \<times> 'w"
  en_h2_is :: "'i \<Rightarrow> 'w \<Rightarrow> bool"
  en_h2_idle_ms :: "'i \<Rightarrow> 'w \<Rightarrow> int"
  en_h2_ping :: "'i \<Rightarrow> zuh_deadline \<Rightarrow> 'w \<Rightarrow> bool \<times> 'i release_call list \<times> 'w"

definition POOL_SIZE :: nat where
  "POOL_SIZE = 168"

definition POOL_ENTRY_SIZE :: nat where
  "POOL_ENTRY_SIZE = 128"

definition pool_now :: "('i, 'w) pool_env \<Rightarrow> ('i, 'w) zuh_pool \<Rightarrow> zuh_millis" where
  "pool_now env p = (case pl_now_ms p of Some f \<Rightarrow> f (pl_world p) | None \<Rightarrow> en_now_ms env (pl_world p))"

definition zuh_pool_new :: "('i, 'w) pool_env \<Rightarrow> zuh_pool_config option \<Rightarrow> heap \<Rightarrow> 'w \<Rightarrow> ('i, 'w) zuh_pool option \<times> heap" where
  "zuh_pool_new env cfg h w =
     (case zuh_calloc 1 POOL_SIZE h of (ok, h) \<Rightarrow>
        (if \<not> ok then None
         else Some \<lparr>pl_entries = [], pl_idle = 0,
           pl_cfg = (case cfg of Some c \<Rightarrow> c | None \<Rightarrow> zuh_pool_config_init),
           pl_guard = zuh_fork_guard_arm (en_pid env w),
           pl_stats = \<lparr>ps_idle = 0, ps_hits = 0, ps_misses = 0, ps_discarded_stale = 0, ps_discarded_expired = 0,
             ps_discarded_capacity = 0, ps_discarded_unusable = 0, ps_discarded_fork = 0, ps_forks_detected = 0\<rparr>,
           pl_now_ms = None, pl_log = [], pl_heap = h, pl_world = w\<rparr>, h))"

definition zuh_pool_set_clock :: "('w \<Rightarrow> zuh_millis) option \<Rightarrow> ('i, 'w) zuh_pool \<Rightarrow> ('i, 'w) zuh_pool" where
  "zuh_pool_set_clock f p = p\<lparr>pl_now_ms := f\<rparr>"

definition note_event :: "'i pool_event \<Rightarrow> ('i, 'w) zuh_pool \<Rightarrow> ('i, 'w) zuh_pool" where
  "note_event ev p = p\<lparr>pl_log := pl_log p @ [ev]\<rparr>"

definition bump :: "(zuh_pool_stats \<Rightarrow> zuh_pool_stats) \<Rightarrow> ('i, 'w) zuh_pool \<Rightarrow> ('i, 'w) zuh_pool" where
  "bump f p = p\<lparr>pl_stats := f (pl_stats p)\<rparr>"

text \<open>\<^verbatim>\<open>zuh_stream_close\<close> and \<^verbatim>\<open>zuh_stream_free\<close> on a connection the pool owns.\<close>

definition close_free :: "'i \<Rightarrow> ('i, 'w) zuh_pool \<Rightarrow> ('i, 'w) zuh_pool" where
  "close_free s p = note_event (Freed s) (note_event (Closed s) p)"

definition entry_destroy :: "'i pool_entry \<Rightarrow> bool \<Rightarrow> ('i, 'w) zuh_pool \<Rightarrow> ('i, 'w) zuh_pool" where
  "entry_destroy e graceful p =
     (let p = (if graceful then note_event (Closed (pe_stream e)) p else p);
          p = note_event (Freed (pe_stream e)) p
      in p\<lparr>pl_heap := zuh_free (Some POOL_ENTRY_SIZE) (zuh_pool_key_free (pe_key e) (pl_heap p))\<rparr>)"

definition set_idle :: "zuh_pool_stats \<Rightarrow> nat \<Rightarrow> zuh_pool_stats" where
  "set_idle s n = s\<lparr>ps_idle := n\<rparr>"

definition zuh_pool_clear :: "('i, 'w) zuh_pool \<Rightarrow> ('i, 'w) zuh_pool" where
  "zuh_pool_clear p =
     (let p = fold (\<lambda>e. entry_destroy e True) (pl_entries p) p in
      bump (\<lambda>s. set_idle s 0) (p\<lparr>pl_entries := [], pl_idle := 0\<rparr>))"

definition zuh_pool_check_fork :: "('i, 'w) pool_env \<Rightarrow> ('i, 'w) zuh_pool \<Rightarrow> bool \<times> ('i, 'w) zuh_pool" where
  "zuh_pool_check_fork env p =
     (if \<not> zuh_fork_guard_tripped (en_pid env (pl_world p)) (pl_guard p) then (False, p)
      else let dropped = length (pl_entries p);
               p = fold (\<lambda>e. entry_destroy e False) (pl_entries p) p;
               p = bump (\<lambda>s. (set_idle s 0)\<lparr>ps_discarded_fork := ps_discarded_fork s + dropped,
                                ps_forks_detected := ps_forks_detected s + 1\<rparr>) (p\<lparr>pl_entries := [], pl_idle := 0\<rparr>)
           in (True, p\<lparr>pl_guard := zuh_fork_guard_arm (en_pid env (pl_world p))\<rparr>))"

definition zuh_pool_free :: "('i, 'w) pool_env \<Rightarrow> ('i, 'w) zuh_pool \<Rightarrow> ('i, 'w) zuh_pool" where
  "zuh_pool_free env p =
     (let p = (if zuh_fork_guard_tripped (en_pid env (pl_world p)) (pl_guard p)
               then snd (zuh_pool_check_fork env p) else zuh_pool_clear p)
      in p\<lparr>pl_heap := zuh_free (Some POOL_SIZE) (pl_heap p)\<rparr>)"

definition same_host :: "zuh_pool_key \<Rightarrow> 'i pool_entry \<Rightarrow> bool" where
  "same_host key e \<longleftrightarrow> pk_port (pe_key e) = pk_port key
     \<and> str_eq_ci (pk_scheme (pe_key e)) (pk_scheme key) \<and> str_eq_ci (pk_host (pe_key e)) (pk_host key)"

definition count_for_host :: "('i, 'w) zuh_pool \<Rightarrow> zuh_pool_key \<Rightarrow> nat" where
  "count_for_host p key = length (filter (same_host key) (pl_entries p))"

text \<open>The index of the last entry that matches, the \<open>victim\<close> of \<^verbatim>\<open>evict_oldest\<close>.\<close>

fun last_match :: "('a \<Rightarrow> bool) \<Rightarrow> nat \<Rightarrow> 'a list \<Rightarrow> nat option \<Rightarrow> nat option" where
  "last_match P i [] victim = victim"
| "last_match P i (e # es) victim = last_match P (i + 1) es (if P e then Some i else victim)"

definition unlink :: "nat \<Rightarrow> ('i, 'w) zuh_pool \<Rightarrow> ('i, 'w) zuh_pool" where
  "unlink i p = p\<lparr>pl_entries := take i (pl_entries p) @ drop (i + 1) (pl_entries p), pl_idle := pl_idle p - 1\<rparr>"

definition evict_oldest :: "zuh_pool_key option \<Rightarrow> ('i, 'w) zuh_pool \<Rightarrow> ('i, 'w) zuh_pool" where
  "evict_oldest host_of p =
     (case last_match (\<lambda>e. case host_of of None \<Rightarrow> True | Some key \<Rightarrow> same_host key e) 0 (pl_entries p) None of
        None \<Rightarrow> p
      | Some i \<Rightarrow>
          bump (\<lambda>s. s\<lparr>ps_discarded_capacity := ps_discarded_capacity s + 1\<rparr>)
            (entry_destroy (pl_entries p ! i) True (unlink i p)))"

text \<open>The evictions of \<^verbatim>\<open>zuh_pool_release\<close> before it links the new entry.\<close>

definition make_room :: "zuh_pool_key \<Rightarrow> ('i, 'w) zuh_pool \<Rightarrow> ('i, 'w) zuh_pool" where
  "make_room key p =
     (let p = (if cf_max_per_host (pl_cfg p) > 0 \<and> count_for_host p key \<ge> cf_max_per_host (pl_cfg p)
               then evict_oldest (Some key) p else p)
      in while (\<lambda>p. pl_idle p \<ge> cf_max_idle (pl_cfg p)) (evict_oldest None) p)"

definition zuh_pool_release ::
    "('i, 'w) pool_env \<Rightarrow> zuh_pool_key \<Rightarrow> 'i \<Rightarrow> zuh_reuse \<Rightarrow> ('i, 'w) zuh_pool \<Rightarrow> ('i, 'w) zuh_pool" where
  "zuh_pool_release env key s r p =
     (let p = snd (zuh_pool_check_fork env (note_event (Took key s r) p)) in
      if r \<noteq> ZUH_REUSE_OK then
        close_free s (bump (\<lambda>t. t\<lparr>ps_discarded_unusable := ps_discarded_unusable t + 1\<rparr>) p)
      else case en_readable env s (cf_stale_probe_ms (pl_cfg p)) (pl_world p) of (rd, w) \<Rightarrow>
      let p = p\<lparr>pl_world := w\<rparr> in
      if rd = 1 then
        close_free s (bump (\<lambda>t. t\<lparr>ps_discarded_stale := ps_discarded_stale t + 1\<rparr>) p)
      else if cf_max_idle (pl_cfg p) = 0 then
        close_free s (bump (\<lambda>t. t\<lparr>ps_discarded_capacity := ps_discarded_capacity t + 1\<rparr>) p)
      else case zuh_calloc 1 POOL_ENTRY_SIZE (pl_heap p) of (ok, h) \<Rightarrow>
        if \<not> ok then close_free s (p\<lparr>pl_heap := h\<rparr>)
        else case zuh_pool_key_copy key h of
          (None, h) \<Rightarrow> close_free s (p\<lparr>pl_heap := zuh_free (Some POOL_ENTRY_SIZE) h\<rparr>)
        | (Some k, h) \<Rightarrow>
            let e = \<lparr>pe_key = k, pe_stream = s, pe_idle_since = pool_now env p\<rparr>;
                p = note_event (Kept e) (p\<lparr>pl_heap := h\<rparr>);
                p = make_room key p;
                p = p\<lparr>pl_entries := e # pl_entries p, pl_idle := pl_idle p + 1\<rparr>
            in bump (\<lambda>t. set_idle t (pl_idle p)) p)"

text \<open>
  \<^verbatim>\<open>entry_unusable\<close>; the releases that finalizers make during a PING are run in place.
\<close>

definition entry_unusable ::
    "('i, 'w) pool_env \<Rightarrow> 'i pool_entry \<Rightarrow> zuh_millis \<Rightarrow> zuh_deadline \<Rightarrow> ('i, 'w) zuh_pool \<Rightarrow> bool \<times> ('i, 'w) zuh_pool" where
  "entry_unusable env e now dl p =
     (if cf_idle_timeout_ms (pl_cfg p) > 0 \<and> now - pe_idle_since e \<ge> cf_idle_timeout_ms (pl_cfg p) then
        (True, bump (\<lambda>t. t\<lparr>ps_discarded_expired := ps_discarded_expired t + 1\<rparr>) p)
      else case en_readable env (pe_stream e) (cf_stale_probe_ms (pl_cfg p)) (pl_world p) of (rd, w) \<Rightarrow>
      let p = p\<lparr>pl_world := w\<rparr> in
      if rd = 1 then (True, bump (\<lambda>t. t\<lparr>ps_discarded_stale := ps_discarded_stale t + 1\<rparr>) p)
      else if cf_keepalive_time_ms (pl_cfg p) > 0 \<and> en_h2_is env (pe_stream e) (pl_world p)
          \<and> en_h2_idle_ms env (pe_stream e) (pl_world p) \<ge> cf_keepalive_time_ms (pl_cfg p) then
        (case en_h2_ping env (pe_stream e)
            (zuh_deadline_min dl (zuh_deadline_in (en_now_ms env (pl_world p))
               (if cf_keepalive_timeout_ms (pl_cfg p) > 0 then cf_keepalive_timeout_ms (pl_cfg p) else 20000)))
            (pl_world p) of (alive, calls, w) \<Rightarrow>
          let p = fold (\<lambda>(k, s, r). zuh_pool_release env k s r) calls (p\<lparr>pl_world := w\<rparr>) in
          if \<not> alive then (True, bump (\<lambda>t. t\<lparr>ps_discarded_stale := ps_discarded_stale t + 1\<rparr>) p)
          else (False, p))
      else (False, p))"

text \<open>
  The scan of \<^verbatim>\<open>zuh_pool_acquire_by\<close>, with the link at index \<open>i\<close>. Finalizers that release for
  ever could keep it going, so its result is an option.
\<close>

partial_function (option) acquire_loop ::
    "('i, 'w) pool_env \<Rightarrow> zuh_pool_key \<Rightarrow> zuh_deadline \<Rightarrow> zuh_millis \<Rightarrow> nat \<Rightarrow> ('i, 'w) zuh_pool
     \<Rightarrow> ('i option \<times> ('i, 'w) zuh_pool) option" where
  "acquire_loop env key dl now i p =
     (if \<not> i < length (pl_entries p) then
        Some (None, bump (\<lambda>t. set_idle (t\<lparr>ps_misses := ps_misses t + 1\<rparr>) (pl_idle p)) p)
      else let e = pl_entries p ! i in
        if \<not> zuh_pool_key_eq (pe_key e) key then acquire_loop env key dl now (i + 1) p
        else (case entry_unusable env e now dl (unlink i p) of (bad, p) \<Rightarrow>
          if bad then acquire_loop env key dl now 0 (entry_destroy e True p)
          else let p = note_event (Gave key (pe_stream e))
                 (p\<lparr>pl_heap := zuh_free (Some POOL_ENTRY_SIZE) (zuh_pool_key_free (pe_key e) (pl_heap p))\<rparr>)
               in Some (Some (pe_stream e),
                    bump (\<lambda>t. set_idle (t\<lparr>ps_hits := ps_hits t + 1\<rparr>) (pl_idle p)) p)))"

definition zuh_pool_acquire_by ::
    "('i, 'w) pool_env \<Rightarrow> zuh_pool_key \<Rightarrow> zuh_deadline \<Rightarrow> ('i, 'w) zuh_pool \<Rightarrow> ('i option \<times> ('i, 'w) zuh_pool) option" where
  "zuh_pool_acquire_by env key dl p =
     (let p = snd (zuh_pool_check_fork env p) in acquire_loop env key dl (pool_now env p) 0 p)"

definition zuh_pool_acquire ::
    "('i, 'w) pool_env \<Rightarrow> zuh_pool_key \<Rightarrow> ('i, 'w) zuh_pool \<Rightarrow> ('i option \<times> ('i, 'w) zuh_pool) option" where
  "zuh_pool_acquire env key p = zuh_pool_acquire_by env key zuh_deadline_never p"

definition zuh_pool_stats_get :: "('i, 'w) zuh_pool \<Rightarrow> zuh_pool_stats" where
  "zuh_pool_stats_get p = set_idle (pl_stats p) (pl_idle p)"

definition zuh_pool_idle_count :: "('i, 'w) zuh_pool \<Rightarrow> nat" where
  "zuh_pool_idle_count p = pl_idle p"

definition zuh_pool_config_get :: "('i, 'w) zuh_pool \<Rightarrow> zuh_pool_config" where
  "zuh_pool_config_get p = pl_cfg p"

section \<open>What an entry owns\<close>

definition str_blocks :: "bytes option list \<Rightarrow> size_t" where
  "str_blocks ss = (\<Sum>s\<leftarrow>ss. if s = None then 0 else 1)"

definition str_bytes :: "bytes option list \<Rightarrow> size_t" where
  "str_bytes ss = (\<Sum>s\<leftarrow>ss. case s of None \<Rightarrow> 0 | Some t \<Rightarrow> of_nat (length t + 1))"

definition key_blocks :: "zuh_pool_key \<Rightarrow> size_t" where
  "key_blocks k = str_blocks (key_strs k)"

definition key_bytes :: "zuh_pool_key \<Rightarrow> size_t" where
  "key_bytes k = str_bytes (key_strs k)"

lemma free_strs_grew: "grew h (free_strs ss h) (- str_blocks ss) (- str_bytes ss)"
proof (induction ss arbitrary: h)
  case (Cons s ss)
  show ?case
  proof (cases s)
    case None
    with Cons [of h] show ?thesis by (simp add: str_blocks_def str_bytes_def)
  next
    case (Some t)
    from grew_trans [OF zuh_free_grew [of h "length t + 1"] Cons [of "zuh_free (Some (length t + 1)) h"]] Some
    show ?thesis by (simp add: str_blocks_def str_bytes_def algebra_simps)
  qed
qed (simp add: str_blocks_def str_bytes_def)

lemma key_free_grew: "grew h (zuh_pool_key_free k h) (- key_blocks k) (- key_bytes k)"
  unfolding zuh_pool_key_free_def key_blocks_def key_bytes_def by (rule free_strs_grew)

lemma dup_or_null_cases:
  assumes "dup_or_null s h = (d, h')"
  shows "d = s \<and> grew h h' (str_blocks [s]) (str_bytes [s]) \<or> d = None \<and> s \<noteq> None \<and> grew h h' 0 0"
proof (cases s)
  case (Some t)
  obtain ok h1 where a: "zuh_alloc (length t + 1) h = (ok, h1)" by (rule prod.exhaust)
  from assms Some a zuh_alloc_grew [OF a] show ?thesis
    by (auto simp: dup_or_null_def str_blocks_def str_bytes_def split: if_splits)
qed (use assms in \<open>simp add: dup_or_null_def str_blocks_def str_bytes_def\<close>)

text \<open>A put into an empty field adds what the string owns.\<close>

definition fresh_put :: "zuh_pool_key \<Rightarrow> (bytes option \<Rightarrow> zuh_pool_key \<Rightarrow> zuh_pool_key) \<Rightarrow> bool" where
  "fresh_put dst put \<longleftrightarrow> put None dst = dst
     \<and> (\<forall>s. key_blocks (put s dst) = key_blocks dst + str_blocks [s] \<and> key_bytes (put s dst) = key_bytes dst + str_bytes [s])"

fun fresh_puts :: "(bytes option \<times> (bytes option \<Rightarrow> zuh_pool_key \<Rightarrow> zuh_pool_key)) list \<Rightarrow> zuh_pool_key \<Rightarrow> bool" where
  "fresh_puts [] dst = True"
| "fresh_puts ((s, put) # rest) dst \<longleftrightarrow> fresh_put dst put \<and> fresh_puts rest (put s dst)"

lemma copy_strs_spec:
  assumes "copy_strs ps dst h = (r, h')" "grew h0 h (key_blocks dst) (key_bytes dst)" "fresh_puts ps dst"
  shows "(r = None \<longrightarrow> grew h0 h' 0 0) \<and>
    (\<forall>k. r = Some k \<longrightarrow> k = fold (\<lambda>(s, put). put s) ps dst \<and> grew h0 h' (key_blocks k) (key_bytes k))"
  using assms
proof (induction ps dst h rule: copy_strs.induct)
  case (2 s put rest dst h)
  show ?case
  proof (cases "s = None")
    case True
    with 2 show ?thesis by (auto simp: fresh_put_def)
  next
    case False
    obtain d h1 where d: "dup_or_null s h = (d, h1)" by (rule prod.exhaust)
    show ?thesis
    proof (cases "d = None")
      case True
      with dup_or_null_cases [OF d] False have "grew h h1 0 0" by auto
      from grew_trans [OF grew_trans [OF 2(4) this] key_free_grew [of h1 dst]]
      have "grew h0 (zuh_pool_key_free dst h1) 0 0" by simp
      with 2(3) False d True show ?thesis by auto
    next
      case some: False
      with dup_or_null_cases [OF d] have "d = s" "grew h h1 (str_blocks [s]) (str_bytes [s])" by auto
      moreover from grew_trans [OF 2(4) this(2)] have "grew h0 h1 (key_blocks (put s dst)) (key_bytes (put s dst))"
        using 2(5) by (simp add: fresh_put_def)
      moreover have "copy_strs rest (put s dst) h1 = (r, h')" using 2(3) False d some calculation(1) by simp
      ultimately show ?thesis using 2(2) [OF False d [symmetric]] some 2(5) by auto
    qed
  qed
qed auto

lemma zuh_pool_key_copy_spec:
  assumes "zuh_pool_key_copy src h = (r, h')"
  shows "(r = None \<longrightarrow> grew h h' 0 0) \<and> (\<forall>k. r = Some k \<longrightarrow> k = src \<and> grew h h' (key_blocks src) (key_bytes src))"
proof -
  let ?dst = "zuh_pool_key_init\<lparr>pk_port := pk_port src, pk_verify_peer := pk_verify_peer src,
      pk_verify_hostname := pk_verify_hostname src, pk_revocation := pk_revocation src,
      pk_min_version := pk_min_version src, pk_http2 := pk_http2 src\<rparr>"
  obtain ps where run: "copy_strs ps ?dst h = (r, h')" and ps: "fresh_puts ps ?dst"
      "fold (\<lambda>(s, put). put s) ps ?dst = src"
    using assms unfolding zuh_pool_key_copy_def
    by (rule that) (simp_all add: fresh_put_def key_blocks_def key_bytes_def key_strs_def zuh_pool_key_init_def
        str_blocks_def str_bytes_def)
  have "grew h h (key_blocks ?dst) (key_bytes ?dst)"
    by (simp add: key_blocks_def key_bytes_def key_strs_def zuh_pool_key_init_def str_blocks_def str_bytes_def)
  from copy_strs_spec [OF run this ps(1)] ps(2) show ?thesis by auto
qed

section \<open>The books of a pool\<close>

fun ev_took :: "'i pool_event \<Rightarrow> 'i multiset" where
  "ev_took (Took k s r) = {#s#}"
| "ev_took _ = {#}"

fun ev_gave :: "'i pool_event \<Rightarrow> 'i multiset" where
  "ev_gave (Gave k s) = {#s#}"
| "ev_gave _ = {#}"

fun ev_freed :: "'i pool_event \<Rightarrow> 'i multiset" where
  "ev_freed (Freed s) = {#s#}"
| "ev_freed _ = {#}"

definition taken :: "'i pool_event list \<Rightarrow> 'i multiset" where
  "taken l = (\<Sum>e\<leftarrow>l. ev_took e)"

definition given :: "'i pool_event list \<Rightarrow> 'i multiset" where
  "given l = (\<Sum>e\<leftarrow>l. ev_gave e)"

definition freed :: "'i pool_event list \<Rightarrow> 'i multiset" where
  "freed l = (\<Sum>e\<leftarrow>l. ev_freed e)"

lemma books_simps [simp]:
  "taken (l @ l') = taken l + taken l'" "given (l @ l') = given l + given l'" "freed (l @ l') = freed l + freed l'"
  "taken [] = {#}" "given [] = {#}" "freed [] = {#}"
  "taken (e # l) = ev_took e + taken l" "given (e # l) = ev_gave e + given l" "freed (e # l) = ev_freed e + freed l"
  by (simp_all add: taken_def given_def freed_def)

text \<open>An entry was kept from a release that gave its connection for reuse under its key.\<close>

definition kept_well :: "'i pool_event list \<Rightarrow> bool" where
  "kept_well l \<longleftrightarrow> (\<forall>e. Kept e \<in> set l \<longrightarrow> Took (pe_key e) (pe_stream e) ZUH_REUSE_OK \<in> set l)"

definition entry_blocks :: "'i pool_entry list \<Rightarrow> size_t" where
  "entry_blocks es = (\<Sum>e\<leftarrow>es. 1 + key_blocks (pe_key e))"

definition entry_bytes :: "'i pool_entry list \<Rightarrow> size_t" where
  "entry_bytes es = (\<Sum>e\<leftarrow>es. of_nat POOL_ENTRY_SIZE + key_bytes (pe_key e))"

text \<open>
  The invariant, while the entries \<open>hand\<close> are unlinked and the connections \<open>loose\<close> are taken
  and not yet kept; \<open>h0\<close> is the heap before the pool was made.
\<close>

definition pool_inv :: "heap \<Rightarrow> zuh_pool_config \<Rightarrow> 'i pool_entry list \<Rightarrow> 'i multiset \<Rightarrow> ('i, 'w) zuh_pool \<Rightarrow> bool" where
  "pool_inv h0 cfg hand loose p \<longleftrightarrow>
     taken (pl_log p) = image_mset pe_stream (mset (pl_entries p @ hand)) + loose + given (pl_log p) + freed (pl_log p)
     \<and> (\<forall>e \<in> set (pl_entries p @ hand). Kept e \<in> set (pl_log p)) \<and> kept_well (pl_log p)
     \<and> grew h0 (pl_heap p) (1 + entry_blocks (pl_entries p @ hand)) (of_nat POOL_SIZE + entry_bytes (pl_entries p @ hand))
     \<and> pl_idle p = length (pl_entries p) \<and> pl_cfg p = cfg \<and> length (pl_entries p) \<le> cf_max_idle cfg
     \<and> (cf_max_per_host cfg > 0 \<longrightarrow> (\<forall>key. count_for_host p key \<le> cf_max_per_host cfg))"

lemma pool_inv_bump [simp]: "pool_inv h0 cfg hand loose (bump f p) = pool_inv h0 cfg hand loose p"
  by (simp add: pool_inv_def bump_def count_for_host_def)

lemma pool_inv_world [simp]: "pool_inv h0 cfg hand loose (p\<lparr>pl_world := w\<rparr>) = pool_inv h0 cfg hand loose p"
  by (simp add: pool_inv_def count_for_host_def)

lemma pool_inv_guard [simp]: "pool_inv h0 cfg hand loose (p\<lparr>pl_guard := g\<rparr>) = pool_inv h0 cfg hand loose p"
  by (simp add: pool_inv_def count_for_host_def)

lemma bump_fields [simp]:
  "pl_log (bump f p) = pl_log p" "pl_entries (bump f p) = pl_entries p" "pl_cfg (bump f p) = pl_cfg p"
  "pl_guard (bump f p) = pl_guard p" "pl_world (bump f p) = pl_world p" "pl_heap (bump f p) = pl_heap p"
  "pl_idle (bump f p) = pl_idle p" "pl_now_ms (bump f p) = pl_now_ms p"
  by (simp_all add: bump_def)

lemma note_event_fields [simp]:
  "pl_log (note_event ev p) = pl_log p @ [ev]" "pl_entries (note_event ev p) = pl_entries p"
  "pl_cfg (note_event ev p) = pl_cfg p" "pl_guard (note_event ev p) = pl_guard p"
  "pl_world (note_event ev p) = pl_world p" "pl_heap (note_event ev p) = pl_heap p"
  "pl_idle (note_event ev p) = pl_idle p"
  by (simp_all add: note_event_def)

lemma count_note [simp]: "count_for_host (note_event ev p) = count_for_host p"
  "count_for_host (p\<lparr>pl_heap := h\<rparr>) = count_for_host p"
  by (simp_all add: fun_eq_iff count_for_host_def)

lemma kept_well_event: "kept_well l \<Longrightarrow> (\<And>e. Kept e \<notin> set l') \<Longrightarrow> kept_well (l @ l')"
  by (auto simp: kept_well_def)

lemma pool_inv_took: "pool_inv h0 cfg hand {#} p \<Longrightarrow> pool_inv h0 cfg hand {#s#} (note_event (Took k s r) p)"
  by (auto simp: pool_inv_def intro!: kept_well_event)

lemma pool_inv_close_free:
  "pool_inv h0 cfg hand {#s#} p \<Longrightarrow> pool_inv h0 cfg hand {#} (close_free s p)"
  by (auto simp: pool_inv_def close_free_def intro!: kept_well_event)

lemma pool_inv_heap:
  "pool_inv h0 cfg hand loose p \<Longrightarrow> grew (pl_heap p) h 0 0 \<Longrightarrow> pool_inv h0 cfg hand loose (p\<lparr>pl_heap := h\<rparr>)"
  by (auto simp: pool_inv_def dest: grew_trans)

lemma destroy_heap:
  "grew h (zuh_free (Some POOL_ENTRY_SIZE) (zuh_pool_key_free (pe_key e) h))
     (- (1 + key_blocks (pe_key e))) (- (of_nat POOL_ENTRY_SIZE + key_bytes (pe_key e)))"
  using grew_trans [OF key_free_grew [of h "pe_key e"] zuh_free_grew] by (simp add: algebra_simps)

lemma entry_sums [simp]:
  "entry_blocks (es @ fs) = entry_blocks es + entry_blocks fs" "entry_bytes (es @ fs) = entry_bytes es + entry_bytes fs"
  "entry_blocks (e # es) = 1 + key_blocks (pe_key e) + entry_blocks es"
  "entry_bytes (e # es) = of_nat POOL_ENTRY_SIZE + key_bytes (pe_key e) + entry_bytes es"
  "entry_blocks [] = 0" "entry_bytes [] = 0"
  by (simp_all add: entry_blocks_def entry_bytes_def)

text \<open>An unlinked entry is destroyed, or its connection is given away.\<close>

lemma pool_inv_destroy:
  assumes "pool_inv h0 cfg (e # hand) loose p"
  shows "pool_inv h0 cfg hand loose (entry_destroy e g p)"
proof -
  have "grew h0 (pl_heap p) (1 + entry_blocks (pl_entries p @ e # hand)) (of_nat POOL_SIZE + entry_bytes (pl_entries p @ e # hand))"
    using assms by (simp add: pool_inv_def)
  from grew_trans [OF this destroy_heap [of _ e]] show ?thesis
    using assms by (auto simp: pool_inv_def entry_destroy_def Let_def ac_simps intro!: kept_well_event)
qed

lemma pool_inv_give:
  assumes "pool_inv h0 cfg (e # hand) loose p"
  shows "pool_inv h0 cfg hand loose (note_event (Gave k (pe_stream e))
    (p\<lparr>pl_heap := zuh_free (Some POOL_ENTRY_SIZE) (zuh_pool_key_free (pe_key e) (pl_heap p))\<rparr>))"
proof -
  have "grew h0 (pl_heap p) (1 + entry_blocks (pl_entries p @ e # hand)) (of_nat POOL_SIZE + entry_bytes (pl_entries p @ e # hand))"
    using assms by (simp add: pool_inv_def)
  from grew_trans [OF this destroy_heap [of _ e]] show ?thesis
    using assms by (auto simp: pool_inv_def ac_simps intro!: kept_well_event)
qed

lemma unlink_split:
  assumes "pl_entries p = es @ e # fs" "length es = i"
  shows "unlink i p = p\<lparr>pl_entries := es @ fs, pl_idle := pl_idle p - 1\<rparr>"
  using assms by (auto simp: unlink_def)

lemma pool_inv_unlink:
  assumes "pool_inv h0 cfg hand loose p" "i < length (pl_entries p)"
  shows "pool_inv h0 cfg ((pl_entries p ! i) # hand) loose (unlink i p)"
proof -
  obtain es e fs where es: "pl_entries p = es @ e # fs" "length es = i"
    using assms(2) id_take_nth_drop [OF assms(2)] by (metis length_take min.absorb4)
  have "count_for_host (unlink i p) key \<le> count_for_host p key" for key
    by (simp add: unlink_split [OF es] count_for_host_def es(1))
  moreover from es have "pl_entries p ! i = e" by auto
  ultimately show ?thesis
    using assms by (auto simp: pool_inv_def unlink_split [OF es] es(1) ac_simps dest: order_trans)
qed

lemma last_match_Some:
  "last_match P i xs v = Some j \<Longrightarrow> v = Some j \<or> (i \<le> j \<and> j < i + length xs \<and> P (xs ! (j - i)))"
proof (induction xs arbitrary: i v)
  case (Cons a xs)
  then have "(if P a then Some i else v) = Some j \<or> (i + 1 \<le> j \<and> j < i + 1 + length xs \<and> P (xs ! (j - (i + 1))))"
    by (simp only: last_match.simps)
  then show ?case by (auto simp: nth_Cons' split: if_splits)
qed simp

lemma last_match_None: "last_match P i xs v = None \<Longrightarrow> v = None \<and> (\<forall>x \<in> set xs. \<not> P x)"
  by (induction xs arbitrary: i v) (auto split: if_splits)

lemma pool_inv_evict: "pool_inv h0 cfg hand loose p \<Longrightarrow> pool_inv h0 cfg hand loose (evict_oldest who p)"
  unfolding evict_oldest_def
  by (auto split: option.split dest!: last_match_Some intro!: pool_inv_destroy pool_inv_unlink)

lemma entry_destroy_fields [simp]:
  "pl_entries (entry_destroy e g p) = pl_entries p" "pl_idle (entry_destroy e g p) = pl_idle p"
  "pl_cfg (entry_destroy e g p) = pl_cfg p" "pl_guard (entry_destroy e g p) = pl_guard p"
  "pl_world (entry_destroy e g p) = pl_world p" "pl_now_ms (entry_destroy e g p) = pl_now_ms p" "pl_stats (entry_destroy e g p) = pl_stats p"
  by (simp_all add: entry_destroy_def Let_def note_event_def)

lemma fold_destroy_world [simp]:
  "pl_world (fold (\<lambda>e. entry_destroy e g) es p) = pl_world p \<and> pl_now_ms (fold (\<lambda>e. entry_destroy e g) es p) = pl_now_ms p"
  by (induction es arbitrary: p) auto

lemma fold_destroy_log:
  "pl_log (fold (\<lambda>e. entry_destroy e g) es p) =
     pl_log p @ concat (map (\<lambda>e. (if g then [Closed (pe_stream e)] else []) @ [Freed (pe_stream e)]) es)"
  by (induction es arbitrary: p) (auto simp: entry_destroy_def Let_def)

lemma pool_inv_drop_all:
  "pool_inv h0 cfg (pl_entries p @ hand) loose (p\<lparr>pl_entries := [], pl_idle := 0\<rparr>) \<Longrightarrow>
   pool_inv h0 cfg hand loose ((fold (\<lambda>e. entry_destroy e g) (pl_entries p) p)\<lparr>pl_entries := [], pl_idle := 0\<rparr>)"
proof -
  have comm: "(entry_destroy e g q)\<lparr>pl_entries := [], pl_idle := 0\<rparr> = entry_destroy e g (q\<lparr>pl_entries := [], pl_idle := 0\<rparr>)"
    for e and q :: "('a, 'b) zuh_pool"
    by (simp add: entry_destroy_def Let_def note_event_def)
  have "pool_inv h0 cfg (es @ hand) loose (q\<lparr>pl_entries := [], pl_idle := 0\<rparr>) \<Longrightarrow>
      pool_inv h0 cfg hand loose ((fold (\<lambda>e. entry_destroy e g) es q)\<lparr>pl_entries := [], pl_idle := 0\<rparr>)"
    for es and q :: "('a, 'b) zuh_pool"
  proof (induction es arbitrary: q)
    case (Cons a es)
    then have "pool_inv h0 cfg (es @ hand) loose ((entry_destroy a g q)\<lparr>pl_entries := [], pl_idle := 0\<rparr>)"
      unfolding comm by (intro pool_inv_destroy) simp
    with Cons.IH show ?case by simp
  qed simp
  then show "pool_inv h0 cfg (pl_entries p @ hand) loose (p\<lparr>pl_entries := [], pl_idle := 0\<rparr>) \<Longrightarrow> ?thesis" .
qed

lemma pool_inv_unlink_all:
  "pool_inv h0 cfg hand loose p \<Longrightarrow> pool_inv h0 cfg (pl_entries p @ hand) loose (p\<lparr>pl_entries := [], pl_idle := 0\<rparr>)"
  by (simp add: pool_inv_def count_for_host_def)

lemma pool_inv_clear: "pool_inv h0 cfg hand loose p \<Longrightarrow> pool_inv h0 cfg hand loose (zuh_pool_clear p)"
  unfolding zuh_pool_clear_def Let_def pool_inv_bump
  by (intro pool_inv_drop_all pool_inv_unlink_all)

lemma pool_inv_check_fork:
  "pool_inv h0 cfg hand loose p \<Longrightarrow> pool_inv h0 cfg hand loose (snd (zuh_pool_check_fork env p))"
  using pool_inv_drop_all [OF pool_inv_unlink_all, of h0 cfg hand loose p False]
  by (simp add: zuh_pool_check_fork_def Let_def)

section \<open>Releasing\<close>

lemma str_eq_ci_iff: "str_eq_ci a b \<longleftrightarrow> map_option (\<lambda>s. lowers (c_string s)) a = map_option (\<lambda>s. lowers (c_string s)) b"
  by (auto simp: str_eq_ci_def casecmp_0 split: option.splits)

lemma str_eq_iff [simp]: "str_eq a b \<longleftrightarrow> a = b"
  by (auto simp: str_eq_def split: option.splits)

lemma evict_entries:
  "pl_entries (evict_oldest who p) = pl_entries p \<or> (\<exists>es e fs. pl_entries p = es @ e # fs \<and> pl_entries (evict_oldest who p) = es @ fs)"
proof (cases "last_match (\<lambda>e. case who of None \<Rightarrow> True | Some key \<Rightarrow> same_host key e) 0 (pl_entries p) None")
  case (Some i)
  then have "i < length (pl_entries p)" using last_match_Some by fastforce
  then obtain es e fs where es: "pl_entries p = es @ e # fs" "length es = i"
    using id_take_nth_drop by (metis length_take min.absorb4)
  then show ?thesis
    using Some by (auto simp: evict_oldest_def unlink_split [OF es])
qed (simp add: evict_oldest_def)

lemma count_evict_le: "count_for_host (evict_oldest who p) key \<le> count_for_host p key"
  using evict_entries [of who p] by (auto simp: count_for_host_def)

lemma count_evict_host:
  assumes "count_for_host p key > 0"
  shows "count_for_host (evict_oldest (Some key) p) key < count_for_host p key"
proof -
  obtain i where m: "last_match (same_host key) 0 (pl_entries p) None = Some i"
    using assms last_match_None [of "same_host key" 0 "pl_entries p" None]
    by (cases "last_match (same_host key) 0 (pl_entries p) None") (auto simp: count_for_host_def filter_empty_conv)
  then have i: "i < length (pl_entries p)" "same_host key (pl_entries p ! i)"
    using last_match_Some [OF m] by auto
  then obtain es e fs where es: "pl_entries p = es @ e # fs" "length es = i"
    using id_take_nth_drop by (metis length_take min.absorb4)
  then show ?thesis using m i by (simp add: evict_oldest_def unlink_split [OF es] count_for_host_def nth_append)
qed

lemma evict_any:
  assumes "pl_entries p \<noteq> []" "pl_idle p = length (pl_entries p)"
  shows "pl_idle (evict_oldest None p) < pl_idle p"
proof -
  obtain i where m: "last_match (\<lambda>e. True) 0 (pl_entries p) None = Some i"
    using assms(1) last_match_None [of "\<lambda>e. True" 0 "pl_entries p" None]
    by (cases "last_match (\<lambda>e. True) 0 (pl_entries p) None") auto
  then show ?thesis using assms by (simp add: evict_oldest_def unlink_def)
qed

text \<open>The eviction loop of \<^verbatim>\<open>zuh_pool_release\<close> ends, with room for one entry.\<close>

lemma evict_while:
  assumes "pool_inv h0 cfg hand loose p" "0 < cf_max_idle cfg"
  defines "q \<equiv> while (\<lambda>p. pl_idle p \<ge> cf_max_idle (pl_cfg p)) (evict_oldest None) p"
  shows "pool_inv h0 cfg hand loose q" "length (pl_entries q) < cf_max_idle cfg"
    "count_for_host q key \<le> count_for_host p key" "pl_guard q = pl_guard p"
proof -
  let ?P = "\<lambda>r. pool_inv h0 cfg hand loose r \<and> count_for_host r key \<le> count_for_host p key \<and> pl_guard r = pl_guard p"
  have guard: "pl_guard (evict_oldest None r) = pl_guard r" for r :: "('a, 'c) zuh_pool"
    by (simp add: evict_oldest_def unlink_def split: option.split)
  have "?P q \<and> \<not> pl_idle q \<ge> cf_max_idle (pl_cfg q)"
    unfolding q_def
  proof (rule while_rule [where P = ?P and r = "measure pl_idle"])
    fix r assume r: "?P r" "pl_idle r \<ge> cf_max_idle (pl_cfg r)"
    then show "?P (evict_oldest None r)"
      using pool_inv_evict count_evict_le [of None r key] guard [of r] by auto
    have "pl_idle r = length (pl_entries r)" "pl_entries r \<noteq> []"
      using r assms(2) by (auto simp: pool_inv_def)
    from evict_any [OF this(2,1)] show "(evict_oldest None r, r) \<in> measure pl_idle" by simp
  qed (use assms(1) in auto)
  then show "pool_inv h0 cfg hand loose q" "length (pl_entries q) < cf_max_idle cfg"
    "count_for_host q key \<le> count_for_host p key" "pl_guard q = pl_guard p"
    by (auto simp: pool_inv_def)
qed

lemma pool_inv_make_room:
  assumes p: "pool_inv h0 cfg hand loose p" and max: "0 < cf_max_idle cfg"
  shows "pool_inv h0 cfg hand loose (make_room key p)" "length (pl_entries (make_room key p)) < cf_max_idle cfg"
    "0 < cf_max_per_host cfg \<Longrightarrow> count_for_host (make_room key p) key < cf_max_per_host cfg"
proof -
  define q where "q = (if cf_max_per_host (pl_cfg p) > 0 \<and> count_for_host p key \<ge> cf_max_per_host (pl_cfg p)
                     then evict_oldest (Some key) p else p)"
  have cfg: "pl_cfg p = cfg" using p by (simp add: pool_inv_def)
  have q: "pool_inv h0 cfg hand loose q" using p by (simp add: q_def pool_inv_evict)
  have r: "make_room key p = while (\<lambda>p. pl_idle p \<ge> cf_max_idle (pl_cfg p)) (evict_oldest None) q"
    by (simp add: make_room_def q_def Let_def)
  note w = evict_while [OF q max]
  from w(1,2) show "pool_inv h0 cfg hand loose (make_room key p)" "length (pl_entries (make_room key p)) < cf_max_idle cfg"
    by (simp_all add: r)
  assume host: "0 < cf_max_per_host cfg"
  then have "count_for_host p key \<le> cf_max_per_host cfg" using p by (simp add: pool_inv_def)
  then have "count_for_host q key < cf_max_per_host cfg"
    using host count_evict_host [of p key] by (fastforce simp: q_def cfg)
  with w(3) [of key] show "count_for_host (make_room key p) key < cf_max_per_host cfg" by (simp add: r)
qed

lemma pool_inv_keep:
  assumes inv: "pool_inv h0 cfg hand {#s#} p"
    and grew: "grew (pl_heap p) h (1 + key_blocks key) (of_nat POOL_ENTRY_SIZE + key_bytes key)"
    and took: "Took key s ZUH_REUSE_OK \<in> set (pl_log p)"
    and e: "e = \<lparr>pe_key = key, pe_stream = s, pe_idle_since = t\<rparr>"
  shows "pool_inv h0 cfg (e # hand) {#} (note_event (Kept e) (p\<lparr>pl_heap := h\<rparr>))"
proof -
  have "kept_well (pl_log p @ [Kept e])"
    using inv took by (auto simp: pool_inv_def kept_well_def e)
  moreover have "grew h0 h (1 + entry_blocks (pl_entries p @ e # hand)) (of_nat POOL_SIZE + entry_bytes (pl_entries p @ e # hand))"
    using grew_trans [OF _ grew, of h0] inv by (force simp: pool_inv_def e ac_simps)
  ultimately show ?thesis using inv by (auto simp: pool_inv_def e)
qed

lemma pool_inv_link:
  assumes inv: "pool_inv h0 cfg (e # hand) loose p"
    and room: "length (pl_entries p) < cf_max_idle cfg"
      "0 < cf_max_per_host cfg \<Longrightarrow> count_for_host p (pe_key e) < cf_max_per_host cfg"
  shows "pool_inv h0 cfg hand loose (p\<lparr>pl_entries := e # pl_entries p, pl_idle := pl_idle p + 1\<rparr>)"
proof -
  have count: "count_for_host (p\<lparr>pl_entries := e # pl_entries p, pl_idle := pl_idle p + 1\<rparr>) k
      = (if same_host k e then 1 else 0) + count_for_host p k" for k
    by (simp add: count_for_host_def)
  have "count_for_host p k = count_for_host p (pe_key e)" if "same_host k e" for k
  proof -
    have "same_host k = (same_host (pe_key e) :: 'a pool_entry \<Rightarrow> bool)"
      using that by (auto simp: fun_eq_iff same_host_def str_eq_ci_iff)
    then show ?thesis by (simp add: count_for_host_def)
  qed
  then have "0 < cf_max_per_host cfg \<Longrightarrow> (if same_host k e then 1 else 0) + count_for_host p k \<le> cf_max_per_host cfg" for k
    using room(2) inv by (auto simp: pool_inv_def)
  with inv room(1) show ?thesis
    unfolding pool_inv_def count by (auto simp: ac_simps)
qed

lemma check_fork_log: "set (pl_log p) \<subseteq> set (pl_log (snd (zuh_pool_check_fork env p)))"
  by (auto simp: zuh_pool_check_fork_def Let_def fold_destroy_log)

text \<open>\<^verbatim>\<open>zuh_pool_release\<close> takes the connection and keeps the books, on every branch.\<close>

lemma pool_inv_release:
  assumes inv: "pool_inv h0 cfg hand {#} p"
  shows "pool_inv h0 cfg hand {#} (zuh_pool_release env key s r p)"
proof -
  define p1 where "p1 = snd (zuh_pool_check_fork env (note_event (Took key s r) p))"
  have p1: "pool_inv h0 cfg hand {#s#} p1" unfolding p1_def by (intro pool_inv_check_fork pool_inv_took inv)
  have took: "Took key s r \<in> set (pl_log p1)"
    unfolding p1_def using check_fork_log [of "note_event (Took key s r) p" env] by auto
  obtain rd w where rd: "en_readable env s (cf_stale_probe_ms (pl_cfg p1)) (pl_world p1) = (rd, w)" by (rule prod.exhaust)
  define p2 where "p2 = p1\<lparr>pl_world := w\<rparr>"
  have p2: "pool_inv h0 cfg hand {#s#} p2" using p1 by (simp add: p2_def)
  obtain ok h1 where a: "zuh_calloc 1 POOL_ENTRY_SIZE (pl_heap p2) = (ok, h1)" by (rule prod.exhaust)
  obtain kc h2 where k: "zuh_pool_key_copy key h1 = (kc, h2)" by (rule prod.exhaust)
  note eqs = zuh_pool_release_def Let_def p1_def [symmetric] rd prod.case p2_def [symmetric] a k
  consider "r \<noteq> ZUH_REUSE_OK \<or> rd = 1 \<or> cf_max_idle (pl_cfg p2) = 0"
    | "r = ZUH_REUSE_OK" "rd \<noteq> 1" "cf_max_idle (pl_cfg p2) \<noteq> 0" "\<not> ok"
    | "r = ZUH_REUSE_OK" "rd \<noteq> 1" "cf_max_idle (pl_cfg p2) \<noteq> 0" ok "kc = None"
    | "r = ZUH_REUSE_OK" "rd \<noteq> 1" "cf_max_idle (pl_cfg p2) \<noteq> 0" ok "kc = Some key"
    using zuh_pool_key_copy_spec [OF k] by (cases kc) auto
  then show ?thesis
  proof cases
    case 1
    with p1 p2 show ?thesis unfolding eqs by (auto intro!: pool_inv_close_free)
  next
    case 2
    with pool_inv_heap [OF p2, of h1] zuh_calloc_grew [OF a] show ?thesis
      unfolding eqs by (simp add: pool_inv_close_free)
  next
    case 3
    have "grew (pl_heap p2) h2 1 (of_nat POOL_ENTRY_SIZE)"
      using grew_trans [OF zuh_calloc_grew [OF a]] zuh_pool_key_copy_spec [OF k] 3 by fastforce
    from grew_trans [OF this zuh_free_grew [of h2 POOL_ENTRY_SIZE]]
    have "grew (pl_heap p2) (zuh_free (Some POOL_ENTRY_SIZE) h2) 0 0" by simp
    with pool_inv_heap [OF p2] 3 show ?thesis unfolding eqs by (simp add: pool_inv_close_free)
  next
    case 4
    define e where "e = \<lparr>pe_key = key, pe_stream = s, pe_idle_since = pool_now env p2\<rparr>"
    define p3 where "p3 = note_event (Kept e) (p2\<lparr>pl_heap := h2\<rparr>)"
    have "grew (pl_heap p2) h2 (1 + key_blocks key) (of_nat POOL_ENTRY_SIZE + key_bytes key)"
      using grew_trans [OF zuh_calloc_grew [OF a]] zuh_pool_key_copy_spec [OF k] 4 by fastforce
    from pool_inv_keep [OF p2 this _ e_def] took 4(1) have p3: "pool_inv h0 cfg (e # hand) {#} p3"
      by (simp add: p3_def p2_def)
    have cfg: "pl_cfg p2 = cfg" using p2 by (simp add: pool_inv_def)
    note m = pool_inv_make_room [OF p3, of key]
    have "pool_inv h0 cfg hand {#} ((make_room key p3)\<lparr>pl_entries := e # pl_entries (make_room key p3),
        pl_idle := pl_idle (make_room key p3) + 1\<rparr>)"
      using m 4(3) by (intro pool_inv_link) (simp_all add: cfg e_def)
    with 4 show ?thesis
      unfolding eqs by (simp add: e_def p3_def)
  qed
qed

section \<open>Acquiring\<close>

lemma pool_inv_releases:
  "pool_inv h0 cfg hand {#} p \<Longrightarrow> pool_inv h0 cfg hand {#} (fold (\<lambda>(k, s, r). zuh_pool_release env k s r) calls p)"
  by (induction calls arbitrary: p) (auto intro: pool_inv_release)

lemma pool_inv_unusable:
  assumes "pool_inv h0 cfg hand {#} p" "entry_unusable env e now dl p = (bad, q)"
  shows "pool_inv h0 cfg hand {#} q"
  using assms by (auto simp: entry_unusable_def Let_def intro!: pool_inv_releases split: if_splits prod.splits)

text \<open>A usable entry is not expired, did not answer readable, and answered the PING it was sent.\<close>

definition fit_for_use :: "('i, 'w) pool_env \<Rightarrow> zuh_pool_config \<Rightarrow> zuh_millis \<Rightarrow> 'i pool_entry \<Rightarrow> bool" where
  "fit_for_use env cfg now e \<longleftrightarrow>
     (cf_idle_timeout_ms cfg > 0 \<longrightarrow> now - pe_idle_since e < cf_idle_timeout_ms cfg)
     \<and> (\<exists>w. fst (en_readable env (pe_stream e) (cf_stale_probe_ms cfg) w) \<noteq> 1
          \<and> (cf_keepalive_time_ms cfg > 0 \<longrightarrow>
               (let w' = snd (en_readable env (pe_stream e) (cf_stale_probe_ms cfg) w) in
                en_h2_is env (pe_stream e) w' \<longrightarrow> en_h2_idle_ms env (pe_stream e) w' \<ge> cf_keepalive_time_ms cfg \<longrightarrow>
                (\<exists>d. fst (en_h2_ping env (pe_stream e) d w')))))"

lemma usable_fit: "entry_unusable env e now dl p = (False, q) \<Longrightarrow> fit_for_use env (pl_cfg p) now e"
  by (auto simp: entry_unusable_def fit_for_use_def Let_def split: if_splits prod.splits)
    (metis fst_conv snd_conv)+

lemma acquire_loop_spec:
  assumes run: "acquire_loop env key dl now i p = Some r" and inv: "pool_inv h0 cfg hand {#} p"
  shows "pool_inv h0 cfg hand {#} (snd r) \<and>
    (\<forall>s. fst r = Some s \<longrightarrow> (\<exists>e. Kept e \<in> set (pl_log (snd r)) \<and> pe_stream e = s \<and> zuh_pool_key_eq (pe_key e) key
       \<and> fit_for_use env cfg now e \<and> last (pl_log (snd r)) = Gave key s))"
  using inv
proof (induction rule: acquire_loop.raw_induct [OF _ run])
  case (1 loop env key dl now i p r)
  have cfg: "pl_cfg p = cfg" using 1(3) by (simp add: pool_inv_def)
  show ?case
  proof (cases "i < length (pl_entries p)")
    case False
    with 1(2,3) show ?thesis by auto
  next
    case i: True
    define e where "e = pl_entries p ! i"
    show ?thesis
    proof (cases "zuh_pool_key_eq (pe_key e) key")
      case False
      with 1 i show ?thesis by (simp add: e_def Let_def)
    next
      case True
      obtain bad q where u: "entry_unusable env e now dl (unlink i p) = (bad, q)" by (rule prod.exhaust)
      have hand: "pool_inv h0 cfg (e # hand) {#} q"
        using pool_inv_unusable [OF pool_inv_unlink [OF 1(3) i, folded e_def] u] .
      show ?thesis
      proof (cases bad)
        case bad: True
        with 1(2) i True u have "loop env key dl now 0 (entry_destroy e True q) = Some r"
          by (simp add: e_def [symmetric] Let_def)
        from 1(1) [OF this pool_inv_destroy [OF hand]] show ?thesis .
      next
        case False
        have "Kept e \<in> set (pl_log q)" using hand by (simp add: pool_inv_def)
        moreover have "fit_for_use env cfg now e"
          using usable_fit [of env e now dl "unlink i p" q] u False cfg by (simp add: unlink_def)
        ultimately show ?thesis
          using 1(2) i True u False pool_inv_give [OF hand, of key] by (auto simp: e_def [symmetric] Let_def)
      qed
    qed
  qed
qed

lemma pool_inv_acquire:
  assumes "pool_inv h0 cfg hand {#} p" "zuh_pool_acquire_by env key dl p = Some (r, q)"
  shows "pool_inv h0 cfg hand {#} q"
  using acquire_loop_spec [OF _ pool_inv_check_fork [OF assms(1), of env]] assms(2)
  by (fastforce simp: zuh_pool_acquire_by_def Let_def)

text \<open>After the fork check a pool is the current process's, and stays so.\<close>

lemma check_fork_owner: "fg_armed (pl_guard p) \<Longrightarrow>
    \<not> zuh_fork_guard_tripped (en_pid env (pl_world p)) (pl_guard (snd (zuh_pool_check_fork env p)))"
  by (auto simp: zuh_pool_check_fork_def Let_def zuh_fork_guard_arm_def zuh_fork_guard_tripped_def)

section \<open>Termination of the scan\<close>

text \<open>
  \<open>pending w\<close> bounds the releases finalizers may still make: a PING uses up as many as it runs,
  and no probe adds any.
\<close>

definition bounded_finalizers :: "('i, 'w) pool_env \<Rightarrow> ('w \<Rightarrow> nat) \<Rightarrow> bool" where
  "bounded_finalizers env pending \<longleftrightarrow>
     (\<forall>s ms w rd w'. en_readable env s ms w = (rd, w') \<longrightarrow> pending w' \<le> pending w)
     \<and> (\<forall>s d w ok calls w'. en_h2_ping env s d w = (ok, calls, w') \<longrightarrow> pending w' + length calls \<le> pending w)"

definition work_left :: "('w \<Rightarrow> nat) \<Rightarrow> ('i, 'w) zuh_pool \<Rightarrow> nat" where
  "work_left pending p = pending (pl_world p) + length (pl_entries p)"

lemma evict_length: "length (pl_entries (evict_oldest who p)) \<le> length (pl_entries p)"
  using evict_entries [of who p] by auto

lemma make_room_length:
  assumes "pool_inv h0 cfg hand loose p" "0 < cf_max_idle cfg"
  shows "length (pl_entries (make_room key p)) \<le> length (pl_entries p) \<and> pl_world (make_room key p) = pl_world p"
proof -
  have world: "pl_world (evict_oldest who q) = pl_world q" for who and q :: "('a, 'c) zuh_pool"
    by (simp add: evict_oldest_def unlink_def split: option.split)
  let ?P = "\<lambda>q. pool_inv h0 cfg hand loose q \<and> length (pl_entries q) \<le> length (pl_entries p) \<and> pl_world q = pl_world p"
  have "?P (while (\<lambda>p. pl_idle p \<ge> cf_max_idle (pl_cfg p)) (evict_oldest None) q)" if "?P q" for q
  proof (rule while_rule [where P = ?P and r = "measure pl_idle"])
    fix q assume q: "?P q" "pl_idle q \<ge> cf_max_idle (pl_cfg q)"
    then show "?P (evict_oldest None q)"
      using pool_inv_evict [of h0 cfg hand loose q None] evict_length [of None q] world [of None q] by auto
    have "pl_idle q = length (pl_entries q)" "pl_entries q \<noteq> []" using q assms(2) by (auto simp: pool_inv_def)
    from evict_any [OF this(2,1)] show "(evict_oldest None q, q) \<in> measure pl_idle" by simp
  qed (use that in auto)
  moreover have "?P (evict_oldest who p)" for who
    using assms(1) pool_inv_evict evict_length world by blast
  ultimately show ?thesis using assms(1) by (simp add: make_room_def Let_def)
qed

lemma check_fork_work:
  "pl_world (snd (zuh_pool_check_fork env p)) = pl_world p \<and> pl_now_ms (snd (zuh_pool_check_fork env p)) = pl_now_ms p \<and>
   length (pl_entries (snd (zuh_pool_check_fork env p))) \<le> length (pl_entries p)"
  by (simp add: zuh_pool_check_fork_def Let_def)

lemma close_free_fields [simp]:
  "pl_entries (close_free s p) = pl_entries p" "pl_world (close_free s p) = pl_world p"
  by (simp_all add: close_free_def)

lemma release_work:
  assumes "pool_inv h0 cfg hand {#} p" "bounded_finalizers env pending"
  shows "work_left pending (zuh_pool_release env key s r p) \<le> work_left pending p + 1"
proof -
  define p1 where "p1 = snd (zuh_pool_check_fork env (note_event (Took key s r) p))"
  have p1: "work_left pending p1 \<le> work_left pending p"
    using check_fork_work [of env "note_event (Took key s r) p"] by (simp add: p1_def work_left_def)
  obtain rd w where rd: "en_readable env s (cf_stale_probe_ms (pl_cfg p1)) (pl_world p1) = (rd, w)" by (rule prod.exhaust)
  define p2 where "p2 = p1\<lparr>pl_world := w\<rparr>"
  have "pending w \<le> pending (pl_world p1)" using assms(2) rd by (auto simp: bounded_finalizers_def)
  with p1 have p2: "work_left pending p2 \<le> work_left pending p" by (simp add: work_left_def p2_def)
  obtain ok h1 where a: "zuh_calloc 1 POOL_ENTRY_SIZE (pl_heap p2) = (ok, h1)" by (rule prod.exhaust)
  obtain kc h2 where k: "zuh_pool_key_copy key h1 = (kc, h2)" by (rule prod.exhaust)
  note eqs = zuh_pool_release_def Let_def p1_def [symmetric] rd prod.case p2_def [symmetric] a k
  show ?thesis
  proof (cases "r = ZUH_REUSE_OK \<and> rd \<noteq> 1 \<and> cf_max_idle (pl_cfg p2) \<noteq> 0 \<and> ok \<and> kc \<noteq> None")
    case False
    then show ?thesis unfolding eqs using p1 p2 by (auto simp: work_left_def split: option.split)
  next
    case True
    then have kc: "kc = Some key" using zuh_pool_key_copy_spec [OF k] by auto
    define e where "e = \<lparr>pe_key = key, pe_stream = s, pe_idle_since = pool_now env p2\<rparr>"
    define p3 where "p3 = note_event (Kept e) (p2\<lparr>pl_heap := h2\<rparr>)"
    have i2: "pool_inv h0 cfg hand {#s#} p2"
      using assms(1) by (auto simp: p2_def p1_def intro!: pool_inv_check_fork pool_inv_took)
    have cfg: "pl_cfg p2 = cfg" using i2 by (simp add: pool_inv_def)
    have "grew (pl_heap p2) h2 (1 + key_blocks key) (of_nat POOL_ENTRY_SIZE + key_bytes key)"
      using grew_trans [OF zuh_calloc_grew [OF a]] zuh_pool_key_copy_spec [OF k] True by fastforce
    moreover have "Took key s ZUH_REUSE_OK \<in> set (pl_log p2)"
      using True check_fork_log [of "note_event (Took key s r) p" env] by (auto simp: p2_def p1_def)
    ultimately have "pool_inv h0 cfg (e # hand) {#} p3" unfolding p3_def by (rule pool_inv_keep [OF i2 _ _ e_def])
    from make_room_length [OF this, of key] True
    have "work_left pending (make_room key p3) \<le> work_left pending p2"
      by (simp add: work_left_def p3_def cfg)
    moreover have "work_left pending (zuh_pool_release env key s r p) = work_left pending (make_room key p3) + 1"
      unfolding eqs using True kc by (simp add: work_left_def p3_def e_def)
    ultimately show ?thesis using p2 by simp
  qed
qed

lemma releases_work:
  assumes "bounded_finalizers env pending"
  shows "pool_inv h0 cfg hand {#} p \<Longrightarrow>
    work_left pending (fold (\<lambda>(k, s, r). zuh_pool_release env k s r) calls p) \<le> work_left pending p + length calls"
proof (induction calls arbitrary: p)
  case (Cons c calls)
  obtain k s r where c: "c = (k, s, r)" by (rule prod_cases3)
  from Cons.IH [OF pool_inv_release [OF Cons.prems, of env k s r]] release_work [OF Cons.prems assms, of k s r]
  show ?case by (simp add: c)
qed simp

lemma unusable_work:
  assumes inv: "pool_inv h0 cfg hand {#} p" and fin: "bounded_finalizers env pending"
    and run: "entry_unusable env e now dl p = (bad, q)"
  shows "work_left pending q \<le> work_left pending p"
proof -
  obtain rd w where rd: "en_readable env (pe_stream e) (cf_stale_probe_ms (pl_cfg p)) (pl_world p) = (rd, w)"
    by (rule prod.exhaust)
  have w: "pending w \<le> pending (pl_world p)" using fin rd by (auto simp: bounded_finalizers_def)
  have "work_left pending (fold (\<lambda>(k, s, r). zuh_pool_release env k s r) calls (p\<lparr>pl_world := w'\<rparr>)) \<le> work_left pending p"
    if "en_h2_ping env (pe_stream e) d w = (ok, calls, w')" for d ok calls w'
    using releases_work [OF fin, of h0 cfg hand "p\<lparr>pl_world := w'\<rparr>" calls] inv fin that w
    by (fastforce simp: bounded_finalizers_def work_left_def)
  then show ?thesis
    using run w by (auto simp: entry_unusable_def rd Let_def work_left_def split: if_splits prod.splits)
qed

lemma acquire_loop_returns:
  assumes fin: "bounded_finalizers env pending"
  shows "pool_inv h0 cfg hand {#} p \<Longrightarrow> \<exists>r. acquire_loop env key dl now i p = Some r"
proof (induction "(work_left pending p, length (pl_entries p) - i)" arbitrary: p i
    rule: wf_induct_rule [OF wf_lex_prod [OF wf_less_than wf_less_than]])
  case 1
  show ?case
  proof (cases "i < length (pl_entries p)")
    case False
    then show ?thesis by (subst acquire_loop.simps) simp
  next
    case i: True
    define e where "e = pl_entries p ! i"
    show ?thesis
    proof (cases "zuh_pool_key_eq (pe_key e) key")
      case False
      have "\<exists>r. acquire_loop env key dl now (i + 1) p = Some r" using i 1(2) by (intro 1(1)) auto
      with i False show ?thesis by (subst acquire_loop.simps) (simp add: e_def Let_def)
    next
      case True
      obtain bad q where u: "entry_unusable env e now dl (unlink i p) = (bad, q)" by (rule prod.exhaust)
      have hand: "pool_inv h0 cfg (e # hand) {#} (unlink i p)" using pool_inv_unlink [OF 1(2) i] by (simp add: e_def)
      have "work_left pending (unlink i p) < work_left pending p" using i by (simp add: work_left_def unlink_def)
      with unusable_work [OF hand fin u] have "work_left pending (entry_destroy e True q) < work_left pending p"
        by (simp add: work_left_def)
      then have "\<exists>r. acquire_loop env key dl now 0 (entry_destroy e True q) = Some r"
        by (intro 1(1)) (auto intro: pool_inv_destroy pool_inv_unusable [OF hand u])
      with i True u show ?thesis by (subst acquire_loop.simps) (simp add: e_def Let_def)
    qed
  qed
qed

section \<open>Runs\<close>

text \<open>
  The states a pool made on the heap \<open>h0\<close> can be in: operations in any order, while the world
  and the rest of the program (whose allocations balance) move on between them.
\<close>

inductive pool_reachable :: "('i, 'w) pool_env \<Rightarrow> heap \<Rightarrow> zuh_pool_config \<Rightarrow> ('i, 'w) zuh_pool \<Rightarrow> bool"
  for env :: "('i, 'w) pool_env" and h0 :: heap and cfg :: zuh_pool_config where
  made: "zuh_pool_new env (Some cfg) h0 w = (Some p, h) \<Longrightarrow> pool_reachable env h0 cfg p"
| clock: "pool_reachable env h0 cfg p \<Longrightarrow> pool_reachable env h0 cfg (zuh_pool_set_clock f p)"
| moved: "pool_reachable env h0 cfg p \<Longrightarrow> grew (pl_heap p) h 0 0 \<Longrightarrow> pool_reachable env h0 cfg (p\<lparr>pl_world := w, pl_heap := h\<rparr>)"
| acquired: "pool_reachable env h0 cfg p \<Longrightarrow> zuh_pool_acquire_by env key dl p = Some (r, q) \<Longrightarrow> pool_reachable env h0 cfg q"
| released: "pool_reachable env h0 cfg p \<Longrightarrow> pool_reachable env h0 cfg (zuh_pool_release env key s r p)"
| cleared: "pool_reachable env h0 cfg p \<Longrightarrow> pool_reachable env h0 cfg (zuh_pool_clear p)"
| checked: "pool_reachable env h0 cfg p \<Longrightarrow> pool_reachable env h0 cfg (snd (zuh_pool_check_fork env p))"

lemma pool_new_inv: "zuh_pool_new env (Some cfg) h0 w = (Some p, h) \<Longrightarrow> pool_inv h0 cfg [] {#} p"
  by (auto simp: zuh_pool_new_def pool_inv_def count_for_host_def kept_well_def
      simp del: One_nat_def split: prod.splits if_splits dest!: zuh_calloc_grew)

lemma reachable_inv: "pool_reachable env h0 cfg p \<Longrightarrow> pool_inv h0 cfg [] {#} p"
proof (induction rule: pool_reachable.induct)
  case (clock p f)
  then show ?case by (simp add: pool_inv_def zuh_pool_set_clock_def count_for_host_def)
next
  case (moved p h w)
  then show ?case using pool_inv_heap [of h0 cfg "[]" "{#}" "p\<lparr>pl_world := w\<rparr>" h] by simp
qed (auto intro: pool_new_inv pool_inv_acquire pool_inv_release pool_inv_clear pool_inv_check_fork)

section \<open>Connection options\<close>

text \<open>A list has a token if one of its elements, without the blanks around it, is the token in some letter case.\<close>

definition list_has :: "bytes \<Rightarrow> bytes \<Rightarrow> bool" where
  "list_has v tok \<longleftrightarrow> list_any (\<lambda>el. lowers el = lowers tok) v"

lemma header_has_token_iff: "tok \<noteq> [] \<Longrightarrow> header_has_token v tok = list_has v tok"
proof (induction v tok rule: header_has_token.induct)
  case (1 v tok)
  then have tok: "\<not> lowers [] = lowers tok" by simp
  have eq: "length el = length tok \<and> map lower el = map lower tok \<longleftrightarrow> lowers el = lowers tok" for el
    by (auto dest: map_eq_imp_length_eq)
  note step = list_any_step [of "\<lambda>el. lowers el = lowers tok", OF tok, of v]
  show ?case
  proof (cases "dropWhile list_sep v")
    case Nil
    with step show ?thesis by (subst header_has_token.simps) (simp only: list_has_def list.case)
  next
    case (Cons c cs)
    from 1(1) [OF Cons refl] 1(2) step show ?thesis
      unfolding list_has_def
      by (subst header_has_token.simps) (simp only: Cons list.case Let_def eq if_bool_eq_disj, blast)
  qed
qed

lemma connection_has_iff:
  assumes "tok \<noteq> []"
  shows "connection_has hs tok \<longleftrightarrow> (\<exists>v \<in> set (values_of ''Connection'' hs). list_has v tok)"
proof -
  have "connection_has hs tok \<longleftrightarrow> (\<exists>i < length (values_of ''Connection'' hs). list_has (values_of ''Connection'' hs ! i) tok)"
    by (auto simp: connection_has_def list_ex_iff headers_count_eq headers_get_at_eq header_has_token_iff [OF assms])
  also have "\<dots> \<longleftrightarrow> (\<exists>v \<in> set (values_of ''Connection'' hs). list_has v tok)" by (metis in_set_conv_nth)
  finally show ?thesis .
qed

section \<open>Properties\<close>

text \<open>
  C13: nothing is lost, kept twice or freed twice. In every reachable state each connection the
  pool ever took is exactly one of: pooled, given to a request, freed; the idle count is the
  number of entries, and neither the pool's capacity nor any host's share is exceeded. The
  releases that finalizers make while a PING waits are included, and so are failures of the
  allocator.
\<close>
theorem pool_conserves_connections:
  assumes "pool_reachable env h0 cfg p"
  shows "taken (pl_log p) = image_mset pe_stream (mset (pl_entries p)) + given (pl_log p) + freed (pl_log p)
    \<and> zuh_pool_idle_count p = length (pl_entries p) \<and> length (pl_entries p) \<le> cf_max_idle cfg
    \<and> (0 < cf_max_per_host cfg \<longrightarrow> count_for_host p key \<le> cf_max_per_host cfg)"
  using reachable_inv [OF assms] by (simp add: pool_inv_def zuh_pool_idle_count_def)

definition example_env :: "(nat, int) pool_env" where
  "example_env = \<lparr>en_now_ms = \<lambda>w. w, en_pid = \<lambda>w. 7, en_readable = \<lambda>s ms w. (0, w), en_h2_is = \<lambda>s w. False,
     en_h2_idle_ms = \<lambda>s w. 0, en_h2_ping = \<lambda>s d w. (True, [], w)\<rparr>"

lemma example_pool:
  obtains p where "pool_reachable example_env fresh_heap zuh_pool_config_init p" "plenty (pl_heap p)"
    "pl_entries p = []" "pl_log p = []" "pl_cfg p = zuh_pool_config_init" "pl_world p = 0" "pl_now_ms p = None"
    "pl_guard p = \<lparr>fg_owner_pid = 7, fg_armed = True\<rparr>" "pl_idle p = 0"
proof -
  obtain p h where p: "zuh_pool_new example_env (Some zuh_pool_config_init) fresh_heap 0 = (Some p, h)"
      "plenty (pl_heap p)" "pl_entries p = []" "pl_log p = []" "pl_cfg p = zuh_pool_config_init" "pl_world p = 0"
      "pl_now_ms p = None" "pl_guard p = \<lparr>fg_owner_pid = 7, fg_armed = True\<rparr>" "pl_idle p = 0"
    by (auto simp: zuh_pool_new_def zuh_calloc_def zuh_size_mul_def zuh_alloc_plenty POOL_SIZE_def SIZE_MAX_def
        ZUH_HDR_def example_env_def zuh_fork_guard_arm_def)
  with made [OF p(1)] show ?thesis by (intro that) auto
qed

lemma pool_conserves_connections_witness:
  "\<exists>p. pool_reachable example_env fresh_heap zuh_pool_config_init p
     \<and> taken (pl_log p) = {#5#} \<and> image_mset pe_stream (mset (pl_entries p)) + freed (pl_log p) = {#5#}"
proof -
  obtain p where p: "pool_reachable example_env fresh_heap zuh_pool_config_init p" "pl_entries p = []" "pl_log p = []"
      "pl_guard p = \<lparr>fg_owner_pid = 7, fg_armed = True\<rparr>" by (rule example_pool) blast
  let ?q = "zuh_pool_release example_env zuh_pool_key_init 5 ZUH_NOREUSE_CANCELLED p"
  have q: "pool_reachable example_env fresh_heap zuh_pool_config_init ?q" by (rule released [OF p(1)])
  have log: "pl_log ?q = [Took zuh_pool_key_init 5 ZUH_NOREUSE_CANCELLED, Closed 5, Freed 5]"
    using p by (simp add: zuh_pool_release_def zuh_pool_check_fork_def zuh_fork_guard_tripped_def example_env_def
        close_free_def Let_def)
  from pool_conserves_connections [OF q, of zuh_pool_key_init] q log show ?thesis
    by (intro exI [of _ ?q]) simp
qed

lemma acquired_entry:
  assumes "pool_reachable env h0 cfg p" and "zuh_pool_acquire_by env key dl p = Some (Some s, q)"
  shows "\<exists>e. Took (pe_key e) s ZUH_REUSE_OK \<in> set (pl_log q) \<and> Kept e \<in> set (pl_log q) \<and> pe_stream e = s
    \<and> zuh_pool_key_eq (pe_key e) key \<and> fit_for_use env cfg (pool_now env p) e \<and> last (pl_log q) = Gave key s"
proof -
  define p1 where "p1 = snd (zuh_pool_check_fork env p)"
  have now: "pool_now env p1 = pool_now env p"
    using check_fork_work [of env p] by (simp add: p1_def pool_now_def split: option.split)
  from assms(2) have run: "acquire_loop env key dl (pool_now env p) 0 p1 = Some (Some s, q)"
    using now by (simp add: zuh_pool_acquire_by_def Let_def p1_def)
  have "pool_inv h0 cfg [] {#} p1" unfolding p1_def by (rule pool_inv_check_fork [OF reachable_inv [OF assms(1)]])
  from acquire_loop_spec [OF run this] obtain e where e: "Kept e \<in> set (pl_log q)" "pe_stream e = s"
      "zuh_pool_key_eq (pe_key e) key" "fit_for_use env cfg (pool_now env p) e" "last (pl_log q) = Gave key s"
      and q: "pool_inv h0 cfg [] {#} q" by auto
  have "Took (pe_key e) s ZUH_REUSE_OK \<in> set (pl_log q)" using q e(1,2) by (auto simp: pool_inv_def kept_well_def)
  with e show ?thesis by blast
qed

text \<open>
  C5: a connection reaches only a request it was made for. When \<^verbatim>\<open>zuh_pool_acquire_by\<close> gives one,
  it had been released for reuse under a key that agrees with the request's in every field
  (scheme and host up to case): same port, same proxy with its credentials, same TLS
  verification, trust, pins and client certificate, same protocol mode; it had not expired, did
  not answer readable, answered the PING if one was due, and it is now the request's alone.
\<close>
theorem pool_acquire_safe:
  assumes "pool_reachable env h0 cfg p" and "zuh_pool_acquire_by env key dl p = Some (Some s, q)"
  shows "\<exists>e. Took (pe_key e) s ZUH_REUSE_OK \<in> set (pl_log q) \<and> Kept e \<in> set (pl_log q) \<and> pe_stream e = s
    \<and> (pe_key e)\<lparr>pk_scheme := None, pk_host := None\<rparr> = key\<lparr>pk_scheme := None, pk_host := None\<rparr>
    \<and> map_option (\<lambda>x. lowers (c_string x)) (pk_scheme (pe_key e)) = map_option (\<lambda>x. lowers (c_string x)) (pk_scheme key)
    \<and> map_option (\<lambda>x. lowers (c_string x)) (pk_host (pe_key e)) = map_option (\<lambda>x. lowers (c_string x)) (pk_host key)
    \<and> fit_for_use env cfg (pool_now env p) e \<and> last (pl_log q) = Gave key s"
proof -
  from acquired_entry [OF assms] obtain e where "Took (pe_key e) s ZUH_REUSE_OK \<in> set (pl_log q)" "Kept e \<in> set (pl_log q)"
      "pe_stream e = s" "zuh_pool_key_eq (pe_key e) key" "fit_for_use env cfg (pool_now env p) e" "last (pl_log q) = Gave key s" by blast
  then show ?thesis
    by (intro exI [of _ e]) (auto simp: zuh_pool_key_eq_def str_eq_ci_iff intro: zuh_pool_key.equality)
qed

lemma example_release:
  assumes "plenty (pl_heap p)" "pl_entries p = []" "pl_cfg p = zuh_pool_config_init" "pl_idle p = 0"
    "pl_guard p = \<lparr>fg_owner_pid = 7, fg_armed = True\<rparr>" "pl_now_ms p = None"
    and copy: "zuh_pool_key_copy key (note_alloc 128 (pl_heap p)) = (Some key, h')"
  shows "pl_entries (zuh_pool_release example_env key s ZUH_REUSE_OK p)
      = [\<lparr>pe_key = key, pe_stream = s, pe_idle_since = pl_world p\<rparr>]"
    "pl_guard (zuh_pool_release example_env key s ZUH_REUSE_OK p) = pl_guard p"
    "pl_cfg (zuh_pool_release example_env key s ZUH_REUSE_OK p) = pl_cfg p"
    "pl_world (zuh_pool_release example_env key s ZUH_REUSE_OK p) = pl_world p"
    "pl_now_ms (zuh_pool_release example_env key s ZUH_REUSE_OK p) = None"
proof -
  have a: "zuh_calloc 1 POOL_ENTRY_SIZE (pl_heap p) = (True, note_alloc 128 (pl_heap p))"
    using zuh_alloc_plenty [OF assms(1), of 128]
    by (simp add: zuh_calloc_def zuh_size_mul_def POOL_ENTRY_SIZE_def SIZE_MAX_def ZUH_HDR_def)
  have w: "make_room key r = r" if "pl_entries r = []" "pl_idle r = 0" "pl_cfg r = zuh_pool_config_init"
    for r :: "(nat, int) zuh_pool"
    using that by (simp add: make_room_def count_for_host_def zuh_pool_config_init_def Let_def while_unfold)
  show "pl_entries (zuh_pool_release example_env key s ZUH_REUSE_OK p)
      = [\<lparr>pe_key = key, pe_stream = s, pe_idle_since = pl_world p\<rparr>]"
    "pl_guard (zuh_pool_release example_env key s ZUH_REUSE_OK p) = pl_guard p"
    "pl_cfg (zuh_pool_release example_env key s ZUH_REUSE_OK p) = pl_cfg p"
    "pl_world (zuh_pool_release example_env key s ZUH_REUSE_OK p) = pl_world p"
    "pl_now_ms (zuh_pool_release example_env key s ZUH_REUSE_OK p) = None"
    using assms a
    by (simp_all add: zuh_pool_release_def zuh_pool_check_fork_def zuh_fork_guard_tripped_def copy w Let_def
        example_env_def zuh_pool_config_init_def pool_now_def) (simp_all add: note_event_def bump_def)
qed

lemma example_reuse:
  assumes copy: "\<And>h. plenty h \<Longrightarrow> \<exists>h'. zuh_pool_key_copy key h = (Some key, h')"
  obtains p q where "pool_reachable example_env fresh_heap zuh_pool_config_init p"
    "zuh_pool_acquire_by example_env key zuh_deadline_never p = Some (Some 5, q)"
proof -
  obtain p where p: "pool_reachable example_env fresh_heap zuh_pool_config_init p" "plenty (pl_heap p)" "pl_entries p = []"
      "pl_cfg p = zuh_pool_config_init" "pl_idle p = 0" "pl_guard p = \<lparr>fg_owner_pid = 7, fg_armed = True\<rparr>"
      "pl_now_ms p = None" by (rule example_pool) blast
  let ?r = "zuh_pool_release example_env key 5 ZUH_REUSE_OK p"
  obtain h' where "zuh_pool_key_copy key (note_alloc 128 (pl_heap p)) = (Some key, h')" using copy p(2) by fastforce
  note r = example_release [OF p(2,3,4,5,6,7) this, of 5]
  have eq: "zuh_pool_key_eq key key" by (simp add: zuh_pool_key_eq_def str_eq_ci_iff)
  obtain q where q: "zuh_pool_acquire_by example_env key zuh_deadline_never ?r = Some (Some 5, q)"
    using r p eq
    by (simp add: zuh_pool_acquire_by_def zuh_pool_check_fork_def zuh_fork_guard_tripped_def acquire_loop.simps Let_def
        entry_unusable_def example_env_def zuh_pool_config_init_def unlink_def pool_now_def)
  from that [OF released [OF p(1)] q] show ?thesis .
qed

lemma pool_acquire_safe_witness:
  "\<exists>p q. pool_reachable example_env fresh_heap zuh_pool_config_init p
     \<and> zuh_pool_acquire_by example_env zuh_pool_key_init zuh_deadline_never p = Some (Some 5, q)
     \<and> last (pl_log q) = Gave zuh_pool_key_init 5"
proof -
  have "\<exists>h'. zuh_pool_key_copy zuh_pool_key_init h = (Some zuh_pool_key_init, h')" for h
    by (simp add: zuh_pool_key_copy_def zuh_pool_key_init_def)
  then obtain p q where "pool_reachable example_env fresh_heap zuh_pool_config_init p"
      "zuh_pool_acquire_by example_env zuh_pool_key_init zuh_deadline_never p = Some (Some 5, q)"
    using example_reuse [of zuh_pool_key_init] by blast
  with pool_acquire_safe [OF this] show ?thesis by blast
qed

text \<open>
  C19: \<^verbatim>\<open>zuh_pool_acquire_by\<close> returns. Each pass over the list either leaves an entry behind or
  drops one, so the restarts end even though a PING may run finalizers that release into the
  list being scanned, as long as there are finitely many left to run.
\<close>
theorem pool_acquire_returns:
  assumes "pool_reachable env h0 cfg p" and "bounded_finalizers env pending"
  shows "\<exists>r. zuh_pool_acquire_by env key dl p = Some r"
  using acquire_loop_returns [OF assms(2) pool_inv_check_fork [OF reachable_inv [OF assms(1)]]]
  by (simp add: zuh_pool_acquire_by_def Let_def)

lemma pool_acquire_returns_witness:
  "\<exists>p r. pool_reachable example_env fresh_heap zuh_pool_config_init p
     \<and> zuh_pool_acquire_by example_env zuh_pool_key_init zuh_deadline_never p = Some r"
proof -
  obtain p where p: "pool_reachable example_env fresh_heap zuh_pool_config_init p" by (rule example_pool) blast
  have "bounded_finalizers example_env (\<lambda>w. 0)" by (simp add: bounded_finalizers_def example_env_def)
  from pool_acquire_returns [OF p this] p show ?thesis by blast
qed

text \<open>A release into a pool that a forked child has just emptied.\<close>

lemma make_room_empty: "pl_entries p = [] \<Longrightarrow> pl_idle p = 0 \<Longrightarrow> cf_max_idle (pl_cfg p) \<noteq> 0 \<Longrightarrow> make_room key p = p"
  unfolding make_room_def Let_def by (subst while_unfold) (auto simp: count_for_host_def)

lemma release_forked:
  assumes "zuh_fork_guard_tripped (en_pid env (pl_world p)) (pl_guard p)"
  shows "let q = zuh_pool_release env key s r p in
    (\<exists>rest. pl_log q = pl_log p @ Took key s r # map (\<lambda>e. Freed (pe_stream e)) (pl_entries p) @ rest
      \<and> ((\<exists>e. pe_stream e = s \<and> rest = [Kept e] \<and> pl_entries q = [e]) \<or> rest = [Closed s, Freed s] \<and> pl_entries q = []))
    \<and> \<not> zuh_fork_guard_tripped (en_pid env (pl_world p)) (pl_guard q)"
proof -
  define q where "q = snd (zuh_pool_check_fork env (note_event (Took key s r) p))"
  have q: "pl_entries q = []" "pl_idle q = 0" "pl_log q = pl_log p @ Took key s r # map (\<lambda>e. Freed (pe_stream e)) (pl_entries p)"
      "pl_guard q = zuh_fork_guard_arm (en_pid env (pl_world p))"
    using assms unfolding q_def zuh_pool_check_fork_def
    by (simp_all add: Let_def note_event_def fold_destroy_log concat_map_singleton bump_def)
  have armed: "\<not> zuh_fork_guard_tripped pid (zuh_fork_guard_arm pid)" for pid
    by (simp add: zuh_fork_guard_tripped_def zuh_fork_guard_arm_def)
  obtain rd w where rd: "en_readable env s (cf_stale_probe_ms (pl_cfg q)) (pl_world q) = (rd, w)" by (rule prod.exhaust)
  obtain ok h where a: "zuh_calloc 1 POOL_ENTRY_SIZE (pl_heap q) = (ok, h)" by (rule prod.exhaust)
  obtain k h2 where k: "zuh_pool_key_copy key h = (k, h2)" by (rule prod.exhaust)
  show ?thesis
  proof (cases "r \<noteq> ZUH_REUSE_OK \<or> rd = 1 \<or> cf_max_idle (pl_cfg q) = 0 \<or> \<not> ok \<or> k = None")
    case True
    then have "\<exists>x. zuh_pool_release env key s r p = close_free s x \<and> pl_entries x = [] \<and> pl_log x = pl_log q \<and> pl_guard x = pl_guard q"
      unfolding zuh_pool_release_def Let_def q_def [symmetric] rd prod.case using a k q by (auto simp: bump_def)
    then show ?thesis using q armed by (auto simp: close_free_def note_event_def)
  next
    case False
    then obtain k' where k': "k = Some k'" by auto
    define e where "e = \<lparr>pe_key = k', pe_stream = s, pe_idle_since = pool_now env (q\<lparr>pl_world := w\<rparr>)\<rparr>"
    define x where "x = note_event (Kept e) (q\<lparr>pl_world := w, pl_heap := h2\<rparr>)"
    have x: "pl_entries x = []" "pl_log x = pl_log q @ [Kept e]" "pl_guard x = pl_guard q" "make_room key x = x"
      using q False by (simp_all add: x_def note_event_def make_room_empty)
    have "zuh_pool_release env key s r p = (let p = x\<lparr>pl_entries := e # pl_entries x, pl_idle := pl_idle x + 1\<rparr>
        in bump (\<lambda>t. set_idle t (pl_idle p)) p)"
      unfolding zuh_pool_release_def Let_def q_def [symmetric] rd prod.case
      using a k k' False x(4) by (simp add: x_def e_def pool_now_def)
    then show ?thesis using q x armed by (simp add: bump_def Let_def e_def)
  qed
qed

text \<open>
  C17: a forked child never touches what it inherited. The first acquire, release or final free
  in a process that did not arm the guard frees every pooled connection without closing any
  gracefully. An acquire then finds nothing to reuse; a release pools at most the connection released, or
  closes and frees it; and both leave the pool the child's own.
\<close>
theorem pool_fork_safe:
  assumes "zuh_fork_guard_tripped (en_pid env (pl_world p)) (pl_guard p)"
  shows "(\<exists>q. zuh_pool_acquire_by env key dl p = Some (None, q) \<and> pl_entries q = []
        \<and> pl_log q = pl_log p @ map (\<lambda>e. Freed (pe_stream e)) (pl_entries p)
        \<and> \<not> zuh_fork_guard_tripped (en_pid env (pl_world q)) (pl_guard q))
    \<and> (let q = zuh_pool_release env key s r p in
        (\<exists>rest. pl_log q = pl_log p @ Took key s r # map (\<lambda>e. Freed (pe_stream e)) (pl_entries p) @ rest
          \<and> ((\<exists>e. pe_stream e = s \<and> rest = [Kept e] \<and> pl_entries q = [e]) \<or> rest = [Closed s, Freed s] \<and> pl_entries q = []))
        \<and> \<not> zuh_fork_guard_tripped (en_pid env (pl_world p)) (pl_guard q))
    \<and> pl_log (zuh_pool_free env p) = pl_log p @ map (\<lambda>e. Freed (pe_stream e)) (pl_entries p)"
proof -
  define q where "q = snd (zuh_pool_check_fork env p)"
  have q: "pl_entries q = []" "pl_log q = pl_log p @ map (\<lambda>e. Freed (pe_stream e)) (pl_entries p)"
      "\<not> zuh_fork_guard_tripped (en_pid env (pl_world q)) (pl_guard q)"
    using assms unfolding q_def zuh_pool_check_fork_def
    by (simp_all add: Let_def fold_destroy_log concat_map_singleton
        zuh_fork_guard_arm_def) (simp_all add: zuh_fork_guard_tripped_def)
  have "acquire_loop env key dl (pool_now env q) 0 q
      = Some (None, bump (\<lambda>t. set_idle (t\<lparr>ps_misses := ps_misses t + 1\<rparr>) (pl_idle q)) q)"
    by (subst acquire_loop.simps) (simp add: q(1))
  with q assms release_forked [OF assms, of key s r] show ?thesis
    by (simp add: zuh_pool_acquire_by_def zuh_pool_free_def Let_def flip: q_def)
qed

lemma pool_fork_safe_witness:
  "\<exists>p q. zuh_pool_acquire_by example_env zuh_pool_key_init zuh_deadline_never p = Some (None, q)
     \<and> pl_log p = [] \<and> pl_log q = [Freed 5]"
proof -
  obtain p where p: "pool_reachable example_env fresh_heap zuh_pool_config_init p" "pl_log p = []"
    by (rule example_pool) blast
  let ?p = "p\<lparr>pl_guard := \<lparr>fg_owner_pid = 6, fg_armed = True\<rparr>,
      pl_entries := [\<lparr>pe_key = zuh_pool_key_init, pe_stream = 5, pe_idle_since = 0\<rparr>]\<rparr>"
  have "zuh_fork_guard_tripped (en_pid example_env (pl_world ?p)) (pl_guard ?p)"
    by (simp add: zuh_fork_guard_tripped_def example_env_def)
  from pool_fork_safe [OF this, of zuh_pool_key_init zuh_deadline_never]
  obtain q where "zuh_pool_acquire_by example_env zuh_pool_key_init zuh_deadline_never ?p = Some (None, q)"
    "pl_log q = pl_log ?p @ [Freed 5]" by auto
  with p show ?thesis by (intro exI [of _ ?p] exI [of _ q]) simp
qed

text \<open>
  The life of a pool balances. From \<^verbatim>\<open>zuh_pool_new\<close> through any operations to
  \<^verbatim>\<open>zuh_pool_free\<close>, whatever allocations failed, every connection taken was given or freed and the
  live blocks and bytes are back where they were.
\<close>
lemma pool_life_balances:
  assumes "pool_reachable env h0 cfg p"
  shows "taken (pl_log (zuh_pool_free env p)) = given (pl_log (zuh_pool_free env p)) + freed (pl_log (zuh_pool_free env p))
    \<and> live_blocks (pl_heap (zuh_pool_free env p)) = live_blocks h0
    \<and> live_bytes (pl_heap (zuh_pool_free env p)) = live_bytes h0"
proof -
  define q where "q = (if zuh_fork_guard_tripped (en_pid env (pl_world p)) (pl_guard p)
      then snd (zuh_pool_check_fork env p) else zuh_pool_clear p)"
  have inv: "pool_inv h0 cfg [] {#} q" and empty: "pl_entries q = []"
    using pool_inv_check_fork [OF reachable_inv [OF assms], of env] pool_inv_clear [OF reachable_inv [OF assms]]
    by (simp_all add: q_def) (simp_all add: zuh_pool_check_fork_def zuh_pool_clear_def Let_def)
  from inv empty have "grew h0 (pl_heap q) 1 (of_nat POOL_SIZE)" by (simp add: pool_inv_def)
  from grew_trans [OF this zuh_free_grew] inv empty show ?thesis
    by (simp add: zuh_pool_free_def Let_def q_def [symmetric] grew_def pool_inv_def)
qed

lemma pool_life_balances_witness:
  "\<exists>p. pool_reachable example_env fresh_heap zuh_pool_config_init p
     \<and> live_blocks (pl_heap (zuh_pool_free example_env p)) = 0"
proof -
  obtain p where p: "pool_reachable example_env fresh_heap zuh_pool_config_init p" by (rule example_pool) blast
  from pool_life_balances [OF p] p show ?thesis by (auto simp: fresh_heap_def)
qed

definition connection_lists :: "zuh_headers \<Rightarrow> bytes \<Rightarrow> bool" where
  "connection_lists hs opt \<longleftrightarrow> list_ex (\<lambda>v. list_has v opt) (values_of ''Connection'' hs)"

text \<open>
  C18: a connection is offered for reuse exactly when the exchange ended well, the body was framed
  by the message itself, no \<^verbatim>\<open>Connection\<close> field of the response lists \<^verbatim>\<open>close\<close>, and an HTTP/1.0
  server asked for \<^verbatim>\<open>keep-alive\<close>. The option is looked for as an element of the comma-separated
  list, in any letter case and without the blanks around it, in every field of that name.
\<close>
theorem reuse_decide_exact:
  "zuh_reuse_decide rc fr hs minor = ZUH_REUSE_OK \<longleftrightarrow>
     rc = ZUH_OK \<and> fr_poolable fr \<and> fr_kind fr \<noteq> ZUH_FRAME_UNTIL_CLOSE
     \<and> \<not> connection_lists hs ''close'' \<and> (if minor = 0 then connection_lists hs ''keep-alive'' else True)"
  by (simp add: zuh_reuse_decide_def connection_has_iff connection_lists_def list_ex_iff)

end
