(* ===== verification/Zuh_Proxy.thy ===== *)
theory Zuh_Proxy
  imports Zuh_Uri Zuh_Lists
begin

text \<open>
  \<^verbatim>\<open>src/zuh_proxy.c\<close>: which proxy applies to a request, the credentials it is given, and the
  requests that go to it. The environment is a function from names to values, \<open>None\<close> for a
  variable that is not set; the vendored uriparser is a parameter, as in \<^verbatim>\<open>Zuh_Uri\<close>.
\<close>

section \<open>Environment and helpers\<close>

type_synonym zuh_env = "(bytes \<Rightarrow> bytes option) option"

definition env_get :: "zuh_env \<Rightarrow> bytes \<Rightarrow> bytes option" where
  "env_get e name =
     (case e of None \<Rightarrow> None
      | Some get \<Rightarrow> (case get name of Some v \<Rightarrow> (if v \<noteq> [] then Some v else None) | None \<Rightarrow> None))"

definition proxy_hexval :: "char \<Rightarrow> int" where
  "proxy_hexval ch =
     (if cval (CHR ''0'') \<le> cval ch \<and> cval ch \<le> cval (CHR ''9'') then int (cval ch - cval (CHR ''0''))
      else if cval (CHR ''a'') \<le> cval ch \<and> cval ch \<le> cval (CHR ''f'') then int (cval ch - cval (CHR ''a'') + 10)
      else if cval (CHR ''A'') \<le> cval ch \<and> cval ch \<le> cval (CHR ''F'') then int (cval ch - cval (CHR ''A'') + 10)
      else -1)"

text \<open>
  \<^verbatim>\<open>pct_decode\<close> on a NUL-terminated string, \<open>None\<close> for -1. Past the end it reads the
  terminator, which is no hexadecimal digit.
\<close>

fun pct_decode :: "bytes \<Rightarrow> bytes option" where
  "pct_decode [] = Some []"
| "pct_decode (c # cs) =
     (if c = CHR ''%'' then
        (case cs of
           a # b # rest \<Rightarrow>
             let hi = proxy_hexval a; lo = (if hi < 0 then -1 else proxy_hexval b) in
             if lo < 0 then None
             else map_option ((#) (char_of (nat (push_bit 4 hi OR lo)))) (pct_decode rest)
         | _ \<Rightarrow> None)
      else map_option ((#) c) (pct_decode cs))"

definition count_colons :: "bytes \<Rightarrow> nat" where
  "count_colons s = length (filter (\<lambda>c. c = CHR '':'') s)"

definition is_ip_literal :: "bytes \<Rightarrow> bool" where
  "is_ip_literal s =
     (if CHR '':'' \<in> set s then True
      else let digits = length (filter is_digit s);
               dots = length (filter (\<lambda>c. c = CHR ''.'') s);
               other = length (filter (\<lambda>c. \<not> is_digit c \<and> c \<noteq> CHR ''.'') s)
           in other = 0 \<and> dots = 3 \<and> digits > 0)"

section \<open>Base64\<close>

definition b64_alphabet :: bytes where
  "b64_alphabet = ''ABCDEFGHIJKLMNOPQRSTUVWXYZabcdefghijklmnopqrstuvwxyz0123456789+/''"

definition b64_char :: "nat \<Rightarrow> char" where
  "b64_char i = b64_alphabet ! i"

text \<open>\<^verbatim>\<open>zuh_base64_encode\<close>, group by group.\<close>

fun zuh_base64_encode :: "bytes \<Rightarrow> zuh_buffer \<times> heap \<Rightarrow> bool \<times> zuh_buffer \<times> heap" where
  "zuh_base64_encode (a # b # c # rest) s =
     (let v = push_bit 16 (cval a) OR push_bit 8 (cval b) OR cval c in
      c_and (c_all [zuh_buf_append_byte (b64_char (drop_bit 18 v AND 63)),
                    zuh_buf_append_byte (b64_char (drop_bit 12 v AND 63)),
                    zuh_buf_append_byte (b64_char (drop_bit 6 v AND 63)),
                    zuh_buf_append_byte (b64_char (v AND 63))])
        (zuh_base64_encode rest) s)"
| "zuh_base64_encode [a, b] s =
     (let v = push_bit 16 (cval a) OR push_bit 8 (cval b) in
      c_all [zuh_buf_append_byte (b64_char (drop_bit 18 v AND 63)),
             zuh_buf_append_byte (b64_char (drop_bit 12 v AND 63)),
             zuh_buf_append_byte (b64_char (drop_bit 6 v AND 63)),
             zuh_buf_append_byte (CHR ''='')] s)"
| "zuh_base64_encode [a] s =
     (let v = push_bit 16 (cval a) in
      c_all [zuh_buf_append_byte (b64_char (drop_bit 18 v AND 63)),
             zuh_buf_append_byte (b64_char (drop_bit 12 v AND 63)),
             zuh_buf_append_byte (CHR ''=''),
             zuh_buf_append_byte (CHR ''='')] s)"
| "zuh_base64_encode [] s = (True, s)"

section \<open>The proxy\<close>

text \<open>
  The user name and password are decoded in place, so the block sizes of their allocations
  are kept beside them.
\<close>

record zuh_proxy =
  px_in_use :: bool
  px_scheme :: "bytes option"
  px_host :: "bytes option"
  px_port :: "16 word"
  px_username :: "bytes option"
  px_username_block :: "nat option"
  px_password :: "bytes option"
  px_password_block :: "nat option"
  px_source :: "bytes option"

definition zuh_proxy_init :: zuh_proxy where
  "zuh_proxy_init = \<lparr>px_in_use = False, px_scheme = None, px_host = None, px_port = 0, px_username = None,
     px_username_block = None, px_password = None, px_password_block = None, px_source = None\<rparr>"

definition zuh_proxy_free :: "zuh_proxy \<Rightarrow> heap \<Rightarrow> zuh_proxy \<times> heap" where
  "zuh_proxy_free p h =
     (zuh_proxy_init,
      zuh_free (str_block (px_source p)) (zuh_free (px_password_block p) (zuh_free (px_username_block p)
        (zuh_free (str_block (px_host p)) (zuh_free (str_block (px_scheme p)) h)))))"

definition dup_s :: "bytes option \<Rightarrow> heap \<Rightarrow> bytes option \<times> heap" where
  "dup_s s h =
     (case s of
        None \<Rightarrow> (None, h)
      | Some t \<Rightarrow> (case zuh_alloc (length t + 1) h of (ok, h) \<Rightarrow> (if ok then Some t else None, h)))"

text \<open>\<^verbatim>\<open>strstr\<close>: does the text contain the pattern?\<close>

fun strstr_found :: "bytes \<Rightarrow> bytes \<Rightarrow> bool" where
  "strstr_found [] pat = (pat = [])"
| "strstr_found (c # cs) pat = (take (length pat) (c # cs) = pat \<or> strstr_found cs pat)"

abbreviation proxy_error :: "zuh_error \<Rightarrow> bytes \<Rightarrow> zuh_error" where
  "proxy_error e msg \<equiv> zuh_error_set e ZUH_ERR_PROXY ZUH_PHASE_CONNECT msg"

definition zuh_proxy_parse ::
    "uri_parser \<Rightarrow> (up_uri \<Rightarrow> heap \<Rightarrow> heap) \<Rightarrow> bytes option \<Rightarrow> zuh_error \<Rightarrow> heap \<Rightarrow> zuh_code \<times> zuh_proxy \<times> zuh_error \<times> heap" where
  "zuh_proxy_parse up_parse up_free url err h =
     (let p = zuh_proxy_init in
      case url of None \<Rightarrow> (ZUH_OK, p, err, h) | Some url \<Rightarrow>
      if url = [] then (ZUH_OK, p, err, h)
      else case (if \<not> strstr_found url ''://'' then zuh_alloc (length url + 8) h else (True, h)) of (ok, h) \<Rightarrow>
      if \<not> ok then (ZUH_ERR_NOMEM, p, err, h)
      else
        let bare = \<not> strstr_found url ''://'';
            txt = (if bare then ''http://'' @ url else url) in
        case zuh_uri_parse up_parse up_free txt h of (rc, u, h) \<Rightarrow>
        let h = (if bare then zuh_free (Some (length url + 8)) h else h) in
        if rc = ZUH_ERR_NOMEM then (ZUH_ERR_NOMEM, p, zuh_error_set err ZUH_ERR_NOMEM ZUH_PHASE_NONE ''out of memory'', h)
        else if rc \<noteq> ZUH_OK then (ZUH_ERR_PROXY, p, proxy_error err ''proxy URL is not usable'', h)
        else if the (u_scheme u) \<noteq> ''http'' then
          (ZUH_ERR_PROXY, p, proxy_error err (''only http:// proxies are supported, not '' @ the (u_scheme u) @ ''://''),
           snd (zuh_uri_free u h))
        else case dup_s (u_scheme u) h of (sc, h) \<Rightarrow>
        case dup_s (u_host u) h of (ho, h) \<Rightarrow>
        let p = p\<lparr>px_scheme := sc, px_host := ho, px_port := u_port u\<rparr> in
        if sc = None \<or> ho = None then
          (case zuh_proxy_free p (snd (zuh_uri_free u h)) of (p, h) \<Rightarrow> (ZUH_ERR_NOMEM, p, err, h))
        else case u_userinfo u of
          None \<Rightarrow> (ZUH_OK, p\<lparr>px_in_use := True\<rparr>, err, snd (zuh_uri_free u h))
        | Some ui \<Rightarrow>
            let user = takeWhile (\<lambda>c. c \<noteq> CHR '':'') ui;
                pass = drop 1 (dropWhile (\<lambda>c. c \<noteq> CHR '':'') ui) in
            case dup_s (Some user) h of (us, h) \<Rightarrow>
            case dup_s (Some pass) h of (pw, h) \<Rightarrow>
            let p = p\<lparr>px_username := us, px_username_block := str_block us, px_password := pw,
                      px_password_block := str_block pw\<rparr> in
            if us = None \<or> pw = None then
              (case zuh_proxy_free p (snd (zuh_uri_free u h)) of (p, h) \<Rightarrow> (ZUH_ERR_NOMEM, p, err, h))
            else case (pct_decode user, pct_decode pass) of
              (Some us, Some pw) \<Rightarrow>
                (ZUH_OK, p\<lparr>px_username := Some us, px_password := Some pw, px_in_use := True\<rparr>, err,
                 snd (zuh_uri_free u h))
            | _ \<Rightarrow>
                (case zuh_proxy_free p (snd (zuh_uri_free u h)) of (p, h) \<Rightarrow>
                  (ZUH_ERR_PROXY, p, proxy_error err ''proxy credentials contain a malformed percent-escape'', h)))"

section \<open>NO\_PROXY\<close>

text \<open>\<^verbatim>\<open>strtol\<close> in base 10 of a NUL-terminated string, saturating at the ends of a 64-bit \<^verbatim>\<open>long\<close>.\<close>

definition c_isspace :: "char \<Rightarrow> bool" where
  "c_isspace c \<longleftrightarrow> c = SP \<or> (9 \<le> cval c \<and> cval c \<le> 13)"

definition strtol10 :: "bytes \<Rightarrow> int" where
  "strtol10 s =
     (let s = dropWhile c_isspace s;
          neg = (s \<noteq> [] \<and> hd s = CHR ''-'');
          s = (if s \<noteq> [] \<and> (hd s = CHR ''-'' \<or> hd s = CHR ''+'') then tl s else s);
          v = int (dec_value 0 (takeWhile is_digit s));
          v = (if neg then - v else v)
      in max (- 9223372036854775808) (min 9223372036854775807 v))"

text \<open>
  The part of an entry that is compared with the host, or \<open>None\<close> if the entry is malformed or
  its port differs: \<open>el\<close> is the trimmed entry and \<open>follow\<close> the text after it, which \<^verbatim>\<open>strtol\<close>
  may read too.
\<close>

definition entry_name :: "bytes \<Rightarrow> bytes \<Rightarrow> 16 word \<Rightarrow> bytes option" where
  "entry_name el follow port =
     (if hd el = CHR ''['' then
        (if CHR '']'' \<notin> set el then None
         else let inner = takeWhile (\<lambda>c. c \<noteq> CHR '']'') (tl el);
                  after = drop 1 (dropWhile (\<lambda>c. c \<noteq> CHR '']'') el)
              in if after \<noteq> [] \<and> hd after = CHR '':'' \<and> strtol10 (tl after @ follow) \<noteq> int (unat port) then None
                 else Some inner)
      else if count_colons el = 1 then
        (if strtol10 (tl (dropWhile (\<lambda>c. c \<noteq> CHR '':'') el) @ follow) \<noteq> int (unat port) then None
         else Some (takeWhile (\<lambda>c. c \<noteq> CHR '':'') el))
      else Some el)"

text \<open>The comparison: \<open>True\<close> is \<^verbatim>\<open>return 1\<close>, \<open>False\<close> is \<^verbatim>\<open>continue\<close> or the end of the loop body.\<close>

definition name_matches :: "bytes \<Rightarrow> bytes \<Rightarrow> bool" where
  "name_matches name host =
     (let name = (if name \<noteq> [] \<and> hd name = CHR ''.'' then tl name else name);
          elen = length name; hlen = length host in
      if elen = 0 then False
      else if elen > hlen then False
      else if zuh_ascii_ncasecmp (drop (hlen - elen) host) name \<noteq> 0 then False
      else if elen = hlen then True
      else if is_ip_literal name then False
      else host ! (hlen - elen - 1) = CHR ''.'')"

function no_proxy_loop :: "bytes \<Rightarrow> bytes \<Rightarrow> 16 word \<Rightarrow> bool" where
  "no_proxy_loop p host port =
     (case dropWhile list_sep p of
        [] \<Rightarrow> False
      | c # cs \<Rightarrow>
          let raw = takeWhile (\<lambda>c. c \<noteq> CHR '','') (c # cs);
              rest = dropWhile (\<lambda>c. c \<noteq> CHR '','') (c # cs);
              el = trim_right raw;
              follow = drop (length el) raw @ rest in
          if el = ''*'' then True
          else (case entry_name el follow port of
              None \<Rightarrow> no_proxy_loop rest host port
            | Some name \<Rightarrow> if name_matches name host then True else no_proxy_loop rest host port))"
  by pat_completeness auto
termination
  by (relation "measure (\<lambda>(p, host, port). length p)") (auto dest: list_scan_shrinks)

declare no_proxy_loop.simps [simp del]

definition zuh_no_proxy_matches :: "bytes option \<Rightarrow> bytes option \<Rightarrow> 16 word \<Rightarrow> bool" where
  "zuh_no_proxy_matches no_proxy host port =
     (case (no_proxy, host) of
        (Some np, Some ho) \<Rightarrow> if length ho = 0 then False else no_proxy_loop np ho port
      | _ \<Rightarrow> False)"

section \<open>Resolution\<close>

text \<open>A parsed proxy with the name of what decided it, as both ends of \<^verbatim>\<open>zuh_proxy_resolve\<close> add it.\<close>

definition proxy_from :: "uri_parser \<Rightarrow> (up_uri \<Rightarrow> heap \<Rightarrow> heap) \<Rightarrow> bytes option \<Rightarrow> bytes \<Rightarrow> zuh_error \<Rightarrow> heap
    \<Rightarrow> zuh_code \<times> zuh_proxy \<times> zuh_error \<times> heap" where
  "proxy_from up_parse up_free url src err h =
     (case zuh_proxy_parse up_parse up_free url err h of (rc, out, err, h) \<Rightarrow>
        if rc = ZUH_OK \<and> px_in_use out then
          (case dup_s (Some src) h of (so, h) \<Rightarrow>
            if so = None then (case zuh_proxy_free (out\<lparr>px_source := so\<rparr>) h of (out, h) \<Rightarrow> (ZUH_ERR_NOMEM, out, err, h))
            else (rc, out\<lparr>px_source := so\<rparr>, err, h))
        else (rc, out, err, h))"

definition zuh_proxy_resolve ::
    "uri_parser \<Rightarrow> (up_uri \<Rightarrow> heap \<Rightarrow> heap) \<Rightarrow> zuh_uri \<Rightarrow> zuh_env \<Rightarrow> bytes option \<Rightarrow> bool \<Rightarrow> zuh_error \<Rightarrow> heap
     \<Rightarrow> zuh_code \<times> zuh_proxy \<times> zuh_error \<times> heap" where
  "zuh_proxy_resolve up_parse up_free target env override override_set err h =
     (if u_scheme target = None \<or> u_host target = None then (ZUH_ERR_PROXY, zuh_proxy_init, err, h)
      else if override_set then
        (if override = None \<or> override = Some [] then (ZUH_OK, zuh_proxy_init, err, h)
         else proxy_from up_parse up_free override ''explicit'' err h)
      else
        let try = (\<lambda>name found. case found of Some (url, src) \<Rightarrow> Some (url, src)
                     | None \<Rightarrow> map_option (\<lambda>url. (url, name)) (env_get env name));
            found = (if u_is_https target then try ''HTTPS_PROXY'' (try ''https_proxy'' None)
                     else try ''http_proxy'' None);
            found = try ''ALL_PROXY'' (try ''all_proxy'' found) in
        case found of
          None \<Rightarrow> (ZUH_OK, zuh_proxy_init, err, h)
        | Some (url, src) \<Rightarrow>
            let no_proxy = (case env_get env ''no_proxy'' of Some v \<Rightarrow> Some v | None \<Rightarrow> env_get env ''NO_PROXY'') in
            if no_proxy \<noteq> None \<and> zuh_no_proxy_matches no_proxy (u_host target) (u_port target)
            then (ZUH_OK, zuh_proxy_init, err, h)
            else proxy_from up_parse up_free (Some url) src err h)"

section \<open>Requests to a proxy\<close>

definition zuh_proxy_absolute_form :: "zuh_uri \<Rightarrow> zuh_buffer \<times> heap \<Rightarrow> bool \<times> zuh_buffer \<times> heap" where
  "zuh_proxy_absolute_form u s =
     (case (u_scheme u, u_host u, u_path_query u) of
        (Some sc, Some ho, Some pq) \<Rightarrow>
          c_all [zuh_buf_append_str sc, zuh_buf_append_str ''://'',
            (if CHR '':'' \<in> set ho
             then c_all [zuh_buf_append_byte (CHR ''[''), zuh_buf_append_str ho, zuh_buf_append_byte (CHR '']'')]
             else zuh_buf_append_str ho),
            (if u_port_explicit u then zuh_buf_append_str ('':'' @ show_nat (unat (u_port u))) else (\<lambda>s. (True, s))),
            zuh_buf_append_str pq] s
      | _ \<Rightarrow> (False, s))"

definition zuh_proxy_auth_value :: "zuh_proxy \<Rightarrow> zuh_buffer \<times> heap \<Rightarrow> bool \<times> zuh_buffer \<times> heap" where
  "zuh_proxy_auth_value p s =
     (case px_username p of
        None \<Rightarrow> (False, s)
      | Some user \<Rightarrow>
         (case s of (out, h) \<Rightarrow>
          case zuh_buf_init 64 4096 h of (ok, raw, h) \<Rightarrow>
          if \<not> ok then (False, out, h)
          else case c_all [zuh_buf_append_str user, zuh_buf_append_byte (CHR '':''),
                   zuh_buf_append_str (case px_password p of None \<Rightarrow> [] | Some pw \<Rightarrow> pw)] (raw, h) of (ok, raw, h) \<Rightarrow>
          case (if ok then c_and (zuh_buf_append_str ''Basic '') (zuh_base64_encode (buf_data raw)) (out, h)
                else (False, out, h)) of (ok, out, h) \<Rightarrow>
          (ok, out, snd (zuh_buf_free raw h))))"

text \<open>The text of \<^verbatim>\<open>hostport\<close>: 300 bytes with the terminator, or a refusal.\<close>

definition connect_hostport :: "zuh_uri \<Rightarrow> bytes" where
  "connect_hostport target =
     (let ho = the (u_host target) in
      if CHR '':'' \<in> set ho then ''['' @ ho @ '']:'' @ show_nat (unat (u_port target))
      else ho @ '':'' @ show_nat (unat (u_port target)))"

definition zuh_proxy_connect_request ::
    "zuh_proxy \<Rightarrow> zuh_uri \<Rightarrow> zuh_buffer \<times> heap \<Rightarrow> zuh_error \<Rightarrow> zuh_code \<times> (zuh_buffer \<times> heap) \<times> zuh_error" where
  "zuh_proxy_connect_request p target s err =
     (if u_host target = None then (ZUH_ERR_PROXY, s, err)
      else let hostport = connect_hostport target in
        if length hostport \<ge> 300 then (ZUH_ERR_PROXY, s, proxy_error err ''proxy target is too long'')
        else case c_all
          [zuh_buf_append_str ''CONNECT '', zuh_buf_append_str hostport,
           zuh_buf_append_str ('' HTTP/1.1'' @ CRLF @ ''Host: ''), zuh_buf_append_str hostport, zuh_buf_append_str CRLF,
           (if px_username p \<noteq> None
            then c_all [zuh_buf_append_str ''Proxy-Authorization: '', zuh_proxy_auth_value p, zuh_buf_append_str CRLF]
            else (\<lambda>s. (True, s))),
           zuh_buf_append_str (''Proxy-Connection: keep-alive'' @ CRLF @ CRLF)] s of (ok, s) \<Rightarrow>
          (if ok then ZUH_OK else ZUH_ERR_NOMEM, s, err))"

section \<open>Base64 is invertible\<close>

text \<open>The text, and the decoder of RFC 4648 it is checked against.\<close>

fun b64_text :: "bytes \<Rightarrow> bytes" where
  "b64_text (a # b # c # rest) =
     (let v = cval a * 65536 + cval b * 256 + cval c in
      [b64_char (v div 262144), b64_char (v div 4096 mod 64), b64_char (v div 64 mod 64), b64_char (v mod 64)]
      @ b64_text rest)"
| "b64_text [a, b] =
     (let v = cval a * 65536 + cval b * 256 in
      [b64_char (v div 262144), b64_char (v div 4096 mod 64), b64_char (v div 64 mod 64), CHR ''=''])"
| "b64_text [a] =
     (let v = cval a * 65536 in [b64_char (v div 262144), b64_char (v div 4096 mod 64), CHR ''='', CHR ''=''])"
| "b64_text [] = []"

fun index_of :: "char \<Rightarrow> bytes \<Rightarrow> nat option" where
  "index_of c [] = None"
| "index_of c (x # xs) = (if c = x then Some 0 else map_option Suc (index_of c xs))"

definition b64_value :: "char \<Rightarrow> nat option" where
  "b64_value c = index_of c b64_alphabet"

fun b64_decode :: "bytes \<Rightarrow> bytes option" where
  "b64_decode [] = Some []"
| "b64_decode (w # x # y # z # rest) =
     (case (b64_value w, b64_value x) of
        (Some i, Some j) \<Rightarrow>
          if y = CHR ''='' \<and> z = CHR ''='' \<and> rest = [] then Some [char_of (i * 4 + j div 16)]
          else (case b64_value y of
              None \<Rightarrow> None
            | Some k \<Rightarrow>
                if z = CHR ''='' \<and> rest = [] then Some [char_of (i * 4 + j div 16), char_of (j mod 16 * 16 + k div 4)]
                else (case b64_value z of
                    None \<Rightarrow> None
                  | Some l \<Rightarrow>
                      map_option (\<lambda>r. char_of (i * 4 + j div 16) # char_of (j mod 16 * 16 + k div 4)
                                      # char_of (k mod 4 * 64 + l) # r) (b64_decode rest)))
      | _ \<Rightarrow> None)"
| "b64_decode _ = None"

lemma b64_alphabet_length [simp]: "length b64_alphabet = 64"
  by (simp add: b64_alphabet_def)

lemma b64_alphabet_distinct: "distinct b64_alphabet"
  by (simp add: b64_alphabet_def)

lemma index_of_nth: "distinct xs \<Longrightarrow> i < length xs \<Longrightarrow> index_of (xs ! i) xs = Some i"
proof (induction xs arbitrary: i)
  case (Cons x xs)
  then show ?case by (cases i) auto
qed simp

lemma b64_value_char [simp]: "i < 64 \<Longrightarrow> b64_value (b64_char i) = Some i"
  by (simp add: b64_value_def b64_char_def index_of_nth b64_alphabet_distinct)

lemma b64_char_plain: "i < 64 \<Longrightarrow> b64_char i \<noteq> CHR ''='' \<and> b64_char i \<noteq> CR \<and> b64_char i \<noteq> LF \<and> b64_char i \<noteq> NUL"
proof -
  assume "i < 64"
  then have "b64_char i \<in> set b64_alphabet" by (simp add: b64_char_def)
  then show ?thesis by (auto simp: b64_alphabet_def CR_def LF_def NUL_def)
qed

lemma cval_lt [simp]: "cval c < 256"
  by (metis of_char_mod_256 mod_less_divisor zero_less_numeral)

lemma b64_group:
  fixes a b c :: nat
  assumes "a < 256" "b < 256" "c < 256"
  defines "v \<equiv> a * 65536 + b * 256 + c"
  shows "v div 262144 < 64" "v div 262144 * 4 + v div 4096 mod 64 div 16 = a"
    "v div 4096 mod 64 mod 16 * 16 + v div 64 mod 64 div 4 = b" "v div 64 mod 64 mod 4 * 64 + v mod 64 = c"
proof -
  have v: "v div 65536 = a"
    unfolding v_def by (rule div_nat_eqI) (use assms(2,3) in \<open>simp; linarith?\<close>)+
  have w: "v div 256 = a * 256 + b"
    unfolding v_def by (rule div_nat_eqI) (use assms(3) in \<open>simp; linarith?\<close>)+
  have 1: "v div 262144 = a div 4" using div_mult2_eq [of v 65536 4] v by simp
  have 2: "v div 4096 = (a * 256 + b) div 16" using div_mult2_eq [of v 256 16] w by simp
  have 3: "v div 64 = (a * 256 + b) * 4 + c div 64"
    unfolding v_def by (rule div_nat_eqI) (use div_mult_mod_eq [of c 64] mod_less_divisor [of 64 c] in \<open>simp; linarith?\<close>)+
  have 4: "v mod 64 = c mod 64"
    using mod_mult_self1 [of c "a * 1024 + b * 4" 64] by (simp add: v_def algebra_simps)
  have 5: "(a * 256 + b) div 16 = a * 16 + b div 16"
    by (rule div_nat_eqI) (use div_mult_mod_eq [of b 16] mod_less_divisor [of 16 b] in \<open>simp; linarith?\<close>)+
  have b: "b div 16 < 16" "c div 64 < 4" "a mod 4 < 4" "b mod 16 < 16" "a div 4 < 64"
    using assms(1-3) by (simp_all add: less_mult_imp_div_less)
  have m: "x mod 64 = r" if "x = q * 64 + r" "r < 64" for x q r :: nat using that by simp
  have 6: "(a * 16 + b div 16) mod 64 = a mod 4 * 16 + b div 16"
    by (rule m [of _ "a div 4"]) (use div_mult_mod_eq [of a 4] b in linarith)+
  have 7: "((a * 256 + b) * 4 + c div 64) mod 64 = b mod 16 * 4 + c div 64"
  proof (rule m [of _ "a * 16 + b div 16"])
    show "(a * 256 + b) * 4 + c div 64 = (a * 16 + b div 16) * 64 + (b mod 16 * 4 + c div 64)"
      by (simp add: algebra_simps) presburger
    show "b mod 16 * 4 + c div 64 < 64" using b(2,4) by linarith
  qed
  show "v div 262144 < 64" using 1 b(5) by simp
  show "v div 262144 * 4 + v div 4096 mod 64 div 16 = a"
    unfolding 1 2 5 6 using b(1) by simp
  show "v div 4096 mod 64 mod 16 * 16 + v div 64 mod 64 div 4 = b"
    unfolding 2 3 5 6 7 using b(1,2) by simp
  show "v div 64 mod 64 mod 4 * 64 + v mod 64 = c"
    unfolding 3 4 7 using b(2) by simp
qed

lemma b64_round_trip: "b64_decode (b64_text bs) = Some bs"
proof (induction bs rule: b64_text.induct)
  case (1 a b c rest)
  note g = b64_group [of "cval a" "cval b" "cval c"]
  from 1 show ?case using g by (simp add: Let_def b64_char_plain)
next
  case (2 a b)
  note g = b64_group [of "cval a" "cval b" 0]
  show ?case using g by (simp add: Let_def b64_char_plain)
next
  case (3 a)
  note g = b64_group [of "cval a" 0 0]
  show ?case using g by (simp add: Let_def b64_char_plain)
qed simp

lemma b64_bits:
  assumes "(v :: nat) div 262144 < 64"
  shows "drop_bit 18 v AND 63 = v div 262144" "drop_bit 12 v AND 63 = v div 4096 mod 64"
    "drop_bit 6 v AND 63 = v div 64 mod 64" "v AND 63 = v mod 64"
proof -
  have "x AND 63 = x mod 64" for x :: nat
    using take_bit_eq_mask [of 6 x] by (simp add: take_bit_eq_mod mask_eq_exp_minus_1)
  then show "drop_bit 18 v AND 63 = v div 262144" "drop_bit 12 v AND 63 = v div 4096 mod 64"
    "drop_bit 6 v AND 63 = v div 64 mod 64" "v AND 63 = v mod 64"
    using assms by (simp_all add: drop_bit_eq_div)
qed

lemma low_bits:
  assumes "x < (2 :: nat) ^ k"
  shows "push_bit k a OR x = a * 2 ^ k + x"
proof -
  have "take_bit k x = x" using assms by (simp add: take_bit_nat_eq_self)
  then have "\<not> bit (push_bit k a) n \<or> \<not> bit x n" for n
    by (metis bit_push_bit_iff bit_take_bit_iff not_le)
  then show ?thesis by (simp add: disjunctive_add [symmetric] push_bit_eq_mult)
qed

lemma or_bytes:
  assumes "b < 256" "c < (256 :: nat)"
  shows "push_bit 16 a OR push_bit 8 b OR c = a * 65536 + b * 256 + c"
proof -
  have "b * 256 + c < 2 ^ 16" using assms by (simp; linarith)
  from low_bits [OF this, of a] low_bits [of c 8 b] assms(2) show ?thesis by (simp add: or.assoc)
qed

lemma exact_bytes: "list_all2 (\<lambda>x f. f = zuh_buf_append_byte x) xs fs \<Longrightarrow> buft.exact xs (c_all fs)"
proof -
  assume "list_all2 (\<lambda>x f. f = zuh_buf_append_byte x) xs fs"
  then have "list_all2 buft.exact (map (\<lambda>x. [x]) xs) fs"
    by (auto simp: list_all2_conv_all_nth exact_byte)
  from buft.exact_c_all [OF this] show ?thesis by simp
qed

lemma exact_b64: "buft.exact (b64_text bs) (zuh_base64_encode bs)"
proof (induction bs rule: b64_text.induct)
  case (1 a b c rest)
  define v where "v = cval a * 65536 + cval b * 256 + cval c"
  have or: "push_bit 16 (cval a) OR push_bit 8 (cval b) OR cval c = v" unfolding v_def by (rule or_bytes) simp_all
  have lt: "v div 262144 < 64" unfolding v_def by (rule b64_group) simp_all
  have "zuh_base64_encode (a # b # c # rest) =
      c_and (c_all [zuh_buf_append_byte (b64_char (v div 262144)), zuh_buf_append_byte (b64_char (v div 4096 mod 64)),
        zuh_buf_append_byte (b64_char (v div 64 mod 64)), zuh_buf_append_byte (b64_char (v mod 64))])
      (zuh_base64_encode rest)"
    by (rule ext) (simp only: zuh_base64_encode.simps Let_def or b64_bits [OF lt])
  moreover have "b64_text (a # b # c # rest) =
      [b64_char (v div 262144), b64_char (v div 4096 mod 64), b64_char (v div 64 mod 64), b64_char (v mod 64)] @ b64_text rest"
    by (simp add: Let_def v_def)
  ultimately show ?case by (simp only:) (rule buft.exact_c_and [OF exact_bytes 1 [OF refl]], simp)
next
  case (2 a b)
  define v where "v = cval a * 65536 + cval b * 256"
  have or: "push_bit 16 (cval a) OR push_bit 8 (cval b) = v" using or_bytes [of "cval b" 0 "cval a"] by (simp add: v_def)
  have lt: "v div 262144 < 64" using b64_group(1) [of "cval a" "cval b" 0] by (simp add: v_def)
  have "zuh_base64_encode [a, b] =
      c_all [zuh_buf_append_byte (b64_char (v div 262144)), zuh_buf_append_byte (b64_char (v div 4096 mod 64)),
        zuh_buf_append_byte (b64_char (v div 64 mod 64)), zuh_buf_append_byte (CHR ''='')]"
    by (rule ext) (simp only: zuh_base64_encode.simps Let_def or b64_bits [OF lt])
  moreover have "b64_text [a, b] =
      [b64_char (v div 262144), b64_char (v div 4096 mod 64), b64_char (v div 64 mod 64), CHR ''='']"
    by (simp add: Let_def v_def)
  ultimately show ?case by (simp add: exact_bytes del: c_all.simps)
next
  case (3 a)
  define v where "v = cval a * 65536"
  have or: "push_bit 16 (cval a) = v" by (simp add: v_def push_bit_eq_mult)
  have lt: "v div 262144 < 64" using b64_group(1) [of "cval a" 0 0] by (simp add: v_def)
  have "zuh_base64_encode [a] =
      c_all [zuh_buf_append_byte (b64_char (v div 262144)), zuh_buf_append_byte (b64_char (v div 4096 mod 64)),
        zuh_buf_append_byte (CHR ''=''), zuh_buf_append_byte (CHR ''='')]"
    by (rule ext) (simp only: zuh_base64_encode.simps Let_def or b64_bits [OF lt])
  moreover have "b64_text [a] = [b64_char (v div 262144), b64_char (v div 4096 mod 64), CHR ''='', CHR ''='']"
    by (simp add: Let_def v_def)
  ultimately show ?case by (simp add: exact_bytes del: c_all.simps)
next
  case 4
  have "zuh_base64_encode [] = (\<lambda>s. (True, s))" by (rule ext) simp
  then show ?case by (simp add: buft.exact_nothing)
qed

lemma b64_text_set: "set (b64_text bs) \<subseteq> insert (CHR ''='') (b64_char ` {..<64})"
proof (induction bs rule: b64_text.induct)
  case (1 a b c rest)
  with b64_group(1) [of "cval a" "cval b" "cval c"] show ?case by (simp add: Let_def)
next
  case (2 a b)
  with b64_group(1) [of "cval a" "cval b" 0] show ?case by (simp add: Let_def)
next
  case (3 a)
  with b64_group(1) [of "cval a" 0 0] show ?case by (simp add: Let_def)
qed simp

lemma b64_text_plain: "CR \<notin> set (b64_text bs)" "LF \<notin> set (b64_text bs)" "NUL \<notin> set (b64_text bs)"
proof -
  have "c \<noteq> CR \<and> c \<noteq> LF \<and> c \<noteq> NUL" if "c \<in> set (b64_text bs)" for c
  proof -
    from that b64_text_set consider "c = CHR ''=''" | i where "i < 64" "c = b64_char i" by blast
    then show ?thesis by cases (auto simp: CR_def LF_def NUL_def dest: b64_char_plain)
  qed
  then show "CR \<notin> set (b64_text bs)" "LF \<notin> set (b64_text bs)" "NUL \<notin> set (b64_text bs)" by blast+
qed

section \<open>Credentials\<close>

definition auth_text :: "zuh_proxy \<Rightarrow> bytes" where
  "auth_text p = ''Basic '' @ b64_text (c_string (the (px_username p)) @ '':''
     @ c_string (case px_password p of None \<Rightarrow> [] | Some pw \<Rightarrow> pw))"

lemma init_fail_empty: "zuh_buf_init ic mx h = (False, b, h') \<Longrightarrow> buf_cap b = 0"
  by (auto simp: zuh_buf_init_def grow_to_def Let_def split: if_splits prod.splits)

lemma c_string_basic [simp]: "c_string ''Basic '' = ''Basic ''"
  by (simp add: literal_simps)

lemma writes_auth:
  assumes "px_username p \<noteq> None"
  shows "bufw.writes (auth_text p) (zuh_proxy_auth_value p)"
proof (rule bufw.writesI)
  fix s ok s' assume s: "buf_ok s" and run: "zuh_proxy_auth_value p s = (ok, s')"
  obtain user where user: "px_username p = Some user" using assms by blast
  obtain out h where sp: "s = (out, h)" by (rule prod.exhaust)
  obtain i raw h1 where init: "zuh_buf_init 64 4096 h = (i, raw, h1)" by (rule prod_cases3)
  note I = zuh_buf_init_spec [OF _ _ init]
  define cred where "cred = c_all [zuh_buf_append_str user, zuh_buf_append_byte (CHR '':''),
      zuh_buf_append_str (case px_password p of None \<Rightarrow> [] | Some pw \<Rightarrow> pw)]"
  define ct where "ct = c_string user @ '':'' @ c_string (case px_password p of None \<Rightarrow> [] | Some pw \<Rightarrow> pw)"
  obtain j raw2 h2 where fill: "cred (raw, h1) = (j, raw2, h2)" by (rule prod_cases3)
  have "buft.exact (concat [c_string user, [CHR '':''], c_string (case px_password p of None \<Rightarrow> [] | Some pw \<Rightarrow> pw)]) cred"
    unfolding cred_def by (rule buft.exact_c_all) (simp add: exact_byte exact_str)
  then have cred: "buft.exact ct cred" by (simp add: ct_def)
  have raw2: "buf_inv raw2" "grew h h2 (buf_blocks raw2) (buf_bytes raw2)" "j \<Longrightarrow> buf_data raw2 = ct"
  proof -
    have rel: "buf_rel (raw, h1) (raw2, h2)" and inv: "buf_inv raw2"
      using buft.exactD [OF cred _ fill] I(1) by (simp_all add: SIZE_MAX_def)
    show "buf_inv raw2" by (rule inv)
    show "grew h h2 (buf_blocks raw2) (buf_bytes raw2)"
      using grew_trans [OF I(5)] rel by (fastforce simp: buf_rel_def buf_grew_def SIZE_MAX_def)
    show "j \<Longrightarrow> buf_data raw2 = ct" using buft.exactD(3) [OF cred _ fill] I(1,2) by (simp add: SIZE_MAX_def)
  qed
  define send where "send = c_and (zuh_buf_append_str ''Basic '') (zuh_base64_encode (buf_data raw2))"
  obtain k out3 h3 where sent: "(if j then send (out, h2) else (False, out, h2)) = (k, out3, h3)" by (rule prod_cases3)
  show "buf_ok s' \<and> buf_rel s s' \<and> (ok \<longrightarrow> buf_contents s' = buf_contents s @ auth_text p)
    \<and> (\<not> ok \<longrightarrow> (\<exists>u q. auth_text p = u @ q \<and> buf_contents s' = buf_contents s @ u))"
  proof (cases i)
    case False
    have "s' = (out, h1)" "\<not> ok" using run False by (simp_all add: zuh_proxy_auth_value_def sp user init)
    moreover have "grew h h1 0 0"
      using I(5) init_fail_empty init False by (simp add: SIZE_MAX_def buf_blocks_def buf_bytes_def)
    ultimately show ?thesis using s by (auto simp: sp buf_rel_def buf_grew_def)
  next
    case True
    have "s' = (out3, snd (zuh_buf_free raw2 h3))" "ok = k"
      using run True fill sent
      by (simp_all add: zuh_proxy_auth_value_def sp user init cred_def send_def split: if_splits)
    have send: "buft.exact (''Basic '' @ b64_text (buf_data raw2)) send"
      unfolding send_def using buft.exact_c_and [OF exact_str [of "''Basic ''"] exact_b64] by simp
    have rel: "buf_rel (out, h2) (out3, h3) \<and> buf_inv out3 \<and> (k \<longrightarrow> buf_data out3 = buf_data out @ auth_text p)
      \<and> (\<not> k \<longrightarrow> (\<exists>u q. auth_text p = u @ q \<and> buf_data out3 = buf_data out @ u))"
    proof (cases j)
      case True
      from bufw.writesD [OF send [unfolded buft.exact_def, THEN conjunct1], of "(out, h2)" k "(out3, h3)"] True sent s raw2(3)
      show ?thesis by (simp add: sp auth_text_def user ct_def)
    next
      case False
      with sent s show ?thesis by (auto simp: sp buf_rel_def intro: exI [of _ "[]"])
    qed
    obtain r0 h4 where free: "zuh_buf_free raw2 h3 = (r0, h4)" by (rule prod.exhaust)
    from rel have "grew h2 h3 (buf_blocks out3 - buf_blocks out) (buf_bytes out3 - buf_bytes out)"
      by (simp add: buf_rel_def buf_grew_def)
    from grew_trans [OF grew_trans [OF raw2(2) this] zuh_buf_free_spec(3) [OF raw2(1) free]]
    have "grew h h4 (buf_blocks out3 - buf_blocks out) (buf_bytes out3 - buf_bytes out)" by simp
    with rel \<open>s' = _\<close> \<open>ok = k\<close> show ?thesis by (simp add: sp free buf_rel_def buf_grew_def)
  qed
qed

text \<open>The lines of a CONNECT request.\<close>

definition connect_lines :: "zuh_proxy \<Rightarrow> zuh_uri \<Rightarrow> bytes list" where
  "connect_lines p target =
     [''CONNECT '' @ c_string (connect_hostport target) @ '' HTTP/1.1'', ''Host: '' @ c_string (connect_hostport target)]
     @ (if px_username p = None then [] else [''Proxy-Authorization: '' @ auth_text p])
     @ [''Proxy-Connection: keep-alive'', []]"

lemma connect_literals [simp]:
  "c_string ''CONNECT '' = ''CONNECT ''" "c_string ''Proxy-Authorization: '' = ''Proxy-Authorization: ''"
  "c_string ('' HTTP/1.1'' @ CRLF @ ''Host: '') = '' HTTP/1.1'' @ CRLF @ ''Host: ''"
  "c_string CRLF = CRLF"
  "c_string (''Proxy-Connection: keep-alive'' @ CRLF @ CRLF) = ''Proxy-Connection: keep-alive'' @ CRLF @ CRLF"
  by (simp_all add: c_string_def NUL_def CR_def LF_def)

lemma writes_exact: "buft.exact t f \<Longrightarrow> bufw.writes t f"
  by (simp add: buft.exact_def)

lemma connect_writes:
  assumes "buf_inv b" "u_host target \<noteq> None" "length (connect_hostport target) < 300"
    and run: "zuh_proxy_connect_request p target (b, h) err = (c, (b', h'), err')"
  shows "(c = ZUH_OK \<longrightarrow> buf_data b' = buf_data b @ concat (map (\<lambda>l. l @ CRLF) (connect_lines p target)))
    \<and> (c \<noteq> ZUH_OK \<longrightarrow> c = ZUH_ERR_NOMEM)"
proof -
  let ?hp = "connect_hostport target"
  let ?ts = "[''CONNECT '', c_string ?hp, '' HTTP/1.1'' @ CRLF @ ''Host: '', c_string ?hp, CRLF,
      if px_username p \<noteq> None then concat [''Proxy-Authorization: '', auth_text p, CRLF] else [],
      ''Proxy-Connection: keep-alive'' @ CRLF @ CRLF]"
  let ?fs = "[zuh_buf_append_str ''CONNECT '', zuh_buf_append_str ?hp,
           zuh_buf_append_str ('' HTTP/1.1'' @ CRLF @ ''Host: ''), zuh_buf_append_str ?hp, zuh_buf_append_str CRLF,
           (if px_username p \<noteq> None
            then c_all [zuh_buf_append_str ''Proxy-Authorization: '', zuh_proxy_auth_value p, zuh_buf_append_str CRLF]
            else (\<lambda>s. (True, s))),
           zuh_buf_append_str (''Proxy-Connection: keep-alive'' @ CRLF @ CRLF)]"
  have str: "bufw.writes t (zuh_buf_append_str t)" if "c_string t = t" for t using writes_str [of t] that by simp
  note lits = connect_literals [THEN str]
  have auth: "bufw.writes (concat [''Proxy-Authorization: '', auth_text p, CRLF])
      (c_all [zuh_buf_append_str ''Proxy-Authorization: '', zuh_proxy_auth_value p, zuh_buf_append_str CRLF])"
    if "px_username p \<noteq> None"
    using lits writes_auth [OF that] by (intro bufw.writes_c_all) (simp only: list_all2_Cons list_all2_Nil simp_thms)
  have w: "bufw.writes (concat ?ts) (c_all ?fs)"
  proof (rule bufw.writes_c_all)
    show "list_all2 bufw.writes ?ts ?fs"
      using auth lits writes_str [of ?hp] bufw.writes_nothing
      by (cases "px_username p \<noteq> None") (simp_all only: list_all2_Cons list_all2_Nil simp_thms if_True if_False)
  qed
  obtain ok s' where r: "c_all ?fs (b, h) = (ok, s')" by (rule prod.exhaust)
  have short: "\<not> 300 \<le> length ?hp" using assms(3) by simp
  have "(if ok then ZUH_OK else ZUH_ERR_NOMEM, s', err) = (c, (b', h'), err')"
    using run [unfolded zuh_proxy_connect_request_def Let_def] by (simp only: assms(2) short if_False r prod.case)
  then have res: "c = (if ok then ZUH_OK else ZUH_ERR_NOMEM)" "s' = (b', h')" by simp_all
  from bufw.writesD(3) [OF w _ r] assms(1) res
  have "ok \<Longrightarrow> buf_data b' = buf_data b @ concat ?ts" by simp
  moreover have "concat ?ts = concat (map (\<lambda>l. l @ CRLF) (connect_lines p target))"
    by (simp add: connect_lines_def)
  ultimately show ?thesis using res by simp
qed

section \<open>Percent-encoding\<close>

definition hex_digit :: "nat \<Rightarrow> char" where
  "hex_digit n = ''0123456789ABCDEF'' ! n"

definition unreserved :: "char \<Rightarrow> bool" where
  "unreserved c \<longleftrightarrow> is_digit c \<or> c \<in> set ''ABCDEFGHIJKLMNOPQRSTUVWXYZabcdefghijklmnopqrstuvwxyz-._~''"

text \<open>The encoding of RFC 3986, for comparison: every byte that is not unreserved becomes an escape.\<close>

definition pct_encode :: "bytes \<Rightarrow> bytes" where
  "pct_encode s = concat (map (\<lambda>c. if unreserved c then [c]
     else [CHR ''%'', hex_digit (cval c div 16), hex_digit (cval c mod 16)]) s)"

lemma hexval_digit: "n < 16 \<Longrightarrow> proxy_hexval (hex_digit n) = int n"
proof -
  have "\<forall>n \<in> set [0..<16]. proxy_hexval (hex_digit n) = int n" by code_simp
  then show "n < 16 \<Longrightarrow> proxy_hexval (hex_digit n) = int n" by simp
qed

lemma unreserved_plain: "unreserved c \<Longrightarrow> c \<noteq> CHR ''%'' \<and> c \<noteq> CHR '':''"
  by (auto simp: unreserved_def is_digit_def)

lemma hex_digit_plain: "n < 16 \<Longrightarrow> hex_digit n \<noteq> CHR '':''"
proof -
  have "\<forall>n \<in> set [0..<16]. hex_digit n \<noteq> CHR '':''" by code_simp
  then show "n < 16 \<Longrightarrow> hex_digit n \<noteq> CHR '':''" by simp
qed

lemma or_nibbles: "nat (push_bit 4 (int (n div 16)) OR int (n mod 16)) = n"
proof -
  have "push_bit 4 (n div 16) OR n mod 16 = n" using low_bits [of "n mod 16" 4 "n div 16"] by simp
  then have "int (push_bit 4 (n div 16) OR n mod 16) = int n" by simp
  then show ?thesis by (simp add: of_nat_or_eq of_nat_push_bit)
qed

lemma pct_round_trip: "pct_decode (pct_encode s) = Some s"
proof (induction s)
  case (Cons c s)
  show ?case
  proof (cases "unreserved c")
    case True
    with Cons unreserved_plain [OF True] show ?thesis by (simp add: pct_encode_def)
  next
    case False
    have d: "cval c div 16 < 16" "cval c mod 16 < 16" using cval_lt [of c] by (simp_all add: less_mult_imp_div_less)
    from False Cons show ?thesis
      using hexval_digit [OF d(1)] hexval_digit [OF d(2)] by (simp add: pct_encode_def or_nibbles)
  qed
qed (simp add: pct_encode_def)

lemma pct_encode_no_colon: "CHR '':'' \<notin> set (pct_encode s)"
proof (induction s)
  case (Cons c s)
  have "hex_digit (cval c div 16) \<noteq> CHR '':''" "hex_digit (cval c mod 16) \<noteq> CHR '':''"
    using cval_lt [of c] by (auto intro!: hex_digit_plain simp: less_mult_imp_div_less)
  with Cons show ?case
    by (auto simp: pct_encode_def dest: unreserved_plain simp del: UN_iff)
qed (simp add: pct_encode_def)

lemma proxy_parse_credentials:
  assumes run: "zuh_proxy_parse up_parse up_free (Some url) err h = (ZUH_OK, p, err', h')" and "url \<noteq> []"
    and uri: "\<And>h u h1. zuh_uri_parse up_parse up_free (if strstr_found url ''://'' then url else ''http://'' @ url) h
      = (ZUH_OK, u, h1) \<Longrightarrow> u_userinfo u = Some ui"
    and split: "ui = pct_encode user @ '':'' @ pct_encode pass"
  shows "px_username p = Some user \<and> px_password p = Some pass"
proof -
  have colon: "\<forall>x \<in> set (pct_encode user). x \<noteq> CHR '':''" using pct_encode_no_colon [of user] by auto
  have ui: "ui = pct_encode user @ CHR '':'' # pct_encode pass" using split by simp
  have "takeWhile (\<lambda>c. c \<noteq> CHR '':'') ui = pct_encode user"
    unfolding ui by (rule takeWhile_append_not [OF _ colon]) simp
  moreover have "dropWhile (\<lambda>c. c \<noteq> CHR '':'') ui = CHR '':'' # pct_encode pass"
    unfolding ui by (rule dropWhile_append_not [OF _ colon]) simp
  then have "drop 1 (dropWhile (\<lambda>c. c \<noteq> CHR '':'') ui) = pct_encode pass" by simp
  ultimately have user: "pct_decode (takeWhile (\<lambda>c. c \<noteq> CHR '':'') ui) = Some user"
    and pass: "pct_decode (drop 1 (dropWhile (\<lambda>c. c \<noteq> CHR '':'') ui)) = Some pass" by (simp_all add: pct_round_trip)
  show ?thesis
  proof (cases "strstr_found url ''://''")
    case True
    have found: "\<And>h u h1. zuh_uri_parse up_parse up_free url h = (ZUH_OK, u, h1) \<Longrightarrow> u_userinfo u = Some ui"
      using uri True by simp
    from run assms(2) user pass show ?thesis
      by (auto simp: zuh_proxy_parse_def Let_def True dest!: found split: prod.splits if_splits option.splits)
  next
    case False
    have found: "\<And>h u h1. zuh_uri_parse up_parse up_free (''http://'' @ url) h = (ZUH_OK, u, h1) \<Longrightarrow> u_userinfo u = Some ui"
      using uri [unfolded if_not_P [OF False]] .
    from run assms(2) user pass show ?thesis
      by (auto simp: zuh_proxy_parse_def Let_def False simp del: append_Cons append_Nil dest!: found
          split: prod.splits if_splits option.splits)
  qed
qed

section \<open>NO\_PROXY entries\<close>

text \<open>
  What an entry bypasses: \<open>*\<close> everything; a name, with its port if it has one, the host of
  that name and, unless it is an IP literal, the hosts below it.
\<close>

definition names_host :: "bytes \<Rightarrow> bytes \<Rightarrow> bool" where
  "names_host name host \<longleftrightarrow> name \<noteq> []
     \<and> (lowers host = lowers name \<or> \<not> is_ip_literal name \<and> (\<exists>sub. lowers host = sub @ ''.'' @ lowers name))"

definition without_dot :: "bytes \<Rightarrow> bytes" where
  "without_dot name = (if name \<noteq> [] \<and> hd name = CHR ''.'' then tl name else name)"

definition entry_bypasses :: "bytes \<Rightarrow> 16 word \<Rightarrow> bytes \<Rightarrow> bool" where
  "entry_bypasses host port el \<longleftrightarrow> el = ''*''
     \<or> (el \<noteq> [] \<and> (\<exists>name. entry_name el [] port = Some name \<and> names_host (without_dot name) host))"

lemma lower_dot: "lower c = CHR ''.'' \<longleftrightarrow> c = CHR ''.''"
proof -
  have "cval (lower c) = 46 \<longleftrightarrow> cval c = 46" by (simp add: cval_lower)
  then show ?thesis using cval_eq_iff [of "lower c" "CHR ''.''"] cval_eq_iff [of c "CHR ''.''"] by simp
qed

lemma name_matches_iff: "name_matches name host \<longleftrightarrow> names_host (without_dot name) host"
proof -
  define n where "n = without_dot name"
  have m: "name_matches name host \<longleftrightarrow> n \<noteq> [] \<and> length n \<le> length host
      \<and> lowers (drop (length host - length n) host) = lowers n
      \<and> (length n = length host \<or> \<not> is_ip_literal n \<and> host ! (length host - length n - 1) = CHR ''.'')"
  proof -
    have "(if name \<noteq> [] \<and> hd name = CHR ''.'' then tl name else name) = n" by (simp add: n_def without_dot_def)
    then show ?thesis unfolding name_matches_def Let_def by (simp only:) (auto simp: ncasecmp_0)
  qed
  show ?thesis
  proof (cases "length n < length host")
    case False
    then show ?thesis
      unfolding m n_def [symmetric] names_host_def
      by (auto dest: map_eq_imp_length_eq arg_cong [where f = length])
  next
    case True
    define k where "k = length host - length n - 1"
    have host: "host = take k host @ host ! k # drop (length host - length n) host"
      using True id_take_nth_drop [of k host] by (simp add: k_def Suc_diff_Suc)
    have "(\<exists>sub. lowers host = sub @ ''.'' @ lowers n) \<longleftrightarrow>
        lowers (drop (length host - length n) host) = lowers n \<and> host ! k = CHR ''.''"
    proof
      assume "\<exists>sub. lowers host = sub @ ''.'' @ lowers n"
      then obtain sub where sub: "lowers (take k host) @ lower (host ! k) # lowers (drop (length host - length n) host)
          = sub @ CHR ''.'' # lowers n"
        by (subst (asm) host) auto
      then have "length (lowers (drop (length host - length n) host)) = length (lowers n)" using True by simp
      with sub have "lower (host ! k) # lowers (drop (length host - length n) host) = CHR ''.'' # lowers n"
        by (metis append_eq_append_conv length_Cons)
      then show "lowers (drop (length host - length n) host) = lowers n \<and> host ! k = CHR ''.''" by (simp add: lower_dot)
    next
      assume a: "lowers (drop (length host - length n) host) = lowers n \<and> host ! k = CHR ''.''"
      have "lowers host = lowers (take k host) @ lower (host ! k) # lowers (drop (length host - length n) host)"
        by (subst host) simp
      with a show "\<exists>sub. lowers host = sub @ ''.'' @ lowers n" by auto
    qed
    moreover have "lowers host \<noteq> lowers n" using True by (metis length_map less_irrefl)
    ultimately show ?thesis
      using True unfolding m n_def [symmetric] names_host_def k_def by auto
  qed
qed

text \<open>What follows an entry in the list does not change the number \<^verbatim>\<open>strtol\<close> reads.\<close>

lemma dropWhile_skips: "list_all P xs \<Longrightarrow> dropWhile P (xs @ ys) = dropWhile P ys"
  by (induction xs) auto

lemma takeWhile_stops: "ys = [] \<or> \<not> P (hd ys) \<Longrightarrow> takeWhile P (xs @ ys) = takeWhile P xs"
  by (induction xs) (auto, cases ys, auto)

lemma dropWhile_inside: "dropWhile P xs \<noteq> [] \<Longrightarrow> dropWhile P (xs @ ys) = dropWhile P xs @ ys"
  by (induction xs) auto

lemma strtol_stops:
  assumes "list_all is_ows ws" "r = [] \<or> hd r = CHR '',''"
  shows "strtol10 (x @ ws @ r) = strtol10 x"
proof -
  have sp: "list_all c_isspace ws"
    using assms(1) by (auto simp: list_all_iff is_ows_def c_isspace_def)
  have r: "dropWhile c_isspace r = r" using assms(2) by (cases r) (auto simp: c_isspace_def SP_def)
  have stop: "ws @ r = [] \<or> \<not> is_digit (hd (ws @ r))"
    using assms by (cases ws) (auto simp: is_digit_def is_ows_def)
  show ?thesis
  proof (cases "dropWhile c_isspace x")
    case Nil
    then have "list_all c_isspace x" by (simp add: list_all_iff)
    then have "dropWhile c_isspace (x @ ws @ r) = r" using sp r by (simp add: dropWhile_skips)
    moreover have "takeWhile is_digit r = []" "r \<noteq> [] \<longrightarrow> hd r \<noteq> CHR ''-'' \<and> hd r \<noteq> CHR ''+''"
      using assms(2) by (cases r; simp add: is_digit_def)+
    ultimately show ?thesis unfolding strtol10_def Nil by (auto simp: Let_def)
  next
    case (Cons c cs)
    then have d: "dropWhile c_isspace (x @ ws @ r) = (c # cs) @ ws @ r"
      using dropWhile_inside [of c_isspace x "ws @ r"] by simp
    show ?thesis
      using takeWhile_stops [where P = is_digit and ys = "ws @ r", OF stop, of cs]
        takeWhile_stops [where P = is_digit and ys = "ws @ r", OF stop, of "c # cs"]
      unfolding strtol10_def d Cons by (simp add: Let_def)
  qed
qed

lemma trim_right_split: "\<exists>ws. raw = trim_right raw @ ws \<and> list_all is_ows ws"
proof -
  have "rev raw = takeWhile is_ows (rev raw) @ dropWhile is_ows (rev raw)" by simp
  then have "raw = rev (dropWhile is_ows (rev raw)) @ rev (takeWhile is_ows (rev raw))"
    by (metis rev_append rev_rev_ident)
  moreover have "list_all is_ows (rev (takeWhile is_ows (rev raw)))"
    by (auto simp: list_all_iff dest: set_takeWhileD)
  ultimately show ?thesis unfolding trim_right_def by blast
qed

lemma no_proxy_loop_iff: "no_proxy_loop p host port \<longleftrightarrow> list_any (entry_bypasses host port) p"
proof (induction "length p" arbitrary: p rule: less_induct)
  case less
  have nil: "\<not> entry_bypasses host port []" by (simp add: entry_bypasses_def)
  note step = list_any_step [of "entry_bypasses host port", OF nil, of p]
  show ?case
  proof (cases "dropWhile list_sep p")
    case Nil
    with step show ?thesis by (subst no_proxy_loop.simps) (simp only: list.case)
  next
    case (Cons c cs)
    define raw where "raw = takeWhile (\<lambda>c. c \<noteq> CHR '','') (c # cs)"
    define rest where "rest = dropWhile (\<lambda>c. c \<noteq> CHR '','') (c # cs)"
    define el where "el = trim_right raw"
    obtain ws where ws: "raw = el @ ws" "list_all is_ows ws" unfolding el_def using trim_right_split by blast
    have c: "\<not> list_sep c" using hd_dropWhile [of list_sep p] Cons by auto
    then have "el \<noteq> []" using ws by (cases raw) (auto simp: raw_def list_sep_def)
    have r: "rest = [] \<or> hd rest = CHR '',''"
      using hd_dropWhile [of "\<lambda>c. c \<noteq> CHR '',''" "c # cs"] by (auto simp: rest_def)
    have follow: "drop (length el) raw @ rest = ws @ rest" using ws by simp
    have name: "entry_name el (ws @ rest) port = entry_name el [] port"
      by (simp add: entry_name_def strtol_stops [OF ws(2) r] Let_def)
    have "no_proxy_loop p host port \<longleftrightarrow> entry_bypasses host port el \<or> no_proxy_loop rest host port"
      using \<open>el \<noteq> []\<close>
      by (subst no_proxy_loop.simps)
        (simp only: Cons list.case Let_def follow name entry_bypasses_def name_matches_iff
          flip: raw_def rest_def el_def, auto split: option.split)
    also have "no_proxy_loop rest host port \<longleftrightarrow> list_any (entry_bypasses host port) rest"
      using list_scan_shrinks [OF Cons] by (intro less) (simp add: rest_def)
    finally show ?thesis using step Cons by (simp add: el_def raw_def rest_def)
  qed
qed

section \<open>Properties\<close>

text \<open>
  \<^verbatim>\<open>zuh_no_proxy_matches\<close> bypasses the proxy exactly for the hosts its list names: an entry is
  an element of the comma-separated list without the blanks around it; a name matches that host
  and, on a label boundary only, the hosts below it; an IP literal matches only itself; an entry
  with a port matches only that port.
\<close>
lemma no_proxy_exact:
  "zuh_no_proxy_matches (Some np) (Some host) port \<longleftrightarrow> host \<noteq> [] \<and> list_any (entry_bypasses host port) np"
  by (simp add: zuh_no_proxy_matches_def no_proxy_loop_iff)

text \<open>
  \<^verbatim>\<open>HTTP_PROXY\<close>, which a CGI server fills from a request header, is never consulted: two
  environments that differ only there resolve alike. An explicit setting ignores the environment
  altogether.
\<close>
lemma proxy_not_from_request_header:
  assumes "\<And>name. name \<noteq> ''HTTP_PROXY'' \<Longrightarrow> env_get e name = env_get e' name"
  shows "zuh_proxy_resolve up_parse up_free target e override ov err h
    = zuh_proxy_resolve up_parse up_free target e' override ov err h
    \<and> zuh_proxy_resolve up_parse up_free target e override True err h
    = zuh_proxy_resolve up_parse up_free target e'' override True err h"
proof -
  have "env_get e n = env_get e' n" if "n \<in> {''https_proxy'', ''HTTPS_PROXY'', ''http_proxy'', ''all_proxy'',
      ''ALL_PROXY'', ''no_proxy'', ''NO_PROXY''}" for n
    using that by (intro assms) auto
  then show ?thesis by (simp add: zuh_proxy_resolve_def Let_def cong: option.case_cong)
qed

lemma proxy_not_from_request_header_witness:
  "zuh_proxy_resolve example_parser (\<lambda>u h. h) (example_uri ''a.b'' 80 ''/'')
     (Some (\<lambda>n. if n = ''HTTP_PROXY'' then Some ''evil:1'' else None)) None False no_error fresh_heap
   = (ZUH_OK, zuh_proxy_init, no_error, fresh_heap)"
proof -
  let ?e = "Some (\<lambda>n. if n = ''HTTP_PROXY'' then Some ''evil:1'' else None)"
  have "env_get ?e n = env_get (Some (\<lambda>n. None)) n" if "n \<noteq> ''HTTP_PROXY''" for n
    using that by (simp add: env_get_def)
  from proxy_not_from_request_header [OF this, where e'' = ?e] show ?thesis
    by (simp add: zuh_proxy_resolve_def env_get_def example_uri_def Let_def)
qed

text \<open>
  C37: credentials survive the trip. A user name and a password of any bytes but NUL, given
  percent-encoded in the proxy URL, come out of \<^verbatim>\<open>zuh_proxy_parse\<close> as they were, and the value
  written for \<^verbatim>\<open>Proxy-Authorization\<close> is \<open>Basic\<close> with Base64 that decodes to exactly them and
  holds no line break.
\<close>
theorem proxy_credentials_round_trip:
  assumes "zuh_proxy_parse up_parse up_free (Some url) err h = (ZUH_OK, p, err', h')" and "url \<noteq> []"
    and "\<And>h u h1. zuh_uri_parse up_parse up_free (if strstr_found url ''://'' then url else ''http://'' @ url) h
      = (ZUH_OK, u, h1) \<Longrightarrow> u_userinfo u = Some (pct_encode user @ '':'' @ pct_encode pass)"
    and "NUL \<notin> set user" and "NUL \<notin> set pass"
    and "zuh_proxy_auth_value p (b, h1) = (True, b', h2)" and "buf_inv b"
  shows "px_username p = Some user \<and> px_password p = Some pass
    \<and> (\<exists>t. buf_data b' = buf_data b @ ''Basic '' @ t \<and> b64_decode t = Some (user @ '':'' @ pass) \<and> CR \<notin> set t \<and> LF \<notin> set t)"
proof -
  have cred: "px_username p = Some user \<and> px_password p = Some pass"
    by (rule proxy_parse_credentials [OF assms(1,2) _ refl]) (rule assms(3))
  then have "px_username p \<noteq> None" by simp
  from bufw.writesD(3) [OF writes_auth [OF this] _ assms(6)] assms(7)
  have "buf_data b' = buf_data b @ auth_text p" by simp
  then show ?thesis
    using cred assms(4,5) by (auto simp: auth_text_def c_string_id b64_round_trip b64_text_plain
        intro!: exI [of _ "b64_text (user @ CHR '':'' # pass)"])
qed

text \<open>
  C36: a CONNECT request is its four or five lines and the empty line. For a host without line
  breaks no line contains one, whatever the credentials; credentials are sent in one
  \<^verbatim>\<open>Proxy-Authorization\<close> line, and only if there are any.
\<close>
theorem connect_request_unsplittable:
  assumes "zuh_proxy_connect_request p target (b, h) err = (ZUH_OK, (b', h'), err')" and "buf_inv b"
    and "CR \<notin> set (the (u_host target))" and "LF \<notin> set (the (u_host target))"
  shows "buf_data b' = buf_data b @ concat (map (\<lambda>l. l @ CRLF) (connect_lines p target))
    \<and> (\<forall>l \<in> set (connect_lines p target). CR \<notin> set l \<and> LF \<notin> set l)
    \<and> (px_username p = None \<longrightarrow> length (connect_lines p target) = 4)"
proof -
  have ok: "u_host target \<noteq> None" "length (connect_hostport target) < 300"
    using assms(1) by (auto simp: zuh_proxy_connect_request_def Let_def split: if_splits)
  have digits: "CR \<notin> set (show_nat n)" "LF \<notin> set (show_nat n)" for n
    using show_nat_digits by (force simp: is_digit_def)+
  have "CR \<notin> set (connect_hostport target)" "LF \<notin> set (connect_hostport target)"
    using assms(3,4) digits by (auto simp: connect_hostport_def Let_def CR_def LF_def)
  then have hp: "CR \<notin> set (c_string (connect_hostport target))" "LF \<notin> set (c_string (connect_hostport target))"
    by (auto simp: c_string_def dest: set_takeWhileD)
  have auth: "CR \<notin> set (auth_text p)" "LF \<notin> set (auth_text p)"
    by (auto simp: auth_text_def b64_text_plain) (auto simp: CR_def LF_def)
  have fixed: "CR \<notin> set ''CONNECT ''" "LF \<notin> set ''CONNECT ''" "CR \<notin> set '' HTTP/1.1''" "LF \<notin> set '' HTTP/1.1''"
      "CR \<notin> set ''Host: ''" "LF \<notin> set ''Host: ''" "CR \<notin> set ''Proxy-Authorization: ''"
      "LF \<notin> set ''Proxy-Authorization: ''" "CR \<notin> set ''Proxy-Connection: keep-alive''"
      "LF \<notin> set ''Proxy-Connection: keep-alive''" "CR \<notin> set []" "LF \<notin> set []"
    by (simp_all add: CR_def LF_def)
  have "list_all (\<lambda>l. CR \<notin> set l \<and> LF \<notin> set l) (connect_lines p target)"
    by (cases "px_username p = None")
      (simp_all only: connect_lines_def if_True if_False list_all_append list.pred_inject set_append Un_iff
        fixed hp auth simp_thms)
  then have "\<forall>l \<in> set (connect_lines p target). CR \<notin> set l \<and> LF \<notin> set l" by (simp only: list_all_iff)
  moreover have "px_username p = None \<longrightarrow> length (connect_lines p target) = 4" by (simp add: connect_lines_def)
  ultimately show ?thesis using connect_writes [OF assms(2) ok assms(1)] by blast
qed

definition proxy_example_uri :: up_uri where
  "proxy_example_uri = \<lparr>up_scheme = Some ''http'', up_userinfo = Some ''u%40:p'', up_host = Some ''h'',
              up_ip6 = False, up_ipfuture = False, up_port = ''8080'', up_path = [], up_query = None\<rparr>"

definition proxy_example_parser :: uri_parser where
  "proxy_example_parser s h = (UriSuccess proxy_example_uri, h)"

lemma plenty_dup: "rng_dup t h = (r, h') \<Longrightarrow> plenty h \<Longrightarrow> plenty h'"
    "rng_dup_lower t h = (r, h') \<Longrightarrow> plenty h \<Longrightarrow> plenty h'" "dup_str s h = (r, h') \<Longrightarrow> plenty h \<Longrightarrow> plenty h'"
  by (auto simp: rng_dup_def rng_dup_lower_def dup_str_def split: prod.splits if_splits option.splits dest: plenty_alloc)

lemma plenty_path_query: "build_path_query u h = (r, h') \<Longrightarrow> plenty h \<Longrightarrow> plenty h'"
proof -
  assume run: "build_path_query u h = (r, h')" and h: "plenty h"
  define fs where "fs = [if up_path u = [] then zuh_buf_append_byte (CHR ''/'') else c_all (map append_segment (up_path u)),
           case up_query u of None \<Rightarrow> (\<lambda>s. (True, s))
           | Some q \<Rightarrow> c_and (zuh_buf_append_byte (CHR ''?'')) (zuh_buf_append q), zuh_buf_cstr]"
  have query: "keeps_plenty (case up_query u of None \<Rightarrow> (\<lambda>s. (True, s))
           | Some q \<Rightarrow> c_and (zuh_buf_append_byte (CHR ''?'')) (zuh_buf_append q))"
    by (cases "up_query u") (simp_all add: keeps_plenty_def [of "Pair True"] zuh_buf_append_byte_def keeps_append keeps_c_and)
  have "keeps_plenty (c_all fs)"
    unfolding fs_def
    by (rule keeps_c_all) (simp add: query zuh_buf_append_byte_def append_segment_def keeps_append keeps_cstr keeps_c_and
        keeps_c_all list_all_iff)
  then have all: "c_all fs (b, h1) = (ok, b2, h2) \<Longrightarrow> plenty h1 \<Longrightarrow> plenty h2" for b h1 ok b2 h2
    using keepsD [of "c_all fs" "(b, h1)" ok "(b2, h2)"] by simp
  show "plenty h'"
    using run h unfolding build_path_query_def fs_def [symmetric]
    by (auto simp: zuh_buf_free_def split: prod.splits if_splits dest!: plenty_buf_init all plenty_dup(3))
qed

lemma plenty_from_uriparser: "from_uriparser u h = (c, out, h') \<Longrightarrow> plenty h \<Longrightarrow> plenty h'"
  by (auto simp: from_uriparser_def Let_def zuh_uri_free_def split: prod.splits if_splits option.splits
      dest!: plenty_dup(1,2) plenty_path_query)

text \<open>Credentials that fit the 4 KiB buffer are written whenever there is room and memory.\<close>

definition credentials_text :: "zuh_proxy \<Rightarrow> bytes" where
  "credentials_text p = c_string (the (px_username p)) @ '':'' @ c_string (case px_password p of None \<Rightarrow> [] | Some pw \<Rightarrow> pw)"

lemma exact_auth:
  assumes "px_username p \<noteq> None" "length (credentials_text p) < 4096"
  shows "buft.exact (auth_text p) (zuh_proxy_auth_value p)"
proof -
  obtain user where user: "px_username p = Some user" using assms(1) by blast
  define cred where "cred = c_all [zuh_buf_append_str user, zuh_buf_append_byte (CHR '':''),
      zuh_buf_append_str (case px_password p of None \<Rightarrow> [] | Some pw \<Rightarrow> pw)]"
  have "buft.exact (concat [c_string user, [CHR '':''], c_string (case px_password p of None \<Rightarrow> [] | Some pw \<Rightarrow> pw)]) cred"
    unfolding cred_def by (rule buft.exact_c_all) (simp add: exact_byte exact_str)
  then have cred: "buft.exact (credentials_text p) cred" by (simp add: credentials_text_def user)
  have send: "buft.exact (auth_text p) (c_and (zuh_buf_append_str ''Basic '') (zuh_base64_encode (credentials_text p)))"
    using buft.exact_c_and [OF exact_str [of "''Basic ''"] exact_b64] by (simp add: auth_text_def credentials_text_def)
  have "buft.fills (auth_text p) (zuh_proxy_auth_value p)"
    unfolding buft.fills_def
  proof (intro allI impI)
    fix s :: "zuh_buffer \<times> heap" and n assume room: "buf_room s (length (auth_text p) + n)"
    obtain out h where s: "s = (out, h)" by (rule prod.exhaust)
    obtain raw h1 where init: "zuh_buf_init 64 4096 h = (True, raw, h1)" "buf_room (raw, h1) 4095" "buf_data raw = []"
      using zuh_buf_init_room [of h 64 4096 4095] room s by (auto simp: buf_room_def SIZE_MAX_def)
    have "buf_room (raw, h1) (length (credentials_text p) + (4095 - length (credentials_text p)))"
      using init(2) assms(2) by simp
    then obtain raw2 h2 where r2: "cred (raw, h1) = (True, raw2, h2)" "plenty h2"
      using cred unfolding buft.exact_def buft.fills_def buf_room_def by fastforce
    have data: "buf_data raw2 = credentials_text p"
      using buft.exactD(3) [OF cred _ r2(1)] init(2,3) by (simp add: buf_room_def)
    have "buf_room (out, h2) (length (auth_text p) + n)" using room r2(2)
      by (simp only: s buf_room_def fst_conv snd_conv simp_thms)
    then obtain out3 h3 where
      "c_and (zuh_buf_append_str ''Basic '') (zuh_base64_encode (credentials_text p)) (out, h2) = (True, out3, h3)"
      "buf_room (out3, h3) n"
      using send unfolding buft.exact_def buft.fills_def by fastforce
    with init(1) r2(1) data show "\<exists>s'. zuh_proxy_auth_value p s = (True, s') \<and> buf_room s' n"
      by (auto simp: zuh_proxy_auth_value_def user s cred_def [symmetric] zuh_buf_free_def buf_room_def)
  qed
  with writes_auth [OF assms(1)] show ?thesis by (simp add: buft.exact_def)
qed

lemma proxy_example_from: "\<exists>u h. from_uriparser proxy_example_uri fresh_heap = (ZUH_OK, u, h) \<and> plenty h
    \<and> u_scheme u = Some ''http'' \<and> u_host u = Some ''h'' \<and> u_userinfo u = Some ''u%40:p''"
proof -
  obtain c u h where r: "from_uriparser proxy_example_uri fresh_heap = (c, u, h)" by (rule prod_cases3)
  have "up_usable proxy_example_uri"
    by (simp add: up_usable_def proxy_example_uri_def host_ok_def Let_def is_digit_def dec_value.simps)
  moreover have "length (path_query_text proxy_example_uri) < 65536"
    by (simp add: path_query_text_def proxy_example_uri_def)
  moreover have "up_small proxy_example_uri" by (simp add: up_small_def proxy_example_uri_def)
  ultimately have c: "c = ZUH_OK" using from_uriparser_plenty [OF plenty_fresh, of proxy_example_uri] r by simp
  have "plenty h" using plenty_from_uriparser [OF r] by simp
  moreover have "u_host u = Some ''h''"
    using r c by (auto simp: from_uriparser_def proxy_example_uri_def host_ok_def rng_dup_lower_def Let_def
        split: prod.splits if_splits option.splits)
  ultimately show ?thesis using from_uriparser_ok [OF r [unfolded c]] r c
    by (auto simp: proxy_example_uri_def)
qed

lemma proxy_example_parse: "\<exists>p h. zuh_proxy_parse proxy_example_parser (\<lambda>u h. h) (Some ''http://u%40:p@h:8080'') no_error
    fresh_heap = (ZUH_OK, p, no_error, h)"
proof -
  obtain u h where u: "from_uriparser proxy_example_uri fresh_heap = (ZUH_OK, u, h)" "plenty h"
      "u_scheme u = Some ''http''" "u_host u = Some ''h''" "u_userinfo u = Some ''u%40:p''"
    using proxy_example_from by blast
  have dup: "\<exists>h'. dup_s (Some t) h = (Some t, h') \<and> plenty h'" if "plenty h" "length t < 100" for t h
    using zuh_alloc_plenty [of h "length t + 1"] that by (simp add: dup_s_def ZUH_HDR_def SIZE_MAX_def)
  obtain h1 where d1: "dup_s (Some ''http'') h = (Some ''http'', h1)" "plenty h1" using dup [OF u(2), of "''http''"] by auto
  obtain h2 where d2: "dup_s (Some ''h'') h1 = (Some ''h'', h2)" "plenty h2" using dup [OF d1(2), of "''h''"] by auto
  obtain h3 where d3: "dup_s (Some ''u%40'') h2 = (Some ''u%40'', h3)" "plenty h3" using dup [OF d2(2), of "''u%40''"] by auto
  obtain h4 where d4: "dup_s (Some ''p'') h3 = (Some ''p'', h4)" using dup [OF d3(2), of "''p''"] by auto
  have found: "strstr_found ''http://u%40:p@h:8080'' ''://''" by code_simp
  have "zuh_uri_parse proxy_example_parser (\<lambda>u h. h) ''http://u%40:p@h:8080'' fresh_heap = (ZUH_OK, u, h)"
    by (simp add: zuh_uri_parse_def range_has_nul_def NUL_def proxy_example_parser_def u(1))
  moreover have "pct_decode ''u%40'' = Some ''u@''" "pct_decode ''p'' = Some ''p''" by code_simp+
  ultimately show ?thesis
    using found d1 d2 d3 d4 u by (simp add: zuh_proxy_parse_def Let_def)
qed

lemma proxy_credentials_round_trip_witness:
  "\<exists>p h b h' t. zuh_proxy_parse proxy_example_parser (\<lambda>u h. h) (Some ''http://u%40:p@h:8080'') no_error fresh_heap
      = (ZUH_OK, p, no_error, h) \<and> zuh_proxy_auth_value p (empty_buffer, fresh_heap) = (True, b, h')
    \<and> buf_data b = ''Basic '' @ t \<and> b64_decode t = Some ''u@:p''"
proof -
  obtain p h where p: "zuh_proxy_parse proxy_example_parser (\<lambda>u h. h) (Some ''http://u%40:p@h:8080'') no_error fresh_heap
      = (ZUH_OK, p, no_error, h)" using proxy_example_parse by blast
  have ui: "u_userinfo u = Some ''u%40:p''" if "zuh_uri_parse proxy_example_parser (\<lambda>u h. h) t h = (ZUH_OK, u, h1)" for t h u h1
    using that from_uriparser_ok [of proxy_example_uri h u]
    by (auto simp: zuh_uri_parse_def proxy_example_parser_def proxy_example_uri_def split: if_splits prod.splits)
  have enc: "pct_encode ''u@'' @ '':'' @ pct_encode ''p'' = ''u%40:p''" by code_simp
  have cred: "px_username p = Some ''u@'' \<and> px_password p = Some ''p''"
    by (rule proxy_parse_credentials [OF p _ _ enc [symmetric]]) (use ui in simp_all)
  have "length (credentials_text p) < 4096" using cred by (simp add: credentials_text_def c_string_def)
  then obtain b h' where run: "zuh_proxy_auth_value p (empty_buffer, fresh_heap) = (True, b, h')"
    using buft.exact_total [OF exact_auth, of p "(empty_buffer, fresh_heap)" 0] cred
    by (cases "zuh_proxy_auth_value p (empty_buffer, fresh_heap)") (auto simp: auth_text_def literal_simps)
  have "px_username p = Some ''u@'' \<and> px_password p = Some ''p''
      \<and> (\<exists>t. buf_data b = buf_data empty_buffer @ ''Basic '' @ t \<and> b64_decode t = Some (''u@'' @ '':'' @ ''p'') \<and> CR \<notin> set t \<and> LF \<notin> set t)"
    by (rule proxy_credentials_round_trip [OF p _ _ _ _ run]) (use ui enc in \<open>simp_all add: NUL_def\<close>)
  with p run show ?thesis by auto
qed

definition proxy_example_target :: zuh_uri where
  "proxy_example_target = zuh_uri_init\<lparr>u_host := Some ''a.b'', u_port := 443\<rparr>"

lemma example_connect_room:
  assumes "buf_room s 200"
  shows "\<exists>b h. zuh_proxy_connect_request zuh_proxy_init proxy_example_target s err = (ZUH_OK, (b, h), err) \<and> plenty h"
proof -
  let ?hp = "''a.b:443''"
  let ?ts = "[''CONNECT '', ?hp, '' HTTP/1.1'' @ CRLF @ ''Host: '', ?hp, CRLF, [], ''Proxy-Connection: keep-alive'' @ CRLF @ CRLF]"
  define fs where "fs = [zuh_buf_append_str ''CONNECT '', zuh_buf_append_str ?hp,
           zuh_buf_append_str ('' HTTP/1.1'' @ CRLF @ ''Host: ''), zuh_buf_append_str ?hp, zuh_buf_append_str CRLF,
           (\<lambda>s. (True, s)), zuh_buf_append_str (''Proxy-Connection: keep-alive'' @ CRLF @ CRLF)]"
  have str: "buft.exact t (zuh_buf_append_str t)" if "c_string t = t" for t using exact_str [of t] that by simp
  have hp: "connect_hostport proxy_example_target = ?hp" by code_simp
  have chp: "c_string ?hp = ?hp" by (simp add: literal_simps)
  note lits = connect_literals [THEN str]
  have "list_all2 buft.exact ?ts fs"
    unfolding fs_def using str [OF chp] lits buft.exact_nothing by (simp only: list_all2_Cons list_all2_Nil simp_thms)
  from buft.exact_c_all [OF this] have "buft.fills (concat ?ts) (c_all fs)" by (simp add: buft.exact_def)
  moreover have "buf_room s (length (concat ?ts) + (200 - length (concat ?ts)))" using assms by simp
  ultimately obtain s' where "c_all fs s = (True, s')" "plenty (snd s')" unfolding buft.fills_def buf_room_def by blast
  moreover have "zuh_proxy_connect_request zuh_proxy_init proxy_example_target s err
      = (case c_all fs s of (ok, s) \<Rightarrow> (if ok then ZUH_OK else ZUH_ERR_NOMEM, s, err))"
    unfolding zuh_proxy_connect_request_def hp Let_def fs_def by (simp add: proxy_example_target_def zuh_proxy_init_def del: c_all.simps)
  ultimately show ?thesis by (cases s') auto
qed

lemma connect_request_unsplittable_witness:
  "\<exists>b h. zuh_proxy_connect_request zuh_proxy_init proxy_example_target (empty_buffer, fresh_heap) no_error
      = (ZUH_OK, (b, h), no_error)
    \<and> buf_data b = concat (map (\<lambda>l. l @ CRLF) (connect_lines zuh_proxy_init proxy_example_target))"
proof -
  obtain b h where ok: "zuh_proxy_connect_request zuh_proxy_init proxy_example_target (empty_buffer, fresh_heap) no_error
      = (ZUH_OK, (b, h), no_error)" using example_connect_room [of "(empty_buffer, fresh_heap)" no_error] by auto
  have "buf_data b = buf_data empty_buffer @ concat (map (\<lambda>l. l @ CRLF) (connect_lines zuh_proxy_init proxy_example_target))"
    using connect_request_unsplittable [OF ok] by (simp add: proxy_example_target_def CR_def LF_def)
  with ok show ?thesis by auto
qed

end
