(* ===== verification/Zuh_Inflate.thy ===== *)
theory Zuh_Inflate
  imports Zuh_Framing
begin

text \<open>
  \<^verbatim>\<open>src/zuh_inflate.c\<close>: decompression of a response body, bounded while it runs. The system's
  zlib is a parameter: its stream state and the three calls the source makes. What a call reads
  is \<^verbatim>\<open>next_in\<close> with \<^verbatim>\<open>avail_in\<close>, the bytes left; what it writes into the local array is its
  result. \<^verbatim>\<open>max_ratio\<close>, an \<^verbatim>\<open>unsigned\<close>, is the \<^verbatim>\<open>uint64_t\<close> it is converted to wherever it is used.
\<close>

section \<open>zlib\<close>

record 'z zlib =
  zl_init2 :: "int \<Rightarrow> 'z option"
  zl_reset :: "'z \<Rightarrow> 'z option"
  zl_inflate :: "'z \<Rightarrow> bytes \<Rightarrow> nat \<Rightarrow> int \<times> nat \<times> bytes \<times> 'z"

text \<open>The results of \<^verbatim>\<open>inflate\<close> are its return value, the bytes consumed and the bytes produced.\<close>

definition Z_OK :: int where "Z_OK = 0"

definition Z_STREAM_END :: int where "Z_STREAM_END = 1"

definition Z_BUF_ERROR :: int where "Z_BUF_ERROR = -5"

section \<open>State\<close>

datatype zuh_encoding = ZUH_ENC_IDENTITY | ZUH_ENC_GZIP | ZUH_ENC_DEFLATE | ZUH_ENC_UNSUPPORTED

definition zuh_encoding_parse :: "bytes option \<Rightarrow> zuh_encoding" where
  "zuh_encoding_parse ce =
     (case ce of
        None \<Rightarrow> ZUH_ENC_IDENTITY
      | Some ce \<Rightarrow>
          if c_string ce = [] then ZUH_ENC_IDENTITY
          else let s = zuh_trim_ows (c_string ce) in
            if length s = 0 then ZUH_ENC_IDENTITY
            else if zuh_ascii_ncasecmp s ''identity'' = 0 then ZUH_ENC_IDENTITY
            else if zuh_ascii_ncasecmp s ''gzip'' = 0 then ZUH_ENC_GZIP
            else if zuh_ascii_ncasecmp s ''x-gzip'' = 0 then ZUH_ENC_GZIP
            else if zuh_ascii_ncasecmp s ''deflate'' = 0 then ZUH_ENC_DEFLATE
            else ZUH_ENC_UNSUPPORTED)"

text \<open>
  \<open>zi_strm\<close> says whether the block behind \<^verbatim>\<open>strm\<close> is allocated; \<open>zi_z\<close> is the stream in it once
  \<^verbatim>\<open>inflateInit2\<close> has succeeded. \<open>zi_hdr\<close> are the bytes held back, \<^verbatim>\<open>hdr_len\<close> of them.
\<close>

record 'z zuh_inflate =
  zi_strm :: bool
  zi_z :: "'z option"
  zi_enc :: zuh_encoding
  zi_started :: bool
  zi_finished :: bool
  zi_wrap_decided :: bool
  zi_hdr :: bytes
  zi_in_total :: u64
  zi_out_total :: u64
  zi_max_out :: u64
  zi_max_ratio :: u64

text \<open>\<^verbatim>\<open>sizeof(z_stream)\<close> on the 64-bit targets.\<close>

definition SIZEOF_Z_STREAM :: nat where
  "SIZEOF_Z_STREAM = 112"

definition zuh_inflate_init ::
    "'z zlib \<Rightarrow> zuh_encoding \<Rightarrow> u64 \<Rightarrow> u64 \<Rightarrow> heap \<Rightarrow> zuh_code \<times> 'z zuh_inflate \<times> heap" where
  "zuh_inflate_init zl enc max_out max_ratio h =
     (let z = \<lparr>zi_strm = False, zi_z = None, zi_enc = enc, zi_started = False, zi_finished = False,
               zi_wrap_decided = False, zi_hdr = [], zi_in_total = 0, zi_out_total = 0,
               zi_max_out = max_out, zi_max_ratio = max_ratio\<rparr> in
      if enc = ZUH_ENC_IDENTITY then (ZUH_OK, z, h)
      else if enc \<noteq> ZUH_ENC_GZIP \<and> enc \<noteq> ZUH_ENC_DEFLATE then (ZUH_ERR_BODY_DECODE, z, h)
      else case zuh_calloc 1 SIZEOF_Z_STREAM h of (ok, h) \<Rightarrow>
        if \<not> ok then (ZUH_ERR_NOMEM, z, h)
        else let z = z\<lparr>zi_strm := True\<rparr> in
          if enc = ZUH_ENC_GZIP then
            (case zl_init2 zl (15 + 16) of
               None \<Rightarrow> (ZUH_ERR_BODY_DECODE, z\<lparr>zi_strm := False\<rparr>, zuh_free (Some SIZEOF_Z_STREAM) h)
             | Some zs \<Rightarrow> (ZUH_OK, z\<lparr>zi_z := Some zs, zi_started := True, zi_wrap_decided := True\<rparr>, h))
          else (ZUH_OK, z, h))"

definition zuh_inflate_free :: "'z zuh_inflate \<Rightarrow> heap \<Rightarrow> 'z zuh_inflate \<times> heap" where
  "zuh_inflate_free z h =
     (if zi_strm z
      then (z\<lparr>zi_z := None, zi_strm := False, zi_started := False\<rparr>, zuh_free (Some SIZEOF_Z_STREAM) h)
      else (z\<lparr>zi_started := False\<rparr>, h))"

definition looks_zlib_wrapped :: "bytes \<Rightarrow> bool" where
  "looks_zlib_wrapped hdr =
     (if cval (hdr ! 0) AND 0x0f \<noteq> 8 then False
      else (push_bit 8 (cval (hdr ! 0)) OR cval (hdr ! 1)) mod 31 = 0)"

definition start_deflate :: "'z zlib \<Rightarrow> 'z zuh_inflate \<Rightarrow> zuh_code \<times> 'z zuh_inflate" where
  "start_deflate zl z =
     (case zl_init2 zl (if looks_zlib_wrapped (zi_hdr z) then 15 else -15) of
        None \<Rightarrow> (ZUH_ERR_BODY_DECODE, z)
      | Some zs \<Rightarrow> (ZUH_OK, z\<lparr>zi_z := Some zs, zi_started := True, zi_wrap_decided := True\<rparr>))"

abbreviation decode_error :: "zuh_error \<Rightarrow> zuh_code \<Rightarrow> bytes \<Rightarrow> zuh_error" where
  "decode_error err c msg \<equiv> zuh_error_set err c ZUH_PHASE_DECODE msg"

definition next_member :: "'z zlib \<Rightarrow> 'z zuh_inflate \<Rightarrow> zuh_error \<Rightarrow> zuh_code \<times> 'z zuh_inflate \<times> zuh_error" where
  "next_member zl z err =
     (case (if zi_enc z = ZUH_ENC_GZIP \<and> zi_strm z then zl_reset zl (the (zi_z z)) else None) of
        Some zs \<Rightarrow> (ZUH_OK, z\<lparr>zi_z := Some zs, zi_finished := False\<rparr>, err)
      | None \<Rightarrow>
          (ZUH_ERR_BODY_DECODE, z,
           decode_error err ZUH_ERR_BODY_DECODE ''data after the end of the compressed stream''))"

section \<open>The limits\<close>

definition remaining_allowance :: "'z zuh_inflate \<Rightarrow> u64" where
  "remaining_allowance z =
     (let room = - 1;
          room = (if zi_max_out z \<noteq> 0 then
                    (let left = (if zi_out_total z \<ge> zi_max_out z then 0 else zi_max_out z - zi_out_total z)
                     in if left < room then left else room)
                  else room)
      in if zi_max_ratio z \<noteq> 0 \<and> zi_in_total z \<ge> 32 \<and> zi_in_total z \<le> (- 1) div zi_max_ratio z then
           (let cap = zi_in_total z * zi_max_ratio z;
                left = (if zi_out_total z \<ge> cap then 0 else cap - zi_out_total z)
            in if left < room then left else room)
         else room)"

definition out_window :: "'z zuh_inflate \<Rightarrow> nat \<Rightarrow> nat" where
  "out_window z chunk_size =
     (let room = remaining_allowance z
      in if unat room \<ge> chunk_size then chunk_size else unat (room + 1))"

definition check_limits :: "'z zuh_inflate \<Rightarrow> zuh_error \<Rightarrow> zuh_code \<times> zuh_error" where
  "check_limits z err =
     (if zi_max_out z \<noteq> 0 \<and> zi_out_total z > zi_max_out z then
        (ZUH_ERR_BODY_LIMIT,
         decode_error err ZUH_ERR_BODY_LIMIT ''decompressed body exceeds the configured limit'')
      else if zi_max_ratio z \<noteq> 0 \<and> zi_in_total z \<ge> 32 \<and> zi_out_total z div zi_in_total z > zi_max_ratio z then
        (ZUH_ERR_BODY_LIMIT,
         decode_error err ZUH_ERR_BODY_LIMIT
           (''decompression ratio '' @ show_nat (unat (zi_out_total z div zi_in_total z))
            @ '':1 exceeds the limit of '' @ show_nat (unat (zi_max_ratio z)) @ '':1''))
      else (ZUH_OK, err))"

definition deliver ::
    "'z zuh_inflate \<Rightarrow> bytes \<Rightarrow> zuh_buffer \<Rightarrow> zuh_error \<Rightarrow> heap
     \<Rightarrow> zuh_code \<times> 'z zuh_inflate \<times> zuh_buffer \<times> zuh_error \<times> heap" where
  "deliver z produced out err h =
     (let allow = remaining_allowance z in
      if length produced > unat allow then
        (case (if allow \<noteq> 0 then zuh_buf_append (take (unat allow) produced) (out, h) else (True, out, h)) of
           (ok, out, h) \<Rightarrow>
         if \<not> ok then (ZUH_ERR_NOMEM, z, out, err, h)
         else
           let z = z\<lparr>zi_out_total := zi_out_total z + allow\<rparr>;
               err = snd (check_limits z err);
               err = (if err_code err \<noteq> ZUH_ERR_BODY_LIMIT then
                        (if zi_max_out z \<noteq> 0 \<and> zi_out_total z \<ge> zi_max_out z then
                           decode_error err ZUH_ERR_BODY_LIMIT ''decompressed body exceeds the configured limit''
                         else
                           decode_error err ZUH_ERR_BODY_LIMIT
                             (''decompression ratio exceeds the limit of '' @ show_nat (unat (zi_max_ratio z)) @ '':1''))
                      else err)
           in (ZUH_ERR_BODY_LIMIT, z, out, err, h))
      else
        (case (if produced \<noteq> [] then zuh_buf_append produced (out, h) else (True, out, h)) of
           (ok, out, h) \<Rightarrow>
         if \<not> ok then (ZUH_ERR_NOMEM, z, out, err, h)
         else
           let z = z\<lparr>zi_out_total := zi_out_total z + of_nat (length produced)\<rparr>
           in case check_limits z err of (rc, err) \<Rightarrow> (rc, z, out, err, h)))"

section \<open>Inflation\<close>

text \<open>
  What the two loops of \<^verbatim>\<open>zuh_inflate_run\<close> share: one call of \<^verbatim>\<open>inflate\<close> into the window,
  and the delivery of what it produced. The first component is the code to return with, if any;
  then come zlib's return value, the bytes produced and the bytes left.
\<close>

definition pump ::
    "'z zlib \<Rightarrow> 'z zuh_inflate \<Rightarrow> bytes \<Rightarrow> zuh_buffer \<Rightarrow> zuh_error \<Rightarrow> heap
     \<Rightarrow> zuh_code option \<times> int \<times> bytes \<times> bytes \<times> 'z zuh_inflate \<times> zuh_buffer \<times> zuh_error \<times> heap" where
  "pump zl z inp out err h =
     (case zl_inflate zl (the (zi_z z)) inp (out_window z 16384) of (ret, used, produced, zs) \<Rightarrow>
      let z = z\<lparr>zi_z := Some zs\<rparr>; rest = drop used inp in
      if ret \<noteq> Z_OK \<and> ret \<noteq> Z_STREAM_END \<and> ret \<noteq> Z_BUF_ERROR then
        (Some ZUH_ERR_BODY_DECODE, ret, produced, rest, z, out,
         decode_error err ZUH_ERR_BODY_DECODE ''malformed compressed data'', h)
      else if produced \<noteq> [] then
        (case deliver z produced out err h of (rc, z, out, err, h) \<Rightarrow>
         (if rc \<noteq> ZUH_OK then Some rc else None, ret, produced, rest, z, out, err, h))
      else (None, ret, produced, rest, z, out, err, h))"

type_synonym 'z inflate_result = "zuh_code \<times> 'z zuh_inflate \<times> zuh_buffer \<times> zuh_error \<times> heap"

text \<open>
  The loop over the two header bytes; \<open>trailing\<close> is \<^verbatim>\<open>in_len > 0\<close>, and the first component of the
  result the code to return with, or \<open>None\<close> after the \<^verbatim>\<open>break\<close>. Both loops may run for ever over
  a zlib that makes no progress, so a result is an option.
\<close>

partial_function (option) header_loop ::
    "'z zlib \<Rightarrow> bool \<Rightarrow> 'z zuh_inflate \<Rightarrow> bytes \<Rightarrow> zuh_buffer \<Rightarrow> zuh_error \<Rightarrow> heap
     \<Rightarrow> (zuh_code option \<times> 'z zuh_inflate \<times> zuh_buffer \<times> zuh_error \<times> heap) option" where
  "header_loop zl trailing z inp out err h =
     (case pump zl z inp out err h of (stop, ret, produced, rest, z, out, err, h) \<Rightarrow>
      if stop \<noteq> None then Some (stop, z, out, err, h)
      else if ret = Z_STREAM_END then
        let z = z\<lparr>zi_finished := True\<rparr> in
        if trailing then (case next_member zl z err of (rc, z, err) \<Rightarrow> Some (Some rc, z, out, err, h))
        else Some (Some ZUH_OK, z, out, err, h)
      else if rest = [] \<or> produced = [] then Some (None, z, out, err, h)
      else header_loop zl trailing z rest out err h)"

partial_function (option) inflate_loop ::
    "'z zlib \<Rightarrow> 'z zuh_inflate \<Rightarrow> bytes \<Rightarrow> zuh_buffer \<Rightarrow> zuh_error \<Rightarrow> heap \<Rightarrow> 'z inflate_result option" where
  "inflate_loop zl z inp out err h =
     (case pump zl z inp out err h of (stop, ret, produced, rest, z, out, err, h) \<Rightarrow>
      if stop \<noteq> None then Some (the stop, z, out, err, h)
      else if ret = Z_STREAM_END then
        let z = z\<lparr>zi_finished := True\<rparr> in
        if rest = [] then Some (ZUH_OK, z, out, err, h)
        else (case next_member zl z err of (rc, z, err) \<Rightarrow>
          if rc \<noteq> ZUH_OK then Some (rc, z, out, err, h) else inflate_loop zl z rest out err h)
      else if rest = [] \<and> produced = [] then Some (ZUH_ERR_WOULDBLOCK, z, out, err, h)
      else if produced = [] \<and> ret = Z_BUF_ERROR then Some (ZUH_ERR_WOULDBLOCK, z, out, err, h)
      else inflate_loop zl z rest out err h)"

text \<open>The loop that holds back the first two bytes.\<close>

fun hold_back :: "'z zuh_inflate \<Rightarrow> bytes \<Rightarrow> 'z zuh_inflate \<times> bytes" where
  "hold_back z [] = (z, [])"
| "hold_back z (c # cs) =
     (if length (zi_hdr z) < 2
      then hold_back (z\<lparr>zi_hdr := zi_hdr z @ [c], zi_in_total := zi_in_total z + 1\<rparr>) cs
      else (z, c # cs))"

text \<open>From the assignment of \<^verbatim>\<open>next_in\<close> to the end of the function.\<close>

definition inflate_rest ::
    "'z zlib \<Rightarrow> 'z zuh_inflate \<Rightarrow> bytes \<Rightarrow> zuh_buffer \<Rightarrow> zuh_error \<Rightarrow> heap \<Rightarrow> 'z inflate_result option" where
  "inflate_rest zl z p out err h =
     inflate_loop zl (z\<lparr>zi_in_total := zi_in_total z + of_nat (length p)\<rparr>)
       (take (length p mod 2 ^ 32) p) out err h"

text \<open>From the test of \<^verbatim>\<open>wrap_decided\<close>.\<close>

definition inflate_some ::
    "'z zlib \<Rightarrow> 'z zuh_inflate \<Rightarrow> bytes \<Rightarrow> zuh_buffer \<Rightarrow> zuh_error \<Rightarrow> heap \<Rightarrow> 'z inflate_result option" where
  "inflate_some zl z p out err h =
     (if \<not> zi_strm z then Some (ZUH_ERR_BODY_DECODE, z, out, err, h)
      else if zi_wrap_decided z then inflate_rest zl z p out err h
      else case hold_back z p of (z, p) \<Rightarrow>
        if length (zi_hdr z) < 2 then Some (ZUH_ERR_WOULDBLOCK, z, out, err, h)
        else case start_deflate zl z of (rc, z) \<Rightarrow>
          if rc \<noteq> ZUH_OK then Some (rc, z, out, decode_error err rc ''cannot start deflate stream'', h)
          else (case header_loop zl (p \<noteq> []) z (zi_hdr z) out err h of
              None \<Rightarrow> None
            | Some (Some rc, r) \<Rightarrow> Some (rc, r)
            | Some (None, z, out, err, h) \<Rightarrow> inflate_rest zl z p out err h))"

definition zuh_inflate_run ::
    "'z zlib \<Rightarrow> 'z zuh_inflate \<Rightarrow> bytes option \<Rightarrow> zuh_buffer \<Rightarrow> zuh_error \<Rightarrow> heap \<Rightarrow> 'z inflate_result option" where
  "zuh_inflate_run zl z inp out err h =
     (if zi_enc z = ZUH_ENC_IDENTITY then
        (case inp of
           None \<Rightarrow> Some (ZUH_OK, z, out, err, h)
         | Some d \<Rightarrow>
             (case (if length d \<noteq> 0 then zuh_buf_append d (out, h) else (True, out, h)) of (ok, out, h) \<Rightarrow>
              if \<not> ok then Some (ZUH_ERR_NOMEM, z, out, err, h)
              else
                let z = z\<lparr>zi_in_total := zi_in_total z + of_nat (length d),
                          zi_out_total := zi_out_total z + of_nat (length d)\<rparr>
                in case check_limits z err of (rc, err) \<Rightarrow> Some (rc, z, out, err, h)))
      else case inp of
        None \<Rightarrow>
          if zi_finished z \<or> zi_in_total z = 0 then Some (ZUH_OK, z, out, err, h)
          else Some (ZUH_ERR_BODY_DECODE, z, out,
            decode_error err ZUH_ERR_BODY_DECODE ''compressed body ended before the end of its stream'', h)
      | Some d \<Rightarrow>
          if zi_finished z then
            (if length d = 0 then Some (ZUH_OK, z, out, err, h)
             else case next_member zl z err of (rc, z, err) \<Rightarrow>
               if rc \<noteq> ZUH_OK then Some (rc, z, out, err, h) else inflate_some zl z d out err h)
          else inflate_some zl z d out err h)"

section \<open>The limits hold whatever zlib does\<close>

definition ratio_on :: "'z zuh_inflate \<Rightarrow> bool" where
  "ratio_on z \<longleftrightarrow> zi_max_ratio z \<noteq> 0 \<and> 32 \<le> zi_in_total z \<and> unat (zi_in_total z) * unat (zi_max_ratio z) < 2 ^ 64"

lemma ratio_guard:
  "r \<noteq> 0 \<Longrightarrow> (i :: u64) \<le> (- 1) div r \<longleftrightarrow> unat i * unat r < 2 ^ 64"
proof -
  assume r: "r \<noteq> 0"
  have m1: "unat (- 1 :: u64) = 2 ^ 64 - 1" by (simp add: unsigned_minus_1_eq_mask mask_eq_exp_minus_1)
  have "i \<le> (- 1) div r \<longleftrightarrow> unat i \<le> (2 ^ 64 - 1) div unat r" by (simp add: word_le_nat_alt unat_div_distrib m1)
  also have "\<dots> \<longleftrightarrow> unat i * unat r \<le> 2 ^ 64 - 1"
    using r by (simp add: less_eq_div_iff_mult_less_eq unat_gt_0)
  also have "\<dots> \<longleftrightarrow> unat i * unat r < 2 ^ 64" by auto
  finally show ?thesis .
qed

definition u64_left :: "u64 \<Rightarrow> u64 \<Rightarrow> u64" where
  "u64_left cap out = (if out \<ge> cap then 0 else cap - out)"

lemma u64_left: "out \<le> cap \<Longrightarrow> unat out + unat (u64_left cap out) = unat cap"
  by (auto simp: u64_left_def unat_sub word_le_nat_alt)

lemma u64_left_0: "cap \<le> out \<Longrightarrow> u64_left cap out = 0"
  by (simp add: u64_left_def)

lemma allowance_min:
  "remaining_allowance z = min (if zi_max_out z \<noteq> 0 then u64_left (zi_max_out z) (zi_out_total z) else - 1)
     (if ratio_on z then u64_left (zi_in_total z * zi_max_ratio z) (zi_out_total z) else - 1)"
proof -
  have guard: "zi_max_ratio z \<noteq> 0 \<and> zi_in_total z \<ge> 32 \<and> zi_in_total z \<le> (- 1) div zi_max_ratio z \<longleftrightarrow> ratio_on z"
    unfolding ratio_on_def using ratio_guard by blast
  have top: "min a (- 1) = a" "(if a < - 1 then a else - 1) = a" for a :: u64
    by (auto simp: min_def word_order.extremum_strict not_less intro: word_order.extremum_uniqueI [symmetric] word_order.extremum_uniqueI)
  show ?thesis
    unfolding remaining_allowance_def Let_def guard u64_left_def [symmetric]
    by (simp add: top) (auto simp: min_def word_order.not_eq_extremum [symmetric])
qed

lemma allowance_out:
  assumes "zi_max_out z \<noteq> 0" and "zi_out_total z \<le> zi_max_out z"
  shows "unat (zi_out_total z) + unat (remaining_allowance z) \<le> unat (zi_max_out z)"
proof -
  have "remaining_allowance z \<le> u64_left (zi_max_out z) (zi_out_total z)" using assms by (simp add: allowance_min)
  then show ?thesis using u64_left [OF assms(2)] by (simp add: word_le_nat_alt)
qed

lemma allowance_ratio:
  assumes "ratio_on z"
  shows "remaining_allowance z = 0
    \<or> unat (zi_out_total z) + unat (remaining_allowance z) \<le> unat (zi_in_total z) * unat (zi_max_ratio z)"
proof -
  let ?cap = "zi_in_total z * zi_max_ratio z"
  have cap: "unat ?cap = unat (zi_in_total z) * unat (zi_max_ratio z)"
    using assms by (simp add: ratio_on_def unat_word_ariths)
  have le: "remaining_allowance z \<le> u64_left ?cap (zi_out_total z)" using assms by (simp add: allowance_min)
  show ?thesis
  proof (cases "zi_out_total z \<le> ?cap")
    case True
    then show ?thesis using le u64_left [OF True] cap by (simp add: word_le_nat_alt)
  next
    case False
    then show ?thesis using le u64_left_0 [of ?cap "zi_out_total z"] by simp
  qed
qed

text \<open>What a step pays: the bytes appended are counted, and the counter stays within both limits.\<close>

definition paid :: "'z zuh_inflate \<Rightarrow> zuh_buffer \<Rightarrow> 'z zuh_inflate \<Rightarrow> zuh_buffer \<Rightarrow> bool" where
  "paid z b z' b' \<longleftrightarrow>
     zi_enc z' = zi_enc z \<and> zi_max_out z' = zi_max_out z \<and> zi_max_ratio z' = zi_max_ratio z
     \<and> zi_in_total z' = zi_in_total z
     \<and> (zi_max_out z \<noteq> 0 \<and> zi_out_total z \<le> zi_max_out z \<longrightarrow>
          zi_out_total z' \<le> zi_max_out z
          \<and> (\<exists>d. buf_data b' = buf_data b @ d \<and> unat (zi_out_total z') = unat (zi_out_total z) + length d))
     \<and> (ratio_on z \<longrightarrow> zi_out_total z' = zi_out_total z
          \<or> unat (zi_out_total z') \<le> unat (zi_in_total z) * unat (zi_max_ratio z))"

lemma paid_refl: "zi_enc z' = zi_enc z \<Longrightarrow> zi_max_out z' = zi_max_out z \<Longrightarrow> zi_max_ratio z' = zi_max_ratio z \<Longrightarrow>
    zi_in_total z' = zi_in_total z \<Longrightarrow> zi_out_total z' = zi_out_total z \<Longrightarrow> buf_data b' = buf_data b \<Longrightarrow> paid z b z' b'"
  by (simp add: paid_def)

lemma paid_trans: "paid z b z1 b1 \<Longrightarrow> paid z1 b1 z2 b2 \<Longrightarrow> paid z b z2 b2"
  unfolding paid_def ratio_on_def by auto

lemma append_data: "zuh_buf_append d (b, h) = (ok, b', h') \<Longrightarrow> buf_data b' = buf_data b @ (if ok then d else [])"
  by (auto simp: zuh_buf_append_def split: if_splits option.splits prod.splits dest: grow_to_data)

lemma add_allowed:
  assumes "k \<le> unat (remaining_allowance z)"
  shows "zi_max_out z \<noteq> 0 \<and> zi_out_total z \<le> zi_max_out z \<longrightarrow>
      unat (zi_out_total z + of_nat k) = unat (zi_out_total z) + k \<and> zi_out_total z + of_nat k \<le> zi_max_out z"
    and "ratio_on z \<longrightarrow> zi_out_total z + of_nat k = zi_out_total z
      \<or> unat (zi_out_total z + of_nat k) \<le> unat (zi_in_total z) * unat (zi_max_ratio z)"
proof -
  have k: "unat (of_nat k :: u64) = k"
    using assms unsigned_less [of "remaining_allowance z", where ?'a = nat] by (simp add: unat_of_nat take_bit_nat_eq_self)
  have sum: "unat (zi_out_total z + of_nat k) = unat (zi_out_total z) + k" if "unat (zi_out_total z) + k < 2 ^ 64"
    using that by (simp add: unat_word_ariths k)
  show "zi_max_out z \<noteq> 0 \<and> zi_out_total z \<le> zi_max_out z \<longrightarrow>
      unat (zi_out_total z + of_nat k) = unat (zi_out_total z) + k \<and> zi_out_total z + of_nat k \<le> zi_max_out z"
  proof
    assume m: "zi_max_out z \<noteq> 0 \<and> zi_out_total z \<le> zi_max_out z"
    have le: "unat (zi_out_total z) + k \<le> unat (zi_max_out z)" using allowance_out m assms by fastforce
    then have "unat (zi_out_total z) + k < 2 ^ 64" using unsigned_less [of "zi_max_out z", where ?'a = nat] by simp
    from sum [OF this] le show "unat (zi_out_total z + of_nat k) = unat (zi_out_total z) + k \<and> zi_out_total z + of_nat k \<le> zi_max_out z"
      by (simp add: word_le_nat_alt)
  qed
  show "ratio_on z \<longrightarrow> zi_out_total z + of_nat k = zi_out_total z
      \<or> unat (zi_out_total z + of_nat k) \<le> unat (zi_in_total z) * unat (zi_max_ratio z)"
  proof
    assume r: "ratio_on z"
    from allowance_ratio [OF r] show "zi_out_total z + of_nat k = zi_out_total z
      \<or> unat (zi_out_total z + of_nat k) \<le> unat (zi_in_total z) * unat (zi_max_ratio z)"
    proof
      assume "remaining_allowance z = 0"
      then show ?thesis using assms by simp
    next
      assume le: "unat (zi_out_total z) + unat (remaining_allowance z) \<le> unat (zi_in_total z) * unat (zi_max_ratio z)"
      then have "unat (zi_out_total z) + k < 2 ^ 64" using r assms by (simp add: ratio_on_def)
      from sum [OF this] le assms show ?thesis by simp
    qed
  qed
qed

lemma deliver_pays:
  assumes "deliver z produced b err h = (rc, z', b', err', h')"
  shows "paid z b z' b' \<and> zi_z z' = zi_z z \<and> zi_strm z' = zi_strm z \<and> zi_finished z' = zi_finished z"
proof -
  let ?allow = "remaining_allowance z"
  have step: "paid z b (z\<lparr>zi_out_total := zi_out_total z + of_nat k\<rparr>) b1"
    if "k \<le> unat ?allow" "buf_data b1 = buf_data b @ d" "length d = k" for k b1 d
    using add_allowed [OF that(1)] that(2,3) by (auto simp: paid_def)
  show ?thesis
  proof (cases "length produced > unat ?allow")
    case True
    define a where "a = (if ?allow \<noteq> 0 then zuh_buf_append (take (unat ?allow) produced) (b, h) else (True, b, h))"
    obtain ok b1 h1 where a1: "a = (ok, b1, h1)" by (rule prod_cases3)
    have b1: "buf_data b1 = buf_data b @ (if ok then take (unat ?allow) produced else [])"
      using a1 append_data unfolding a_def by (fastforce split: if_splits)
    show ?thesis
    proof (cases ok)
      case ok: True
      have "paid z b (z\<lparr>zi_out_total := zi_out_total z + ?allow\<rparr>) b1"
        using step [of "unat ?allow" b1 "take (unat ?allow) produced"] b1 ok True by simp
      then show ?thesis using assms True ok a1 by (auto simp: deliver_def Let_def a_def [symmetric])
    next
      case False
      then show ?thesis using assms True b1 a1 by (auto simp: deliver_def Let_def a_def [symmetric] intro!: paid_refl)
    qed
  next
    case False
    define a where "a = (if produced \<noteq> [] then zuh_buf_append produced (b, h) else (True, b, h))"
    obtain ok b1 h1 where a1: "a = (ok, b1, h1)" by (rule prod_cases3)
    have b1: "buf_data b1 = buf_data b @ (if ok then produced else [])"
      using a1 append_data unfolding a_def by (fastforce split: if_splits)
    show ?thesis
    proof (cases ok)
      case True
      have "paid z b (z\<lparr>zi_out_total := zi_out_total z + of_nat (length produced)\<rparr>) b1"
        using step [of "length produced" b1 produced] b1 True False by simp
      then show ?thesis using assms True False a1
        by (auto simp: deliver_def Let_def a_def [symmetric] split: prod.splits)
    next
      case nok: False
      then show ?thesis using assms False b1 a1
        by (auto simp: deliver_def Let_def a_def [symmetric] intro!: paid_refl)
    qed
  qed
qed

lemma pump_pays:
  assumes "pump zl z inp b err h = (stop, ret, produced, rest, z', b', err', h')"
  shows "paid z b z' b'"
proof -
  obtain ret1 used prod1 zs where c: "zl_inflate zl (the (zi_z z)) inp (out_window z 16384) = (ret1, used, prod1, zs)"
    by (rule prod_cases4)
  have "paid z b (z\<lparr>zi_z := Some zs\<rparr>) b" by (rule paid_refl) simp_all
  moreover have "paid (z\<lparr>zi_z := Some zs\<rparr>) b z' b'"
    using assms c
    by (auto simp: pump_def Let_def split: if_splits prod.splits dest!: deliver_pays intro!: paid_refl)
  ultimately show ?thesis by (rule paid_trans)
qed

lemma member_pays: "next_member zl z err = (rc, z', err') \<Longrightarrow> paid z b z' b"
  by (auto simp: next_member_def split: option.splits if_splits intro!: paid_refl)

lemma finished_pays: "paid z b (z\<lparr>zi_finished := f\<rparr>) b"
  by (rule paid_refl) simp_all

lemma inflate_loop_pays:
  assumes run: "inflate_loop zl z inp b err h = Some (rc, z', b', err', h')"
  shows "paid z b z' b'"
proof -
  have "case r of (rc, z', b', err', h') \<Rightarrow> paid z b z' b'" if "inflate_loop zl z inp b err h = Some r" for r
  proof (induction rule: inflate_loop.raw_induct [OF _ that])
    case (1 loop zl z inp b err h r)
    obtain stop ret produced rest z1 b1 e1 h1 where p: "pump zl z inp b err h = (stop, ret, produced, rest, z1, b1, e1, h1)"
      by (metis prod.exhaust)
    note pay = pump_pays [OF p]
    have again: "case r of (rc, z', b', err', h') \<Rightarrow> paid z b z' b'"
      if "loop zl z2 rest b1 e2 h1 = Some r" "paid z b z2 b1" for z2 e2
      using 1(1) [OF that(1)] paid_trans [OF that(2)] by (auto split: prod.splits)
    show ?case
    proof (cases "stop = None \<and> ret = Z_STREAM_END \<and> rest \<noteq> []")
      case True
      obtain rc z2 e2 where m: "next_member zl (z1\<lparr>zi_finished := True\<rparr>) e1 = (rc, z2, e2)" by (rule prod_cases3)
      have "paid z b z2 b1" using pay finished_pays member_pays [OF m] paid_trans by blast
      then show ?thesis using 1(2) p True m again by (auto simp: Let_def split: if_splits)
    next
      case False
      then show ?thesis using 1(2) p pay again paid_trans [OF pay finished_pays]
        by (auto simp: Let_def split: if_splits)
    qed
  qed
  from this [OF run] show ?thesis by simp
qed

lemma header_loop_pays:
  assumes run: "header_loop zl trailing z inp b err h = Some (rc, z', b', err', h')"
  shows "paid z b z' b'"
proof -
  have "case r of (rc, z', b', err', h') \<Rightarrow> paid z b z' b'" if "header_loop zl trailing z inp b err h = Some r" for r
  proof (induction rule: header_loop.raw_induct [OF _ that])
    case (1 loop zl trailing z inp b err h r)
    obtain stop ret produced rest z1 b1 e1 h1 where p: "pump zl z inp b err h = (stop, ret, produced, rest, z1, b1, e1, h1)"
      by (metis prod.exhaust)
    note pay = pump_pays [OF p]
    obtain rc z2 e2 where m: "next_member zl (z1\<lparr>zi_finished := True\<rparr>) e1 = (rc, z2, e2)" by (rule prod_cases3)
    have member: "paid z b z2 b1" using pay finished_pays member_pays [OF m] paid_trans by blast
    have again: "case r of (rc, z', b', err', h') \<Rightarrow> paid z b z' b'" if "loop zl trailing z1 rest b1 e1 h1 = Some r"
      using 1(1) [OF that(1)] paid_trans [OF pay] by (auto split: prod.splits)
    show ?case using 1(2) p pay again m member paid_trans [OF pay finished_pays]
      by (auto simp: Let_def split: if_splits)
  qed
  from this [OF run] show ?thesis by simp
qed

lemma hold_back_fields:
  "hold_back z p = (z', p') \<Longrightarrow> zi_enc z' = zi_enc z \<and> zi_max_out z' = zi_max_out z \<and> zi_max_ratio z' = zi_max_ratio z
    \<and> zi_out_total z' = zi_out_total z \<and> zi_z z' = zi_z z"
  by (induction z p rule: hold_back.induct) (auto split: if_splits)

text \<open>The same over a whole call, which also counts its input.\<close>

definition bounded_run :: "'z zuh_inflate \<Rightarrow> zuh_buffer \<Rightarrow> 'z zuh_inflate \<Rightarrow> zuh_buffer \<Rightarrow> bool" where
  "bounded_run z b z' b' \<longleftrightarrow>
     zi_enc z' = zi_enc z \<and> zi_max_out z' = zi_max_out z \<and> zi_max_ratio z' = zi_max_ratio z
     \<and> (zi_max_out z \<noteq> 0 \<and> zi_out_total z \<le> zi_max_out z \<longrightarrow>
          zi_out_total z' \<le> zi_max_out z
          \<and> (\<exists>d. buf_data b' = buf_data b @ d \<and> unat (zi_out_total z') = unat (zi_out_total z) + length d))"

lemma paid_bounded: "paid z b z' b' \<Longrightarrow> bounded_run z b z' b'"
  by (auto simp: paid_def bounded_run_def)

lemma bounded_trans: "bounded_run z b z1 b1 \<Longrightarrow> bounded_run z1 b1 z2 b2 \<Longrightarrow> bounded_run z b z2 b2"
  unfolding bounded_run_def by auto

lemma bounded_refl: "zi_enc z' = zi_enc z \<Longrightarrow> zi_max_out z' = zi_max_out z \<Longrightarrow> zi_max_ratio z' = zi_max_ratio z \<Longrightarrow>
    zi_out_total z' = zi_out_total z \<Longrightarrow> bounded_run z b z' b"
  by (simp add: bounded_run_def)

lemma inflate_rest_pays:
  assumes "inflate_rest zl z p b err h = Some (rc, z', b', err', h')"
  shows "bounded_run z b z' b'" and "ratio_on z' \<Longrightarrow> zi_out_total z' = zi_out_total z
    \<or> unat (zi_out_total z') \<le> unat (zi_in_total z') * unat (zi_max_ratio z')"
proof -
  let ?z = "z\<lparr>zi_in_total := zi_in_total z + of_nat (length p)\<rparr>"
  have p: "paid ?z b z' b'" using assms by (auto simp: inflate_rest_def dest: inflate_loop_pays)
  have "bounded_run z b ?z b" by (rule bounded_refl) simp_all
  then show "bounded_run z b z' b'" using paid_bounded [OF p] by (rule bounded_trans)
  show "ratio_on z' \<Longrightarrow> zi_out_total z' = zi_out_total z
    \<or> unat (zi_out_total z') \<le> unat (zi_in_total z') * unat (zi_max_ratio z')"
    using p by (auto simp: paid_def ratio_on_def)
qed

lemma inflate_some_pays:
  assumes run: "inflate_some zl z p b err h = Some (rc, z', b', err', h')"
  shows "bounded_run z b z' b'"
proof (cases "zi_strm z \<and> \<not> zi_wrap_decided z")
  case False
  then show ?thesis using run inflate_rest_pays(1)
    by (auto simp: inflate_some_def intro: bounded_refl split: if_splits)
next
  case True
  obtain z1 q where hb: "hold_back z p = (z1, q)" by (rule prod.exhaust)
  obtain rc2 z2 where sd: "start_deflate zl z1 = (rc2, z2)" by (rule prod.exhaust)
  have one: "bounded_run z b z1 b" using hold_back_fields [OF hb] by (simp add: bounded_refl)
  have "bounded_run z1 b z2 b"
    using sd by (auto simp: start_deflate_def split: option.splits intro!: bounded_refl)
  with one have two: "bounded_run z b z2 b" by (rule bounded_trans)
  show ?thesis
  proof (cases "length (zi_hdr z1) < 2 \<or> rc2 \<noteq> ZUH_OK")
    case True
    with run \<open>zi_strm z \<and> \<not> zi_wrap_decided z\<close> hb sd one two show ?thesis
      by (auto simp: inflate_some_def split: if_splits)
  next
    case False
    then obtain r where r: "header_loop zl (q \<noteq> []) z2 (zi_hdr z2) b err h = Some r"
      using run True hb sd by (auto simp: inflate_some_def split: option.splits)
    obtain st z3 b3 e3 h3 where r3: "r = (st, z3, b3, e3, h3)" by (cases r) auto
    have "paid z2 b z3 b3" using header_loop_pays r r3 by blast
    then have three: "bounded_run z b z3 b3" using paid_bounded bounded_trans two by blast
    show ?thesis
    proof (cases st)
      case None
      have "inflate_rest zl z3 q b3 e3 h3 = Some (rc, z', b', err', h')"
        using run True False hb sd r r3 None by (simp add: inflate_some_def)
      from inflate_rest_pays(1) [OF this] three show ?thesis by (blast intro: bounded_trans)
    next
      case (Some c)
      then show ?thesis using run True False hb sd r r3 three by (simp add: inflate_some_def)
    qed
  qed
qed

lemma inflate_run_pays:
  assumes run: "zuh_inflate_run zl z inp b err h = Some (rc, z', b', err', h')" and enc: "zi_enc z \<noteq> ZUH_ENC_IDENTITY"
  shows "bounded_run z b z' b'"
proof (cases inp)
  case None
  then show ?thesis using run enc by (auto simp: zuh_inflate_run_def split: if_splits intro: bounded_refl)
next
  case (Some d)
  show ?thesis
  proof (cases "zi_finished z")
    case False
    then show ?thesis using run enc Some inflate_some_pays by (simp add: zuh_inflate_run_def)
  next
    case True
    obtain rc1 z1 e1 where m: "next_member zl z err = (rc1, z1, e1)" by (rule prod_cases3)
    have "bounded_run z b z1 b" using member_pays [OF m] by (rule paid_bounded)
    then show ?thesis using run enc Some True m inflate_some_pays bounded_trans
      by (fastforce simp: zuh_inflate_run_def split: if_splits intro: bounded_refl)
  qed
qed

text \<open>
  A decompression bomb never gets past its limits, whatever zlib answers. A call that starts
  within \<^verbatim>\<open>max_out\<close> ends within it, counting exactly the bytes it appended to the buffer, and
  appends nothing else; and on a gzip stream, or a deflate stream whose wrapping is decided, once
  32 bytes of input are counted a call either appends nothing or leaves the total within
  \<^verbatim>\<open>max_ratio\<close> times the input.
\<close>
lemma inflate_never_exceeds:
  assumes "zuh_inflate_run zl z (Some d) b err h = Some (rc, z', b', err', h')"
    and "zi_enc z \<noteq> ZUH_ENC_IDENTITY" and "zi_max_out z \<noteq> 0" and "zi_out_total z \<le> zi_max_out z"
  shows "zi_max_out z' = zi_max_out z \<and> zi_out_total z' \<le> zi_max_out z'
    \<and> (\<exists>new. buf_data b' = buf_data b @ new \<and> unat (zi_out_total z') = unat (zi_out_total z) + length new)
    \<and> (zi_wrap_decided z \<and> ratio_on z' \<longrightarrow>
         buf_data b' = buf_data b \<or> unat (zi_out_total z') \<le> unat (zi_in_total z') * unat (zi_max_ratio z'))"
proof -
  have b: "bounded_run z b z' b'" using inflate_run_pays assms(1,2) by blast
  have ratio: "zi_out_total z' = zi_out_total z
      \<or> unat (zi_out_total z') \<le> unat (zi_in_total z') * unat (zi_max_ratio z')" if "zi_wrap_decided z" "ratio_on z'"
  proof -
    have some: "zi_out_total z' = zi_out_total z1
      \<or> unat (zi_out_total z') \<le> unat (zi_in_total z') * unat (zi_max_ratio z')"
      if "inflate_some zl z1 d b e1 h = Some (rc, z', b', err', h')" "zi_wrap_decided z1" for z1 e1
      using that \<open>ratio_on z'\<close> by (auto simp: inflate_some_def split: if_splits dest: inflate_rest_pays(2))
    obtain rc1 z1 e1 where m: "next_member zl z err = (rc1, z1, e1)" by (rule prod_cases3)
    have "zi_out_total z1 = zi_out_total z" "zi_wrap_decided z1 = zi_wrap_decided z"
      using m by (auto simp: next_member_def split: option.splits)
    then show ?thesis using assms(1,2) m some [of z err] some [of z1 e1] that(1)
      by (auto simp: zuh_inflate_run_def split: if_splits)
  qed
  show ?thesis using b ratio assms(3,4) by (auto simp: bounded_run_def)
qed

section \<open>Termination\<close>

text \<open>
  What zlib documents of its progress: a call never consumes more than it is given; one that
  returns \<^verbatim>\<open>Z_OK\<close> or \<^verbatim>\<open>Z_STREAM_END\<close> consumes input or works off output that is pending, of
  which there is a finite amount \<open>pend\<close>; \<^verbatim>\<open>Z_BUF_ERROR\<close> means there was no progress; and a
  reset leaves nothing pending that was not there.
\<close>

definition zlib_progress :: "'z zlib \<Rightarrow> ('z \<Rightarrow> nat) \<Rightarrow> bool" where
  "zlib_progress zl pend \<longleftrightarrow>
     (\<forall>zs inp n ret used produced zs'. zl_inflate zl zs inp n = (ret, used, produced, zs') \<longrightarrow>
        used \<le> length inp \<and> (ret \<in> {Z_OK, Z_STREAM_END} \<longrightarrow> used > 0 \<or> pend zs' < pend zs)
        \<and> (ret = Z_BUF_ERROR \<longrightarrow> produced = []))
     \<and> (\<forall>zs zs'. zl_reset zl zs = Some zs' \<longrightarrow> pend zs' \<le> pend zs)"

definition inflate_rank :: "('z \<Rightarrow> nat) \<Rightarrow> 'z zuh_inflate \<Rightarrow> bytes \<Rightarrow> nat \<times> nat" where
  "inflate_rank pend z inp = (length inp, pend (the (zi_z z)))"

lemma pump_progress:
  assumes prog: "zlib_progress zl pend" and p: "pump zl z inp b err h = (None, ret, produced, rest, z1, b1, e1, h1)"
  shows "(ret = Z_BUF_ERROR \<longrightarrow> produced = [])
    \<and> (ret \<noteq> Z_BUF_ERROR \<longrightarrow> (inflate_rank pend z1 rest, inflate_rank pend z inp) \<in> less_than <*lex*> less_than)"
proof -
  obtain ret1 used prod1 zs where c: "zl_inflate zl (the (zi_z z)) inp (out_window z 16384) = (ret1, used, prod1, zs)"
    by (rule prod_cases4)
  have facts: "used \<le> length inp" "ret1 \<in> {Z_OK, Z_STREAM_END} \<longrightarrow> used > 0 \<or> pend zs < pend (the (zi_z z))"
      "ret1 = Z_BUF_ERROR \<longrightarrow> prod1 = []"
    using prog c unfolding zlib_progress_def by blast+
  have out: "ret = ret1" "produced = prod1" "rest = drop used inp" "ret1 \<in> {Z_OK, Z_STREAM_END, Z_BUF_ERROR}" "zi_z z1 = Some zs"
    using p c by (auto simp: pump_def Let_def split: if_splits prod.splits dest: deliver_pays)
  show ?thesis using facts out by (cases "used = 0") (auto simp: inflate_rank_def)
qed

lemma member_rank:
  assumes "zlib_progress zl pend" and "next_member zl (z\<lparr>zi_finished := True\<rparr>) err = (ZUH_OK, z2, e2)"
    and "(inflate_rank pend z rest, r) \<in> less_than <*lex*> less_than"
  shows "(inflate_rank pend z2 rest, r) \<in> less_than <*lex*> less_than"
proof -
  obtain zs where "zl_reset zl (the (zi_z z)) = Some zs" "z2 = z\<lparr>zi_z := Some zs, zi_finished := False\<rparr>"
    using assms(2) by (auto simp: next_member_def split: option.splits if_splits)
  moreover then have "pend zs \<le> pend (the (zi_z z))" using assms(1) unfolding zlib_progress_def by blast
  ultimately show ?thesis using assms(3) by (cases r) (auto simp: inflate_rank_def)
qed

lemma inflate_loop_returns:
  assumes prog: "zlib_progress zl pend"
  shows "\<exists>r. inflate_loop zl z inp b err h = Some r"
proof (induction "inflate_rank pend z inp" arbitrary: z inp b err h
    rule: wf_induct_rule [OF wf_lex_prod [OF wf_less_than wf_less_than]])
  case 1
  obtain stop ret produced rest z1 b1 e1 h1 where p: "pump zl z inp b err h = (stop, ret, produced, rest, z1, b1, e1, h1)"
    by (metis prod.exhaust)
  show ?case
  proof (cases stop)
    case (Some c)
    with p show ?thesis by (subst inflate_loop.simps) simp
  next
    case None
    note pr = pump_progress [OF prog p [unfolded None]]
    have again: "\<exists>r. inflate_loop zl z1 rest b1 e1 h1 = Some r" if "ret \<noteq> Z_BUF_ERROR"
      using 1 pr that by blast
    show ?thesis
    proof (cases "ret = Z_STREAM_END")
      case True
      obtain rc z2 e2 where m: "next_member zl (z1\<lparr>zi_finished := True\<rparr>) e1 = (rc, z2, e2)" by (rule prod_cases3)
      have ne: "Z_STREAM_END \<noteq> Z_BUF_ERROR" by (simp add: Z_STREAM_END_def Z_BUF_ERROR_def)
      have "\<exists>r. inflate_loop zl z2 rest b1 e2 h1 = Some r" if "rc = ZUH_OK"
      proof -
        have "next_member zl (z1\<lparr>zi_finished := True\<rparr>) e1 = (ZUH_OK, z2, e2)" using m that by simp
        moreover have "(inflate_rank pend z1 rest, inflate_rank pend z inp) \<in> less_than <*lex*> less_than"
          using pr True ne by simp
        ultimately show ?thesis by (rule 1 [OF member_rank [OF prog]])
      qed
      then show ?thesis using p None True m by (subst inflate_loop.simps) (auto simp: Let_def)
    next
      case False
      then show ?thesis using p None pr again by (subst inflate_loop.simps) auto
    qed
  qed
qed

lemma header_loop_returns:
  assumes prog: "zlib_progress zl pend"
  shows "\<exists>r. header_loop zl trailing z inp b err h = Some r"
proof (induction "inflate_rank pend z inp" arbitrary: z inp b err h
    rule: wf_induct_rule [OF wf_lex_prod [OF wf_less_than wf_less_than]])
  case 1
  obtain stop ret produced rest z1 b1 e1 h1 where p: "pump zl z inp b err h = (stop, ret, produced, rest, z1, b1, e1, h1)"
    by (metis prod.exhaust)
  show ?case
  proof (cases "stop = None \<and> ret \<noteq> Z_BUF_ERROR")
    case True
    then have "(inflate_rank pend z1 rest, inflate_rank pend z inp) \<in> less_than <*lex*> less_than"
      using pump_progress [OF prog] p by blast
    from 1 [OF this] show ?thesis using p True by (subst header_loop.simps) (auto simp: Let_def split: prod.split)
  next
    case False
    have "ret = Z_BUF_ERROR \<Longrightarrow> stop = None \<Longrightarrow> produced = []" using pump_progress [OF prog] p by blast
    then show ?thesis using p False by (subst header_loop.simps) (auto simp: Let_def split: prod.split)
  qed
qed

lemma inflate_run_total:
  assumes "zlib_progress zl pend"
  shows "\<exists>r. zuh_inflate_run zl z inp b err h = Some r"
proof -
  have rest: "\<exists>r. inflate_rest zl z p b err h = Some r" for z p b err h
    unfolding inflate_rest_def by (rule inflate_loop_returns [OF assms])
  have some: "\<exists>r. inflate_some zl z p b err h = Some r" for z p b err h
  proof -
    obtain z1 q where hb: "hold_back z p = (z1, q)" by (rule prod.exhaust)
    obtain rc2 z2 where sd: "start_deflate zl z1 = (rc2, z2)" by (rule prod.exhaust)
    obtain st z3 b3 e3 h3 where hl: "header_loop zl (q \<noteq> []) z2 (zi_hdr z2) b err h = Some (st, z3, b3, e3, h3)"
      using header_loop_returns [OF assms] by (metis prod.exhaust)
    show ?thesis using hb sd hl rest by (cases st) (auto simp: inflate_some_def)
  qed
  then have "inflate_some zl z p b err h \<noteq> None" for z p b err h by (metis option.distinct(1))
  then have "zuh_inflate_run zl z inp b err h \<noteq> None"
    by (auto simp: zuh_inflate_run_def Let_def split: option.split prod.split)
  then show ?thesis by blast
qed

text \<open>
  Decompression of a piece always returns, on every input and in every state, over a zlib
  that makes the progress it documents; only the number of its calls depends on what it answers.
\<close>
lemma inflate_returns:
  assumes "zlib_progress zl pend"
  shows "\<exists>r. zuh_inflate_run zl z inp b err h = Some r"
  using assms by (rule inflate_run_total)

section \<open>Example\<close>

text \<open>A coding that stores the bytes and ends with an exclamation mark.\<close>

definition example_inflate :: "unit \<Rightarrow> bytes \<Rightarrow> nat \<Rightarrow> int \<times> nat \<times> bytes \<times> unit" where
  "example_inflate zs inp n =
     (let body = take n (takeWhile (\<lambda>c. c \<noteq> CHR ''!'') inp) in
      if inp = [] \<or> n = 0 then (Z_BUF_ERROR, 0, [], ())
      else if body = [] then (Z_STREAM_END, 1, [], ())
      else (Z_OK, length body, body, ()))"

definition example_zlib :: "unit zlib" where
  "example_zlib = \<lparr>zl_init2 = \<lambda>w. Some (), zl_reset = \<lambda>zs. Some (), zl_inflate = example_inflate\<rparr>"

lemma example_progress: "zlib_progress example_zlib (\<lambda>zs. 0)"
proof -
  have "length (take n (takeWhile P inp)) \<le> length inp" for n P and inp :: bytes
    using length_takeWhile_le [of P inp] by simp
  then show ?thesis
    by (auto simp: zlib_progress_def example_zlib_def example_inflate_def Let_def Z_BUF_ERROR_def Z_OK_def Z_STREAM_END_def
        Suc_le_eq split: if_splits)
qed

lemma example_gzip: "\<exists>z h. zuh_inflate_init example_zlib ZUH_ENC_GZIP 4 1000 fresh_heap = (ZUH_OK, z, h)
    \<and> zi_enc z = ZUH_ENC_GZIP \<and> zi_max_out z = 4 \<and> zi_out_total z = 0"
  by (auto simp: zuh_inflate_init_def Let_def example_zlib_def zuh_calloc_def zuh_size_mul_def zuh_alloc_def zuh_size_add_def
      should_fail_def sys_malloc_def fresh_heap_def SIZEOF_Z_STREAM_def SIZE_MAX_def ZUH_HDR_def)

lemma inflate_never_exceeds_witness:
  "\<exists>z h rc z' b' err h'. zuh_inflate_init example_zlib ZUH_ENC_GZIP 4 1000 fresh_heap = (ZUH_OK, z, h)
    \<and> zuh_inflate_run example_zlib z (Some ''abcdefg!'') empty_buffer no_error h = Some (rc, z', b', err, h')
    \<and> buf_len b' \<le> 4"
proof -
  obtain z h where z: "zuh_inflate_init example_zlib ZUH_ENC_GZIP 4 1000 fresh_heap = (ZUH_OK, z, h)"
      "zi_enc z = ZUH_ENC_GZIP" "zi_max_out z = 4" "zi_out_total z = 0" using example_gzip by blast
  obtain rc z' b' err h' where
      r: "zuh_inflate_run example_zlib z (Some ''abcdefg!'') empty_buffer no_error h = Some (rc, z', b', err, h')"
    using inflate_run_total [OF example_progress] by (metis prod.exhaust)
  from inflate_never_exceeds [OF r] z have "zi_out_total z' \<le> 4" "buf_len b' = unat (zi_out_total z')" by auto
  then have "buf_len b' \<le> 4" by (simp add: word_le_nat_alt)
  with z(1) r show ?thesis by blast
qed

lemma inflate_returns_witness:
  "\<exists>z h r. zuh_inflate_init example_zlib ZUH_ENC_GZIP 4 1000 fresh_heap = (ZUH_OK, z, h)
    \<and> zuh_inflate_run example_zlib z (Some ''ab!cd!'') empty_buffer no_error h = Some r"
  using example_gzip inflate_returns [OF example_progress] by blast

end
