(* ===== verification/Zuh_Sink.thy ===== *)
theory Zuh_Sink
  imports Zuh_Buffer Zuh_Error
begin

text \<open>
  \<^verbatim>\<open>src/zuh_sink.c\<close>: where a response body goes. A sink is its context (\<^verbatim>\<open>ctx\<close>, of any type), the
  byte count and the stop flag; its functions are a vtable over the whole sink, as in C, where each
  receives the \<^verbatim>\<open>zuh_sink *\<close>. The built-in sinks follow: memory, discard, and the file sink with
  its atomic commit, over a file system that answers each call from an oracle.
\<close>

section \<open>The interface\<close>

record 'c zuh_sink =
  sk_ctx :: 'c
  sk_written :: u64
  sk_stopped :: bool

record 'c sink_vtable =
  sv_write :: "('c zuh_sink \<Rightarrow> bytes \<Rightarrow> zuh_error \<Rightarrow> heap \<Rightarrow> zuh_code \<times> 'c zuh_sink \<times> zuh_error \<times> heap) option"
  sv_finish :: "('c zuh_sink \<Rightarrow> zuh_error \<Rightarrow> zuh_code \<times> 'c zuh_sink \<times> zuh_error) option"
  sv_abort :: "('c zuh_sink \<Rightarrow> 'c zuh_sink) option"
  sv_destroy :: "('c zuh_sink \<Rightarrow> heap \<Rightarrow> 'c zuh_sink \<times> heap) option"

definition zuh_sink_write ::
    "'c sink_vtable \<Rightarrow> 'c zuh_sink \<Rightarrow> bytes \<Rightarrow> zuh_error \<Rightarrow> heap \<Rightarrow> zuh_code \<times> 'c zuh_sink \<times> zuh_error \<times> heap" where
  "zuh_sink_write vt s data err h =
     (case sv_write vt of
        None \<Rightarrow> (ZUH_OK, s, err, h)
      | Some f \<Rightarrow>
          if length data = 0 then (ZUH_OK, s, err, h)
          else (case f s data err h of (rc, s, err, h) \<Rightarrow>
            (rc, if rc = ZUH_OK then s\<lparr>sk_written := sk_written s + of_nat (length data)\<rparr> else s, err, h)))"

definition zuh_sink_finish :: "'c sink_vtable \<Rightarrow> 'c zuh_sink \<Rightarrow> zuh_error \<Rightarrow> zuh_code \<times> 'c zuh_sink \<times> zuh_error" where
  "zuh_sink_finish vt s err = (case sv_finish vt of None \<Rightarrow> (ZUH_OK, s, err) | Some f \<Rightarrow> f s err)"

definition zuh_sink_abort :: "'c sink_vtable \<Rightarrow> 'c zuh_sink \<Rightarrow> 'c zuh_sink" where
  "zuh_sink_abort vt s = (case sv_abort vt of None \<Rightarrow> s | Some f \<Rightarrow> f s)"

text \<open>\<^verbatim>\<open>sizeof(zuh_sink)\<close>: five pointers, a \<^verbatim>\<open>uint64_t\<close>, an \<^verbatim>\<open>int\<close> and its padding.\<close>

definition SIZEOF_SINK :: nat where
  "SIZEOF_SINK = 56"

definition zuh_sink_free :: "'c sink_vtable \<Rightarrow> 'c zuh_sink \<Rightarrow> heap \<Rightarrow> 'c zuh_sink \<times> heap" where
  "zuh_sink_free vt s h =
     (case (case sv_destroy vt of None \<Rightarrow> (s, h) | Some f \<Rightarrow> f s h) of (s, h) \<Rightarrow>
      (s, zuh_free (Some SIZEOF_SINK) h))"

text \<open>What a caller may rely on: a write that succeeds has delivered its bytes, one that fails a prefix of them.\<close>

locale sink_contract =
  fixes vt :: "'c sink_vtable" and sunk :: "'c zuh_sink \<Rightarrow> bytes"
  assumes sinks_prefix: "zuh_sink_write vt s data err h = (rc, s', err', h') \<Longrightarrow>
      \<exists>k. sunk s' = sunk s @ take k data \<and> (rc = ZUH_OK \<longrightarrow> k = length data)"
    and counts: "zuh_sink_write vt s data err h = (rc, s', err', h') \<Longrightarrow>
      sk_written s' = sk_written s + (if rc = ZUH_OK then of_nat (length data) else 0)"
    and reports: "zuh_sink_write vt s data err h = (rc, s', err', h') \<Longrightarrow>
      if rc = ZUH_OK then err' = err else err_code err' = rc"

section \<open>Memory and discard\<close>

definition mem_write ::
    "zuh_buffer zuh_sink \<Rightarrow> bytes \<Rightarrow> zuh_error \<Rightarrow> heap \<Rightarrow> zuh_code \<times> zuh_buffer zuh_sink \<times> zuh_error \<times> heap" where
  "mem_write s d err h =
     (case zuh_buf_append d (sk_ctx s, h) of (ok, b, h) \<Rightarrow>
      if \<not> ok then
        (ZUH_ERR_NOMEM, s\<lparr>sk_ctx := b\<rparr>,
         zuh_error_set err ZUH_ERR_NOMEM ZUH_PHASE_READ ''out of memory buffering the response body'', h)
      else (ZUH_OK, s\<lparr>sk_ctx := b\<rparr>, err, h))"

definition memory_vtable :: "zuh_buffer sink_vtable" where
  "memory_vtable = \<lparr>sv_write = Some mem_write, sv_finish = None, sv_abort = None, sv_destroy = None\<rparr>"

definition zuh_sink_memory_init :: "zuh_buffer \<Rightarrow> zuh_buffer zuh_sink" where
  "zuh_sink_memory_init out = \<lparr>sk_ctx = out, sk_written = 0, sk_stopped = False\<rparr>"

definition zuh_sink_memory :: "zuh_buffer \<Rightarrow> heap \<Rightarrow> zuh_buffer zuh_sink option \<times> heap" where
  "zuh_sink_memory out h =
     (case zuh_calloc 1 SIZEOF_SINK h of (ok, h) \<Rightarrow> (if ok then Some (zuh_sink_memory_init out) else None, h))"

definition discard_write ::
    "unit zuh_sink \<Rightarrow> bytes \<Rightarrow> zuh_error \<Rightarrow> heap \<Rightarrow> zuh_code \<times> unit zuh_sink \<times> zuh_error \<times> heap" where
  "discard_write s d err h = (ZUH_OK, s, err, h)"

definition discard_vtable :: "unit sink_vtable" where
  "discard_vtable = \<lparr>sv_write = Some discard_write, sv_finish = None, sv_abort = None, sv_destroy = None\<rparr>"

definition zuh_sink_discard :: "heap \<Rightarrow> unit zuh_sink option \<times> heap" where
  "zuh_sink_discard h =
     (case zuh_calloc 1 SIZEOF_SINK h of (ok, h) \<Rightarrow>
      (if ok then Some \<lparr>sk_ctx = (), sk_written = 0, sk_stopped = False\<rparr> else None, h))"

section \<open>The file system\<close>

text \<open>
  The names and the contents behind them; a symbolic link occupies its name. Each call takes its
  outcome from \<open>fs_answers\<close>: \<open>None\<close> if it succeeds, \<open>Some k\<close> if it fails, having passed on \<open>k\<close>
  bytes where it is a write. Beyond the end of the list every call succeeds. Only this process
  uses the names concerned.
\<close>

record filesys =
  fs_files :: "bytes \<Rightarrow> bytes option"
  fs_answers :: "nat option list"

definition fs_answer :: "filesys \<Rightarrow> nat option \<times> filesys" where
  "fs_answer fs = (case fs_answers fs of [] \<Rightarrow> (None, fs) | a # as \<Rightarrow> (a, fs\<lparr>fs_answers := as\<rparr>))"

datatype open_result = Opened | Exists | Refused

text \<open>\<^verbatim>\<open>open\<close> with \<^verbatim>\<open>O_CREAT | O_EXCL\<close>: \<open>Exists\<close> is \<^verbatim>\<open>EEXIST\<close>, \<open>Refused\<close> any other \<^verbatim>\<open>errno\<close>.\<close>

definition fs_open_excl :: "bytes \<Rightarrow> filesys \<Rightarrow> open_result \<times> filesys" where
  "fs_open_excl p fs =
     (case fs_answer fs of (a, fs) \<Rightarrow>
      if fs_files fs p \<noteq> None then (Exists, fs)
      else if a = None then (Opened, fs\<lparr>fs_files := (fs_files fs)(p \<mapsto> [])\<rparr>)
      else (Refused, fs))"

definition fs_append :: "bytes \<Rightarrow> bytes \<Rightarrow> filesys \<Rightarrow> filesys" where
  "fs_append p d fs =
     fs\<lparr>fs_files := (fs_files fs)(p := (case fs_files fs p of None \<Rightarrow> None | Some c \<Rightarrow> Some (c @ d)))\<rparr>"

definition fs_remove :: "bytes \<Rightarrow> filesys \<Rightarrow> filesys" where
  "fs_remove p fs =
     (case fs_answer fs of (a, fs) \<Rightarrow> if a = None then fs\<lparr>fs_files := (fs_files fs)(p := None)\<rparr> else fs)"

text \<open>\<^verbatim>\<open>rename\<close> replaces atomically; on Windows \<^verbatim>\<open>MoveFileExA\<close> with the replace flag does.\<close>

definition fs_rename :: "bytes \<Rightarrow> bytes \<Rightarrow> filesys \<Rightarrow> bool \<times> filesys" where
  "fs_rename p q fs =
     (case fs_answer fs of (a, fs) \<Rightarrow>
      if a = None \<and> fs_files fs p \<noteq> None
      then (True, fs\<lparr>fs_files := (fs_files fs)(q := fs_files fs p, p := None)\<rparr>) else (False, fs))"

text \<open>
  A \<^verbatim>\<open>FILE\<close> is the bytes it buffers, on their way to the name it writes. \<^verbatim>\<open>fflush\<close> and
  \<^verbatim>\<open>fclose\<close> pass them on, all of them if they succeed; what a stream passes on earlier is not
  distinguished from what it still buffers.
\<close>

definition fs_fwrite :: "bytes \<Rightarrow> bytes \<Rightarrow> filesys \<Rightarrow> bool \<times> bytes \<times> filesys" where
  "fs_fwrite pending d fs =
     (case fs_answer fs of
        (None, fs) \<Rightarrow> (True, pending @ d, fs)
      | (Some k, fs) \<Rightarrow> (False, pending @ take k d, fs))"

definition fs_fflush :: "bytes \<Rightarrow> bytes \<Rightarrow> filesys \<Rightarrow> bool \<times> bytes \<times> filesys" where
  "fs_fflush p pending fs =
     (case fs_answer fs of
        (None, fs) \<Rightarrow> (True, [], fs_append p pending fs)
      | (Some k, fs) \<Rightarrow> (False, drop k pending, fs_append p (take k pending) fs))"

definition fs_fclose :: "bytes \<Rightarrow> bytes \<Rightarrow> filesys \<Rightarrow> bool \<times> filesys" where
  "fs_fclose p pending fs = (case fs_fflush p pending fs of (ok, _, fs) \<Rightarrow> (ok, fs))"

section \<open>The file sink\<close>

text \<open>\<open>fc_fp\<close> is \<open>None\<close> for a NULL \<^verbatim>\<open>FILE *\<close>; \<open>fc_fs\<close> is the file system the context acts on.\<close>

record file_ctx =
  fc_fp :: "bytes option"
  fc_tmp :: bytes
  fc_final :: bytes
  fc_committed :: bool
  fc_fs :: filesys

definition SIZEOF_FILE_CTX :: nat where
  "SIZEOF_FILE_CTX = 32"

definition file_cleanup :: "file_ctx \<Rightarrow> file_ctx" where
  "file_cleanup c =
     (let c = (case fc_fp c of
                 None \<Rightarrow> c
               | Some pending \<Rightarrow> c\<lparr>fc_fp := None, fc_fs := snd (fs_fclose (fc_tmp c) pending (fc_fs c))\<rparr>)
      in if \<not> fc_committed c then c\<lparr>fc_fs := fs_remove (fc_tmp c) (fc_fs c)\<rparr> else c)"

definition io_error :: "zuh_error \<Rightarrow> bytes \<Rightarrow> zuh_error" where
  "io_error err msg = zuh_error_set err ZUH_ERR_IO ZUH_PHASE_READ msg"

definition file_write ::
    "file_ctx zuh_sink \<Rightarrow> bytes \<Rightarrow> zuh_error \<Rightarrow> heap \<Rightarrow> zuh_code \<times> file_ctx zuh_sink \<times> zuh_error \<times> heap" where
  "file_write s d err h =
     (let c = sk_ctx s in
      case fc_fp c of
        None \<Rightarrow> (ZUH_ERR_IO, s, io_error err ''download file is not open'', h)
      | Some pending \<Rightarrow>
          (case fs_fwrite pending d (fc_fs c) of (ok, pending, fs) \<Rightarrow>
           let s = s\<lparr>sk_ctx := c\<lparr>fc_fp := Some pending, fc_fs := fs\<rparr>\<rparr> in
           if \<not> ok then (ZUH_ERR_IO, s, io_error err (''short write to '' @ fc_tmp c), h)
           else (ZUH_OK, s, err, h)))"

definition file_finish ::
    "file_ctx zuh_sink \<Rightarrow> zuh_error \<Rightarrow> zuh_code \<times> file_ctx zuh_sink \<times> zuh_error" where
  "file_finish s err =
     (let c = sk_ctx s in
      case fc_fp c of
        None \<Rightarrow> (ZUH_OK, s, err)
      | Some pending \<Rightarrow>
          (case fs_fflush (fc_tmp c) pending (fc_fs c) of (flushed, pending, fs) \<Rightarrow>
           case fs_fclose (fc_tmp c) pending fs of (closed, fs) \<Rightarrow>
           let c = c\<lparr>fc_fp := None, fc_fs := fs\<rparr> in
           if \<not> (flushed \<and> closed) then
             (ZUH_ERR_IO, s\<lparr>sk_ctx := c\<rparr>, io_error err (''could not flush '' @ fc_tmp c))
           else case fs_rename (fc_tmp c) (fc_final c) (fc_fs c) of (moved, fs) \<Rightarrow>
             let c = c\<lparr>fc_fs := fs\<rparr> in
             if \<not> moved then
               (ZUH_ERR_IO, s\<lparr>sk_ctx := c\<rparr>,
                io_error err (''could not move the download into place at '' @ fc_final c))
             else (ZUH_OK, s\<lparr>sk_ctx := c\<lparr>fc_committed := True\<rparr>\<rparr>, err)))"

definition file_abort :: "file_ctx zuh_sink \<Rightarrow> file_ctx zuh_sink" where
  "file_abort s = s\<lparr>sk_ctx := file_cleanup (sk_ctx s)\<rparr>"

definition file_destroy :: "file_ctx zuh_sink \<Rightarrow> heap \<Rightarrow> file_ctx zuh_sink \<times> heap" where
  "file_destroy s h =
     (s\<lparr>sk_ctx := file_cleanup (sk_ctx s)\<rparr>,
      zuh_free (Some SIZEOF_FILE_CTX)
        (zuh_free (Some (length (fc_final (sk_ctx s)) + 1))
          (zuh_free (Some (length (fc_final (sk_ctx s)) + 32)) h)))"

definition file_vtable :: "file_ctx sink_vtable" where
  "file_vtable = \<lparr>sv_write = Some file_write, sv_finish = Some file_finish, sv_abort = Some file_abort,
     sv_destroy = Some file_destroy\<rparr>"

text \<open>The two \<^verbatim>\<open>snprintf\<close> calls into \<^verbatim>\<open>tmp_len\<close> bytes.\<close>

definition tmp_name :: "bytes \<Rightarrow> int \<Rightarrow> nat \<Rightarrow> bytes" where
  "tmp_name path pid attempt =
     take (length path + 32 - 1)
       (path @ ''.zudl'' @ show_int pid @ (if attempt = 0 then [] else ''.'' @ show_nat attempt))"

text \<open>The loop over \<^verbatim>\<open>attempt\<close>, with \<open>left\<close> turns to go; the name whose file it opened.\<close>

fun open_tmp :: "bytes \<Rightarrow> int \<Rightarrow> nat \<Rightarrow> nat \<Rightarrow> filesys \<Rightarrow> bytes option \<times> filesys" where
  "open_tmp path pid attempt 0 fs = (None, fs)"
| "open_tmp path pid attempt (Suc left) fs =
     (case fs_open_excl (tmp_name path pid attempt) fs of
        (Opened, fs) \<Rightarrow> (Some (tmp_name path pid attempt), fs)
      | (Exists, fs) \<Rightarrow> open_tmp path pid (attempt + 1) left fs
      | (Refused, fs) \<Rightarrow> (None, fs))"

text \<open>\<^verbatim>\<open>fdopen\<close> on the new descriptor; if it fails the descriptor is closed and the file removed.\<close>

definition create_tmp :: "bytes \<Rightarrow> int \<Rightarrow> filesys \<Rightarrow> bytes option \<times> filesys" where
  "create_tmp path pid fs =
     (case open_tmp path pid 0 100 fs of
        (None, fs) \<Rightarrow> (None, fs)
      | (Some tmp, fs) \<Rightarrow>
          (case fs_answer fs of (a, fs) \<Rightarrow> if a = None then (Some tmp, fs) else (None, fs_remove tmp fs)))"

text \<open>The label \<^verbatim>\<open>fail\<close>: \<open>tmp\<close>, \<open>final\<close>, \<open>c\<close> and \<open>s\<close> say which of the allocations succeeded.\<close>

definition sink_unwind :: "nat \<Rightarrow> bool \<Rightarrow> bool \<Rightarrow> bool \<Rightarrow> bool \<Rightarrow> heap \<Rightarrow> heap" where
  "sink_unwind n tmp final c s h =
     (let blk = (\<lambda>ok k. zuh_free (if ok then Some k else None));
          h = (if c then blk True SIZEOF_FILE_CTX (blk final (n + 1) (blk tmp (n + 32) h)) else h)
      in blk s SIZEOF_SINK h)"

definition zuh_sink_file ::
    "bytes option \<Rightarrow> int \<Rightarrow> filesys \<Rightarrow> zuh_error \<Rightarrow> heap
     \<Rightarrow> file_ctx zuh_sink option \<times> filesys \<times> zuh_error \<times> heap" where
  "zuh_sink_file path pid fs err h =
     (case map_option c_string path of
        None \<Rightarrow> (None, fs, zuh_error_set err ZUH_ERR_IO ZUH_PHASE_NONE ''empty download path'', h)
      | Some path \<Rightarrow>
        if path = [] then (None, fs, zuh_error_set err ZUH_ERR_IO ZUH_PHASE_NONE ''empty download path'', h)
        else
          let n = length path;
              nomem = zuh_error_set err ZUH_ERR_NOMEM ZUH_PHASE_NONE ''out of memory'' in
          case zuh_calloc 1 SIZEOF_SINK h of (s, h) \<Rightarrow>
          case zuh_calloc 1 SIZEOF_FILE_CTX h of (c, h) \<Rightarrow>
          if \<not> s \<or> \<not> c then (None, fs, nomem, sink_unwind n False False c s h)
          else case zuh_alloc (n + 1) h of (final, h) \<Rightarrow>
          case zuh_alloc (n + 32) h of (tmp, h) \<Rightarrow>
          if \<not> final \<or> \<not> tmp then (None, fs, nomem, sink_unwind n tmp final True True h)
          else case create_tmp path pid fs of
              (None, fs) \<Rightarrow>
                (None, fs,
                 zuh_error_set err ZUH_ERR_IO ZUH_PHASE_NONE (''cannot create a temporary file beside '' @ path),
                 sink_unwind n True True True True h)
            | (Some name, fs) \<Rightarrow>
                (Some \<lparr>sk_ctx = \<lparr>fc_fp = Some [], fc_tmp = name, fc_final = path, fc_committed = False, fc_fs = fs\<rparr>,
                       sk_written = 0, sk_stopped = False\<rparr>, fs, err, h))"

definition zuh_sink_file_tmp_path :: "file_ctx zuh_sink \<Rightarrow> bytes" where
  "zuh_sink_file_tmp_path s = fc_tmp (sk_ctx s)"

section \<open>The built-in sinks keep the contract\<close>

lemma fs_answer_files [simp]: "fs_answer fs = (a, fs') \<Longrightarrow> fs_files fs' = fs_files fs"
  by (auto simp: fs_answer_def split: list.splits)

interpretation memk: sink_contract memory_vtable "\<lambda>s. buf_data (sk_ctx s)"
proof
  fix s data err h rc s' err' h'
  assume w: "zuh_sink_write memory_vtable s data err h = (rc, s', err', h')"
  obtain ok b h1 where a: "zuh_buf_append data (sk_ctx s, h) = (ok, b, h1)" by (rule prod_cases3)
  have "buf_data b = buf_data (sk_ctx s) @ (if ok then data else [])"
    using a by (auto simp: zuh_buf_append_def split: if_splits option.splits prod.splits dest: grow_to_data)
  with w a show "\<exists>k. buf_data (sk_ctx s') = buf_data (sk_ctx s) @ take k data \<and> (rc = ZUH_OK \<longrightarrow> k = length data)"
    by (auto simp: zuh_sink_write_def memory_vtable_def mem_write_def split: if_splits intro: exI [of _ "0::nat"])
  from w a show "sk_written s' = sk_written s + (if rc = ZUH_OK then of_nat (length data) else 0)"
    and "if rc = ZUH_OK then err' = err else err_code err' = rc"
    by (auto simp: zuh_sink_write_def memory_vtable_def mem_write_def split: if_splits)
qed

definition file_sunk :: "file_ctx zuh_sink \<Rightarrow> bytes" where
  "file_sunk s =
     (case fs_files (fc_fs (sk_ctx s)) (fc_tmp (sk_ctx s)) of None \<Rightarrow> [] | Some c \<Rightarrow> c)
     @ (case fc_fp (sk_ctx s) of None \<Rightarrow> [] | Some p \<Rightarrow> p)"

interpretation filek: sink_contract file_vtable file_sunk
proof
  fix s data err h rc s' err' h'
  assume w: "zuh_sink_write file_vtable s data err h = (rc, s', err', h')"
  show "\<exists>k. file_sunk s' = file_sunk s @ take k data \<and> (rc = ZUH_OK \<longrightarrow> k = length data)"
    using w by (cases "fc_fp (sk_ctx s)")
      (auto simp: zuh_sink_write_def file_vtable_def file_write_def fs_fwrite_def file_sunk_def Let_def
        split: if_splits prod.splits option.splits intro: exI [of _ "0::nat"])
  show "sk_written s' = sk_written s + (if rc = ZUH_OK then of_nat (length data) else 0)"
    and "if rc = ZUH_OK then err' = err else err_code err' = rc"
    using w by (cases "fc_fp (sk_ctx s)",
      auto simp: zuh_sink_write_def file_vtable_def file_write_def Let_def io_error_def
        split: if_splits prod.splits option.splits)+
qed

section \<open>Atomic downloads\<close>

text \<open>Everything that may be done with a file sink, in any order; each call with its verdict.\<close>

datatype sink_op = FWrite bytes | FFinish | FAbort

fun file_step :: "sink_op \<Rightarrow> file_ctx zuh_sink \<times> zuh_error \<times> heap \<Rightarrow> zuh_code \<times> file_ctx zuh_sink \<times> zuh_error \<times> heap" where
  "file_step (FWrite d) (s, err, h) = zuh_sink_write file_vtable s d err h"
| "file_step FFinish (s, err, h) = (case zuh_sink_finish file_vtable s err of (rc, s, err) \<Rightarrow> (rc, s, err, h))"
| "file_step FAbort (s, err, h) = (ZUH_OK, zuh_sink_abort file_vtable s, err, h)"

fun file_run :: "sink_op list \<Rightarrow> file_ctx zuh_sink \<times> zuh_error \<times> heap
    \<Rightarrow> zuh_code list \<times> file_ctx zuh_sink \<times> zuh_error \<times> heap" where
  "file_run [] st = ([], st)"
| "file_run (x # xs) st =
     (case file_step x st of (rc, st) \<Rightarrow> case file_run xs st of (rcs, st) \<Rightarrow> (rc # rcs, st))"

fun written_by :: "sink_op list \<Rightarrow> bytes" where
  "written_by [] = []"
| "written_by (FWrite d # xs) = d @ written_by xs"
| "written_by (_ # xs) = written_by xs"

text \<open>
  Between the calls: only the temporary name and, once committed, the target differ from the
  files at the start; while every call has succeeded, the bytes \<open>ds\<close> written are in the
  temporary file and the stream's buffer, then at the target.
\<close>

definition file_inv :: "(bytes \<Rightarrow> bytes option) \<Rightarrow> bytes \<Rightarrow> bytes \<Rightarrow> bytes \<Rightarrow> bool \<Rightarrow> file_ctx \<Rightarrow> bool" where
  "file_inv files0 path tmp ds ok c \<longleftrightarrow>
     fc_tmp c = tmp \<and> fc_final c = path
     \<and> (\<forall>p. p \<noteq> tmp \<and> p \<noteq> path \<longrightarrow> fs_files (fc_fs c) p = files0 p)
     \<and> (if fc_committed c
        then fc_fp c = None \<and> fs_files (fc_fs c) tmp = None \<and> (ok \<longrightarrow> fs_files (fc_fs c) path = Some ds)
        else fs_files (fc_fs c) path = files0 path
          \<and> (\<forall>pending. fc_fp c = Some pending \<longrightarrow>
               (\<exists>t. fs_files (fc_fs c) tmp = Some t \<and> (ok \<longrightarrow> t @ pending = ds))))"

lemma inv_write:
  assumes "file_inv f0 path tmp ds ok (sk_ctx s)" and "zuh_sink_write file_vtable s d err h = (rc, s', err', h')"
  shows "file_inv f0 path tmp (ds @ d) (ok \<and> rc = ZUH_OK) (sk_ctx s')"
  using assms
  by (cases "fc_fp (sk_ctx s)")
    (auto simp: file_inv_def zuh_sink_write_def file_vtable_def file_write_def fs_fwrite_def Let_def
      split: if_splits prod.splits option.splits)

lemma flush_files:
  "fs_fflush p pending fs = (ok, left, fs') \<Longrightarrow> fs_files fs p = Some t \<Longrightarrow>
    \<exists>k. fs_files fs' = (fs_files fs)(p \<mapsto> t @ take k pending) \<and> left = drop k pending \<and> (ok \<longrightarrow> k = length pending)"
  by (auto simp: fs_fflush_def fs_append_def split: prod.splits option.splits)

lemma close_files:
  "fs_fclose p pending fs = (ok, fs') \<Longrightarrow> fs_files fs p = Some t \<Longrightarrow>
    \<exists>k. fs_files fs' = (fs_files fs)(p \<mapsto> t @ take k pending) \<and> (ok \<longrightarrow> k = length pending)"
  by (auto simp: fs_fclose_def split: prod.splits) (blast dest: flush_files)

lemma inv_finish:
  assumes inv: "file_inv f0 path tmp ds ok (sk_ctx s)" and ne: "tmp \<noteq> path"
    and run: "zuh_sink_finish file_vtable s err = (rc, s', err')"
  shows "file_inv f0 path tmp ds (ok \<and> rc = ZUH_OK) (sk_ctx s')"
    and "fc_fp (sk_ctx s) \<noteq> None \<Longrightarrow> rc = ZUH_OK \<Longrightarrow> fc_committed (sk_ctx s')"
proof -
  have fin: "file_finish s err = (rc, s', err')" using run by (simp add: zuh_sink_finish_def file_vtable_def)
  have both: "file_inv f0 path tmp ds (ok \<and> rc = ZUH_OK) (sk_ctx s')
      \<and> (fc_fp (sk_ctx s) \<noteq> None \<and> rc = ZUH_OK \<longrightarrow> fc_committed (sk_ctx s'))"
  proof (cases "fc_fp (sk_ctx s)")
    case None
    then show ?thesis using fin inv by (auto simp: file_finish_def Let_def file_inv_def)
  next
    case (Some pending)
    let ?c = "sk_ctx s"
    have c: "fc_tmp ?c = tmp" "fc_final ?c = path" "\<not> fc_committed ?c" "fs_files (fc_fs ?c) path = f0 path"
        "\<And>p. p \<noteq> tmp \<Longrightarrow> p \<noteq> path \<Longrightarrow> fs_files (fc_fs ?c) p = f0 p"
      using inv Some by (auto simp: file_inv_def split: if_splits)
    obtain t where t: "fs_files (fc_fs ?c) tmp = Some t" "ok \<longrightarrow> t @ pending = ds"
      using inv Some by (auto simp: file_inv_def split: if_splits)
    obtain fl left fs1 where fl: "fs_fflush tmp pending (fc_fs ?c) = (fl, left, fs1)" by (rule prod_cases3)
    obtain cl fs2 where cl: "fs_fclose tmp left fs1 = (cl, fs2)" by (rule prod.exhaust)
    from flush_files [OF fl t(1)] obtain k where k: "fs_files fs1 = (fs_files (fc_fs ?c))(tmp \<mapsto> t @ take k pending)"
        "left = drop k pending" "fl \<longrightarrow> k = length pending" by blast
    from close_files [OF cl, of "t @ take k pending"] k obtain j where
        j: "fs_files fs2 = (fs_files fs1)(tmp \<mapsto> t @ take k pending @ take j left)" "cl \<longrightarrow> j = length left" by auto
    have f2: "fs_files fs2 = (fs_files (fc_fs ?c))(tmp \<mapsto> t @ take k pending @ take j left)" using j k by simp
    show ?thesis
    proof (cases "fl \<and> cl")
      case False
      then have "rc = ZUH_ERR_IO" "sk_ctx s' = ?c\<lparr>fc_fp := None, fc_fs := fs2\<rparr>"
        using fin Some fl cl c by (auto simp: file_finish_def Let_def)
      then show ?thesis using c f2 ne by (auto simp: file_inv_def)
    next
      case True
      then have full: "fs_files fs2 = (fs_files (fc_fs ?c))(tmp \<mapsto> t @ pending)" using f2 k(2,3) j(2) by simp
      obtain mv fs3 where mv: "fs_rename tmp path fs2 = (mv, fs3)" by (rule prod.exhaust)
      have f3: "fs_files fs3 = (if mv then (fs_files fs2)(path := fs_files fs2 tmp, tmp := None) else fs_files fs2)"
        using mv by (auto simp: fs_rename_def split: prod.splits if_splits)
      show ?thesis
      proof (cases mv)
        case mvd: True
        have "rc = ZUH_OK" "sk_ctx s' = ?c\<lparr>fc_fp := None, fc_fs := fs3, fc_committed := True\<rparr>"
          using fin Some fl cl c True mv mvd by (auto simp: file_finish_def Let_def)
        then show ?thesis using c f3 mvd full ne t(2) by (auto simp: file_inv_def)
      next
        case mvd: False
        have "rc = ZUH_ERR_IO" "sk_ctx s' = ?c\<lparr>fc_fp := None, fc_fs := fs3\<rparr>"
          using fin Some fl cl c True mv mvd by (auto simp: file_finish_def Let_def)
        then show ?thesis using c f3 mvd full ne by (auto simp: file_inv_def)
      qed
    qed
  qed
  then show "file_inv f0 path tmp ds (ok \<and> rc = ZUH_OK) (sk_ctx s')"
    and "fc_fp (sk_ctx s) \<noteq> None \<Longrightarrow> rc = ZUH_OK \<Longrightarrow> fc_committed (sk_ctx s')" by blast+
qed

lemma cleanup_files:
  assumes inv: "file_inv f0 path tmp ds ok c" and ne: "tmp \<noteq> path"
  shows "file_inv f0 path tmp ds ok (file_cleanup c)" and "fc_fp (file_cleanup c) = None"
    and "set (fs_answers (fc_fs c)) \<subseteq> {None} \<Longrightarrow> fs_files (fc_fs (file_cleanup c)) tmp = None"
proof -
  define c1 where "c1 = (case fc_fp c of None \<Rightarrow> c
      | Some pending \<Rightarrow> c\<lparr>fc_fp := None, fc_fs := snd (fs_fclose (fc_tmp c) pending (fc_fs c))\<rparr>)"
  have clean: "file_cleanup c = (if \<not> fc_committed c1 then c1\<lparr>fc_fs := fs_remove (fc_tmp c1) (fc_fs c1)\<rparr> else c1)"
    by (simp add: file_cleanup_def c1_def Let_def)
  have c1: "file_inv f0 path tmp ds ok c1 \<and> fc_fp c1 = None \<and> fc_committed c1 = fc_committed c
      \<and> (set (fs_answers (fc_fs c)) \<subseteq> {None} \<longrightarrow> set (fs_answers (fc_fs c1)) \<subseteq> {None})"
  proof (cases "fc_fp c")
    case None
    then show ?thesis using inv by (simp add: c1_def)
  next
    case (Some pending)
    then obtain t where t: "fs_files (fc_fs c) tmp = Some t" using inv by (auto simp: file_inv_def split: if_splits)
    obtain cl fs1 where cl: "fs_fclose tmp pending (fc_fs c) = (cl, fs1)" by (rule prod.exhaust)
    from close_files [OF cl t] obtain k where f1: "fs_files fs1 = (fs_files (fc_fs c))(tmp \<mapsto> t @ take k pending)" by blast
    have "fs_answers fs1 = tl (fs_answers (fc_fs c))"
    proof (cases "fs_answers (fc_fs c)")
      case Nil
      then show ?thesis using cl by (auto simp: fs_fclose_def fs_fflush_def fs_append_def fs_answer_def)
    next
      case (Cons a as)
      then show ?thesis using cl
        by (cases a) (auto simp: fs_fclose_def fs_fflush_def fs_append_def fs_answer_def)
    qed
    then have "set (fs_answers fs1) \<subseteq> set (fs_answers (fc_fs c))" by (cases "fs_answers (fc_fs c)") auto
    then show ?thesis using inv Some cl f1 ne by (auto simp: c1_def file_inv_def split: if_splits)
  qed
  have "fs_files (fs_remove p fs) = (fs_files fs)(p := None) \<or> fs_files (fs_remove p fs) = fs_files fs" for p fs
    by (auto simp: fs_remove_def split: prod.splits)
  note removed = this [of tmp "fc_fs c1"]
  show "fc_fp (file_cleanup c) = None" using c1 unfolding clean by simp
  show "file_inv f0 path tmp ds ok (file_cleanup c)"
  proof (cases "fc_committed c1")
    case False
    then have "file_inv f0 path tmp ds ok (c1\<lparr>fc_fs := fs_remove tmp (fc_fs c1)\<rparr>)"
      using removed False c1 [THEN conjunct1] c1 [THEN conjunct2, THEN conjunct1] ne by (elim disjE) (simp_all add: file_inv_def)
    then show ?thesis using False c1 unfolding clean by (simp add: file_inv_def)
  qed (use c1 in \<open>simp add: clean\<close>)
  show "fs_files (fc_fs (file_cleanup c)) tmp = None" if good: "set (fs_answers (fc_fs c)) \<subseteq> {None}"
  proof (cases "fc_committed c1")
    case True
    then have "fs_files (fc_fs c1) tmp = None" using c1 [THEN conjunct1] by (simp add: file_inv_def)
    then show ?thesis using True by (simp add: clean)
  next
    case False
    have "fc_tmp c1 = tmp" using c1 [THEN conjunct1] by (simp add: file_inv_def)
    moreover have "set (fs_answers (fc_fs c1)) \<subseteq> {None}" using c1 good by blast
    ultimately show ?thesis using False
      by (cases "fs_answers (fc_fs c1)") (simp_all add: clean fs_remove_def fs_answer_def)
  qed
qed

lemma inv_step:
  assumes "file_inv f0 path tmp ds ok (sk_ctx s)" and "tmp \<noteq> path" and "file_step x (s, err, h) = (rc, s', err', h')"
  shows "file_inv f0 path tmp (ds @ written_by [x]) (ok \<and> rc = ZUH_OK) (sk_ctx s')"
proof (cases x)
  case (FWrite d)
  then show ?thesis using inv_write [OF assms(1)] assms(3) by simp
next
  case FFinish
  then show ?thesis using inv_finish(1) [OF assms(1,2)] assms(3) by (auto split: prod.splits)
next
  case FAbort
  then show ?thesis using cleanup_files(1) [OF assms(1,2)] assms(3)
    by (auto simp: zuh_sink_abort_def file_vtable_def file_abort_def)
qed

lemma written_by_append: "written_by (xs @ ys) = written_by xs @ written_by ys"
  by (induction xs rule: written_by.induct) auto

lemma inv_run:
  "file_inv f0 path tmp ds ok (sk_ctx s) \<Longrightarrow> tmp \<noteq> path \<Longrightarrow> file_run xs (s, err, h) = (rcs, s', err', h') \<Longrightarrow>
   file_inv f0 path tmp (ds @ written_by xs) (ok \<and> list_all (\<lambda>rc. rc = ZUH_OK) rcs) (sk_ctx s')"
proof (induction xs arbitrary: ds ok s err h rcs)
  case (Cons x xs)
  obtain rc s1 e1 h1 where st: "file_step x (s, err, h) = (rc, s1, e1, h1)" by (rule prod_cases4)
  obtain rcs1 where run: "file_run xs (s1, e1, h1) = (rcs1, s', err', h')" "rcs = rc # rcs1"
    using Cons.prems(3) st by (auto split: prod.splits)
  from Cons.IH [OF inv_step [OF Cons.prems(1,2) st] Cons.prems(2) run(1)] show ?case
    using written_by_append [of "[x]" xs] run(2) by (simp add: conj_assoc)
qed simp

lemma file_run_append:
  "file_run (xs @ ys) st = (case file_run xs st of (rcs, st) \<Rightarrow> case file_run ys st of (rcs', st) \<Rightarrow> (rcs @ rcs', st))"
  by (induction xs arbitrary: st) (simp_all split: prod.splits)

lemma open_while_writing:
  "fc_fp (sk_ctx s) \<noteq> None \<Longrightarrow> file_run (map FWrite ds) (s, err, h) = (rcs, s', err', h') \<Longrightarrow> fc_fp (sk_ctx s') \<noteq> None"
proof (induction ds arbitrary: s err h rcs)
  case (Cons d ds)
  obtain rc s1 e1 h1 where st: "file_step (FWrite d) (s, err, h) = (rc, s1, e1, h1)" by (rule prod_cases4)
  obtain rcs1 where run: "file_run (map FWrite ds) (s1, e1, h1) = (rcs1, s', err', h')"
    using Cons.prems(2) st by (auto split: prod.splits)
  have "fc_fp (sk_ctx s1) \<noteq> None"
    using st Cons.prems(1)
    by (auto simp: zuh_sink_write_def file_vtable_def file_write_def Let_def split: if_splits prod.splits option.splits)
  from Cons.IH [OF this run] show ?case .
qed simp

section \<open>Creation\<close>

lemma open_tmp_new:
  "open_tmp path pid a n fs = (Some tmp, fs') \<Longrightarrow>
    (\<exists>k. tmp = tmp_name path pid k) \<and> fs_files fs tmp = None \<and> fs_files fs' = (fs_files fs)(tmp \<mapsto> [])"
proof (induction path pid a n fs rule: open_tmp.induct)
  case (2 path pid a n fs)
  show ?case
  proof (cases "fs_open_excl (tmp_name path pid a) fs")
    case (Pair r fs1)
    then show ?thesis using 2
      by (cases r) (auto simp: fs_open_excl_def split: prod.splits if_splits)
  qed
qed simp

lemma tmp_name_differs: "tmp_name path pid k \<noteq> path"
proof
  assume eq: "tmp_name path pid k = path"
  have "length (tmp_name path pid k) > length path" by (simp add: tmp_name_def)
  with eq show False by simp
qed

lemma sink_file_opens:
  assumes "zuh_sink_file (Some path) pid fs err h = (Some s, fs1, err1, h1)"
  shows "file_inv (fs_files fs) (c_string path) (fc_tmp (sk_ctx s)) [] True (sk_ctx s)
    \<and> fs_files fs (fc_tmp (sk_ctx s)) = None \<and> fc_tmp (sk_ctx s) \<noteq> c_string path
    \<and> fc_fp (sk_ctx s) = Some [] \<and> \<not> fc_committed (sk_ctx s) \<and> sk_written s = 0"
proof -
  obtain name where n: "create_tmp (c_string path) pid fs = (Some name, fs1)"
    and s: "s = \<lparr>sk_ctx = \<lparr>fc_fp = Some [], fc_tmp = name, fc_final = c_string path, fc_committed = False, fc_fs = fs1\<rparr>,
        sk_written = 0, sk_stopped = False\<rparr>"
    using assms by (auto simp: zuh_sink_file_def Let_def split: if_splits prod.splits option.splits)
  obtain fs2 where "open_tmp (c_string path) pid 0 100 fs = (Some name, fs2)" "fs_files fs1 = fs_files fs2"
    using n by (auto simp: create_tmp_def split: prod.splits option.splits if_splits)
  with open_tmp_new [of "c_string path" pid 0 100 fs name fs2] obtain k where
      k: "name = tmp_name (c_string path) pid k" "fs_files fs name = None" "fs_files fs1 = (fs_files fs)(name \<mapsto> [])"
    by auto
  have "name \<noteq> c_string path" using tmp_name_differs k(1) by simp
  then show ?thesis using k(2,3) by (auto simp: s file_inv_def)
qed


text \<open>The 32 bytes beyond the path hold every name the loop tries, so \<^verbatim>\<open>snprintf\<close> never cuts one.\<close>

lemma show_nat_length: "n < 10 ^ k \<Longrightarrow> 0 < k \<Longrightarrow> length (show_nat n) \<le> k"
proof (induction k arbitrary: n)
  case (Suc k)
  show ?case
  proof (cases "n < 10")
    case False
    then have "k \<noteq> 0" using Suc.prems(1) by (cases k) auto
    moreover have "n div 10 < 10 ^ k" using Suc.prems(1) by (simp add: less_mult_imp_div_less mult.commute)
    ultimately show ?thesis using Suc.IH [of "n div 10"] False by (simp add: show_nat.simps [of n])
  qed (simp add: show_nat.simps [of n])
qed simp

lemma tmp_name_whole:
  assumes "0 \<le> pid" and "pid < 2 ^ 63" and "attempt < 100"
  shows "tmp_name path pid attempt = path @ ''.zudl'' @ show_int pid @ (if attempt = 0 then [] else ''.'' @ show_nat attempt)"
proof -
  have "nat pid < 10 ^ 19" using assms(1,2) by (simp add: nat_less_iff)
  then have "length (show_int pid) \<le> 19" using show_nat_length [of "nat pid" 19] assms(1) by (simp add: show_int_def)
  moreover have "length (show_nat attempt) \<le> 2" using show_nat_length [of attempt 2] assms(3) by simp
  ultimately show ?thesis by (cases "attempt = 0") (simp_all add: tmp_name_def)
qed

section \<open>Example\<close>

definition example_files :: filesys where
  "example_files = \<lparr>fs_files = [''d/f'' \<mapsto> ''old'', ''d/f.zudl7'' \<mapsto> ''mine''], fs_answers = []\<rparr>"


end
