(* ===== verification/Zuh_Pico.thy ===== *)
theory Zuh_Pico
  imports Zuh_Lists
begin

text \<open>
  \<^verbatim>\<open>src/vendor/picohttpparser/picohttpparser.c\<close>: the parser of response heads and header blocks and
  the chunked decoder, which every byte a server sends passes through first.

  A parsing function takes the bytes from \<^verbatim>\<open>buf\<close> to \<^verbatim>\<open>buf_end\<close>. It answers with what it found and
  the bytes after it, or with one of the two values of \<^verbatim>\<open>*ret\<close>: \<open>PhrIncomplete\<close> is -2 and
  \<open>PhrError\<close> is -1. The SSE and the unrolled loops only skip bytes the plain loops accept, so
  the plain loops are what is modelled.
\<close>

section \<open>Results\<close>

datatype 'a phr = PhrOk 'a bytes | PhrIncomplete | PhrError

definition phr_bind :: "'a phr \<Rightarrow> ('a \<Rightarrow> bytes \<Rightarrow> 'b phr) \<Rightarrow> 'b phr" where
  "phr_bind r k = (case r of PhrOk x rest \<Rightarrow> k x rest | PhrIncomplete \<Rightarrow> PhrIncomplete | PhrError \<Rightarrow> PhrError)"

lemma phr_bind_simps [simp]:
  "phr_bind (PhrOk x rest) k = k x rest" "phr_bind PhrIncomplete k = PhrIncomplete" "phr_bind PhrError k = PhrError"
  by (simp_all add: phr_bind_def)

lemma phr_bind_cong [fundef_cong]:
  "r = r' \<Longrightarrow> (\<And>x rest. r' = PhrOk x rest \<Longrightarrow> k x rest = k' x rest) \<Longrightarrow> phr_bind r k = phr_bind r' k'"
  by (cases r') simp_all

lemma phr_bind_ok: "phr_bind r k = PhrOk y q \<longleftrightarrow> (\<exists>x rest. r = PhrOk x rest \<and> k x rest = PhrOk y q)"
  by (cases r) auto

section \<open>Lines and tokens\<close>

text \<open>The byte that ends a line or is refused in it: a control other than HT, or DEL.\<close>

definition found_ctl :: "char \<Rightarrow> bool" where
  "found_ctl c \<longleftrightarrow> (cval c < 32 \<and> c \<noteq> HTAB) \<or> cval c = 127"

definition get_token_to_eol :: "bytes \<Rightarrow> bytes phr" where
  "get_token_to_eol buf =
     (let token = takeWhile (\<lambda>c. \<not> found_ctl c) buf in
      case dropWhile (\<lambda>c. \<not> found_ctl c) buf of
        [] \<Rightarrow> PhrIncomplete
      | c # r \<Rightarrow>
          if c = CR then
            (case r of [] \<Rightarrow> PhrIncomplete | d # r' \<Rightarrow> if d = LF then PhrOk token r' else PhrError)
          else if c = LF then PhrOk token r
          else PhrError)"

text \<open>
  \<^verbatim>\<open>is_complete\<close>: is the empty line there? The scan starts three bytes before the end of what an
  earlier call was given; \<open>n\<close> is \<^verbatim>\<open>ret_cnt\<close>.
\<close>

fun is_complete_loop :: "nat \<Rightarrow> bytes \<Rightarrow> unit phr" where
  "is_complete_loop n [] = PhrIncomplete"
| "is_complete_loop n (c # r) =
     (if c = CR then
        (case r of
           [] \<Rightarrow> PhrIncomplete
         | d # r' \<Rightarrow>
             if d \<noteq> LF then PhrError
             else if n + 1 = 2 then PhrOk () r' else is_complete_loop (n + 1) r')
      else if c = LF then
        (if n + 1 = 2 then PhrOk () r else is_complete_loop (n + 1) r)
      else is_complete_loop 0 r)"

definition is_complete :: "bytes \<Rightarrow> nat \<Rightarrow> unit phr" where
  "is_complete buf last_len = is_complete_loop 0 (if last_len < 3 then buf else drop (last_len - 3) buf)"

text \<open>\<^verbatim>\<open>PARSE_INT\<close> of one digit, without its factor. Its callers know that there is a byte to read.\<close>

definition parse_digit :: "bytes \<Rightarrow> int phr" where
  "parse_digit buf =
     (case buf of
        [] \<Rightarrow> PhrIncomplete
      | c # r \<Rightarrow>
          if cval c < cval (CHR ''0'') \<or> cval (CHR ''9'') < cval c then PhrError
          else PhrOk (int (cval c) - int (cval (CHR ''0''))) r)"

definition parse_int_3 :: "bytes \<Rightarrow> int phr" where
  "parse_int_3 buf =
     phr_bind (parse_digit buf) (\<lambda>a r. phr_bind (parse_digit r) (\<lambda>b r. phr_bind (parse_digit r) (\<lambda>c r.
       PhrOk (100 * a + 10 * b + 1 * c) r)))"

definition token_char_map :: "char \<Rightarrow> bool" where
  "token_char_map ch \<longleftrightarrow>
     (let c = cval ch in
      c = 33 \<or> (35 \<le> c \<and> c \<le> 39) \<or> c = 42 \<or> c = 43 \<or> c = 45 \<or> c = 46 \<or> (48 \<le> c \<and> c \<le> 57)
      \<or> (65 \<le> c \<and> c \<le> 90) \<or> (94 \<le> c \<and> c \<le> 122) \<or> c = 124 \<or> c = 126)"

fun parse_token :: "char \<Rightarrow> bytes \<Rightarrow> bytes phr" where
  "parse_token next_char [] = PhrIncomplete"
| "parse_token next_char (c # r) =
     (if c = next_char then PhrOk [] (c # r)
      else if \<not> token_char_map c then PhrError
      else phr_bind (parse_token next_char r) (\<lambda>t q. PhrOk (c # t) q))"

section \<open>Heads\<close>

text \<open>\<open>ph_name\<close> is \<open>None\<close> for the NULL name of a continuation line.\<close>

record phr_header =
  ph_name :: "bytes option"
  ph_value :: bytes

definition parse_http_version :: "bytes \<Rightarrow> int phr" where
  "parse_http_version buf =
     (if length buf < 9 then PhrIncomplete
      else if take 7 buf \<noteq> ''HTTP/1.'' then PhrError
      else parse_digit (drop 7 buf))"

text \<open>A field name, its colon and the blanks after it.\<close>

definition parse_name :: "bytes \<Rightarrow> bytes phr" where
  "parse_name buf =
     phr_bind (parse_token (CHR '':'') buf) (\<lambda>name r.
       if length name = 0 then PhrError
       else (case dropWhile is_ows (tl r) of [] \<Rightarrow> PhrIncomplete | c # q \<Rightarrow> PhrOk name (c # q)))"

text \<open>One turn of the loop of \<^verbatim>\<open>parse_headers\<close>: a field, or a continuation line except as the first.\<close>

definition parse_field :: "nat \<Rightarrow> bytes \<Rightarrow> phr_header phr" where
  "parse_field num buf =
     phr_bind
       (if \<not> (num \<noteq> 0 \<and> is_ows (hd buf)) then phr_bind (parse_name buf) (\<lambda>name r. PhrOk (Some name) r)
        else PhrOk None buf)
       (\<lambda>name r. phr_bind (get_token_to_eol r) (\<lambda>value q.
          PhrOk \<lparr>ph_name = name, ph_value = trim_right value\<rparr> q))"

lemma get_token_shorter: "get_token_to_eol buf = PhrOk t q \<Longrightarrow> length q < length buf"
proof -
  assume a: "get_token_to_eol buf = PhrOk t q"
  have "length (dropWhile (\<lambda>c. \<not> found_ctl c) buf) \<le> length buf" by (rule length_dropWhile_le)
  with a show ?thesis
    by (cases "dropWhile (\<lambda>c. \<not> found_ctl c) buf")
      (auto simp: get_token_to_eol_def Let_def split: if_splits list.splits)
qed

lemma parse_token_shorter: "parse_token nc buf = PhrOk t q \<Longrightarrow> length q \<le> length buf"
proof (induction nc buf arbitrary: t rule: parse_token.induct)
  case (2 nc c r)
  then show ?case by (cases "parse_token nc r") (auto split: if_splits)
qed simp

lemma parse_name_shorter: "parse_name buf = PhrOk t q \<Longrightarrow> length q \<le> length buf"
proof -
  assume "parse_name buf = PhrOk t q"
  then obtain r where r: "parse_token (CHR '':'') buf = PhrOk t r" "q = dropWhile is_ows (tl r)"
    by (auto simp: parse_name_def phr_bind_ok split: if_splits list.splits)
  have "length q \<le> length (tl r)" unfolding r(2) by (rule length_dropWhile_le)
  with parse_token_shorter [OF r(1)] show ?thesis by simp
qed

lemma parse_field_shorter: "parse_field num buf = PhrOk f q \<Longrightarrow> length q < length buf"
proof -
  assume "parse_field num buf = PhrOk f q"
  then obtain name r v where
    "(if \<not> (num \<noteq> 0 \<and> is_ows (hd buf)) then phr_bind (parse_name buf) (\<lambda>name r. PhrOk (Some name) r)
      else PhrOk None buf) = PhrOk name r" "get_token_to_eol r = PhrOk v q"
    by (auto simp: parse_field_def phr_bind_ok)
  with parse_name_shorter [of buf] get_token_shorter [of r v q] show ?thesis
    by (fastforce simp: phr_bind_ok split: if_splits)
qed

text \<open>\<^verbatim>\<open>parse_headers\<close>: \<open>num\<close> fields are parsed already, the list is of those still to come.\<close>

function parse_headers :: "nat \<Rightarrow> nat \<Rightarrow> bytes \<Rightarrow> phr_header list phr" where
  "parse_headers mx num buf =
     (case buf of
        [] \<Rightarrow> PhrIncomplete
      | c # r \<Rightarrow>
          if c = CR then
            (case r of [] \<Rightarrow> PhrIncomplete | d # r' \<Rightarrow> if d = LF then PhrOk [] r' else PhrError)
          else if c = LF then PhrOk [] r
          else if num = mx then PhrError
          else phr_bind (parse_field num buf) (\<lambda>h r.
                 phr_bind (parse_headers mx (num + 1) r) (\<lambda>hs q. PhrOk (h # hs) q)))"
  by pat_completeness auto
termination by (relation "measure (\<lambda>(mx, num, buf). length buf)") (auto dest: parse_field_shorter)

declare parse_headers.simps [simp del]

record phr_response =
  pr_minor :: int
  pr_status :: int
  pr_msg :: bytes
  pr_headers :: "phr_header list"

text \<open>The blanks before the status; \<^verbatim>\<open>parse_http_version\<close> leaves at least one byte.\<close>

definition skip_space :: "bytes \<Rightarrow> unit phr" where
  "skip_space buf =
     (case buf of
        [] \<Rightarrow> PhrIncomplete
      | c # r \<Rightarrow>
          if c \<noteq> SP then PhrError
          else (case dropWhile (\<lambda>c. c = SP) r of [] \<Rightarrow> PhrIncomplete | d # q \<Rightarrow> PhrOk () (d # q)))"

definition parse_status :: "bytes \<Rightarrow> int phr" where
  "parse_status buf = (if length buf < 4 then PhrIncomplete else parse_int_3 buf)"

text \<open>The reason phrase, with the space before it.\<close>

definition parse_msg :: "bytes \<Rightarrow> bytes phr" where
  "parse_msg buf =
     phr_bind (get_token_to_eol buf) (\<lambda>msg r.
       if length msg = 0 then PhrOk msg r
       else if hd msg = SP then PhrOk (dropWhile (\<lambda>c. c = SP) msg) r
       else PhrError)"

definition parse_response :: "nat \<Rightarrow> bytes \<Rightarrow> phr_response phr" where
  "parse_response mx buf =
     phr_bind (parse_http_version buf) (\<lambda>minor r.
     phr_bind (skip_space r) (\<lambda>_ r.
     phr_bind (parse_status r) (\<lambda>status r.
     phr_bind (parse_msg r) (\<lambda>msg r.
     phr_bind (parse_headers mx 0 r) (\<lambda>hs r.
       PhrOk \<lparr>pr_minor = minor, pr_status = status, pr_msg = msg, pr_headers = hs\<rparr> r)))))"

definition phr_parse_response :: "bytes \<Rightarrow> nat \<Rightarrow> nat \<Rightarrow> phr_response phr" where
  "phr_parse_response buf max_headers last_len =
     (if last_len \<noteq> 0 then phr_bind (is_complete buf last_len) (\<lambda>_ _. parse_response max_headers buf)
      else parse_response max_headers buf)"

definition phr_parse_headers :: "bytes \<Rightarrow> nat \<Rightarrow> nat \<Rightarrow> phr_header list phr" where
  "phr_parse_headers buf max_headers last_len =
     (if last_len \<noteq> 0 then phr_bind (is_complete buf last_len) (\<lambda>_ _. parse_headers max_headers 0 buf)
      else parse_headers max_headers 0 buf)"

section \<open>A longer input\<close>

text \<open>
  \<open>steady f\<close>: bytes that arrive after an answer do not change it. \<open>eats P f\<close>: what a successful
  call consumes is a prefix that satisfies \<open>P\<close>.
\<close>

definition steady :: "(bytes \<Rightarrow> 'a phr) \<Rightarrow> bool" where
  "steady f \<longleftrightarrow> (\<forall>xs ys. (case f xs of PhrOk x q \<Rightarrow> f (xs @ ys) = PhrOk x (q @ ys)
     | PhrError \<Rightarrow> f (xs @ ys) = PhrError | PhrIncomplete \<Rightarrow> True))"

definition eats :: "(bytes \<Rightarrow> bool) \<Rightarrow> (bytes \<Rightarrow> 'a phr) \<Rightarrow> bool" where
  "eats P f \<longleftrightarrow> (\<forall>xs x q. f xs = PhrOk x q \<longrightarrow> (\<exists>p. xs = p @ q \<and> P p))"

lemma steadyD:
  assumes "steady f"
  shows "f xs = PhrOk x q \<Longrightarrow> f (xs @ ys) = PhrOk x (q @ ys)" "f xs = PhrError \<Longrightarrow> f (xs @ ys) = PhrError"
  using assms [unfolded steady_def, rule_format, of xs ys] by simp_all

lemma steadyI:
  "(\<And>xs ys x q. f xs = PhrOk x q \<Longrightarrow> f (xs @ ys) = PhrOk x (q @ ys)) \<Longrightarrow>
   (\<And>xs ys. f xs = PhrError \<Longrightarrow> f (xs @ ys) = PhrError) \<Longrightarrow> steady f"
  unfolding steady_def
proof (intro allI)
  fix xs ys
  assume "\<And>xs ys x q. f xs = PhrOk x q \<Longrightarrow> f (xs @ ys) = PhrOk x (q @ ys)"
    "\<And>xs ys. f xs = PhrError \<Longrightarrow> f (xs @ ys) = PhrError"
  then show "case f xs of PhrOk x q \<Rightarrow> f (xs @ ys) = PhrOk x (q @ ys) | PhrError \<Rightarrow> f (xs @ ys) = PhrError
      | PhrIncomplete \<Rightarrow> True"
    by (cases "f xs") simp_all
qed

lemma steady_const [simp]: "steady (\<lambda>b. PhrOk x b)" "steady (\<lambda>b. PhrError)" "steady (PhrOk x)"
  by (simp_all add: steady_def)

lemma steady_bind: "steady f \<Longrightarrow> (\<And>x. steady (k x)) \<Longrightarrow> steady (\<lambda>b. phr_bind (f b) k)"
proof (rule steadyI)
  fix xs ys y q
  assume f: "steady f" and k: "\<And>x. steady (k x)" and run: "phr_bind (f xs) k = PhrOk y q"
  then obtain x r where r: "f xs = PhrOk x r" "k x r = PhrOk y q" by (auto simp: phr_bind_ok)
  from steadyD(1) [OF f r(1)] steadyD(1) [OF k r(2)] show "phr_bind (f (xs @ ys)) k = PhrOk y (q @ ys)" by simp
next
  fix xs ys
  assume f: "steady f" and k: "\<And>x. steady (k x)" and run: "phr_bind (f xs) k = PhrError"
  show "phr_bind (f (xs @ ys)) k = PhrError"
  proof (cases "f xs")
    case (PhrOk x r)
    with run steadyD(1) [OF f PhrOk] steadyD(2) [OF k, of x r] show ?thesis by simp
  next
    case PhrError
    with steadyD(2) [OF f PhrError] show ?thesis by simp
  qed (use run in simp)
qed

lemma eatsD: "eats P f \<Longrightarrow> f xs = PhrOk x q \<Longrightarrow> \<exists>p. xs = p @ q \<and> P p"
  unfolding eats_def by blast

lemma eats_bind:
  assumes "eats P f" "\<And>x. eats Q (k x)" "\<And>p p'. P p \<Longrightarrow> Q p' \<Longrightarrow> R (p @ p')"
  shows "eats R (\<lambda>b. phr_bind (f b) k)"
  unfolding eats_def
proof (intro allI impI)
  fix xs y q assume "phr_bind (f xs) k = PhrOk y q"
  then obtain x r where r: "f xs = PhrOk x r" "k x r = PhrOk y q" by (auto simp: phr_bind_ok)
  from eatsD [OF assms(1) r(1)] eatsD [OF assms(2) r(2)] assms(3)
  show "\<exists>p. xs = p @ q \<and> R p" by (metis append.assoc)
qed

lemma eats_ok: "P [] \<Longrightarrow> eats P (\<lambda>b. PhrOk x b)"
  by (simp add: eats_def)

lemma eats_mono: "eats P f \<Longrightarrow> (\<And>p. P p \<Longrightarrow> Q p) \<Longrightarrow> eats Q f"
  unfolding eats_def by blast

lemma dropWhile_more: "dropWhile P xs = c # r \<Longrightarrow> dropWhile P (xs @ ys) = c # r @ ys \<and> takeWhile P (xs @ ys) = takeWhile P xs"
  by (induction xs) (auto split: if_splits)

lemma steady_eol: "steady get_token_to_eol"
proof (rule steadyI)
  fix xs ys :: bytes and x q
  assume "get_token_to_eol xs = PhrOk x q"
  then show "get_token_to_eol (xs @ ys) = PhrOk x (q @ ys)"
    by (cases "dropWhile (\<lambda>c. \<not> found_ctl c) xs")
      (auto simp: get_token_to_eol_def Let_def dropWhile_more split: if_splits list.splits)
next
  fix xs ys :: bytes
  assume "get_token_to_eol xs = PhrError"
  then show "get_token_to_eol (xs @ ys) = PhrError"
    by (cases "dropWhile (\<lambda>c. \<not> found_ctl c) xs")
      (auto simp: get_token_to_eol_def Let_def dropWhile_more split: if_splits list.splits)
qed

lemma steady_token: "steady (parse_token nc)"
proof -
  have "(\<forall>x q. parse_token nc xs = PhrOk x q \<longrightarrow> parse_token nc (xs @ ys) = PhrOk x (q @ ys))
      \<and> (parse_token nc xs = PhrError \<longrightarrow> parse_token nc (xs @ ys) = PhrError)" for xs ys
  proof (induction xs)
    case (Cons c r)
    then show ?case by (cases "parse_token nc r") auto
  qed simp
  then show ?thesis by (auto intro: steadyI)
qed

lemma steady_digit: "steady parse_digit"
  by (rule steadyI) (auto simp: parse_digit_def split: list.splits if_splits)

lemma steady_name: "steady parse_name"
proof -
  have "steady (\<lambda>r. case dropWhile is_ows (tl r) of [] \<Rightarrow> PhrIncomplete | c # q \<Rightarrow> PhrOk name (c # q))" for name :: bytes
  proof (rule steadyI)
    fix xs ys x q
    assume a: "(case dropWhile is_ows (tl xs) of [] \<Rightarrow> PhrIncomplete | c # q \<Rightarrow> PhrOk name (c # q)) = PhrOk x q"
    then obtain c r where d: "dropWhile is_ows (tl xs) = c # r" by (auto split: list.splits)
    then have "tl (xs @ ys) = tl xs @ ys" by (cases xs) auto
    then show "(case dropWhile is_ows (tl (xs @ ys)) of [] \<Rightarrow> PhrIncomplete | c # q \<Rightarrow> PhrOk name (c # q)) = PhrOk x (q @ ys)"
      using a dropWhile_more [OF d, of ys] d by simp
  qed (auto split: list.splits)
  then have "steady (\<lambda>r. if length name = 0 then PhrError
      else (case dropWhile is_ows (tl r) of [] \<Rightarrow> PhrIncomplete | c # q \<Rightarrow> PhrOk name (c # q)))" for name :: bytes
    by (cases "length name = 0") simp_all
  then show ?thesis unfolding parse_name_def by (intro steady_bind steady_token)
qed

lemma steady_field: "buf \<noteq> [] \<Longrightarrow> parse_field num buf = PhrOk f q \<Longrightarrow> parse_field num (buf @ ys) = PhrOk f (q @ ys)"
    "buf \<noteq> [] \<Longrightarrow> parse_field num buf = PhrError \<Longrightarrow> parse_field num (buf @ ys) = PhrError"
proof -
  let ?first = "\<lambda>cont buf. if \<not> cont then phr_bind (parse_name buf) (\<lambda>name r. PhrOk (Some name) r) else PhrOk None buf"
  have "steady (?first cont)" for cont
    by (cases cont) (simp_all add: steady_bind [OF steady_name])
  then have "steady (\<lambda>buf. phr_bind (?first cont buf) (\<lambda>name r. phr_bind (get_token_to_eol r) (\<lambda>value q.
          PhrOk \<lparr>ph_name = name, ph_value = trim_right value\<rparr> q)))" for cont
    by (intro steady_bind steady_eol) simp_all
  note st = steadyD [OF this]
  assume "buf \<noteq> []"
  then have hd: "hd (buf @ ys) = hd buf" by simp
  show "parse_field num buf = PhrOk f q \<Longrightarrow> parse_field num (buf @ ys) = PhrOk f (q @ ys)"
    "parse_field num buf = PhrError \<Longrightarrow> parse_field num (buf @ ys) = PhrError"
    unfolding parse_field_def hd by (rule st, assumption)+
qed

lemma steady_headers: "steady (parse_headers mx num)"
proof -
  have "(\<forall>x q. parse_headers mx num xs = PhrOk x q \<longrightarrow> parse_headers mx num (xs @ ys) = PhrOk x (q @ ys))
      \<and> (parse_headers mx num xs = PhrError \<longrightarrow> parse_headers mx num (xs @ ys) = PhrError)" for xs ys
  proof (induction mx num xs rule: parse_headers.induct)
    case (1 mx num buf)
    show ?case
    proof (cases buf)
      case Nil
      then show ?thesis by (simp add: parse_headers.simps [of mx num "[]"])
    next
      case (Cons c r)
      show ?thesis
      proof (cases "c = CR \<or> c = LF \<or> num = mx")
        case True
        then show ?thesis
          by (auto simp: Cons parse_headers.simps [of mx num "c # r"] parse_headers.simps [of mx num "c # r @ ys"] split: list.splits)
      next
        case False
        then have eq: "parse_headers mx num (c # t) = phr_bind (parse_field num (c # t)) (\<lambda>h r.
                 phr_bind (parse_headers mx (num + 1) r) (\<lambda>hs q. PhrOk (h # hs) q))" for t
          by (simp add: parse_headers.simps [of mx num "c # t"])
        show ?thesis
        proof (cases "parse_field num (c # r)")
          case (PhrOk h r')
          with 1 [OF Cons _ _ _ PhrOk [folded Cons]] False steady_field(1) [OF _ PhrOk, of ys]
          show ?thesis unfolding Cons by (cases "parse_headers mx (num + 1) r'") (simp_all add: eq)
        next
          case PhrError
          with steady_field(2) [OF _ PhrError, of ys] show ?thesis unfolding Cons by (simp add: eq)
        qed (simp add: Cons eq)
      qed
    qed
  qed
  then show ?thesis by (intro steadyI) blast+
qed

lemma steady_version: "steady parse_http_version"
proof -
  have more: "drop 7 (xs @ ys) = drop 7 xs @ ys" "take 7 (xs @ ys) = take 7 xs" if "\<not> length xs < 9" for xs ys :: bytes
    using that by simp_all
  show ?thesis
  proof (rule steadyI)
    fix xs ys x q
    assume a: "parse_http_version xs = PhrOk x q"
    then have l: "\<not> length xs < 9" by (auto simp: parse_http_version_def)
    with a show "parse_http_version (xs @ ys) = PhrOk x (q @ ys)"
      using steadyD(1) [OF steady_digit, of "drop 7 xs"] unfolding parse_http_version_def more [OF l] by (auto split: if_splits)
  next
    fix xs ys
    assume a: "parse_http_version xs = PhrError"
    then have l: "\<not> length xs < 9" by (auto simp: parse_http_version_def)
    with a show "parse_http_version (xs @ ys) = PhrError"
      using steadyD(2) [OF steady_digit, of "drop 7 xs"] unfolding parse_http_version_def more [OF l] by (auto split: if_splits)
  qed
qed

lemma steady_space: "steady skip_space"
proof (rule steadyI)
  fix xs ys x q
  assume "skip_space xs = PhrOk x q"
  then obtain r d q' where "xs = SP # r" "dropWhile (\<lambda>c. c = SP) r = d # q'" "q = d # q'"
    by (auto simp: skip_space_def split: list.splits if_splits)
  then show "skip_space (xs @ ys) = PhrOk x (q @ ys)" using dropWhile_more [of "\<lambda>c. c = SP" r d q' ys] by (simp add: skip_space_def)
qed (auto simp: skip_space_def split: list.splits if_splits)

lemma steady_status: "steady parse_status"
proof -
  have st: "steady parse_int_3" unfolding parse_int_3_def by (intro steady_bind steady_digit) simp_all
  show ?thesis
    by (rule steadyI) (auto simp: parse_status_def split: if_splits dest: steadyD [OF st])
qed

lemma steady_msg: "steady parse_msg"
proof -
  have "steady (\<lambda>r. if length msg = 0 then PhrOk msg r
       else if hd msg = SP then PhrOk (dropWhile (\<lambda>c. c = SP) msg) r else PhrError)" for msg
    by (cases "length msg = 0"; cases "hd msg = SP") (simp_all add: steady_def)
  then show ?thesis unfolding parse_msg_def by (intro steady_bind steady_eol)
qed

lemma steady_response: "steady (parse_response mx)"
  unfolding parse_response_def
  by (intro steady_bind steady_version steady_space steady_status steady_msg steady_headers) simp

section \<open>What a head is made of\<close>

text \<open>In what was parsed a CR is followed by LF, and an empty line ends it.\<close>

fun cr_ok :: "bytes \<Rightarrow> bool" where
  "cr_ok [] = True"
| "cr_ok (c # r) = ((if c = CR then r \<noteq> [] \<and> hd r = LF else True) \<and> cr_ok r)"

lemma cr_ok_append: "cr_ok p \<Longrightarrow> cr_ok q \<Longrightarrow> cr_ok (p @ q)"
  by (induction p) (auto simp: hd_append)

lemma cr_ok_none: "CR \<notin> set p \<Longrightarrow> cr_ok p"
  by (induction p) auto

definition line_end :: "bytes \<Rightarrow> bool" where
  "line_end p \<longleftrightarrow> cr_ok p \<and> p \<noteq> [] \<and> last p = LF"

definition head_end :: "bytes \<Rightarrow> bool" where
  "head_end p \<longleftrightarrow> cr_ok p \<and> (\<exists>m e. p = m @ LF # e \<and> e \<in> {[LF], CRLF})"

definition block_end :: "bytes \<Rightarrow> bool" where
  "block_end p \<longleftrightarrow> cr_ok p \<and> (\<exists>m e. p = m @ e \<and> e \<in> {[LF], CRLF} \<and> (m = [] \<or> last m = LF))"

lemma line_end_prepend: "cr_ok p \<Longrightarrow> line_end p' \<Longrightarrow> line_end (p @ p')"
  by (simp add: line_end_def cr_ok_append)

lemma eats_eol: "eats line_end get_token_to_eol"
  unfolding eats_def
proof (intro allI impI)
  fix xs x q assume a: "get_token_to_eol xs = PhrOk x q"
  let ?P = "\<lambda>c. \<not> found_ctl c"
  have "CR \<notin> set (takeWhile ?P xs)" by (auto dest!: set_takeWhileD simp: found_ctl_def CR_def HTAB_def)
  then have "cr_ok (takeWhile ?P xs)" by (rule cr_ok_none)
  moreover obtain e where "dropWhile ?P xs = e @ q" "e = [LF] \<or> e = CRLF"
    using a by (cases "dropWhile ?P xs") (auto simp: get_token_to_eol_def Let_def split: if_splits list.splits)
  moreover have "xs = takeWhile ?P xs @ dropWhile ?P xs" by simp
  ultimately have "xs = (takeWhile ?P xs @ e) @ q" "line_end (takeWhile ?P xs @ e)"
    by (simp_all only: append_assoc) (auto simp: line_end_def intro!: cr_ok_append)
  then show "\<exists>p. xs = p @ q \<and> line_end p" by blast
qed

lemma eats_token: "nc \<noteq> CR \<Longrightarrow> parse_token nc xs = PhrOk t q \<Longrightarrow>
    xs = t @ q \<and> list_all token_char_map t \<and> q \<noteq> [] \<and> hd q = nc"
proof (induction nc xs arbitrary: t rule: parse_token.induct)
  case (2 nc c r)
  then show ?case by (cases "parse_token nc r") (auto split: if_splits)
qed simp

lemma token_no_CR: "list_all token_char_map t \<Longrightarrow> CR \<notin> set t"
  by (auto simp: list_all_iff token_char_map_def)

lemma skipped_no_CR: "CR \<notin> set (takeWhile is_ows r)" "CR \<notin> set (takeWhile (\<lambda>c. c = SP) r)"
  by (auto dest!: set_takeWhileD simp: is_ows_def CR_def HTAB_def SP_def)

lemma eats_name: "parse_name xs = PhrOk name q \<Longrightarrow> \<exists>p. xs = p @ q \<and> cr_ok p \<and> q \<noteq> []
    \<and> list_all token_char_map name \<and> name \<noteq> []"
proof -
  assume "parse_name xs = PhrOk name q"
  then obtain r where r: "parse_token (CHR '':'') xs = PhrOk name r" "name \<noteq> []" "dropWhile is_ows (tl r) = q" "q \<noteq> []"
    by (auto simp: parse_name_def phr_bind_ok split: if_splits list.splits)
  from eats_token [OF _ r(1)] obtain r' where t: "xs = name @ CHR '':'' # r'" "list_all token_char_map name" "r = CHR '':'' # r'"
    by (cases r) (auto simp: CR_def)
  have "xs = (name @ CHR '':'' # takeWhile is_ows r') @ q" using t r(3) takeWhile_dropWhile_id [of is_ows r'] by simp
  moreover have "cr_ok (name @ CHR '':'' # takeWhile is_ows r')"
    using token_no_CR [OF t(2)] skipped_no_CR(1) [of r'] by (intro cr_ok_none) (auto simp: CR_def)
  ultimately show ?thesis using t(2) r(2,4) by blast
qed

text \<open>What a field parses to.\<close>

definition field_plain :: "phr_header \<Rightarrow> bool" where
  "field_plain f \<longleftrightarrow> (\<forall>n. ph_name f = Some n \<longrightarrow> n \<noteq> [] \<and> list_all token_char_map n) \<and> (\<forall>c \<in> set (ph_value f). \<not> found_ctl c)"

lemma eol_plain: "get_token_to_eol xs = PhrOk v q \<Longrightarrow> \<forall>c \<in> set v. \<not> found_ctl c"
proof -
  assume a: "get_token_to_eol xs = PhrOk v q"
  then have "v = takeWhile (\<lambda>c. \<not> found_ctl c) xs"
    by (cases "dropWhile (\<lambda>c. \<not> found_ctl c) xs") (auto simp: get_token_to_eol_def Let_def split: if_splits list.splits)
  then show ?thesis by (auto dest: set_takeWhileD)
qed

lemma eats_field: "parse_field num xs = PhrOk f q \<Longrightarrow> \<exists>p. xs = p @ q \<and> line_end p \<and> field_plain f"
proof -
  assume "parse_field num xs = PhrOk f q"
  then obtain name r v where
      n: "(if \<not> (num \<noteq> 0 \<and> is_ows (hd xs)) then phr_bind (parse_name xs) (\<lambda>name r. PhrOk (Some name) r)
         else PhrOk None xs) = PhrOk name r"
    and v: "get_token_to_eol r = PhrOk v q" and f: "f = \<lparr>ph_name = name, ph_value = trim_right v\<rparr>"
    by (auto simp: parse_field_def phr_bind_ok)
  obtain p where p: "r = p @ q" "line_end p" using eatsD [OF eats_eol v] by blast
  have "\<exists>p. xs = p @ r \<and> cr_ok p \<and> (\<forall>n. name = Some n \<longrightarrow> n \<noteq> [] \<and> list_all token_char_map n)"
    using n eats_name [of xs] by (fastforce simp: phr_bind_ok split: if_splits)
  then obtain p' where p': "xs = p' @ r" "cr_ok p'" "\<forall>n. name = Some n \<longrightarrow> n \<noteq> [] \<and> list_all token_char_map n" by blast
  have "set (trim_right v) \<subseteq> set v" unfolding trim_right_def using set_dropWhileD by fastforce
  with eol_plain [OF v] p'(3) have "field_plain f" by (auto simp: field_plain_def f)
  with p p' line_end_prepend [OF p'(2) p(2)] show ?thesis by auto
qed

lemma eats_headers: "parse_headers mx num xs = PhrOk hs q \<Longrightarrow>
    (\<exists>p. xs = p @ q \<and> block_end p) \<and> list_all field_plain hs \<and> (num \<le> mx \<longrightarrow> num + length hs \<le> mx)"
proof (induction mx num xs arbitrary: hs rule: parse_headers.induct)
  case (1 mx num buf)
  have stop: "block_end [LF]" "block_end CRLF" by (auto simp: block_end_def)
  from 1(2) obtain c r where buf: "buf = c # r" by (cases buf) (auto simp: parse_headers.simps [of mx num "[]"])
  note run = 1(2) [unfolded buf parse_headers.simps [of mx num "c # r"] list.case]
  show ?case
  proof (cases "c = CR \<or> c = LF")
    case True
    with run have "hs = []" "buf = CRLF @ q \<or> buf = [LF] @ q" by (auto simp: buf split: if_splits list.splits)
    with stop show ?thesis by auto
  next
    case False
    with run have mx: "num \<noteq> mx" by auto
    obtain h r' hs' where f: "parse_field num buf = PhrOk h r'" and hs: "parse_headers mx (num + 1) r' = PhrOk hs' q"
      "hs = h # hs'" using run False mx by (auto simp: phr_bind_ok buf)
    obtain p where p: "buf = p @ r'" "line_end p" "field_plain h" using eats_field [OF f] by blast
    from 1(1) [OF buf _ _ mx f hs(1)] False obtain p' where p': "r' = p' @ q" "block_end p'"
      and rest: "list_all field_plain hs'" "num + 1 \<le> mx \<longrightarrow> num + 1 + length hs' \<le> mx" by auto
    obtain m e where m: "p' = m @ e" "e \<in> {[LF], CRLF}" "m = [] \<or> last m = LF" "cr_ok p'"
      using p'(2) by (auto simp: block_end_def)
    have "cr_ok (p @ p')" using p(2) m(4) by (simp add: line_end_def cr_ok_append)
    moreover have "p @ m = [] \<or> last (p @ m) = LF" using p(2) m(3) by (cases "m = []") (auto simp: line_end_def)
    ultimately have "block_end (p @ p')" unfolding block_end_def m(1) using m(2) by (metis append.assoc)
    with p p' rest mx hs(2) show ?thesis by auto
  qed
qed

lemma digit_value: "parse_digit xs = PhrOk d q \<Longrightarrow> \<exists>c. xs = c # q \<and> c \<noteq> CR \<and> 0 \<le> d \<and> d \<le> 9"
  by (auto simp: parse_digit_def CR_def split: list.splits if_splits)

lemma eats_version: "parse_http_version xs = PhrOk d q \<Longrightarrow> \<exists>p. xs = p @ q \<and> cr_ok p \<and> 0 \<le> d \<and> d \<le> 9"
proof -
  assume "parse_http_version xs = PhrOk d q"
  then have t: "take 7 xs = ''HTTP/1.''" and d: "parse_digit (drop 7 xs) = PhrOk d q"
    by (auto simp: parse_http_version_def split: if_splits)
  obtain c where c: "drop 7 xs = c # q" "c \<noteq> CR" "0 \<le> d \<and> d \<le> 9" using digit_value [OF d] by blast
  have "xs = (''HTTP/1.'' @ [c]) @ q" using t c(1) append_take_drop_id [of 7 xs] by simp
  moreover have "cr_ok (''HTTP/1.'' @ [c])" using c(2) by (intro cr_ok_none) (auto simp: CR_def)
  ultimately show ?thesis using c(3) by blast
qed

lemma eats_space: "skip_space xs = PhrOk u q \<Longrightarrow> \<exists>p. xs = p @ q \<and> cr_ok p \<and> p \<noteq> []"
proof -
  assume "skip_space xs = PhrOk u q"
  then obtain r where r: "xs = SP # r" "dropWhile (\<lambda>c. c = SP) r = q"
    by (auto simp: skip_space_def split: list.splits if_splits)
  then have "xs = (SP # takeWhile (\<lambda>c. c = SP) r) @ q" using takeWhile_dropWhile_id [of "\<lambda>c. c = SP" r] by simp
  moreover have "cr_ok (SP # takeWhile (\<lambda>c. c = SP) r)" using skipped_no_CR(2) [of r] by (intro cr_ok_none) (auto simp: CR_def SP_def)
  ultimately show ?thesis by (metis list.distinct(1))
qed

lemma eats_status: "parse_status xs = PhrOk d q \<Longrightarrow> \<exists>p. xs = p @ q \<and> cr_ok p \<and> p \<noteq> [] \<and> 0 \<le> d \<and> d \<le> 999"
proof -
  assume "parse_status xs = PhrOk d q"
  then obtain a r b r' c where "parse_digit xs = PhrOk a r" "parse_digit r = PhrOk b r'" "parse_digit r' = PhrOk c q"
      "d = 100 * a + 10 * b + 1 * c"
    by (auto simp: parse_status_def parse_int_3_def phr_bind_ok split: if_splits)
  with digit_value [of xs a r] digit_value [of r b r'] digit_value [of r' c q] obtain x y z where
    "xs = [x, y, z] @ q" "x \<noteq> CR" "y \<noteq> CR" "z \<noteq> CR" "0 \<le> d \<and> d \<le> 999" by auto
  then show ?thesis by (intro exI [of _ "[x, y, z]"]) simp
qed

lemma eats_msg: "parse_msg xs = PhrOk m q \<Longrightarrow> (\<exists>p. xs = p @ q \<and> line_end p) \<and> (\<forall>c \<in> set m. \<not> found_ctl c)"
proof -
  assume "parse_msg xs = PhrOk m q"
  then obtain v where v: "get_token_to_eol xs = PhrOk v q" "set m \<subseteq> set v"
    by (auto simp: parse_msg_def phr_bind_ok split: if_splits dest: set_dropWhileD)
  from eatsD [OF eats_eol v(1)] eol_plain [OF v(1)] v(2) show ?thesis by blast
qed

lemma block_after_line: "cr_ok p \<Longrightarrow> line_end l \<Longrightarrow> block_end b \<Longrightarrow> head_end (p @ l @ b)"
proof -
  assume p: "cr_ok p" and l: "line_end l" and b: "block_end b"
  obtain m e where m: "b = m @ e" "e \<in> {[LF], CRLF}" "m = [] \<or> last m = LF" using b by (auto simp: block_end_def)
  have "last (l @ m) = LF" using l m(3) by (cases "m = []") (auto simp: line_end_def)
  moreover have "l @ m \<noteq> []" using l by (simp add: line_end_def)
  ultimately have lm: "l @ m = butlast (l @ m) @ [LF]" by (metis append_butlast_last_id)
  have "p @ l @ b = (p @ butlast (l @ m)) @ LF # e" using lm m(1) by (metis append.assoc append_Cons append_Nil)
  moreover have "cr_ok (p @ l @ b)" using p l b by (intro cr_ok_append) (simp_all add: line_end_def block_end_def)
  ultimately show ?thesis unfolding head_end_def using m(2) by blast
qed

text \<open>What an accepted head is: its last line is empty, its numbers are in range, its texts are plain.\<close>

lemma response_shape:
  assumes "parse_response mx xs = PhrOk r q"
  shows "\<exists>p. xs = p @ q \<and> head_end p" "0 \<le> pr_minor r \<and> pr_minor r \<le> 9" "0 \<le> pr_status r \<and> pr_status r \<le> 999"
    "\<forall>c \<in> set (pr_msg r). \<not> found_ctl c" "list_all field_plain (pr_headers r)" "length (pr_headers r) \<le> mx"
proof -
  obtain minor r1 u r2 status r3 msg r4 hs where
    s: "parse_http_version xs = PhrOk minor r1" "skip_space r1 = PhrOk u r2" "parse_status r2 = PhrOk status r3"
      "parse_msg r3 = PhrOk msg r4" "parse_headers mx 0 r4 = PhrOk hs q"
    and r: "r = \<lparr>pr_minor = minor, pr_status = status, pr_msg = msg, pr_headers = hs\<rparr>"
    using assms by (auto simp: parse_response_def phr_bind_ok)
  obtain p1 where p1: "xs = p1 @ r1" "cr_ok p1" "0 \<le> minor \<and> minor \<le> 9" using eats_version [OF s(1)] by blast
  obtain p2 where p2: "r1 = p2 @ r2" "cr_ok p2" using eats_space [OF s(2)] by blast
  obtain p3 where p3: "r2 = p3 @ r3" "cr_ok p3" "0 \<le> status \<and> status \<le> 999" using eats_status [OF s(3)] by blast
  obtain p4 where p4: "r3 = p4 @ r4" "line_end p4" "\<forall>c \<in> set msg. \<not> found_ctl c" using eats_msg [OF s(4)] by blast
  obtain p5 where p5: "r4 = p5 @ q" "block_end p5" "list_all field_plain hs" "length hs \<le> mx"
    using eats_headers [OF s(5)] by auto
  have "head_end ((p1 @ p2 @ p3) @ p4 @ p5)"
    using p1(2) p2(2) p3(2) p4(2) p5(2) by (intro block_after_line cr_ok_append)
  moreover have "xs = ((p1 @ p2 @ p3) @ p4 @ p5) @ q" using p1 p2 p3 p4 p5 by simp
  ultimately show "\<exists>p. xs = p @ q \<and> head_end p" by blast
  show "0 \<le> pr_minor r \<and> pr_minor r \<le> 9" "0 \<le> pr_status r \<and> pr_status r \<le> 999"
    "\<forall>c \<in> set (pr_msg r). \<not> found_ctl c" "list_all field_plain (pr_headers r)" "length (pr_headers r) \<le> mx"
    using p1(3) p3(3) p4(3) p5(3,4) r by simp_all
qed

section \<open>The completeness check\<close>

text \<open>
  From any point before its last empty line the scan of a complete head finds the end; on a part
  of it the scan never reports an error.
\<close>

lemma complete_found:
  assumes "cr_ok (m @ LF # e)" "e \<in> {[LF], CRLF}" "n \<le> 1"
  shows "\<exists>q. is_complete_loop n (m @ LF # e @ ys) = PhrOk () q"
  using assms
proof (induction n "m" arbitrary: rule: is_complete_loop.induct)
  case (1 n)
  then show ?case by (cases n) auto
next
  case (2 n c r)
  then consider "n = 0" | "n = 1" by linarith
  then show ?case using 2
    by cases (cases r; auto split: if_splits list.splits)+
qed

lemma complete_no_error: "cr_ok (xs @ ys) \<Longrightarrow> is_complete_loop n xs \<noteq> PhrError"
proof (induction n xs rule: is_complete_loop.induct)
  case (2 n c r)
  then show ?case by (auto split: list.splits)
qed simp

section \<open>A shorter input\<close>

text \<open>
  \<open>tight a f\<close>: a successful answer needs no byte beyond the ones consumed, or, when \<open>a\<close> holds, one
  more to look at.
\<close>

definition tight :: "bool \<Rightarrow> (bytes \<Rightarrow> 'a phr) \<Rightarrow> bool" where
  "tight a f \<longleftrightarrow> (\<forall>xs ys x q. f (xs @ ys) = PhrOk x (q @ ys) \<longrightarrow> (a \<longrightarrow> q \<noteq> []) \<longrightarrow> f xs = PhrOk x q)"

lemma tightI: "(\<And>xs ys x q. f (xs @ ys) = PhrOk x (q @ ys) \<Longrightarrow> (a \<longrightarrow> q \<noteq> []) \<Longrightarrow> f xs = PhrOk x q) \<Longrightarrow> tight a f"
  unfolding tight_def by blast

lemma tightD: "tight a f \<Longrightarrow> f (xs @ ys) = PhrOk x (q @ ys) \<Longrightarrow> (a \<longrightarrow> q \<noteq> []) \<Longrightarrow> f xs = PhrOk x q"
  unfolding tight_def by blast

lemma tight_const [simp]: "tight a (PhrOk x)" "tight a (\<lambda>r. PhrError)"
  by (simp_all add: tight_def)

lemma tight_bind:
  assumes f: "tight a f" and k: "\<And>x. tight b (k x)" and e: "\<And>x. eats (\<lambda>p. a \<and> \<not> b \<longrightarrow> p \<noteq> []) (k x)"
  shows "tight b (\<lambda>r. phr_bind (f r) k)"
proof (rule tightI)
  fix xs ys y q
  assume run: "phr_bind (f (xs @ ys)) k = PhrOk y (q @ ys)" and b: "b \<longrightarrow> q \<noteq> []"
  then obtain x r where r: "f (xs @ ys) = PhrOk x r" "k x r = PhrOk y (q @ ys)" by (auto simp: phr_bind_ok)
  obtain p where p: "r = p @ q @ ys" "a \<and> \<not> b \<longrightarrow> p \<noteq> []" using eatsD [OF e r(2)] by blast
  have "f xs = PhrOk x (p @ q)" by (rule tightD [OF f, where ys = ys]) (use r(1) p b in auto)
  moreover have "k x (p @ q) = PhrOk y q" by (rule tightD [OF k, where ys = ys]) (use r(2) p(1) b in auto)
  ultimately show "phr_bind (f xs) k = PhrOk y q" by simp
qed

lemma dropWhile_cut:
  assumes "dropWhile P (xs @ ys) = q @ ys" "q \<noteq> []"
  shows "dropWhile P xs = q" "takeWhile P (xs @ ys) = takeWhile P xs"
proof -
  have "\<not> (\<forall>x \<in> set xs. P x)"
  proof
    assume "\<forall>x \<in> set xs. P x"
    then have "dropWhile P ys = q @ ys" using assms(1) by (simp add: dropWhile_append2)
    moreover have "length (dropWhile P ys) \<le> length ys" by (rule length_dropWhile_le)
    ultimately show False using assms(2) by simp
  qed
  then obtain x where "x \<in> set xs" "\<not> P x" by blast
  then show "dropWhile P xs = q" "takeWhile P (xs @ ys) = takeWhile P xs"
    using assms(1) by (simp_all add: dropWhile_append1 takeWhile_append1)
qed

lemma eol_result: "get_token_to_eol xs = PhrOk v q \<longleftrightarrow>
    v = takeWhile (\<lambda>c. \<not> found_ctl c) xs \<and>
    (dropWhile (\<lambda>c. \<not> found_ctl c) xs = LF # q \<or> dropWhile (\<lambda>c. \<not> found_ctl c) xs = CR # LF # q)"
proof (cases "dropWhile (\<lambda>c. \<not> found_ctl c) xs")
  case Nil
  show ?thesis unfolding get_token_to_eol_def Let_def Nil by simp
next
  case (Cons c r)
  show ?thesis unfolding get_token_to_eol_def Let_def Cons by (auto split: list.splits)
qed

lemma tight_eol: "tight False get_token_to_eol"
proof (rule tightI)
  fix xs ys x q
  let ?P = "\<lambda>c. \<not> found_ctl c"
  assume a: "get_token_to_eol (xs @ ys) = PhrOk x (q @ ys)"
  then obtain e where e: "e = [LF] \<or> e = CRLF" "dropWhile ?P (xs @ ys) = (e @ q) @ ys" "x = takeWhile ?P (xs @ ys)"
    unfolding eol_result by (metis append_Cons append_Nil)
  from dropWhile_cut [OF e(2)] e(1,3) show "get_token_to_eol xs = PhrOk x q" unfolding eol_result by auto
qed

lemma tight_token: "tight True (parse_token nc)"
proof -
  have "parse_token nc (xs @ ys) = PhrOk x (q @ ys) \<Longrightarrow> q \<noteq> [] \<Longrightarrow> parse_token nc xs = PhrOk x q" for xs ys x q
  proof (induction xs arbitrary: x)
    case Nil
    with parse_token_shorter [OF Nil(1)] show ?case by simp
  next
    case (Cons c r)
    then show ?case by (auto simp: phr_bind_ok split: if_splits)
  qed
  then show ?thesis unfolding tight_def by blast
qed

lemma tight_name: "tight True parse_name"
proof -
  have "tight True (\<lambda>r. if length name = 0 then PhrError
      else (case dropWhile is_ows (tl r) of [] \<Rightarrow> PhrIncomplete | c # q \<Rightarrow> PhrOk name (c # q)))" for name :: bytes
  proof (rule tightI)
    fix xs ys x q
    assume a: "(if length name = 0 then PhrError
      else (case dropWhile is_ows (tl (xs @ ys)) of [] \<Rightarrow> PhrIncomplete | c # q \<Rightarrow> PhrOk name (c # q))) = PhrOk x (q @ ys)"
      and q: "True \<longrightarrow> q \<noteq> []"
    then have d: "dropWhile is_ows (tl (xs @ ys)) = q @ ys" "length name \<noteq> 0" "x = name" by (auto split: if_splits list.splits)
    have "xs \<noteq> []"
    proof
      assume "xs = []"
      with d(1) length_dropWhile_le [of is_ows "tl ys"] q show False by (cases q) simp_all
    qed
    then have cut: "dropWhile is_ows (tl xs @ ys) = q @ ys" using d(1) by simp
    have "dropWhile is_ows (tl xs) = q" using dropWhile_cut(1) [OF cut] q by blast
    with d(2,3) q show "(if length name = 0 then PhrError
      else (case dropWhile is_ows (tl xs) of [] \<Rightarrow> PhrIncomplete | c # q \<Rightarrow> PhrOk name (c # q))) = PhrOk x q"
      by (cases q) simp_all
  qed
  moreover have "eats (\<lambda>p. True) (\<lambda>r. if length name = 0 then PhrError
      else (case dropWhile is_ows (tl r) of [] \<Rightarrow> PhrIncomplete | c # q \<Rightarrow> PhrOk name (c # q)))" for name :: bytes
    unfolding eats_def
  proof (intro allI impI)
    fix xs x q
    assume "(if length name = 0 then PhrError
      else (case dropWhile is_ows (tl xs) of [] \<Rightarrow> PhrIncomplete | c # q \<Rightarrow> PhrOk name (c # q))) = PhrOk x q"
    then have "dropWhile is_ows (tl xs) = q" "xs \<noteq> []" by (auto split: if_splits list.splits)
    then have "xs = (hd xs # takeWhile is_ows (tl xs)) @ q" using takeWhile_dropWhile_id [of is_ows "tl xs"] by simp
    then show "\<exists>p. xs = p @ q \<and> True" by blast
  qed
  ultimately show ?thesis
    unfolding parse_name_def by (intro tight_bind [OF tight_token]) (simp_all add: eats_def)
qed

lemma eats_any: "(\<And>xs x q. f xs = PhrOk x q \<Longrightarrow> \<exists>p. xs = p @ q \<and> P p) \<Longrightarrow> eats P f"
  unfolding eats_def by blast

lemma tight_field:
  assumes "parse_field num (xs @ ys) = PhrOk f (q @ ys)" "hd (xs @ ys) = hd xs"
  shows "parse_field num xs = PhrOk f q"
proof -
  let ?first = "\<lambda>cont buf. if \<not> cont then phr_bind (parse_name buf) (\<lambda>name r. PhrOk (Some name) r) else PhrOk None buf"
  have first: "tight True (?first cont)" for cont
  proof (cases cont)
    case False
    have "tight True (\<lambda>buf. phr_bind (parse_name buf) (\<lambda>name r. PhrOk (Some name) r))"
      by (rule tight_bind [OF tight_name]) (simp_all add: eats_def)
    with False show ?thesis by simp
  qed simp
  have line: "eats (\<lambda>p. True \<and> \<not> False \<longrightarrow> p \<noteq> []) (\<lambda>r. phr_bind (get_token_to_eol r) (\<lambda>value q.
          PhrOk \<lparr>ph_name = name, ph_value = trim_right value\<rparr> q))" for name
  proof (rule eats_any)
    fix xs x q
    assume "phr_bind (get_token_to_eol xs) (\<lambda>value q. PhrOk \<lparr>ph_name = name, ph_value = trim_right value\<rparr> q) = PhrOk x q"
    then obtain v where "get_token_to_eol xs = PhrOk v q" by (auto simp: phr_bind_ok)
    from eatsD [OF eats_eol this] show "\<exists>p. xs = p @ q \<and> (True \<and> \<not> False \<longrightarrow> p \<noteq> [])" by (auto simp: line_end_def)
  qed
  have "tight False (\<lambda>r. phr_bind (get_token_to_eol r) (\<lambda>value q. PhrOk \<lparr>ph_name = name, ph_value = trim_right value\<rparr> q))"
    for name by (rule tight_bind [OF tight_eol]) (simp_all add: eats_def)
  from tight_bind [OF first this line]
  have "tight False (\<lambda>buf. phr_bind (?first cont buf) (\<lambda>name r. phr_bind (get_token_to_eol r) (\<lambda>value q.
          PhrOk \<lparr>ph_name = name, ph_value = trim_right value\<rparr> q)))" for cont .
  from tightD [OF this] assms(1) show ?thesis unfolding parse_field_def assms(2) by blast
qed

lemma tight_headers: "tight False (parse_headers mx num)"
proof -
  have "parse_headers mx num zs = PhrOk hs (q @ ys) \<Longrightarrow> zs = xs @ ys \<Longrightarrow> parse_headers mx num xs = PhrOk hs q" for zs xs ys hs q
  proof (induction mx num zs arbitrary: xs hs rule: parse_headers.induct)
    case (1 mx num zs)
    obtain p where p: "zs = p @ q @ ys" "block_end p" using eats_headers [OF 1(2)] by blast
    then have xs: "xs = p @ q" "p \<noteq> []" using 1(3) by (auto simp: block_end_def)
    from xs have "xs \<noteq> []" by blast
    then obtain c r where c: "xs = c # r" by (metis list.exhaust)
    note run = 1(2) [unfolded 1(3) c append_Cons parse_headers.simps [of mx num "c # r @ ys"] list.case]
    show ?case
    proof (cases "c = CR \<or> c = LF")
      case True
      then have "p = CRLF \<and> hs = [] \<or> p = [LF] \<and> hs = []"
        using run p(1) 1(3) xs(1) c by (auto split: if_splits list.splits simp: append_eq_append_conv2 Cons_eq_append_conv)
      then show ?thesis unfolding xs(1) by (auto simp: parse_headers.simps [of mx num "CR # LF # q"] parse_headers.simps [of mx num "LF # q"])
    next
      case False
      with run have mx: "num \<noteq> mx" by auto
      obtain h r' hs' where f: "parse_field num (c # r @ ys) = PhrOk h r'"
        and hs: "parse_headers mx (num + 1) r' = PhrOk hs' (q @ ys)" "hs = h # hs'"
        using run False mx by (auto simp: phr_bind_ok)
      obtain p' where p': "r' = p' @ q @ ys" using eats_headers [OF hs(1)] by blast
      have "parse_field num xs = PhrOk h (p' @ q)"
        by (rule tight_field [where ys = ys]) (use f p' c in simp_all)
      moreover have "parse_headers mx (num + 1) (p' @ q) = PhrOk hs' q"
        by (rule 1(1) [of c "r @ ys" h r']) (use 1(3) c False mx f hs(1) p' in simp_all)
      ultimately show ?thesis using False mx c by (simp add: parse_headers.simps [of mx num "c # r"] hs(2))
    qed
  qed
  then show ?thesis unfolding tight_def by blast
qed

lemma tight_digit: "tight False parse_digit"
  by (rule tightI) (auto simp: parse_digit_def Cons_eq_append_conv split: list.splits if_splits)

lemma eats_digit: "eats (\<lambda>p. p \<noteq> []) parse_digit"
  by (rule eats_any) (auto dest!: digit_value)

lemma tight_version: "tight True parse_http_version"
proof (rule tightI)
  fix xs ys x q
  assume run: "parse_http_version (xs @ ys) = PhrOk x (q @ ys)" and q: "True \<longrightarrow> q \<noteq> []"
  then have t: "take 7 (xs @ ys) = ''HTTP/1.''" and d: "parse_digit (drop 7 (xs @ ys)) = PhrOk x (q @ ys)"
    by (auto simp: parse_http_version_def split: if_splits)
  obtain c where c: "drop 7 (xs @ ys) = c # q @ ys" using digit_value [OF d] by blast
  have "length (drop 7 (xs @ ys)) = length (c # q @ ys)" using c by (rule arg_cong)
  moreover have "length q \<noteq> 0" using q by simp
  ultimately have len: "length xs = 8 + length q" by simp
  have xs: "take 7 (xs @ ys) = take 7 xs" "drop 7 (xs @ ys) = drop 7 xs @ ys" using len by simp_all
  have "parse_digit (drop 7 xs) = PhrOk x q" by (rule tightD [OF tight_digit, where ys = ys]) (use d xs in simp_all)
  with t xs len \<open>length q \<noteq> 0\<close> show "parse_http_version xs = PhrOk x q" by (simp add: parse_http_version_def)
qed

lemma tight_space: "tight True skip_space"
proof (rule tightI)
  fix xs ys x q
  assume run: "skip_space (xs @ ys) = PhrOk x (q @ ys)" and q: "True \<longrightarrow> q \<noteq> []"
  then obtain r where r: "xs @ ys = SP # r" "dropWhile (\<lambda>c. c = SP) r = q @ ys"
    by (auto simp: skip_space_def split: list.splits if_splits)
  have "xs \<noteq> []"
  proof
    assume "xs = []"
    then have "length ys = Suc (length r)" using r(1) by simp
    moreover have "length (q @ ys) \<le> length r" unfolding r(2) [symmetric] by (rule length_dropWhile_le)
    ultimately show False by simp
  qed
  then obtain r' where r': "xs = SP # r'" "r = r' @ ys" using r(1) by (cases xs) auto
  then have "dropWhile (\<lambda>c. c = SP) r' = q" using dropWhile_cut(1) [of "\<lambda>c. c = SP" r' ys q] r(2) q by blast
  moreover obtain d q' where "q = d # q'" using q by (metis list.exhaust)
  ultimately show "skip_space xs = PhrOk x q" by (simp add: skip_space_def r'(1))
qed

lemma tight_status: "tight True parse_status"
proof (rule tightI)
  fix xs ys x q
  assume run: "parse_status (xs @ ys) = PhrOk x (q @ ys)" and q: "True \<longrightarrow> q \<noteq> []"
  then have i: "parse_int_3 (xs @ ys) = PhrOk x (q @ ys)" by (auto simp: parse_status_def split: if_splits)
  have rest: "eats (\<lambda>p. True) (\<lambda>r. phr_bind (parse_digit r) (\<lambda>c r. PhrOk (100 * a + 10 * b + 1 * c) r))" for a b
    by (rule eats_bind [OF eats_digit eats_ok]) simp_all
  have rest2: "eats (\<lambda>p. True) (\<lambda>r. phr_bind (parse_digit r) (\<lambda>b r. phr_bind (parse_digit r)
      (\<lambda>c r. PhrOk (100 * a + 10 * b + 1 * c) r)))" for a
    by (rule eats_bind [OF eats_digit rest]) simp_all
  have t: "tight False parse_int_3"
    unfolding parse_int_3_def
    by (intro tight_bind [OF tight_digit] tight_const) (use rest rest2 in \<open>simp_all add: eats_ok [of "\<lambda>p. True"]\<close>)
  have "parse_int_3 xs = PhrOk x q" by (rule tightD [OF t i]) simp
  moreover from this obtain a b c where "xs = a # b # c # q"
    by (auto simp: parse_int_3_def phr_bind_ok dest!: digit_value)
  ultimately show "parse_status xs = PhrOk x q" using q by (cases q) (simp_all add: parse_status_def)
qed

lemma tight_msg: "tight False parse_msg"
  unfolding parse_msg_def
proof (rule tight_bind [OF tight_eol])
  show "tight False (\<lambda>r. if length msg = 0 then PhrOk msg r
       else if hd msg = SP then PhrOk (dropWhile (\<lambda>c. c = SP) msg) r else PhrError)" for msg
    by (cases "length msg = 0"; cases "hd msg = SP") (simp_all add: tight_def)
qed (simp add: eats_def)

lemma eats_parts:
  "eats (\<lambda>p. p \<noteq> []) skip_space" "eats (\<lambda>p. p \<noteq> []) parse_status" "eats (\<lambda>p. p \<noteq> []) parse_msg"
  "eats (\<lambda>p. True) (parse_headers mx num)"
proof -
  show "eats (\<lambda>p. p \<noteq> []) skip_space" by (rule eats_any) (drule eats_space, blast)
  show "eats (\<lambda>p. p \<noteq> []) parse_status" by (rule eats_any) (drule eats_status, blast)
  show "eats (\<lambda>p. p \<noteq> []) parse_msg" by (rule eats_any) (drule eats_msg, unfold line_end_def, blast)
  show "eats (\<lambda>p. True) (parse_headers mx num)" by (rule eats_any) (drule eats_headers, blast)
qed

lemma eats_then: "eats (\<lambda>p. p \<noteq> []) f \<Longrightarrow> (\<And>x. eats Q (k x)) \<Longrightarrow> eats (\<lambda>p. p \<noteq> []) (\<lambda>r. phr_bind (f r) k)"
  by (rule eats_bind [where P = "\<lambda>p. p \<noteq> []" and Q = Q]) simp_all

lemma eats_some: "eats (\<lambda>p. p \<noteq> []) f \<Longrightarrow> eats (\<lambda>p. True \<and> \<not> False \<longrightarrow> p \<noteq> []) f"
  by simp

lemma eats_weak: "eats P f \<Longrightarrow> eats (\<lambda>p. False \<and> \<not> False \<longrightarrow> p \<noteq> []) f"
  by (erule eats_mono) simp

lemma tight_response: "tight False (parse_response mx)"
proof -
  have h: "eats (\<lambda>p. True) (\<lambda>r. phr_bind (parse_headers mx 0 r) (\<lambda>hs r. PhrOk (g hs) r))" for g :: "phr_header list \<Rightarrow> phr_response"
    by (rule eats_bind [OF eats_parts(4) eats_ok]) simp_all
  note m = eats_then [OF eats_parts(3) h]
  note st = eats_then [OF eats_parts(2) m]
  note sp = eats_then [OF eats_parts(1) st]
  have th: "tight False (\<lambda>r. phr_bind (parse_headers mx 0 r) (\<lambda>hs r. PhrOk (g hs) r))" for g :: "phr_header list \<Rightarrow> phr_response"
    by (rule tight_bind [OF tight_headers]) (simp_all add: eats_def)
  note tm = tight_bind [OF tight_msg th eats_weak [OF h]]
  note ts = tight_bind [OF tight_status tm eats_some [OF m]]
  note tp = tight_bind [OF tight_space ts eats_some [OF st]]
  show ?thesis unfolding parse_response_def by (rule tight_bind [OF tight_version tp eats_some [OF sp]])
qed

text \<open>
  The hint of the earlier length is harmless: a head that is accepted without it is accepted with
  it, if what the earlier call saw was not yet a head.
\<close>

lemma hint_harmless:
  assumes ok: "parse_response mx (p @ q) = PhrOk r q" and p: "head_end p" and last: "n < length p"
  shows "phr_parse_response (p @ q) mx n = PhrOk r q"
proof -
  obtain m e where m: "p = m @ LF # e" "e \<in> {[LF], CRLF}" "cr_ok p" using p by (auto simp: head_end_def)
  define k where "k = (if n < 3 then 0 else n - 3)"
  have k: "k \<le> length m" using last m(1,2) by (auto simp: k_def)
  have cut: "cr_ok (drop i xs)" if "cr_ok xs" for i xs
    using that by (induction xs arbitrary: i) (auto simp: drop_Cons' split: if_splits)
  have "drop k p = drop k m @ LF # e" using k m(1) by simp
  then have "cr_ok (drop k m @ LF # e)" using cut [OF m(3), of k] by simp
  from complete_found [OF this m(2), of 0 q]
  obtain q' where "is_complete_loop 0 (drop k (p @ q)) = PhrOk () q'" using k m(1) by auto
  then have "is_complete (p @ q) n = PhrOk () q'" by (simp add: is_complete_def k_def split: if_splits)
  with ok show ?thesis by (simp add: phr_parse_response_def)
qed

text \<open>Before the end of the head has arrived the parser waits, with or without the hint.\<close>

lemma part_waits:
  assumes ok: "parse_response mx (p @ q) = PhrOk r q" and p: "head_end p" and part: "k < length p"
  shows "phr_parse_response (take k p) mx n = PhrIncomplete"
proof -
  have xs: "p @ q = take k p @ drop k p @ q" by simp
  have "parse_response mx (take k p) \<noteq> PhrError"
  proof
    assume "parse_response mx (take k p) = PhrError"
    from steadyD(2) [OF steady_response this, of "drop k p @ q"] ok show False unfolding xs [symmetric] by simp
  qed
  moreover have "parse_response mx (take k p) \<noteq> PhrOk r' q'" for r' q'
  proof
    assume a: "parse_response mx (take k p) = PhrOk r' q'"
    from steadyD(1) [OF steady_response a, of "drop k p @ q"] ok have "q = q' @ drop k p @ q" unfolding xs [symmetric] by simp
    then have "length q = length q' + length (drop k p) + length q" by (metis length_append add.assoc)
    with part show False by simp
  qed
  ultimately have inc: "parse_response mx (take k p) = PhrIncomplete" by (cases "parse_response mx (take k p)") auto
  have "is_complete (take k p) n \<noteq> PhrError"
  proof -
    have cut: "cr_ok (drop i xs)" if "cr_ok xs" for i xs
      using that by (induction xs arbitrary: i) (auto simp: drop_Cons' split: if_splits)
    define i where "i = (if n < 3 then 0 else n - 3)"
    have "cr_ok (drop i p)" using p by (intro cut) (simp add: head_end_def)
    moreover have "drop i (take k p) @ drop (k - i) (drop i p) = drop i p" by (metis append_take_drop_id drop_take)
    ultimately show ?thesis
      using complete_no_error [of "drop i (take k p)" "drop (k - i) (drop i p)" 0] by (simp add: is_complete_def i_def split: if_splits)
  qed
  then show ?thesis using inc by (cases "is_complete (take k p) n") (simp_all add: phr_parse_response_def)
qed

end
