(* ===== verification/Zuh_Chunk.thy ===== *)
theory Zuh_Chunk
  imports Zuh_Pico
begin

text \<open>
  The chunked decoder of \<^verbatim>\<open>src/vendor/picohttpparser/picohttpparser.c\<close>. It rewrites the buffer in
  place: \<open>out\<close> are the bytes before \<^verbatim>\<open>dst\<close>, \<open>rest\<close> those from \<^verbatim>\<open>src\<close> to the end. What lies between
  \<^verbatim>\<open>dst\<close> and \<^verbatim>\<open>src\<close> is not read again, and the moves never reach beyond \<^verbatim>\<open>src\<close>, so these two lists
  determine the run; \<^verbatim>\<open>phr_decode_chunked\<close> puts the buffer together again at the end.
\<close>

section \<open>The decoder\<close>

datatype chunk_state =
    CHUNKED_IN_CHUNK_SIZE
  | CHUNKED_IN_CHUNK_EXT
  | CHUNKED_IN_CHUNK_HEADER_EXPECT_LF
  | CHUNKED_IN_CHUNK_DATA
  | CHUNKED_IN_CHUNK_DATA_EXPECT_CR
  | CHUNKED_IN_CHUNK_DATA_EXPECT_LF
  | CHUNKED_IN_TRAILERS_LINE_HEAD
  | CHUNKED_IN_TRAILERS_LINE_MIDDLE

record phr_chunked_decoder =
  bytes_left_in_chunk :: u64
  consume_trailer :: bool
  hex_count :: nat
  ck_state :: chunk_state
  total_read :: u64
  total_overhead :: u64

text \<open>Why the loop was left: \<^verbatim>\<open>ret\<close> at \<^verbatim>\<open>Exit\<close> (-2 or -1), or the jump to \<^verbatim>\<open>Complete\<close>.\<close>

datatype chunk_exit = CkMore | CkBad | CkComplete

definition decode_hex :: "char \<Rightarrow> u64 option" where
  "decode_hex ch =
     (if cval (CHR ''0'') \<le> cval ch \<and> cval ch \<le> cval (CHR ''9'') then Some (of_nat (cval ch - cval (CHR ''0'')))
      else if cval (CHR ''A'') \<le> cval ch \<and> cval ch \<le> cval (CHR ''F'') then Some (of_nat (cval ch - cval (CHR ''A'') + 10))
      else if cval (CHR ''a'') \<le> cval ch \<and> cval ch \<le> cval (CHR ''f'') then Some (of_nat (cval ch - cval (CHR ''a'') + 10))
      else None)"

text \<open>
  The work of one state, up to the next turn of the switch or its fall into the next case, which
  has set the state first: the exit if there is one, the decoder, the bytes moved to \<^verbatim>\<open>dst\<close> and
  the bytes left.
\<close>

type_synonym chunk_turn = "chunk_exit option \<times> phr_chunked_decoder \<times> bytes \<times> bytes"

fun size_loop :: "phr_chunked_decoder \<Rightarrow> bytes \<Rightarrow> chunk_turn" where
  "size_loop d [] = (Some CkMore, d, [], [])"
| "size_loop d (c # r) =
     (case decode_hex c of
        None \<Rightarrow>
          if hex_count d = 0 then (Some CkBad, d, [], c # r)
          else if c \<in> {SP, HTAB, CHR '';'', LF, CR}
          then (None, d\<lparr>hex_count := 0, ck_state := CHUNKED_IN_CHUNK_EXT\<rparr>, [], c # r)
          else (Some CkBad, d, [], c # r)
      | Some v \<Rightarrow>
          if hex_count d = 16 then (Some CkBad, d, [], c # r)
          else size_loop (d\<lparr>bytes_left_in_chunk := bytes_left_in_chunk d * 16 + v, hex_count := hex_count d + 1\<rparr>) r)"

fun ext_loop :: "phr_chunked_decoder \<Rightarrow> bytes \<Rightarrow> chunk_turn" where
  "ext_loop d [] = (Some CkMore, d, [], [])"
| "ext_loop d (c # r) =
     (if c = CR then (None, d\<lparr>ck_state := CHUNKED_IN_CHUNK_HEADER_EXPECT_LF\<rparr>, [], r)
      else if c = LF then (Some CkBad, d, [], c # r)
      else ext_loop d r)"

definition header_lf :: "phr_chunked_decoder \<Rightarrow> bytes \<Rightarrow> chunk_turn" where
  "header_lf d rest =
     (case rest of
        [] \<Rightarrow> (Some CkMore, d, [], [])
      | c # r \<Rightarrow>
          if c \<noteq> LF then (Some CkBad, d, [], c # r)
          else if bytes_left_in_chunk d = 0 then
            (if consume_trailer d then (None, d\<lparr>ck_state := CHUNKED_IN_TRAILERS_LINE_HEAD\<rparr>, [], r)
             else (Some CkComplete, d, [], r))
          else (None, d\<lparr>ck_state := CHUNKED_IN_CHUNK_DATA\<rparr>, [], r))"

definition chunk_data :: "phr_chunked_decoder \<Rightarrow> bytes \<Rightarrow> chunk_turn" where
  "chunk_data d rest =
     (if length rest < unat (bytes_left_in_chunk d) then
        (Some CkMore, d\<lparr>bytes_left_in_chunk := bytes_left_in_chunk d - of_nat (length rest)\<rparr>, rest, [])
      else
        (None, d\<lparr>bytes_left_in_chunk := 0, ck_state := CHUNKED_IN_CHUNK_DATA_EXPECT_CR\<rparr>,
         take (unat (bytes_left_in_chunk d)) rest, drop (unat (bytes_left_in_chunk d)) rest))"

definition expect_byte :: "char \<Rightarrow> chunk_state \<Rightarrow> phr_chunked_decoder \<Rightarrow> bytes \<Rightarrow> chunk_turn" where
  "expect_byte ch st d rest =
     (case rest of
        [] \<Rightarrow> (Some CkMore, d, [], [])
      | c # r \<Rightarrow> if c \<noteq> ch then (Some CkBad, d, [], c # r) else (None, d\<lparr>ck_state := st\<rparr>, [], r))"

definition trailer_head :: "phr_chunked_decoder \<Rightarrow> bytes \<Rightarrow> chunk_turn" where
  "trailer_head d rest =
     (case dropWhile (\<lambda>c. c = CR) rest of
        [] \<Rightarrow> (Some CkMore, d, [], [])
      | c # r \<Rightarrow>
          if c = LF then (Some CkComplete, d, [], r)
          else (None, d\<lparr>ck_state := CHUNKED_IN_TRAILERS_LINE_MIDDLE\<rparr>, [], r))"

definition trailer_middle :: "phr_chunked_decoder \<Rightarrow> bytes \<Rightarrow> chunk_turn" where
  "trailer_middle d rest =
     (case dropWhile (\<lambda>c. c \<noteq> LF) rest of
        [] \<Rightarrow> (Some CkMore, d, [], [])
      | c # r \<Rightarrow> (None, d\<lparr>ck_state := CHUNKED_IN_TRAILERS_LINE_HEAD\<rparr>, [], r))"

definition chunk_step :: "phr_chunked_decoder \<Rightarrow> bytes \<Rightarrow> chunk_turn" where
  "chunk_step d rest =
     (case ck_state d of
        CHUNKED_IN_CHUNK_SIZE \<Rightarrow> size_loop d rest
      | CHUNKED_IN_CHUNK_EXT \<Rightarrow> ext_loop d rest
      | CHUNKED_IN_CHUNK_HEADER_EXPECT_LF \<Rightarrow> header_lf d rest
      | CHUNKED_IN_CHUNK_DATA \<Rightarrow> chunk_data d rest
      | CHUNKED_IN_CHUNK_DATA_EXPECT_CR \<Rightarrow> expect_byte CR CHUNKED_IN_CHUNK_DATA_EXPECT_LF d rest
      | CHUNKED_IN_CHUNK_DATA_EXPECT_LF \<Rightarrow> expect_byte LF CHUNKED_IN_CHUNK_SIZE d rest
      | CHUNKED_IN_TRAILERS_LINE_HEAD \<Rightarrow> trailer_head d rest
      | CHUNKED_IN_TRAILERS_LINE_MIDDLE \<Rightarrow> trailer_middle d rest)"

text \<open>Each turn consumes a byte, except that a size can end, and data can be complete, where it stands.\<close>

definition chunk_rank :: "phr_chunked_decoder \<Rightarrow> nat" where
  "chunk_rank d = (if ck_state d \<in> {CHUNKED_IN_CHUNK_SIZE, CHUNKED_IN_CHUNK_DATA} then 1 else 0)"

lemma size_loop_next: "size_loop d rest = (None, d', out, rest') \<Longrightarrow>
    length rest' \<le> length rest \<and> ck_state d' = CHUNKED_IN_CHUNK_EXT"
  by (induction d rest rule: size_loop.induct) (fastforce split: option.splits if_splits)+

lemma ext_loop_next: "ext_loop d rest = (None, d', out, rest') \<Longrightarrow> length rest' < length rest"
  by (induction d rest rule: ext_loop.induct) (fastforce split: if_splits)+

lemma dropWhile_shorter: "dropWhile P xs = c # r \<Longrightarrow> length r < length xs"
  using length_dropWhile_le [of P xs] by simp

lemma chunk_step_next:
  "chunk_step d rest = (None, d', out, rest') \<Longrightarrow>
   2 * length rest' + chunk_rank d' < 2 * length rest + chunk_rank d"
  by (cases "ck_state d")
    (auto simp: chunk_step_def header_lf_def chunk_data_def expect_byte_def trailer_head_def trailer_middle_def
      chunk_rank_def split: list.splits if_splits
      dest!: size_loop_next ext_loop_next dropWhile_shorter)

function chunk_run :: "phr_chunked_decoder \<Rightarrow> bytes \<Rightarrow> bytes \<Rightarrow> chunk_exit \<times> phr_chunked_decoder \<times> bytes \<times> bytes" where
  "chunk_run d out rest =
     (case chunk_step d rest of
        (Some x, d', moved, rest') \<Rightarrow> (x, d', out @ moved, rest')
      | (None, d', moved, rest') \<Rightarrow> chunk_run d' (out @ moved) rest')"
  by pat_completeness auto
termination
  by (relation "measure (\<lambda>(d, out, rest). 2 * length rest + chunk_rank d)") (auto dest!: sym [of "(None, _)"] chunk_step_next)

declare chunk_run.simps [simp del]

text \<open>
  The return value, the decoder, \<^verbatim>\<open>*_bufsz\<close> and the buffer: the decoded bytes, the bytes left, and
  the old end of the buffer, which the last move leaves where it was.
\<close>

definition phr_decode_chunked ::
    "phr_chunked_decoder \<Rightarrow> bytes \<Rightarrow> int \<times> phr_chunked_decoder \<times> nat \<times> bytes" where
  "phr_decode_chunked d buf =
     (let d = d\<lparr>total_read := total_read d + of_nat (length buf)\<rparr> in
      case chunk_run d [] buf of (x, d, out, rest) \<Rightarrow>
      let ret = (case x of CkComplete \<Rightarrow> int (length rest) | CkMore \<Rightarrow> -2 | CkBad \<Rightarrow> -1);
          buf' = out @ rest @ drop (length out + length rest) buf in
      if ret = -2 then
        (let d = d\<lparr>total_overhead := total_overhead d + of_nat (length buf - length out)\<rparr> in
         (if total_overhead d \<ge> 100 * 1024 \<and> total_read d - total_overhead d < total_read d div 4 then -1 else ret,
          d, length out, buf'))
      else (ret, d, length out, buf'))"

section \<open>Input in pieces\<close>

text \<open>A decoder that waits has read everything; what arrives next continues where it stopped.\<close>

definition goes_on :: "chunk_turn \<Rightarrow> (phr_chunked_decoder \<Rightarrow> chunk_turn) \<Rightarrow> bytes \<Rightarrow> chunk_turn" where
  "goes_on s f ys =
     (case s of (x, d', m, r) \<Rightarrow>
        if x = Some CkMore then (case f d' of (x2, d2, m2, r2) \<Rightarrow> (x2, d2, m @ m2, r2)) else (x, d', m, r @ ys))"

lemma size_loop_more:
  "size_loop d (xs @ ys) = goes_on (size_loop d xs) (\<lambda>d'. size_loop d' ys) ys
   \<and> (fst (size_loop d xs) = Some CkMore \<longrightarrow> ck_state (fst (snd (size_loop d xs))) = ck_state d \<and> snd (snd (snd (size_loop d xs))) = [])"
proof (induction d xs rule: size_loop.induct)
  case (1 d)
  show ?case by (cases "size_loop d ys") (simp add: goes_on_def)
next
  case (2 d c r)
  show ?case
  proof (cases "decode_hex c")
    case None
    then show ?thesis by (simp add: goes_on_def)
  next
    case (Some v)
    show ?thesis
    proof (cases "hex_count d = 16")
      case True
      with Some show ?thesis by (simp add: goes_on_def)
    next
      case False
      from 2 [OF Some False] Some False show ?thesis by simp
    qed
  qed
qed

lemma ext_loop_more:
  "ext_loop d (xs @ ys) = goes_on (ext_loop d xs) (\<lambda>d'. ext_loop d' ys) ys
   \<and> (fst (ext_loop d xs) = Some CkMore \<longrightarrow> fst (snd (ext_loop d xs)) = d \<and> snd (snd (snd (ext_loop d xs))) = [])"
proof (induction d xs rule: ext_loop.induct)
  case (1 d)
  show ?case by (cases "ext_loop d ys") (simp add: goes_on_def)
next
  case (2 d c r)
  then show ?case by (auto simp: goes_on_def)
qed

lemma chunk_data_more:
  assumes "chunk_data d xs = (x, d', m, r)" "ck_state d = CHUNKED_IN_CHUNK_DATA"
  shows "chunk_data d (xs @ ys) = goes_on (x, d', m, r) (\<lambda>d'. chunk_data d' ys) ys
    \<and> (x = Some CkMore \<longrightarrow> ck_state d' = ck_state d \<and> r = [])"
proof (cases "length xs < unat (bytes_left_in_chunk d)")
  case True
  let ?left = "bytes_left_in_chunk d"
  have l: "unat (?left - of_nat (length xs)) = unat ?left - length xs"
  proof -
    have "length xs < 2 ^ 64" using True unsigned_less [of ?left, where ?'a = nat] by simp
    then have "unat (of_nat (length xs) :: u64) = length xs" by (simp add: unat_of_nat take_bit_nat_eq_self)
    then show ?thesis using True unat_sub [of "of_nat (length xs)" ?left] by (simp add: word_le_nat_alt)
  qed
  have res: "x = Some CkMore" "m = xs" "r = []" "d' = d\<lparr>bytes_left_in_chunk := ?left - of_nat (length xs)\<rparr>"
    using assms(1) True by (auto simp: chunk_data_def)
  show ?thesis
  proof (cases "length xs + length ys < unat ?left")
    case More: True
    then show ?thesis using res True l assms(2) by (auto simp: chunk_data_def goes_on_def)
  next
    case False
    then show ?thesis using res True l assms(2) by (auto simp: chunk_data_def goes_on_def)
  qed
next
  case False
  then show ?thesis using assms by (auto simp: chunk_data_def goes_on_def)
qed

lemma dropWhile_none: "dropWhile P xs = [] \<Longrightarrow> dropWhile P (xs @ ys) = dropWhile P ys"
  by (induction xs) (auto split: if_splits)

lemma trailer_more:
  "trailer_head d (xs @ ys) = goes_on (trailer_head d xs) (\<lambda>d'. trailer_head d' ys) ys"
  "trailer_middle d (xs @ ys) = goes_on (trailer_middle d xs) (\<lambda>d'. trailer_middle d' ys) ys"
proof -
  show "trailer_head d (xs @ ys) = goes_on (trailer_head d xs) (\<lambda>d'. trailer_head d' ys) ys"
  proof (cases "dropWhile (\<lambda>c. c = CR) xs")
    case Nil
    show ?thesis unfolding trailer_head_def dropWhile_none [OF Nil] Nil by (simp add: goes_on_def split: list.split)
  next
    case (Cons c r)
    show ?thesis unfolding trailer_head_def conjunct1 [OF dropWhile_more [OF Cons]] Cons by (simp add: goes_on_def)
  qed
  show "trailer_middle d (xs @ ys) = goes_on (trailer_middle d xs) (\<lambda>d'. trailer_middle d' ys) ys"
  proof (cases "dropWhile (\<lambda>c. c \<noteq> LF) xs")
    case Nil
    show ?thesis unfolding trailer_middle_def dropWhile_none [OF Nil] Nil by (simp add: goes_on_def split: list.split)
  next
    case (Cons c r)
    show ?thesis unfolding trailer_middle_def conjunct1 [OF dropWhile_more [OF Cons]] Cons by (simp add: goes_on_def)
  qed
qed

lemma trailer_stays:
  "trailer_head d xs = (Some CkMore, d', m, r) \<Longrightarrow> d' = d \<and> r = []"
  "trailer_middle d xs = (Some CkMore, d', m, r) \<Longrightarrow> d' = d \<and> r = []"
  by (auto simp: trailer_head_def trailer_middle_def split: list.splits if_splits)

lemma goes_on_Nil: "goes_on (Some CkMore, d, [], []) f ys = f d"
  by (simp add: goes_on_def split: prod.split)

lemma header_lf_more: "header_lf d (xs @ ys) = goes_on (header_lf d xs) (\<lambda>d'. header_lf d' ys) ys"
  by (cases xs) (simp_all add: header_lf_def goes_on_Nil, simp add: goes_on_def)

lemma expect_more: "expect_byte ch st d (xs @ ys) = goes_on (expect_byte ch st d xs) (\<lambda>d'. expect_byte ch st d' ys) ys"
  by (cases xs) (simp_all add: expect_byte_def goes_on_Nil, simp add: goes_on_def)

lemma waits_stays:
  "header_lf d xs = (Some CkMore, d', m, r) \<Longrightarrow> d' = d \<and> r = []"
  "expect_byte ch st d xs = (Some CkMore, d', m, r) \<Longrightarrow> d' = d \<and> r = []"
  by (auto simp: header_lf_def expect_byte_def split: list.splits if_splits)

lemma chunk_step_waits:
  assumes "chunk_step d xs = (Some CkMore, d', m, r)"
  shows "ck_state d' = ck_state d \<and> r = []"
  using assms size_loop_more [of d xs "[]"] ext_loop_more [of d xs "[]"]
  by (cases "ck_state d")
    (auto simp: chunk_step_def chunk_data_def split: if_splits dest: waits_stays trailer_stays)

lemma chunk_step_more: "chunk_step d (xs @ ys) = goes_on (chunk_step d xs) (\<lambda>d'. chunk_step d' ys) ys"
proof -
  obtain x d' m r where s: "chunk_step d xs = (x, d', m, r)" by (rule prod_cases4)
  have same: "x = Some CkMore \<Longrightarrow> ck_state d' = ck_state d" using chunk_step_waits s by blast
  have "chunk_step d (xs @ ys) = goes_on (x, d', m, r) (\<lambda>d2. chunk_step d2 ys) ys"
    using s same
  proof (cases "ck_state d")
    case CHUNKED_IN_CHUNK_SIZE
    then show ?thesis using s same size_loop_more [of d xs ys] by (auto simp: chunk_step_def goes_on_def)
  next
    case CHUNKED_IN_CHUNK_EXT
    then show ?thesis using s same ext_loop_more [of d xs ys] by (auto simp: chunk_step_def goes_on_def)
  next
    case CHUNKED_IN_CHUNK_HEADER_EXPECT_LF
    then show ?thesis using s same header_lf_more [of d xs ys] by (auto simp: chunk_step_def goes_on_def)
  next
    case CHUNKED_IN_CHUNK_DATA
    then show ?thesis using s same chunk_data_more [of d xs x d' m r ys] by (auto simp: chunk_step_def goes_on_def)
  next
    case CHUNKED_IN_CHUNK_DATA_EXPECT_CR
    then show ?thesis using s same expect_more [of _ _ d xs ys] by (auto simp: chunk_step_def goes_on_def)
  next
    case CHUNKED_IN_CHUNK_DATA_EXPECT_LF
    then show ?thesis using s same expect_more [of _ _ d xs ys] by (auto simp: chunk_step_def goes_on_def)
  next
    case CHUNKED_IN_TRAILERS_LINE_HEAD
    then show ?thesis using s same trailer_more [of d xs ys] by (auto simp: chunk_step_def goes_on_def)
  next
    case CHUNKED_IN_TRAILERS_LINE_MIDDLE
    then show ?thesis using s same trailer_more [of d xs ys] by (auto simp: chunk_step_def goes_on_def)
  qed
  then show ?thesis by (simp add: s)
qed

lemma chunk_run_more:
  "chunk_run d out (xs @ ys) =
     (case chunk_run d out xs of (x, d', o', r) \<Rightarrow> if x = CkMore then chunk_run d' o' ys else (x, d', o', r @ ys))
   \<and> (fst (chunk_run d out xs) = CkMore \<longrightarrow> snd (snd (snd (chunk_run d out xs))) = [])"
proof (induction d out xs rule: chunk_run.induct)
  case (1 d out xs)
  obtain x d' m r where s: "chunk_step d xs = (x, d', m, r)" by (rule prod_cases4)
  obtain x2 d2 m2 r2 where s2: "chunk_step d' ys = (x2, d2, m2, r2)" by (rule prod_cases4)
  show ?case
  proof (cases x)
    case None
    have "chunk_run d out (xs @ ys) = chunk_run d' (out @ m) (r @ ys)"
      using chunk_step_more [of d xs ys] s None by (subst chunk_run.simps) (simp add: goes_on_def)
    moreover have "chunk_run d out xs = chunk_run d' (out @ m) r"
      using s None by (subst chunk_run.simps) simp
    ultimately show ?thesis using 1 [OF s [symmetric]] None by simp
  next
    case (Some y)
    have e: "chunk_run d out xs = (y, d', out @ m, r)" using s Some by (subst chunk_run.simps) simp
    show ?thesis
    proof (cases "y = CkMore")
      case True
      have "chunk_run d out (xs @ ys) = (case (x2, d2, m @ m2, r2) of
          (Some x, d', moved, rest') \<Rightarrow> (x, d', out @ moved, rest')
        | (None, d', moved, rest') \<Rightarrow> chunk_run d' (out @ moved) rest')"
        using chunk_step_more [of d xs ys] s Some True s2 by (subst chunk_run.simps) (simp add: goes_on_def)
      moreover have "chunk_run d' (out @ m) ys = (case (x2, d2, m2, r2) of
          (Some x, d', moved, rest') \<Rightarrow> (x, d', (out @ m) @ moved, rest')
        | (None, d', moved, rest') \<Rightarrow> chunk_run d' ((out @ m) @ moved) rest')"
        using s2 by (subst chunk_run.simps) simp
      ultimately show ?thesis using e True chunk_step_waits [of d xs d' m r] s Some by (cases x2) simp_all
    next
      case False
      then have "chunk_run d out (xs @ ys) = (y, d', out @ m, r @ ys)"
        using chunk_step_more [of d xs ys] s Some by (subst chunk_run.simps) (simp add: goes_on_def)
      with e False show ?thesis by simp
    qed
  qed
qed

text \<open>What is decoded never exceeds what was read.\<close>

lemma chunk_step_size: "chunk_step d xs = (x, d', m, r) \<Longrightarrow> length m + length r \<le> length xs"
proof -
  have size: "length (fst (snd (snd (size_loop d xs)))) + length (snd (snd (snd (size_loop d xs)))) \<le> length xs" for d xs
    by (induction d xs rule: size_loop.induct) (auto split: option.split intro: le_SucI)
  have ext: "length (fst (snd (snd (ext_loop d xs)))) + length (snd (snd (snd (ext_loop d xs)))) \<le> length xs" for d xs
    by (induction d xs rule: ext_loop.induct) (auto intro: le_SucI)
  assume "chunk_step d xs = (x, d', m, r)"
  then show ?thesis
    using size [of d xs] ext [of d xs]
    by (cases "ck_state d")
      (auto simp: chunk_step_def header_lf_def chunk_data_def expect_byte_def trailer_head_def trailer_middle_def
        split: list.splits if_splits dest!: dropWhile_shorter)
qed

lemma chunk_run_size: "chunk_run d out xs = (x, d', o', r) \<Longrightarrow> length o' + length r \<le> length out + length xs"
proof (induction d out xs rule: chunk_run.induct)
  case (1 d out xs)
  obtain x1 d1 m1 r1 where s: "chunk_step d xs = (x1, d1, m1, r1)" by (rule prod_cases4)
  note size = chunk_step_size [OF s]
  show ?case
  proof (cases x1)
    case None
    have run: "chunk_run d1 (out @ m1) r1 = (x, d', o', r)" using 1(2) s None by (subst (asm) chunk_run.simps) simp
    have "length o' + length r \<le> length (out @ m1) + length r1" by (rule 1(1) [OF s [symmetric] None refl refl run])
    with size show ?thesis by simp
  next
    case (Some y)
    then have "o' = out @ m1" "r = r1" using 1(2) s by (simp_all add: chunk_run.simps [of d out xs])
    with size show ?thesis by simp
  qed
qed

section \<open>Chunks\<close>

text \<open>
  A chunk as RFC 9112 writes it: its size in up to sixteen hexadecimal digits, an extension, which
  is empty or starts with a blank or a semicolon and contains no line break, its data.
\<close>

fun hex_value :: "nat \<Rightarrow> bytes \<Rightarrow> nat" where
  "hex_value v [] = v"
| "hex_value v (c # cs) = hex_value (v * 16 + unat (the (decode_hex c))) cs"

record chunk =
  ch_size :: bytes
  ch_ext :: bytes
  ch_data :: bytes

definition chunk_ok :: "chunk \<Rightarrow> bool" where
  "chunk_ok c \<longleftrightarrow> list_all (\<lambda>x. decode_hex x \<noteq> None) (ch_size c) \<and> ch_size c \<noteq> [] \<and> length (ch_size c) \<le> 16
     \<and> hex_value 0 (ch_size c) = length (ch_data c) \<and> length (ch_data c) < 2 ^ 64
     \<and> CR \<notin> set (ch_ext c) \<and> LF \<notin> set (ch_ext c)
     \<and> (ch_ext c = [] \<or> hd (ch_ext c) \<in> {SP, HTAB, CHR '';''})"

definition chunk_head :: "chunk \<Rightarrow> bytes" where
  "chunk_head c = ch_size c @ ch_ext c @ CRLF"

definition chunk_wire :: "chunk \<Rightarrow> bytes" where
  "chunk_wire c = chunk_head c @ ch_data c @ CRLF"

definition body_wire :: "chunk list \<Rightarrow> chunk \<Rightarrow> bytes" where
  "body_wire cs end = concat (map chunk_wire cs) @ chunk_head end"

lemma size_loop_digits:
  assumes "list_all (\<lambda>x. decode_hex x \<noteq> None) t" "hex_count d + length t \<le> 16" "0 < hex_count d + length t"
    "decode_hex c = None" "c \<in> {SP, HTAB, CHR '';'', LF, CR}"
    "bytes_left_in_chunk d = of_nat v"
  shows "size_loop d (t @ c # r) =
    (None, d\<lparr>bytes_left_in_chunk := of_nat (hex_value v t), hex_count := 0, ck_state := CHUNKED_IN_CHUNK_EXT\<rparr>, [], c # r)"
  using assms
proof (induction t arbitrary: d v)
  case Nil
  then show ?case by simp
next
  case (Cons x t)
  then obtain n where n: "decode_hex x = Some n" by auto
  let ?d = "d\<lparr>bytes_left_in_chunk := bytes_left_in_chunk d * 16 + n, hex_count := hex_count d + 1\<rparr>"
  have "size_loop ?d (t @ c # r) = (None, ?d\<lparr>bytes_left_in_chunk := of_nat (hex_value (v * 16 + unat n) t), hex_count := 0,
      ck_state := CHUNKED_IN_CHUNK_EXT\<rparr>, [], c # r)"
    by (rule Cons.IH) (use Cons.prems in \<open>simp_all add: algebra_simps\<close>)
  with n Cons.prems(2) show ?case by simp
qed

lemma ext_loop_skip: "CR \<notin> set e \<Longrightarrow> LF \<notin> set e \<Longrightarrow>
    ext_loop d (e @ CR # r) = (None, d\<lparr>ck_state := CHUNKED_IN_CHUNK_HEADER_EXPECT_LF\<rparr>, [], r)"
  by (induction e) auto

lemma decode_hex_delim: "c \<in> {SP, HTAB, CHR '';'', LF, CR} \<Longrightarrow> decode_hex c = None"
  by (auto simp: decode_hex_def)

text \<open>A decoder between chunks.\<close>

definition between :: "phr_chunked_decoder \<Rightarrow> bool" where
  "between d \<longleftrightarrow> bytes_left_in_chunk d = 0 \<and> \<not> consume_trailer d \<and> hex_count d = 0 \<and> ck_state d = CHUNKED_IN_CHUNK_SIZE"

lemma run_head:
  assumes "chunk_ok c" "between d"
  shows "chunk_run d out (chunk_head c @ r) =
    chunk_run (d\<lparr>bytes_left_in_chunk := of_nat (length (ch_data c)), ck_state := CHUNKED_IN_CHUNK_HEADER_EXPECT_LF\<rparr>) out (LF # r)"
proof -
  obtain x e where e: "ch_ext c @ CR # LF # r = x # e" "x \<in> {SP, HTAB, CHR '';'', LF, CR}"
    using assms(1) by (cases "ch_ext c") (auto simp: chunk_ok_def)
  let ?d1 = "d\<lparr>bytes_left_in_chunk := of_nat (length (ch_data c)), hex_count := 0, ck_state := CHUNKED_IN_CHUNK_EXT\<rparr>"
  have "size_loop d (ch_size c @ x # e) = (None, ?d1, [], x # e)"
    using size_loop_digits [of "ch_size c" d x 0 e] assms decode_hex_delim [OF e(2)] e(2) by (simp add: chunk_ok_def between_def)
  then have "chunk_step d (chunk_head c @ r) = (None, ?d1, [], ch_ext c @ CR # LF # r)"
    using assms(2) e(1) by (simp add: chunk_step_def between_def chunk_head_def)
  then have "chunk_run d out (chunk_head c @ r) = chunk_run ?d1 out (ch_ext c @ CR # LF # r)"
    by (subst chunk_run.simps) simp
  also have "\<dots> = chunk_run (?d1\<lparr>ck_state := CHUNKED_IN_CHUNK_HEADER_EXPECT_LF\<rparr>) out (LF # r)"
    using ext_loop_skip [of "ch_ext c" ?d1 "LF # r"] assms(1)
    by (subst chunk_run.simps) (simp add: chunk_step_def chunk_ok_def)
  finally show ?thesis using assms(2) by (cases d) (simp add: between_def)
qed

lemma run_chunk:
  assumes "chunk_ok c" "between d" "ch_data c \<noteq> []"
  shows "chunk_run d out (chunk_wire c @ r) = chunk_run d (out @ ch_data c) r"
proof -
  let ?n = "of_nat (length (ch_data c)) :: u64"
  have n: "unat ?n = length (ch_data c)" using assms(1) by (simp add: chunk_ok_def unat_of_nat take_bit_nat_eq_self)
  then have n0: "?n \<noteq> 0" using assms(3) by (metis length_0_conv unsigned_0)
  let ?d1 = "d\<lparr>bytes_left_in_chunk := ?n, ck_state := CHUNKED_IN_CHUNK_DATA\<rparr>"
  have "chunk_run d out (chunk_wire c @ r) = chunk_run ?d1 out (ch_data c @ CRLF @ r)"
    using run_head [OF assms(1,2), of out "ch_data c @ CRLF @ r"] n0
    by (subst (asm) (2) chunk_run.simps) (simp add: chunk_step_def header_lf_def chunk_wire_def)
  also have "\<dots> = chunk_run (d\<lparr>ck_state := CHUNKED_IN_CHUNK_DATA_EXPECT_CR\<rparr>) (out @ ch_data c) (CRLF @ r)"
    using n assms(2) by (subst chunk_run.simps) (cases d, simp add: chunk_step_def chunk_data_def between_def)
  also have "\<dots> = chunk_run (d\<lparr>ck_state := CHUNKED_IN_CHUNK_DATA_EXPECT_LF\<rparr>) (out @ ch_data c) (LF # r)"
    by (subst chunk_run.simps) (simp add: chunk_step_def expect_byte_def)
  also have "\<dots> = chunk_run d (out @ ch_data c) r"
    using assms(2) by (subst chunk_run.simps) (cases d, simp add: chunk_step_def expect_byte_def between_def)
  finally show ?thesis .
qed

lemma run_last:
  assumes "chunk_ok c" "between d" "ch_data c = []"
  shows "\<exists>d'. chunk_run d out (chunk_head c @ r) = (CkComplete, d', out, r)"
proof -
  show ?thesis
    unfolding run_head [OF assms(1,2)]
    by (subst chunk_run.simps) (use assms(2,3) in \<open>simp add: chunk_step_def header_lf_def between_def\<close>)
qed

lemma run_body:
  assumes "list_all (\<lambda>c. chunk_ok c \<and> ch_data c \<noteq> []) cs" "chunk_ok end" "ch_data end = []" "between d"
  shows "\<exists>d'. chunk_run d out (body_wire cs end @ r) = (CkComplete, d', out @ concat (map ch_data cs), r)"
  using assms(1)
proof (induction cs arbitrary: out)
  case Nil
  with run_last [OF assms(2,4,3)] show ?case by (simp add: body_wire_def)
next
  case (Cons c cs)
  then have "chunk_run d out (body_wire (c # cs) end @ r) = chunk_run d (out @ ch_data c) (body_wire cs end @ r)"
    using run_chunk [of c d out] assms(4) by (simp add: body_wire_def)
  with Cons.IH [of "out @ ch_data c"] Cons.prems show ?case by simp
qed

section \<open>Counters and output\<close>

text \<open>The two counters do not take part in the run, nor do the bytes already decoded.\<close>

definition counted :: "u64 \<Rightarrow> u64 \<Rightarrow> phr_chunked_decoder \<Rightarrow> phr_chunked_decoder" where
  "counted a b d = d\<lparr>total_read := a, total_overhead := b\<rparr>"

lemma counted_simps [simp]:
  "bytes_left_in_chunk (counted a b d) = bytes_left_in_chunk d" "consume_trailer (counted a b d) = consume_trailer d"
  "hex_count (counted a b d) = hex_count d" "ck_state (counted a b d) = ck_state d"
  "total_read (counted a b d) = a" "total_overhead (counted a b d) = b"
  "counted a b (counted a' b' d) = counted a b d"
  by (simp_all add: counted_def)

lemma counted_updates [simp]:
  "(counted a b d)\<lparr>bytes_left_in_chunk := x\<rparr> = counted a b (d\<lparr>bytes_left_in_chunk := x\<rparr>)"
  "(counted a b d)\<lparr>hex_count := n\<rparr> = counted a b (d\<lparr>hex_count := n\<rparr>)"
  "(counted a b d)\<lparr>ck_state := s\<rparr> = counted a b (d\<lparr>ck_state := s\<rparr>)"
  by (simp_all add: counted_def)

lemma counted_self: "counted (total_read d) (total_overhead d) d = d"
  by (simp add: counted_def)

lemma size_loop_counted: "size_loop (counted a b d) xs = (case size_loop d xs of (x, d', m, r) \<Rightarrow> (x, counted a b d', m, r))"
proof (induction d xs rule: size_loop.induct)
  case (2 d c r)
  show ?case
  proof (cases "decode_hex c")
    case (Some v)
    then show ?thesis using 2 [OF Some] by (cases "hex_count d = 16") simp_all
  qed simp
qed simp

lemma ext_loop_counted: "ext_loop (counted a b d) xs = (case ext_loop d xs of (x, d', m, r) \<Rightarrow> (x, counted a b d', m, r))"
  by (induction d xs rule: ext_loop.induct) simp_all

lemma trailer_counted:
  "trailer_head (counted a b d) xs = (case trailer_head d xs of (x, d', m, r) \<Rightarrow> (x, counted a b d', m, r))"
  "trailer_middle (counted a b d) xs = (case trailer_middle d xs of (x, d', m, r) \<Rightarrow> (x, counted a b d', m, r))"
proof -
  show "trailer_head (counted a b d) xs = (case trailer_head d xs of (x, d', m, r) \<Rightarrow> (x, counted a b d', m, r))"
  proof (cases "dropWhile (\<lambda>c. c = CR) xs")
    case Nil
    show ?thesis unfolding trailer_head_def Nil by simp
  next
    case (Cons c r)
    show ?thesis unfolding trailer_head_def Cons by simp
  qed
  show "trailer_middle (counted a b d) xs = (case trailer_middle d xs of (x, d', m, r) \<Rightarrow> (x, counted a b d', m, r))"
    by (cases "dropWhile (\<lambda>c. c \<noteq> LF) xs") (simp_all only: trailer_middle_def list.case prod.case counted_updates simp_thms)
qed

lemma chunk_step_counted:
  "chunk_step (counted a b d) xs = (case chunk_step d xs of (x, d', m, r) \<Rightarrow> (x, counted a b d', m, r))"
  by (cases "ck_state d")
    (simp_all add: chunk_step_def size_loop_counted ext_loop_counted header_lf_def chunk_data_def expect_byte_def
      trailer_counted split: list.split)

lemma chunk_run_counted:
  "chunk_run (counted a b d) (pre @ out) xs = (case chunk_run d out xs of (x, d', o', r) \<Rightarrow> (x, counted a b d', pre @ o', r))"
proof (induction d out xs rule: chunk_run.induct)
  case (1 d out xs)
  obtain x d' m r where s: "chunk_step d xs = (x, d', m, r)" by (rule prod_cases4)
  show ?case
  proof (cases x)
    case None
    have "chunk_run (counted a b d) (pre @ out) xs = chunk_run (counted a b d') (pre @ out @ m) r"
      using s None by (subst chunk_run.simps) (simp add: chunk_step_counted)
    moreover have "chunk_run d out xs = chunk_run d' (out @ m) r" using s None by (subst chunk_run.simps) simp
    ultimately show ?thesis using 1 [OF s [symmetric] None refl refl] by simp
  next
    case (Some y)
    then show ?thesis using s
      by (simp add: chunk_run.simps [of d out xs] chunk_run.simps [of "counted a b d" "pre @ out" xs] chunk_step_counted)
  qed
qed

text \<open>One call of the decoder, as a step of the run over everything that will arrive.\<close>

lemma decode_piece:
  assumes run: "chunk_run d [] (w @ later) = (CkComplete, d', body, Y)"
    and over: "unat (total_overhead d) + (length (w @ later) - (length body + length Y)) < 102400"
  shows "(\<exists>d1 o1 b2. phr_decode_chunked d w = (-2, d1, length o1, o1 @ drop (length o1) w) \<and> body = o1 @ b2
        \<and> (\<exists>d2. chunk_run d1 [] later = (CkComplete, d2, b2, Y))
        \<and> unat (total_overhead d1) + (length later - (length b2 + length Y)) < 102400)
    \<or> (\<exists>d1 r1 buf. phr_decode_chunked d w = (int (length r1), d1, length body, buf) \<and> take (length body) buf = body
        \<and> take (length r1) (drop (length body) buf) = r1 \<and> r1 @ later = Y)"
proof -
  define dr where "dr = d\<lparr>total_read := total_read d + of_nat (length w)\<rparr>"
  have dr: "dr = counted (total_read d + of_nat (length w)) (total_overhead d) d" by (simp add: dr_def counted_def)
  obtain x d1 o1 r1 where w: "chunk_run d [] w = (x, d1, o1, r1)" by (rule prod_cases4)
  obtain e where e: "chunk_run dr [] w = (x, e, o1, r1)" "e = counted (total_read d + of_nat (length w)) (total_overhead d) d1"
    using chunk_run_counted [of "total_read d + of_nat (length w)" "total_overhead d" d "[]" "[]" w] w dr by simp
  note all = run [unfolded conjunct1 [OF chunk_run_more]]
  note size1 = chunk_run_size [OF w]
  show ?thesis
  proof (cases "x = CkMore")
    case True
    then have r1: "r1 = []" using conjunct2 [OF chunk_run_more [of d "[]" w "[]"]] w by simp
    have l: "chunk_run d1 o1 later = (CkComplete, d', body, Y)" using all w True by simp
    obtain y d2 b2 Y2 where l0: "chunk_run d1 [] later = (y, d2, b2, Y2)" by (rule prod_cases4)
    have "chunk_run d1 (o1 @ []) later = (y, counted (total_read d1) (total_overhead d1) d2, o1 @ b2, Y2)"
      using chunk_run_counted [of "total_read d1" "total_overhead d1" d1 o1 "[]" later] l0 by (simp add: counted_self)
    with l have l0': "y = CkComplete" "body = o1 @ b2" "Y2 = Y" by simp_all
    note size2 = chunk_run_size [OF l0]
    define lost where "lost = length w - length o1"
    define ov where "ov = total_overhead d + of_nat lost"
    have "lost + (length later - (length b2 + length Y)) = length (w @ later) - (length body + length Y)"
      using size1 size2 l0' r1 by (simp add: lost_def)
    with over have small: "unat (total_overhead d) + lost + (length later - (length b2 + length Y)) < 102400" by simp
    then have "unat ov = unat (total_overhead d) + lost"
      unfolding ov_def by (subst unat_word_ariths) (simp add: unat_of_nat take_bit_nat_eq_self)
    with small have ov: "unat ov + (length later - (length b2 + length Y)) < 102400" "\<not> ov \<ge> 100 * 1024"
      by (simp_all add: word_le_nat_alt)
    define d9 where "d9 = counted (total_read d + of_nat (length w)) ov d1"
    have "e\<lparr>total_overhead := total_overhead e + of_nat lost\<rparr> = d9" "total_overhead e + of_nat lost = ov"
      by (simp_all add: e(2) d9_def ov_def counted_def)
    then have "phr_decode_chunked d w = (-2, d9, length o1, o1 @ drop (length o1) w)"
      using e(1) True r1 ov(2)
      by (simp add: phr_decode_chunked_def dr_def [symmetric] Let_def lost_def [symmetric])
    moreover have "\<exists>d2. chunk_run d9 [] later = (CkComplete, d2, b2, Y)"
      using chunk_run_counted [of "total_read d + of_nat (length w)" ov d1 "[]" "[]" later] l0 l0' by (simp add: d9_def)
    ultimately show ?thesis using l0'(2) ov(1) by (intro disjI1 exI [of _ d9] exI [of _ o1] exI [of _ b2]) (simp add: d9_def)
  next
    case False
    with all w have x: "x = CkComplete" "o1 = body" "r1 @ later = Y" by simp_all
    with e(1) have "phr_decode_chunked d w = (int (length r1), e, length body, body @ r1 @ drop (length body + length r1) w)"
      by (simp add: phr_decode_chunked_def dr_def [symmetric] Let_def)
    with x(3) show ?thesis by auto
  qed
qed

end
