(* ===== verification/Zuh_Response.thy ===== *)
theory Zuh_Response
  imports Zuh_Chunk
begin

text \<open>
  \<^verbatim>\<open>src/zuh_response.c\<close>: response heads and chunked bodies. The bytes go through the parser of
  \<^verbatim>\<open>Zuh_Pico\<close> and the decoder of \<^verbatim>\<open>Zuh_Chunk\<close>; the fields end in a header list of their own,
  the framing decision is that of \<^verbatim>\<open>Zuh_Framing\<close>.
\<close>

section \<open>Heads\<close>

definition ZUH_REASON_MAX :: nat where
  "ZUH_REASON_MAX = 128"

text \<open>The reason is the bytes of the array before its NUL.\<close>

record zuh_response =
  rs_status :: int
  rs_minor :: int
  rs_reason :: bytes
  rs_headers :: zuh_headers
  rs_framing :: zuh_framing

definition zuh_response_init :: zuh_response where
  "zuh_response_init = \<lparr>rs_status = 0, rs_minor = 0, rs_reason = [], rs_headers = zuh_headers_init,
     rs_framing = \<lparr>fr_kind = ZUH_FRAME_NONE, fr_length = 0, fr_poolable = False\<rparr>\<rparr>"

definition zuh_response_free :: "zuh_response \<Rightarrow> heap \<Rightarrow> zuh_response \<times> heap" where
  "zuh_response_free r h = (case zuh_headers_free (rs_headers r) h of (hs, h) \<Rightarrow> (r\<lparr>rs_headers := hs\<rparr>, h))"

definition zuh_response_is_informational :: "zuh_response \<Rightarrow> bool" where
  "zuh_response_is_informational r \<longleftrightarrow> rs_status r \<ge> 100 \<and> rs_status r \<le> 199"

abbreviation read_error :: "zuh_error \<Rightarrow> zuh_code \<Rightarrow> bytes \<Rightarrow> zuh_error" where
  "read_error e c msg \<equiv> zuh_error_set e c ZUH_PHASE_READ msg"

text \<open>The loop that copies the parsed fields.\<close>

fun response_fields :: "phr_header list \<Rightarrow> zuh_headers \<Rightarrow> zuh_error \<Rightarrow> heap
    \<Rightarrow> zuh_code \<times> zuh_headers \<times> zuh_error \<times> heap" where
  "response_fields [] hs err h = (ZUH_OK, hs, err, h)"
| "response_fields (f # fs) hs err h =
     (case ph_name f of
        None \<Rightarrow> (ZUH_ERR_PARSE, hs, read_error err ZUH_ERR_PARSE ''obsolete line folding in response headers'', h)
      | Some name \<Rightarrow>
          (case zuh_headers_add hs name (ph_value f) h of (hc, hs, h) \<Rightarrow>
             if hc \<noteq> ZUH_OK then
               (hc, hs, read_error err hc (if hc = ZUH_ERR_BODY_LIMIT then ''response header limit exceeded''
                                           else ''invalid response header''), h)
             else response_fields fs hs err h))"

text \<open>What the function does with a head that the parser found complete.\<close>

definition response_accept ::
    "zuh_response \<Rightarrow> phr_response \<Rightarrow> zuh_error \<Rightarrow> heap \<Rightarrow> zuh_code \<times> zuh_response \<times> zuh_error \<times> heap" where
  "response_accept r p err h =
     (if pr_minor p \<noteq> 0 \<and> pr_minor p \<noteq> 1 then
        (ZUH_ERR_PARSE, r,
         read_error err ZUH_ERR_PARSE (''unsupported HTTP/1.'' @ show_int (pr_minor p) @ '' response''), h)
      else if pr_status p < 100 \<or> pr_status p > 599 then
        (ZUH_ERR_PARSE, r, read_error err ZUH_ERR_PARSE (''invalid status code '' @ show_int (pr_status p)), h)
      else
        let r = r\<lparr>rs_status := pr_status p, rs_minor := pr_minor p,
                  rs_reason := take (ZUH_REASON_MAX - 1) (pr_msg p)\<rparr>;
            h = snd (zuh_headers_free (rs_headers r) h) in
        case response_fields (pr_headers p) zuh_headers_init err h of (hc, hs, err, h) \<Rightarrow>
        (hc, r\<lparr>rs_headers := hs\<rparr>, err, h))"

text \<open>The capacity of the array of fields.\<close>

definition response_max :: "zuh_response \<Rightarrow> nat" where
  "response_max r =
     (let num = ZUH_DEFAULT_MAX_HEADER_COUNT; mx = hs_max_count (rs_headers r) in
      if mx \<noteq> 0 \<and> num > mx then mx else num)"

text \<open>The code, the response, \<^verbatim>\<open>*consumed\<close>, the error and the heap.\<close>

definition zuh_response_parse ::
    "zuh_response \<Rightarrow> bytes \<Rightarrow> nat \<Rightarrow> zuh_error \<Rightarrow> heap \<Rightarrow> zuh_code \<times> zuh_response \<times> nat \<times> zuh_error \<times> heap" where
  "zuh_response_parse r buf last_len err h =
     (case phr_parse_response buf (response_max r) last_len of
        PhrIncomplete \<Rightarrow> (ZUH_ERR_WOULDBLOCK, r, 0, err, h)
      | PhrError \<Rightarrow> (ZUH_ERR_PARSE, r, 0, read_error err ZUH_ERR_PARSE ''malformed response head'', h)
      | PhrOk p rest \<Rightarrow>
          (case response_accept r p err h of (c, r, err, h) \<Rightarrow>
             (c, r, if c = ZUH_OK then length buf - length rest else 0, err, h)))"

definition zuh_response_decide_framing ::
    "zuh_response \<Rightarrow> bool \<Rightarrow> zuh_error \<Rightarrow> zuh_code \<times> zuh_response \<times> zuh_error" where
  "zuh_response_decide_framing r method_is_head err =
     (case zuh_framing_decide (rs_headers r) (rs_status r) method_is_head err of (c, fr, err) \<Rightarrow>
        (c, r\<lparr>rs_framing := fr\<rparr>, err))"

section \<open>Chunked bodies\<close>

text \<open>
  \<open>ck_decoder\<close> is \<open>None\<close> for a NULL \<^verbatim>\<open>state\<close>. The member \<^verbatim>\<open>started\<close> is never read nor written.
\<close>

record zuh_chunked =
  ck_decoder :: "phr_chunked_decoder option"
  ck_max_chunk :: u64
  ck_total :: u64
  ck_max_total :: u64
  ck_surplus :: nat
  ck_in_trailer :: bool
  ck_tbuf :: zuh_buffer
  ck_trailers :: zuh_headers

text \<open>\<^verbatim>\<open>sizeof(struct phr_chunked_decoder)\<close> on the 64-bit targets.\<close>

definition SIZEOF_DECODER :: nat where
  "SIZEOF_DECODER = 32"

definition zeroed_decoder :: phr_chunked_decoder where
  "zeroed_decoder = \<lparr>bytes_left_in_chunk = 0, consume_trailer = False, hex_count = 0, ck_state = CHUNKED_IN_CHUNK_SIZE,
     total_read = 0, total_overhead = 0\<rparr>"

definition zeroed_chunked :: zuh_chunked where
  "zeroed_chunked = \<lparr>ck_decoder = None, ck_max_chunk = 0, ck_total = 0, ck_max_total = 0, ck_surplus = 0,
     ck_in_trailer = False, ck_tbuf = \<lparr>buf_data = [], buf_cap = 0, buf_max = 0, buf_hit_limit = False\<rparr>,
     ck_trailers = zuh_headers_init_limited 0 0 0 0\<rparr>"

definition zuh_chunked_init :: "u64 \<Rightarrow> u64 \<Rightarrow> heap \<Rightarrow> zuh_code \<times> zuh_chunked \<times> heap" where
  "zuh_chunked_init max_chunk max_total h =
     (let c = zeroed_chunked in
      case zuh_calloc 1 SIZEOF_DECODER h of (ok, h) \<Rightarrow>
      if \<not> ok then (ZUH_ERR_NOMEM, c, h)
      else
        let c = c\<lparr>ck_decoder := Some (zeroed_decoder\<lparr>consume_trailer := False\<rparr>), ck_trailers := zuh_headers_init\<rparr> in
        case zuh_buf_init 0 ZUH_DEFAULT_MAX_HEADER_BYTES h of (ok, tb, h) \<Rightarrow>
        let c = c\<lparr>ck_tbuf := tb\<rparr> in
        if \<not> ok then (ZUH_ERR_NOMEM, c\<lparr>ck_decoder := None\<rparr>, zuh_free (Some SIZEOF_DECODER) h)
        else (ZUH_OK, c\<lparr>ck_max_chunk := max_chunk, ck_max_total := max_total\<rparr>, h))"

definition zuh_chunked_free :: "zuh_chunked \<Rightarrow> heap \<Rightarrow> zuh_chunked \<times> heap" where
  "zuh_chunked_free c h =
     (let h = zuh_free (map_option (\<lambda>d. SIZEOF_DECODER) (ck_decoder c)) h in
      case zuh_buf_free (ck_tbuf c) h of (tb, h) \<Rightarrow>
      case zuh_headers_free (ck_trailers c) h of (hs, h) \<Rightarrow>
      (c\<lparr>ck_decoder := None, ck_tbuf := tb, ck_trailers := hs\<rparr>, h))"

fun trailer_fields :: "phr_header list \<Rightarrow> zuh_headers \<Rightarrow> zuh_error \<Rightarrow> heap
    \<Rightarrow> zuh_code \<times> zuh_headers \<times> zuh_error \<times> heap" where
  "trailer_fields [] hs err h = (ZUH_OK, hs, err, h)"
| "trailer_fields (f # fs) hs err h =
     (case ph_name f of
        None \<Rightarrow> (ZUH_ERR_PARSE, hs, read_error err ZUH_ERR_PARSE ''obsolete line folding in a trailer'', h)
      | Some name \<Rightarrow>
          (case zuh_headers_add hs name (ph_value f) h of (a, hs, h) \<Rightarrow>
             if a = ZUH_ERR_NOMEM then (a, hs, err, h)
             else if a \<noteq> ZUH_OK then
               (ZUH_ERR_PARSE, hs, read_error err ZUH_ERR_PARSE ''chunked trailer field is invalid or over a limit'', h)
             else trailer_fields fs hs err h))"

definition trailer_parse :: "zuh_chunked \<Rightarrow> zuh_error \<Rightarrow> heap \<Rightarrow> zuh_code \<times> zuh_chunked \<times> zuh_error \<times> heap" where
  "trailer_parse c err h =
     (if buf_len (ck_tbuf c) = 0 then (ZUH_ERR_WOULDBLOCK, c, err, h)
      else case phr_parse_headers (buf_data (ck_tbuf c)) ZUH_DEFAULT_MAX_HEADER_COUNT 0 of
        PhrIncomplete \<Rightarrow>
          if zuh_buf_hit_limit (ck_tbuf c) \<or> buf_len (ck_tbuf c) \<ge> ZUH_DEFAULT_MAX_HEADER_BYTES then
            (ZUH_ERR_PARSE, c,
             read_error err ZUH_ERR_PARSE ''chunked trailer section exceeds the header size limit'', h)
          else (ZUH_ERR_WOULDBLOCK, c, err, h)
      | PhrError \<Rightarrow> (ZUH_ERR_PARSE, c, read_error err ZUH_ERR_PARSE ''malformed chunked trailer section'', h)
      | PhrOk fs rest \<Rightarrow>
          (case trailer_fields fs (ck_trailers c) err h of (a, hs, err, h) \<Rightarrow>
             let c = c\<lparr>ck_trailers := hs\<rparr> in
             if a \<noteq> ZUH_OK then (a, c, err, h)
             else (ZUH_OK, c\<lparr>ck_surplus := buf_len (ck_tbuf c) - (buf_len (ck_tbuf c) - length rest)\<rparr>, err, h)))"

text \<open>Bytes of the trailer section are collected, then looked at; both callers report a failure alike.\<close>

definition trailer_append :: "bytes \<Rightarrow> zuh_chunked \<Rightarrow> zuh_error \<Rightarrow> heap \<Rightarrow> zuh_code \<times> zuh_chunked \<times> zuh_error \<times> heap" where
  "trailer_append bs c err h =
     (case (if bs = [] then (True, ck_tbuf c, h) else zuh_buf_append bs (ck_tbuf c, h)) of (ok, tb, h) \<Rightarrow>
      let c = c\<lparr>ck_tbuf := tb\<rparr> in
      if \<not> ok then
        (if zuh_buf_hit_limit tb then
           (ZUH_ERR_PARSE, c,
            read_error err ZUH_ERR_PARSE ''chunked trailer section exceeds the header size limit'', h)
         else (ZUH_ERR_NOMEM, c, err, h))
      else trailer_parse c err h)"

text \<open>The code, the decoder, \<^verbatim>\<open>*len\<close>, the buffer, the error and the heap.\<close>

definition zuh_chunked_decode ::
    "zuh_chunked \<Rightarrow> bytes \<Rightarrow> zuh_error \<Rightarrow> heap
     \<Rightarrow> zuh_code \<times> zuh_chunked \<times> nat \<times> bytes \<times> zuh_error \<times> heap" where
  "zuh_chunked_decode c buf err h =
     (case ck_decoder c of
        None \<Rightarrow> (ZUH_ERR_PARSE, c, length buf, buf, err, h)
      | Some d \<Rightarrow>
        if ck_in_trailer c then
          (case trailer_append buf c err h of (rc, c, err, h) \<Rightarrow> (rc, c, 0, buf, err, h))
        else
          (case phr_decode_chunked d buf of (ret, d, n, buf') \<Rightarrow>
           let c = c\<lparr>ck_decoder := Some d\<rparr> in
           if ret = -1 then
             (ZUH_ERR_PARSE, c, length buf, buf', read_error err ZUH_ERR_PARSE ''malformed chunked encoding'', h)
           else
             let remaining = (if ck_max_total c \<ge> ck_total c then ck_max_total c - ck_total c else 0) in
             if ck_max_total c \<noteq> 0 \<and> of_nat n > remaining then
               (ZUH_ERR_BODY_LIMIT, c, n, buf',
                read_error err ZUH_ERR_BODY_LIMIT ''response body exceeds the configured limit'', h)
             else
               let c = c\<lparr>ck_total := ck_total c + of_nat n\<rparr> in
               if ck_max_chunk c \<noteq> 0 \<and> bytes_left_in_chunk d > ck_max_chunk c then
                 (ZUH_ERR_BODY_LIMIT, c, n, buf',
                  read_error err ZUH_ERR_BODY_LIMIT ''chunk size exceeds the configured limit'', h)
               else if ret \<ge> 0 then
                 (let c = c\<lparr>ck_in_trailer := True\<rparr> in
                  case trailer_append (take (nat ret) (drop n buf')) c err h of (rc, c, err, h) \<Rightarrow>
                    (rc, c, n, buf', err, h))
               else (ZUH_ERR_WOULDBLOCK, c, n, buf', err, h)))"

section \<open>The CONNECT response\<close>

text \<open>\<^verbatim>\<open>zuh_proxy_connect_response\<close>: the code, \<^verbatim>\<open>*consumed\<close>, \<^verbatim>\<open>*status\<close>, the error and the heap.\<close>

definition zuh_proxy_connect_response :: "bytes \<Rightarrow> zuh_error \<Rightarrow> heap \<Rightarrow> zuh_code \<times> nat \<times> int \<times> zuh_error \<times> heap" where
  "zuh_proxy_connect_response buf err h =
     (case zuh_response_parse zuh_response_init buf 0 err h of (rc, r, consumed, err, h) \<Rightarrow>
      let h = snd (zuh_response_free r h) in
      if rc \<noteq> ZUH_OK then (rc, consumed, 0, err, h)
      else if rs_status r \<ge> 200 \<and> rs_status r < 300 then (ZUH_OK, consumed, rs_status r, err, h)
      else if rs_status r = 407 then
        (ZUH_ERR_PROXY_AUTH, consumed, rs_status r,
         zuh_error_set err ZUH_ERR_PROXY_AUTH ZUH_PHASE_CONNECT ''proxy requires authentication (407)'', h)
      else
        (ZUH_ERR_PROXY, consumed, rs_status r,
         zuh_error_set err ZUH_ERR_PROXY ZUH_PHASE_CONNECT
           (''proxy refused CONNECT with status '' @ show_int (rs_status r)), h))"

section \<open>What a head parses to\<close>

lemma response_fields_ok:
  assumes "response_fields fs hs err h = (c, hs', err', h')" "hs_inv hs"
  shows "hs_inv hs' \<and> hs_limits hs' = hs_limits hs
    \<and> (c = ZUH_OK \<longrightarrow> err' = err \<and> hs_items hs' = hs_items hs @ map (\<lambda>f. \<lparr>hd_name = the (ph_name f), hd_value = ph_value f\<rparr>) fs
         \<and> list_all (\<lambda>f. ph_name f \<noteq> None) fs)
    \<and> (c \<noteq> ZUH_OK \<longrightarrow> err_code err' = c) \<and> hs_grew (hs, h) (hs', h')
    \<and> c \<in> {ZUH_OK, ZUH_ERR_PARSE, ZUH_ERR_BODY_LIMIT, ZUH_ERR_OVERFLOW, ZUH_ERR_NOMEM}"
  using assms
proof (induction fs hs err h rule: response_fields.induct)
  case (2 f fs hs err h)
  show ?case
  proof (cases "ph_name f")
    case None
    with 2 show ?thesis by auto
  next
    case (Some n)
    obtain hc hs1 h1 where a: "zuh_headers_add hs n (ph_value f) h = (hc, hs1, h1)" by (rule prod_cases3)
    note A = headers_add_spec [OF 2(3) a]
    have "add_refusal hs n (ph_value f) \<in> {None, Some ZUH_ERR_PARSE, Some ZUH_ERR_BODY_LIMIT, Some ZUH_ERR_OVERFLOW}"
      by (simp add: add_refusal_def)
    then have blk: "hc \<in> {ZUH_OK, ZUH_ERR_PARSE, ZUH_ERR_BODY_LIMIT, ZUH_ERR_OVERFLOW, ZUH_ERR_NOMEM}" using A(5) by (cases "add_refusal hs n (ph_value f)") (auto split: if_splits)
    show ?thesis
    proof (cases "hc = ZUH_OK")
      case False
      with 2(2) Some a A blk show ?thesis by auto
    next
      case True
      then have run: "response_fields fs hs1 err h1 = (c, hs', err', h')" using 2(2) Some a by simp
      from 2(1) [OF Some a [symmetric] refl _ run A(1)] True A Some
      show ?thesis using hs_grew_trans [OF A(4)] by auto
    qed
  qed
qed simp

lemma response_parse_facts:
  assumes "zuh_response_parse r buf last_len err h = (c, r', n, err', h')" and "hs_inv (rs_headers r)"
  shows "hs_inv (rs_headers r')
    \<and> (c = ZUH_OK \<longrightarrow> rs_minor r' \<in> {0, 1} \<and> 100 \<le> rs_status r' \<and> rs_status r' \<le> 599
         \<and> length (rs_reason r') < ZUH_REASON_MAX \<and> (\<forall>x \<in> set (rs_reason r'). \<not> found_ctl x)
         \<and> length (hs_items (rs_headers r')) \<le> ZUH_DEFAULT_MAX_HEADER_COUNT \<and> 0 < n \<and> n \<le> length buf)
    \<and> (c \<noteq> ZUH_OK \<longrightarrow> n = 0 \<and> (if c = ZUH_ERR_WOULDBLOCK then r' = r \<and> err' = err else err_code err' = c))
    \<and> c \<in> {ZUH_OK, ZUH_ERR_WOULDBLOCK, ZUH_ERR_PARSE, ZUH_ERR_BODY_LIMIT, ZUH_ERR_OVERFLOW, ZUH_ERR_NOMEM}"
proof (cases "phr_parse_response buf (response_max r) last_len")
  case (PhrOk p rest)
  then have ok: "parse_response (response_max r) buf = PhrOk p rest"
    by (auto simp: phr_parse_response_def phr_bind_ok split: if_splits)
  note shape = response_shape [OF ok]
  obtain q where q: "buf = q @ rest" "q \<noteq> []" using shape(1) by (auto simp: head_end_def)
  show ?thesis
  proof (cases "(pr_minor p \<noteq> 0 \<and> pr_minor p \<noteq> 1) \<or> pr_status p < 100 \<or> pr_status p > 599")
    case True
    with assms PhrOk show ?thesis by (auto simp: zuh_response_parse_def response_accept_def split: if_splits)
  next
    case False
    obtain hc hs er h1 where f: "response_fields (pr_headers p) zuh_headers_init err (snd (zuh_headers_free (rs_headers r) h))
        = (hc, hs, er, h1)" by (rule prod_cases4)
    note F = response_fields_ok [OF f hs_inv_init_default]
    have c: "c = hc" "err' = er" "n = (if hc = ZUH_OK then length q else 0)"
      "r' = r\<lparr>rs_status := pr_status p, rs_minor := pr_minor p, rs_reason := take (ZUH_REASON_MAX - 1) (pr_msg p),
         rs_headers := hs\<rparr>"
      using assms(1) PhrOk False f q(1) by (auto simp: zuh_response_parse_def response_accept_def split: if_splits)
    have "response_max r \<le> ZUH_DEFAULT_MAX_HEADER_COUNT" by (simp add: response_max_def Let_def)
    moreover have "\<forall>x \<in> set (take (ZUH_REASON_MAX - 1) (pr_msg p)). \<not> found_ctl x"
      using shape(4) by (auto dest: in_set_takeD)
    ultimately show ?thesis using c F False q shape(6) by (auto simp: ZUH_REASON_MAX_def)
  qed
qed (use assms in \<open>auto simp: zuh_response_parse_def\<close>)

text \<open>
  C21: a response head is accepted only in the shape the client relies on: HTTP/1.0 or 1.1, a status
  from 100 to 599, a reason without control bytes that fits its array, no folded line, and a
  header list that satisfies its invariant, so without CR, LF and NUL. A refusal consumes
  nothing, and unless more bytes are wanted it leaves the code in the error object.
\<close>
theorem response_parse_typed:
  assumes "zuh_response_parse r buf last_len err h = (c, r', n, err', h')" and "hs_inv (rs_headers r)"
  shows "hs_inv (rs_headers r')
    \<and> (c = ZUH_OK \<longrightarrow> rs_minor r' \<in> {0, 1} \<and> 100 \<le> rs_status r' \<and> rs_status r' \<le> 599
         \<and> length (rs_reason r') < ZUH_REASON_MAX \<and> (\<forall>x \<in> set (rs_reason r'). \<not> found_ctl x)
         \<and> length (hs_items (rs_headers r')) \<le> ZUH_DEFAULT_MAX_HEADER_COUNT \<and> 0 < n \<and> n \<le> length buf)
    \<and> (c \<noteq> ZUH_OK \<longrightarrow> n = 0 \<and> (if c = ZUH_ERR_WOULDBLOCK then r' = r \<and> err' = err else err_code err' = c))"
  using response_parse_facts [OF assms] by blast

text \<open>
  A head may arrive in any pieces. If the complete bytes are accepted, every earlier call, on
  however much had arrived and with the length of any call before it as the hint, waits without
  changing anything until the head is complete, and then gives the same response.
\<close>
lemma response_parse_incremental:
  assumes "zuh_response_parse r buf 0 err h = (ZUH_OK, r', n, err', h')" and "seen < n"
  shows "zuh_response_parse r (take k buf) seen err h =
    (if k < n then (ZUH_ERR_WOULDBLOCK, r, 0, err, h) else (ZUH_OK, r', n, err', h'))"
proof -
  obtain res q where ok: "parse_response (response_max r) buf = PhrOk res q"
    and acc: "response_accept r res err h = (ZUH_OK, r', err', h')" and n: "n = length buf - length q"
    using assms(1) by (auto simp: zuh_response_parse_def phr_parse_response_def split: phr.splits if_splits prod.splits)
  obtain p where p: "buf = p @ q" "head_end p" using response_shape(1) [OF ok] by blast
  note ok = ok [unfolded p(1)]
  have len: "n = length p" using n p(1) by simp
  show ?thesis
  proof (cases "k < n")
    case True
    then show ?thesis using part_waits [OF ok p(2), of k seen] len by (simp add: zuh_response_parse_def p(1))
  next
    case False
    define q' where "q' = take (k - n) q"
    have buf: "take k buf = p @ q'" using False len by (simp add: p(1) q'_def)
    have "parse_response (response_max r) p = PhrOk res []"
      using tightD [OF tight_response, of "response_max r" p q res "[]"] ok by simp
    from steadyD(1) [OF steady_response this, of q'] have "parse_response (response_max r) (p @ q') = PhrOk res q'" by simp
    from hint_harmless [OF this p(2), of seen] assms(2) len
    show ?thesis using False by (simp add: zuh_response_parse_def buf acc)
  qed
qed

section \<open>Heads that are written parse to what was written\<close>

text \<open>A status line with a reason, and the fields as \<^verbatim>\<open>zuh_headers_write\<close> writes them.\<close>

definition status_line :: "nat \<Rightarrow> nat \<Rightarrow> bytes \<Rightarrow> bytes" where
  "status_line minor status reason =
     ''HTTP/1.'' @ [digit_char minor, SP, digit_char (status div 100), digit_char (status div 10 mod 10),
       digit_char (status mod 10), SP] @ reason @ CRLF"

definition head_text :: "nat \<Rightarrow> nat \<Rightarrow> bytes \<Rightarrow> zuh_header list \<Rightarrow> bytes" where
  "head_text minor status reason fs = status_line minor status reason @ concat (map field_line fs) @ CRLF"

text \<open>A value that the parser gives back as it is: nothing to trim at either end.\<close>

definition trimmed :: "bytes \<Rightarrow> bool" where
  "trimmed v \<longleftrightarrow> v = [] \<or> (\<not> is_ows (hd v) \<and> \<not> is_ows (last v))"

lemma eol_line: "\<forall>c \<in> set v. \<not> found_ctl c \<Longrightarrow> get_token_to_eol (v @ CR # LF # q) = PhrOk v q"
proof -
  assume v: "\<forall>c \<in> set v. \<not> found_ctl c"
  have "found_ctl CR" by (simp add: found_ctl_def CR_def HTAB_def)
  then have "takeWhile (\<lambda>c. \<not> found_ctl c) (v @ CR # LF # q) = v" "dropWhile (\<lambda>c. \<not> found_ctl c) (v @ CR # LF # q) = CR # LF # q"
    using v by (simp_all add: takeWhile_append_not dropWhile_append_not)
  then show ?thesis unfolding eol_result by simp
qed

lemma tchar_map: "is_tchar c \<longleftrightarrow> token_char_map c"
proof -
  have e: "c = d \<longleftrightarrow> cval c = cval d" for d by (simp add: cval_eq_iff)
  have i: "35 \<le> n \<and> n \<le> 39 \<longleftrightarrow> n = 35 \<or> n = 36 \<or> n = 37 \<or> n = 38 \<or> n = 39"
    "94 \<le> n \<and> n \<le> 122 \<longleftrightarrow> n = 94 \<or> n = 95 \<or> n = 96 \<or> (97 \<le> n \<and> n \<le> 122)" for n :: nat
    by linarith+
  have chars: "cval (CHR ''!'') = 33" "cval (CHR ''#'') = 35" "cval (CHR ''$'') = 36" "cval (CHR ''%'') = 37"
    "cval (CHR ''&'') = 38" "cval (CHR 0x27) = 39" "cval (CHR ''*'') = 42" "cval (CHR ''+'') = 43" "cval (CHR ''-'') = 45"
    "cval (CHR ''.'') = 46" "cval (CHR ''^'') = 94" "cval (CHR ''_'') = 95" "cval (CHR 0x60) = 96" "cval (CHR ''|'') = 124"
    "cval (CHR ''~'') = 126" "cval (CHR ''a'') = 97" "cval (CHR ''z'') = 122" "cval (CHR ''A'') = 65" "cval (CHR ''Z'') = 90"
    "cval (CHR ''0'') = 48" "cval (CHR ''9'') = 57" by simp_all
  show ?thesis
    unfolding is_tchar_def token_char_map_def Let_def list.set insert_iff empty_iff i e chars by blast
qed

lemma value_char_map: "value_char_ok c \<longleftrightarrow> \<not> found_ctl c"
proof (cases "c = CR \<or> c = LF \<or> c = NUL")
  case True
  moreover have "CR \<noteq> HTAB" "LF \<noteq> HTAB" "NUL \<noteq> HTAB" by (simp_all add: CR_def LF_def NUL_def HTAB_def)
  ultimately show ?thesis by (elim disjE) (simp_all add: value_char_ok_def found_ctl_def)
next
  case False
  then show ?thesis by (auto simp: value_char_ok_def found_ctl_def)
qed

lemma token_then_colon: "list_all token_char_map n \<Longrightarrow> parse_token (CHR '':'') (n @ CHR '':'' # r) = PhrOk n (CHR '':'' # r)"
proof (induction n)
  case (Cons c n)
  then have "c \<noteq> CHR '':''" by (auto simp: token_char_map_def)
  with Cons show ?case by simp
qed simp

lemma trim_right_trimmed: "trimmed v \<Longrightarrow> trim_right v = v"
proof (cases v rule: rev_cases)
  case (snoc u x)
  then show "trimmed v \<Longrightarrow> trim_right v = v" by (simp add: trimmed_def trim_right_def)
qed simp

definition parsed :: "zuh_header \<Rightarrow> phr_header" where
  "parsed f = \<lparr>ph_name = Some (hd_name f), ph_value = hd_value f\<rparr>"

lemma parsed_simps [simp]: "ph_name (parsed f) = Some (hd_name f)" "ph_value (parsed f) = hd_value f"
  by (simp_all add: parsed_def)

lemma field_parses:
  assumes "field_ok f" "trimmed (hd_value f)"
  shows "parse_field num (field_line f @ q) = PhrOk (parsed f) q"
    "\<exists>c r. field_line f @ q = c # r \<and> c \<noteq> CR \<and> c \<noteq> LF"
proof -
  have name: "list_all token_char_map (hd_name f)" "hd_name f \<noteq> []" and val: "\<forall>c \<in> set (hd_value f). \<not> found_ctl c"
    using assms(1) by (simp_all add: field_ok_def zuh_header_name_valid_def zuh_header_value_valid_def tchar_map value_char_map list_all_iff)
  obtain x n where x: "hd_name f = x # n" using name(2) by (cases "hd_name f") auto
  have tok: "token_char_map x" using name(1) x by simp
  then have ctl: "\<not> is_ows x" "x \<noteq> CR" "x \<noteq> LF" by (auto simp: token_char_map_def is_ows_def)
  let ?rest = "hd_value f @ CR # LF # q"
  have skip: "dropWhile is_ows (SP # ?rest) = ?rest"
    using assms(2) by (cases "hd_value f") (auto simp: trimmed_def is_ows_def CR_def SP_def HTAB_def)
  have "parse_name (field_line f @ q) = PhrOk (hd_name f) ?rest"
    using token_then_colon [OF name(1), of "SP # ?rest"] skip name(2)
    by (cases "hd_value f") (simp_all add: parse_name_def field_line_def SP_def)
  then show "parse_field num (field_line f @ q) = PhrOk (parsed f) q"
    using ctl(1) x eol_line [OF val, of q] trim_right_trimmed [OF assms(2)] by (simp add: parse_field_def field_line_def parsed_def)
  show "\<exists>c r. field_line f @ q = c # r \<and> c \<noteq> CR \<and> c \<noteq> LF" using x ctl by (simp add: field_line_def)
qed

lemma headers_parse:
  assumes "list_all (\<lambda>f. field_ok f \<and> trimmed (hd_value f)) fs" "num + length fs \<le> mx"
  shows "parse_headers mx num (concat (map field_line fs) @ CRLF @ q) =
    PhrOk (map parsed fs) q"
  using assms
proof (induction fs arbitrary: num)
  case Nil
  show ?case by (simp add: parse_headers.simps [of mx num "CR # LF # q"])
next
  case (Cons f fs)
  let ?r = "concat (map field_line fs) @ CRLF @ q"
  have f: "field_ok f" "trimmed (hd_value f)" using Cons.prems(1) by simp_all
  obtain c r where c: "field_line f @ ?r = c # r" "c \<noteq> CR" "c \<noteq> LF" using field_parses(2) [OF f] by metis
  have "parse_headers mx (num + 1) ?r = PhrOk (map parsed fs) q"
    using Cons.prems by (intro Cons.IH) simp_all
  with field_parses(1) [OF f, of num ?r] c Cons.prems(2)
  have "parse_headers mx num (field_line f @ ?r) =
      PhrOk (map parsed (f # fs)) q"
    unfolding c(1) parse_headers.simps [of mx num "c # r"] by simp
  then show ?case by simp
qed

lemma parse_digit_char: "d < 10 \<Longrightarrow> parse_digit (digit_char d # r) = PhrOk (int d) r"
  by (simp add: parse_digit_def)

lemma digit_char_not_SP: "d < 10 \<Longrightarrow> digit_char d \<noteq> SP"
proof
  assume "d < 10" "digit_char d = SP"
  then have "cval (digit_char d) = cval SP" by simp
  with \<open>d < 10\<close> show False by simp
qed

lemma three_digits: "int status = 100 * int (status div 100) + 10 * int (status div 10 mod 10) + int (status mod 10)"
proof -
  have "status div 100 = status div 10 div 10" using div_mult2_eq [of status 10 10] by simp
  moreover have "status = 10 * (status div 10) + status mod 10" by simp
  moreover have "status div 10 = 10 * (status div 10 div 10) + status div 10 mod 10" by simp
  ultimately show ?thesis by linarith
qed

lemma head_parses:
  assumes "list_all (\<lambda>f. field_ok f \<and> trimmed (hd_value f)) fs" "length fs \<le> mx" "minor < 10" "status < 1000"
    and reason: "\<forall>c \<in> set reason. \<not> found_ctl c" "reason = [] \<or> hd reason \<noteq> SP"
  shows "parse_response mx (head_text minor status reason fs @ q) =
    PhrOk \<lparr>pr_minor = int minor, pr_status = int status, pr_msg = reason,
            pr_headers = map parsed fs\<rparr> q"
proof -
  let ?fields = "concat (map field_line fs) @ CRLF @ q"
  let ?msg = "(SP # reason) @ CR # LF # ?fields"
  let ?st = "digit_char (status div 100) # digit_char (status div 10 mod 10) # digit_char (status mod 10) # ?msg"
  have v: "parse_http_version (head_text minor status reason fs @ q) = PhrOk (int minor) (SP # ?st)"
    using parse_digit_char [OF assms(3)] by (simp add: parse_http_version_def head_text_def status_line_def)
  have sp: "skip_space (SP # ?st) = PhrOk () ?st"
    using digit_char_not_SP [of "status div 100"] assms(4) by (simp add: skip_space_def)
  have st: "parse_status ?st = PhrOk (int status) ?msg"
    using assms(4) three_digits [of status] by (simp add: parse_status_def parse_int_3_def parse_digit_char)
  have "\<forall>c \<in> set (SP # reason). \<not> found_ctl c" using reason(1) by (auto simp: found_ctl_def)
  from eol_line [OF this, of ?fields]
  have m: "parse_msg ?msg = PhrOk reason ?fields"
    using reason(2) by (cases reason) (simp_all add: parse_msg_def)
  show ?thesis
    unfolding parse_response_def v phr_bind_simps sp st m
    using headers_parse [OF assms(1), of 0 mx q] assms(2) by simp
qed

text \<open>A list of fields that a list with the default limits can hold.\<close>

definition fits_default :: "zuh_header list \<Rightarrow> bool" where
  "fits_default fs \<longleftrightarrow> list_all field_ok fs \<and> length fs \<le> ZUH_DEFAULT_MAX_HEADER_COUNT
     \<and> list_all (\<lambda>f. length (hd_name f) \<le> ZUH_DEFAULT_MAX_HEADER_NAME \<and> length (hd_value f) \<le> ZUH_DEFAULT_MAX_HEADER_VALUE) fs
     \<and> sum_list (map wire_len fs) \<le> ZUH_DEFAULT_MAX_HEADER_BYTES"

lemma hs_limits_init: "hs_limits hs = hs_limits zuh_headers_init \<longleftrightarrow>
    hs_max_count hs = ZUH_DEFAULT_MAX_HEADER_COUNT \<and> hs_max_name hs = ZUH_DEFAULT_MAX_HEADER_NAME
    \<and> hs_max_value hs = ZUH_DEFAULT_MAX_HEADER_VALUE \<and> hs_max_bytes hs = ZUH_DEFAULT_MAX_HEADER_BYTES"
  by (simp add: hs_limits_def zuh_headers_init_def zuh_headers_init_limited_def)

lemma inv_fits_default: "hs_inv hs \<Longrightarrow> hs_limits hs = hs_limits zuh_headers_init \<Longrightarrow> fits_default (hs_items hs)"
  unfolding hs_limits_init
  by (auto simp: hs_inv_def fits_default_def list_all_iff ZUH_DEFAULT_MAX_HEADER_COUNT_def ZUH_DEFAULT_MAX_HEADER_NAME_def
      ZUH_DEFAULT_MAX_HEADER_VALUE_def ZUH_DEFAULT_MAX_HEADER_BYTES_def)

definition default_list :: "zuh_headers \<Rightarrow> heap \<Rightarrow> bool" where
  "default_list hs h \<longleftrightarrow> hs_inv hs \<and> hs_limits hs = hs_limits zuh_headers_init \<and> hs_cap hs \<le> 208 \<and> plenty h"

lemma default_list_init: "plenty h \<Longrightarrow> default_list zuh_headers_init h"
  by (simp add: default_list_def zuh_headers_init_def zuh_headers_init_limited_def)
    (simp add: zuh_headers_init_limited_def [symmetric])

lemma one_field_fits:
  assumes "fits_default (hs_items hs @ f # fs)" "default_list hs h"
  shows "\<exists>hs' h'. zuh_headers_add hs (hd_name f) (hd_value f) h = (ZUH_OK, hs', h')
    \<and> hs_items hs' = hs_items hs @ [f] \<and> default_list hs' h'"
proof -
  have inv: "hs_inv hs" and eq: "hs_limits hs = hs_limits zuh_headers_init" and cap: "hs_cap hs \<le> 208" and h: "plenty h"
    using assms(2) by (simp_all add: default_list_def)
  note lim = eq [unfolded hs_limits_init]
  have f: "field_ok f" "length (hd_name f) \<le> 256" "length (hd_value f) \<le> 8192" "length (hs_items hs) < 100"
    "hs_bytes hs + (length (hd_name f) + length (hd_value f) + 4) \<le> 65536"
    using assms(1) inv by (simp_all add: fits_default_def hs_inv_def wire_len_def ZUH_DEFAULT_MAX_HEADER_COUNT_def
        ZUH_DEFAULT_MAX_HEADER_NAME_def ZUH_DEFAULT_MAX_HEADER_VALUE_def ZUH_DEFAULT_MAX_HEADER_BYTES_def)
  have ref: "add_refusal hs (hd_name f) (hd_value f) = None"
    using f lim by (simp add: add_refusal_def field_ok_def SIZE_MAX_def ZUH_DEFAULT_MAX_HEADER_COUNT_def
        ZUH_DEFAULT_MAX_HEADER_NAME_def ZUH_DEFAULT_MAX_HEADER_VALUE_def ZUH_DEFAULT_MAX_HEADER_BYTES_def)
  obtain c hs1 h1 where a: "zuh_headers_add hs (hd_name f) (hd_value f) h = (c, hs1, h1)" by (rule prod_cases3)
  have c: "c = ZUH_OK"
    using headers_add_plenty [OF h, of hs "hd_name f" "hd_value f"] f cap ref a by simp
  note A = headers_add_spec [OF inv a]
  have "hs_cap hs1 \<le> 208" using headers_add_cap [OF a] cap f(4) by simp
  then show ?thesis using a c A eq plenty_headers_add [OF a h] by (simp add: default_list_def)
qed

lemma response_fields_all:
  assumes "fits_default (hs_items hs @ fs)" "default_list hs h"
  shows "\<exists>hs' h'. response_fields (map parsed fs) hs err h = (ZUH_OK, hs', err, h') \<and> hs_items hs' = hs_items hs @ fs"
  using assms
proof (induction fs arbitrary: hs h)
  case (Cons f fs)
  obtain hs1 h1 where a: "zuh_headers_add hs (hd_name f) (hd_value f) h = (ZUH_OK, hs1, h1)"
      "hs_items hs1 = hs_items hs @ [f]" "default_list hs1 h1" using one_field_fits [OF Cons.prems] by blast
  with Cons.IH [of hs1 h1] Cons.prems(1) show ?case by simp
qed simp

lemma trailer_fields_all:
  assumes "fits_default (hs_items hs @ fs)" "default_list hs h"
  shows "\<exists>hs' h'. trailer_fields (map parsed fs) hs err h = (ZUH_OK, hs', err, h') \<and> hs_items hs' = hs_items hs @ fs"
  using assms
proof (induction fs arbitrary: hs h)
  case (Cons f fs)
  obtain hs1 h1 where a: "zuh_headers_add hs (hd_name f) (hd_value f) h = (ZUH_OK, hs1, h1)"
      "hs_items hs1 = hs_items hs @ [f]" "default_list hs1 h1" using one_field_fits [OF Cons.prems] by blast
  with Cons.IH [of hs1 h1] Cons.prems(1) show ?case by simp
qed simp

text \<open>
  C34: what is written is what is read. The head made of a status line (HTTP/1.0 or 1.1, a status from 100 to 599, a
  printable reason that fits and does not begin with a blank) and the fields of any header list with the default
  limits whose values neither begin nor end with a blank, as \<^verbatim>\<open>zuh_headers_write\<close> writes them, parses, when
  there is memory, to that status and reason and to exactly those fields, in order, and the bytes after the
  empty line are left alone.
\<close>
theorem response_head_round_trip:
  assumes "plenty h" and "hs_inv hs" and "hs_limits hs = hs_limits zuh_headers_init"
    and "list_all (\<lambda>f. trimmed (hd_value f)) (hs_items hs)"
    and "minor \<le> 1" and "100 \<le> status" and "status \<le> 599"
    and "\<forall>c \<in> set reason. \<not> found_ctl c" and "reason = [] \<or> hd reason \<noteq> SP" and "length reason < ZUH_REASON_MAX"
  shows "\<exists>r h'. zuh_response_parse zuh_response_init (head_text minor status reason (hs_items hs) @ q) 0 err h
      = (ZUH_OK, r, length (head_text minor status reason (hs_items hs)), err, h')
    \<and> rs_status r = int status \<and> rs_minor r = int minor \<and> rs_reason r = reason
    \<and> hs_items (rs_headers r) = hs_items hs"
proof -
  have fit: "fits_default (hs_items hs)" by (rule inv_fits_default [OF assms(2,3)])
  then have all: "list_all (\<lambda>f. field_ok f \<and> trimmed (hd_value f)) (hs_items hs)" "length (hs_items hs) \<le> 100"
    using assms(4) by (simp_all add: fits_default_def list_all_iff ZUH_DEFAULT_MAX_HEADER_COUNT_def)
  have mx: "response_max zuh_response_init = 100"
    by (simp add: response_max_def zuh_response_init_def zuh_headers_init_def zuh_headers_init_limited_def
        ZUH_DEFAULT_MAX_HEADER_COUNT_def)
  have "parse_response 100 (head_text minor status reason (hs_items hs) @ q) =
    PhrOk \<lparr>pr_minor = int minor, pr_status = int status, pr_msg = reason,
            pr_headers = map parsed (hs_items hs)\<rparr> q"
    using all assms(5-9) by (intro head_parses) simp_all
  moreover obtain hs' h' where "response_fields (map parsed (hs_items hs))
      zuh_headers_init err (snd (zuh_headers_free (rs_headers zuh_response_init) h)) = (ZUH_OK, hs', err, h')"
      "hs_items hs' = hs_items hs"
    using response_fields_all [of zuh_headers_init "hs_items hs" "snd (zuh_headers_free (rs_headers zuh_response_init) h)" err]
      fit default_list_init [of "snd (zuh_headers_free (rs_headers zuh_response_init) h)"] assms(1)
    by (auto simp: plenty_headers_free)
  moreover have "minor = 0 \<or> minor = 1" using assms(5) by auto
  ultimately show ?thesis
    using assms(6,7,10)
    by (auto simp: zuh_response_parse_def phr_parse_response_def response_accept_def mx ZUH_REASON_MAX_def)
qed

section \<open>Chunked bodies in any pieces\<close>

text \<open>
  A body as its reader consumes it: pieces of the stream go to the decoder one after another, until
  it answers anything but \<^verbatim>\<open>ZUH_ERR_WOULDBLOCK\<close>; what it decodes is collected. The pieces that
  were not needed are the last but two components.
\<close>

fun chunked_feed :: "zuh_chunked \<Rightarrow> bytes list \<Rightarrow> zuh_error \<Rightarrow> heap
    \<Rightarrow> zuh_code \<times> zuh_chunked \<times> bytes \<times> bytes list \<times> zuh_error \<times> heap" where
  "chunked_feed c [] err h = (ZUH_ERR_WOULDBLOCK, c, [], [], err, h)"
| "chunked_feed c (w # ws) err h =
     (case zuh_chunked_decode c w err h of (rc, c, n, buf, err, h) \<Rightarrow>
        if rc = ZUH_ERR_WOULDBLOCK then
          (case chunked_feed c ws err h of (rc, c, body, rest, err, h) \<Rightarrow> (rc, c, take n buf @ body, rest, err, h))
        else (rc, c, take n buf, ws, err, h))"

definition trailer_text :: "zuh_header list \<Rightarrow> bytes" where
  "trailer_text fs = concat (map field_line fs) @ CRLF"

lemma trailer_parses:
  assumes "fits_default fs" "list_all (\<lambda>f. trimmed (hd_value f)) fs"
  shows "parse_headers 100 0 (trailer_text fs @ q) = PhrOk (map parsed fs) q"
    "k < length (trailer_text fs) \<Longrightarrow> parse_headers 100 0 (take k (trailer_text fs)) = PhrIncomplete"
proof -
  have fs: "list_all (\<lambda>f. field_ok f \<and> trimmed (hd_value f)) fs" "0 + length fs \<le> 100"
    using assms by (simp_all add: fits_default_def list_all_iff ZUH_DEFAULT_MAX_HEADER_COUNT_def)
  have ok: "parse_headers 100 0 (trailer_text fs @ q) = PhrOk (map parsed fs) q" for q
    using headers_parse [OF fs, of q] by (simp add: trailer_text_def)
  then show "parse_headers 100 0 (trailer_text fs @ q) = PhrOk (map parsed fs) q" .
  show "parse_headers 100 0 (take k (trailer_text fs)) = PhrIncomplete" if k: "k < length (trailer_text fs)"
  proof (cases "parse_headers 100 0 (take k (trailer_text fs))")
    case (PhrOk x r)
    from steadyD(1) [OF steady_headers this, of "drop k (trailer_text fs)"] ok [of "[]"]
    have "r @ drop k (trailer_text fs) = []" by simp
    with k show ?thesis by simp
  next
    case PhrError
    from steadyD(2) [OF steady_headers this, of "drop k (trailer_text fs)"] ok [of "[]"] show ?thesis by simp
  qed
qed

lemma append_keeps_flag: "zuh_buf_append t (b, h) = (True, b', h') \<Longrightarrow> buf_hit_limit b' = buf_hit_limit b"
  by (auto simp: zuh_buf_append_def grow_to_def Let_def split: if_splits option.splits prod.splits)

text \<open>What the trailer section needs of the decoder: room in its buffer, and an empty list of fields.\<close>

definition trailer_ready :: "zuh_chunked \<Rightarrow> heap \<Rightarrow> bytes \<Rightarrow> nat \<Rightarrow> bool" where
  "trailer_ready c h t n \<longleftrightarrow> buf_room (ck_tbuf c, h) n \<and> buf_data (ck_tbuf c) = t \<and> \<not> buf_hit_limit (ck_tbuf c)
     \<and> default_list (ck_trailers c) h \<and> hs_items (ck_trailers c) = []"

lemma trailer_step:
  assumes ready: "trailer_ready c h t (length w + n)" and fs: "fits_default fs" "list_all (\<lambda>f. trimmed (hd_value f)) fs"
    and wire: "t @ w @ later = trailer_text fs @ X" "length (trailer_text fs @ X) < 65536"
  shows "if length (t @ w) < length (trailer_text fs)
    then \<exists>tb h'. trailer_append w c err h = (ZUH_ERR_WOULDBLOCK, c\<lparr>ck_tbuf := tb\<rparr>, err, h') \<and> trailer_ready (c\<lparr>ck_tbuf := tb\<rparr>) h' (t @ w) n
    else \<exists>c' h'. trailer_append w c err h = (ZUH_OK, c', err, h') \<and> hs_items (ck_trailers c') = fs
        \<and> ck_surplus c' + length later = length X \<and> ck_total c' = ck_total c"
proof -
  let ?T = "trailer_text fs"
  obtain tb h1 where a: "(if w = [] then (True, ck_tbuf c, h) else zuh_buf_append w (ck_tbuf c, h)) = (True, tb, h1)"
    "buf_room (tb, h1) n" "buf_hit_limit tb = buf_hit_limit (ck_tbuf c)" "buf_data tb = t @ w"
  proof (cases "w = []")
    case True
    with that ready show thesis by (simp add: trailer_ready_def)
  next
    case False
    obtain s' where s': "zuh_buf_append w (ck_tbuf c, h) = (True, s')" "buf_room s' n"
      using buf_append_room [of "(ck_tbuf c, h)" w n] ready by (auto simp: trailer_ready_def)
    obtain tb h1 where "s' = (tb, h1)" by (rule prod.exhaust)
    with s' that False append_keeps_flag [of w "ck_tbuf c" h tb h1]
      buft.exactD(3) [OF buft.exact_append, of "(ck_tbuf c, h)" w True s'] ready
    show thesis by (auto simp: trailer_ready_def buf_room_def)
  qed
  have dl: "default_list (ck_trailers c) h1" "hs_items (ck_trailers c) = []" "\<not> buf_hit_limit tb"
    using ready a(2,3) by (simp_all add: trailer_ready_def default_list_def buf_room_def)
  have eq: "trailer_append w c err h = trailer_parse (c\<lparr>ck_tbuf := tb\<rparr>) err h1"
    using a(1) by (simp add: trailer_append_def)
  show ?thesis
  proof (cases "length (t @ w) < length ?T")
    case True
    have "t @ w = take (length (t @ w)) (?T @ X)" unfolding wire(1) [symmetric] by simp
    also have "\<dots> = take (length (t @ w)) ?T" using True by simp
    finally have part: "t @ w = take (length (t @ w)) ?T" .
    have inc: "parse_headers 100 0 (t @ w) = PhrIncomplete"
      by (subst part) (rule trailer_parses(2) [OF fs True])
    have "length (t @ w) < 65536" using True wire(2) by simp
    then have "trailer_append w c err h = (ZUH_ERR_WOULDBLOCK, c\<lparr>ck_tbuf := tb\<rparr>, err, h1)"
      using inc a(4) dl(3) unfolding eq
      by (simp add: trailer_parse_def phr_parse_headers_def ZUH_DEFAULT_MAX_HEADER_COUNT_def ZUH_DEFAULT_MAX_HEADER_BYTES_def
          zuh_buf_hit_limit_def)
    with True a dl show ?thesis by (auto simp: trailer_ready_def)
  next
    case False
    define x where "x = drop (length ?T) (t @ w)"
    have "take (length ?T) ((t @ w) @ later) = ?T" using wire(1) by simp
    then have "take (length ?T) (t @ w) = ?T" using False by (subst (asm) take_append) simp
    then have tw: "t @ w = ?T @ x" unfolding x_def by (metis append_take_drop_id)
    then have X: "X = x @ later" using wire(1) by (metis append.assoc same_append_eq)
    have ne: "?T \<noteq> []" by (simp add: trailer_text_def)
    obtain hs' h2 where f: "trailer_fields (map parsed fs) (ck_trailers c) err h1 = (ZUH_OK, hs', err, h2)" "hs_items hs' = fs"
      using trailer_fields_all [of "ck_trailers c" fs h1 err] dl fs(1) by auto
    have "trailer_append w c err h = (ZUH_OK, c\<lparr>ck_tbuf := tb, ck_trailers := hs', ck_surplus := length x\<rparr>, err, h2)"
      using trailer_parses(1) [OF fs, of x] f(1) a(4) tw ne unfolding eq
      by (simp add: trailer_parse_def phr_parse_headers_def ZUH_DEFAULT_MAX_HEADER_COUNT_def)
    with f(2) X False show ?thesis by auto
  qed
qed

text \<open>
  The decoder \<open>c\<close> is in the middle of a message: \<open>R\<close> is still to come, its data \<open>body\<close>, then the
  trailer section for \<open>fs\<close> and the bytes \<open>X\<close> beyond; or it is in the trailer section itself.
\<close>

definition feeding :: "zuh_header list \<Rightarrow> bytes \<Rightarrow> zuh_chunked \<Rightarrow> heap \<Rightarrow> bytes \<Rightarrow> bytes \<Rightarrow> bool" where
  "feeding fs X c h R body \<longleftrightarrow> (\<exists>d. ck_decoder c = Some d \<and>
     (if ck_in_trailer c then body = [] \<and>
        (\<exists>t. trailer_ready c h t (length R) \<and> t @ R = trailer_text fs @ X \<and> length t < length (trailer_text fs))
      else ck_max_chunk c = 0
        \<and> (\<exists>d'. chunk_run d [] R = (CkComplete, d', body, trailer_text fs @ X))
        \<and> unat (total_overhead d) + (length R - (length body + length (trailer_text fs @ X))) < 102400
        \<and> (ck_max_total c \<noteq> 0 \<longrightarrow> unat (ck_total c) + length body \<le> unat (ck_max_total c))
        \<and> unat (ck_total c) + length body < 2 ^ 64
        \<and> trailer_ready c h [] (length (trailer_text fs @ X))))"

lemma feeding_heap: "feeding fs X c h R body \<Longrightarrow> plenty h \<and> (plenty h2 \<longrightarrow> feeding fs X c h2 R body)"
  by (auto simp: feeding_def trailer_ready_def default_list_def buf_room_def split: if_splits)

lemma feeding_more: "feeding fs X c h [] body \<Longrightarrow> False"
proof -
  assume f: "feeding fs X c h [] body"
  then obtain d where d: "ck_decoder c = Some d" by (auto simp: feeding_def)
  show False
  proof (cases "ck_in_trailer c")
    case True
    then show False using f d by (auto simp: feeding_def)
  next
    case False
    then obtain d' where "chunk_run d [] [] = (CkComplete, d', body, trailer_text fs @ X)" using f d by (auto simp: feeding_def)
    from chunk_run_size [OF this] show False by (simp add: trailer_text_def)
  qed
qed

lemma within_limit:
  assumes "ck_max_total c \<noteq> 0 \<longrightarrow> unat (ck_total c) + m \<le> unat (ck_max_total c)" "unat (ck_total c) + m < 2 ^ 64" "n \<le> m"
  shows "\<not> (ck_max_total c \<noteq> 0 \<and> of_nat n > (if ck_max_total c \<ge> ck_total c then ck_max_total c - ck_total c else 0))"
proof (cases "ck_max_total c = 0")
  case False
  then have le: "ck_total c \<le> ck_max_total c" using assms(1) by (simp add: word_le_nat_alt)
  have "unat (of_nat n :: u64) \<le> m" using assms(2,3) by (simp add: unat_of_nat take_bit_nat_eq_self)
  then have "unat (of_nat n :: u64) \<le> unat (ck_max_total c - ck_total c)"
    using assms(1) False le unat_sub [OF le] by simp
  then show ?thesis using le by (simp add: word_le_nat_alt not_less)
qed simp

text \<open>One piece: it delivers the next data, and either the message goes on or it is complete.\<close>

definition piece_done :: "zuh_header list \<Rightarrow> bytes \<Rightarrow> zuh_chunked \<Rightarrow> zuh_chunked \<Rightarrow> nat \<Rightarrow> bytes \<Rightarrow> bool" where
  "piece_done fs X c c' n R \<longleftrightarrow> hs_items (ck_trailers c') = fs \<and> ck_surplus c' + length R = length X
     \<and> ck_total c' = ck_total c + of_nat n"

lemma trailer_piece:
  assumes ready: "trailer_ready c h t (length w + length R)" and dec: "ck_decoder c = Some d" and "ck_in_trailer c"
    and fs: "fits_default fs" "list_all (\<lambda>f. trimmed (hd_value f)) fs"
    and wire: "t @ w @ R = trailer_text fs @ X" "length (trailer_text fs @ X) < 65536"
  shows "\<exists>rc c' h'. trailer_append w c err h = (rc, c', err, h') \<and>
    (if rc = ZUH_ERR_WOULDBLOCK then feeding fs X c' h' R [] \<and> ck_total c' = ck_total c
     else rc = ZUH_OK \<and> piece_done fs X c c' 0 R)"
proof -
  note step = trailer_step [OF ready fs wire, of err]
  show ?thesis
  proof (cases "length (t @ w) < length (trailer_text fs)")
    case True
    then obtain tb h1 where r: "trailer_append w c err h = (ZUH_ERR_WOULDBLOCK, c\<lparr>ck_tbuf := tb\<rparr>, err, h1)"
        "trailer_ready (c\<lparr>ck_tbuf := tb\<rparr>) h1 (t @ w) (length R)" using step by auto
    then have "feeding fs X (c\<lparr>ck_tbuf := tb\<rparr>) h1 R []"
      unfolding feeding_def using assms(2,3) wire(1) True by (auto intro!: exI [of _ "t @ w"])
    with r(1) show ?thesis by auto
  next
    case False
    then show ?thesis using step by (auto simp: piece_done_def)
  qed
qed

lemma decode_step:
  assumes feed: "feeding fs X c h (w @ R) body"
    and fs: "fits_default fs" "list_all (\<lambda>f. trimmed (hd_value f)) fs" and len: "length (trailer_text fs @ X) < 65536"
  shows "\<exists>rc c' n buf h' b2. zuh_chunked_decode c w err h = (rc, c', n, buf, err, h') \<and> body = take n buf @ b2
    \<and> length (take n buf) = n
    \<and> (if rc = ZUH_ERR_WOULDBLOCK then feeding fs X c' h' R b2 \<and> ck_total c' = ck_total c + of_nat n
       else rc = ZUH_OK \<and> b2 = [] \<and> piece_done fs X c c' n R)"
proof (cases "ck_in_trailer c")
  case True
  then obtain d t where d: "ck_decoder c = Some d" "body = []" "trailer_ready c h t (length w + length R)"
      "t @ w @ R = trailer_text fs @ X" using feed by (auto simp: feeding_def)
  from trailer_piece [OF d(3,1) True fs d(4) len, of err] obtain rc c' h' where
      t: "trailer_append w c err h = (rc, c', err, h')"
      "if rc = ZUH_ERR_WOULDBLOCK then feeding fs X c' h' R [] \<and> ck_total c' = ck_total c
       else rc = ZUH_OK \<and> piece_done fs X c c' 0 R" by blast
  have "zuh_chunked_decode c w err h = (rc, c', 0, w, err, h')" using t(1) True d(1) by (simp add: zuh_chunked_decode_def)
  then show ?thesis using t(2) d(2) by (intro exI conjI) (auto split: if_splits)
next
  case False
  then obtain d d' where d: "ck_decoder c = Some d" "ck_max_chunk c = 0"
      "chunk_run d [] (w @ R) = (CkComplete, d', body, trailer_text fs @ X)"
      "unat (total_overhead d) + (length (w @ R) - (length body + length (trailer_text fs @ X))) < 102400"
      "ck_max_total c \<noteq> 0 \<longrightarrow> unat (ck_total c) + length body \<le> unat (ck_max_total c)"
      "unat (ck_total c) + length body < 2 ^ 64" "trailer_ready c h [] (length (trailer_text fs @ X))"
    using feed unfolding feeding_def by auto
  note lim = within_limit [OF d(5,6)]
  from decode_piece [OF d(3,4)] show ?thesis
  proof (elim disjE exE conjE)
    fix d1 o1 b2 d2
    assume p: "phr_decode_chunked d w = (-2, d1, length o1, o1 @ drop (length o1) w)" "body = o1 @ b2"
      "chunk_run d1 [] R = (CkComplete, d2, b2, trailer_text fs @ X)"
      "unat (total_overhead d1) + (length R - (length b2 + length (trailer_text fs @ X))) < 102400"
    define c1 where "c1 = c\<lparr>ck_decoder := Some d1, ck_total := ck_total c + of_nat (length o1)\<rparr>"
    have dec: "zuh_chunked_decode c w err h = (ZUH_ERR_WOULDBLOCK, c1, length o1, o1 @ drop (length o1) w, err, h)"
      using False d(1,2) p(1,2) lim [of "length o1"] by (simp add: zuh_chunked_decode_def Let_def c1_def split: if_splits)
    have t: "unat (ck_total c1) = unat (ck_total c) + length o1"
      using d(6) p(2) by (simp add: c1_def) (subst unat_word_ariths, simp add: unat_of_nat take_bit_nat_eq_self)
    have "trailer_ready c1 h [] (length (trailer_text fs @ X))" using d(7) by (simp add: c1_def trailer_ready_def)
    moreover have "ck_max_total c1 \<noteq> 0 \<longrightarrow> unat (ck_total c1) + length b2 \<le> unat (ck_max_total c1)"
      using d(5) p(2) unfolding t by (auto simp: c1_def)
    ultimately have "feeding fs X c1 h R b2"
      unfolding feeding_def using False d(2,6) p t by (auto simp: c1_def)
    then show ?thesis using dec p(2) by (auto simp: c1_def)
  next
    fix d1 r1 buf
    assume p: "phr_decode_chunked d w = (int (length r1), d1, length body, buf)" "take (length body) buf = body"
      "take (length r1) (drop (length body) buf) = r1" "r1 @ R = trailer_text fs @ X"
    define c1 where "c1 = c\<lparr>ck_decoder := Some d1, ck_total := ck_total c + of_nat (length body), ck_in_trailer := True\<rparr>"
    have "length (r1 @ R) = length (trailer_text fs @ X)" using p(4) by (rule arg_cong)
    then have ready: "trailer_ready c1 h [] (length r1 + length R)" using d(7) by (simp add: c1_def trailer_ready_def)
    have eq: "[] @ r1 @ R = trailer_text fs @ X" using p(4) by simp
    obtain rc c2 h2 where ta: "trailer_append r1 c1 err h = (rc, c2, err, h2)"
      "if rc = ZUH_ERR_WOULDBLOCK then feeding fs X c2 h2 R [] \<and> ck_total c2 = ck_total c1
       else rc = ZUH_OK \<and> piece_done fs X c1 c2 0 R"
      using trailer_piece [OF ready _ _ fs eq len, of d1 err] by (auto simp: c1_def)
    have dec: "zuh_chunked_decode c w err h = (rc, c2, length body, buf, err, h2)"
      using False d(1,2) p(1,3) lim [of "length body"] ta(1)
      by (auto simp: zuh_chunked_decode_def Let_def c1_def split: if_splits)
    have n: "length (take (length body) buf) = length body" unfolding p(2) ..
    show ?thesis
      by (rule exI [of _ rc], rule exI [of _ c2], rule exI [of _ "length body"], rule exI [of _ buf], rule exI [of _ h2],
          rule exI [of _ "[]"])
        (use dec ta(2) n p(2) in \<open>auto simp: c1_def piece_done_def split: if_splits\<close>)
  qed
qed

lemma feed_body:
  assumes "feeding fs X c h (concat ws) body"
    and fs: "fits_default fs" "list_all (\<lambda>f. trimmed (hd_value f)) fs" "length (trailer_text fs @ X) < 65536"
  shows "\<exists>c' rest h'. chunked_feed c ws err h = (ZUH_OK, c', body, rest, err, h')
    \<and> piece_done fs X c c' (length body) (concat rest)"
  using assms(1)
proof (induction ws arbitrary: c h body)
  case Nil
  then show ?case using feeding_more by fastforce
next
  case (Cons w ws)
  then have "feeding fs X c h (w @ concat ws) body" by simp
  from decode_step [OF this fs, of err] obtain rc c1 n buf h1 b2 where
      r: "zuh_chunked_decode c w err h = (rc, c1, n, buf, err, h1)" "body = take n buf @ b2" "length (take n buf) = n"
      "if rc = ZUH_ERR_WOULDBLOCK then feeding fs X c1 h1 (concat ws) b2 \<and> ck_total c1 = ck_total c + of_nat n
       else rc = ZUH_OK \<and> b2 = [] \<and> piece_done fs X c c1 n (concat ws)" by blast
  show ?case
  proof (cases "rc = ZUH_ERR_WOULDBLOCK")
    case True
    from Cons.IH [of c1 h1 b2] obtain c' rest h' where
        "chunked_feed c1 ws err h1 = (ZUH_OK, c', b2, rest, err, h')" "piece_done fs X c1 c' (length b2) (concat rest)"
      using r(4) True by auto
    then show ?thesis using r True by (auto simp: piece_done_def)
  next
    case False
    then show ?thesis using r by (auto simp: piece_done_def)
  qed
qed

text \<open>A fresh decoder is at the start of any message within its limits.\<close>

lemma feeding_start:
  assumes init: "zuh_chunked_init 0 max_total h0 = (ZUH_OK, c, h)" and "plenty h0"
    and "list_all (\<lambda>k. chunk_ok k \<and> ch_data k \<noteq> []) cs" and "chunk_ok end" and "ch_data end = []"
    and "length (trailer_text fs @ X) < 65536"
    and "length (body_wire cs end) < length (concat (map ch_data cs)) + 102400"
    and "max_total \<noteq> 0 \<longrightarrow> length (concat (map ch_data cs)) \<le> unat max_total"
    and "length (concat (map ch_data cs)) < 2 ^ 64"
  shows "feeding fs X c h (body_wire cs end @ trailer_text fs @ X) (concat (map ch_data cs)) \<and> ck_total c = 0"
proof -
  obtain h1 where h1: "zuh_calloc 1 SIZEOF_DECODER h0 = (True, h1)" "plenty h1"
    using zuh_alloc_plenty [of h0 32] assms(2)
    by (simp add: zuh_calloc_def zuh_size_mul_def SIZEOF_DECODER_def SIZE_MAX_def ZUH_HDR_def)
  obtain tb h2 where tb: "zuh_buf_init 0 65536 h1 = (True, tb, h2)" "buf_room (tb, h2) 65535" "buf_data tb = []"
    using zuh_buf_init_room [OF h1(2), of 0 65536 65535] by (auto simp: SIZE_MAX_def)
  have hit: "\<not> buf_hit_limit tb" using tb(1) by (auto simp: zuh_buf_init_def)
  have c: "c = zeroed_chunked\<lparr>ck_decoder := Some zeroed_decoder, ck_trailers := zuh_headers_init, ck_tbuf := tb,
      ck_max_total := max_total\<rparr>" "h = h2"
    using init h1 tb(1)
    by (simp_all add: zuh_chunked_init_def Let_def ZUH_DEFAULT_MAX_HEADER_BYTES_def zeroed_chunked_def zeroed_decoder_def)
  have between: "between zeroed_decoder" by (simp add: between_def zeroed_decoder_def)
  have plenty: "plenty h2" using tb(2) by (simp add: buf_room_def)
  have "buf_room (tb, h2) (length (trailer_text fs @ X))" using tb(2) assms(6) by (auto simp: buf_room_def split: if_splits)
  then have "trailer_ready c h [] (length (trailer_text fs @ X))"
    using tb(3) hit default_list_init [OF plenty] by (simp add: trailer_ready_def c)
  then show ?thesis
    unfolding feeding_def
    using run_body [OF assms(3-5) between, of "[]" "trailer_text fs @ X"] assms(7-9)
    by (simp add: c zeroed_chunked_def zeroed_decoder_def)
qed

text \<open>
  C22: a chunked body survives any division of the stream. Whatever the sizes, extensions and hex
  digits of its chunks, and wherever the reads fall, feeding the pieces to a fresh decoder
  delivers the data of the chunks in order, exactly the trailer fields, and the number of bytes
  beyond the message; it never waits for more than the message and never refuses it, as long as
  the body respects the limit and the chunk overhead stays below the 100 KiB at which the decoder
  starts to compare it with the data.
\<close>
theorem chunked_any_pieces:
  assumes init: "zuh_chunked_init 0 max_total h0 = (ZUH_OK, c, h)" and "plenty h0"
    and "list_all (\<lambda>k. chunk_ok k \<and> ch_data k \<noteq> []) cs" and "chunk_ok end" and "ch_data end = []"
    and "fits_default fs" and "list_all (\<lambda>f. trimmed (hd_value f)) fs" and "length (trailer_text fs @ X) < 65536"
    and "concat ws = body_wire cs end @ trailer_text fs @ X"
    and "length (body_wire cs end) < length (concat (map ch_data cs)) + 102400"
    and "max_total \<noteq> 0 \<longrightarrow> length (concat (map ch_data cs)) \<le> unat max_total"
    and "length (concat (map ch_data cs)) < 2 ^ 64"
  shows "\<exists>c' rest h'. chunked_feed c ws err h = (ZUH_OK, c', concat (map ch_data cs), rest, err, h')
    \<and> hs_items (ck_trailers c') = fs \<and> ck_surplus c' + length (concat rest) = length X
    \<and> ck_total c' = of_nat (length (concat (map ch_data cs)))"
proof -
  have "feeding fs X c h (concat ws) (concat (map ch_data cs)) \<and> ck_total c = 0"
    unfolding assms(9) by (rule feeding_start [OF init]) (use assms in simp_all)
  then show ?thesis using feed_body [OF _ assms(6-8)] by (fastforce simp: piece_done_def)
qed

text \<open>
  A tunnel is built only on a complete, strictly parsed response with a status from 200 to 299;
  a 407 is reported as missing proxy authentication and every other status as a refusal, each with
  the code in the error object.
\<close>
lemma connect_response_verdict:
  assumes "zuh_proxy_connect_response buf err h = (c, n, status, err', h')"
  shows "(c = ZUH_OK \<longleftrightarrow> (\<exists>r e h1. zuh_response_parse zuh_response_init buf 0 err h = (ZUH_OK, r, n, e, h1)
            \<and> status = rs_status r \<and> 200 \<le> rs_status r \<and> rs_status r < 300))
    \<and> (c \<noteq> ZUH_OK \<longrightarrow> c = ZUH_ERR_WOULDBLOCK \<or> err_code err' = c)
    \<and> (c = ZUH_ERR_PROXY_AUTH \<longleftrightarrow> status = 407)"
proof -
  obtain rc r m e h1 where p: "zuh_response_parse zuh_response_init buf 0 err h = (rc, r, m, e, h1)"
    by (metis prod.exhaust)
  have "hs_inv (rs_headers zuh_response_init)" by (simp add: zuh_response_init_def)
  note T = response_parse_facts [OF p this]
  show ?thesis
    using assms p T by (auto simp: zuh_proxy_connect_response_def Let_def split: if_splits)
qed

section \<open>Examples\<close>

definition example_chunk :: chunk where
  "example_chunk = \<lparr>ch_size = ''3'', ch_ext = [], ch_data = ''abc''\<rparr>"

definition example_last :: chunk where
  "example_last = \<lparr>ch_size = ''0'', ch_ext = '';x'', ch_data = []\<rparr>"

lemma example_head: "\<exists>r h. zuh_response_parse zuh_response_init (head_text 1 200 ''OK'' [] @ ''x'') 0 no_error fresh_heap
      = (ZUH_OK, r, length (head_text 1 200 ''OK'' []), no_error, h) \<and> rs_status r = 200"
proof -
  have mx: "response_max zuh_response_init = 100"
    by (simp add: response_max_def zuh_response_init_def zuh_headers_init_def zuh_headers_init_limited_def
        ZUH_DEFAULT_MAX_HEADER_COUNT_def)
  have "parse_response 100 (head_text 1 200 ''OK'' [] @ ''x'') =
      PhrOk \<lparr>pr_minor = int 1, pr_status = int 200, pr_msg = ''OK'', pr_headers = map parsed []\<rparr> ''x''"
    by (rule head_parses) (simp_all add: found_ctl_def SP_def HTAB_def)
  then show ?thesis
    by (auto simp: zuh_response_parse_def phr_parse_response_def response_accept_def mx ZUH_REASON_MAX_def)
qed

lemma response_parse_typed_witness:
  "\<exists>r n h. zuh_response_parse zuh_response_init (head_text 1 200 ''OK'' [] @ ''x'') 0 no_error fresh_heap
      = (ZUH_OK, r, n, no_error, h) \<and> rs_minor r \<in> {0, 1} \<and> hs_inv (rs_headers r)"
proof -
  obtain r n h where p: "zuh_response_parse zuh_response_init (head_text 1 200 ''OK'' [] @ ''x'') 0 no_error fresh_heap
      = (ZUH_OK, r, n, no_error, h)" using example_head by blast
  from response_parse_typed [OF p] p show ?thesis by (auto simp: zuh_response_init_def)
qed

lemma response_parse_incremental_witness:
  "zuh_response_parse zuh_response_init (take 10 (head_text 1 200 ''OK'' [] @ ''x'')) 5 no_error fresh_heap
    = (ZUH_ERR_WOULDBLOCK, zuh_response_init, 0, no_error, fresh_heap)"
proof -
  have len: "length (head_text 1 200 ''OK'' []) = 19" by (simp add: head_text_def status_line_def)
  obtain r h where p: "zuh_response_parse zuh_response_init (head_text 1 200 ''OK'' [] @ ''x'') 0 no_error fresh_heap
      = (ZUH_OK, r, 19, no_error, h)" using example_head len by auto
  from response_parse_incremental [OF p, of 5 10] show ?thesis by simp
qed

lemma response_head_round_trip_witness:
  "\<exists>r h. zuh_response_parse zuh_response_init (head_text 1 200 ''OK'' [] @ ''x'') 0 no_error fresh_heap
      = (ZUH_OK, r, 19, no_error, h) \<and> rs_reason r = ''OK''"
proof -
  have len: "length (head_text 1 200 ''OK'' []) = 19" by (simp add: head_text_def status_line_def)
  show ?thesis
    using response_head_round_trip [of fresh_heap zuh_headers_init 1 200 "''OK''" "''x''" no_error] len
    by (auto simp: found_ctl_def SP_def HTAB_def ZUH_REASON_MAX_def)
qed

lemma connect_response_verdict_witness:
  "\<exists>n h. zuh_proxy_connect_response (head_text 1 200 ''OK'' [] @ ''x'') no_error fresh_heap = (ZUH_OK, n, 200, no_error, h)"
proof -
  obtain r h where p: "zuh_response_parse zuh_response_init (head_text 1 200 ''OK'' [] @ ''x'') 0 no_error fresh_heap
      = (ZUH_OK, r, length (head_text 1 200 ''OK'' []), no_error, h)" "rs_status r = 200" using example_head by blast
  obtain c n st e h' where c: "zuh_proxy_connect_response (head_text 1 200 ''OK'' [] @ ''x'') no_error fresh_heap = (c, n, st, e, h')"
    by (metis prod.exhaust)
  have "n = length (head_text 1 200 ''OK'' []) \<and> st = 200 \<and> e = no_error"
    using c p by (simp add: zuh_proxy_connect_response_def)
  with connect_response_verdict [OF c] p c show ?thesis by auto
qed

lemma chunked_any_pieces_witness:
  "\<exists>c h0 c' rest h. zuh_chunked_init 0 0 fresh_heap = (ZUH_OK, c, h0)
    \<and> chunked_feed c [''3'' @ CRLF @ ''ab'', ''c'' @ CRLF @ ''0;x'' @ [CR], LF # CR # LF # ''!''] no_error h0
      = (ZUH_OK, c', ''abc'', rest, no_error, h)
    \<and> ck_surplus c' + length (concat rest) = 1"
proof -
  obtain h1 where h1: "zuh_calloc 1 SIZEOF_DECODER fresh_heap = (True, h1)" "plenty h1"
    using zuh_alloc_plenty [OF plenty_fresh, of 32]
    by (simp add: zuh_calloc_def zuh_size_mul_def SIZEOF_DECODER_def SIZE_MAX_def ZUH_HDR_def)
  obtain tb h2 where tb: "zuh_buf_init 0 65536 h1 = (True, tb, h2)"
    using zuh_buf_init_room [OF h1(2), of 0 65536 65535] by (auto simp: SIZE_MAX_def)
  then obtain c h0 where c: "zuh_chunked_init 0 0 fresh_heap = (ZUH_OK, c, h0)"
    using h1 by (simp add: zuh_chunked_init_def Let_def ZUH_DEFAULT_MAX_HEADER_BYTES_def)
  let ?ws = "[''3'' @ CRLF @ ''ab'', ''c'' @ CRLF @ ''0;x'' @ [CR], LF # CR # LF # ''!'']"
  have ok: "chunk_ok example_chunk" "chunk_ok example_last"
    by (simp_all add: chunk_ok_def example_chunk_def example_last_def decode_hex_def CR_def LF_def)
  have "\<exists>c' rest h'. chunked_feed c ?ws no_error h0 = (ZUH_OK, c', concat (map ch_data [example_chunk]), rest, no_error, h')
    \<and> hs_items (ck_trailers c') = [] \<and> ck_surplus c' + length (concat rest) = length ''!''
    \<and> ck_total c' = of_nat (length (concat (map ch_data [example_chunk])))"
  proof (rule chunked_any_pieces [OF c plenty_fresh _ ok(2)])
    show "list_all (\<lambda>k. chunk_ok k \<and> ch_data k \<noteq> []) [example_chunk]" using ok(1) by (simp add: example_chunk_def)
    show "concat ?ws = body_wire [example_chunk] example_last @ trailer_text [] @ ''!''"
      by (simp add: body_wire_def chunk_wire_def chunk_head_def example_chunk_def example_last_def trailer_text_def)
  qed (simp_all add: example_last_def example_chunk_def fits_default_def trailer_text_def body_wire_def chunk_wire_def chunk_head_def)
  then show ?thesis using c by (auto simp: example_chunk_def)
qed

end
