(* ===== verification/Zuh_Body.thy ===== *)
theory Zuh_Body
  imports Zuh_Inflate Zuh_Sink Zuh_Response Zuh_Stream
begin

text \<open>
  \<^verbatim>\<open>src/zuh_body.c\<close>: everything between the wire and the sink for one response. The pipe
  decodes and delivers; the reader frames, one read at a time. The stream is a vtable over a
  state, the sink a vtable over its context, zlib the parameter of the decompressor. A call into
  zlib may not return, so what reaches it is an option.
\<close>

section \<open>The pipe\<close>

definition ZUH_READ_CHUNK :: nat where
  "ZUH_READ_CHUNK = 16384"

definition ZUH_MAX_DECOMPRESSION_RATIO :: u64 where
  "ZUH_MAX_DECOMPRESSION_RATIO = 1000"

record ('c, 'z) zuh_body_pipe =
  bp_sink :: "'c zuh_sink"
  bp_inflate :: "'z zuh_inflate"
  bp_inflating :: bool
  bp_staging :: zuh_buffer
  bp_raw_seen :: u64
  bp_surplus :: u64
  bp_max_body :: u64
  bp_trailers :: zuh_headers

text \<open>What \<^verbatim>\<open>memset\<close> leaves in the nested structures.\<close>

definition zeroed_inflate :: "'z zuh_inflate" where
  "zeroed_inflate =
     \<lparr>zi_strm = False, zi_z = None, zi_enc = ZUH_ENC_IDENTITY, zi_started = False, zi_finished = False,
      zi_wrap_decided = False, zi_hdr = [], zi_in_total = 0, zi_out_total = 0, zi_max_out = 0, zi_max_ratio = 0\<rparr>"

definition zeroed_buffer :: zuh_buffer where
  "zeroed_buffer = \<lparr>buf_data = [], buf_cap = 0, buf_max = 0, buf_hit_limit = False\<rparr>"

type_synonym ('c, 'z) pipe_init_result =
  "zuh_code \<times> ('c, 'z) zuh_body_pipe \<times> zuh_headers \<times> zuh_error \<times> heap"

definition zuh_body_pipe_init ::
    "'z zlib \<Rightarrow> 'c zuh_sink \<Rightarrow> zuh_headers \<Rightarrow> bool \<Rightarrow> u64 \<Rightarrow> zuh_error \<Rightarrow> heap \<Rightarrow> ('c, 'z) pipe_init_result" where
  "zuh_body_pipe_init zl sink hs no_decode max_body err h =
     (let p = \<lparr>bp_sink = sink, bp_inflate = zeroed_inflate, bp_inflating = False, bp_staging = zeroed_buffer,
               bp_raw_seen = 0, bp_surplus = 0, bp_max_body = max_body, bp_trailers = zuh_headers_init\<rparr>;
          kind = (if no_decode then ZUH_ENC_IDENTITY else zuh_encoding_parse (zuh_headers_get hs ''Content-Encoding'')) in
      if kind = ZUH_ENC_IDENTITY then (ZUH_OK, p, hs, err, h)
      else if kind = ZUH_ENC_UNSUPPORTED then
        (ZUH_ERR_BODY_DECODE, p, hs,
         zuh_error_set err ZUH_ERR_BODY_DECODE ZUH_PHASE_DECODE
           (''unsupported Content-Encoding: '' @ c_string (the (zuh_headers_get hs ''Content-Encoding''))), h)
      else case zuh_inflate_init zl kind max_body ZUH_MAX_DECOMPRESSION_RATIO h of (rc, z, h) \<Rightarrow>
        let p = p\<lparr>bp_inflate := z\<rparr> in
        if rc \<noteq> ZUH_OK then (ZUH_ERR_NOMEM, p, hs, err, h)
        else case zuh_buf_init (ZUH_READ_CHUNK * 4) SIZE_MAX h of (ok, b, h) \<Rightarrow>
          let p = p\<lparr>bp_staging := b\<rparr> in
          if \<not> ok then
            (case zuh_inflate_free z h of (z, h) \<Rightarrow> (ZUH_ERR_NOMEM, p\<lparr>bp_inflate := z\<rparr>, hs, err, h))
          else
            (case zuh_headers_remove hs ''Content-Encoding'' h of (_, hs, h) \<Rightarrow>
             case zuh_headers_remove hs ''Content-Length'' h of (_, hs, h) \<Rightarrow>
               (ZUH_OK, p\<lparr>bp_inflating := True\<rparr>, hs, err, h)))"

definition zuh_body_pipe_free :: "('c, 'z) zuh_body_pipe \<Rightarrow> heap \<Rightarrow> ('c, 'z) zuh_body_pipe \<times> heap" where
  "zuh_body_pipe_free p h =
     (case zuh_headers_free (bp_trailers p) h of (hs, h) \<Rightarrow>
      let p = p\<lparr>bp_trailers := hs\<rparr> in
      if \<not> bp_inflating p then (p, h)
      else case zuh_inflate_free (bp_inflate p) h of (z, h) \<Rightarrow>
        case zuh_buf_free (bp_staging p) h of (b, h) \<Rightarrow>
        (p\<lparr>bp_inflate := z, bp_staging := b, bp_inflating := False\<rparr>, h))"

definition cap_check :: "('c, 'z) zuh_body_pipe \<Rightarrow> nat \<Rightarrow> zuh_error \<Rightarrow> zuh_code \<times> zuh_error" where
  "cap_check p n err =
     (if bp_max_body p = 0 then (ZUH_OK, err)
      else if sk_written (bp_sink p) + of_nat n \<le> bp_max_body p then (ZUH_OK, err)
      else (ZUH_ERR_BODY_LIMIT,
            zuh_error_set err ZUH_ERR_BODY_LIMIT ZUH_PHASE_READ ''response body exceeds the configured limit''))"

type_synonym ('c, 'z) pipe_result = "zuh_code \<times> ('c, 'z) zuh_body_pipe \<times> zuh_error \<times> heap"

definition pipe_write ::
    "'c sink_vtable \<Rightarrow> ('c, 'z) zuh_body_pipe \<Rightarrow> bytes \<Rightarrow> zuh_error \<Rightarrow> heap \<Rightarrow> ('c, 'z) pipe_result" where
  "pipe_write kvt p data err h =
     (case zuh_sink_write kvt (bp_sink p) data err h of (rc, s, err, h) \<Rightarrow> (rc, p\<lparr>bp_sink := s\<rparr>, err, h))"

definition zuh_body_pipe_feed ::
    "'z zlib \<Rightarrow> 'c sink_vtable \<Rightarrow> ('c, 'z) zuh_body_pipe \<Rightarrow> bytes \<Rightarrow> zuh_error \<Rightarrow> heap
     \<Rightarrow> ('c, 'z) pipe_result option" where
  "zuh_body_pipe_feed zl kvt p data err h =
     (if length data = 0 then Some (ZUH_OK, p, err, h)
      else if \<not> bp_inflating p then
        (case cap_check p (length data) err of (rc, err) \<Rightarrow>
         if rc \<noteq> ZUH_OK then Some (rc, p, err, h) else Some (pipe_write kvt p data err h))
      else
        (case zuh_inflate_run zl (bp_inflate p) (Some data) ((bp_staging p)\<lparr>buf_data := []\<rparr>) err h of
           None \<Rightarrow> None
         | Some (rc, z, b, err, h) \<Rightarrow>
             let p = p\<lparr>bp_inflate := z, bp_staging := b\<rparr> in
             if rc \<noteq> ZUH_OK \<and> rc \<noteq> ZUH_ERR_WOULDBLOCK then Some (rc, p, err, h)
             else Some (pipe_write kvt p (buf_data b) err h)))"

definition zuh_body_pipe_finish ::
    "'z zlib \<Rightarrow> 'c sink_vtable \<Rightarrow> ('c, 'z) zuh_body_pipe \<Rightarrow> zuh_error \<Rightarrow> heap \<Rightarrow> ('c, 'z) pipe_result option" where
  "zuh_body_pipe_finish zl kvt p err h =
     (if \<not> bp_inflating p then Some (ZUH_OK, p, err, h)
      else
        (case zuh_inflate_run zl (bp_inflate p) None ((bp_staging p)\<lparr>buf_data := []\<rparr>) err h of
           None \<Rightarrow> None
         | Some (rc, z, b, err, h) \<Rightarrow>
             let p = p\<lparr>bp_inflate := z, bp_staging := b\<rparr> in
             if rc \<noteq> ZUH_OK then Some (rc, p, err, h)
             else if buf_data b \<noteq> [] then Some (pipe_write kvt p (buf_data b) err h)
             else Some (ZUH_OK, p, err, h)))"

section \<open>The reader\<close>

record zuh_body_reader =
  br_fr :: zuh_framing
  br_dec :: zuh_chunked
  br_chunked :: bool
  br_seed :: zuh_buffer
  br_work :: bool
  br_done :: bool

definition zuh_body_reader_free :: "zuh_body_reader \<Rightarrow> heap \<Rightarrow> zuh_body_reader \<times> heap" where
  "zuh_body_reader_free r h =
     (case (if br_chunked r then zuh_chunked_free (br_dec r) h else (br_dec r, h)) of (d, h) \<Rightarrow>
      let h = zuh_free (if br_work r then Some ZUH_READ_CHUNK else None) h in
      case zuh_buf_free (br_seed r) h of (b, h) \<Rightarrow>
      (r\<lparr>br_dec := d, br_chunked := False, br_work := False, br_seed := b\<rparr>, h))"

text \<open>The three allocations of the condition, each tried only if those before it succeeded.\<close>

definition reader_buffers :: "zuh_body_reader \<Rightarrow> bytes \<Rightarrow> heap \<Rightarrow> bool \<times> zuh_body_reader \<times> heap" where
  "reader_buffers r seed h =
     (case zuh_alloc ZUH_READ_CHUNK h of (w, h) \<Rightarrow>
      let r = r\<lparr>br_work := w\<rparr> in
      if \<not> w then (False, r, h)
      else case zuh_buf_init (if length seed \<noteq> 0 then length seed else 1) SIZE_MAX h of (ok, b, h) \<Rightarrow>
        if \<not> ok then (False, r\<lparr>br_seed := b\<rparr>, h)
        else if length seed = 0 then (True, r\<lparr>br_seed := b\<rparr>, h)
        else case zuh_buf_append seed (b, h) of (ok, b, h) \<Rightarrow> (ok, r\<lparr>br_seed := b\<rparr>, h))"

definition zuh_body_reader_init ::
    "zuh_framing \<Rightarrow> bytes \<Rightarrow> u64 \<Rightarrow> zuh_error \<Rightarrow> heap \<Rightarrow> zuh_code \<times> zuh_body_reader \<times> zuh_error \<times> heap" where
  "zuh_body_reader_init fr seed max_body err h =
     (let r = \<lparr>br_fr = fr, br_dec = zeroed_chunked, br_chunked = False, br_seed = zeroed_buffer,
               br_work = False, br_done = False\<rparr> in
      case reader_buffers r seed h of (ok, r, h) \<Rightarrow>
      if \<not> ok then
        (case zuh_body_reader_free r h of (r, h) \<Rightarrow>
         (ZUH_ERR_NOMEM, r, zuh_error_set err ZUH_ERR_NOMEM ZUH_PHASE_READ ''out of memory'', h))
      else if fr_kind fr = ZUH_FRAME_CHUNKED then
        (case zuh_chunked_init 0 max_body h of (rc, d, h) \<Rightarrow>
         let r = r\<lparr>br_dec := d\<rparr> in
         if rc \<noteq> ZUH_OK then
           (case zuh_body_reader_free r h of (r, h) \<Rightarrow>
            (rc, r, zuh_error_set err rc ZUH_PHASE_READ ''out of memory'', h))
         else (ZUH_OK, r\<lparr>br_chunked := True\<rparr>, err, h))
      else (ZUH_OK, r, err, h))"

text \<open>The return value, the bytes put into \<^verbatim>\<open>work\<close>, and the states they came from.\<close>

definition next_bytes ::
    "'s zuh_stream_vtable \<Rightarrow> zuh_body_reader \<Rightarrow> 's \<Rightarrow> zuh_deadline \<Rightarrow> zuh_error
     \<Rightarrow> int \<times> bytes \<times> zuh_body_reader \<times> 's \<times> zuh_error" where
  "next_bytes svt r s dl err =
     (if buf_len (br_seed r) \<noteq> 0 then
        let n = (if buf_len (br_seed r) < ZUH_READ_CHUNK then buf_len (br_seed r) else ZUH_READ_CHUNK)
        in (int n, take n (buf_data (br_seed r)), r\<lparr>br_seed := zuh_buf_consume (br_seed r) n\<rparr>, s, err)
      else case zuh_stream_read svt s ZUH_READ_CHUNK dl err of (n, data, s, err) \<Rightarrow> (n, data, r, s, err))"

text \<open>The four lines that end a body: what is left of the seed is surplus.\<close>

definition body_over ::
    "zuh_body_reader \<Rightarrow> ('c, 'z) zuh_body_pipe \<Rightarrow> zuh_body_reader \<times> ('c, 'z) zuh_body_pipe" where
  "body_over r p =
     (r\<lparr>br_seed := zuh_buf_reset (br_seed r), br_done := True\<rparr>,
      p\<lparr>bp_surplus := bp_surplus p + of_nat (buf_len (br_seed r))\<rparr>)"

type_synonym ('s, 'c, 'z) step_result =
  "zuh_code \<times> zuh_body_reader \<times> 's \<times> ('c, 'z) zuh_body_pipe \<times> zuh_error \<times> heap"

text \<open>End of stream.\<close>

definition step_closed ::
    "zuh_body_reader \<Rightarrow> 's \<Rightarrow> ('c, 'z) zuh_body_pipe \<Rightarrow> zuh_error \<Rightarrow> heap \<Rightarrow> ('s, 'c, 'z) step_result" where
  "step_closed r s p err h =
     (if fr_kind (br_fr r) = ZUH_FRAME_UNTIL_CLOSE then (ZUH_OK, r\<lparr>br_done := True\<rparr>, s, p, err, h)
      else if fr_kind (br_fr r) = ZUH_FRAME_CHUNKED then
        (ZUH_ERR_PARSE, r, s, p, read_error err ZUH_ERR_PARSE ''connection closed inside a chunked body'', h)
      else
        (ZUH_ERR_PARSE, r, s, p,
         read_error err ZUH_ERR_PARSE
           (''connection closed with '' @ show_nat (unat (bp_raw_seen p)) @ '' of ''
            @ show_nat (unat (fr_length (br_fr r))) @ '' body bytes read''), h))"

definition step_chunked ::
    "'z zlib \<Rightarrow> 'c sink_vtable \<Rightarrow> zuh_body_reader \<Rightarrow> bytes \<Rightarrow> 's \<Rightarrow> ('c, 'z) zuh_body_pipe \<Rightarrow> zuh_error \<Rightarrow> heap
     \<Rightarrow> ('s, 'c, 'z) step_result option" where
  "step_chunked zl kvt r data s p err h =
     (let p = p\<lparr>bp_raw_seen := bp_raw_seen p + of_nat (length data)\<rparr> in
      case zuh_chunked_decode (br_dec r) data err h of (rc, d, len, work, err, h) \<Rightarrow>
      let r = r\<lparr>br_dec := d\<rparr> in
      case (if len \<noteq> 0 then zuh_body_pipe_feed zl kvt p (take len work) err h else Some (ZUH_OK, p, err, h)) of
        None \<Rightarrow> None
      | Some (w, p, err, h) \<Rightarrow>
          if w \<noteq> ZUH_OK then Some (w, r, s, p, err, h)
          else if rc = ZUH_ERR_WOULDBLOCK then Some (ZUH_OK, r, s, p, err, h)
          else if rc \<noteq> ZUH_OK then Some (rc, r, s, p, err, h)
          else
            (case zuh_headers_free (bp_trailers p) h of (_, h) \<Rightarrow>
             case body_over r (p\<lparr>bp_surplus := bp_surplus p + of_nat (ck_surplus d),
                                 bp_trailers := ck_trailers d\<rparr>) of (r, p) \<Rightarrow>
             Some (ZUH_OK, r\<lparr>br_dec := d\<lparr>ck_trailers := zuh_headers_init\<rparr>\<rparr>, s, p, err, h)))"

text \<open>\<^verbatim>\<open>LENGTH\<close> and \<^verbatim>\<open>UNTIL_CLOSE\<close>.\<close>

definition step_plain ::
    "'z zlib \<Rightarrow> 'c sink_vtable \<Rightarrow> zuh_body_reader \<Rightarrow> bytes \<Rightarrow> 's \<Rightarrow> ('c, 'z) zuh_body_pipe \<Rightarrow> zuh_error \<Rightarrow> heap
     \<Rightarrow> ('s, 'c, 'z) step_result option" where
  "step_plain zl kvt r data s p err h =
     (let fr = br_fr r; n = length data;
          k = (if fr_kind fr = ZUH_FRAME_LENGTH \<and> bp_raw_seen p + of_nat n > fr_length fr
               then unat (fr_length fr - bp_raw_seen p) else n);
          p = p\<lparr>bp_surplus := bp_surplus p + of_nat (n - k)\<rparr> in
      case zuh_body_pipe_feed zl kvt p (take k data) err h of
        None \<Rightarrow> None
      | Some (w, p, err, h) \<Rightarrow>
          if w \<noteq> ZUH_OK then Some (w, r, s, p, err, h)
          else
            let p = p\<lparr>bp_raw_seen := bp_raw_seen p + of_nat k\<rparr>;
                (r, p) = (if fr_kind fr = ZUH_FRAME_LENGTH \<and> bp_raw_seen p \<ge> fr_length fr
                          then body_over r p else (r, p))
            in Some (ZUH_OK, r, s, p, err, h))"

definition step_framed ::
    "'z zlib \<Rightarrow> 's zuh_stream_vtable \<Rightarrow> 'c sink_vtable \<Rightarrow> zuh_body_reader \<Rightarrow> 's \<Rightarrow> ('c, 'z) zuh_body_pipe
     \<Rightarrow> zuh_deadline \<Rightarrow> zuh_error \<Rightarrow> heap \<Rightarrow> ('s, 'c, 'z) step_result option" where
  "step_framed zl svt kvt r s p dl err h =
     (if fr_kind (br_fr r) = ZUH_FRAME_NONE
         \<or> (fr_kind (br_fr r) = ZUH_FRAME_LENGTH \<and> bp_raw_seen p \<ge> fr_length (br_fr r)) then
        (case body_over r p of (r, p) \<Rightarrow> Some (ZUH_OK, r, s, p, err, h))
      else case next_bytes svt r s dl err of (n, data, r, s, err) \<Rightarrow>
        if n < 0 then Some (err_code err, r, s, p, err, h)
        else if n = 0 then Some (step_closed r s p err h)
        else if fr_kind (br_fr r) = ZUH_FRAME_CHUNKED then step_chunked zl kvt r data s p err h
        else step_plain zl kvt r data s p err h)"

definition zuh_body_reader_step ::
    "'z zlib \<Rightarrow> 's zuh_stream_vtable \<Rightarrow> 'c sink_vtable \<Rightarrow> zuh_body_reader \<Rightarrow> 's \<Rightarrow> ('c, 'z) zuh_body_pipe
     \<Rightarrow> zuh_deadline \<Rightarrow> zuh_error \<Rightarrow> heap \<Rightarrow> ('s, 'c, 'z) step_result option" where
  "zuh_body_reader_step zl svt kvt r s p dl err h =
     (if br_done r then Some (ZUH_OK, r, s, p, err, h)
      else case step_framed zl svt kvt r s p dl err h of
          None \<Rightarrow> None
        | Some (rc, r, s, p, err, h) \<Rightarrow>
            if rc = ZUH_OK \<and> br_done r then
              (case zuh_body_pipe_finish zl kvt p err h of
                 None \<Rightarrow> None
               | Some (rc, p, err, h) \<Rightarrow> Some (rc, r, s, p, err, h))
            else Some (rc, r, s, p, err, h))"

partial_function (option) body_loop ::
    "'z zlib \<Rightarrow> 's zuh_stream_vtable \<Rightarrow> 'c sink_vtable \<Rightarrow> zuh_body_reader \<Rightarrow> 's \<Rightarrow> ('c, 'z) zuh_body_pipe
     \<Rightarrow> zuh_deadline \<Rightarrow> zuh_error \<Rightarrow> heap \<Rightarrow> ('s, 'c, 'z) step_result option" where
  "body_loop zl svt kvt r s p dl err h =
     (if br_done r then Some (ZUH_OK, r, s, p, err, h)
      else case zuh_body_reader_step zl svt kvt r s p dl err h of
          None \<Rightarrow> None
        | Some (rc, r, s, p, err, h) \<Rightarrow>
            if rc \<noteq> ZUH_OK then Some (rc, r, s, p, err, h) else body_loop zl svt kvt r s p dl err h)"

definition zuh_body_read ::
    "'z zlib \<Rightarrow> 's zuh_stream_vtable \<Rightarrow> 'c sink_vtable \<Rightarrow> 's \<Rightarrow> zuh_framing \<Rightarrow> ('c, 'z) zuh_body_pipe \<Rightarrow> bytes \<Rightarrow> u64
     \<Rightarrow> zuh_deadline \<Rightarrow> zuh_error \<Rightarrow> heap
     \<Rightarrow> (zuh_code \<times> 's \<times> ('c, 'z) zuh_body_pipe \<times> zuh_error \<times> heap) option" where
  "zuh_body_read zl svt kvt s fr p seed max_body dl err h =
     (case zuh_body_reader_init fr seed max_body err h of (rc, r, err, h) \<Rightarrow>
      case (if rc = ZUH_OK then body_loop zl svt kvt r s p dl err h else Some (rc, r, s, p, err, h)) of
        None \<Rightarrow> None
      | Some (rc, r, s, p, err, h) \<Rightarrow> Some (rc, s, p, err, snd (zuh_body_reader_free r h)))"

section \<open>What the stream promises\<close>

text \<open>
  \<open>got s\<close> is everything the backend has handed out in state \<open>s\<close>. A read that returns a count
  hands out that many bytes, no more than asked for; a failing read leaves its code in the error.
\<close>

definition reads_faithful :: "'s zuh_stream_vtable \<Rightarrow> ('s \<Rightarrow> bytes) \<Rightarrow> bool" where
  "reads_faithful svt got \<longleftrightarrow> (\<forall>s n dl err k data s' err'. zuh_stream_read svt s n dl err = (k, data, s', err') \<longrightarrow>
     length data = nat k \<and> nat k \<le> n \<and> got s' = got s @ data \<and> (k < 0 \<longrightarrow> err_code err' \<noteq> ZUH_OK))"

lemma next_bytes_spec:
  assumes "reads_faithful svt got" and "next_bytes svt r s dl err = (n, data, r', s', err')"
  shows "length data = nat n \<and> nat n \<le> ZUH_READ_CHUNK
    \<and> (\<exists>seen. got s' = got s @ seen \<and> data @ buf_data (br_seed r') = buf_data (br_seed r) @ seen)
    \<and> br_fr r' = br_fr r \<and> br_dec r' = br_dec r \<and> br_done r' = br_done r \<and> (n < 0 \<longrightarrow> err_code err' \<noteq> ZUH_OK)
    \<and> (n \<le> 0 \<longrightarrow> buf_data (br_seed r') = [] \<and> buf_data (br_seed r) = [])"
proof (cases "buf_len (br_seed r) \<noteq> 0")
  case True
  let ?n = "if buf_len (br_seed r) < ZUH_READ_CHUNK then buf_len (br_seed r) else ZUH_READ_CHUNK"
  have "ZUH_READ_CHUNK \<noteq> 0" by (simp add: ZUH_READ_CHUNK_def)
  then show ?thesis using True assms(2) zuh_buf_consume_data [of "br_seed r" ?n]
    by (auto simp: next_bytes_def Let_def split: if_splits)
next
  case False
  obtain k d s1 e1 where rd: "zuh_stream_read svt s ZUH_READ_CHUNK dl err = (k, d, s1, e1)" by (rule prod_cases4)
  have "length d = nat k \<and> nat k \<le> ZUH_READ_CHUNK \<and> got s1 = got s @ d \<and> (k < 0 \<longrightarrow> err_code e1 \<noteq> ZUH_OK)"
    using assms(1) rd unfolding reads_faithful_def by blast
  then show ?thesis using False assms(2) rd by (auto simp: next_bytes_def)
qed

section \<open>Delivery of identity bodies\<close>

text \<open>Feeding the pipe without decompression delivers the piece, a prefix of it, or nothing.\<close>

lemma feed_identity:
  assumes sink: "sink_contract kvt sunk" and id: "\<not> bp_inflating p"
    and feed: "zuh_body_pipe_feed zl kvt p data err h = Some (rc, p', err', h')"
  shows "\<exists>k sk. p' = p\<lparr>bp_sink := sk\<rparr> \<and> sunk sk = sunk (bp_sink p) @ take k data \<and> (rc = ZUH_OK \<longrightarrow> k = length data)"
proof -
  obtain wrc sk we wh where w: "zuh_sink_write kvt (bp_sink p) data err h = (wrc, sk, we, wh)" by (rule prod_cases4)
  have stay: "p = p\<lparr>bp_sink := bp_sink p\<rparr>" by simp
  show ?thesis
  proof (cases "length data = 0 \<or> fst (cap_check p (length data) err) \<noteq> ZUH_OK")
    case True
    then have "p' = p" "rc = ZUH_OK \<longrightarrow> data = []"
      using feed id by (auto simp: zuh_body_pipe_feed_def split: if_splits prod.splits)
    then show ?thesis using stay by (intro exI [of _ 0] exI [of _ "bp_sink p"]) auto
  next
    case False
    then have "snd (cap_check p (length data) err) = err" by (simp add: cap_check_def split: if_splits)
    then have "rc = wrc" "p' = p\<lparr>bp_sink := sk\<rparr>" using feed id False w
      by (auto simp: zuh_body_pipe_feed_def pipe_write_def split: if_splits prod.splits)
    with sink_contract.sinks_prefix [OF sink w] show ?thesis by blast
  qed
qed

lemma feed_identity_returns:
  "\<not> bp_inflating p \<Longrightarrow> \<exists>r. zuh_body_pipe_feed zl kvt p data err h = Some r"
  by (auto simp: zuh_body_pipe_feed_def pipe_write_def split: prod.split)

text \<open>
  The reader over \<open>T\<close>, the bytes received since the start with the seed before them, of which the
  seed still holds the end: what it has delivered of a body of \<open>len\<close> bytes, and what it counts.
\<close>

definition wanted :: "zuh_framing \<Rightarrow> bytes \<Rightarrow> bytes" where
  "wanted fr T = (case fr_kind fr of ZUH_FRAME_NONE \<Rightarrow> [] | ZUH_FRAME_LENGTH \<Rightarrow> take (unat (fr_length fr)) T | _ \<Rightarrow> T)"

definition reading :: "zuh_framing \<Rightarrow> bytes \<Rightarrow> bytes \<Rightarrow> bytes \<Rightarrow> zuh_body_reader \<Rightarrow> ('c, 'z) zuh_body_pipe \<Rightarrow> bool" where
  "reading fr S0 S T r p \<longleftrightarrow> br_fr r = fr \<and> \<not> bp_inflating p
     \<and> (if br_done r then S = S0 @ wanted fr T \<and> bp_surplus p = of_nat (length T - length (wanted fr T))
          \<and> (fr_kind fr = ZUH_FRAME_LENGTH \<longrightarrow> unat (fr_length fr) \<le> length T)
        else bp_surplus p = 0 \<and> (\<exists>C. T = C @ buf_data (br_seed r) \<and> S = S0 @ C
          \<and> bp_raw_seen p = of_nat (length C) \<and> (fr_kind fr = ZUH_FRAME_NONE \<longrightarrow> C = [])
          \<and> (fr_kind fr = ZUH_FRAME_LENGTH \<longrightarrow> length C \<le> unat (fr_length fr))))"

lemma unat_of_nat_le: "n \<le> unat (w :: u64) \<Longrightarrow> unat (of_nat n :: u64) = n"
  using unsigned_less [of w, where ?'a = nat] by (simp add: unat_of_nat take_bit_nat_eq_self)

lemma plain_take:
  assumes "length C \<le> unat (L :: u64)" and "n \<le> ZUH_READ_CHUNK" and "unat L + ZUH_READ_CHUNK < 2 ^ 64"
  shows "(of_nat (length C) + of_nat n > L \<longleftrightarrow> length C + n > unat L)
    \<and> unat (L - of_nat (length C)) = unat L - length C"
proof -
  have c: "unat (of_nat (length C) :: u64) = length C" using assms(1) by (rule unat_of_nat_le)
  have small: "length C + n < 2 ^ 64"
    using assms by simp
  then have "unat (of_nat (length C) + of_nat n :: u64) = length C + n"
    using c by (simp add: unat_of_nat take_bit_nat_eq_self flip: of_nat_add)
  moreover have "of_nat (length C) \<le> L" using c assms(1) by (simp add: word_le_nat_alt)
  ultimately show ?thesis using c by (simp add: word_less_nat_alt unat_sub)
qed

lemma wanted_prefix:
  assumes "fr_kind fr = ZUH_FRAME_UNTIL_CLOSE \<or> fr_kind fr = ZUH_FRAME_LENGTH \<and> length C + k \<le> unat (fr_length fr)"
  shows "C @ take j (take k data) = take (length C + length (take j (take k data))) (wanted fr (C @ data @ q))"
proof -
  have pre: "take (length C + length (take j (take k data))) (C @ data @ q) = C @ take j (take k data)"
    by (simp add: min_def)
  show ?thesis using assms pre by (auto simp: wanted_def min_def split: if_splits)
qed

lemma step_over:
  assumes inv: "reading fr S0 S T r p" and "\<not> br_done r"
    and fin: "fr_kind fr = ZUH_FRAME_NONE \<or> fr_kind fr = ZUH_FRAME_LENGTH \<and> bp_raw_seen p \<ge> fr_length fr"
    and over: "body_over r p = (r', p')"
  shows "reading fr S0 S T r' p' \<and> bp_sink p' = bp_sink p \<and> br_done r'"
proof -
  obtain C where C: "T = C @ buf_data (br_seed r)" "S = S0 @ C" "bp_raw_seen p = of_nat (length C)" "bp_surplus p = 0"
      "fr_kind fr = ZUH_FRAME_NONE \<longrightarrow> C = []" "fr_kind fr = ZUH_FRAME_LENGTH \<longrightarrow> length C \<le> unat (fr_length fr)"
    using inv assms(2) by (auto simp: reading_def)
  have len: "length C = unat (fr_length fr)" if l: "fr_kind fr = ZUH_FRAME_LENGTH"
  proof -
    have "unat (of_nat (length C) :: u64) = length C" using C(6) l by (intro unat_of_nat_le) simp
    moreover have "unat (fr_length fr) \<le> unat (of_nat (length C) :: u64)" using fin l C(3) by (auto simp: word_le_nat_alt)
    ultimately show ?thesis using C(6) l by simp
  qed
  have "wanted fr T = C" using fin C(1,5) len by (auto simp: wanted_def)
  then show ?thesis using inv over C len by (auto simp: reading_def body_over_def)
qed

lemma plain_reading:
  assumes sink: "sink_contract kvt sunk" and id: "\<not> bp_inflating p" "br_fr r = fr" "\<not> br_done r"
    and kind: "fr_kind fr = ZUH_FRAME_LENGTH \<or> fr_kind fr = ZUH_FRAME_UNTIL_CLOSE"
    and big: "unat (fr_length fr) + ZUH_READ_CHUNK < 2 ^ 64"
    and C: "sunk (bp_sink p) = S0 @ C" "bp_raw_seen p = of_nat (length C)" "bp_surplus p = 0"
      "fr_kind fr = ZUH_FRAME_LENGTH \<Longrightarrow> length C \<le> unat (fr_length fr)"
    and data: "length data \<le> ZUH_READ_CHUNK" "data \<noteq> []" "T = C @ data @ buf_data (br_seed r)"
    and step: "step_plain zl kvt r data s p err h = Some (rc, r', s', p', err', h')"
  shows "s' = s \<and> \<not> bp_inflating p' \<and> (if rc = ZUH_OK then reading fr S0 (sunk (bp_sink p')) T r' p'
      \<and> (br_done r' \<or> fr_kind fr = ZUH_FRAME_UNTIL_CLOSE \<or> bp_raw_seen p < bp_raw_seen p' \<and> bp_raw_seen p' < fr_length fr)
    else \<exists>k. sunk (bp_sink p') = S0 @ take k (wanted fr T))"
proof -
  let ?L = "fr_length fr" and ?n = "length data"
  define k where "k = (if fr_kind fr = ZUH_FRAME_LENGTH \<and> bp_raw_seen p + of_nat ?n > ?L
      then unat (?L - bp_raw_seen p) else ?n)"
  have k: "k = (if fr_kind fr = ZUH_FRAME_LENGTH then min ?n (unat ?L - length C) else ?n)"
  proof (cases "fr_kind fr = ZUH_FRAME_LENGTH")
    case True
    from plain_take [OF C(4) [OF True] data(1) big] show ?thesis
      unfolding k_def C(2) using True C(4)
      by (cases "length C + length data \<le> unat ?L") (simp_all add: min_absorb1 min_absorb2)
  qed (simp add: k_def)
  define p1 where "p1 = p\<lparr>bp_surplus := bp_surplus p + of_nat (?n - k)\<rparr>"
  obtain w p2 e2 h2 where f: "zuh_body_pipe_feed zl kvt p1 (take k data) err h = Some (w, p2, e2, h2)"
    using feed_identity_returns [of p1] id by (metis p1_def prod.exhaust zuh_body_pipe.select_convs(3) zuh_body_pipe.surjective zuh_body_pipe.update_convs(6))
  have id1: "\<not> bp_inflating p1" using id by (simp add: p1_def)
  from feed_identity [OF sink id1 f] obtain j sk where
      j: "p2 = p1\<lparr>bp_sink := sk\<rparr>" "sunk sk = S0 @ C @ take j (take k data)" "w = ZUH_OK \<longrightarrow> j = length (take k data)"
    using C(1) by (auto simp: p1_def)
  have pre: "C @ take j (take k data) = take (length C + length (take j (take k data))) (wanted fr T)"
    unfolding data(3) by (rule wanted_prefix) (use kind k C(4) in auto)
  define p3 where "p3 = p2\<lparr>bp_raw_seen := bp_raw_seen p2 + of_nat k\<rparr>"
  have form: "step_plain zl kvt r data s p err h = (if w \<noteq> ZUH_OK then Some (w, r, s, p2, e2, h2)
      else case (if fr_kind fr = ZUH_FRAME_LENGTH \<and> bp_raw_seen p3 \<ge> ?L then body_over r p3 else (r, p3)) of
        (r, p) \<Rightarrow> Some (ZUH_OK, r, s, p, e2, h2))"
    unfolding step_plain_def Let_def id(2) k_def [symmetric] p1_def [symmetric] f p3_def by simp
  show ?thesis
  proof (cases "w = ZUH_OK")
    case False
    then have "rc = w" "s' = s" "p' = p2" using step unfolding form by simp_all
    then show ?thesis using False j pre id1 by auto
  next
    case True
    have kn: "k \<le> ?n" using k by simp
    have S3: "sunk (bp_sink p3) = S0 @ C @ take k data" using j True kn by (simp add: p3_def min_absorb2)
    have raw: "bp_raw_seen p3 = of_nat (length C + k)" using j(1) C(2) by (simp add: p3_def p1_def)
    have sur: "bp_surplus p3 = of_nat (?n - k)" using j(1) C(3) by (simp add: p3_def p1_def)
    have id3: "\<not> bp_inflating p3" using id1 j(1) by (simp add: p3_def)
    show ?thesis
    proof (cases "fr_kind fr = ZUH_FRAME_LENGTH \<and> bp_raw_seen p3 \<ge> ?L")
      case over: True
      have ck: "length C + k \<le> unat ?L" using k C(4) over by auto
      then have "unat (of_nat (length C + k) :: u64) = length C + k" by (rule unat_of_nat_le)
      then have full: "length C + k = unat ?L" using over raw ck by (simp add: word_le_nat_alt)
      have res: "rc = ZUH_OK" "s' = s" "(r', p') = body_over r p3"
        using step True over unfolding form by (auto simp: body_over_def)
      have want: "wanted fr T = C @ take k data"
        using over full kn by (simp add: wanted_def data(3) full [symmetric])
      have "length T - unat ?L = (?n - k) + buf_len (br_seed r)" using full kn by (simp add: data(3))
      then have "reading fr S0 (sunk (bp_sink p')) T r' p'" "br_done r'" "\<not> bp_inflating p'"
        using res(3) S3 sur want full kn id3 id(2) by (auto simp: reading_def body_over_def data(3))
      then show ?thesis using res by simp
    next
      case going: False
      have kk: "k = ?n"
      proof (cases "fr_kind fr = ZUH_FRAME_LENGTH")
        case len: True
        have ck: "length C + k \<le> unat ?L" using k C(4) len by auto
        then have "unat (of_nat (length C + k) :: u64) = length C + k" by (rule unat_of_nat_le)
        then have "length C + k < unat ?L" using going len raw by (simp add: word_le_nat_alt)
        then show ?thesis using k len by (auto simp: min_def split: if_splits)
      qed (use k in simp)
      have ck: "fr_kind fr = ZUH_FRAME_LENGTH \<longrightarrow> length C + ?n \<le> unat ?L" using k kk C(4) by (auto simp: min_def split: if_splits)
      have res: "rc = ZUH_OK" "s' = s" "r' = r" "p' = p3"
        using step True going unfolding form by auto
      have "reading fr S0 (sunk (bp_sink p3)) T r p3"
        unfolding reading_def using S3 sur raw kk ck id3 id(2,3) kind
        by (auto simp: data(3) intro!: exI [of _ "C @ data"])
      moreover have "bp_raw_seen p < bp_raw_seen p3 \<and> bp_raw_seen p3 < ?L" if l: "fr_kind fr = ZUH_FRAME_LENGTH"
      proof -
        have "unat (of_nat (length C) :: u64) = length C" "unat (of_nat (length C + ?n) :: u64) = length C + ?n"
          using ck l unat_of_nat_le [of "length C" ?L] unat_of_nat_le [of "length C + ?n" ?L] by simp_all
        moreover have "0 < ?n" using data(2) by simp
        ultimately show ?thesis using going l raw kk C(2) by (simp add: word_less_nat_alt word_le_nat_alt del: of_nat_add)
      qed
      ultimately show ?thesis using res kind id3 by auto
    qed
  qed
qed

text \<open>One step of the reader under a framing that is not chunked.\<close>

lemma step_reading:
  assumes reads: "reads_faithful svt got" and sink: "sink_contract kvt sunk" and nck: "fr_kind fr \<noteq> ZUH_FRAME_CHUNKED"
    and big: "unat (fr_length fr) + ZUH_READ_CHUNK < 2 ^ 64"
    and inv: "reading fr S0 (sunk (bp_sink p)) T r p" and nd: "\<not> br_done r"
    and step: "zuh_body_reader_step zl svt kvt r s p dl err h = Some (rc, r', s', p', err', h')"
  shows "\<exists>seen. got s' = got s @ seen \<and> (if rc = ZUH_OK
      then reading fr S0 (sunk (bp_sink p')) (T @ seen) r' p'
        \<and> (fr_kind fr = ZUH_FRAME_LENGTH \<longrightarrow> br_done r' \<or> bp_raw_seen p < bp_raw_seen p' \<and> bp_raw_seen p' < fr_length fr)
      else \<exists>k. sunk (bp_sink p') = S0 @ take k (wanted fr (T @ seen)))"
proof -
  have fr: "br_fr r = fr" and id: "\<not> bp_inflating p" using inv by (simp_all add: reading_def)
  obtain C where C: "T = C @ buf_data (br_seed r)" "sunk (bp_sink p) = S0 @ C" "bp_raw_seen p = of_nat (length C)" "bp_surplus p = 0"
      "fr_kind fr = ZUH_FRAME_NONE \<longrightarrow> C = []" "fr_kind fr = ZUH_FRAME_LENGTH \<longrightarrow> length C \<le> unat (fr_length fr)"
    using inv nd by (auto simp: reading_def)
  have finish: "zuh_body_pipe_finish zl kvt q e g = Some (ZUH_OK, q, e, g)" if "\<not> bp_inflating q" for q e g
    using that by (simp add: zuh_body_pipe_finish_def)
  obtain rc1 r1 s1 p1 e1 h1 where fr1: "step_framed zl svt kvt r s p dl err h = Some (rc1, r1, s1, p1, e1, h1)"
    using step nd by (auto simp: zuh_body_reader_step_def split: option.splits prod.splits)
  have plain: "rc = rc1 \<and> r' = r1 \<and> s' = s1 \<and> p' = p1" if "\<not> bp_inflating p1"
    using step nd fr1 finish [OF that] by (auto simp: zuh_body_reader_step_def split: if_splits)
  show ?thesis
  proof (cases "fr_kind fr = ZUH_FRAME_NONE \<or> fr_kind fr = ZUH_FRAME_LENGTH \<and> bp_raw_seen p \<ge> fr_length fr")
    case True
    obtain r2 p2 where o: "body_over r p = (r2, p2)" by (rule prod.exhaust)
    note ov = step_over [OF inv nd True o]
    have "rc1 = ZUH_OK" "r1 = r2" "s1 = s" "p1 = p2" using fr1 True o fr by (auto simp: step_framed_def)
    then show ?thesis using plain ov by (intro exI [of _ "[]"]) (auto simp: reading_def)
  next
    case False
    then have kind: "fr_kind fr = ZUH_FRAME_LENGTH \<or> fr_kind fr = ZUH_FRAME_UNTIL_CLOSE"
      using nck by (cases "fr_kind fr") auto
    obtain n data r2 s2 e2 where nb: "next_bytes svt r s dl err = (n, data, r2, s2, e2)" by (metis prod.exhaust)
    from next_bytes_spec [OF reads nb] obtain seen where seen: "got s2 = got s @ seen"
        "data @ buf_data (br_seed r2) = buf_data (br_seed r) @ seen" "length data = nat n" "nat n \<le> ZUH_READ_CHUNK"
        "br_fr r2 = fr" "\<not> br_done r2" "n < 0 \<Longrightarrow> err_code e2 \<noteq> ZUH_OK"
        "n \<le> 0 \<Longrightarrow> buf_data (br_seed r2) = []" "n \<le> 0 \<Longrightarrow> buf_data (br_seed r) = []"
      using fr nd by auto
    have T: "T @ seen = C @ data @ buf_data (br_seed r2)" using C(1) seen(2) by simp
    have none: "\<exists>k. sunk (bp_sink p) = S0 @ take k (wanted fr (T @ seen))"
      using wanted_prefix [of fr C 0 0 data "buf_data (br_seed r2)"] kind C(2,6) T by (intro exI [of _ "length C"]) auto
    consider "n < 0" | "n = 0" | "n > 0" by linarith
    then show ?thesis
    proof cases
      case 1
      then have "rc1 = err_code e2" "s1 = s2" "p1 = p" using fr1 False nb fr nck by (auto simp: step_framed_def split: if_splits)
      then show ?thesis using plain id none seen(1) seen(7) [OF 1] by auto
    next
      case 2
      then have st: "Some (rc1, r1, s1, p1, e1, h1) = Some (step_closed r2 s2 p e2 h)"
        using fr1 False nb fr nck by (auto simp: step_framed_def split: if_splits)
      have e: "T @ seen = C" using T seen(3) seen(8) 2 by simp
      show ?thesis
      proof (cases "fr_kind fr = ZUH_FRAME_UNTIL_CLOSE")
        case True
        then have "rc1 = ZUH_OK" "r1 = r2\<lparr>br_done := True\<rparr>" "s1 = s2" "p1 = p"
          using st seen(5) by (auto simp: step_closed_def)
        moreover have "reading fr S0 (sunk (bp_sink p)) (T @ seen) (r2\<lparr>br_done := True\<rparr>) p"
          using True e C(2,4) seen(5) id by (simp add: reading_def wanted_def)
        ultimately show ?thesis using plain id seen(1) by auto
      next
        case length: False
        then have "rc1 = ZUH_ERR_PARSE" "s1 = s2" "p1 = p" using st seen(5) kind by (auto simp: step_closed_def)
        then show ?thesis using plain id none seen(1) by auto
      qed
    next
      case 3
      then have st: "step_plain zl kvt r2 data s2 p e2 h = Some (rc1, r1, s1, p1, e1, h1)"
        using fr1 False nb fr nck seen(5) kind by (auto simp: step_framed_def split: if_splits)
      have len: "length data \<le> ZUH_READ_CHUNK" using seen(3,4) by simp
      have ne: "data \<noteq> []" using seen(3) 3 by auto
      from plain_reading [OF sink id seen(5,6) kind big C(2-4) _ len ne T st] C(6) have
        res: "s1 = s2" "\<not> bp_inflating p1" "if rc1 = ZUH_OK then reading fr S0 (sunk (bp_sink p1)) (T @ seen) r1 p1
          \<and> (br_done r1 \<or> fr_kind fr = ZUH_FRAME_UNTIL_CLOSE \<or> bp_raw_seen p < bp_raw_seen p1 \<and> bp_raw_seen p1 < fr_length fr)
          else \<exists>k. sunk (bp_sink p1) = S0 @ take k (wanted fr (T @ seen))" by auto
      then show ?thesis using plain seen(1) kind by (auto split: if_splits)
    qed
  qed
qed

lemma if_weaken: "(if c then A \<and> B else C) \<Longrightarrow> (if c then A else C)"
  by (simp split: if_splits)

lemma if_first: "(if c then A \<and> (B \<longrightarrow> D) else C) \<Longrightarrow> B \<Longrightarrow> c \<longrightarrow> A \<and> D"
  by (simp split: if_splits)

lemma loop_reading:
  assumes reads: "reads_faithful svt got" and sink: "sink_contract kvt sunk" and nck: "fr_kind fr \<noteq> ZUH_FRAME_CHUNKED"
    and big: "unat (fr_length fr) + ZUH_READ_CHUNK < 2 ^ 64"
    and run: "body_loop zl svt kvt r s p dl err h = Some res"
    and inv: "reading fr S0 (sunk (bp_sink p)) T r p"
  shows "case res of (rc, r', s', p', err', h') \<Rightarrow> \<exists>seen. got s' = got s @ seen \<and>
      (if rc = ZUH_OK then br_done r' \<and> reading fr S0 (sunk (bp_sink p')) (T @ seen) r' p'
       else \<exists>k. sunk (bp_sink p') = S0 @ take k (wanted fr (T @ seen)))"
  using reads sink inv
proof (induction arbitrary: T rule: body_loop.raw_induct [OF _ run])
  case (1 loop zl svt kvt r s p dl err h res)
  show ?case
  proof (cases "br_done r")
    case True
    then have "res = (ZUH_OK, r, s, p, err, h)" using 1(2) by simp
    then show ?thesis using True 1(5) by (auto intro: exI [of _ "[]"])
  next
    case False
    then obtain rc1 r1 s1 p1 e1 h1 where st: "zuh_body_reader_step zl svt kvt r s p dl err h = Some (rc1, r1, s1, p1, e1, h1)"
      using 1(2) by (auto split: option.splits prod.splits)
    from step_reading [OF 1(3,4) nck big 1(5) False st] obtain seen where seen: "got s1 = got s @ seen"
      "if rc1 = ZUH_OK then reading fr S0 (sunk (bp_sink p1)) (T @ seen) r1 p1
       else \<exists>k. sunk (bp_sink p1) = S0 @ take k (wanted fr (T @ seen))"
      by (elim exE conjE) (rule that, assumption, erule if_weaken)
    show ?thesis
    proof (cases "rc1 = ZUH_OK")
      case True
      then have "loop zl svt kvt r1 s1 p1 dl e1 h1 = Some res" using 1(2) False st by simp
      from 1(1) [OF this 1(3,4)] seen True show ?thesis by fastforce
    next
      case bad: False
      then have "res = (rc1, r1, s1, p1, e1, h1)" using 1(2) False st by simp
      then show ?thesis using bad seen by auto
    qed
  qed
qed

lemma reader_init_plain:
  assumes "zuh_body_reader_init fr seed mb err h = (rc, r, err', h')" and "fr_kind fr \<noteq> ZUH_FRAME_CHUNKED" and "rc = ZUH_OK"
  shows "br_fr r = fr \<and> \<not> br_done r \<and> buf_data (br_seed r) = seed"
proof -
  have init: "buf_data b = []" if "zuh_buf_init n m h = (ok, b, h')" for n m h ok b h'
    using that by (auto simp: zuh_buf_init_def Let_def split: if_splits dest: grow_to_data)
  show ?thesis
    using assms by (auto simp: zuh_body_reader_init_def reader_buffers_def Let_def split: if_splits prod.splits
        dest!: init append_data)
qed


lemma feed_stays_identity:
  assumes "sink_contract kvt sunk" and "\<not> bp_inflating p"
  shows "\<exists>w q e g. zuh_body_pipe_feed zl kvt p data err h = Some (w, q, e, g) \<and> \<not> bp_inflating q"
proof -
  obtain w q e g where f: "zuh_body_pipe_feed zl kvt p data err h = Some (w, q, e, g)"
    using feed_identity_returns [OF assms(2)] by (metis prod.exhaust)
  with feed_identity [OF assms f] assms(2) show ?thesis by auto
qed

text \<open>Feeding and finishing return, decompressing or not, and do not count.\<close>

lemma feed_returns:
  assumes "zlib_progress zl pend"
  shows "\<exists>w q e g. zuh_body_pipe_feed zl kvt p data err h = Some (w, q, e, g) \<and> bp_raw_seen q = bp_raw_seen p"
    "\<exists>w q e g. zuh_body_pipe_finish zl kvt p err h = Some (w, q, e, g) \<and> bp_raw_seen q = bp_raw_seen p"
proof -
  have inflated: "\<exists>rc z b e g. zuh_inflate_run zl z0 inp b0 err h = Some (rc, z, b, e, g)" for z0 inp b0
    using inflate_run_total [OF assms] by (metis prod.exhaust)
  show "\<exists>w q e g. zuh_body_pipe_feed zl kvt p data err h = Some (w, q, e, g) \<and> bp_raw_seen q = bp_raw_seen p"
    using inflated [of "bp_inflate p" "Some data" "(bp_staging p)\<lparr>buf_data := []\<rparr>"]
    by (auto simp: zuh_body_pipe_feed_def pipe_write_def Let_def split: prod.split)
  show "\<exists>w q e g. zuh_body_pipe_finish zl kvt p err h = Some (w, q, e, g) \<and> bp_raw_seen q = bp_raw_seen p"
    using inflated [of "bp_inflate p" None "(bp_staging p)\<lparr>buf_data := []\<rparr>"]
    by (auto simp: zuh_body_pipe_finish_def pipe_write_def Let_def split: prod.split)
qed

text \<open>A step over a body of known length returns, and one that goes on has received bytes of it.\<close>

lemma plain_progress:
  assumes "zlib_progress zl pend" and "fr_kind (br_fr r) = ZUH_FRAME_LENGTH" and "0 < length data" "length data \<le> ZUH_READ_CHUNK"
    and "bp_raw_seen p < fr_length (br_fr r)" and "unat (fr_length (br_fr r)) + ZUH_READ_CHUNK < 2 ^ 64" and "\<not> br_done r"
  shows "\<exists>rc r' p' e' h'. step_plain zl kvt r data s p err h = Some (rc, r', s, p', e', h') \<and> br_fr r' = br_fr r
    \<and> (rc = ZUH_OK \<longrightarrow> br_done r' \<or> bp_raw_seen p < bp_raw_seen p' \<and> bp_raw_seen p' < fr_length (br_fr r))"
proof -
  let ?n = "length data" and ?l = "fr_length (br_fr r)"
  define k where "k = (if fr_kind (br_fr r) = ZUH_FRAME_LENGTH \<and> bp_raw_seen p + of_nat ?n > ?l then unat (?l - bp_raw_seen p) else ?n)"
  have less: "unat (bp_raw_seen p) < unat ?l" using assms(5) by (simp add: word_less_nat_alt)
  have n: "unat (of_nat ?n :: u64) = ?n" using assms(4) by (simp add: ZUH_READ_CHUNK_def unat_of_nat take_bit_nat_eq_self)
  have sum: "unat (bp_raw_seen p + of_nat ?n) = unat (bp_raw_seen p) + ?n"
    using less assms(4,6) n by (subst unat_plus_simple [THEN iffD1]) (auto simp: word_le_nat_alt unat_word_ariths take_bit_nat_eq_self)
  have diff: "unat (?l - bp_raw_seen p) = unat ?l - unat (bp_raw_seen p)" using assms(5) by (simp add: unat_sub)
  have over: "bp_raw_seen p + of_nat k = (if bp_raw_seen p + of_nat ?n > ?l then ?l else bp_raw_seen p + of_nat ?n)"
    using assms(2) by (simp add: k_def)
  obtain w q e g where f: "zuh_body_pipe_feed zl kvt (p\<lparr>bp_surplus := bp_surplus p + of_nat (?n - k)\<rparr>) (take k data) err h = Some (w, q, e, g)"
      "bp_raw_seen q = bp_raw_seen p"
    using feed_returns(1) [OF assms(1), of kvt "p\<lparr>bp_surplus := bp_surplus p + of_nat (?n - k)\<rparr>" "take k data" err h] by auto
  have grows: "bp_raw_seen p < bp_raw_seen p + of_nat ?n" using sum assms(3) by (simp add: word_less_nat_alt)
  show ?thesis
    unfolding step_plain_def Let_def k_def [symmetric]
    using f over grows assms(2) by (auto simp: body_over_def not_le)
qed

lemma step_progress:
  assumes "reads_faithful svt got" and "zlib_progress zl pend" and "fr_kind (br_fr r) = ZUH_FRAME_LENGTH"
    and "unat (fr_length (br_fr r)) + ZUH_READ_CHUNK < 2 ^ 64" and "\<not> br_done r"
  shows "\<exists>rc r' s' p' e' h'. zuh_body_reader_step zl svt kvt r s p dl err h = Some (rc, r', s', p', e', h')
    \<and> (rc = ZUH_OK \<longrightarrow> br_done r' \<or> br_fr r' = br_fr r \<and> bp_raw_seen p < bp_raw_seen p' \<and> bp_raw_seen p' < fr_length (br_fr r))"
proof -
  have "\<exists>rc r' s' p' e' h'. step_framed zl svt kvt r s p dl err h = Some (rc, r', s', p', e', h')
    \<and> (rc = ZUH_OK \<longrightarrow> br_done r' \<or> br_fr r' = br_fr r \<and> bp_raw_seen p < bp_raw_seen p' \<and> bp_raw_seen p' < fr_length (br_fr r))"
  proof (cases "bp_raw_seen p \<ge> fr_length (br_fr r)")
    case True
    with assms(3) show ?thesis by (simp add: step_framed_def body_over_def)
  next
    case False
    obtain n data r2 s2 e2 where nb: "next_bytes svt r s dl err = (n, data, r2, s2, e2)" by (metis prod.exhaust)
    note b = next_bytes_spec [OF assms(1) nb]
    have fr: "br_fr r2 = br_fr r" "\<not> br_done r2" using b assms(5) by simp_all
    show ?thesis
    proof (cases "n \<le> 0")
      case True
      with False nb b assms(3) fr show ?thesis by (auto simp: step_framed_def step_closed_def)
    next
      case pos: False
      have "0 < length data" "length data \<le> ZUH_READ_CHUNK" "bp_raw_seen p < fr_length (br_fr r2)" using b pos False fr by auto
      from plain_progress [OF assms(2) _ this] obtain rc r' p' e' h' where
        "step_plain zl kvt r2 data s2 p e2 h = Some (rc, r', s2, p', e', h')" "br_fr r' = br_fr r2"
        "rc = ZUH_OK \<longrightarrow> br_done r' \<or> bp_raw_seen p < bp_raw_seen p' \<and> bp_raw_seen p' < fr_length (br_fr r2)"
        using assms(3,4) fr by metis
      with False nb pos assms(3) fr show ?thesis by (auto simp: step_framed_def)
    qed
  qed
  then obtain rc r' s' p' e' h' where st: "step_framed zl svt kvt r s p dl err h = Some (rc, r', s', p', e', h')"
      "rc = ZUH_OK \<longrightarrow> br_done r' \<or> br_fr r' = br_fr r \<and> bp_raw_seen p < bp_raw_seen p' \<and> bp_raw_seen p' < fr_length (br_fr r)" by blast
  obtain w q e g where "zuh_body_pipe_finish zl kvt p' e' h' = Some (w, q, e, g)" using feed_returns(2) [OF assms(2)] by blast
  with st assms(5) show ?thesis by (cases "rc = ZUH_OK \<and> br_done r'") (auto simp: zuh_body_reader_step_def)
qed

lemma loop_returns:
  assumes "reads_faithful svt got" and "zlib_progress zl pend"
  shows "fr_kind (br_fr r) = ZUH_FRAME_LENGTH \<Longrightarrow> unat (fr_length (br_fr r)) + ZUH_READ_CHUNK < 2 ^ 64 \<Longrightarrow>
    \<exists>x. body_loop zl svt kvt r s p dl err h = Some x"
proof (induction "unat (fr_length (br_fr r)) - unat (bp_raw_seen p)" arbitrary: r s err h p rule: less_induct)
  case less
  show ?case
  proof (cases "br_done r")
    case True
    then show ?thesis by (subst body_loop.simps) simp
  next
    case False
    obtain rc r1 s1 p1 e1 h1 where st: "zuh_body_reader_step zl svt kvt r s p dl err h = Some (rc, r1, s1, p1, e1, h1)"
        "rc = ZUH_OK \<longrightarrow> br_done r1 \<or> br_fr r1 = br_fr r \<and> bp_raw_seen p < bp_raw_seen p1 \<and> bp_raw_seen p1 < fr_length (br_fr r)"
      using step_progress [OF assms less.prems False] by blast
    have "\<exists>x. body_loop zl svt kvt r1 s1 p1 dl e1 h1 = Some x" if ok: "rc = ZUH_OK"
    proof (cases "br_done r1")
      case True
      then show ?thesis by (subst body_loop.simps) simp
    next
      case going: False
      with st(2) ok have "br_fr r1 = br_fr r" "unat (fr_length (br_fr r1)) - unat (bp_raw_seen p1) < unat (fr_length (br_fr r)) - unat (bp_raw_seen p)"
        by (auto simp: word_less_nat_alt)
      with less.hyps [of r1 p1] less.prems show ?thesis by simp
    qed
    then show ?thesis using False st(1) by (subst body_loop.simps) auto
  qed
qed

text \<open>
  C33: reading a body with a \<^verbatim>\<open>Content-Length\<close> ends, decompressed or not, whatever the stream sends and the
  sink answers, as long as each read returns, zlib makes the progress it documents and the length leaves
  room for one more read in 64 bits: every step that goes on has received bytes of the body.
\<close>
theorem body_length_returns:
  assumes "reads_faithful svt got" and "zlib_progress zl pend" and "fr_kind fr = ZUH_FRAME_LENGTH"
    and "unat (fr_length fr) + ZUH_READ_CHUNK < 2 ^ 64"
  shows "\<exists>r. zuh_body_read zl svt kvt s fr p seed max_body dl err h = Some r"
proof -
  obtain rc0 r e0 h0 where i: "zuh_body_reader_init fr seed max_body err h = (rc0, r, e0, h0)" by (rule prod_cases4)
  show ?thesis
  proof (cases "rc0 = ZUH_OK")
    case True
    have "fr_kind fr \<noteq> ZUH_FRAME_CHUNKED" using assms(3) by simp
    from reader_init_plain [OF i this True] have "br_fr r = fr" by simp
    then obtain x where "body_loop zl svt kvt r s p dl e0 h0 = Some x"
      using loop_returns [OF assms(1,2), of r kvt s p dl e0 h0] assms(3,4) by blast
    with True i show ?thesis by (cases x) (auto simp: zuh_body_read_def)
  qed (simp add: zuh_body_read_def i)
qed

section \<open>The cap holds before the sink\<close>

text \<open>
  The pipe has delivered \<open>n\<close> bytes: that is what the sink counts and, when inflating, what the
  decompressor counts, and it is within the cap both of them know.
\<close>

definition within_cap :: "nat \<Rightarrow> ('c, 'z) zuh_body_pipe \<Rightarrow> bool" where
  "within_cap n p \<longleftrightarrow> unat (sk_written (bp_sink p)) = n \<and> n \<le> unat (bp_max_body p) \<and> bp_max_body p \<noteq> 0
     \<and> (bp_inflating p \<longrightarrow> zi_enc (bp_inflate p) \<noteq> ZUH_ENC_IDENTITY \<and> zi_max_out (bp_inflate p) = bp_max_body p
          \<and> unat (zi_out_total (bp_inflate p)) = n)"

text \<open>What one operation may add to the sink \<open>sk\<close>, whether it succeeds or not.\<close>

definition adds_within :: "('c zuh_sink \<Rightarrow> bytes) \<Rightarrow> nat \<Rightarrow> ('c, 'z) zuh_body_pipe \<Rightarrow> bool \<Rightarrow> ('c, 'z) zuh_body_pipe \<Rightarrow> bool" where
  "adds_within sunk n p ok p' \<longleftrightarrow> bp_max_body p' = bp_max_body p
     \<and> (\<exists>d. sunk (bp_sink p') = sunk (bp_sink p) @ d \<and> n + length d \<le> unat (bp_max_body p)
          \<and> (ok \<longrightarrow> within_cap (n + length d) p'))"

lemma adds_nothing:
  "within_cap n p \<Longrightarrow> bp_sink p' = bp_sink p \<Longrightarrow> bp_inflating p' = bp_inflating p \<Longrightarrow> bp_max_body p' = bp_max_body p \<Longrightarrow>
   (ok \<Longrightarrow> bp_inflate p' = bp_inflate p) \<Longrightarrow> adds_within sunk n p ok p'"
  by (auto simp: adds_within_def within_cap_def intro!: exI [of _ "[]"])

lemma adds_trans:
  assumes "adds_within sunk n p True p1" and "\<And>m. within_cap m p1 \<Longrightarrow> adds_within sunk m p1 ok p2"
  shows "adds_within sunk n p ok p2"
proof -
  obtain d where d: "sunk (bp_sink p1) = sunk (bp_sink p) @ d" "within_cap (n + length d) p1" "bp_max_body p1 = bp_max_body p"
    using assms(1) by (auto simp: adds_within_def)
  from assms(2) [OF d(2)] obtain d2 where "sunk (bp_sink p2) = sunk (bp_sink p1) @ d2"
      "n + length d + length d2 \<le> unat (bp_max_body p)" "ok \<longrightarrow> within_cap (n + length d + length d2) p2"
      "bp_max_body p2 = bp_max_body p" using d(3) by (auto simp: adds_within_def)
  then show ?thesis using d(1) by (auto simp: adds_within_def add.assoc intro!: exI [of _ "d @ d2"])
qed

lemma write_within:
  assumes sink: "sink_contract kvt sunk" and w: "pipe_write kvt p data err h = (rc, p', err', h')"
    and count: "unat (sk_written (bp_sink p)) + length data \<le> unat (bp_max_body p)"
  shows "\<exists>d sk. p' = p\<lparr>bp_sink := sk\<rparr> \<and> sunk sk = sunk (bp_sink p) @ d \<and> length d \<le> length data
    \<and> (rc = ZUH_OK \<longrightarrow> d = data \<and> unat (sk_written sk) = unat (sk_written (bp_sink p)) + length data)"
proof -
  obtain wrc sk we wh where k: "zuh_sink_write kvt (bp_sink p) data err h = (wrc, sk, we, wh)" by (rule prod_cases4)
  have p': "rc = wrc" "p' = p\<lparr>bp_sink := sk\<rparr>" using w k by (auto simp: pipe_write_def)
  obtain j where j: "sunk sk = sunk (bp_sink p) @ take j data" "wrc = ZUH_OK \<longrightarrow> j = length data"
    using sink_contract.sinks_prefix [OF sink k] by blast
  have len: "unat (of_nat (length data) :: u64) = length data"
    by (rule unat_of_nat_le [of _ "bp_max_body p"]) (use count in simp)
  have "unat (sk_written (bp_sink p)) + length data < 2 ^ 64"
    using count unsigned_less [of "bp_max_body p", where ?'a = nat] by simp
  then have "wrc = ZUH_OK \<longrightarrow> unat (sk_written sk) = unat (sk_written (bp_sink p)) + length data"
    using sink_contract.counts [OF sink k] len by (simp add: unat_word_ariths)
  with p' j show ?thesis by (intro exI [of _ "take j data"] exI [of _ sk]) auto
qed

lemma cap_check_ok:
  assumes "cap_check p n err = (ZUH_OK, e)" and "bp_max_body p \<noteq> 0"
    and "unat (bp_max_body p) + ZUH_READ_CHUNK < 2 ^ 64" and "n \<le> ZUH_READ_CHUNK" and "unat (sk_written (bp_sink p)) \<le> unat (bp_max_body p)"
  shows "unat (sk_written (bp_sink p)) + n \<le> unat (bp_max_body p)"
proof -
  have small: "unat (sk_written (bp_sink p)) + n < 2 ^ 64" using assms(3-5) by simp
  then have "unat (sk_written (bp_sink p) + of_nat n) = unat (sk_written (bp_sink p)) + n"
    by (simp add: unat_word_ariths unat_of_nat take_bit_nat_eq_self)
  then show ?thesis using assms(1,2) by (auto simp: cap_check_def word_le_nat_alt split: if_splits)
qed

lemma feed_within:
  assumes sink: "sink_contract kvt sunk" and cap: "within_cap n p" and big: "unat (bp_max_body p) + ZUH_READ_CHUNK < 2 ^ 64"
    and len: "length data \<le> ZUH_READ_CHUNK" and feed: "zuh_body_pipe_feed zl kvt p data err h = Some (rc, p', err', h')"
  shows "adds_within sunk n p (rc = ZUH_OK) p'"
proof -
  consider "data = []" | "data \<noteq> []" "\<not> bp_inflating p" | "data \<noteq> []" "bp_inflating p" by blast
  then show ?thesis
  proof cases
    case 1
    then show ?thesis using feed cap by (auto simp: zuh_body_pipe_feed_def intro: adds_nothing)
  next
    case 2
    obtain crc ce where c: "cap_check p (length data) err = (crc, ce)" by (rule prod.exhaust)
    show ?thesis
    proof (cases "crc = ZUH_OK")
      case False
      then show ?thesis using feed 2 c cap by (auto simp: zuh_body_pipe_feed_def intro: adds_nothing)
    next
      case True
      have count: "unat (sk_written (bp_sink p)) + length data \<le> unat (bp_max_body p)"
        using cap_check_ok [OF c [unfolded True] _ big len] cap by (simp add: within_cap_def)
      have w: "pipe_write kvt p data ce h = (rc, p', err', h')" using feed 2 c True by (simp add: zuh_body_pipe_feed_def)
      from write_within [OF sink w count] count cap 2(2) show ?thesis by (auto simp: adds_within_def within_cap_def)
    qed
  next
    case 3
    then obtain irc z b e1 h1 where run:
        "zuh_inflate_run zl (bp_inflate p) (Some data) ((bp_staging p)\<lparr>buf_data := []\<rparr>) err h = Some (irc, z, b, e1, h1)"
      using feed by (auto simp: zuh_body_pipe_feed_def split: option.splits prod.splits)
    let ?p1 = "p\<lparr>bp_inflate := z, bp_staging := b\<rparr>"
    have z: "zi_enc z = zi_enc (bp_inflate p)" "zi_max_out z = bp_max_body p" "unat (zi_out_total z) \<le> unat (bp_max_body p)"
        "unat (zi_out_total z) = n + buf_len b"
      using inflate_run_pays [OF run] cap 3(2) by (auto simp: bounded_run_def within_cap_def word_le_nat_alt)
    show ?thesis
    proof (cases "irc \<noteq> ZUH_OK \<and> irc \<noteq> ZUH_ERR_WOULDBLOCK")
      case True
      then have "rc = irc" "p' = ?p1" using feed 3 run by (auto simp: zuh_body_pipe_feed_def)
      then show ?thesis using cap True by (auto intro: adds_nothing)
    next
      case False
      then have w: "pipe_write kvt ?p1 (buf_data b) e1 h1 = (rc, p', err', h')" using feed 3 run by (auto simp: zuh_body_pipe_feed_def)
      have count: "unat (sk_written (bp_sink ?p1)) + buf_len b \<le> unat (bp_max_body ?p1)"
        using z cap by (simp add: within_cap_def)
      from write_within [OF sink w count] count cap z 3(2) show ?thesis by (auto simp: adds_within_def within_cap_def)
    qed
  qed
qed

lemma finish_within:
  assumes sink: "sink_contract kvt sunk" and cap: "within_cap n p"
    and fin: "zuh_body_pipe_finish zl kvt p err h = Some (rc, p', err', h')"
  shows "adds_within sunk n p (rc = ZUH_OK) p'"
proof (cases "bp_inflating p")
  case False
  then show ?thesis using fin cap by (auto simp: zuh_body_pipe_finish_def intro: adds_nothing)
next
  case True
  then have "zi_enc (bp_inflate p) \<noteq> ZUH_ENC_IDENTITY" using cap by (simp add: within_cap_def)
  then show ?thesis using fin cap True
    by (auto simp: zuh_body_pipe_finish_def zuh_inflate_run_def split: if_splits intro: adds_nothing)
qed

text \<open>The counters of the reader are no business of the cap.\<close>

definition same_delivery :: "('c, 'z) zuh_body_pipe \<Rightarrow> ('c, 'z) zuh_body_pipe \<Rightarrow> bool" where
  "same_delivery p q \<longleftrightarrow> bp_sink q = bp_sink p \<and> bp_inflating q = bp_inflating p \<and> bp_inflate q = bp_inflate p
     \<and> bp_max_body q = bp_max_body p"

lemma same_delivery_within: "same_delivery p q \<Longrightarrow> within_cap n q = within_cap n p"
  by (simp add: same_delivery_def within_cap_def)

lemma same_delivery_adds:
  "adds_within sunk n p True p' \<Longrightarrow> same_delivery p' q \<Longrightarrow> adds_within sunk n p ok q"
  "adds_within sunk n q ok p' \<Longrightarrow> same_delivery p q \<Longrightarrow> adds_within sunk n p ok p'"
  by (auto simp: adds_within_def same_delivery_def within_cap_def)

lemma adds_fail: "adds_within sunk n p ok p' \<Longrightarrow> adds_within sunk n p False p'"
  by (auto simp: adds_within_def)

lemma decode_length: "zuh_chunked_decode c data err h = (rc, c', n, buf, e, h') \<Longrightarrow> length (take n buf) \<le> length data"
proof -
  have buf: "length b \<le> length data" if "phr_decode_chunked d data = (ret, d', k, b)" for d ret d' k b
    using that chunk_run_size [of "d\<lparr>total_read := total_read d + of_nat (length data)\<rparr>" "[]" data]
    by (auto simp: phr_decode_chunked_def Let_def split: prod.splits if_splits)
  show "zuh_chunked_decode c data err h = (rc, c', n, buf, e, h') \<Longrightarrow> length (take n buf) \<le> length data"
    by (auto simp: zuh_chunked_decode_def Let_def split: option.splits if_splits prod.splits dest: buf)
qed

lemma chunked_within:
  assumes sink: "sink_contract kvt sunk" and cap: "within_cap n p" and big: "unat (bp_max_body p) + ZUH_READ_CHUNK < 2 ^ 64"
    and len: "length data \<le> ZUH_READ_CHUNK" and step: "step_chunked zl kvt r data s p err h = Some (rc, r', s', p', err', h')"
  shows "adds_within sunk n p (rc = ZUH_OK) p'"
proof -
  define p1 where "p1 = p\<lparr>bp_raw_seen := bp_raw_seen p + of_nat (length data)\<rparr>"
  have same: "same_delivery p p1" by (simp add: p1_def same_delivery_def)
  note cap1 = same_delivery_within [OF same, THEN iffD2, OF cap]
  have big1: "unat (bp_max_body p1) + ZUH_READ_CHUNK < 2 ^ 64" using big by (simp add: p1_def)
  obtain crc d n1 work e1 h1 where dec: "zuh_chunked_decode (br_dec r) data err h = (crc, d, n1, work, e1, h1)" by (metis prod.exhaust)
  have dlen: "length (take n1 work) \<le> ZUH_READ_CHUNK" using decode_length [OF dec] len by simp
  obtain w p2 e2 h2 where f: "(if n1 \<noteq> 0 then zuh_body_pipe_feed zl kvt p1 (take n1 work) e1 h1 else Some (ZUH_OK, p1, e1, h1)) = Some (w, p2, e2, h2)"
    using step dec by (auto simp: step_chunked_def Let_def p1_def split: option.splits prod.splits if_splits)
  have add: "adds_within sunk n p1 (w = ZUH_OK) p2"
  proof (cases "n1 = 0")
    case True
    then show ?thesis using f cap1 by (auto intro: adds_nothing)
  next
    case False
    then show ?thesis using f feed_within [OF sink cap1 big1 dlen] by simp
  qed
  then have two: "adds_within sunk n p (w = ZUH_OK) p2" using same same_delivery_adds(2) by blast
  show ?thesis
  proof (cases "w = ZUH_OK")
    case False
    then have "rc = w" "p' = p2" using step dec f by (simp_all add: step_chunked_def Let_def p1_def [symmetric])
    with two False show ?thesis by simp
  next
    case True
    then have ok: "adds_within sunk n p True p2" using two by simp
    have "same_delivery p2 p'"
      using step dec f True
      by (auto simp: step_chunked_def Let_def p1_def [symmetric] body_over_def same_delivery_def split: if_splits prod.splits)
    with ok show ?thesis by (rule same_delivery_adds(1))
  qed
qed

lemma plain_within:
  assumes sink: "sink_contract kvt sunk" and cap: "within_cap n p" and big: "unat (bp_max_body p) + ZUH_READ_CHUNK < 2 ^ 64"
    and len: "length data \<le> ZUH_READ_CHUNK" and step: "step_plain zl kvt r data s p err h = Some (rc, r', s', p', err', h')"
  shows "adds_within sunk n p (rc = ZUH_OK) p'"
proof -
  define k where "k = (if fr_kind (br_fr r) = ZUH_FRAME_LENGTH \<and> bp_raw_seen p + of_nat (length data) > fr_length (br_fr r)
    then unat (fr_length (br_fr r) - bp_raw_seen p) else length data)"
  define p1 where "p1 = p\<lparr>bp_surplus := bp_surplus p + of_nat (length data - k)\<rparr>"
  have same: "same_delivery p p1" by (simp add: p1_def same_delivery_def)
  note cap1 = same_delivery_within [OF same, THEN iffD2, OF cap]
  obtain w p2 e2 h2 where f: "zuh_body_pipe_feed zl kvt p1 (take k data) err h = Some (w, p2, e2, h2)"
    using step unfolding step_plain_def Let_def k_def [symmetric] p1_def [symmetric] by (auto split: option.splits)
  have "adds_within sunk n p1 (w = ZUH_OK) p2" by (rule feed_within [OF sink cap1 _ _ f]) (use big len in \<open>auto simp: p1_def\<close>)
  then have two: "adds_within sunk n p (w = ZUH_OK) p2" using same same_delivery_adds(2) by blast
  show ?thesis
  proof (cases "w = ZUH_OK")
    case False
    then have "rc = w" "p' = p2" using step f unfolding step_plain_def Let_def k_def [symmetric] p1_def [symmetric] by simp_all
    with two False show ?thesis by simp
  next
    case True
    then have "adds_within sunk n p True p2" using two by simp
    moreover have "same_delivery p2 p'"
      using step True unfolding step_plain_def Let_def k_def [symmetric] p1_def [symmetric] f
      by (auto simp: body_over_def same_delivery_def split: if_splits)
    ultimately show ?thesis by (rule same_delivery_adds(1))
  qed
qed

lemma step_within:
  assumes reads: "reads_faithful svt got" and sink: "sink_contract kvt sunk" and cap: "within_cap n p"
    and big: "unat (bp_max_body p) + ZUH_READ_CHUNK < 2 ^ 64"
    and step: "zuh_body_reader_step zl svt kvt r s p dl err h = Some (rc, r', s', p', err', h')"
  shows "adds_within sunk n p (rc = ZUH_OK) p'"
proof (cases "br_done r")
  case True
  then show ?thesis using step cap by (auto simp: zuh_body_reader_step_def intro: adds_nothing)
next
  case False
  obtain rc1 r1 s1 p1 e1 h1 where f: "step_framed zl svt kvt r s p dl err h = Some (rc1, r1, s1, p1, e1, h1)"
    using step False by (auto simp: zuh_body_reader_step_def split: option.splits prod.splits)
  obtain k data r2 s2 e2 where nb: "next_bytes svt r s dl err = (k, data, r2, s2, e2)" by (metis prod.exhaust)
  have len: "length data \<le> ZUH_READ_CHUNK" using next_bytes_spec [OF reads nb] by simp
  have idle: "adds_within sunk n p (rc1 = ZUH_OK) q" if "same_delivery p q" for q
    using that cap by (auto simp: same_delivery_def intro: adds_nothing)
  have framed: "adds_within sunk n p (rc1 = ZUH_OK) p1"
    using f nb idle chunked_within [OF sink cap big len] plain_within [OF sink cap big len]
    by (auto simp: step_framed_def step_closed_def body_over_def same_delivery_def split: if_splits prod.splits)
  show ?thesis
  proof (cases "rc1 = ZUH_OK \<and> br_done r1")
    case False
    then show ?thesis using step f framed \<open>\<not> br_done r\<close> by (auto simp: zuh_body_reader_step_def split: if_splits)
  next
    case True
    then obtain fe fh where fin: "zuh_body_pipe_finish zl kvt p1 e1 h1 = Some (rc, p', fe, fh)"
      using step f \<open>\<not> br_done r\<close> by (auto simp: zuh_body_reader_step_def split: option.splits prod.splits)
    show ?thesis using framed True finish_within [OF sink _ fin] by (auto intro: adds_trans)
  qed
qed

lemma loop_within:
  assumes "reads_faithful svt got" and "sink_contract kvt sunk" and run: "body_loop zl svt kvt r s p dl err h = Some res"
    and "within_cap n p" and "unat (bp_max_body p) + ZUH_READ_CHUNK < 2 ^ 64"
  shows "case res of (rc, r', s', p', err', h') \<Rightarrow> adds_within sunk n p False p'"
  using assms(1,2,4,5)
proof (induction arbitrary: n rule: body_loop.raw_induct [OF _ run])
  case (1 loop zl svt kvt r s p dl err h res)
  show ?case
  proof (cases "br_done r")
    case True
    then show ?thesis using 1(2,5) by (auto intro: adds_nothing)
  next
    case False
    then obtain rc1 r1 s1 p1 e1 h1 where st: "zuh_body_reader_step zl svt kvt r s p dl err h = Some (rc1, r1, s1, p1, e1, h1)"
      using 1(2) by (auto split: option.splits prod.splits)
    note add = step_within [OF 1(3-6) st]
    show ?thesis
    proof (cases "rc1 = ZUH_OK")
      case False
      then show ?thesis using 1(2) \<open>\<not> br_done r\<close> st add by auto
    next
      case True
      then have again: "loop zl svt kvt r1 s1 p1 dl e1 h1 = Some res" using 1(2) False st by simp
      have big1: "unat (bp_max_body p1) + ZUH_READ_CHUNK < 2 ^ 64" using add 1(6) by (simp add: adds_within_def)
      obtain rc2 r2 s2 p2 e2 h2 where res: "res = (rc2, r2, s2, p2, e2, h2)" by (metis prod.exhaust)
      have "adds_within sunk m p1 False p2" if "within_cap m p1" for m
        using 1(1) [OF again 1(3,4) that big1] res by simp
      then show ?thesis using add True res by (auto intro: adds_trans)
    qed
  qed
qed

text \<open>
  C31: the cap of a response body holds before the sink sees a byte. Under any framing, compressed
  or not, whatever the server sends, zlib answers or the sink returns, a body read through a fresh
  pipe adds at most \<^verbatim>\<open>max_body\<close> bytes to what the sink had, also when the read fails.
\<close>
theorem body_never_exceeds:
  assumes "zuh_body_pipe_init zl sk hs no_decode max_body err0 h0 = (ZUH_OK, p, hs', err1, h1)"
    and "reads_faithful svt got" and "sink_contract kvt sunk"
    and "sk_written sk = 0" and "max_body \<noteq> 0" and "unat max_body + ZUH_READ_CHUNK < 2 ^ 64"
    and "zuh_body_read zl svt kvt s fr p seed max_chunked dl err h = Some (rc, s', p', err', h')"
  shows "\<exists>d. sunk (bp_sink p') = sunk sk @ d \<and> length d \<le> unat max_body"
proof -
  have zi: "zi_enc z = enc \<and> zi_max_out z = mo \<and> zi_out_total z = 0"
    if "zuh_inflate_init zl enc mo mr g = (ZUH_OK, z, g')" for enc mo mr g z g'
    using that by (auto simp: zuh_inflate_init_def Let_def split: if_splits option.splits prod.splits)
  have p: "bp_sink p = sk" "bp_max_body p = max_body" "within_cap 0 p"
    using assms(1,4,5) by (auto simp: zuh_body_pipe_init_def Let_def within_cap_def split: if_splits prod.splits dest!: zi)
  obtain rc0 r e0 g0 where i: "zuh_body_reader_init fr seed max_chunked err h = (rc0, r, e0, g0)" by (rule prod_cases4)
  show ?thesis
  proof (cases "rc0 = ZUH_OK")
    case False
    then show ?thesis using assms(7) i p(1) by (auto simp: zuh_body_read_def)
  next
    case True
    then obtain r1 e1 g1 where "body_loop zl svt kvt r s p dl e0 g0 = Some (rc, r1, s', p', e1, g1)"
      using assms(7) i by (auto simp: zuh_body_read_def split: option.splits prod.splits)
    from loop_within [OF assms(2,3) this p(3)] p assms(6) show ?thesis by (auto simp: adds_within_def)
  qed
qed

section \<open>Chunked bodies\<close>

text \<open>A sink whose writes do not make later allocations fail.\<close>

definition keeps_heap :: "'c sink_vtable \<Rightarrow> bool" where
  "keeps_heap kvt \<longleftrightarrow> (\<forall>s data err h rc s' err' h'. zuh_sink_write kvt s data err h = (rc, s', err', h') \<longrightarrow>
     plenty h \<longrightarrow> plenty h')"

lemma feed_heap:
  assumes "keeps_heap kvt" and "\<not> bp_inflating p" and "plenty h"
    and "zuh_body_pipe_feed zl kvt p data err h = Some (rc, p', err', h')"
  shows "plenty h'"
proof -
  obtain wrc sk we wh where w: "zuh_sink_write kvt (bp_sink p) data (snd (cap_check p (length data) err)) h = (wrc, sk, we, wh)"
    by (rule prod_cases4)
  have "plenty wh" using assms(1,3) w unfolding keeps_heap_def by blast
  then show ?thesis using assms(2-4) w by (auto simp: zuh_body_pipe_feed_def pipe_write_def split: if_splits prod.splits)
qed

text \<open>
  A reader in a chunked message, of which \<open>R\<close> is still to come beyond its seed, with the data
  \<open>body\<close>, the trailer fields \<open>fs\<close> and \<open>X\<close> after the message.
\<close>

definition chunking :: "zuh_header list \<Rightarrow> bytes \<Rightarrow> zuh_body_reader \<Rightarrow> ('c, 'z) zuh_body_pipe \<Rightarrow> heap \<Rightarrow> bytes \<Rightarrow> bytes \<Rightarrow> bool" where
  "chunking fs X r p h R body \<longleftrightarrow> fr_kind (br_fr r) = ZUH_FRAME_CHUNKED \<and> \<not> br_done r \<and> \<not> bp_inflating p
     \<and> bp_surplus p = 0 \<and> feeding fs X (br_dec r) h (buf_data (br_seed r) @ R) body"

definition chunk_result :: "zuh_header list \<Rightarrow> bytes \<Rightarrow> bytes \<Rightarrow> ('c, 'z) zuh_body_pipe \<Rightarrow> zuh_body_reader \<Rightarrow> bool" where
  "chunk_result fs X Y p r \<longleftrightarrow> br_done r \<and> hs_items (bp_trailers p) = fs \<and> length Y \<le> length X
     \<and> bp_surplus p = of_nat (length X - length Y)"

lemma step_chunking:
  assumes sink: "sink_contract kvt sunk" and keeps: "keeps_heap kvt"
    and fs: "fits_default fs" "list_all (\<lambda>f. trimmed (hd_value f)) fs" "length (trailer_text fs @ X) < 65536"
    and r: "fr_kind (br_fr r) = ZUH_FRAME_CHUNKED" "\<not> br_done r" "\<not> bp_inflating p" "bp_surplus p = 0"
    and feed: "feeding fs X (br_dec r) h (data @ buf_data (br_seed r) @ R) body"
    and step: "step_chunked zl kvt r data s p err h = Some (rc, r', s', p', err', h')"
  shows "s' = s \<and> \<not> bp_inflating p' \<and> (\<exists>d b2. body = d @ b2 \<and>
    (if rc = ZUH_OK then sunk (bp_sink p') = sunk (bp_sink p) @ d
       \<and> (if br_done r' then b2 = [] \<and> (R = Y \<longrightarrow> chunk_result fs X Y p' r') else chunking fs X r' p' h' R b2)
     else \<exists>k. sunk (bp_sink p') = sunk (bp_sink p) @ take k d))"
proof -
  from decode_step [OF feed fs, of err] obtain crc c n work h1 b2 where
      dec: "zuh_chunked_decode (br_dec r) data err h = (crc, c, n, work, err, h1)" "body = take n work @ b2" "length (take n work) = n"
      and next_state: "if crc = ZUH_ERR_WOULDBLOCK then feeding fs X c h1 (buf_data (br_seed r) @ R) b2 \<and> ck_total c = ck_total (br_dec r) + of_nat n
        else crc = ZUH_OK \<and> b2 = [] \<and> piece_done fs X (br_dec r) c n (buf_data (br_seed r) @ R)" by blast
  define p1 where "p1 = p\<lparr>bp_raw_seen := bp_raw_seen p + of_nat (length data)\<rparr>"
  have id1: "\<not> bp_inflating p1" and sk1: "bp_sink p1 = bp_sink p" and su1: "bp_surplus p1 = 0" using r by (simp_all add: p1_def)
  obtain w p2 e2 h2 where f: "(if n \<noteq> 0 then zuh_body_pipe_feed zl kvt p1 (take n work) err h1 else Some (ZUH_OK, p1, err, h1)) = Some (w, p2, e2, h2)"
    using feed_stays_identity [OF sink id1] by (metis option.sel)
  have fed: "\<exists>k sk. p2 = p1\<lparr>bp_sink := sk\<rparr> \<and> sunk sk = sunk (bp_sink p) @ take k (take n work)
      \<and> (w = ZUH_OK \<longrightarrow> k = length (take n work))"
  proof (cases "n = 0")
    case True
    have "p1 = p1\<lparr>bp_sink := bp_sink p\<rparr>" by (simp add: sk1 [symmetric])
    then show ?thesis using f True by (intro exI [of _ 0] exI [of _ "bp_sink p"]) auto
  next
    case False
    then show ?thesis using f feed_identity [OF sink id1, of zl "take n work"] sk1 by simp
  qed
  then obtain k sk where k: "p2 = p1\<lparr>bp_sink := sk\<rparr>" "sunk sk = sunk (bp_sink p) @ take k (take n work)"
      "w = ZUH_OK \<longrightarrow> k = length (take n work)" by blast
  have id2: "\<not> bp_inflating p2" using k(1) id1 by simp
  show ?thesis
  proof (cases "w = ZUH_OK")
    case False
    then have "rc = w" "s' = s" "p' = p2" using step dec(1) f by (simp_all add: step_chunked_def Let_def p1_def [symmetric])
    then show ?thesis using False k id2 dec(2) by (intro conjI exI [of _ "take n work"] exI [of _ b2]) auto
  next
    case wok: True
    have S: "sunk (bp_sink p2) = sunk (bp_sink p) @ take n work" using k wok dec(3) by simp
    show ?thesis
    proof (cases "crc = ZUH_ERR_WOULDBLOCK")
      case True
      then have res: "rc = ZUH_OK" "s' = s" "p' = p2" "r' = r\<lparr>br_dec := c\<rparr>" "h' = h2"
        using step dec(1) f wok by (simp_all add: step_chunked_def Let_def p1_def [symmetric])
      have nx: "feeding fs X c h1 (buf_data (br_seed r) @ R) b2" using next_state True by simp
      then have h1: "plenty h1" using feeding_heap by blast
      have "plenty h2"
      proof (cases "n = 0")
        case False
        then show ?thesis using f feed_heap [OF keeps id1 h1] by simp
      qed (use f h1 in simp)
      then have "feeding fs X c h2 (buf_data (br_seed r) @ R) b2" using nx feeding_heap by blast
      then have "chunking fs X r' p' h' R b2" using res r id2 k(1) su1 by (simp add: chunking_def)
      then show ?thesis using res r(2) S id2 dec(2) by (intro conjI exI [of _ "take n work"] exI [of _ b2]) auto
    next
      case False
      then have ok: "crc = ZUH_OK" "b2 = []" and pd: "piece_done fs X (br_dec r) c n (buf_data (br_seed r) @ R)" using next_state by simp_all
      then have res: "rc = ZUH_OK" "s' = s" "br_done r'" "bp_trailers p' = ck_trailers c" "bp_sink p' = bp_sink p2"
          "bp_surplus p' = of_nat (ck_surplus c) + of_nat (buf_len (br_seed r))" "\<not> bp_inflating p'"
        using step dec(1) f wok k(1) su1 id2
        by (auto simp: step_chunked_def Let_def p1_def [symmetric] body_over_def split: prod.splits)
      have count: "ck_surplus c + buf_len (br_seed r) + length R = length X" using pd by (simp add: piece_done_def)
      then have left: "length X - length R = ck_surplus c + buf_len (br_seed r)" by linarith
      have "bp_surplus p' = of_nat (length X - length R)" unfolding left by (simp add: res(6))
      moreover have "length R \<le> length X" using count by linarith
      ultimately have "R = Y \<longrightarrow> chunk_result fs X Y p' r'" using res(3,4) pd by (auto simp: chunk_result_def piece_done_def)
      then show ?thesis using res S ok dec(2) by (intro conjI exI [of _ "take n work"] exI [of _ "[]"]) auto
    qed
  qed
qed

lemma chunked_identity:
  assumes "sink_contract kvt sunk" and "\<not> bp_inflating p"
    and "step_chunked zl kvt r data s p err h = Some (rc, r', s', p', err', h')"
  shows "s' = s \<and> \<not> bp_inflating p'"
proof -
  define p1 where "p1 = p\<lparr>bp_raw_seen := bp_raw_seen p + of_nat (length data)\<rparr>"
  have id1: "\<not> bp_inflating p1" using assms(2) by (simp add: p1_def)
  obtain crc c n work e1 h1 where dec: "zuh_chunked_decode (br_dec r) data err h = (crc, c, n, work, e1, h1)" by (metis prod.exhaust)
  obtain w p2 e2 h2 where f: "zuh_body_pipe_feed zl kvt p1 (take n work) e1 h1 = Some (w, p2, e2, h2)" "\<not> bp_inflating p2"
    using feed_stays_identity [OF assms(1) id1] by blast
  show ?thesis using assms(3) dec f id1
    by (auto simp: step_chunked_def Let_def p1_def [symmetric] body_over_def split: if_splits prod.splits)
qed

lemma reader_step_chunking:
  assumes reads: "reads_faithful svt got" and sink: "sink_contract kvt sunk" and keeps: "keeps_heap kvt"
    and fs: "fits_default fs" "list_all (\<lambda>f. trimmed (hd_value f)) fs" "length (trailer_text fs @ X) < 65536"
    and st: "chunking fs X r p h R body"
    and step: "zuh_body_reader_step zl svt kvt r s p dl err h = Some (rc, r', s', p', err', h')"
  shows "\<exists>seen. got s' = got s @ seen \<and> (\<forall>R2. R = seen @ R2 \<longrightarrow> (\<exists>d b2. body = d @ b2 \<and>
    (if rc = ZUH_OK then sunk (bp_sink p') = sunk (bp_sink p) @ d
       \<and> (if br_done r' then b2 = [] \<and> (R2 = Y \<longrightarrow> chunk_result fs X Y p' r') else chunking fs X r' p' h' R2 b2)
     else \<exists>k. sunk (bp_sink p') = sunk (bp_sink p) @ take k d)))"
proof -
  have r: "fr_kind (br_fr r) = ZUH_FRAME_CHUNKED" "\<not> br_done r" "\<not> bp_inflating p" "bp_surplus p = 0"
      "feeding fs X (br_dec r) h (buf_data (br_seed r) @ R) body" using st by (simp_all add: chunking_def)
  obtain rc1 r1 s1 p1 e1 h1 where f: "step_framed zl svt kvt r s p dl err h = Some (rc1, r1, s1, p1, e1, h1)"
    using step r(2) by (auto simp: zuh_body_reader_step_def split: option.splits prod.splits)
  have plain: "rc = rc1 \<and> r' = r1 \<and> s' = s1 \<and> p' = p1 \<and> h' = h1" if "\<not> bp_inflating p1"
    using step r(2) f that by (auto simp: zuh_body_reader_step_def zuh_body_pipe_finish_def split: if_splits)
  obtain n data r2 s2 e2 where nb: "next_bytes svt r s dl err = (n, data, r2, s2, e2)" by (metis prod.exhaust)
  from next_bytes_spec [OF reads nb] obtain seen where seen: "got s2 = got s @ seen"
      "data @ buf_data (br_seed r2) = buf_data (br_seed r) @ seen" "br_fr r2 = br_fr r" "br_dec r2 = br_dec r" "\<not> br_done r2"
      "n < 0 \<Longrightarrow> err_code e2 \<noteq> ZUH_OK" using r(2) by auto
  show ?thesis
  proof (cases "n \<le> 0")
    case True
    then have "rc1 \<noteq> ZUH_OK" "s1 = s2" "p1 = p"
      using f nb r(1) seen(3,6) by (auto simp: step_framed_def step_closed_def split: if_splits)
    then have "rc \<noteq> ZUH_OK" "got s' = got s @ seen" "sunk (bp_sink p') = sunk (bp_sink p) @ take 0 []"
      using plain r(3) seen(1) by auto
    then show ?thesis by (intro exI [of _ seen] conjI allI impI exI [of _ "[]"] exI [of _ body]) auto
  next
    case False
    then have ck: "step_chunked zl kvt r2 data s2 p e2 h = Some (rc1, r1, s1, p1, e1, h1)"
      using f nb r(1) seen(3) by (auto simp: step_framed_def split: if_splits)
    note id = chunked_identity [OF sink r(3) ck]
    have "\<exists>d b2. body = d @ b2 \<and>
      (if rc = ZUH_OK then sunk (bp_sink p') = sunk (bp_sink p) @ d
         \<and> (if br_done r' then b2 = [] \<and> (R2 = Y \<longrightarrow> chunk_result fs X Y p' r') else chunking fs X r' p' h' R2 b2)
       else \<exists>k. sunk (bp_sink p') = sunk (bp_sink p) @ take k d)" if "R = seen @ R2" for R2
    proof -
      have "buf_data (br_seed r) @ R = data @ buf_data (br_seed r2) @ R2" using seen(2) that by simp
      then have feed: "feeding fs X (br_dec r2) h (data @ buf_data (br_seed r2) @ R2) body" using r(5) seen(4) by simp
      have kind: "fr_kind (br_fr r2) = ZUH_FRAME_CHUNKED" using r(1) seen(3) by simp
      have eqs: "rc = rc1" "r' = r1" "p' = p1" "h' = h1" using plain id by simp_all
      show ?thesis
        unfolding eqs using step_chunking [OF sink keeps fs kind seen(5) r(3,4) feed ck, of Y] by blast
    qed
    then show ?thesis using plain id seen(1) by (intro exI [of _ seen]) blast
  qed
qed

lemma step_stream:
  assumes reads: "reads_faithful svt got"
    and step: "zuh_body_reader_step zl svt kvt r s p dl err h = Some (rc, r', s', p', err', h')"
  shows "\<exists>seen. got s' = got s @ seen"
proof (cases "br_done r")
  case True
  then show ?thesis using step by (auto simp: zuh_body_reader_step_def)
next
  case False
  obtain rc1 r1 p1 e1 h1 where f: "step_framed zl svt kvt r s p dl err h = Some (rc1, r1, s', p1, e1, h1)"
    using step False by (auto simp: zuh_body_reader_step_def split: option.splits prod.splits if_splits)
  obtain n data r2 s2 e2 where nb: "next_bytes svt r s dl err = (n, data, r2, s2, e2)" by (metis prod.exhaust)
  have ck: "step_chunked zl kvt r2 data s2 p e2 h = Some (rc1, r1, s', p1, e1, h1) \<Longrightarrow> s' = s2"
    by (auto simp: step_chunked_def Let_def split: option.splits prod.splits if_splits)
  have pl: "step_plain zl kvt r2 data s2 p e2 h = Some (rc1, r1, s', p1, e1, h1) \<Longrightarrow> s' = s2"
    by (auto simp: step_plain_def Let_def body_over_def split: option.splits prod.splits if_splits)
  have "s' = s \<or> s' = s2"
    using f nb ck pl by (auto simp: step_framed_def step_closed_def body_over_def split: if_splits)
  then show ?thesis using next_bytes_spec [OF reads nb] by auto
qed

lemma chunked_loop:
  assumes reads: "reads_faithful svt got" and sink: "sink_contract kvt sunk" and keeps: "keeps_heap kvt"
    and fs: "fits_default fs" "list_all (\<lambda>f. trimmed (hd_value f)) fs" "length (trailer_text fs @ X) < 65536"
    and run: "body_loop zl svt kvt r s p dl err h = Some res"
  shows "case res of (rc, r', s', p', err', h') \<Rightarrow> (\<exists>seen. got s' = got s @ seen) \<and>
    (\<forall>seen body. got s' = got s @ seen \<longrightarrow> chunking fs X r p h (seen @ Y) body \<longrightarrow>
      (if rc = ZUH_OK then sunk (bp_sink p') = sunk (bp_sink p) @ body \<and> chunk_result fs X Y p' r'
       else \<exists>k. sunk (bp_sink p') = sunk (bp_sink p) @ take k body)) \<and>
    (br_done r \<longrightarrow> rc = ZUH_OK \<and> r' = r \<and> s' = s \<and> p' = p)"
  using reads sink keeps
proof (induction rule: body_loop.raw_induct [OF _ run])
  case (1 loop zl svt kvt r s p dl err h res)
  show ?case
  proof (cases "br_done r")
    case True
    then show ?thesis using 1(2) by (auto simp: chunking_def intro: exI [of _ "[]"])
  next
    case False
    then obtain rc1 r1 s1 p1 e1 h1 where st: "zuh_body_reader_step zl svt kvt r s p dl err h = Some (rc1, r1, s1, p1, e1, h1)"
      using 1(2) by (auto split: option.splits prod.splits)
    from step_stream [OF 1(3) st] obtain seen1 where s1: "got s1 = got s @ seen1" by blast
    have one: "\<exists>d b2. body = d @ b2 \<and>
      (if rc1 = ZUH_OK then sunk (bp_sink p1) = sunk (bp_sink p) @ d
         \<and> (if br_done r1 then b2 = [] \<and> (R2 = Y \<longrightarrow> chunk_result fs X Y p1 r1) else chunking fs X r1 p1 h1 R2 b2)
       else \<exists>k. sunk (bp_sink p1) = sunk (bp_sink p) @ take k d)"
      if "chunking fs X r p h (seen1 @ R2) body" for R2 body
      using reader_step_chunking [OF 1(3-5) fs that st, of Y] s1 by auto
    obtain rc' r' s' p' e' h' where res: "res = (rc', r', s', p', e', h')" by (metis prod.exhaust)
    show ?thesis
    proof (cases "rc1 = ZUH_OK")
      case bad: False
      then have "rc' = rc1" "r' = r1" "s' = s1" "p' = p1" using 1(2) False st res by simp_all
      moreover have "\<exists>k. sunk (bp_sink p1) = sunk (bp_sink p) @ take k body"
        if "got s1 = got s @ seen" and "chunking fs X r p h (seen @ Y) body" for seen body
      proof -
        have "chunking fs X r p h (seen1 @ Y) body" using that s1 by simp
        from one [OF this] obtain d b2 k where d: "body = d @ b2" "sunk (bp_sink p1) = sunk (bp_sink p) @ take k d"
          using bad by auto
        have "take k d = take (min k (length d)) body" by (simp add: d(1) min_def)
        then show ?thesis using d(2) by metis
      qed
      ultimately show ?thesis using s1 bad False res by simp
    next
      case True
      then have again: "loop zl svt kvt r1 s1 p1 dl e1 h1 = Some res" using 1(2) False st by simp
      note ih = 1(1) [OF again 1(3-5)]
      from ih obtain seen2 where s2: "got s' = got s1 @ seen2" by (auto simp: res)
      have "if rc' = ZUH_OK then sunk (bp_sink p') = sunk (bp_sink p) @ body \<and> chunk_result fs X Y p' r'
          else \<exists>k. sunk (bp_sink p') = sunk (bp_sink p) @ take k body"
        if g: "got s' = got s @ seen" and c: "chunking fs X r p h (seen @ Y) body" for seen body
      proof -
        have "seen = seen1 @ seen2" using g s1 s2 by simp
        then have "chunking fs X r p h (seen1 @ seen2 @ Y) body" using c by simp
        from one [OF this] obtain d b2 where d: "body = d @ b2" "sunk (bp_sink p1) = sunk (bp_sink p) @ d"
            "if br_done r1 then b2 = [] \<and> (seen2 @ Y = Y \<longrightarrow> chunk_result fs X Y p1 r1) else chunking fs X r1 p1 h1 (seen2 @ Y) b2"
          using True by auto
        show ?thesis
        proof (cases "br_done r1")
          case True
          then have same: "rc' = ZUH_OK" "r' = r1" "s' = s1" "p' = p1" using ih by (simp_all add: res)
          then have "seen2 = []" using s2 by simp
          then show ?thesis using d True same by simp
        next
          case False
          have rest: "if rc' = ZUH_OK then sunk (bp_sink p') = sunk (bp_sink p1) @ b2 \<and> chunk_result fs X Y p' r'
              else \<exists>k. sunk (bp_sink p') = sunk (bp_sink p1) @ take k b2"
            using ih s2 d(3) False by (simp add: res)
          show ?thesis
          proof (cases "rc' = ZUH_OK")
            case True
            then show ?thesis using rest d(1,2) by simp
          next
            case False
            then obtain k where k: "sunk (bp_sink p') = sunk (bp_sink p1) @ take k b2" using rest by auto
            have "d @ take k b2 = take (length d + k) body" by (simp add: d(1))
            then have "sunk (bp_sink p') = sunk (bp_sink p) @ take (length d + k) body" using k d(2) by simp
            then show ?thesis using False by auto
          qed
        qed
      qed
      then show ?thesis using s1 s2 res False by auto
    qed
  qed
qed

lemma reader_init_chunked:
  assumes "zuh_body_reader_init fr seed mb err h = (ZUH_OK, r, err', h')" and "fr_kind fr = ZUH_FRAME_CHUNKED" and "plenty h"
  shows "\<exists>d h0. zuh_chunked_init 0 mb h0 = (ZUH_OK, d, h') \<and> plenty h0 \<and> br_dec r = d \<and> br_fr r = fr \<and> \<not> br_done r
    \<and> buf_data (br_seed r) = seed"
proof -
  define r0 where "r0 = \<lparr>br_fr = fr, br_dec = zeroed_chunked, br_chunked = False, br_seed = zeroed_buffer,
               br_work = False, br_done = False\<rparr>"
  obtain ok r1 h1 where b: "reader_buffers r0 seed h = (ok, r1, h1)" by (rule prod_cases3)
  obtain rc d h2 where c: "zuh_chunked_init 0 mb h1 = (rc, d, h2)" by (rule prod_cases3)
  have ok: "ok" using assms(1) b by (auto simp: zuh_body_reader_init_def r0_def [symmetric] split: if_splits prod.splits)
  have init: "buf_data x = []" if "zuh_buf_init n m g = (k, x, g')" for n m g k x g'
    using that by (auto simp: zuh_buf_init_def Let_def split: if_splits dest: grow_to_data)
  have keep: "plenty g'" if "zuh_buf_append t (x, g) = (k, x', g')" and "plenty g" for t x g k x' g'
    using keepsD [OF that(1) _ keeps_append] that(2) by simp
  have "plenty h1"
    using b ok assms(3) by (auto simp: reader_buffers_def Let_def split: if_splits prod.splits
        dest!: plenty_alloc plenty_buf_init keep)
  then have r1: "plenty h1 \<and> buf_data (br_seed r1) = seed \<and> br_fr r1 = fr \<and> \<not> br_done r1"
    using b ok by (auto simp: reader_buffers_def Let_def r0_def split: if_splits prod.splits dest!: init append_data)
  have rc: "rc = ZUH_OK"
    using assms(1,2) b ok c by (auto simp: zuh_body_reader_init_def Let_def r0_def [symmetric] split: if_splits prod.splits)
  then have "r = r1\<lparr>br_dec := d, br_chunked := True\<rparr>" "h' = h2"
    using assms(1,2) b ok c by (auto simp: zuh_body_reader_init_def Let_def r0_def [symmetric])
  then show ?thesis using c rc r1 by auto
qed

text \<open>
  C24: a chunked body is delivered as the data of its chunks, over a pipe that does not decompress and a message
  whose framing is less than 100 KiB longer than its data, beyond which the decoder gives up. The message may be divided in any way
  between the bytes that came with the head and the reads: when the reader reports success, the sink
  has got exactly the concatenated data, the pipe holds exactly the trailer fields, and the surplus
  is the number of bytes received beyond the message. On a failure (the stream's, the sink's, the
  allocator's) the sink has a prefix of the data. The trailer fields are within the default limits, with trimmed values, and
  they and what follows are under 64 KiB; the data is within the limit on the body.
\<close>
theorem body_chunked_delivers:
  assumes "reads_faithful svt got" and "sink_contract kvt sunk" and "keeps_heap kvt" and "plenty h"
    and "fr_kind fr = ZUH_FRAME_CHUNKED" and "\<not> bp_inflating p" and "bp_surplus p = 0"
    and "list_all (\<lambda>k. chunk_ok k \<and> ch_data k \<noteq> []) cs" and "chunk_ok end" and "ch_data end = []"
    and "fits_default fs" and "list_all (\<lambda>f. trimmed (hd_value f)) fs" and "length (trailer_text fs @ X) < 65536"
    and "length (body_wire cs end) < length (concat (map ch_data cs)) + 102400"
    and "max_body \<noteq> 0 \<longrightarrow> length (concat (map ch_data cs)) \<le> unat max_body"
    and "length (concat (map ch_data cs)) < 2 ^ 64"
    and "zuh_body_read zl svt kvt s fr p seed max_body dl err h = Some (rc, s', p', err', h')"
    and "got s' = got s @ seen" and "seed @ seen @ Y = body_wire cs end @ trailer_text fs @ X"
  shows "if rc = ZUH_OK
    then sunk (bp_sink p') = sunk (bp_sink p) @ concat (map ch_data cs) \<and> hs_items (bp_trailers p') = fs
      \<and> length Y \<le> length X \<and> bp_surplus p' = of_nat (length X - length Y)
    else \<exists>k. sunk (bp_sink p') = sunk (bp_sink p) @ take k (concat (map ch_data cs))"
proof -
  obtain rc0 r e0 h0 where i: "zuh_body_reader_init fr seed max_body err h = (rc0, r, e0, h0)" by (rule prod_cases4)
  show ?thesis
  proof (cases "rc0 = ZUH_OK")
    case False
    then have "p' = p" "rc \<noteq> ZUH_OK" using assms(17) i by (auto simp: zuh_body_read_def)
    then show ?thesis by (auto intro: exI [of _ 0])
  next
    case True
    obtain d h00 where d: "zuh_chunked_init 0 max_body h00 = (ZUH_OK, d, h0)" "plenty h00" "br_dec r = d" "br_fr r = fr"
        "\<not> br_done r" "buf_data (br_seed r) = seed"
      using reader_init_chunked [OF i [unfolded True] assms(5,4)] by blast
    obtain r1 e1 h1 where run: "body_loop zl svt kvt r s p dl e0 h0 = Some (rc, r1, s', p', e1, h1)"
      using assms(17) i True by (auto simp: zuh_body_read_def split: option.splits prod.splits)
    have "feeding fs X d h0 (body_wire cs end @ trailer_text fs @ X) (concat (map ch_data cs))"
      using feeding_start [OF d(1,2) assms(8-10,13-16)] by blast
    then have "chunking fs X r p h0 (seen @ Y) (concat (map ch_data cs))"
      using d assms(5-7,19) by (simp add: chunking_def)
    then show ?thesis
      using chunked_loop [OF assms(1-3,11-13) run, of Y] assms(18) by (auto simp: chunk_result_def split: if_splits)
  qed
qed

section \<open>Concrete runs\<close>

lemma init_chunked_plenty:
  assumes "plenty h"
  shows "\<exists>d h'. zuh_chunked_init 0 mb h = (ZUH_OK, d, h') \<and> plenty h'"
proof -
  obtain h1 where h1: "zuh_calloc 1 SIZEOF_DECODER h = (True, h1)" "plenty h1"
    using zuh_alloc_plenty [OF assms, of 32] assms
    by (simp add: zuh_calloc_def zuh_size_mul_def SIZEOF_DECODER_def SIZE_MAX_def ZUH_HDR_def)
  then show ?thesis using zuh_buf_init_room [OF h1(2), of 0 65536 65535]
    by (auto simp: SIZE_MAX_def zuh_chunked_init_def Let_def ZUH_DEFAULT_MAX_HEADER_BYTES_def buf_room_def)
qed

lemma reader_init_plenty:
  assumes "plenty h" and "length seed < 2 ^ 60"
  shows "\<exists>r h'. zuh_body_reader_init fr seed mb err h = (ZUH_OK, r, err, h')"
proof -
  let ?n = "if length seed \<noteq> 0 then length seed else 1"
  have n: "?n \<le> 2 ^ 62" "length seed + 1 \<le> 2 ^ 62" "length seed + 1 \<le> SIZE_MAX" using assms(2) by (simp_all add: SIZE_MAX_def)
  obtain h1 where a: "zuh_alloc ZUH_READ_CHUNK h = (True, h1)" "plenty h1"
    using zuh_alloc_plenty [OF assms(1), of ZUH_READ_CHUNK] assms(1) by (simp add: ZUH_READ_CHUNK_def SIZE_MAX_def ZUH_HDR_def)
  obtain b h2 where b: "zuh_buf_init ?n SIZE_MAX h1 = (True, b, h2)" "buf_room (b, h2) (length seed + 0)"
    using zuh_buf_init_room [OF a(2) n(1) order_refl n(2)] n(3) by auto
  have h2: "plenty h2" using b(2) by (simp add: buf_room_def)
  obtain b' h3 where c: "zuh_buf_append seed (b, h2) = (True, b', h3)" "plenty h3"
    using buf_append_room [OF b(2)] by (auto simp: buf_room_def)
  show ?thesis using a b(1) c init_chunked_plenty [OF h2, of mb] init_chunked_plenty [OF c(2), of mb]
    by (fastforce simp: zuh_body_reader_init_def reader_buffers_def Let_def split: prod.splits)
qed

text \<open>
  A sink that collects, a wire that hands out what it has and remembers what it handed out, and an
  identity pipe between them.
\<close>

definition example_collector :: "bytes sink_vtable" where
  "example_collector = \<lparr>sv_write = Some (\<lambda>s d err h. (ZUH_OK, s\<lparr>sk_ctx := sk_ctx s @ d\<rparr>, err, h)),
     sv_finish = None, sv_abort = None, sv_destroy = None\<rparr>"

definition example_wire :: "(bytes \<times> bytes) zuh_stream_vtable" where
  "example_wire = \<lparr>vt_read = Some (\<lambda>(seen, rest) n d err.
       (int (length (take n rest)), take n rest, (seen @ take n rest, drop n rest), err)),
     vt_write = None, vt_close = None, vt_destroy = None, vt_readable = None, vt_name = None\<rparr>"

definition example_pipe :: "u64 \<Rightarrow> (bytes, unit) zuh_body_pipe" where
  "example_pipe cap = \<lparr>bp_sink = \<lparr>sk_ctx = [], sk_written = 0, sk_stopped = False\<rparr>, bp_inflate = zeroed_inflate,
     bp_inflating = False, bp_staging = zeroed_buffer, bp_raw_seen = 0, bp_surplus = 0, bp_max_body = cap,
     bp_trailers = zuh_headers_init\<rparr>"

lemma example_contracts:
  "reads_faithful example_wire fst" "sink_contract example_collector sk_ctx" "keeps_heap example_collector"
  by (auto simp: reads_faithful_def zuh_stream_read_def example_wire_def keeps_heap_def zuh_sink_write_def
      example_collector_def ZUH_SSIZE_MAX_def intro!: sink_contract.intro split: if_splits)

lemmas example_run = body_loop.simps zuh_body_reader_step_def step_framed_def next_bytes_def step_plain_def zuh_buf_consume_def Let_def
  ZUH_READ_CHUNK_def zuh_body_pipe_feed_def cap_check_def pipe_write_def zuh_sink_write_def example_collector_def
  zuh_stream_read_def example_wire_def body_over_def zuh_body_pipe_finish_def ZUH_SSIZE_MAX_def

definition example_length :: zuh_framing where
  "example_length = \<lparr>fr_kind = ZUH_FRAME_LENGTH, fr_length = 4, fr_poolable = True\<rparr>"

lemma example_read:
  "\<exists>p h. zuh_body_read example_zlib example_wire example_collector ([], ''cdX'') example_length (example_pipe 4) ''ab'' 0 dl no_error fresh_heap
     = Some (ZUH_OK, (''cdX'', []), p, no_error, h)"
proof -
  obtain r h where r: "zuh_body_reader_init example_length ''ab'' 0 no_error fresh_heap = (ZUH_OK, r, no_error, h)"
    using reader_init_plenty [OF plenty_fresh] by fastforce
  from reader_init_plain [OF r] have "br_fr r = example_length" "\<not> br_done r" "buf_data (br_seed r) = ''ab''"
    by (simp_all add: example_length_def)
  then have "\<exists>r' p h'. body_loop example_zlib example_wire example_collector r ([], ''cdX'') (example_pipe 4) dl no_error h
      = Some (ZUH_OK, r', (''cdX'', []), p, no_error, h')"
    by (simp add: example_run example_length_def example_pipe_def)
  then show ?thesis using r by (auto simp: zuh_body_read_def)
qed


text \<open>With room for three bytes only, the second read breaks the cap.\<close>

lemma example_limit:
  "\<exists>p e h. zuh_body_read example_zlib example_wire example_collector ([], ''cdX'') example_length (example_pipe 3) ''ab'' 0 dl no_error fresh_heap
     = Some (ZUH_ERR_BODY_LIMIT, (''cdX'', []), p, e, h)"
proof -
  obtain r h where r: "zuh_body_reader_init example_length ''ab'' 0 no_error fresh_heap = (ZUH_OK, r, no_error, h)"
    using reader_init_plenty [OF plenty_fresh] by fastforce
  from reader_init_plain [OF r] have "br_fr r = example_length" "\<not> br_done r" "buf_data (br_seed r) = ''ab''"
    by (simp_all add: example_length_def)
  then have "\<exists>r' p e h'. body_loop example_zlib example_wire example_collector r ([], ''cdX'') (example_pipe 3) dl no_error h
      = Some (ZUH_ERR_BODY_LIMIT, r', (''cdX'', []), p, e, h')"
    by (simp add: example_run example_length_def example_pipe_def)
  then show ?thesis using r by (auto simp: zuh_body_read_def)
qed

lemma body_never_exceeds_witness:
  "\<exists>p e h. zuh_body_read example_zlib example_wire example_collector ([], ''cdX'') example_length (example_pipe 3) ''ab'' 0 \<lparr>dl_at = 0, dl_infinite = True\<rparr> no_error fresh_heap
     = Some (ZUH_ERR_BODY_LIMIT, (''cdX'', []), p, e, h) \<and> length (sk_ctx (bp_sink p)) \<le> 3"
proof -
  obtain p e h where run: "zuh_body_read example_zlib example_wire example_collector ([], ''cdX'') example_length (example_pipe 3) ''ab'' 0 \<lparr>dl_at = 0, dl_infinite = True\<rparr>
      no_error fresh_heap = Some (ZUH_ERR_BODY_LIMIT, (''cdX'', []), p, e, h)" using example_limit by blast
  have init: "zuh_body_pipe_init example_zlib (bp_sink (example_pipe 3)) zuh_headers_init True 3 no_error fresh_heap
      = (ZUH_OK, example_pipe 3, zuh_headers_init, no_error, fresh_heap)"
    by (simp add: zuh_body_pipe_init_def example_pipe_def)
  from body_never_exceeds [OF init example_contracts(1,2) _ _ _ run] show ?thesis
    using run by (simp add: example_pipe_def ZUH_READ_CHUNK_def)
qed

lemma body_length_returns_witness:
  "\<exists>r. zuh_body_read example_zlib example_wire example_collector ([], ''cdX'') example_length ((example_pipe 3)\<lparr>bp_inflating := True\<rparr>) ''ab'' 0 \<lparr>dl_at = 0, dl_infinite = True\<rparr> no_error fresh_heap = Some r"
  by (rule body_length_returns [OF example_contracts(1) example_progress]) (simp_all add: example_length_def ZUH_READ_CHUNK_def)

text \<open>A chunked message, cut inside its first chunk.\<close>

definition example_chunked :: zuh_framing where
  "example_chunked = \<lparr>fr_kind = ZUH_FRAME_CHUNKED, fr_length = 0, fr_poolable = True\<rparr>"

lemma collector_chunk:
  assumes "feeding fs X (br_dec r) h (data @ R) body" and "fits_default fs" and "list_all (\<lambda>f. trimmed (hd_value f)) fs"
    and "length (trailer_text fs @ X) < 65536" and "\<not> bp_inflating p" and "bp_max_body p = 0" and "fr_kind (br_fr r) = ZUH_FRAME_CHUNKED"
    and "\<not> br_done r" and "bp_surplus p = 0" and "buf_data (br_seed r) = []"
  shows "\<exists>r' p' h'. step_chunked zl example_collector r data s p err h = Some (ZUH_OK, r', s, p', err, h')
    \<and> (br_done r' \<longrightarrow> length R \<le> length X) \<and> (\<not> br_done r' \<longrightarrow> R \<noteq> [])
    \<and> (\<not> br_done r' \<longrightarrow> r' = r\<lparr>br_dec := br_dec r'\<rparr>) \<and> \<not> bp_inflating p' \<and> bp_max_body p' = 0"
proof -
  from decode_step [OF assms(1-4), of err] obtain rc c n work h1 b2 where
      dec: "zuh_chunked_decode (br_dec r) data err h = (rc, c, n, work, err, h1)"
        "if rc = ZUH_ERR_WOULDBLOCK then feeding fs X c h1 R b2 \<and> ck_total c = ck_total (br_dec r) + of_nat n
         else rc = ZUH_OK \<and> b2 = [] \<and> piece_done fs X (br_dec r) c n R" by blast
  have some: "R \<noteq> []" if "feeding fs X c h1 R b2" using that feeding_more by blast
  show ?thesis
    using dec some assms(5,6,8)
    by (auto simp: step_chunked_def Let_def zuh_body_pipe_feed_def cap_check_def pipe_write_def zuh_sink_write_def
        example_collector_def body_over_def piece_done_def split: prod.split if_splits)
qed
definition example_seed :: bytes where
  "example_seed = ''3'' @ CRLF @ ''ab''"

definition example_rest :: bytes where
  "example_rest = ''c'' @ CRLF @ ''0;x'' @ CRLF @ CRLF @ ''!''"

lemma example_message: "example_seed @ example_rest = body_wire [example_chunk] example_last @ trailer_text [] @ ''!''"
  by (simp add: example_seed_def example_rest_def body_wire_def chunk_wire_def chunk_head_def example_chunk_def example_last_def
      trailer_text_def)

lemma example_chunks:
  "list_all (\<lambda>k. chunk_ok k \<and> ch_data k \<noteq> []) [example_chunk]" "chunk_ok example_last" "ch_data example_last = []"
  "fits_default []" "list_all (\<lambda>f. trimmed (hd_value f)) []" "length (trailer_text [] @ ''!'') < 65536"
  "length (body_wire [example_chunk] example_last) < length (concat (map ch_data [example_chunk])) + 102400"
  by (simp_all add: chunk_ok_def example_chunk_def example_last_def decode_hex_def CR_def LF_def fits_default_def trailer_text_def
      body_wire_def chunk_wire_def chunk_head_def)

lemma example_chunked_read:
  "\<exists>p h. zuh_body_read example_zlib example_wire example_collector ([], example_rest) example_chunked (example_pipe 0) example_seed
     0 dl no_error fresh_heap = Some (ZUH_OK, (example_rest, []), p, no_error, h)"
proof -
  let ?p = "example_pipe 0"
  have short: "length example_seed < 2 ^ 60" "0 < length example_seed" "length example_seed < ZUH_READ_CHUNK" "length example_rest < ZUH_READ_CHUNK"
      "1 < length example_rest"
    by (simp_all add: example_seed_def example_rest_def ZUH_READ_CHUNK_def)
  obtain r h where r: "zuh_body_reader_init example_chunked example_seed 0 no_error fresh_heap = (ZUH_OK, r, no_error, h)"
    using reader_init_plenty [OF plenty_fresh short(1)] by fastforce
  have kind: "fr_kind example_chunked = ZUH_FRAME_CHUNKED" by (simp add: example_chunked_def)
  obtain d h0 where d: "zuh_chunked_init 0 0 h0 = (ZUH_OK, d, h)" "plenty h0" "br_dec r = d" "br_fr r = example_chunked" "\<not> br_done r"
      "buf_data (br_seed r) = example_seed" using reader_init_chunked [OF r kind plenty_fresh] by blast
  have feed: "feeding [] ''!'' (br_dec r) h (example_seed @ example_rest) ''abc''"
    using feeding_start [OF d(1,2) example_chunks(1-3,6,7)] unfolding example_message d(3) by (simp add: example_chunk_def)
  have chunking: "chunking [] ''!'' r ?p h example_rest ''abc''"
    using feed d kind by (simp add: chunking_def example_pipe_def)
  define r0 where "r0 = r\<lparr>br_seed := zuh_buf_consume (br_seed r) (length example_seed)\<rparr>"
  have r0: "br_dec r0 = br_dec r" "fr_kind (br_fr r0) = ZUH_FRAME_CHUNKED" "\<not> br_done r0" "buf_data (br_seed r0) = []"
    using d kind by (simp_all add: r0_def zuh_buf_consume_data)
  have pipe: "\<not> bp_inflating ?p" "bp_max_body ?p = 0" "bp_surplus ?p = 0" by (simp_all add: example_pipe_def)
  have feed0: "feeding [] ''!'' (br_dec r0) h (example_seed @ example_rest) ''abc''" using feed r0(1) by simp
  have long: "\<not> length example_rest \<le> length ''!''" using short(5) by simp
  from collector_chunk [OF feed0 example_chunks(4-6) pipe(1,2) r0(2,3) pipe(3) r0(4), of example_zlib "([] :: bytes, example_rest)" no_error] long
  obtain r1 p1 h1 where one: "step_chunked example_zlib example_collector r0 example_seed ([] :: bytes, example_rest) ?p no_error h
        = Some (ZUH_OK, r1, ([], example_rest), p1, no_error, h1)" "\<not> br_done r1" "r1 = r0\<lparr>br_dec := br_dec r1\<rparr>"
      "\<not> bp_inflating p1" "bp_max_body p1 = 0" by blast
  have "next_bytes example_wire r ([], example_rest) dl no_error = (int (length example_seed), example_seed, r0, ([], example_rest), no_error)"
    using short d(6) by (simp add: next_bytes_def r0_def Let_def)
  then have step1: "zuh_body_reader_step example_zlib example_wire example_collector r ([], example_rest) ?p dl no_error h
      = Some (ZUH_OK, r1, ([], example_rest), p1, no_error, h1)"
    using one(1,2) r0(2) d(4,5) kind short(2) by (simp add: zuh_body_reader_step_def step_framed_def)
  from reader_step_chunking [OF example_contracts example_chunks(4-6) chunking step1, of "[]"] obtain b where
      next1: "chunking [] ''!'' r1 p1 h1 example_rest b" using one(2) by auto
  have seed1: "buf_data (br_seed r1) = []" "br_fr r1 = example_chunked" by (subst one(3), simp add: r0(4), subst one(3), simp add: r0_def d(4))
  have ch1: "feeding [] ''!'' (br_dec r1) h1 (example_rest @ []) b" "bp_surplus p1 = 0"
    using next1 seed1 by (simp_all add: chunking_def)
  have kind1: "fr_kind (br_fr r1) = ZUH_FRAME_CHUNKED" using seed1(2) kind by simp
  from collector_chunk [OF ch1(1) example_chunks(4-6) one(4,5) kind1 one(2) ch1(2) seed1(1), of example_zlib "(example_rest, [] :: bytes)" no_error]
  obtain r2 p2 h2 where two: "step_chunked example_zlib example_collector r1 example_rest (example_rest, [] :: bytes) p1 no_error h1
        = Some (ZUH_OK, r2, (example_rest, []), p2, no_error, h2)" "br_done r2" "\<not> bp_inflating p2" by blast
  have ne: "example_rest \<noteq> []" by (simp add: example_rest_def)
  have "next_bytes example_wire r1 ([], example_rest) dl no_error = (int (length example_rest), example_rest, r1, (example_rest, []), no_error)"
    using short seed1 by (simp add: next_bytes_def zuh_stream_read_def example_wire_def ZUH_SSIZE_MAX_def ZUH_READ_CHUNK_def)
  then have step2: "zuh_body_reader_step example_zlib example_wire example_collector r1 ([], example_rest) p1 dl no_error h1
      = Some (ZUH_OK, r2, (example_rest, []), p2, no_error, h2)"
    using two one(2) kind1 ne by (simp add: zuh_body_reader_step_def step_framed_def zuh_body_pipe_finish_def)
  have "body_loop example_zlib example_wire example_collector r ([], example_rest) ?p dl no_error h
      = Some (ZUH_OK, r2, (example_rest, []), p2, no_error, h2)"
    using step1 step2 d(5) one(2) two(2) by (simp add: body_loop.simps)
  then show ?thesis using r by (simp add: zuh_body_read_def)
qed

lemma body_chunked_delivers_witness:
  "\<exists>p h. zuh_body_read example_zlib example_wire example_collector ([], example_rest) example_chunked (example_pipe 0) example_seed
     0 \<lparr>dl_at = 0, dl_infinite = True\<rparr> no_error fresh_heap = Some (ZUH_OK, (example_rest, []), p, no_error, h)
   \<and> sk_ctx (bp_sink p) = ''abc'' \<and> bp_surplus p = 1"
proof -
  obtain p h where run: "zuh_body_read example_zlib example_wire example_collector ([], example_rest) example_chunked (example_pipe 0) example_seed
     0 \<lparr>dl_at = 0, dl_infinite = True\<rparr> no_error fresh_heap = Some (ZUH_OK, (example_rest, []), p, no_error, h)"
    using example_chunked_read by blast
  have "example_seed @ example_rest @ [] = body_wire [example_chunk] example_last @ trailer_text [] @ ''!''"
    using example_message by simp
  from body_chunked_delivers [OF example_contracts plenty_fresh _ _ _ example_chunks(1-7) _ _ run _ this] show ?thesis
    using run by (simp add: example_chunked_def example_pipe_def example_chunk_def)
qed
section \<open>A malformed chunk\<close>

text \<open>
  What a malformed chunked body does to the sink. When the decoder refuses the bytes of a read,
  the step fails with a parse error, but it has first handed the whole read to the pipe, framing
  and all: \<^verbatim>\<open>zuh_chunked_decode\<close> returns before it stores the decoded count, so the count is
  still the number of bytes read. With a sink that takes them, the sink ends up with all of them.
\<close>
lemma malformed_chunk_reaches_sink:
  assumes "ck_decoder (br_dec r) = Some d" and "\<not> ck_in_trailer (br_dec r)"
    and "phr_decode_chunked d data = (-1, d', n, work)"
    and "\<not> bp_inflating p" and "bp_max_body p = 0" and "sink_contract kvt sunk" and "data \<noteq> []"
    and "zuh_sink_write kvt (bp_sink p) (take (length data) work) (read_error err ZUH_ERR_PARSE ''malformed chunked encoding'') h
      = (ZUH_OK, sk, err1, h1)"
  shows "\<exists>r' p' err' h'. step_chunked zl kvt r data s p err h = Some (ZUH_ERR_PARSE, r', s, p', err', h')
    \<and> sunk (bp_sink p') = sunk (bp_sink p) @ take (length data) work"
proof -
  have dec: "zuh_chunked_decode (br_dec r) data err h
      = (ZUH_ERR_PARSE, (br_dec r)\<lparr>ck_decoder := Some d'\<rparr>, length data, work,
         read_error err ZUH_ERR_PARSE ''malformed chunked encoding'', h)"
    using assms(1-3) by (simp add: zuh_chunked_decode_def)
  from sink_contract.sinks_prefix [OF assms(6,8)]
  obtain k where "sunk sk = sunk (bp_sink p) @ take k (take (length data) work)" "k = length (take (length data) work)" by blast
  then have sunk: "sunk sk = sunk (bp_sink p) @ take (length data) work" by (simp only: take_all order_refl)
  show ?thesis
  proof (cases "take (length data) work = []")
    case True
    then show ?thesis using sunk assms(4,5,7,8) dec
      by (simp add: step_chunked_def Let_def zuh_body_pipe_feed_def)
  next
    case False
    then show ?thesis using sunk assms(4,5,7,8) dec
      by (simp add: step_chunked_def Let_def zuh_body_pipe_feed_def cap_check_def pipe_write_def)
  qed
qed

lemma malformed_chunk_reaches_sink_witness:
  "\<exists>r d' n r' p' err' h'. ck_decoder (br_dec r) = Some zeroed_decoder \<and> phr_decode_chunked zeroed_decoder ''zz'' = (-1, d', n, ''zz'')
    \<and> step_chunked example_zlib example_collector r ''zz'' () (example_pipe 0) no_error fresh_heap
      = Some (ZUH_ERR_PARSE, r', (), p', err', h') \<and> sk_ctx (bp_sink p') = ''zz''"
proof -
  obtain r :: zuh_body_reader where r: "ck_decoder (br_dec r) = Some zeroed_decoder" "\<not> ck_in_trailer (br_dec r)"
    by (rule that [of "\<lparr>br_fr = example_chunked, br_dec = zeroed_chunked\<lparr>ck_decoder := Some zeroed_decoder\<rparr>, br_chunked = True,
      br_seed = zeroed_buffer, br_work = True, br_done = False\<rparr>"]) (simp_all add: zeroed_chunked_def)
  obtain d' n where bad: "phr_decode_chunked zeroed_decoder ''zz'' = (-1, d', n, ''zz'')"
    by (simp add: phr_decode_chunked_def zeroed_decoder_def Let_def decode_hex_def chunk_run.simps chunk_step_def)
  obtain sk where sk: "zuh_sink_write example_collector (bp_sink (example_pipe 0)) (take (length ''zz'') ''zz'')
      (read_error no_error ZUH_ERR_PARSE ''malformed chunked encoding'') fresh_heap = (ZUH_OK, sk,
       read_error no_error ZUH_ERR_PARSE ''malformed chunked encoding'', fresh_heap)"
    by (simp add: zuh_sink_write_def example_collector_def)
  from malformed_chunk_reaches_sink [OF r bad _ _ example_contracts(2) _ sk, of example_zlib "()"] r bad show ?thesis
    by (fastforce simp: example_pipe_def)
qed
end
