(* ===== verification/Zuh_Tls.thy ===== *)
theory Zuh_Tls
  imports Zuh_Error
begin

text \<open>
  \<^verbatim>\<open>src/zuh_tls.c\<close>: what the TLS backends share. The configuration and its defaults, the refusal
  of a setting the linked backend cannot honour, the cipher-suite names, and the wire form of the
  ALPN list. A \<^verbatim>\<open>const char *\<close> that may be NULL is an option; the pins, an array with its
  length, are a list; an \<^verbatim>\<open>unsigned\<close> mask is a 32-bit word.
\<close>

section \<open>Definitions\<close>

datatype zuh_trust_source = ZUH_TRUST_SYSTEM | ZUH_TRUST_FILE | ZUH_TRUST_DATA

record zuh_tls_config =
  tc_source :: zuh_trust_source
  tc_ca_file :: "bytes option"
  tc_ca_data :: "bytes option"
  tc_ca_extra_file :: "bytes option"
  tc_verify_peer :: bool
  tc_verify_hostname :: bool
  tc_pins :: "bytes list"
  tc_revocation :: bool
  tc_min_version :: int
  tc_alpn :: "bytes option"

definition zuh_tls_config_init :: zuh_tls_config where
  "zuh_tls_config_init =
     \<lparr>tc_source = ZUH_TRUST_SYSTEM, tc_ca_file = None, tc_ca_data = None, tc_ca_extra_file = None,
      tc_verify_peer = True, tc_verify_hostname = True, tc_pins = [], tc_revocation = False,
      tc_min_version = 12, tc_alpn = Some ''http/1.1''\<rparr>"

type_synonym caps = "32 word"

definition ZUH_TLS_CAP_PINS :: caps where "ZUH_TLS_CAP_PINS = 0x01"

definition ZUH_TLS_CAP_TLS13 :: caps where "ZUH_TLS_CAP_TLS13 = 0x02"

definition ZUH_TLS_CAP_CA_FILE :: caps where "ZUH_TLS_CAP_CA_FILE = 0x04"

definition ZUH_TLS_CAP_CA_EXTRA :: caps where "ZUH_TLS_CAP_CA_EXTRA = 0x08"

definition ZUH_TLS_CAP_REVOCATION :: caps where "ZUH_TLS_CAP_REVOCATION = 0x10"

definition has_cap :: "caps \<Rightarrow> caps \<Rightarrow> bool" where
  "has_cap caps flag \<longleftrightarrow> caps AND flag \<noteq> 0"

text \<open>The \<^verbatim>\<open>if\<close> chain of \<^verbatim>\<open>zuh_tls_config_check\<close>: \<^verbatim>\<open>what\<close> and \<^verbatim>\<open>why\<close> of the first setting refused.\<close>

definition tls_refusal :: "zuh_tls_config \<Rightarrow> caps \<Rightarrow> (bytes \<times> bytes) option" where
  "tls_refusal cfg caps =
     (if tc_pins cfg \<noteq> [] \<and> \<not> has_cap caps ZUH_TLS_CAP_PINS then
        Some (''public-key pinning (`pins`)'',
              ''; pinning needs the leaf SubjectPublicKeyInfo, which this backend does not extract yet'')
      else if tc_min_version cfg \<ge> 13 \<and> \<not> has_cap caps ZUH_TLS_CAP_TLS13 then
        Some (''min_version = 13'',
              ''; this backend tops out at TLS 1.2 and will not silently give you 1.2 instead'')
      else if (tc_source cfg = ZUH_TRUST_FILE \<or> tc_source cfg = ZUH_TRUST_DATA)
          \<and> \<not> has_cap caps ZUH_TLS_CAP_CA_FILE then
        Some (''`ca_file` (replace the trust store)'',
              ''; the request is refused rather than verified against the system store instead'')
      else if tc_ca_extra_file cfg \<noteq> None \<and> \<not> has_cap caps ZUH_TLS_CAP_CA_EXTRA then
        Some (''`ca_extra` (add to the trust store)'',
              ''; the request is refused rather than verified against the system store alone'')
      else if tc_revocation cfg \<and> \<not> has_cap caps ZUH_TLS_CAP_REVOCATION then
        Some (''revocation = TRUE'',
              ''; this backend has no CRL or OCSP source, so the check would fail every chain rather than test revocation'')
      else None)"

definition zuh_tls_config_check ::
    "zuh_tls_config \<Rightarrow> caps \<Rightarrow> bytes option \<Rightarrow> zuh_error \<Rightarrow> zuh_code \<times> zuh_error" where
  "zuh_tls_config_check cfg caps backend err =
     (case tls_refusal cfg caps of
        None \<Rightarrow> (ZUH_OK, err)
      | Some (what, why) \<Rightarrow>
          (ZUH_ERR_TLS_UNSUPPORTED,
           zuh_error_set err ZUH_ERR_TLS_UNSUPPORTED ZUH_PHASE_TLS
             (what @ '' is not supported by the '' @ (case backend of None \<Rightarrow> ''this'' | Some b \<Rightarrow> c_string b)
              @ '' TLS backend'' @ why @ '' (see ?zuhttp_tls)'')))"

text \<open>The cases of the switch in \<^verbatim>\<open>zuh_tls_cipher_name\<close>.\<close>

definition cipher_cases :: "(nat \<times> bytes) list" where
  "cipher_cases =
     [(0x1301, ''TLS_AES_128_GCM_SHA256''),
      (0x1302, ''TLS_AES_256_GCM_SHA384''),
      (0x1303, ''TLS_CHACHA20_POLY1305_SHA256''),
      (0x1304, ''TLS_AES_128_CCM_SHA256''),
      (0x1305, ''TLS_AES_128_CCM_8_SHA256''),
      (0xC02B, ''ECDHE-ECDSA-AES128-GCM-SHA256''),
      (0xC02C, ''ECDHE-ECDSA-AES256-GCM-SHA384''),
      (0xC02F, ''ECDHE-RSA-AES128-GCM-SHA256''),
      (0xC030, ''ECDHE-RSA-AES256-GCM-SHA384''),
      (0xCCA8, ''ECDHE-RSA-CHACHA20-POLY1305''),
      (0xCCA9, ''ECDHE-ECDSA-CHACHA20-POLY1305''),
      (0xCCAA, ''DHE-RSA-CHACHA20-POLY1305''),
      (0x009E, ''DHE-RSA-AES128-GCM-SHA256''),
      (0x009F, ''DHE-RSA-AES256-GCM-SHA384''),
      (0xC023, ''ECDHE-ECDSA-AES128-SHA256''),
      (0xC024, ''ECDHE-ECDSA-AES256-SHA384''),
      (0xC027, ''ECDHE-RSA-AES128-SHA256''),
      (0xC028, ''ECDHE-RSA-AES256-SHA384''),
      (0xC009, ''ECDHE-ECDSA-AES128-SHA''),
      (0xC00A, ''ECDHE-ECDSA-AES256-SHA''),
      (0xC013, ''ECDHE-RSA-AES128-SHA''),
      (0xC014, ''ECDHE-RSA-AES256-SHA''),
      (0x009C, ''AES128-GCM-SHA256''),
      (0x009D, ''AES256-GCM-SHA384''),
      (0x002F, ''AES128-SHA''),
      (0x0035, ''AES256-SHA''),
      (0x003C, ''AES128-SHA256''),
      (0x003D, ''AES256-SHA256'')]"

definition zuh_tls_cipher_name :: "nat \<Rightarrow> bytes option" where
  "zuh_tls_cipher_name code = map_of cipher_cases code"

lemma after_comma: "x # xs = dropWhile P p \<Longrightarrow> length xs < length p"
  using length_dropWhile_le [of P p] by (metis Suc_le_lessD length_Cons)

text \<open>
  The loop of \<^verbatim>\<open>zuh_tls_alpn_wire\<close> over \<^verbatim>\<open>p\<close>. The result is what the caller may read, the first
  bytes of \<^verbatim>\<open>out\<close>; its length is the value returned.
\<close>

function alpn_loop :: "nat \<Rightarrow> bytes \<Rightarrow> bytes \<Rightarrow> bytes" where
  "alpn_loop cap out p =
     (if p = [] then out
      else let name = takeWhile (\<lambda>c. c \<noteq> CHR '','') p;
               len = length name;
               p' = dropWhile (\<lambda>c. c \<noteq> CHR '','') p
           in if len = 0 \<or> len > 255 \<or> length out + 1 + len > cap then []
              else case p' of
                  [] \<Rightarrow> out @ char_of len # name
                | comma # rest \<Rightarrow> alpn_loop cap (out @ char_of len # name) rest)"
  by pat_completeness auto
termination
  by (relation "measure (\<lambda>(cap, out, p). length p)") (auto dest: after_comma)

declare alpn_loop.simps [simp del]

definition zuh_tls_alpn_wire :: "bytes option \<Rightarrow> nat \<Rightarrow> bytes" where
  "zuh_tls_alpn_wire l cap = (case l of None \<Rightarrow> [] | Some s \<Rightarrow> alpn_loop cap [] (c_string s))"

section \<open>Refuse, never downgrade\<close>

text \<open>
  C38: a TLS configuration passes exactly when the backend can honour every security setting it
  asks for; otherwise it is refused, always with the same code, and the error names the setting. The
  default configuration verifies the peer and the host name against the system's trust, allows nothing
  below TLS 1.2, and passes on every backend.
\<close>
theorem tls_config_never_downgraded:
  assumes "zuh_tls_config_check cfg caps backend err = (c, err')"
  shows "(c = ZUH_OK \<longleftrightarrow>
       (tc_pins cfg \<noteq> [] \<longrightarrow> has_cap caps ZUH_TLS_CAP_PINS)
       \<and> (tc_min_version cfg \<ge> 13 \<longrightarrow> has_cap caps ZUH_TLS_CAP_TLS13)
       \<and> (tc_source cfg \<noteq> ZUH_TRUST_SYSTEM \<longrightarrow> has_cap caps ZUH_TLS_CAP_CA_FILE)
       \<and> (tc_ca_extra_file cfg \<noteq> None \<longrightarrow> has_cap caps ZUH_TLS_CAP_CA_EXTRA)
       \<and> (tc_revocation cfg \<longrightarrow> has_cap caps ZUH_TLS_CAP_REVOCATION))
    \<and> (c = ZUH_OK \<longrightarrow> err' = err)
    \<and> (c \<noteq> ZUH_OK \<longrightarrow> c = ZUH_ERR_TLS_UNSUPPORTED \<and> err_code err' = c \<and> err_phase err' = ZUH_PHASE_TLS
         \<and> (\<exists>what why. tls_refusal cfg caps = Some (what, why) \<and> take (length what) (err_message err') = what))
    \<and> tc_verify_peer zuh_tls_config_init \<and> tc_verify_hostname zuh_tls_config_init
    \<and> tc_source zuh_tls_config_init = ZUH_TRUST_SYSTEM \<and> tc_min_version zuh_tls_config_init \<ge> 12
    \<and> zuh_tls_config_check zuh_tls_config_init caps backend err = (ZUH_OK, err)"
proof -
  have short: "length what \<le> 255" if "tls_refusal cfg caps = Some (what, why)" for what why
    using that unfolding tls_refusal_def by (auto split: if_splits)
  have src: "tc_source cfg = ZUH_TRUST_FILE \<or> tc_source cfg = ZUH_TRUST_DATA \<longleftrightarrow> tc_source cfg \<noteq> ZUH_TRUST_SYSTEM"
    by (cases "tc_source cfg") simp_all
  have none: "tls_refusal cfg caps = None \<longleftrightarrow>
       (tc_pins cfg \<noteq> [] \<longrightarrow> has_cap caps ZUH_TLS_CAP_PINS)
       \<and> (tc_min_version cfg \<ge> 13 \<longrightarrow> has_cap caps ZUH_TLS_CAP_TLS13)
       \<and> (tc_source cfg \<noteq> ZUH_TRUST_SYSTEM \<longrightarrow> has_cap caps ZUH_TLS_CAP_CA_FILE)
       \<and> (tc_ca_extra_file cfg \<noteq> None \<longrightarrow> has_cap caps ZUH_TLS_CAP_CA_EXTRA)
       \<and> (tc_revocation cfg \<longrightarrow> has_cap caps ZUH_TLS_CAP_REVOCATION)"
    unfolding tls_refusal_def src by auto
  have init: "tc_verify_peer zuh_tls_config_init \<and> tc_verify_hostname zuh_tls_config_init
    \<and> tc_source zuh_tls_config_init = ZUH_TRUST_SYSTEM \<and> tc_min_version zuh_tls_config_init \<ge> 12
    \<and> zuh_tls_config_check zuh_tls_config_init caps backend err = (ZUH_OK, err)"
    by (simp add: zuh_tls_config_check_def tls_refusal_def zuh_tls_config_init_def)
  show ?thesis
  proof (cases "tls_refusal cfg caps")
    case None
    then have "c = ZUH_OK" "err' = err" using assms by (simp_all add: zuh_tls_config_check_def)
    then show ?thesis using none [THEN iffD1, OF None] init by blast
  next
    case (Some r)
    obtain what why where r: "r = (what, why)" by (cases r)
    have not_ok: "tls_refusal cfg caps \<noteq> None" using Some by simp
    have "take (length what) (err_message err') = what" "c = ZUH_ERR_TLS_UNSUPPORTED" "err_code err' = c"
        "err_phase err' = ZUH_PHASE_TLS"
      using assms short [of what why] unfolding zuh_tls_config_check_def Some r
      by (auto simp: zuh_error_set_def ZUH_ERR_MSG_MAX_def min_def)
    with not_ok none Some r init show ?thesis by auto
  qed
qed

lemma tls_config_never_downgraded_witness:
  "fst (zuh_tls_config_check (zuh_tls_config_init\<lparr>tc_min_version := 13\<rparr>) 0x1D None no_error) = ZUH_ERR_TLS_UNSUPPORTED"
proof -
  obtain c e where r: "zuh_tls_config_check (zuh_tls_config_init\<lparr>tc_min_version := 13\<rparr>) 0x1D None no_error = (c, e)"
    by (rule prod.exhaust)
  have "\<not> has_cap 0x1D ZUH_TLS_CAP_TLS13" by (simp add: has_cap_def ZUH_TLS_CAP_TLS13_def)
  with tls_config_never_downgraded [OF r] r show ?thesis by (auto simp: zuh_tls_config_init_def)
qed

section \<open>Cipher names\<close>

lemma cipher_cases_distinct: "distinct (map fst cipher_cases) \<and> distinct (map snd cipher_cases)"
  by (simp add: cipher_cases_def)

text \<open>No two suites share a name, so the name a user reads identifies the suite negotiated.\<close>

lemma cipher_name_inject:
  assumes "zuh_tls_cipher_name a = Some n" and "zuh_tls_cipher_name b = Some n"
  shows "a = b"
proof -
  have "(a, n) \<in> set cipher_cases" "(b, n) \<in> set cipher_cases"
    using assms by (simp_all add: zuh_tls_cipher_name_def map_of_SomeD)
  with cipher_cases_distinct show ?thesis
    by (metis distinct_map inj_on_def prod.inject snd_conv)
qed

section \<open>The ALPN list\<close>

text \<open>The reference: the names, each after its length, and the text that lists them.\<close>

definition alpn_name :: "bytes \<Rightarrow> bool" where
  "alpn_name n \<longleftrightarrow> n \<noteq> [] \<and> length n \<le> 255 \<and> CHR '','' \<notin> set n"

definition alpn_wire :: "bytes list \<Rightarrow> bytes" where
  "alpn_wire ns = concat (map (\<lambda>n. char_of (length n) # n) ns)"

fun comma_list :: "bytes list \<Rightarrow> bytes" where
  "comma_list [] = []"
| "comma_list [n] = n"
| "comma_list (n # ns) = n @ CHR '','' # comma_list ns"

lemma alpn_wire_Cons: "alpn_wire (n # ns) = char_of (length n) # n @ alpn_wire ns"
  by (simp add: alpn_wire_def)

lemma comma_list_Cons: "ns \<noteq> [] \<Longrightarrow> comma_list (n # ns) = n @ CHR '','' # comma_list ns"
  by (cases ns) simp_all

lemma comma_list_Nil: "list_all alpn_name ns \<Longrightarrow> comma_list ns = [] \<longleftrightarrow> ns = []"
  by (induction ns rule: comma_list.induct) (auto simp: alpn_name_def)

lemma first_name:
  assumes "alpn_name n"
  shows "takeWhile (\<lambda>c. c \<noteq> CHR '','') n = n" "dropWhile (\<lambda>c. c \<noteq> CHR '','') n = []"
    "takeWhile (\<lambda>c. c \<noteq> CHR '','') (n @ CHR '','' # t) = n"
    "dropWhile (\<lambda>c. c \<noteq> CHR '','') (n @ CHR '','' # t) = CHR '','' # t"
  using assms unfolding alpn_name_def
  by (auto simp: takeWhile_eq_all_conv intro!: takeWhile_append_not dropWhile_append_not)

lemma alpn_loop_step:
  "alpn_name n \<Longrightarrow> length out + 1 + length n \<le> cap \<Longrightarrow> alpn_loop cap out n = out @ char_of (length n) # n"
  "alpn_name n \<Longrightarrow> length out + 1 + length n \<le> cap \<Longrightarrow>
     alpn_loop cap out (n @ CHR '','' # t) = alpn_loop cap (out @ char_of (length n) # n) t"
  by (subst alpn_loop.simps, auto simp: first_name alpn_name_def Let_def)+

lemma alpn_loop_builds:
  assumes "list_all alpn_name ns" and "ns \<noteq> []" and "length out + length (alpn_wire ns) \<le> cap"
    and "p = comma_list ns \<or> p = comma_list ns @ '',''"
  shows "alpn_loop cap out p = out @ alpn_wire ns"
  using assms
proof (induction ns arbitrary: out p)
  case (Cons n ns)
  have done_loop: "alpn_loop cap x [] = x" for x by (simp add: alpn_loop.simps)
  have n: "alpn_name n" "length out + 1 + length n \<le> cap" using Cons.prems by (simp_all add: alpn_wire_Cons)
  show ?case
  proof (cases "ns = []")
    case True
    then have "p = n \<or> p = n @ CHR '','' # []" using Cons.prems(4) by simp
    then show ?thesis using alpn_loop_step [OF n] done_loop True by (auto simp: alpn_wire_def)
  next
    case False
    then obtain q where q: "p = n @ CHR '','' # q" "q = comma_list ns \<or> q = comma_list ns @ '',''"
      using Cons.prems(4) by (auto simp: comma_list_Cons)
    have "alpn_loop cap (out @ char_of (length n) # n) q = (out @ char_of (length n) # n) @ alpn_wire ns"
      by (rule Cons.IH) (use Cons.prems(1,3) False q(2) in \<open>simp_all add: alpn_wire_Cons\<close>)
    then show ?thesis using alpn_loop_step(2) [OF n] q(1) by (simp add: alpn_wire_Cons)
  qed
qed simp

lemma alpn_loop_accepts:
  "alpn_loop cap out p \<noteq> [] \<Longrightarrow> p \<noteq> [] \<Longrightarrow>
    \<exists>ns. list_all alpn_name ns \<and> ns \<noteq> [] \<and> length out + length (alpn_wire ns) \<le> cap
      \<and> (p = comma_list ns \<or> p = comma_list ns @ '','')"
proof (induction cap out p rule: alpn_loop.induct)
  case (1 cap out p)
  define n where "n = takeWhile (\<lambda>c. c \<noteq> CHR '','') p"
  have cond: "\<not> (length n = 0 \<or> length n > 255 \<or> length out + 1 + length n > cap)"
  proof
    assume "length n = 0 \<or> length n > 255 \<or> length out + 1 + length n > cap"
    then have "alpn_loop cap out p = []" using 1(3) unfolding n_def by (subst alpn_loop.simps) (simp add: Let_def)
    with 1(2) show False ..
  qed
  have n: "alpn_name n" "length out + 1 + length n \<le> cap"
    using cond set_takeWhileD [of "CHR '',''" "\<lambda>c. c \<noteq> CHR '',''" p] by (auto simp: alpn_name_def n_def)
  have p: "p = n @ dropWhile (\<lambda>c. c \<noteq> CHR '','') p" by (simp add: n_def)
  show ?case
  proof (cases "dropWhile (\<lambda>c. c \<noteq> CHR '','') p")
    case Nil
    have "p = n" using p unfolding Nil by simp
    then show ?thesis using n by (intro exI [of _ "[n]"]) (simp add: alpn_wire_def)
  next
    case (Cons comma rest)
    have "comma = CHR '',''" using hd_dropWhile [of "\<lambda>c. c \<noteq> CHR '',''" p] unfolding Cons by simp
    then have pr: "p = n @ CHR '','' # rest" using p unfolding Cons by simp
    show ?thesis
    proof (cases "rest = []")
      case True
      then show ?thesis using pr n by (intro exI [of _ "[n]"]) (simp add: alpn_wire_def)
    next
      case False
      have run: "alpn_loop cap (out @ char_of (length n) # n) rest \<noteq> []"
        using 1(2) alpn_loop_step(2) [OF n] unfolding pr by simp
      from 1(1) [OF 1(3) n_def refl refl cond Cons run False] obtain ns where ns: "list_all alpn_name ns" "ns \<noteq> []"
          "length (out @ char_of (length n) # n) + length (alpn_wire ns) \<le> cap"
          "rest = comma_list ns \<or> rest = comma_list ns @ '',''" by blast
      then show ?thesis using n(1) pr
        by (intro exI [of _ "n # ns"]) (auto simp: alpn_wire_Cons comma_list_Cons)
    qed
  qed
qed

text \<open>
  The ALPN offer. A non-empty wire form is exactly the listed names in order, each after its
  one-byte length, it fits the array, and every name has 1 to 255 bytes; and every list of such
  names that fits is encoded. One trailing comma is tolerated; a list with any other empty name
  is refused as a whole, so a malformed list never offers fewer protocols than it names.
\<close>
lemma alpn_wire_exact:
  assumes "w \<noteq> []"
  shows "zuh_tls_alpn_wire (Some l) cap = w \<longleftrightarrow>
    (\<exists>ns. list_all alpn_name ns \<and> w = alpn_wire ns \<and> length w \<le> cap
       \<and> (c_string l = comma_list ns \<or> c_string l = comma_list ns @ '',''))"
proof
  assume w: "zuh_tls_alpn_wire (Some l) cap = w"
  then have run: "alpn_loop cap [] (c_string l) \<noteq> []" using assms by (simp add: zuh_tls_alpn_wire_def)
  then have "c_string l \<noteq> []" by (auto simp: alpn_loop.simps)
  from alpn_loop_accepts [OF run this] obtain ns where ns: "list_all alpn_name ns" "ns \<noteq> []"
      "length (alpn_wire ns) \<le> cap" "c_string l = comma_list ns \<or> c_string l = comma_list ns @ '',''" by auto
  with alpn_loop_builds [of ns "[]" cap] w show "\<exists>ns. list_all alpn_name ns \<and> w = alpn_wire ns \<and> length w \<le> cap
       \<and> (c_string l = comma_list ns \<or> c_string l = comma_list ns @ '','')"
    by (auto simp: zuh_tls_alpn_wire_def)
next
  assume "\<exists>ns. list_all alpn_name ns \<and> w = alpn_wire ns \<and> length w \<le> cap
       \<and> (c_string l = comma_list ns \<or> c_string l = comma_list ns @ '','')"
  then obtain ns where ns: "list_all alpn_name ns" "w = alpn_wire ns" "length w \<le> cap"
      "c_string l = comma_list ns \<or> c_string l = comma_list ns @ '',''" by blast
  then have "ns \<noteq> []" using assms by (auto simp: alpn_wire_def)
  with alpn_loop_builds [OF ns(1), of "[]" cap] ns show "zuh_tls_alpn_wire (Some l) cap = w"
    by (auto simp: zuh_tls_alpn_wire_def)
qed

lemma alpn_wire_exact_witness:
  "zuh_tls_alpn_wire (Some ''h2,http/1.1'') 64 = alpn_wire [''h2'', ''http/1.1'']"
proof -
  have "alpn_wire [''h2'', ''http/1.1''] \<noteq> []" by (simp add: alpn_wire_def)
  from alpn_wire_exact [OF this, of "''h2,http/1.1''" 64] show ?thesis
    by (auto simp: alpn_wire_def alpn_name_def literal_simps intro!: exI [of _ "[''h2'', ''http/1.1'']"])
qed

end
