(* ===== verification/Zuh_Key.thy ===== *)
theory Zuh_Key
  imports Zuh_Pool Zuh_Proxy Zuh_Tls Zuh_Redact
begin

text \<open>
  The part of \<^verbatim>\<open>src/zuh_engine.c\<close> that decides before any byte is sent: the options and the
  request a caller passes, the key under which a connection is pooled, the TLS configuration of a
  hop, the host header and the URL that is reported, and the checks on a caller's headers.
\<close>

section \<open>Options\<close>

datatype zuh_h2_mode = ZUH_H2_AUTO | ZUH_H2_REQUIRED | ZUH_H2_OFF

fun h2_mode_val :: "zuh_h2_mode \<Rightarrow> int" where
  "h2_mode_val ZUH_H2_AUTO = 0"
| "h2_mode_val ZUH_H2_REQUIRED = 1"
| "h2_mode_val ZUH_H2_OFF = 2"

definition zuh_h2_alpn_for :: "zuh_h2_mode \<Rightarrow> bytes" where
  "zuh_h2_alpn_for m = (if m = ZUH_H2_OFF then ''http/1.1'' else ''h2,http/1.1'')"

definition zuh_h2_alpn_is_h2 :: "bytes option \<Rightarrow> bool" where
  "zuh_h2_alpn_is_h2 selected = (case selected of None \<Rightarrow> False | Some s \<Rightarrow> c_string s = ''h2'')"

text \<open>
  \<^verbatim>\<open>zuh_get_opts\<close> without the pointers to objects that have a state of their own (pool, sink,
  trace, environment, tick and dial hooks): those are arguments of the operations that use them.
\<close>

record zuh_get_opts =
  go_timeout_ms :: int
  go_max_redirects :: int
  go_verify :: int
  go_ca_file :: "bytes option"
  go_tls :: "zuh_tls_config option"
  go_max_body :: u64
  go_no_decode :: bool
  go_user_agent :: "bytes option"
  go_proxy :: "bytes option"
  go_proxy_set :: bool
  go_redact :: "zuh_redact_policy option"
  go_http2 :: zuh_h2_mode
  go_stream_body :: bool
  go_body_timeout_ms :: int

definition ZUH_DEFAULT_TIMEOUT_MS :: int where
  "ZUH_DEFAULT_TIMEOUT_MS = 30000"

definition ZUH_DEFAULT_MAX_BODY :: u64 where
  "ZUH_DEFAULT_MAX_BODY = 16 * 1024 * 1024"

definition zuh_get_opts_init :: zuh_get_opts where
  "zuh_get_opts_init =
     \<lparr>go_timeout_ms = ZUH_DEFAULT_TIMEOUT_MS, go_max_redirects = 10, go_verify = 1, go_ca_file = None, go_tls = None,
      go_max_body = ZUH_DEFAULT_MAX_BODY, go_no_decode = False, go_user_agent = None, go_proxy = None,
      go_proxy_set = False, go_redact = None, go_http2 = ZUH_H2_AUTO, go_stream_body = False, go_body_timeout_ms = 0\<rparr>"

text \<open>
  \<^verbatim>\<open>zuh_req_spec\<close>: the two parallel arrays of header names and values are one list of pairs, and the
  streamed body (\<^verbatim>\<open>source\<close>) is an argument of the operations that read it.
\<close>

record zuh_req_spec =
  sp_method :: "bytes option"
  sp_headers :: "(bytes option \<times> bytes option) list"
  sp_body :: bytes

section \<open>Strings\<close>

text \<open>\<^verbatim>\<open>dup_str\<close>: what \<^verbatim>\<open>strlen\<close> measures is copied.\<close>

definition dup_cstr :: "bytes option \<Rightarrow> heap \<Rightarrow> bytes option \<times> heap" where
  "dup_cstr s h = dup_or_null (map_option c_string s) h"

definition host_header :: "zuh_uri \<Rightarrow> nat \<Rightarrow> bytes option" where
  "host_header u cap =
     (let ho = c_string (the (u_host u));
          h = (if CHR '':'' \<in> set ho then ''['' @ ho @ '']'' else ho);
          t = (if u_port u \<noteq> zuh_uri_default_port (the (u_scheme u)) then h @ '':'' @ show_nat (unat (u_port u)) else h)
      in if length t > 0 \<and> length t < cap then Some t else None)"

text \<open>The appends of \<^verbatim>\<open>url_of\<close>, and the shared end: the text is copied out and the buffer freed.\<close>

definition url_ops :: "zuh_uri \<Rightarrow> (zuh_buffer \<times> heap \<Rightarrow> bool \<times> zuh_buffer \<times> heap) list" where
  "url_ops u =
     (let ho = the (u_host u) in
      [zuh_buf_append_str (the (u_scheme u)), zuh_buf_append_str ''://''] @
      (if CHR '':'' \<in> set (c_string ho)
       then [zuh_buf_append_byte (CHR ''[''), zuh_buf_append_str ho, zuh_buf_append_byte (CHR '']'')]
       else [zuh_buf_append_str ho]) @
      (if u_port_explicit u then [zuh_buf_append_str ('':'' @ show_nat (unat (u_port u)))] else []) @
      [zuh_buf_append_str (the (u_path_query u))])"

definition built_text ::
    "(zuh_buffer \<times> heap \<Rightarrow> bool \<times> zuh_buffer \<times> heap) \<Rightarrow> nat \<Rightarrow> heap \<Rightarrow> bytes option \<times> heap" where
  "built_text f mx h =
     (case zuh_buf_init 128 mx h of (ok, b, h) \<Rightarrow>
      if \<not> ok then (None, h)
      else case c_and f zuh_buf_cstr (b, h) of (ok, b, h) \<Rightarrow>
        case (if ok then dup_cstr (Some (buf_data b)) h else (None, h)) of (out, h) \<Rightarrow>
        (out, snd (zuh_buf_free b h)))"

definition url_of :: "zuh_uri \<Rightarrow> heap \<Rightarrow> bytes option \<times> heap" where
  "url_of u h = built_text (c_all (url_ops u)) 0 h"

definition redacted_url_of :: "zuh_uri \<Rightarrow> zuh_redact_policy option \<Rightarrow> heap \<Rightarrow> bytes option \<times> heap" where
  "redacted_url_of u p h =
     (case url_of u h of
        (None, h) \<Rightarrow> (None, h)
      | (Some raw, h) \<Rightarrow>
          let p = (case p of None \<Rightarrow> zuh_redact_policy_init | Some p \<Rightarrow> p) in
          case built_text (zuh_redact_url (Some p) raw) 0 h of (out, h) \<Rightarrow>
          (out, zuh_free (Some (length raw + 1)) h))"

section \<open>The pool key\<close>

text \<open>
  A step of \<^verbatim>\<open>zuh_engine_pool_key\<close> fills a field of the key, or frees the key and gives up. The field
  is a copy of a string, or of a text joined in a buffer.
\<close>

type_synonym key_step = "zuh_pool_key \<Rightarrow> heap \<Rightarrow> zuh_pool_key option \<times> heap"

fun key_seq :: "key_step list \<Rightarrow> key_step" where
  "key_seq [] k h = (Some k, h)"
| "key_seq (f # fs) k h = (case f k h of (None, h) \<Rightarrow> (None, h) | (Some k, h) \<Rightarrow> key_seq fs k h)"

definition key_put :: "(bytes option \<Rightarrow> zuh_pool_key \<Rightarrow> zuh_pool_key) \<Rightarrow> bytes option \<times> heap \<Rightarrow> zuh_pool_key \<Rightarrow> zuh_pool_key option \<times> heap" where
  "key_put put r k =
     (case r of (None, h) \<Rightarrow> (None, zuh_pool_key_free k h) | (Some t, h) \<Rightarrow> (Some (put (Some t) k), h))"

definition key_dup :: "bytes \<Rightarrow> (bytes option \<Rightarrow> zuh_pool_key \<Rightarrow> zuh_pool_key) \<Rightarrow> key_step" where
  "key_dup s put k h = key_put put (dup_cstr (Some s) h) k"

definition key_join ::
    "(zuh_buffer \<times> heap \<Rightarrow> bool \<times> zuh_buffer \<times> heap) list \<Rightarrow> nat \<Rightarrow> (bytes option \<Rightarrow> zuh_pool_key \<Rightarrow> zuh_pool_key) \<Rightarrow> key_step" where
  "key_join fs mx put k h = key_put put (built_text (c_all fs) mx h) k"

definition US :: char where
  "US = CHR 0x1F"

definition key_tls :: "zuh_tls_config \<Rightarrow> key_step" where
  "key_tls t k h =
     key_seq
       [\<lambda>k h. (case tc_ca_extra_file t of None \<Rightarrow> (Some k, h) | Some f \<Rightarrow> key_dup f (\<lambda>s. pk_ca_extra_file_update (\<lambda>_. s)) k h),
        \<lambda>k h. (if tc_pins t = [] then (Some k, h)
          else key_join (concat (map (\<lambda>p. [zuh_buf_append_str p, zuh_buf_append_byte US]) (tc_pins t))) (64 * 1024)
            (\<lambda>s. pk_pins_update (\<lambda>_. s)) k h)]
       (k\<lparr>pk_revocation := (if tc_revocation t then 1 else 0), pk_min_version := tc_min_version t\<rparr>) h"

definition proxy_fields :: "zuh_proxy \<Rightarrow> bytes list" where
  "proxy_fields px =
     map c_string
       [case px_scheme px of None \<Rightarrow> ''http'' | Some s \<Rightarrow> s,
        case px_username px of None \<Rightarrow> [] | Some s \<Rightarrow> s,
        case px_password px of None \<Rightarrow> [] | Some s \<Rightarrow> s,
        case px_host px of None \<Rightarrow> [] | Some s \<Rightarrow> s,
        show_nat (unat (px_port px))]"

definition key_proxy :: "zuh_proxy option \<Rightarrow> key_step" where
  "key_proxy px k h =
     (case px of
        None \<Rightarrow> (Some k, h)
      | Some px \<Rightarrow>
          if \<not> px_in_use px then (Some k, h)
          else key_join
            (concat (map (\<lambda>f. [zuh_buf_append_u64 (of_nat (length f)), zuh_buf_append_byte (CHR '':''), zuh_buf_append_str f])
              (proxy_fields px))) 0 (\<lambda>s. pk_proxy_update (\<lambda>_. s)) k h)"

definition zuh_engine_pool_key :: "zuh_uri \<Rightarrow> zuh_get_opts \<Rightarrow> zuh_proxy option \<Rightarrow> heap \<Rightarrow> zuh_pool_key option \<times> heap" where
  "zuh_engine_pool_key u opts px h =
     (case dup_cstr (Some (if u_is_https u then ''https'' else ''http'')) h of (scheme, h) \<Rightarrow>
      case dup_cstr (u_host u) h of (host, h) \<Rightarrow>
      let k = zuh_pool_key_init\<lparr>pk_scheme := scheme, pk_host := host\<rparr> in
      if scheme = None \<or> host = None then (None, zuh_pool_key_free k h)
      else key_seq
        [\<lambda>k h. (case go_ca_file opts of None \<Rightarrow> (Some k, h) | Some f \<Rightarrow> key_dup f (\<lambda>s. pk_ca_file_update (\<lambda>_. s)) k h),
         \<lambda>k h. (case go_tls opts of None \<Rightarrow> (Some k, h) | Some t \<Rightarrow> key_tls t k h),
         \<lambda>k h. (let k = k\<lparr>pk_http2 := h2_mode_val (go_http2 opts)\<rparr> in
            if u_is_https u then key_dup (zuh_h2_alpn_for (go_http2 opts)) (\<lambda>s. pk_alpn_update (\<lambda>_. s)) k h else (Some k, h)),
         key_proxy px]
        (k\<lparr>pk_port := u_port u, pk_verify_peer := go_verify opts, pk_verify_hostname := go_verify opts\<rparr>) h)"

text \<open>\<^verbatim>\<open>tls_cfg_for\<close>.\<close>

definition tls_cfg_for :: "zuh_get_opts \<Rightarrow> zuh_tls_config" where
  "tls_cfg_for opts =
     (let cfg = (case go_tls opts of Some t \<Rightarrow> t | None \<Rightarrow> zuh_tls_config_init);
          cfg = cfg\<lparr>tc_verify_peer := (go_verify opts \<noteq> 0), tc_verify_hostname := (go_verify opts \<noteq> 0)\<rparr>;
          cfg = (case go_ca_file opts of None \<Rightarrow> cfg | Some f \<Rightarrow> cfg\<lparr>tc_ca_file := Some f, tc_source := ZUH_TRUST_FILE\<rparr>)
      in cfg\<lparr>tc_alpn := Some (zuh_h2_alpn_for (go_http2 opts))\<rparr>)"

section \<open>Checks before connecting\<close>

definition ZUH_MAX_HOST_LEN :: nat where
  "ZUH_MAX_HOST_LEN = 253"

definition check_host :: "zuh_uri \<Rightarrow> zuh_error \<Rightarrow> zuh_code \<times> zuh_error" where
  "check_host u err =
     (let n = (case u_host u of None \<Rightarrow> 0 | Some s \<Rightarrow> length (c_string s)) in
      if n \<le> ZUH_MAX_HOST_LEN then (ZUH_OK, err)
      else (ZUH_ERR_URL, zuh_error_set err ZUH_ERR_URL ZUH_PHASE_NONE
        (''host name too long ('' @ show_nat n @ '' characters; the limit is '' @ show_nat ZUH_MAX_HOST_LEN @ '')'')))"

definition method_expects_content :: "bytes option \<Rightarrow> bool" where
  "method_expects_content m =
     (case m of None \<Rightarrow> False | Some m \<Rightarrow> c_string m = ''POST'' \<or> c_string m = ''PUT'' \<or> c_string m = ''PATCH'')"

text \<open>The digits loop: the value, the number of digits, \<^verbatim>\<open>ok\<close> and the rest of the text.\<close>

fun length_digits :: "u64 \<Rightarrow> nat \<Rightarrow> bytes \<Rightarrow> u64 \<times> nat \<times> bool \<times> bytes" where
  "length_digits n d [] = (n, d, True, [])"
| "length_digits n d (c # cs) =
     (if \<not> (cval c \<ge> cval (CHR ''0'') \<and> cval c \<le> cval (CHR ''9'')) then (n, d, True, c # cs)
      else if n > (- 1 - 9) div 10 then (n, d, False, c # cs)
      else length_digits (n * 10 + of_nat (cval c - cval (CHR ''0''))) (d + 1) cs)"

definition blank :: "char \<Rightarrow> bool" where
  "blank c \<longleftrightarrow> c = SP \<or> c = HTAB"

definition no_cause :: "zuh_error \<Rightarrow> bytes \<Rightarrow> zuh_error" where
  "no_cause err msg = zuh_error_set err ZUH_ERR_PARSE ZUH_PHASE_NONE msg"

text \<open>One turn of the loop of \<^verbatim>\<open>check_caller_framing\<close>, and the loop.\<close>

definition caller_length_ok :: "bytes \<Rightarrow> nat \<Rightarrow> bool" where
  "caller_length_ok v body_len =
     (case length_digits 0 0 (dropWhile blank (c_string v)) of (n, digits, ok, rest) \<Rightarrow>
      \<not> (\<not> ok \<or> digits = 0 \<or> dropWhile blank rest \<noteq> [] \<or> n \<noteq> of_nat body_len))"

fun check_caller_framing :: "(bytes option \<times> bytes option) list \<Rightarrow> nat \<Rightarrow> bool \<Rightarrow> zuh_error \<Rightarrow> zuh_code \<times> zuh_error" where
  "check_caller_framing [] body_len streamed err = (ZUH_OK, err)"
| "check_caller_framing ((None, v) # fs) body_len streamed err = check_caller_framing fs body_len streamed err"
| "check_caller_framing ((Some name, v) # fs) body_len streamed err =
     (if zuh_ascii_casecmp name ''Transfer-Encoding'' = 0 then
        (ZUH_ERR_PARSE, no_cause err
          ''a Transfer-Encoding header cannot be set: zuhttp frames the body itself, with Content-Length'')
      else if zuh_ascii_casecmp name ''Content-Length'' = 0 then
        (let v = (case v of None \<Rightarrow> [] | Some v \<Rightarrow> v) in
         if streamed then
           (ZUH_ERR_PARSE, no_cause err
             ''a Content-Length header cannot be set on a streamed body, which carries no length: zuhttp sends it chunked, or as HTTP/2 DATA'')
         else if \<not> caller_length_ok v body_len then
           (ZUH_ERR_PARSE, no_cause err
             (''a Content-Length header of '' @ [CHR 0x27] @ take 40 (c_string v) @ [CHR 0x27]
              @ '' does not match the '' @ show_nat body_len @ ''-byte body''))
         else check_caller_framing fs body_len streamed err)
      else check_caller_framing fs body_len streamed err)"

text \<open>
  The loop of \<^verbatim>\<open>check_caller_headers\<close> from index \<open>i\<close>. The section sign in the messages is two bytes
  of UTF-8.
\<close>

definition section_sign :: bytes where
  "section_sign = [CHR 0xC2, CHR 0xA7]"

fun check_caller_headers :: "nat \<Rightarrow> (bytes option \<times> bytes option) list \<Rightarrow> zuh_error \<Rightarrow> zuh_code \<times> zuh_error" where
  "check_caller_headers i [] err = (ZUH_OK, err)"
| "check_caller_headers i ((nm, v) # fs) err =
     (let name = (case nm of None \<Rightarrow> [] | Some s \<Rightarrow> c_string s);
          val = (case v of None \<Rightarrow> [] | Some s \<Rightarrow> c_string s) in
      if \<not> zuh_header_name_valid name then
        (ZUH_ERR_PARSE, no_cause err
          (''request header '' @ show_nat (i + 1) @ '' has an invalid name: a name must be an RFC 7230 token ('' @ section_sign @ ''17.1)''))
      else if \<not> zuh_header_value_valid val then
        (ZUH_ERR_PARSE, no_cause err
          ((if length name \<le> 64 then ''request header `'' @ name @ ''`'' else ''request header '' @ show_nat (i + 1))
           @ '' has an invalid value: a value must not contain CR, LF, NUL or other control characters ('' @ section_sign @ ''17.1)''))
      else check_caller_headers (i + 1) fs err)"

section \<open>What the key owns\<close>

lemma built_text_spec:
  assumes run: "built_text f mx h = (r, h')" and w: "bufw.writes t f" and mx: "mx \<le> SIZE_MAX"
  shows "(r = None \<longrightarrow> grew h h' 0 0) \<and> (\<forall>s. r = Some s \<longrightarrow> s = c_string t \<and> length t \<le> SIZE_MAX \<and> grew h h' 1 (of_nat (length s + 1)))"
proof -
  obtain ok b h1 where i: "zuh_buf_init 128 mx h = (ok, b, h1)" by (rule prod_cases3)
  have ic: "128 \<le> SIZE_MAX" by (simp add: SIZE_MAX_def)
  note I = zuh_buf_init_spec [OF mx ic i]
  show ?thesis
  proof (cases ok)
    case False
    have "buf_cap b = 0" using i False by (auto simp: zuh_buf_init_def Let_def grow_to_def split: if_splits prod.splits)
    then have "grew h h1 0 0" using I(5) by (simp add: buf_blocks_def buf_bytes_def)
    then show ?thesis using run i False by (simp add: built_text_def)
  next
    case True
    obtain ok2 b2 h2 where f: "c_and f zuh_buf_cstr (b, h1) = (ok2, b2, h2)" by (rule prod_cases3)
    have "bufw.writes (t @ []) (c_and f zuh_buf_cstr)" by (rule bufw.writes_c_and [OF w writes_cstr])
    from bufw.writesD [OF this _ f] I(1) have W: "buf_inv b2" "buf_rel (b, h1) (b2, h2)" "ok2 \<Longrightarrow> buf_data b2 = t"
      using I(2) by simp_all
    have len: "ok2 \<Longrightarrow> length t \<le> SIZE_MAX" using W(1,3) by (auto simp: buf_inv_def)
    obtain out h3 where d: "(if ok2 then dup_cstr (Some (buf_data b2)) h2 else (None, h2)) = (out, h3)" by (rule prod.exhaust)
    have res: "r = out" "h' = snd (zuh_buf_free b2 h3)" using run i True f d by (auto simp: built_text_def)
    have g12: "grew h h2 (buf_blocks b2) (buf_bytes b2)"
      using grew_trans [OF I(5)] W(2) by (fastforce simp: buf_rel_def buf_grew_def)
    have D: "grew h2 h3 (if out = None then 0 else 1) (case out of None \<Rightarrow> 0 | Some s \<Rightarrow> of_nat (length s + 1))"
        "out \<noteq> None \<Longrightarrow> ok2 \<and> out = Some (c_string t)"
      using d dup_or_null_cases [of "Some (c_string (buf_data b2))" h2 out h3] W(3)
      by (auto simp: dup_cstr_def str_blocks_def str_bytes_def split: if_splits)
    obtain b4 h4 where fr: "zuh_buf_free b2 h3 = (b4, h4)" by (rule prod.exhaust)
    have F: "grew h3 h4 (- buf_blocks b2) (- buf_bytes b2)" using zuh_buf_free_spec(3) [OF W(1) fr] .
    from grew_trans [OF grew_trans [OF g12 D(1)] F] show ?thesis
      using res fr D(2) len by (cases out) auto
  qed
qed

definition owned :: "heap \<Rightarrow> zuh_pool_key \<Rightarrow> heap \<Rightarrow> bool" where
  "owned h0 k h \<longleftrightarrow> grew h0 h (key_blocks k) (key_bytes k)"

definition makes :: "key_step \<Rightarrow> zuh_pool_key \<Rightarrow> (zuh_pool_key \<Rightarrow> bool) \<Rightarrow> bool" where
  "makes f k Q \<longleftrightarrow> (\<forall>h0 h r h'. owned h0 k h \<longrightarrow> f k h = (r, h') \<longrightarrow>
     (r = None \<longrightarrow> grew h0 h' 0 0) \<and> (\<forall>x. r = Some x \<longrightarrow> Q x \<and> owned h0 x h'))"

lemma makes_keep: "Q k \<Longrightarrow> makes (\<lambda>k h. (Some k, h)) k Q"
  by (simp add: makes_def)

lemma makes_seq:
  assumes "makes f k Q" and "\<And>x. Q x \<Longrightarrow> makes (key_seq fs) x R"
  shows "makes (key_seq (f # fs)) k R"
  unfolding makes_def
proof (intro allI impI)
  fix h0 h r h' assume o: "owned h0 k h" and run: "key_seq (f # fs) k h = (r, h')"
  obtain r1 h1 where f: "f k h = (r1, h1)" by (rule prod.exhaust)
  have F: "r1 = None \<longrightarrow> grew h0 h1 0 0" "\<And>x. r1 = Some x \<Longrightarrow> Q x \<and> owned h0 x h1"
    using assms(1) o f unfolding makes_def by blast+
  show "(r = None \<longrightarrow> grew h0 h' 0 0) \<and> (\<forall>x. r = Some x \<longrightarrow> R x \<and> owned h0 x h')"
  proof (cases r1)
    case None
    then show ?thesis using run f F(1) by auto
  next
    case (Some x)
    then have "key_seq fs x h1 = (r, h')" using run f by simp
    then show ?thesis using assms(2) F(2) [OF Some] unfolding makes_def by blast
  qed
qed

lemma makes_cong:
  "(\<And>h. f k h = g k' h) \<Longrightarrow> key_blocks k' = key_blocks k \<Longrightarrow> key_bytes k' = key_bytes k \<Longrightarrow> makes g k' Q \<Longrightarrow> makes f k Q"
  by (simp add: makes_def owned_def)

lemma makes_seq_nil: "Q k \<Longrightarrow> makes (key_seq []) k Q"
  by (simp add: makes_def)

lemma makes_put:
  assumes "fresh_put k put"
    and "\<And>h r h'. g h = (r, h') \<Longrightarrow> (r = None \<longrightarrow> grew h h' 0 0)
      \<and> (\<forall>s. r = Some s \<longrightarrow> P s \<and> grew h h' 1 (of_nat (length s + 1)))"
  shows "makes (\<lambda>k h. key_put put (g h) k) k (\<lambda>x. \<exists>s. P s \<and> x = put (Some s) k)"
  unfolding makes_def
proof (intro allI impI)
  fix h0 h r h' assume o: "owned h0 k h" and run: "key_put put (g h) k = (r, h')"
  obtain t h1 where g: "g h = (t, h1)" by (rule prod.exhaust)
  note G = assms(2) [OF g]
  show "(r = None \<longrightarrow> grew h0 h' 0 0) \<and> (\<forall>x. r = Some x \<longrightarrow> (\<exists>s. P s \<and> x = put (Some s) k) \<and> owned h0 x h')"
  proof (cases t)
    case None
    from grew_trans [OF grew_trans [OF o [unfolded owned_def]] key_free_grew [of h1 k], of 0 0] G None
    show ?thesis using run g None by (auto simp: key_put_def)
  next
    case (Some s)
    from grew_trans [OF o [unfolded owned_def]] G Some
    have "owned h0 (put (Some s) k) h1"
      using assms(1) by (auto simp: owned_def fresh_put_def str_blocks_def str_bytes_def)
    then show ?thesis using run g Some G by (auto simp: key_put_def)
  qed
qed

lemma makes_dup:
  assumes "fresh_put k put"
  shows "makes (key_dup s put) k (\<lambda>x. x = put (Some (c_string s)) k)"
proof -
  have "makes (\<lambda>k h. key_put put (dup_cstr (Some s) h) k) k (\<lambda>x. \<exists>t. t = c_string s \<and> x = put (Some t) k)"
    by (rule makes_put [OF assms])
      (auto simp: dup_cstr_def str_blocks_def str_bytes_def dest!: dup_or_null_cases)
  moreover have "key_dup s put = (\<lambda>k h. key_put put (dup_cstr (Some s) h) k)" by (intro ext) (simp add: key_dup_def)
  ultimately show ?thesis by simp
qed

lemma makes_join:
  assumes "fresh_put k put" and "list_all2 bufw.writes ts fs" and "NUL \<notin> set (concat ts)" and "mx \<le> SIZE_MAX"
  shows "makes (key_join fs mx put) k (\<lambda>x. x = put (Some (concat ts)) k \<and> length (concat ts) \<le> SIZE_MAX)"
proof -
  have t: "c_string (concat ts) = concat ts" using assms(3) by (rule c_string_id)
  have "makes (\<lambda>k h. key_put put (built_text (c_all fs) mx h) k) k
      (\<lambda>x. \<exists>s. (s = concat ts \<and> length (concat ts) \<le> SIZE_MAX) \<and> x = put (Some s) k)"
    by (rule makes_put [OF assms(1)]) (use built_text_spec [OF _ bufw.writes_c_all [OF assms(2)] assms(4)] t in auto)
  moreover have "key_join fs mx put = (\<lambda>k h. key_put put (built_text (c_all fs) mx h) k)" by (intro ext) (simp add: key_join_def)
  ultimately show ?thesis by (simp add: conj_commute)
qed

text \<open>The key a call builds, as a function of what it is given.\<close>

definition pins_text :: "bytes list \<Rightarrow> bytes" where
  "pins_text pins = concat (map (\<lambda>p. c_string p @ [US]) pins)"

definition proxy_text :: "zuh_proxy \<Rightarrow> bytes" where
  "proxy_text px = concat (map (\<lambda>f. show_nat (unat (of_nat (length f) :: u64)) @ '':'' @ f) (proxy_fields px))"

definition tls_key :: "zuh_tls_config option \<Rightarrow> zuh_pool_key \<Rightarrow> zuh_pool_key" where
  "tls_key t k =
     (case t of
        None \<Rightarrow> k
      | Some t \<Rightarrow> k\<lparr>pk_revocation := (if tc_revocation t then 1 else 0), pk_min_version := tc_min_version t,
          pk_ca_extra_file := map_option c_string (tc_ca_extra_file t),
          pk_pins := (if tc_pins t = [] then None else Some (pins_text (tc_pins t)))\<rparr>)"

definition engine_key :: "zuh_uri \<Rightarrow> zuh_get_opts \<Rightarrow> zuh_proxy option \<Rightarrow> zuh_pool_key" where
  "engine_key u opts px =
     (tls_key (go_tls opts)
       (zuh_pool_key_init\<lparr>pk_scheme := Some (if u_is_https u then ''https'' else ''http''), pk_host := map_option c_string (u_host u),
          pk_port := u_port u, pk_verify_peer := go_verify opts, pk_verify_hostname := go_verify opts,
          pk_ca_file := map_option c_string (go_ca_file opts)\<rparr>))
     \<lparr>pk_http2 := h2_mode_val (go_http2 opts), pk_alpn := (if u_is_https u then Some (zuh_h2_alpn_for (go_http2 opts)) else None),
      pk_proxy := (case px of None \<Rightarrow> None | Some px \<Rightarrow> if px_in_use px then Some (proxy_text px) else None)\<rparr>"

lemmas key_sizes = fresh_put_def key_blocks_def key_bytes_def key_strs_def str_blocks_def str_bytes_def

lemma pins_pieces:
  "list_all2 bufw.writes (concat (map (\<lambda>p. [c_string p, [US]]) pins)) (concat (map (\<lambda>p. [zuh_buf_append_str p, zuh_buf_append_byte US]) pins))"
  "concat (concat (map (\<lambda>p. [c_string p, [US]]) pins)) = pins_text pins" "NUL \<notin> set (pins_text pins)"
proof -
  have "NUL \<noteq> US" by (simp add: NUL_def US_def)
  then show "NUL \<notin> set (pins_text pins)" by (induction pins) (auto simp: pins_text_def)
qed (induction pins; auto simp: pins_text_def)+

lemma proxy_pieces:
  "list_all2 bufw.writes (concat (map (\<lambda>f. [show_nat (unat (of_nat (length f) :: u64)), '':'', f]) (proxy_fields px)))
     (concat (map (\<lambda>f. [zuh_buf_append_u64 (of_nat (length f)), zuh_buf_append_byte (CHR '':''), zuh_buf_append_str f]) (proxy_fields px)))"
  "concat (concat (map (\<lambda>f. [show_nat (unat (of_nat (length f) :: u64)), '':'', f]) (proxy_fields px))) = proxy_text px"
  "NUL \<notin> set (proxy_text px)"
proof -
  have plain: "list_all (\<lambda>f. NUL \<notin> set f) (proxy_fields px)" by (simp add: proxy_fields_def)
  have str: "bufw.writes f (zuh_buf_append_str f)" if "NUL \<notin> set f" for f using writes_str [of f] c_string_id [OF that] by simp
  have flat: "concat (concat (map (\<lambda>f. [show_nat (unat (of_nat (length f) :: u64)), '':'', f]) fs))
      = concat (map (\<lambda>f. show_nat (unat (of_nat (length f) :: u64)) @ '':'' @ f) fs)" for fs :: "bytes list"
    by (induction fs) auto
  have "list_all2 bufw.writes (concat (map (\<lambda>f. [show_nat (unat (of_nat (length f) :: u64)), '':'', f]) fs))
      (concat (map (\<lambda>f. [zuh_buf_append_u64 (of_nat (length f)), zuh_buf_append_byte (CHR '':''), zuh_buf_append_str f]) fs))"
    if "list_all (\<lambda>f. NUL \<notin> set f) fs" for fs
    using that by (induction fs) (auto intro: writes_u64 writes_byte str)
  then show "list_all2 bufw.writes (concat (map (\<lambda>f. [show_nat (unat (of_nat (length f) :: u64)), '':'', f]) (proxy_fields px)))
     (concat (map (\<lambda>f. [zuh_buf_append_u64 (of_nat (length f)), zuh_buf_append_byte (CHR '':''), zuh_buf_append_str f]) (proxy_fields px)))"
    using plain by blast
  show "concat (concat (map (\<lambda>f. [show_nat (unat (of_nat (length f) :: u64)), '':'', f]) (proxy_fields px))) = proxy_text px"
    unfolding proxy_text_def by (simp add: flat)
  have "NUL \<notin> set (show_nat n)" for n using show_nat_digits [of NUL n] by (auto simp: is_digit_def)
  moreover have "NUL \<noteq> CHR '':''" by (simp add: NUL_def)
  ultimately show "NUL \<notin> set (proxy_text px)" using plain by (auto simp: proxy_text_def list_all_iff)
qed

lemma key_tls_makes:
  assumes "pk_ca_extra_file k = None" and "pk_pins k = None"
  shows "makes (key_tls t) k (\<lambda>x. x = tls_key (Some t) k)"
proof -
  let ?k = "k\<lparr>pk_revocation := (if tc_revocation t then 1 else 0), pk_min_version := tc_min_version t\<rparr>"
  let ?k1 = "?k\<lparr>pk_ca_extra_file := map_option c_string (tc_ca_extra_file t)\<rparr>"
  let ?pins = "\<lambda>k h. (if tc_pins t = [] then (Some k, h)
          else key_join (concat (map (\<lambda>p. [zuh_buf_append_str p, zuh_buf_append_byte US]) (tc_pins t))) (64 * 1024)
            (\<lambda>s. pk_pins_update (\<lambda>_. s)) k h)"
  let ?extra = "\<lambda>k h. (case tc_ca_extra_file t of None \<Rightarrow> (Some k, h) | Some f \<Rightarrow> key_dup f (\<lambda>s. pk_ca_extra_file_update (\<lambda>_. s)) k h)"
  have extra: "makes ?extra ?k (\<lambda>x. x = ?k1)"
  proof (cases "tc_ca_extra_file t")
    case None
    then have "?k1 = ?k" using assms by simp
    then show ?thesis using None by (simp add: makes_keep)
  next
    case (Some f)
    have "fresh_put ?k (\<lambda>s. pk_ca_extra_file_update (\<lambda>_. s))" using assms by (simp add: key_sizes)
    from makes_dup [OF this, of f] show ?thesis using Some by simp
  qed
  have pins: "makes ?pins ?k1 (\<lambda>x. x = tls_key (Some t) k)"
  proof (cases "tc_pins t = []")
    case True
    then have "tls_key (Some t) k = ?k1" using assms by (simp add: tls_key_def)
    then show ?thesis using True by (simp add: makes_keep)
  next
    case False
    have fresh: "fresh_put ?k1 (\<lambda>s. pk_pins_update (\<lambda>_. s))" using assms by (simp add: key_sizes)
    have mx: "64 * 1024 \<le> SIZE_MAX" by (simp add: SIZE_MAX_def)
    from makes_join [OF fresh pins_pieces(1) _ mx, of "tc_pins t", unfolded pins_pieces(2)] pins_pieces(3)
    show ?thesis using False by (simp add: makes_def tls_key_def)
  qed
  have "makes (key_seq [?extra, ?pins]) ?k (\<lambda>x. x = tls_key (Some t) k)"
  proof (rule makes_seq [OF extra])
    fix x assume x: "x = ?k1"
    show "makes (key_seq [?pins]) x (\<lambda>x. x = tls_key (Some t) k)"
      unfolding x by (rule makes_seq [OF pins makes_seq_nil])
  qed
  then show ?thesis by (rule makes_cong [rotated 3]) (simp_all only: key_tls_def, simp_all add: key_sizes)
qed

lemma tls_key_fields [simp]:
  "pk_proxy (tls_key t k) = pk_proxy k" "pk_alpn (tls_key t k) = pk_alpn k" "pk_client_cert (tls_key t k) = pk_client_cert k"
  "pk_ca_data_id (tls_key t k) = pk_ca_data_id k" "pk_scheme (tls_key t k) = pk_scheme k" "pk_host (tls_key t k) = pk_host k"
  "pk_port (tls_key t k) = pk_port k" "pk_verify_peer (tls_key t k) = pk_verify_peer k"
  "pk_verify_hostname (tls_key t k) = pk_verify_hostname k" "pk_ca_file (tls_key t k) = pk_ca_file k"
  by (simp_all add: tls_key_def split: option.split)

definition proxy_fits :: "zuh_proxy option \<Rightarrow> bool" where
  "proxy_fits px = (case px of None \<Rightarrow> True | Some px \<Rightarrow> \<not> px_in_use px \<or> length (proxy_text px) \<le> SIZE_MAX)"

lemma key_proxy_makes:
  assumes "pk_proxy k = None"
  shows "makes (key_proxy px) k (\<lambda>x. x = k\<lparr>pk_proxy := (case px of None \<Rightarrow> None | Some px \<Rightarrow> if px_in_use px then Some (proxy_text px) else None)\<rparr>
    \<and> proxy_fits px)"
proof (cases "\<exists>p. px = Some p \<and> px_in_use p")
  case True
  then obtain p where p: "px = Some p" "px_in_use p" by blast
  have fresh: "fresh_put k (\<lambda>s. pk_proxy_update (\<lambda>_. s))" using assms by (simp add: key_sizes)
  show ?thesis using makes_join [OF fresh proxy_pieces(1), unfolded proxy_pieces(2), OF proxy_pieces(3), of 0] p
    by (simp add: makes_def key_proxy_def proxy_fits_def)
next
  case False
  then have "k\<lparr>pk_proxy := (case px of None \<Rightarrow> None | Some px \<Rightarrow> if px_in_use px then Some (proxy_text px) else None)\<rparr> = k"
    using assms by (auto split: option.split)
  then show ?thesis using False by (auto simp: makes_def key_proxy_def proxy_fits_def split: option.split)
qed

lemma engine_key_built:
  assumes run: "zuh_engine_pool_key u opts px h = (r, h')"
  shows "(r = None \<longrightarrow> grew h h' 0 0)
    \<and> (\<forall>k. r = Some k \<longrightarrow> k = engine_key u opts px \<and> proxy_fits px \<and> u_host u \<noteq> None \<and> grew h h' (key_blocks k) (key_bytes k))"
proof -
  obtain sc h1 where sc: "dup_cstr (Some (if u_is_https u then ''https'' else ''http'')) h = (sc, h1)" by (rule prod.exhaust)
  obtain ho h2 where ho: "dup_cstr (u_host u) h1 = (ho, h2)" by (rule prod.exhaust)
  let ?k = "zuh_pool_key_init\<lparr>pk_scheme := sc, pk_host := ho\<rparr>"
  have lit: "c_string (if u_is_https u then ''https'' else ''http'') = (if u_is_https u then ''https'' else ''http'')"
    by (simp add: literal_simps)
  have g1: "grew h h1 (str_blocks [sc]) (str_bytes [sc])" "sc \<noteq> None \<Longrightarrow> sc = Some (if u_is_https u then ''https'' else ''http'')"
    using dup_or_null_cases [OF sc [unfolded dup_cstr_def]] lit by (auto simp: str_blocks_def str_bytes_def)
  have g2: "grew h1 h2 (str_blocks [ho]) (str_bytes [ho])" "ho \<noteq> None \<Longrightarrow> ho = map_option c_string (u_host u)"
    using dup_or_null_cases [OF ho [unfolded dup_cstr_def]] by (auto simp: str_blocks_def str_bytes_def)
  have own: "owned h ?k h2"
    using grew_trans [OF g1(1) g2(1)] by (simp add: owned_def key_sizes zuh_pool_key_init_def add.commute)
  show ?thesis
  proof (cases "sc = None \<or> ho = None")
    case True
    then have "r = None" "h' = zuh_pool_key_free ?k h2" using run sc ho by (auto simp: zuh_engine_pool_key_def Let_def)
    then show ?thesis using grew_trans [OF own [unfolded owned_def] key_free_grew [of h2 ?k]] by simp
  next
    case False
    then have some: "sc = Some (if u_is_https u then ''https'' else ''http'')" "ho = map_option c_string (u_host u)" "ho \<noteq> None"
      using g1(2) g2(2) by auto
    let ?k0 = "?k\<lparr>pk_port := u_port u, pk_verify_peer := go_verify opts, pk_verify_hostname := go_verify opts\<rparr>"
    let ?k1 = "?k0\<lparr>pk_ca_file := map_option c_string (go_ca_file opts)\<rparr>"
    let ?k2 = "tls_key (go_tls opts) ?k1"
    let ?k3 = "?k2\<lparr>pk_http2 := h2_mode_val (go_http2 opts), pk_alpn := (if u_is_https u then Some (zuh_h2_alpn_for (go_http2 opts)) else None)\<rparr>"
    let ?ca = "\<lambda>k h. (case go_ca_file opts of None \<Rightarrow> (Some k, h) | Some f \<Rightarrow> key_dup f (\<lambda>s. pk_ca_file_update (\<lambda>_. s)) k h)"
    let ?tls = "\<lambda>k h. (case go_tls opts of None \<Rightarrow> (Some k, h) | Some t \<Rightarrow> key_tls t k h)"
    let ?alpn = "\<lambda>k h. (let k = k\<lparr>pk_http2 := h2_mode_val (go_http2 opts)\<rparr> in
            if u_is_https u then key_dup (zuh_h2_alpn_for (go_http2 opts)) (\<lambda>s. pk_alpn_update (\<lambda>_. s)) k h else (Some k, h))"
    have empty: "pk_ca_file ?k0 = None" "pk_ca_extra_file ?k1 = None" "pk_pins ?k1 = None" "pk_alpn ?k2 = None" "pk_proxy ?k3 = None"
      by (simp_all add: zuh_pool_key_init_def)
    have ca: "makes ?ca ?k0 (\<lambda>x. x = ?k1)"
    proof (cases "go_ca_file opts")
      case None
      then have "?k1 = ?k0" using empty(1) by simp
      then show ?thesis using None by (simp add: makes_keep)
    next
      case (Some f)
      have "fresh_put ?k0 (\<lambda>s. pk_ca_file_update (\<lambda>_. s))" using empty(1) by (simp add: key_sizes)
      from makes_dup [OF this, of f] show ?thesis using Some by simp
    qed
    have tls: "makes ?tls ?k1 (\<lambda>x. x = ?k2)"
    proof (cases "go_tls opts")
      case None
      then show ?thesis by (simp add: tls_key_def makes_keep)
    next
      case (Some t)
      then show ?thesis using key_tls_makes [OF empty(2,3), of t] by simp
    qed
    have alpn: "makes ?alpn ?k2 (\<lambda>x. x = ?k3)"
    proof (rule makes_cong)
      let ?k2' = "?k2\<lparr>pk_http2 := h2_mode_val (go_http2 opts)\<rparr>"
      let ?g = "\<lambda>k h. if u_is_https u then key_dup (zuh_h2_alpn_for (go_http2 opts)) (\<lambda>s. pk_alpn_update (\<lambda>_. s)) k h else (Some k, h)"
      show "?alpn ?k2 h = ?g ?k2' h" for h by (simp add: Let_def)
      show "key_blocks ?k2' = key_blocks ?k2" "key_bytes ?k2' = key_bytes ?k2" by (simp_all add: key_sizes)
      have plain: "c_string (zuh_h2_alpn_for (go_http2 opts)) = zuh_h2_alpn_for (go_http2 opts)"
        by (simp add: zuh_h2_alpn_for_def literal_simps)
      show "makes ?g ?k2' (\<lambda>x. x = ?k3)"
      proof (cases "u_is_https u")
        case True
        have "fresh_put ?k2' (\<lambda>s. pk_alpn_update (\<lambda>_. s))" using empty(4) by (simp add: key_sizes)
        from makes_dup [OF this, of "zuh_h2_alpn_for (go_http2 opts)"] show ?thesis using True plain by simp
      next
        case False
        have "?k3 = ?k2'" using False empty(4) by simp
        then show ?thesis using False by (simp add: makes_keep)
      qed
    qed
    define Q where "Q = (\<lambda>x. x = engine_key u opts px \<and> proxy_fits px)"
    have key: "?k3\<lparr>pk_proxy := (case px of None \<Rightarrow> None | Some px \<Rightarrow> if px_in_use px then Some (proxy_text px) else None)\<rparr> = engine_key u opts px"
      using some by (simp add: engine_key_def zuh_pool_key_init_def)
    have proxy: "makes (key_proxy px) ?k3 Q"
      using key_proxy_makes [OF empty(5), of px] unfolding key Q_def .
    have s3: "makes (key_seq [key_proxy px]) ?k3 Q" by (rule makes_seq [OF proxy makes_seq_nil])
    have s2: "makes (key_seq [?alpn, key_proxy px]) ?k2 Q" by (rule makes_seq [OF alpn]) (simp only: s3)
    have s1: "makes (key_seq [?tls, ?alpn, key_proxy px]) ?k1 Q" by (rule makes_seq [OF tls]) (simp only: s2)
    have s0: "makes (key_seq [?ca, ?tls, ?alpn, key_proxy px]) ?k0 Q" by (rule makes_seq [OF ca]) (simp only: s1)
    have own0: "owned h ?k0 h2" using own by (simp add: owned_def key_sizes)
    have "key_seq [?ca, ?tls, ?alpn, key_proxy px] ?k0 h2 = (r, h')"
      using run False by (simp add: zuh_engine_pool_key_def sc ho Let_def del: key_seq.simps)
    then show ?thesis using s0 own0 some(2,3) unfolding makes_def Q_def owned_def by auto
  qed
qed

section \<open>Two keys are equal only for the same settings\<close>

definition proxy_identity :: "zuh_proxy \<Rightarrow> bytes \<times> bytes \<times> bytes \<times> bytes \<times> 16 word" where
  "proxy_identity px =
     (let str = (\<lambda>d s. c_string (case s of None \<Rightarrow> d | Some s \<Rightarrow> s)) in
      (str ''http'' (px_scheme px), str [] (px_username px), str [] (px_password px), str [] (px_host px), px_port px))"

definition engine_identity ::
    "zuh_uri \<Rightarrow> zuh_get_opts \<Rightarrow> zuh_proxy option
     \<Rightarrow> (bool \<times> bytes option \<times> 16 word \<times> int \<times> zuh_h2_mode) \<times> (bytes option \<times> bool \<times> int \<times> bytes option \<times> bytes list)
       \<times> (bytes \<times> bytes \<times> bytes \<times> bytes \<times> 16 word) option" where
  "engine_identity u opts px =
     ((u_is_https u, map_option (\<lambda>s. lowers (c_string s)) (u_host u), u_port u, go_verify opts, go_http2 opts),
      (map_option c_string (go_ca_file opts),
       case go_tls opts of None \<Rightarrow> (False, 0, None, [])
         | Some t \<Rightarrow> (tc_revocation t, tc_min_version t, map_option c_string (tc_ca_extra_file t), map c_string (tc_pins t))),
      case px of None \<Rightarrow> None | Some px \<Rightarrow> if px_in_use px then Some (proxy_identity px) else None)"

definition pins_plain :: "zuh_get_opts \<Rightarrow> bool" where
  "pins_plain opts \<longleftrightarrow> (case go_tls opts of None \<Rightarrow> True | Some t \<Rightarrow> list_all (\<lambda>p. US \<notin> set (c_string p)) (tc_pins t))"

lemma counted_inject:
  assumes "length fs = length gs"
    and "concat (map (\<lambda>f. show_nat (length f) @ '':'' @ f) fs) = concat (map (\<lambda>f. show_nat (length f) @ '':'' @ f) gs)"
  shows "fs = gs"
  using assms
proof (induction fs gs rule: list_induct2)
  case (Cons f fs g gs)
  have digits: "takeWhile is_digit (show_nat n @ CHR '':'' # xs) = show_nat n" for n xs
  proof -
    have "\<not> is_digit (CHR '':'')" by (simp add: is_digit_def)
    then show ?thesis using show_nat_digits by (subst takeWhile_append2) auto
  qed
  have eq: "show_nat (length f) @ CHR '':'' # f @ concat (map (\<lambda>f. show_nat (length f) @ '':'' @ f) fs)
      = show_nat (length g) @ CHR '':'' # g @ concat (map (\<lambda>f. show_nat (length f) @ '':'' @ f) gs)"
    using Cons.prems by simp
  have n: "show_nat (length f) = show_nat (length g)"
    using arg_cong [OF eq, of "takeWhile is_digit"] by (simp only: digits)
  then have len: "length f = length g" by (simp only: show_nat_inject)
  from eq n have "f @ concat (map (\<lambda>f. show_nat (length f) @ '':'' @ f) fs) = g @ concat (map (\<lambda>f. show_nat (length f) @ '':'' @ f) gs)"
    by (simp only: same_append_eq list.inject)
  then have "f = g \<and> concat (map (\<lambda>f. show_nat (length f) @ '':'' @ f) fs) = concat (map (\<lambda>f. show_nat (length f) @ '':'' @ f) gs)"
    using len by (simp only: append_eq_append_conv simp_thms)
  then show ?case using Cons.IH by blast
qed simp

lemma proxy_text_inject:
  assumes "length (proxy_text p) \<le> SIZE_MAX" "length (proxy_text q) \<le> SIZE_MAX"
  shows "proxy_text p = proxy_text q \<longleftrightarrow> proxy_fields p = proxy_fields q"
proof -
  have exact: "proxy_text p = concat (map (\<lambda>f. show_nat (length f) @ '':'' @ f) (proxy_fields p))" if "length (proxy_text p) \<le> SIZE_MAX" for p
  proof -
    have "length f \<le> length (concat (map (\<lambda>f. show_nat (unat (of_nat (length f) :: u64)) @ '':'' @ f) fs))" if "f \<in> set fs" for f fs
      using that by (induction fs) auto
    then have "unat (of_nat (length f) :: u64) = length f" if "f \<in> set (proxy_fields p)" for f
      using that \<open>length (proxy_text p) \<le> SIZE_MAX\<close> unfolding proxy_text_def
      by (fastforce simp: unat_of_nat take_bit_nat_eq_self_iff SIZE_MAX_def)
    then have "map (\<lambda>f. show_nat (unat (of_nat (length f) :: u64)) @ '':'' @ f) (proxy_fields p)
        = map (\<lambda>f. show_nat (length f) @ '':'' @ f) (proxy_fields p)" by (intro map_cong refl) simp
    then show ?thesis unfolding proxy_text_def by (rule arg_cong)
  qed
  have "length (proxy_fields p) = length (proxy_fields q)" by (simp add: proxy_fields_def)
  then have "proxy_fields p = proxy_fields q" if "proxy_text p = proxy_text q"
    using that counted_inject unfolding exact [OF assms(1)] exact [OF assms(2)] by blast
  then show ?thesis by (auto simp: proxy_text_def)
qed

lemma pins_text_inject:
  assumes "list_all (\<lambda>p. US \<notin> set (c_string p)) ps" "list_all (\<lambda>p. US \<notin> set (c_string p)) qs" "pins_text ps = pins_text qs"
  shows "map c_string ps = map c_string qs"
  using assms
proof (induction ps arbitrary: qs)
  case Nil
  then show ?case by (cases qs) (auto simp: pins_text_def)
next
  case (Cons p ps)
  then obtain q qs' where q: "qs = q # qs'" by (cases qs) (auto simp: pins_text_def)
  have upto: "takeWhile (\<lambda>c. c \<noteq> US) (c_string r @ US # xs) = c_string r" if "US \<notin> set (c_string r)" for r xs
    using that by (subst takeWhile_append2) auto
  have eq: "c_string p @ US # pins_text ps = c_string q @ US # pins_text qs'" using Cons.prems(3) q by (simp add: pins_text_def)
  have "c_string p = c_string q" using upto eq Cons.prems(1,2) q by (metis list.pred_inject(2))
  then show ?case using Cons.IH [of qs'] Cons.prems(1,2) eq q by simp
qed

lemma h2_mode_val_inject: "h2_mode_val m = h2_mode_val n \<longleftrightarrow> m = n"
  by (cases m; cases n) auto

lemma proxy_fields_identity: "proxy_fields p = proxy_fields q \<longleftrightarrow> proxy_identity p = proxy_identity q"
proof -
  have plain: "c_string (show_nat n) = show_nat n" for n
    using show_nat_digits [of NUL n] by (intro c_string_id) (auto simp: is_digit_def)
  show ?thesis by (auto simp: proxy_fields_def proxy_identity_def plain show_nat_inject word_unat_eq_iff)
qed

lemma key_eq_identity:
  assumes "zuh_engine_pool_key u1 o1 px1 h1 = (Some k1, h1')" and "zuh_engine_pool_key u2 o2 px2 h2 = (Some k2, h2')"
    and "pins_plain o1" and "pins_plain o2"
  shows "zuh_pool_key_eq k1 k2 \<longleftrightarrow> engine_identity u1 o1 px1 = engine_identity u2 o2 px2"
proof -
  have k: "k1 = engine_key u1 o1 px1" "k2 = engine_key u2 o2 px2" "proxy_fits px1" "proxy_fits px2"
    using engine_key_built [OF assms(1)] engine_key_built [OF assms(2)] by simp_all
  have ne: "zuh_ascii_casecmp ''https'' ''http'' \<noteq> 0" "zuh_ascii_casecmp ''http'' ''https'' \<noteq> 0" by code_simp+
  have scheme: "str_eq_ci (pk_scheme k1) (pk_scheme k2) \<longleftrightarrow> u_is_https u1 = u_is_https u2"
    unfolding k by (simp add: engine_key_def str_eq_ci_def ne) (simp add: casecmp_0)
  have proxy: "pk_proxy k1 = pk_proxy k2 \<longleftrightarrow>
      (case px1 of None \<Rightarrow> None | Some p \<Rightarrow> if px_in_use p then Some (proxy_identity p) else None)
      = (case px2 of None \<Rightarrow> None | Some p \<Rightarrow> if px_in_use p then Some (proxy_identity p) else None)"
    unfolding k using k(3,4) proxy_text_inject proxy_fields_identity by (auto simp: engine_key_def proxy_fits_def split: option.splits)
  have tls: "pk_revocation k1 = pk_revocation k2 \<and> pk_min_version k1 = pk_min_version k2 \<and> pk_ca_extra_file k1 = pk_ca_extra_file k2
      \<and> pk_pins k1 = pk_pins k2 \<longleftrightarrow>
      (case go_tls o1 of None \<Rightarrow> (False, 0, None, [])
         | Some t \<Rightarrow> (tc_revocation t, tc_min_version t, map_option c_string (tc_ca_extra_file t), map c_string (tc_pins t)))
      = (case go_tls o2 of None \<Rightarrow> (False, 0, None, [])
         | Some t \<Rightarrow> (tc_revocation t, tc_min_version t, map_option c_string (tc_ca_extra_file t), map c_string (tc_pins t)))"
    (is "?L \<longleftrightarrow> ?R")
  proof -
    have pins: "pins_text ps = pins_text qs \<longleftrightarrow> map c_string ps = map c_string qs"
      if "list_all (\<lambda>p. US \<notin> set (c_string p)) ps" "list_all (\<lambda>p. US \<notin> set (c_string p)) qs" for ps qs
    proof
      assume m: "map c_string ps = map c_string qs"
      have "pins_text rs = concat (map (\<lambda>s. s @ [US]) (map c_string rs))" for rs by (simp add: pins_text_def comp_def)
      then show "pins_text ps = pins_text qs" by (simp only: m)
    qed (rule pins_text_inject [OF that])
    show ?thesis
      unfolding k using assms(3,4) pins
      by (cases "go_tls o1"; cases "go_tls o2")
        (auto simp: engine_key_def tls_key_def zuh_pool_key_init_def pins_plain_def)
  qed
  have rest: "pk_port k1 = u_port u1" "pk_port k2 = u_port u2" "pk_verify_peer k1 = go_verify o1" "pk_verify_peer k2 = go_verify o2"
      "pk_verify_hostname k1 = go_verify o1" "pk_verify_hostname k2 = go_verify o2" "pk_http2 k1 = h2_mode_val (go_http2 o1)"
      "pk_http2 k2 = h2_mode_val (go_http2 o2)" "pk_host k1 = map_option c_string (u_host u1)" "pk_host k2 = map_option c_string (u_host u2)"
      "pk_ca_file k1 = map_option c_string (go_ca_file o1)" "pk_ca_file k2 = map_option c_string (go_ca_file o2)"
      "pk_ca_data_id k1 = pk_ca_data_id k2" "pk_client_cert k1 = pk_client_cert k2"
      "pk_alpn k1 = (if u_is_https u1 then Some (zuh_h2_alpn_for (go_http2 o1)) else None)"
      "pk_alpn k2 = (if u_is_https u2 then Some (zuh_h2_alpn_for (go_http2 o2)) else None)"
    unfolding k by (simp_all add: engine_key_def zuh_pool_key_init_def)
  have host: "str_eq_ci (map_option c_string (u_host u1)) (map_option c_string (u_host u2))
      \<longleftrightarrow> map_option (\<lambda>s. lowers (c_string s)) (u_host u1) = map_option (\<lambda>s. lowers (c_string s)) (u_host u2)"
    by (simp add: str_eq_ci_iff option.map_comp comp_def c_string_id)
  show ?thesis
    unfolding zuh_pool_key_eq_def engine_identity_def prod.inject str_eq_iff proxy tls [symmetric] scheme rest h2_mode_val_inject host
    by auto
qed

text \<open>
  C15: connections are shared only between requests with the same settings. Two keys that the engine
  builds compare equal exactly when scheme, host (in any case), port, verification, HTTP/2 mode, CA
  files, revocation, minimum version, pins and the complete identity of the proxy, user name and
  password included, are the same. The only assumption is that no pin contains the separator byte.
\<close>
theorem pool_key_separates:
  assumes "zuh_engine_pool_key u1 o1 px1 h1 = (Some k1, h1')" and "zuh_engine_pool_key u2 o2 px2 h2 = (Some k2, h2')"
    and "pins_plain o1" and "pins_plain o2"
  shows "zuh_pool_key_eq k1 k2 \<longleftrightarrow> engine_identity u1 o1 px1 = engine_identity u2 o2 px2"
  by (rule key_eq_identity [OF assms])

section \<open>The checks are exact\<close>

lemma length_digits_spec:
  assumes "length_digits n d s = (n', d', ok, rest)"
  shows "(ok \<longrightarrow> rest = dropWhile is_digit s \<and> d' = d + length (takeWhile is_digit s)
      \<and> unat n' = dec_value (unat n) (takeWhile is_digit s))
    \<and> (dec_value (unat n) (takeWhile is_digit s) < 18446744073709551610 \<longrightarrow> ok)"
  using assms
proof (induction n d s arbitrary: n' d' ok rest rule: length_digits.induct)
  case (2 n d c cs)
  show ?case
  proof (cases "is_digit c")
    case False
    then show ?thesis using 2(2) by (auto simp: is_digit_def)
  next
    case True
    define v where "v = cval c - 48"
    have v: "v \<le> 9" using True unfolding is_digit_def v_def by linarith
    have lim: "(- 1 - 9 :: u64) div 10 = 1844674407370955160" by simp
    show ?thesis
    proof (cases "n > (- 1 - 9) div 10")
      case big: True
      then have "unat n \<ge> 1844674407370955161" unfolding lim by (simp add: word_less_nat_alt)
      then have "dec_value (unat n) (takeWhile is_digit (c # cs)) \<ge> 18446744073709551610"
        using dec_value_mono [of "unat n * 10 + v" "takeWhile is_digit cs"] True by (simp add: v_def)
      moreover have "length_digits n d (c # cs) = (n, d, False, c # cs)" using True big by (simp add: is_digit_def)
      ultimately show ?thesis using 2(2) by auto
    next
      case small: False
      then have "unat n \<le> 1844674407370955160" unfolding lim by (simp add: word_less_nat_alt not_less)
      then have val: "unat (n * 10 + of_nat v) = unat n * 10 + v"
        using v by (simp add: unat_word_ariths unat_of_nat take_bit_nat_eq_self_iff)
      have "length_digits (n * 10 + of_nat v) (d + 1) cs = (n', d', ok, rest)"
        using 2(2) True small by (simp add: is_digit_def v_def)
      moreover have "\<not> \<not> (cval c \<ge> cval (CHR ''0'') \<and> cval c \<le> cval (CHR ''9''))" using True by (simp add: is_digit_def)
      ultimately show ?thesis using 2(1) [OF _ small, folded v_def] True val by (simp add: v_def)
    qed
  qed
qed auto

text \<open>A \<^verbatim>\<open>Content-Length\<close> in blanks, as the caller may write it.\<close>

definition length_text :: "bytes \<Rightarrow> nat \<Rightarrow> bool" where
  "length_text v n \<longleftrightarrow>
     (\<exists>a ds b. c_string v = a @ ds @ b \<and> list_all blank a \<and> list_all blank b \<and> ds \<noteq> [] \<and> list_all is_digit ds \<and> dec_value 0 ds = n)"

lemma caller_length_exact:
  assumes "n < 18446744073709551610"
  shows "caller_length_ok v n \<longleftrightarrow> length_text v n"
proof -
  obtain m d ok rest where ld: "length_digits 0 0 (dropWhile blank (c_string v)) = (m, d, ok, rest)" by (rule prod_cases4)
  let ?s = "dropWhile blank (c_string v)"
  note L = length_digits_spec [OF ld]
  have u: "unat (of_nat n :: u64) = n" using assms by (simp add: unat_of_nat take_bit_nat_eq_self_iff)
  have nb: "\<not> blank c" if "is_digit c" for c using that by (auto simp: blank_def is_digit_def)
  show ?thesis
  proof
    assume c: "caller_length_ok v n"
    then have ok: "ok" "d \<noteq> 0" "dropWhile blank rest = []" "m = of_nat n" using ld by (auto simp: caller_length_ok_def)
    have "c_string v = takeWhile blank (c_string v) @ takeWhile is_digit ?s @ dropWhile is_digit ?s" by simp
    moreover have "list_all blank (dropWhile is_digit ?s)" using L ok(1,3) by (simp add: list_all_iff dropWhile_eq_Nil_conv)
    moreover have "list_all blank (takeWhile blank (c_string v))" by (auto simp: list_all_iff dest: set_takeWhileD)
    moreover have "list_all is_digit (takeWhile is_digit ?s)" by (auto simp: list_all_iff dest: set_takeWhileD)
    moreover have "takeWhile is_digit ?s \<noteq> []" using L ok by auto
    moreover have "dec_value 0 (takeWhile is_digit ?s) = n" using L ok u by simp
    ultimately show "length_text v n" unfolding length_text_def by blast
  next
    assume "length_text v n"
    then obtain a ds b where t: "c_string v = a @ ds @ b" "list_all blank a" "list_all blank b" "ds \<noteq> []" "list_all is_digit ds" "dec_value 0 ds = n"
      unfolding length_text_def by blast
    obtain c cs where ds: "ds = c # cs" using t(4) by (cases ds) auto
    have s: "?s = ds @ b" using t(1,2,5) ds nb by (simp add: list_all_iff dropWhile_append2)
    have "\<not> is_digit c" if "blank c" for c using that nb by blast
    then have b: "takeWhile is_digit b = []" "dropWhile is_digit b = b" using t(3) by (cases b; simp)+
    have tw: "takeWhile is_digit ?s = ds" "dropWhile is_digit ?s = b"
      using s t(5) b by (simp_all add: list_all_iff takeWhile_append2 dropWhile_append2)
    have "ok" using L tw t(6) assms by simp
    moreover have "dropWhile blank b = []" using t(3) by (simp add: list_all_iff)
    moreover have "m = of_nat n"
    proof (rule unsigned_word_eqI [where ?'a = nat])
      show "unat m = unat (of_nat n :: u64)" using L calculation(1) tw t(6) u by simp
    qed
    ultimately show "caller_length_ok v n" using L tw ds ld by (simp add: caller_length_ok_def)
  qed
qed

definition framing_field_ok :: "nat \<Rightarrow> bool \<Rightarrow> bytes option \<times> bytes option \<Rightarrow> bool" where
  "framing_field_ok n streamed f =
     (case fst f of
        None \<Rightarrow> True
      | Some name \<Rightarrow> lowers (c_string name) \<noteq> ''transfer-encoding'' \<and>
          (if lowers (c_string name) = ''content-length''
           then \<not> streamed \<and> length_text (case snd f of None \<Rightarrow> [] | Some v \<Rightarrow> v) n else True))"

lemma caller_framing_exact:
  assumes n: "n < 18446744073709551610" and run: "check_caller_framing fs n streamed err = (rc, err')"
  shows "if list_all (framing_field_ok n streamed) fs then rc = ZUH_OK \<and> err' = err else rc = ZUH_ERR_PARSE \<and> err_code err' = ZUH_ERR_PARSE"
  using run
proof (induction fs)
  case (Cons f fs)
  obtain nm v where f: "f = (nm, v)" by (rule prod.exhaust)
  show ?case
  proof (cases nm)
    case None
    then show ?thesis using Cons f by (simp add: framing_field_ok_def)
  next
    case (Some name)
    have te: "zuh_ascii_casecmp name ''Transfer-Encoding'' = 0 \<longleftrightarrow> lowers (c_string name) = ''transfer-encoding''"
      and cl: "zuh_ascii_casecmp name ''Content-Length'' = 0 \<longleftrightarrow> lowers (c_string name) = ''content-length''"
      by (simp_all add: casecmp_0 literal_simps)
    have "check_caller_framing (f # fs) n streamed err =
      (if framing_field_ok n streamed f then check_caller_framing fs n streamed err
       else (ZUH_ERR_PARSE, snd (check_caller_framing (f # fs) n streamed err)))
      \<and> (\<not> framing_field_ok n streamed f \<longrightarrow> err_code (snd (check_caller_framing (f # fs) n streamed err)) = ZUH_ERR_PARSE)"
      unfolding f Some check_caller_framing.simps te cl framing_field_ok_def Let_def fst_conv snd_conv option.case
        caller_length_exact [OF n]
      by (simp add: no_cause_def)
    then show ?thesis using Cons by (cases "framing_field_ok n streamed f") auto
  qed
qed simp

definition caller_field_ok :: "bytes option \<times> bytes option \<Rightarrow> bool" where
  "caller_field_ok f \<longleftrightarrow> zuh_header_name_valid (case fst f of None \<Rightarrow> [] | Some s \<Rightarrow> c_string s)
     \<and> zuh_header_value_valid (case snd f of None \<Rightarrow> [] | Some s \<Rightarrow> c_string s)"

lemma caller_headers_exact:
  assumes "check_caller_headers i fs err = (rc, err')"
  shows "if list_all caller_field_ok fs then rc = ZUH_OK \<and> err' = err else rc = ZUH_ERR_PARSE \<and> err_code err' = ZUH_ERR_PARSE"
  using assms
proof (induction fs arbitrary: i)
  case (Cons f fs)
  obtain nm v where f: "f = (nm, v)" by (rule prod.exhaust)
  show ?case using Cons.prems Cons.IH [of "i + 1"] unfolding f check_caller_headers.simps Let_def
    by (auto simp: caller_field_ok_def no_cause_def split: if_splits)
qed simp

text \<open>
  C16: what a caller may set. The two checks accept the headers of a request exactly when every name is
  a token, every value is free of control characters, no field is a \<^verbatim>\<open>Transfer-Encoding\<close>, and every
  \<^verbatim>\<open>Content-Length\<close> is, between blanks, a decimal number equal to the length of the body, and absent when
  the body is streamed. Everything else is refused as a parse error before a connection is opened.
\<close>
theorem caller_fields_checked:
  assumes "length body < 2 ^ 63"
    and "check_caller_framing fs (length body) streamed err = (rc1, err1)" and "check_caller_headers 0 fs err1 = (rc2, err2)"
  shows "(rc1 = ZUH_OK \<and> rc2 = ZUH_OK \<longleftrightarrow> list_all (\<lambda>f. framing_field_ok (length body) streamed f \<and> caller_field_ok f) fs)
    \<and> (if rc1 = ZUH_OK then err1 = err \<and> (if rc2 = ZUH_OK then err2 = err else rc2 = ZUH_ERR_PARSE \<and> err_code err2 = ZUH_ERR_PARSE)
       else rc1 = ZUH_ERR_PARSE \<and> err_code err1 = ZUH_ERR_PARSE)"
proof -
  have n: "length body < 18446744073709551610" using assms(1) by simp
  show ?thesis using caller_framing_exact [OF n assms(2)] caller_headers_exact [OF assms(3)]
    by (auto simp: list_all_iff split: if_splits)
qed

text \<open>A host the engine let through always fits the buffer of the \<^verbatim>\<open>Host\<close> header.\<close>

lemma host_header_fits:
  assumes "check_host u err = (ZUH_OK, err')" and "u_host u = Some ho" and "c_string ho \<noteq> []"
  shows "\<exists>t. host_header u 300 = Some t"
proof -
  have "length (c_string ho) \<le> 253" using assms(1,2) by (auto simp: check_host_def ZUH_MAX_HOST_LEN_def Let_def split: if_splits)
  moreover have "length (show_nat (unat (u_port u))) \<le> 5"
  proof -
    have "unat (u_port u) < 10 ^ 5" using unsigned_less [of "u_port u", where ?'a = nat] by simp
    moreover have "n < 10 ^ k \<Longrightarrow> length (show_nat n) \<le> max 1 k" for n k
    proof (induction k arbitrary: n)
      case (Suc k)
      show ?case
      proof (cases "n < 10")
        case False
        then have "n div 10 < 10 ^ k" "0 < k" using Suc.prems by (auto simp: less_mult_imp_div_less intro!: Suc_leI gr0I)
        then show ?thesis using Suc.IH [of "n div 10"] by (subst show_nat.simps) (auto simp: max_def split: if_splits)
      qed (subst show_nat.simps, simp)
    qed (subst show_nat.simps, simp)
    ultimately show ?thesis using order_trans [of _ "max 1 5" 5] by fastforce
  qed
  ultimately show ?thesis using assms(2,3) by (auto simp: host_header_def Let_def)
qed

section \<open>Reuse\<close>

text \<open>
  C14: a pooled connection serves only a request with the settings it was opened under. Whatever
  sequence of operations the pool has been through, when it answers a hop with a connection, that
  connection was released for reuse under a key, and every hop that key was built for has the same scheme,
  host (in any case) and port, verification, CA file and extra CA file, revocation, minimum TLS version, pins, HTTP/2
  mode, and proxy with its credentials as this one. The only assumption is that no pin, of either hop, contains
  the separator byte.
\<close>
theorem reuse_same_settings:
  assumes "pool_reachable env h0 cfg p" and "zuh_engine_pool_key u opts px h = (Some key, h')"
    and "zuh_pool_acquire_by env key dl p = Some (Some s, q)" and "pins_plain opts"
  shows "\<exists>k. Took k s ZUH_REUSE_OK \<in> set (pl_log q) \<and> last (pl_log q) = Gave key s
    \<and> (\<forall>u1 opts1 px1 h1 h1'. zuh_engine_pool_key u1 opts1 px1 h1 = (Some k, h1') \<longrightarrow> pins_plain opts1 \<longrightarrow>
         engine_identity u1 opts1 px1 = engine_identity u opts px)"
proof -
  from acquired_entry [OF assms(1,3)] obtain e where e: "Took (pe_key e) s ZUH_REUSE_OK \<in> set (pl_log q)"
      "zuh_pool_key_eq (pe_key e) key" "last (pl_log q) = Gave key s" "fit_for_use env cfg (pool_now env p) e" by blast
  then show ?thesis using key_eq_identity [OF _ assms(2) _ assms(4)] by blast
qed

definition example_hop :: zuh_uri where
  "example_hop = zuh_uri_init\<lparr>u_scheme := Some ''http'', u_host := Some ''h'', u_path_query := Some ''/'', u_port := 80\<rparr>"

lemma dup_plenty:
  "plenty h \<Longrightarrow> length t + 1 + ZUH_HDR \<le> SIZE_MAX \<Longrightarrow> \<exists>h'. dup_or_null (Some t) h = (Some t, h') \<and> plenty h'"
  by (simp add: dup_or_null_def zuh_alloc_plenty)

lemma two_dups:
  assumes "plenty h"
  obtains h1 h2 where "dup_or_null (Some ''http'') h = (Some ''http'', h1)" "dup_or_null (Some ''h'') h1 = (Some ''h'', h2)"
proof -
  obtain h1 where h1: "dup_or_null (Some ''http'') h = (Some ''http'', h1)" "plenty h1"
    using dup_plenty [OF assms, of "''http''"] by (auto simp: SIZE_MAX_def ZUH_HDR_def)
  obtain h2 where "dup_or_null (Some ''h'') h1 = (Some ''h'', h2)"
    using dup_plenty [OF h1(2), of "''h''"] by (auto simp: SIZE_MAX_def ZUH_HDR_def)
  with h1(1) show ?thesis by (rule that)
qed

lemma example_key:
  assumes h: "plenty h"
  shows "\<exists>h'. zuh_engine_pool_key example_hop (zuh_get_opts_init\<lparr>go_verify := v\<rparr>) None h
     = (Some (engine_key example_hop (zuh_get_opts_init\<lparr>go_verify := v\<rparr>) None), h')"
proof -
  obtain r h' where run: "zuh_engine_pool_key example_hop (zuh_get_opts_init\<lparr>go_verify := v\<rparr>) None h = (r, h')" by (rule prod.exhaust)
  have hop: "u_host example_hop = Some ''h''" "\<not> u_is_https example_hop" by (simp_all add: example_hop_def zuh_uri_init_def)
  have opts: "go_ca_file (zuh_get_opts_init\<lparr>go_verify := v\<rparr>) = None" "go_tls (zuh_get_opts_init\<lparr>go_verify := v\<rparr>) = None"
    by (simp_all add: zuh_get_opts_init_def)
  obtain h1 h2 where "dup_or_null (Some ''http'') h = (Some ''http'', h1)" "dup_or_null (Some ''h'') h1 = (Some ''h'', h2)"
    using two_dups [OF h] .
  then have dups: "dup_cstr (Some ''http'') h = (Some ''http'', h1)" "dup_cstr (Some ''h'') h1 = (Some ''h'', h2)"
    by (simp_all add: dup_cstr_def literal_simps)
  have "r \<noteq> None" using run unfolding zuh_engine_pool_key_def hop opts
    by (auto simp: dups opts hop key_proxy_def Let_def)
  then show ?thesis using run engine_key_built [OF run] by auto
qed

lemma reuse_same_settings_witness:
  "\<exists>p q key h'. pool_reachable example_env fresh_heap zuh_pool_config_init p
     \<and> zuh_engine_pool_key example_hop (zuh_get_opts_init\<lparr>go_verify := 1\<rparr>) None fresh_heap = (Some key, h')
     \<and> zuh_pool_acquire_by example_env key zuh_deadline_never p = Some (Some 5, q)
     \<and> last (pl_log q) = Gave key 5"
proof -
  let ?key = "engine_key example_hop (zuh_get_opts_init\<lparr>go_verify := 1\<rparr>) None"
  obtain h' where key: "zuh_engine_pool_key example_hop (zuh_get_opts_init\<lparr>go_verify := 1\<rparr>) None fresh_heap = (Some ?key, h')"
    using example_key [OF plenty_fresh, of 1] by blast
  have plain: "pins_plain (zuh_get_opts_init\<lparr>go_verify := 1\<rparr>)" by (simp add: pins_plain_def zuh_get_opts_init_def)
  have "\<exists>h'. zuh_pool_key_copy ?key h = (Some ?key, h')" if h: "plenty h" for h
  proof -
    obtain h1 h2 where "dup_or_null (Some ''http'') h = (Some ''http'', h1)" "dup_or_null (Some ''h'') h1 = (Some ''h'', h2)"
      using two_dups [OF h] .
    then show ?thesis
      by (simp add: zuh_pool_key_copy_def engine_key_def tls_key_def example_hop_def zuh_uri_init_def zuh_get_opts_init_def
          zuh_pool_key_init_def literal_simps)
  qed
  then obtain p q where p: "pool_reachable example_env fresh_heap zuh_pool_config_init p"
      "zuh_pool_acquire_by example_env ?key zuh_deadline_never p = Some (Some 5, q)"
    using example_reuse [of ?key] by blast
  from reuse_same_settings [OF p(1) key p(2) plain] p key show ?thesis by blast
qed

lemma pool_key_separates_witness:
  "\<exists>k1 k2 h1 h2. zuh_engine_pool_key example_hop (zuh_get_opts_init\<lparr>go_verify := 1\<rparr>) None fresh_heap = (Some k1, h1)
     \<and> zuh_engine_pool_key example_hop (zuh_get_opts_init\<lparr>go_verify := 0\<rparr>) None fresh_heap = (Some k2, h2)
     \<and> \<not> zuh_pool_key_eq k1 k2"
proof -
  obtain h1 h2 where "zuh_engine_pool_key example_hop (zuh_get_opts_init\<lparr>go_verify := 1\<rparr>) None fresh_heap
        = (Some (engine_key example_hop (zuh_get_opts_init\<lparr>go_verify := 1\<rparr>) None), h1)"
      "zuh_engine_pool_key example_hop (zuh_get_opts_init\<lparr>go_verify := 0\<rparr>) None fresh_heap
        = (Some (engine_key example_hop (zuh_get_opts_init\<lparr>go_verify := 0\<rparr>) None), h2)"
    using example_key [OF plenty_fresh, of 1] example_key [OF plenty_fresh, of 0] by blast
  from pool_key_separates [OF this] this show ?thesis
    by (simp add: pins_plain_def zuh_get_opts_init_def engine_identity_def)
qed

lemma caller_fields_checked_witness:
  "check_caller_headers 0 [(Some ''Content-Length'', Some '' 003''), (Some ''Accept'', None)]
     (snd (check_caller_framing [(Some ''Content-Length'', Some '' 003''), (Some ''Accept'', None)] (length ''abc'') False no_error))
   = (ZUH_OK, no_error)"
proof -
  let ?fs = "[(Some ''Content-Length'', Some '' 003''), (Some ''Accept'', None)]"
  obtain rc1 e1 where f: "check_caller_framing ?fs (length ''abc'') False no_error = (rc1, e1)" by (rule prod.exhaust)
  obtain rc2 e2 where g: "check_caller_headers 0 ?fs e1 = (rc2, e2)" by (rule prod.exhaust)
  have "length_text '' 003'' (length ''abc'')"
    unfolding length_text_def
    by (intro exI [of _ "'' ''"] exI [of _ "''003''"] exI [of _ "[]"]) (simp add: blank_def SP_def is_digit_def literal_simps)
  moreover have "zuh_header_name_valid ''Content-Length''" "zuh_header_name_valid ''Accept''" "zuh_header_value_valid '' 003''"
      "zuh_header_value_valid []" by code_simp+
  ultimately have "list_all (\<lambda>f. framing_field_ok (length ''abc'') False f \<and> caller_field_ok f) ?fs"
    by (simp add: framing_field_ok_def caller_field_ok_def literal_simps)
  with caller_fields_checked [OF _ f g] have "rc1 = ZUH_OK" "rc2 = ZUH_OK" "e1 = no_error" "e2 = no_error" by auto
  then show ?thesis using f g by simp
qed

end
