(* ===== verification/Zuh_H2.thy ===== *)
theory Zuh_H2
  imports Zuh_Body Zuh_Key
begin

text \<open>
  \<^verbatim>\<open>src/zuh_h2.c\<close>: the HTTP/2 driver. nghttp2 is third-party code and a parameter: a session is a
  state of any type, and a call that may run callbacks is a tree of the questions it asks. The driver's
  callbacks and its data source answer them, and every answer may change what nghttp2 does next.
  The inner transport is a vtable and its state, as everywhere, and \<open>clock\<close> reads the monotonic clock.
  \<^verbatim>\<open>in_source\<close>, which is set only while the body function runs, and the memory of nghttp2 itself are not
  in the state.
\<close>

unbundle bit_operations_syntax

section \<open>nghttp2\<close>

datatype ng_type = NG_HEADERS | NG_RST_STREAM | NG_PING | NG_GOAWAY | NG_OTHER

record ng_frame =
  fr_type :: ng_type
  fr_stream :: int
  fr_flags :: "8 word"

definition NGHTTP2_FLAG_ACK :: "8 word" where
  "NGHTTP2_FLAG_ACK = 1"

definition NGHTTP2_FLAG_END_STREAM :: "8 word" where
  "NGHTTP2_FLAG_END_STREAM = 1"

definition NGHTTP2_ERR_NOMEM :: int where
  "NGHTTP2_ERR_NOMEM = -901"

definition NGHTTP2_NO_ERROR :: "32 word" where
  "NGHTTP2_NO_ERROR = 0"

datatype ng_event =
    Begin_Headers ng_frame
  | Header_Field ng_frame bytes bytes
  | Frame_Recv ng_frame
  | Data_Chunk int bytes
  | Stream_Close int "32 word"

text \<open>
  A call: it returns, runs a callback and goes on by whether it succeeded, or asks the data source of
  a stream for at most some bytes and goes on by the bytes and the end flag, or the failure.
\<close>

datatype ('n, 'r) ng_call =
    Ng_Return 'r 'n
  | Ng_Event ng_event "bool \<Rightarrow> ('n, 'r) ng_call"
  | Ng_Read nat "(bytes \<times> bool) option \<Rightarrow> ('n, 'r) ng_call"

text \<open>
  \<open>ng_send\<close> returns the count and the bytes to write. \<open>src_next\<close> is the caller's body function and
  \<open>'b\<close> its state; it returns its code, the piece and the error it filled in.
\<close>

record ('s, 'n, 'b) h2_env =
  he_vt :: "'s zuh_stream_vtable"
  he_clock :: "'s \<Rightarrow> zuh_millis"
  src_next :: "'b \<Rightarrow> zuh_error \<Rightarrow> zuh_code \<times> bytes \<times> zuh_error \<times> 'b"
  ng_recv :: "'n \<Rightarrow> bytes \<Rightarrow> ('n, int) ng_call"
  ng_send :: "'n \<Rightarrow> ('n, int \<times> bytes) ng_call"
  ng_want_read :: "'n \<Rightarrow> bool"
  ng_request_allowed :: "'n \<Rightarrow> bool"
  ng_consume :: "'n \<Rightarrow> int \<Rightarrow> nat \<Rightarrow> int \<times> 'n"
  ng_consume_connection :: "'n \<Rightarrow> nat \<Rightarrow> int \<times> 'n"
  ng_submit_request :: "'n \<Rightarrow> (bytes \<times> bytes) list \<Rightarrow> bool \<Rightarrow> int \<times> 'n"
  ng_submit_rst :: "'n \<Rightarrow> int \<Rightarrow> int \<times> 'n"
  ng_submit_ping :: "'n \<Rightarrow> int \<times> 'n"
  ng_callbacks_new :: int
  ng_option_new :: int
  ng_client_new :: "int \<times> 'n"
  ng_submit_settings :: "'n \<Rightarrow> (bytes \<times> nat) list \<Rightarrow> int \<times> 'n"
  ng_set_local_window :: "'n \<Rightarrow> nat \<Rightarrow> int \<times> 'n"
  ng_strerror :: "int \<Rightarrow> bytes"
  ng_http2_strerror :: "32 word \<Rightarrow> bytes"

section \<open>The connection\<close>

definition H2_READ_CHUNK :: nat where
  "H2_READ_CHUNK = 16384"

definition H2_DATA_MAX :: nat where
  "H2_DATA_MAX = 1024 * 1024"

definition H2_FIELD_OVERHEAD :: nat where
  "H2_FIELD_OVERHEAD = 32"

definition ZUH_H2_WINDOW :: nat where
  "ZUH_H2_WINDOW = 4 * 1024 * 1024"

text \<open>
  \<^verbatim>\<open>h2_impl\<close>. \<open>hi_hdrs\<close> is the caller's header list while \<^verbatim>\<open>zuh_h2_begin\<close> runs. \<open>hi_body\<close> is
  \<^verbatim>\<open>body\<close> with \<^verbatim>\<open>body_len\<close>, \<open>hi_src_data\<close> is \<^verbatim>\<open>src_data\<close> with \<^verbatim>\<open>src_len\<close>, and \<open>hi_src\<close> is
  \<^verbatim>\<open>src\<close>, absent when its function is NULL.
\<close>

record ('s, 'n, 'b) h2_impl =
  hi_inner :: 's
  hi_sess :: 'n
  hi_max_header_bytes :: nat
  hi_sid :: int
  hi_status :: int
  hi_hdrs :: "zuh_headers option"
  hi_trailers :: zuh_headers
  hi_in_trailers :: bool
  hi_block_bytes :: nat
  hi_headers_done :: bool
  hi_ended_on_headers :: bool
  hi_closed :: bool
  hi_close_code :: "32 word"
  hi_peer_reset :: bool
  hi_goaway :: bool
  hi_failed :: bool
  hi_cancelled :: bool
  hi_ping_acked :: bool
  hi_last_frame :: zuh_millis
  hi_cb_code :: zuh_code
  hi_cb_msg :: bytes
  hi_data :: zuh_buffer
  hi_body :: bytes
  hi_body_off :: nat
  hi_body_owned :: "nat option"
  hi_body_sent :: u64
  hi_src :: "'b option"
  hi_src_data :: bytes
  hi_src_off :: nat
  hi_src_end :: bool
  hi_src_failed :: bool
  hi_src_err :: zuh_error

definition SIZEOF_H2_IMPL :: nat where
  "SIZEOF_H2_IMPL = 768"

definition SIZEOF_STREAM :: nat where
  "SIZEOF_STREAM = 16"

text \<open>A stream the engine holds is a transport or the HTTP/2 wrapper of one.\<close>

datatype ('s, 'n, 'b) zuh_conn = Transport 's | H2 "('s, 'n, 'b) h2_impl"

fun zuh_h2_is :: "('s, 'n, 'b) zuh_conn \<Rightarrow> bool" where
  "zuh_h2_is (H2 h) = True"
| "zuh_h2_is (Transport s) = False"

fun zuh_h2_transport :: "('s, 'n, 'b) zuh_conn \<Rightarrow> 's" where
  "zuh_h2_transport (H2 h) = hi_inner h"
| "zuh_h2_transport (Transport s) = s"

section \<open>Callbacks\<close>

type_synonym ('s, 'n, 'b) cb_result = "bool \<times> ('s, 'n, 'b) h2_impl \<times> heap"

definition cb_fail :: "zuh_code \<Rightarrow> bytes \<Rightarrow> ('s, 'n, 'b) h2_impl \<Rightarrow> heap \<Rightarrow> ('s, 'n, 'b) cb_result" where
  "cb_fail code msg i h =
     (False, if hi_cb_code i = ZUH_OK then i\<lparr>hi_cb_code := code, hi_cb_msg := take 159 (c_string msg)\<rparr> else i, h)"

definition fresh_block :: "('s, 'n, 'b) h2_impl \<Rightarrow> heap \<Rightarrow> ('s, 'n, 'b) cb_result" where
  "fresh_block i h =
     (case hi_hdrs i of
        None \<Rightarrow> cb_fail ZUH_ERR_PARSE ''HTTP/2 response headers arrived outside a request'' i h
      | Some hs \<Rightarrow>
          (case zuh_headers_free hs h of (hs, h) \<Rightarrow>
           (True, i\<lparr>hi_hdrs := Some zuh_headers_init, hi_status := 0\<rparr>, h)))"

definition on_begin_headers :: "ng_frame \<Rightarrow> ('s, 'n, 'b) h2_impl \<Rightarrow> heap \<Rightarrow> ('s, 'n, 'b) cb_result" where
  "on_begin_headers f i h =
     (if fr_type f \<noteq> NG_HEADERS \<or> fr_stream f \<noteq> hi_sid i then (True, i, h)
      else
        let i = i\<lparr>hi_block_bytes := 0\<rparr> in
        if hi_headers_done i then (True, i\<lparr>hi_in_trailers := True\<rparr>, h) else fresh_block i h)"

definition digit_of :: "char \<Rightarrow> int" where
  "digit_of c = int (cval c) - int (cval (CHR ''0''))"

definition on_header :: "ng_frame \<Rightarrow> bytes \<Rightarrow> bytes \<Rightarrow> ('s, 'n, 'b) h2_impl \<Rightarrow> heap \<Rightarrow> ('s, 'n, 'b) cb_result" where
  "on_header f name v i h =
     (if fr_type f \<noteq> NG_HEADERS \<or> fr_stream f \<noteq> hi_sid i then (True, i, h)
      else
        let i = i\<lparr>hi_block_bytes := hi_block_bytes i + (length name + length v + H2_FIELD_OVERHEAD)\<rparr> in
        if hi_block_bytes i > hi_max_header_bytes i then
          cb_fail ZUH_ERR_PARSE
            (if hi_in_trailers i then ''HTTP/2 trailer block exceeds the header size limit''
             else ''HTTP/2 response header block exceeds the header size limit'') i h
        else if length name > 0 \<and> name ! 0 = CHR '':'' then
          (True,
           if \<not> hi_in_trailers i \<and> length name = 7 \<and> name = '':status'' \<and> length v = 3
           then i\<lparr>hi_status := digit_of (v ! 0) * 100 + digit_of (v ! 1) * 10 + digit_of (v ! 2)\<rparr> else i, h)
        else if \<not> hi_in_trailers i \<and> hi_hdrs i = None then
          cb_fail ZUH_ERR_PARSE ''HTTP/2 response headers arrived outside a request'' i h
        else
          case zuh_headers_add (if hi_in_trailers i then hi_trailers i else the (hi_hdrs i)) name v h of (rc, hs, h) \<Rightarrow>
          let i = (if hi_in_trailers i then i\<lparr>hi_trailers := hs\<rparr> else i\<lparr>hi_hdrs := Some hs\<rparr>) in
          if rc = ZUH_ERR_NOMEM then cb_fail rc ''out of memory'' i h
          else if rc \<noteq> ZUH_OK then cb_fail ZUH_ERR_PARSE ''HTTP/2 response header is invalid or over a limit'' i h
          else (True, i, h))"

definition on_frame_recv :: "ng_frame \<Rightarrow> ('s, 'n, 'b) h2_impl \<Rightarrow> heap \<Rightarrow> ('s, 'n, 'b) cb_result" where
  "on_frame_recv f i h =
     (if fr_type f = NG_GOAWAY then (True, i\<lparr>hi_goaway := True\<rparr>, h)
      else if fr_type f = NG_PING \<and> fr_flags f AND NGHTTP2_FLAG_ACK \<noteq> 0 then (True, i\<lparr>hi_ping_acked := True\<rparr>, h)
      else if fr_stream f \<noteq> hi_sid i \<or> hi_sid i = 0 then (True, i, h)
      else if fr_type f = NG_RST_STREAM then (True, i\<lparr>hi_peer_reset := True\<rparr>, h)
      else if fr_type f = NG_HEADERS then
        if hi_in_trailers i then (True, i, h)
        else if hi_status i \<ge> 100 \<and> hi_status i < 200 then fresh_block i h
        else
          let i = i\<lparr>hi_headers_done := True\<rparr> in
          (True, if fr_flags f AND NGHTTP2_FLAG_END_STREAM \<noteq> 0 then i\<lparr>hi_ended_on_headers := True\<rparr> else i, h)
      else (True, i, h))"

definition on_data :: "int \<Rightarrow> bytes \<Rightarrow> ('s, 'n, 'b) h2_impl \<Rightarrow> heap \<Rightarrow> ('s, 'n, 'b) cb_result" where
  "on_data sid d i h =
     (if sid \<noteq> hi_sid i then (True, i, h)
      else case zuh_buf_append d (hi_data i, h) of (ok, b, h) \<Rightarrow>
        let i = i\<lparr>hi_data := b\<rparr> in
        if \<not> ok then cb_fail ZUH_ERR_NOMEM ''out of memory'' i h else (True, i, h))"

definition on_close :: "int \<Rightarrow> 32 word \<Rightarrow> ('s, 'n, 'b) h2_impl \<Rightarrow> heap \<Rightarrow> ('s, 'n, 'b) cb_result" where
  "on_close sid code i h =
     (if sid \<noteq> hi_sid i then (True, i, h)
      else (True, i\<lparr>hi_closed := True, hi_close_code := code, hi_src := None\<rparr>, h))"

fun on_event :: "ng_event \<Rightarrow> ('s, 'n, 'b) h2_impl \<Rightarrow> heap \<Rightarrow> ('s, 'n, 'b) cb_result" where
  "on_event (Begin_Headers f) i h = on_begin_headers f i h"
| "on_event (Header_Field f name v) i h = on_header f name v i h"
| "on_event (Frame_Recv f) i h = on_frame_recv f i h"
| "on_event (Data_Chunk sid d) i h = on_data sid d i h"
| "on_event (Stream_Close sid code) i h = on_close sid code i h"

text \<open>
  \<^verbatim>\<open>body_source\<close>. The loop that asks for a piece runs once at most: a piece that is not empty leaves
  bytes to send, and an empty one ends the body.
\<close>

definition next_piece ::
    "('s, 'n, 'b) h2_env \<Rightarrow> 'b \<Rightarrow> ('s, 'n, 'b) h2_impl \<Rightarrow> bool \<times> ('s, 'n, 'b) h2_impl" where
  "next_piece env b i =
     (if hi_src_off i = length (hi_src_data i) \<and> \<not> hi_src_end i then
        (case src_next env b (hi_src_err i) of (rc, d, e, b) \<Rightarrow>
         let i = i\<lparr>hi_src := Some b, hi_src_err := e\<rparr> in
         if rc \<noteq> ZUH_OK then (False, i\<lparr>hi_src_failed := True\<rparr>)
         else if length d = 0 then (True, i\<lparr>hi_src_end := True\<rparr>)
         else (True, i\<lparr>hi_src_data := d, hi_src_off := 0\<rparr>))
      else (True, i))"

definition body_source ::
    "('s, 'n, 'b) h2_env \<Rightarrow> nat \<Rightarrow> ('s, 'n, 'b) h2_impl \<Rightarrow> (bytes \<times> bool) option \<times> ('s, 'n, 'b) h2_impl" where
  "body_source env n i =
     (case hi_src i of
        Some b \<Rightarrow>
          (case next_piece env b i of (ok, i) \<Rightarrow>
           if \<not> ok then (None, i)
           else
             let n = (if n > length (hi_src_data i) - hi_src_off i then length (hi_src_data i) - hi_src_off i else n);
                 d = take n (drop (hi_src_off i) (hi_src_data i));
                 i = i\<lparr>hi_src_off := hi_src_off i + n, hi_body_sent := hi_body_sent i + of_nat n\<rparr>
             in (Some (d, hi_src_end i \<and> hi_src_off i = length (hi_src_data i)), i))
      | None \<Rightarrow>
          let left = length (hi_body i) - hi_body_off i;
              n = (if n > left then left else n);
              d = take n (drop (hi_body_off i) (hi_body i));
              i = i\<lparr>hi_body_off := hi_body_off i + n, hi_body_sent := hi_body_sent i + of_nat n\<rparr>
          in (Some (d, hi_body_off i = length (hi_body i)), i))"

text \<open>Running a call of nghttp2: the callbacks and the source answer, and the session is stored at the end.\<close>

primrec ng_run ::
    "('s, 'n, 'b) h2_env \<Rightarrow> ('n, 'r) ng_call \<Rightarrow> ('s, 'n, 'b) h2_impl \<Rightarrow> heap \<Rightarrow> 'r \<times> ('s, 'n, 'b) h2_impl \<times> heap" where
  "ng_run env (Ng_Return r n) = (\<lambda>i h. (r, i\<lparr>hi_sess := n\<rparr>, h))"
| "ng_run env (Ng_Event e k) = (\<lambda>i h. case on_event e i h of (ok, i, h) \<Rightarrow> ng_run env (k ok) i h)"
| "ng_run env (Ng_Read n k) = (\<lambda>i h. case body_source env n i of (a, i) \<Rightarrow> ng_run env (k a) i h)"

section \<open>Moving bytes\<close>

text \<open>A call that can wait returns its code, the connection, the error and the heap, or does not return.\<close>

type_synonym ('s, 'n, 'b) h2_result = "zuh_code \<times> ('s, 'n, 'b) h2_impl \<times> zuh_error \<times> heap"

definition h2_fail ::
    "('s, 'n, 'b) h2_impl \<Rightarrow> zuh_error \<Rightarrow> zuh_code \<Rightarrow> zuh_phase \<Rightarrow> bytes \<Rightarrow> int \<Rightarrow> zuh_code \<times> ('s, 'n, 'b) h2_impl \<times> zuh_error" where
  "h2_fail i err code ph msg ng =
     (let err = zuh_error_set err code ph msg in
      (code, i\<lparr>hi_failed := True\<rparr>, if ng \<noteq> 0 then zuh_error_set_backend err (Some ''nghttp2'') ng else err))"

definition with_heap :: "zuh_code \<times> ('s, 'n, 'b) h2_impl \<times> zuh_error \<Rightarrow> heap \<Rightarrow> ('s, 'n, 'b) h2_result" where
  "with_heap r h = (case r of (rc, i, err) \<Rightarrow> (rc, i, err, h))"

partial_function (option) flush ::
    "('s, 'n, 'b) h2_env \<Rightarrow> ('s, 'n, 'b) h2_impl \<Rightarrow> zuh_deadline \<Rightarrow> zuh_error \<Rightarrow> heap \<Rightarrow> ('s, 'n, 'b) h2_result option" where
  "flush env i dl err h =
     (case ng_run env (ng_send env (hi_sess i)) i h of ((n, out), i, h) \<Rightarrow>
      if n < 0 \<and> hi_src_failed i then
        (let e = hi_src_err i;
             e = (if err_code e = ZUH_OK
                  then zuh_error_set e ZUH_ERR_IO ZUH_PHASE_WRITE ''the request body function failed'' else e)
         in Some (err_code e, i\<lparr>hi_failed := True\<rparr>, e, h))
      else if n < 0 then
        Some (with_heap (h2_fail i err (if n = NGHTTP2_ERR_NOMEM then ZUH_ERR_NOMEM else ZUH_ERR_IO)
          ZUH_PHASE_WRITE (ng_strerror env n) n) h)
      else if n = 0 then Some (ZUH_OK, i, err, h)
      else case zuh_stream_write_all (he_vt env) (he_clock env) (hi_inner i) out dl err of
          None \<Rightarrow> None
        | Some (ok, s, err) \<Rightarrow>
            let i = i\<lparr>hi_inner := s\<rparr> in
            if \<not> ok then Some (if err_code err \<noteq> ZUH_OK then err_code err else ZUH_ERR_IO, i\<lparr>hi_failed := True\<rparr>, err, h)
            else flush env (i\<lparr>hi_last_frame := he_clock env s\<rparr>) dl err h)"

definition recv_failed ::
    "('s, 'n, 'b) h2_env \<Rightarrow> ('s, 'n, 'b) h2_impl \<Rightarrow> zuh_error \<Rightarrow> int \<Rightarrow> zuh_code \<times> ('s, 'n, 'b) h2_impl \<times> zuh_error" where
  "recv_failed env i err used =
     (if hi_cb_code i \<noteq> ZUH_OK then h2_fail i err (hi_cb_code i) ZUH_PHASE_READ (hi_cb_msg i) 0
      else if used = NGHTTP2_ERR_NOMEM then h2_fail i err ZUH_ERR_NOMEM ZUH_PHASE_READ ''out of memory'' used
      else h2_fail i err ZUH_ERR_PARSE ZUH_PHASE_READ
        (take 127 (''HTTP/2 protocol error from the server: '' @ c_string (ng_strerror env used))) used)"

definition h2_pump ::
    "('s, 'n, 'b) h2_env \<Rightarrow> ('s, 'n, 'b) h2_impl \<Rightarrow> zuh_deadline \<Rightarrow> zuh_error \<Rightarrow> heap \<Rightarrow> ('s, 'n, 'b) h2_result option" where
  "h2_pump env i dl err h =
     (case flush env i dl err h of
        None \<Rightarrow> None
      | Some (rc, i, err, h) \<Rightarrow>
          if rc \<noteq> ZUH_OK then Some (rc, i, err, h)
          else if \<not> ng_want_read env (hi_sess i) then
            Some (with_heap
              (if hi_goaway i then h2_fail i err ZUH_ERR_IO ZUH_PHASE_READ
                 ''the server closed the HTTP/2 connection (GOAWAY) before the response ended'' 0
               else h2_fail i err ZUH_ERR_PARSE ZUH_PHASE_READ
                 ''the server broke the HTTP/2 protocol, so the session was ended'' 0) h)
          else case zuh_stream_read (he_vt env) (hi_inner i) H2_READ_CHUNK dl err of (n, data, s, err) \<Rightarrow>
            let i = i\<lparr>hi_inner := s\<rparr> in
            if n < 0 then
              (if err_code err = ZUH_ERR_WOULDBLOCK then Some (ZUH_OK, i, zuh_error_clear err, h)
               else Some (if err_code err \<noteq> ZUH_OK then err_code err else ZUH_ERR_IO, i\<lparr>hi_failed := True\<rparr>, err, h))
            else if n = 0 then
              Some (with_heap (h2_fail i err ZUH_ERR_IO ZUH_PHASE_READ
                ''the server closed the HTTP/2 connection before the response ended'' 0) h)
            else
              let i = i\<lparr>hi_last_frame := he_clock env s\<rparr> in
              case ng_run env (ng_recv env (hi_sess i) data) i h of (used, i, h) \<Rightarrow>
              if used < 0 then Some (with_heap (recv_failed env i err used) h)
              else flush env i dl err h)"

definition pump_stream ::
    "('s, 'n, 'b) h2_env \<Rightarrow> ('s, 'n, 'b) h2_impl \<Rightarrow> zuh_deadline \<Rightarrow> zuh_error \<Rightarrow> heap \<Rightarrow> ('s, 'n, 'b) h2_result option" where
  "pump_stream env i dl err h =
     (case flush env i dl err h of
        None \<Rightarrow> None
      | Some (rc, i, err, h) \<Rightarrow>
          if rc \<noteq> ZUH_OK \<or> hi_closed i then Some (rc, i, err, h) else h2_pump env i dl err h)"

definition stream_outcome ::
    "('s, 'n, 'b) h2_env \<Rightarrow> ('s, 'n, 'b) h2_impl \<Rightarrow> zuh_error \<Rightarrow> zuh_code \<times> ('s, 'n, 'b) h2_impl \<times> zuh_error" where
  "stream_outcome env i err =
     (let code = sint (hi_close_code i); why = c_string (ng_http2_strerror env (hi_close_code i)) in
      if hi_close_code i = NGHTTP2_NO_ERROR then (ZUH_OK, i, err)
      else if hi_peer_reset i then
        h2_fail i err ZUH_ERR_IO ZUH_PHASE_READ (take 159 (''the server reset the HTTP/2 stream ('' @ why @ '')'')) code
      else if hi_goaway i then
        h2_fail i err ZUH_ERR_IO ZUH_PHASE_READ
          (take 159 (''the server closed the HTTP/2 connection (GOAWAY, '' @ why @ '')'')) code
      else h2_fail i err ZUH_ERR_PARSE ZUH_PHASE_READ (take 159 (''malformed HTTP/2 response ('' @ why @ '')'')) code)"

section \<open>A request\<close>

record 'b zuh_h2_request =
  hr_method :: bytes
  hr_scheme :: bytes
  hr_authority :: bytes
  hr_path :: "bytes option"
  hr_headers :: zuh_headers
  hr_body :: "bytes option"
  hr_source :: "'b option"

definition conn_specific :: "bytes list" where
  "conn_specific = [''Connection'', ''Keep-Alive'', ''Proxy-Connection'', ''Transfer-Encoding'', ''Upgrade'', ''Host'']"

definition is_conn_specific :: "bytes \<Rightarrow> bool" where
  "is_conn_specific name = list_ex (\<lambda>d. zuh_ascii_casecmp name d = 0) conn_specific"

text \<open>The first loop of \<^verbatim>\<open>zuh_h2_begin\<close>: is there a \<^verbatim>\<open>TE\<close> that cannot be sent?\<close>

definition te_refused :: "zuh_header list \<Rightarrow> bool" where
  "te_refused fs = list_ex (\<lambda>f. zuh_ascii_casecmp (hd_name f) ''TE'' = 0 \<and> zuh_ascii_casecmp (hd_value f) ''trailers'' \<noteq> 0) fs"

text \<open>
  The second loop: the fields sent, each name lower-cased in a copy of its own. It returns whether
  memory sufficed, the fields and the sizes of the copies.
\<close>

fun h2_fields :: "zuh_header list \<Rightarrow> heap \<Rightarrow> bool \<times> (bytes \<times> bytes) list \<times> nat list \<times> heap" where
  "h2_fields [] h = (True, [], [], h)"
| "h2_fields (f # fs) h =
     (if is_conn_specific (hd_name f) then h2_fields fs h
      else case zuh_alloc (length (c_string (hd_name f)) + 1) h of (ok, h) \<Rightarrow>
        if \<not> ok then (False, [], [], h)
        else case h2_fields fs h of (ok, nv, ns, h) \<Rightarrow>
          (ok, (lowers (c_string (hd_name f)), c_string (hd_value f)) # nv, (length (c_string (hd_name f)) + 1) # ns, h))"

definition h2_pseudo :: "'b zuh_h2_request \<Rightarrow> (bytes \<times> bytes) list" where
  "h2_pseudo rq =
     [('':method'', c_string (hr_method rq)), ('':scheme'', c_string (hr_scheme rq)), ('':authority'', c_string (hr_authority rq)),
      ('':path'', case hr_path rq of Some p \<Rightarrow> if c_string p \<noteq> [] then c_string p else ''/'' | None \<Rightarrow> ''/'')]"

text \<open>The per-stream state, reset for a request; the callers' header list is lent for the call.\<close>

definition reset_stream ::
    "'b zuh_h2_request \<Rightarrow> zuh_headers \<Rightarrow> ('s, 'n, 'b) h2_impl \<Rightarrow> heap \<Rightarrow> ('s, 'n, 'b) h2_impl \<times> heap" where
  "reset_stream rq hs i h =
     (let h = zuh_free (hi_body_owned i) (snd (zuh_headers_free (hi_trailers i) h)) in
      (i\<lparr>hi_hdrs := Some hs, hi_status := 0, hi_in_trailers := False, hi_headers_done := False,
         hi_ended_on_headers := False, hi_closed := False, hi_close_code := 0, hi_peer_reset := False,
         hi_cancelled := False, hi_cb_code := ZUH_OK, hi_cb_msg := [], hi_trailers := zuh_headers_init,
         hi_data := zuh_buf_reset (hi_data i), hi_body_owned := None,
         hi_body := (case hr_body rq of Some b \<Rightarrow> b | None \<Rightarrow> []), hi_body_off := 0, hi_body_sent := 0,
         hi_src := hr_source rq, hi_src_data := [], hi_src_off := 0, hi_src_end := False, hi_src_failed := False,
         hi_src_err := zuh_error_clear (hi_src_err i)\<rparr>, h))"

partial_function (option) begin_loop ::
    "('s, 'n, 'b) h2_env \<Rightarrow> ('s, 'n, 'b) h2_impl \<Rightarrow> zuh_deadline \<Rightarrow> zuh_error \<Rightarrow> heap \<Rightarrow> ('s, 'n, 'b) h2_result option" where
  "begin_loop env i dl err h =
     (if hi_headers_done i then Some (ZUH_OK, i, err, h)
      else if hi_closed i then
        (case stream_outcome env i err of (rc, i, err) \<Rightarrow>
         if rc = ZUH_OK then
           Some (with_heap (h2_fail i err ZUH_ERR_PARSE ZUH_PHASE_READ ''the HTTP/2 stream ended without a response'' 0) h)
         else Some (rc, i, err, h))
      else case pump_stream env i dl err h of
          None \<Rightarrow> None
        | Some (rc, i, err, h) \<Rightarrow> if rc \<noteq> ZUH_OK then Some (rc, i, err, h) else begin_loop env i dl err h)"

text \<open>
  From the reset to the \<^verbatim>\<open>out\<close> label.
\<close>

definition submit_and_wait ::
    "('s, 'n, 'b) h2_env \<Rightarrow> (bytes \<times> bytes) list \<Rightarrow> ('s, 'n, 'b) h2_impl \<Rightarrow> zuh_deadline \<Rightarrow> zuh_error \<Rightarrow> heap
     \<Rightarrow> ('s, 'n, 'b) h2_result option" where
  "submit_and_wait env nv i dl err h =
     (case ng_submit_request env (hi_sess i) nv (hi_body i \<noteq> [] \<or> hi_src i \<noteq> None) of (sid, n) \<Rightarrow>
      let i = i\<lparr>hi_sess := n\<rparr> in
      if sid < 0 then
        Some (with_heap (h2_fail i err (if sid = NGHTTP2_ERR_NOMEM then ZUH_ERR_NOMEM else ZUH_ERR_IO)
          ZUH_PHASE_WRITE (ng_strerror env sid) sid) h)
      else begin_loop env (i\<lparr>hi_sid := sid\<rparr>) dl err h)"

definition SIZEOF_NV :: nat where
  "SIZEOF_NV = 40"

text \<open>
  \<^verbatim>\<open>zuh_h2_begin\<close> takes the caller's header list and returns it last, after the code, the connection,
  the status and the \<^verbatim>\<open>bodiless\<close> flag.
\<close>

type_synonym ('s, 'n, 'b) begin_result =
  "zuh_code \<times> ('s, 'n, 'b) zuh_conn \<times> (int \<times> bool) option \<times> zuh_headers \<times> zuh_error \<times> heap"

definition begin_out ::
    "zuh_code \<Rightarrow> ('s, 'n, 'b) h2_impl \<Rightarrow> zuh_headers \<Rightarrow> nat option \<Rightarrow> nat option \<Rightarrow> nat list \<Rightarrow> zuh_error \<Rightarrow> heap
     \<Rightarrow> ('s, 'n, 'b) begin_result" where
  "begin_out rc i hs nv_block names_block names err h =
     (let err = (if rc = ZUH_ERR_NOMEM \<and> err_code err = ZUH_OK
                 then zuh_error_set err rc ZUH_PHASE_WRITE ''out of memory'' else err);
          h = (if names_block \<noteq> None then zuh_free names_block (fold (\<lambda>n. zuh_free (Some n)) names h) else h)
      in (rc, H2 (i\<lparr>hi_hdrs := None\<rparr>), if rc = ZUH_OK then Some (hi_status i, hi_ended_on_headers i) else None,
          case hi_hdrs i of Some hs \<Rightarrow> hs | None \<Rightarrow> hs, err, zuh_free nv_block h))"

definition zuh_h2_begin ::
    "('s, 'n, 'b) h2_env \<Rightarrow> ('s, 'n, 'b) zuh_conn \<Rightarrow> 'b zuh_h2_request \<Rightarrow> zuh_headers \<Rightarrow> zuh_deadline \<Rightarrow> zuh_error \<Rightarrow> heap
     \<Rightarrow> ('s, 'n, 'b) begin_result option" where
  "zuh_h2_begin env conn rq hs dl err h =
     (case conn of
        Transport s \<Rightarrow>
          Some (ZUH_ERR_IO, conn, None, hs, zuh_error_set err ZUH_ERR_IO ZUH_PHASE_WRITE ''not an HTTP/2 connection'', h)
      | H2 i \<Rightarrow>
          if hi_failed i \<or> \<not> ng_request_allowed env (hi_sess i) then
            Some (ZUH_ERR_IO, conn, None, hs,
              zuh_error_set err ZUH_ERR_IO ZUH_PHASE_WRITE ''this HTTP/2 connection cannot carry another request'', h)
          else
            let fs = hs_items (hr_headers rq) in
            if te_refused fs then
              Some (ZUH_ERR_PARSE, conn, None, hs, zuh_error_set err ZUH_ERR_PARSE ZUH_PHASE_NONE
                ''a TE header other than 'trailers' cannot be sent over HTTP/2'', h)
            else case zuh_calloc (length fs + 4) SIZEOF_NV h of (nv_ok, h) \<Rightarrow>
              case zuh_calloc (length fs + 1) 8 h of (names_ok, h) \<Rightarrow>
              let nv_block = (if nv_ok then Some ((length fs + 4) * SIZEOF_NV) else None);
                  names_block = (if names_ok then Some ((length fs + 1) * 8) else None)
              in if \<not> nv_ok \<or> \<not> names_ok then Some (begin_out ZUH_ERR_NOMEM i hs nv_block names_block [] err h)
              else case h2_fields fs h of (ok, nv, names, h) \<Rightarrow>
                if \<not> ok then Some (begin_out ZUH_ERR_NOMEM i hs nv_block names_block names err h)
                else case reset_stream rq hs i h of (i, h) \<Rightarrow>
                  (case submit_and_wait env (h2_pseudo rq @ nv) i dl err h of
                     None \<Rightarrow> None
                   | Some (rc, i, err, h) \<Rightarrow> Some (begin_out rc i hs nv_block names_block names err h)))"

section \<open>The response body\<close>

text \<open>A step that feeds a pipe returns the pipe too, and whether the body is done.\<close>

type_synonym ('s, 'n, 'b, 'c, 'z) h2_body_result =
  "zuh_code \<times> ('s, 'n, 'b) h2_impl \<times> ('c, 'z) zuh_body_pipe \<times> bool \<times> zuh_error \<times> heap"

text \<open>The window of \<open>n\<close> bytes is granted to the stream, or to the connection alone when the stream is gone.\<close>

definition grant :: "('s, 'n, 'b) h2_env \<Rightarrow> ('s, 'n, 'b) h2_impl \<Rightarrow> nat \<Rightarrow> ('s, 'n, 'b) h2_impl" where
  "grant env i n =
     (if hi_closed i then i\<lparr>hi_sess := snd (ng_consume_connection env (hi_sess i) n)\<rparr>
      else case ng_consume env (hi_sess i) (hi_sid i) n of (rv, s) \<Rightarrow>
        if rv \<noteq> 0 then i\<lparr>hi_sess := snd (ng_consume_connection env s n)\<rparr> else i\<lparr>hi_sess := s\<rparr>)"

definition h2_deliver ::
    "'z zlib \<Rightarrow> 'c sink_vtable \<Rightarrow> ('s, 'n, 'b) h2_env \<Rightarrow> ('s, 'n, 'b) h2_impl \<Rightarrow> ('c, 'z) zuh_body_pipe \<Rightarrow> zuh_error \<Rightarrow> heap
     \<Rightarrow> ('s, 'n, 'b, 'c, 'z) h2_body_result option" where
  "h2_deliver zl kvt env i p err h =
     (let d = buf_data (hi_data i) in
      if length d = 0 then Some (ZUH_OK, i, p, False, err, h)
      else
        let p = p\<lparr>bp_raw_seen := bp_raw_seen p + of_nat (length d)\<rparr>;
            i = grant env i (length d)
        in case zuh_body_pipe_feed zl kvt p d err h of
             None \<Rightarrow> None
           | Some (rc, p, err, h) \<Rightarrow> Some (rc, i\<lparr>hi_data := zuh_buf_reset (hi_data i)\<rparr>, p, False, err, h))"

text \<open>The end of the body, once the stream has closed and everything was delivered.\<close>

definition body_end ::
    "'z zlib \<Rightarrow> 'c sink_vtable \<Rightarrow> ('s, 'n, 'b) h2_env \<Rightarrow> ('s, 'n, 'b) h2_impl \<Rightarrow> ('c, 'z) zuh_body_pipe \<Rightarrow> zuh_deadline
     \<Rightarrow> zuh_error \<Rightarrow> heap \<Rightarrow> ('s, 'n, 'b, 'c, 'z) h2_body_result option" where
  "body_end zl kvt env i p dl err h =
     (case stream_outcome env i err of (rc, i, err) \<Rightarrow>
      case (if rc = ZUH_OK then zuh_body_pipe_finish zl kvt p err h else Some (rc, p, err, h)) of
        None \<Rightarrow> None
      | Some (rc, p, err, h) \<Rightarrow>
          if rc \<noteq> ZUH_OK then Some (rc, i, p, False, err, h)
          else case zuh_headers_free (bp_trailers p) h of (_, h) \<Rightarrow>
            let p = p\<lparr>bp_trailers := hi_trailers i\<rparr>; i = i\<lparr>hi_trailers := zuh_headers_init\<rparr>
            in case flush env i dl no_error h of
                 None \<Rightarrow> None
               | Some (_, i, _, h) \<Rightarrow> Some (ZUH_OK, i, p, True, err, h))"

definition zuh_h2_body_step ::
    "'z zlib \<Rightarrow> 'c sink_vtable \<Rightarrow> ('s, 'n, 'b) h2_env \<Rightarrow> ('s, 'n, 'b) h2_impl \<Rightarrow> ('c, 'z) zuh_body_pipe \<Rightarrow> zuh_deadline
     \<Rightarrow> zuh_error \<Rightarrow> heap \<Rightarrow> ('s, 'n, 'b, 'c, 'z) h2_body_result option" where
  "zuh_h2_body_step zl kvt env i p dl err h =
     (case (if buf_data (hi_data i) = [] \<and> \<not> hi_closed i then pump_stream env i dl err h else Some (ZUH_OK, i, err, h)) of
        None \<Rightarrow> None
      | Some (rc, i, err, h) \<Rightarrow>
          if rc \<noteq> ZUH_OK then Some (rc, i, p, False, err, h)
          else case h2_deliver zl kvt env i p err h of
              None \<Rightarrow> None
            | Some (rc, i, p, d, err, h) \<Rightarrow>
                if rc \<noteq> ZUH_OK then Some (rc, i, p, False, err, h)
                else if \<not> hi_closed i \<or> buf_data (hi_data i) \<noteq> [] then Some (ZUH_OK, i, p, False, err, h)
                else body_end zl kvt env i p dl err h)"

partial_function (option) zuh_h2_body ::
    "'z zlib \<Rightarrow> 'c sink_vtable \<Rightarrow> ('s, 'n, 'b) h2_env \<Rightarrow> ('s, 'n, 'b) h2_impl \<Rightarrow> ('c, 'z) zuh_body_pipe \<Rightarrow> zuh_deadline
     \<Rightarrow> zuh_error \<Rightarrow> heap \<Rightarrow> ('s, 'n, 'b, 'c, 'z) h2_body_result option" where
  "zuh_h2_body zl kvt env i p dl err h =
     (case zuh_h2_body_step zl kvt env i p dl err h of
        None \<Rightarrow> None
      | Some (rc, i, p, d, err, h) \<Rightarrow>
          if rc = ZUH_OK \<and> \<not> d then zuh_h2_body zl kvt env i p dl err h else Some (rc, i, p, d, err, h))"

section \<open>The rest of the driver\<close>

definition zuh_h2_own_body ::
    "('s, 'n, 'b) zuh_conn \<Rightarrow> zuh_error \<Rightarrow> heap \<Rightarrow> zuh_code \<times> ('s, 'n, 'b) zuh_conn \<times> zuh_error \<times> heap" where
  "zuh_h2_own_body conn err h =
     (case conn of
        Transport s \<Rightarrow> (ZUH_OK, conn, err, h)
      | H2 i \<Rightarrow>
          let left = length (hi_body i) - hi_body_off i in
          if hi_closed i \<or> hi_src i \<noteq> None \<or> hi_body_owned i \<noteq> None \<or> left = 0 then (ZUH_OK, conn, err, h)
          else case zuh_alloc left h of (ok, h) \<Rightarrow>
            if \<not> ok then (ZUH_ERR_NOMEM, conn, zuh_error_set err ZUH_ERR_NOMEM ZUH_PHASE_WRITE ''out of memory'', h)
            else (ZUH_OK, H2 (i\<lparr>hi_body_owned := Some left, hi_body := drop (hi_body_off i) (hi_body i), hi_body_off := 0\<rparr>),
                  err, h))"

definition zuh_h2_body_sent :: "('s, 'n, 'b) zuh_conn \<Rightarrow> u64" where
  "zuh_h2_body_sent conn = (case conn of H2 i \<Rightarrow> hi_body_sent i | Transport s \<Rightarrow> 0)"

text \<open>DATA that still waits is dropped, and its share of the connection window granted.\<close>

definition drop_data :: "('s, 'n, 'b) h2_env \<Rightarrow> ('s, 'n, 'b) h2_impl \<Rightarrow> ('s, 'n, 'b) h2_impl" where
  "drop_data env i =
     (if buf_data (hi_data i) \<noteq> []
      then i\<lparr>hi_sess := snd (ng_consume_connection env (hi_sess i) (length (buf_data (hi_data i)))),
             hi_data := zuh_buf_reset (hi_data i)\<rparr>
      else i)"

definition zuh_h2_cancel ::
    "('s, 'n, 'b) h2_env \<Rightarrow> ('s, 'n, 'b) h2_impl \<Rightarrow> zuh_deadline \<Rightarrow> heap \<Rightarrow> (('s, 'n, 'b) h2_impl \<times> heap) option" where
  "zuh_h2_cancel env i dl h =
     (if hi_closed i \<or> hi_sid i = 0 \<or> hi_failed i then Some (i, h)
      else
        let i = drop_data env (i\<lparr>hi_src := None\<rparr>)
        in case ng_submit_rst env (hi_sess i) (hi_sid i) of (rv, n) \<Rightarrow>
           let i = i\<lparr>hi_sess := n\<rparr> in
           if rv \<noteq> 0 then Some (i\<lparr>hi_failed := True\<rparr>, h)
           else case flush env i dl no_error h of
               None \<Rightarrow> None
             | Some (rc, i, _, h) \<Rightarrow>
                 if rc \<noteq> ZUH_OK then Some (i\<lparr>hi_failed := True\<rparr>, h) else Some (i\<lparr>hi_cancelled := True\<rparr>, h))"

partial_function (option) ping_loop ::
    "('s, 'n, 'b) h2_env \<Rightarrow> ('s, 'n, 'b) h2_impl \<Rightarrow> zuh_deadline \<Rightarrow> zuh_error \<Rightarrow> heap
     \<Rightarrow> (bool \<times> ('s, 'n, 'b) h2_impl \<times> heap) option" where
  "ping_loop env i dl err h =
     (if hi_ping_acked i then Some (True, i, h)
      else case h2_pump env i dl err h of
          None \<Rightarrow> None
        | Some (rc, i, err, h) \<Rightarrow>
            if rc \<noteq> ZUH_OK \<or> hi_goaway i then Some (False, i, h) else ping_loop env i dl err h)"

definition zuh_h2_ping ::
    "('s, 'n, 'b) h2_env \<Rightarrow> ('s, 'n, 'b) h2_impl \<Rightarrow> zuh_deadline \<Rightarrow> heap \<Rightarrow> (bool \<times> ('s, 'n, 'b) h2_impl \<times> heap) option" where
  "zuh_h2_ping env i dl h =
     (if hi_failed i \<or> hi_goaway i then Some (False, i, h)
      else case ng_submit_ping env (hi_sess i) of (rv, n) \<Rightarrow>
        let i = i\<lparr>hi_ping_acked := False, hi_sess := n\<rparr> in
        if rv \<noteq> 0 then Some (False, i, h) else ping_loop env i dl no_error h)"

definition zuh_h2_idle_ms :: "('s, 'n, 'b) h2_env \<Rightarrow> ('s, 'n, 'b) zuh_conn \<Rightarrow> int" where
  "zuh_h2_idle_ms env conn = (case conn of Transport s \<Rightarrow> -1 | H2 i \<Rightarrow> he_clock env (hi_inner i) - hi_last_frame i)"

definition zuh_h2_reusable :: "('s, 'n, 'b) h2_env \<Rightarrow> ('s, 'n, 'b) zuh_conn \<Rightarrow> bool" where
  "zuh_h2_reusable env conn =
     (case conn of
        Transport s \<Rightarrow> False
      | H2 i \<Rightarrow> \<not> hi_failed i \<and> \<not> hi_goaway i \<and> (hi_cancelled i \<or> (hi_closed i \<and> hi_close_code i = NGHTTP2_NO_ERROR))
          \<and> ng_request_allowed env (hi_sess i))"

definition h2_close :: "('s, 'n, 'b) h2_env \<Rightarrow> ('s, 'n, 'b) h2_impl \<Rightarrow> ('s, 'n, 'b) h2_impl" where
  "h2_close env i = i\<lparr>hi_inner := zuh_stream_close (he_vt env) (hi_inner i)\<rparr>"

definition h2_destroy :: "('s, 'n, 'b) h2_env \<Rightarrow> ('s, 'n, 'b) h2_impl \<Rightarrow> heap \<Rightarrow> 's \<times> heap" where
  "h2_destroy env i h =
     (let h = snd (zuh_headers_free (hi_trailers i) h);
          h = snd (zuh_buf_free (hi_data i) h);
          h = zuh_free (hi_body_owned i) h;
          s = zuh_stream_free (he_vt env) (hi_inner i)
      in (s, zuh_free (Some SIZEOF_STREAM) (zuh_free (Some SIZEOF_H2_IMPL) h)))"

text \<open>The loop of \<^verbatim>\<open>h2_readable\<close>; \<open>r\<close> is what the inner stream answered.\<close>

partial_function (option) readable_loop ::
    "('s, 'n, 'b) h2_env \<Rightarrow> int \<Rightarrow> ('s, 'n, 'b) h2_impl \<Rightarrow> zuh_error \<Rightarrow> heap \<Rightarrow> (int \<times> ('s, 'n, 'b) h2_impl \<times> heap) option" where
  "readable_loop env r i err h =
     (if r \<noteq> 1 then Some (if r < 0 then r else 0, i, h)
      else case h2_pump env i (zuh_deadline_in (he_clock env (hi_inner i)) 100) err h of
          None \<Rightarrow> None
        | Some (rc, i, err, h) \<Rightarrow>
            if rc \<noteq> ZUH_OK \<or> hi_goaway i then Some (1, i, h)
            else case flush env i (zuh_deadline_in (he_clock env (hi_inner i)) 100) err h of
                None \<Rightarrow> None
              | Some (rc, i, err, h) \<Rightarrow>
                  if rc \<noteq> ZUH_OK then Some (1, i, h)
                  else if \<not> ng_want_read env (hi_sess i) \<or> \<not> ng_request_allowed env (hi_sess i) then
                    Some (1, i\<lparr>hi_failed := True\<rparr>, h)
                  else readable_loop env (zuh_stream_readable (he_vt env) (hi_inner i) 0) i err h)"

definition h2_readable ::
    "('s, 'n, 'b) h2_env \<Rightarrow> ('s, 'n, 'b) h2_impl \<Rightarrow> int \<Rightarrow> heap \<Rightarrow> (int \<times> ('s, 'n, 'b) h2_impl \<times> heap) option" where
  "h2_readable env i timeout_ms h =
     (let r = zuh_stream_readable (he_vt env) (hi_inner i) timeout_ms in
      if hi_failed i \<or> hi_goaway i then Some (1, i, h) else readable_loop env r i no_error h)"

section \<open>Wrapping a transport\<close>

definition UINT32_MAX :: nat where
  "UINT32_MAX = 4294967295"

definition h2_settings :: "nat \<Rightarrow> (bytes \<times> nat) list" where
  "h2_settings max_header_bytes =
     [(''ENABLE_PUSH'', 0), (''MAX_CONCURRENT_STREAMS'', 1),
      (''MAX_HEADER_LIST_SIZE'', if max_header_bytes > UINT32_MAX then UINT32_MAX else max_header_bytes),
      (''INITIAL_WINDOW_SIZE'', ZUH_H2_WINDOW)]"

text \<open>The calls that make and configure the session: the first failure, or the session.\<close>

definition h2_session :: "('s, 'n, 'b) h2_env \<Rightarrow> nat \<Rightarrow> int \<times> 'n" where
  "h2_session env max_header_bytes =
     (if ng_callbacks_new env \<noteq> 0 then (ng_callbacks_new env, snd (ng_client_new env))
      else if ng_option_new env \<noteq> 0 then (NGHTTP2_ERR_NOMEM, snd (ng_client_new env))
      else case ng_client_new env of (rv, n) \<Rightarrow>
        if rv \<noteq> 0 then (rv, n)
        else case ng_submit_settings env n (h2_settings max_header_bytes) of (rv, n) \<Rightarrow>
          if rv \<noteq> 0 then (rv, n) else ng_set_local_window env n ZUH_H2_WINDOW)"

definition zeroed_h2 :: "'s \<Rightarrow> 'n \<Rightarrow> nat \<Rightarrow> zuh_buffer \<Rightarrow> zuh_millis \<Rightarrow> ('s, 'n, 'b) h2_impl" where
  "zeroed_h2 s n mx b now =
     \<lparr>hi_inner = s, hi_sess = n, hi_max_header_bytes = mx, hi_sid = 0, hi_status = 0, hi_hdrs = None,
      hi_trailers = zuh_headers_init, hi_in_trailers = False, hi_block_bytes = 0, hi_headers_done = False,
      hi_ended_on_headers = False, hi_closed = False, hi_close_code = 0, hi_peer_reset = False, hi_goaway = False,
      hi_failed = False, hi_cancelled = False, hi_ping_acked = False, hi_last_frame = now, hi_cb_code = ZUH_OK,
      hi_cb_msg = [], hi_data = b, hi_body = [], hi_body_off = 0, hi_body_owned = None, hi_body_sent = 0,
      hi_src = None, hi_src_data = [], hi_src_off = 0, hi_src_end = False, hi_src_failed = False, hi_src_err = no_error\<rparr>"

definition zuh_h2_wrap ::
    "('s, 'n, 'b) h2_env \<Rightarrow> 's \<Rightarrow> nat \<Rightarrow> zuh_error \<Rightarrow> heap \<Rightarrow> zuh_code \<times> ('s, 'n, 'b) h2_impl option \<times> zuh_error \<times> heap" where
  "zuh_h2_wrap env s max_header_bytes err h =
     (case zuh_calloc 1 SIZEOF_STREAM h of (s_ok, h) \<Rightarrow>
      case zuh_calloc 1 SIZEOF_H2_IMPL h of (i_ok, h) \<Rightarrow>
      case (if s_ok \<and> i_ok then zuh_buf_init 0 H2_DATA_MAX h else (False, zeroed_buffer, h)) of (b_ok, b, h) \<Rightarrow>
      let release = (\<lambda>h. zuh_free (if i_ok then Some SIZEOF_H2_IMPL else None)
            (zuh_free (if s_ok then Some SIZEOF_STREAM else None) h))
      in if \<not> b_ok then (ZUH_ERR_NOMEM, None, zuh_error_set err ZUH_ERR_NOMEM ZUH_PHASE_CONNECT ''out of memory'', release h)
      else
        let mx = (if max_header_bytes \<noteq> 0 then max_header_bytes else ZUH_DEFAULT_MAX_HEADER_BYTES) in
        case h2_session env mx of (rv, n) \<Rightarrow>
        if rv \<noteq> 0 then
          (let err = zuh_error_set err (if rv = NGHTTP2_ERR_NOMEM then ZUH_ERR_NOMEM else ZUH_ERR_IO) ZUH_PHASE_CONNECT
                 (''could not start an HTTP/2 session: '' @ c_string (ng_strerror env rv))
           in (err_code err, None, err, release (snd (zuh_buf_free b h))))
        else (ZUH_OK, Some (zeroed_h2 s n mx b (he_clock env s)), err, h))"

end
