(* ===== verification/Zuh_H2_Exchange.thy ===== *)
theory Zuh_H2_Exchange
  imports Zuh_H2
begin

text \<open>
  What an exchange over HTTP/2 keeps: the DATA of a stream reaches the body pipe whole and in order, the
  connection window is given back for what the caller took, a header block is bounded, and the request
  goes out as it was asked for. nghttp2 enters by two laws, stated over its calls: \<open>accounts\<close> (what it
  hands out and what it is granted) and, per property, what its callbacks leave alone.
\<close>

unbundle bit_operations_syntax

section \<open>What nghttp2 promises\<close>

text \<open>
  \<open>yields\<close> walks a call under every answer: \<open>Q d ok r n\<close> must hold at its end, with the DATA of stream
  \<open>sid\<close> it handed out in \<open>d\<close> and in \<open>ok\<close> whether every callback succeeded.
\<close>

definition event_data :: "int \<Rightarrow> ng_event \<Rightarrow> bytes" where
  "event_data sid e = (case e of Data_Chunk s d \<Rightarrow> if s = sid then d else [] | _ \<Rightarrow> [])"

primrec yields :: "int \<Rightarrow> ('n, 'r) ng_call \<Rightarrow> bytes \<Rightarrow> bool \<Rightarrow> (bytes \<Rightarrow> bool \<Rightarrow> 'r \<Rightarrow> 'n \<Rightarrow> bool) \<Rightarrow> bool" where
  "yields sid (Ng_Return r n) = (\<lambda>d ok Q. Q d ok r n)"
| "yields sid (Ng_Event e k) = (\<lambda>d ok Q. \<forall>b. yields sid (k b) (d @ event_data sid e) (ok \<and> b) Q)"
| "yields sid (Ng_Read m k) = (\<lambda>d ok Q. \<forall>a. yields sid (k a) d (ok \<and> a \<noteq> None) Q)"

text \<open>
  \<open>arrived n sid\<close> is the DATA of stream \<open>sid\<close> the session has handed out in state \<open>n\<close>, and \<open>granted n\<close>
  the bytes of connection window the driver has given back. DATA is handed out while receiving only, a
  call in which a callback failed returns an error, and a consume that succeeds grants what it was told.
\<close>

definition accounts :: "('s, 'n, 'b) h2_env \<Rightarrow> ('n \<Rightarrow> int \<Rightarrow> bytes) \<Rightarrow> ('n \<Rightarrow> nat) \<Rightarrow> bool" where
  "accounts env arrived granted \<longleftrightarrow>
     (\<forall>n data sid. yields sid (ng_recv env n data) [] True
        (\<lambda>d ok r n'. arrived n' sid = arrived n sid @ d \<and> granted n' = granted n \<and> (ok \<or> r < 0)))
     \<and> (\<forall>n sid. yields sid (ng_send env n) [] True
        (\<lambda>d ok r n'. d = [] \<and> arrived n' sid = arrived n sid \<and> granted n' = granted n \<and> (ok \<or> fst r < 0)))
     \<and> (\<forall>n sid k rv n'. ng_consume env n sid k = (rv, n') \<longrightarrow>
          arrived n' = arrived n \<and> granted n' = granted n + (if rv = 0 then k else 0))
     \<and> (\<forall>n k rv n'. ng_consume_connection env n k = (rv, n') \<longrightarrow> arrived n' = arrived n \<and> granted n' = granted n + k)
     \<and> (\<forall>n nv b sid n'. ng_submit_request env n nv b = (sid, n') \<longrightarrow> granted n' = granted n \<and> (sid \<ge> 0 \<longrightarrow> arrived n' sid = []))
     \<and> (\<forall>n sid rv n'. ng_submit_rst env n sid = (rv, n') \<longrightarrow> arrived n' = arrived n \<and> granted n' = granted n)
     \<and> (\<forall>n rv n'. ng_submit_ping env n = (rv, n') \<longrightarrow> arrived n' = arrived n \<and> granted n' = granted n)"

section \<open>The window\<close>

lemma on_event_data:
  assumes "on_event e i h = (ok, i', h')"
  shows "hi_sid i' = hi_sid i \<and> hi_failed i' = hi_failed i
    \<and> (ok \<longrightarrow> buf_data (hi_data i') = buf_data (hi_data i) @ event_data (hi_sid i) e)"
proof -
  have keep: "cb_fail c m x g = (ok1, x', g') \<Longrightarrow> hi_sid x' = hi_sid x \<and> hi_failed x' = hi_failed x \<and> \<not> ok1" for c m g g' ok1
    and x x' :: "('a, 'b, 'c) h2_impl"
    by (auto simp: cb_fail_def split: if_splits)
  have fresh: "fresh_block x g = (ok1, x', g') \<Longrightarrow> hi_sid x' = hi_sid x \<and> hi_failed x' = hi_failed x
      \<and> (ok1 \<longrightarrow> hi_data x' = hi_data x)" for g g' ok1 and x x' :: "('a, 'b, 'c) h2_impl"
    by (auto simp: fresh_block_def split: option.splits prod.splits dest: keep)
  show ?thesis
  proof (cases e)
    case (Begin_Headers f)
    then show ?thesis using assms
      by (auto simp: on_begin_headers_def Let_def event_data_def split: if_splits dest: fresh)
  next
    case (Header_Field f nm v)
    then show ?thesis using assms
      by (auto simp: on_header_def Let_def event_data_def split: if_splits prod.splits dest: keep)
  next
    case (Frame_Recv f)
    then show ?thesis using assms
      by (auto simp: on_frame_recv_def Let_def event_data_def split: if_splits dest: fresh)
  next
    case (Data_Chunk sid d)
    then show ?thesis using assms
      by (auto simp: on_data_def Let_def event_data_def split: if_splits prod.splits dest: keep buf_append_data)
  next
    case (Stream_Close sid c)
    then show ?thesis using assms by (auto simp: on_close_def event_data_def split: if_splits)
  qed
qed

lemma body_source_keeps:
  assumes "body_source env n i = (a, i')"
  shows "hi_sid i' = hi_sid i \<and> hi_failed i' = hi_failed i \<and> hi_data i' = hi_data i"
  using assms by (auto simp: body_source_def next_piece_def Let_def split: option.splits prod.splits if_splits)

lemma ng_run_data:
  assumes "yields (hi_sid i) t d ok Q" and "ng_run env t i h = (r, i', h')"
  shows "\<exists>x ok'. Q (d @ x) ok' r (hi_sess i') \<and> hi_sid i' = hi_sid i \<and> hi_failed i' = hi_failed i
    \<and> (ok' \<longrightarrow> ok \<and> buf_data (hi_data i') = buf_data (hi_data i) @ x)"
  using assms
proof (induction t arbitrary: d ok i h)
  case (Ng_Return r n)
  then show ?case by (intro exI [of _ "[]"] exI [of _ ok]) auto
next
  case (Ng_Event e k)
  obtain b i1 h1 where e: "on_event e i h = (b, i1, h1)" by (rule prod_cases3)
  note E = on_event_data [OF e]
  have "yields (hi_sid i1) (k b) (d @ event_data (hi_sid i) e) (ok \<and> b) Q" using Ng_Event.prems(1) E by simp
  moreover have "ng_run env (k b) i1 h1 = (r, i', h')" using Ng_Event.prems(2) e by simp
  ultimately obtain x ok' where "Q ((d @ event_data (hi_sid i) e) @ x) ok' r (hi_sess i')" "hi_sid i' = hi_sid i1"
      "hi_failed i' = hi_failed i1" "ok' \<longrightarrow> (ok \<and> b) \<and> buf_data (hi_data i') = buf_data (hi_data i1) @ x"
    using Ng_Event.IH by blast
  then show ?case using E by (intro exI [of _ "event_data (hi_sid i) e @ x"] exI [of _ ok']) auto
next
  case (Ng_Read m k)
  obtain a i1 where a: "body_source env m i = (a, i1)" by (rule prod.exhaust)
  note A = body_source_keeps [OF a]
  have "yields (hi_sid i1) (k a) d (ok \<and> a \<noteq> None) Q" using Ng_Read.prems(1) A by simp
  moreover have "ng_run env (k a) i1 h = (r, i', h')" using Ng_Read.prems(2) a by simp
  ultimately obtain x ok' where "Q (d @ x) ok' r (hi_sess i')" "hi_sid i' = hi_sid i1"
      "hi_failed i' = hi_failed i1" "ok' \<longrightarrow> (ok \<and> a \<noteq> None) \<and> buf_data (hi_data i') = buf_data (hi_data i1) @ x"
    using Ng_Read.IH by blast
  then show ?case using A by (intro exI [of _ x] exI [of _ ok']) auto
qed

text \<open>
  \<open>moved\<close>: what a step may do to the accounts of the open stream. More bytes may arrive, and until the
  session fails they go to the end of the buffer; nothing is granted.
\<close>

definition moved ::
    "('n \<Rightarrow> int \<Rightarrow> bytes) \<Rightarrow> ('n \<Rightarrow> nat) \<Rightarrow> ('s, 'n, 'b) h2_impl \<Rightarrow> ('s, 'n, 'b) h2_impl \<Rightarrow> bool" where
  "moved arrived granted i i' \<longleftrightarrow> hi_sid i' = hi_sid i \<and> (hi_failed i \<longrightarrow> hi_failed i')
     \<and> granted (hi_sess i') = granted (hi_sess i)
     \<and> (\<exists>x. arrived (hi_sess i') (hi_sid i) = arrived (hi_sess i) (hi_sid i) @ x
          \<and> (hi_failed i' \<or> buf_data (hi_data i') = buf_data (hi_data i) @ x))"

lemma moved_refl: "moved arrived granted i i"
  by (auto simp: moved_def)

lemma moved_trans:
  assumes "moved arrived granted i i1" and "moved arrived granted i1 i2"
  shows "moved arrived granted i i2"
  using assms by (auto simp: moved_def)

lemma moved_failed:
  "hi_sid i' = hi_sid i \<Longrightarrow> hi_failed i' \<Longrightarrow> granted (hi_sess i') = granted (hi_sess i) \<Longrightarrow>
   arrived (hi_sess i') (hi_sid i) = arrived (hi_sess i) (hi_sid i) @ x \<Longrightarrow> moved arrived granted i i'"
  by (auto simp: moved_def)

lemma ng_send_moved:
  assumes "accounts env arrived granted" and "ng_run env (ng_send env (hi_sess i)) i h = ((n, out), i', h')"
  shows "hi_sid i' = hi_sid i" "hi_failed i' = hi_failed i" "granted (hi_sess i') = granted (hi_sess i)"
    "n \<ge> 0 \<Longrightarrow> moved arrived granted i i'" "arrived (hi_sess i') (hi_sid i) = arrived (hi_sess i) (hi_sid i)"
proof -
  have "yields (hi_sid i) (ng_send env (hi_sess i)) [] True
      (\<lambda>d ok r n'. d = [] \<and> arrived n' (hi_sid i) = arrived (hi_sess i) (hi_sid i) \<and> granted n' = granted (hi_sess i) \<and> (ok \<or> fst r < 0))"
    using assms(1) by (simp add: accounts_def)
  from ng_run_data [OF this assms(2)] obtain x ok' where x: "x = []" "arrived (hi_sess i') (hi_sid i) = arrived (hi_sess i) (hi_sid i)"
      "granted (hi_sess i') = granted (hi_sess i)" "ok' \<or> n < 0" "hi_sid i' = hi_sid i" "hi_failed i' = hi_failed i"
      "ok' \<longrightarrow> buf_data (hi_data i') = buf_data (hi_data i) @ x" by auto
  then show "hi_sid i' = hi_sid i" "hi_failed i' = hi_failed i" "granted (hi_sess i') = granted (hi_sess i)"
    "n \<ge> 0 \<Longrightarrow> moved arrived granted i i'" "arrived (hi_sess i') (hi_sid i) = arrived (hi_sess i) (hi_sid i)"
    by (auto simp: moved_def)
qed

lemma ng_recv_moved:
  assumes "accounts env arrived granted" and "ng_run env (ng_recv env (hi_sess i) data) i h = (used, i', h')"
  shows "hi_sid i' = hi_sid i" "hi_failed i' = hi_failed i" "granted (hi_sess i') = granted (hi_sess i)"
    "used \<ge> 0 \<Longrightarrow> moved arrived granted i i'" "\<exists>x. arrived (hi_sess i') (hi_sid i) = arrived (hi_sess i) (hi_sid i) @ x"
proof -
  have "yields (hi_sid i) (ng_recv env (hi_sess i) data) [] True
      (\<lambda>d ok r n'. arrived n' (hi_sid i) = arrived (hi_sess i) (hi_sid i) @ d \<and> granted n' = granted (hi_sess i) \<and> (ok \<or> r < 0))"
    using assms(1) by (simp add: accounts_def)
  from ng_run_data [OF this assms(2)] obtain x ok' where x: "arrived (hi_sess i') (hi_sid i) = arrived (hi_sess i) (hi_sid i) @ x"
      "granted (hi_sess i') = granted (hi_sess i)" "ok' \<or> used < 0" "hi_sid i' = hi_sid i" "hi_failed i' = hi_failed i"
      "ok' \<longrightarrow> buf_data (hi_data i') = buf_data (hi_data i) @ x" by auto
  then show "hi_sid i' = hi_sid i" "hi_failed i' = hi_failed i" "granted (hi_sess i') = granted (hi_sess i)"
    "used \<ge> 0 \<Longrightarrow> moved arrived granted i i'" "\<exists>x. arrived (hi_sess i') (hi_sid i) = arrived (hi_sess i) (hi_sid i) @ x"
    by (auto simp: moved_def)
qed

lemma h2_fail_fields:
  assumes "h2_fail i err c ph m ng = (rc, i', err')"
  shows "rc = c" "i' = i\<lparr>hi_failed := True\<rparr>" "err_code err' = c"
  using assms by (auto simp: h2_fail_def Let_def zuh_error_set_def zuh_error_set_backend_def split: if_splits)

lemma with_heap_eq: "with_heap r h = (rc, i, err, h') \<longleftrightarrow> r = (rc, i, err) \<and> h' = h"
  by (auto simp: with_heap_def split: prod.splits)

lemma flush_moved:
  assumes run: "flush env i dl err h = Some (rc, i', err', h')" and acc: "accounts env arrived granted"
  shows "moved arrived granted i i' \<and> (hi_failed i' \<longleftrightarrow> hi_failed i \<or> rc \<noteq> ZUH_OK)
    \<and> arrived (hi_sess i') (hi_sid i) = arrived (hi_sess i) (hi_sid i)"
proof -
  have "accounts env arrived granted \<Longrightarrow> moved arrived granted i (fst (snd r)) \<and> (hi_failed (fst (snd r)) \<longleftrightarrow> hi_failed i \<or> fst r \<noteq> ZUH_OK)
      \<and> arrived (hi_sess (fst (snd r))) (hi_sid i) = arrived (hi_sess i) (hi_sid i)"
    if run: "flush env i dl err h = Some r" for env :: "('a, 'b, 'c) h2_env" and arrived granted i dl err h r
  proof (induction rule: flush.raw_induct [OF _ run])
    case (1 loop env i dl err h r)
    obtain rc i' err' h' where r: "r = (rc, i', err', h')" by (rule prod_cases4)
    note acc = "1"(3) and body = "1"(2)
    have "moved arrived granted i i' \<and> (hi_failed i' \<longleftrightarrow> hi_failed i \<or> rc \<noteq> ZUH_OK)
        \<and> arrived (hi_sess i') (hi_sid i) = arrived (hi_sess i) (hi_sid i)"
    proof -
      obtain n out i1 h1 where run: "ng_run env (ng_send env (hi_sess i)) i h = ((n, out), i1, h1)" by (metis prod.exhaust)
      note S = ng_send_moved [OF acc run]
      show ?thesis
      proof (cases "n > 0")
        case False
        then consider "n < 0" | "n = 0" by linarith
        then show ?thesis
        proof cases
          case 1
          then have "i' = i1\<lparr>hi_failed := True\<rparr>" "rc \<noteq> ZUH_OK"
            using body run r
            by (auto simp: with_heap_eq Let_def zuh_error_set_def split: if_splits dest: h2_fail_fields)
          then show ?thesis using S by (simp add: moved_failed [where x = "[]"])
        next
          case 2
          then show ?thesis using body run r S by auto
        qed
      next
        case True
        obtain ok s e where w: "zuh_stream_write_all (he_vt env) (he_clock env) (hi_inner i1) out dl err = Some (ok, s, e)"
          using body run r True by (auto split: option.splits)
        show ?thesis
        proof (cases ok)
          case False
          then have "i' = i1\<lparr>hi_inner := s, hi_failed := True\<rparr>" "rc \<noteq> ZUH_OK" using body run r True w by (auto split: if_splits)
          then show ?thesis using S by (simp add: moved_failed [where x = "[]"])
        next
          case ok: True
          let ?i = "i1\<lparr>hi_inner := s, hi_last_frame := he_clock env s\<rparr>"
          have "loop env ?i dl e h1 = Some (rc, i', err', h')" using body run r True w ok by simp
          from "1"(1) [OF this acc] have "moved arrived granted ?i i'"
            "hi_failed i' \<longleftrightarrow> hi_failed i \<or> rc \<noteq> ZUH_OK" "arrived (hi_sess i') (hi_sid i) = arrived (hi_sess i) (hi_sid i)"
            using S by simp_all
          moreover have "moved arrived granted i ?i" using S(4) True by (auto simp: moved_def)
          ultimately show ?thesis using moved_trans by blast
        qed
      qed
    qed
    then show ?case using r by simp
  qed
  from this [OF run acc] show ?thesis by simp
qed

lemma moved_same:
  "hi_sid i' = hi_sid i \<Longrightarrow> hi_failed i' = hi_failed i \<Longrightarrow> hi_sess i' = hi_sess i \<Longrightarrow> hi_data i' = hi_data i \<Longrightarrow> moved arrived granted i i'"
  by (simp add: moved_def)

lemma pump_moved:
  assumes run: "h2_pump env i dl err h = Some (rc, i', err', h')" and acc: "accounts env arrived granted"
  shows "moved arrived granted i i' \<and> (hi_failed i' \<longleftrightarrow> hi_failed i \<or> rc \<noteq> ZUH_OK)"
proof -
  obtain rc1 i1 err1 h1 where f: "flush env i dl err h = Some (rc1, i1, err1, h1)"
    using run by (auto simp: h2_pump_def split: option.splits prod.splits)
  note F = flush_moved [OF f acc]
  show ?thesis
  proof (cases "rc1 = ZUH_OK \<and> ng_want_read env (hi_sess i1)")
    case False
    consider "rc1 \<noteq> ZUH_OK" | "rc1 = ZUH_OK" "\<not> ng_want_read env (hi_sess i1)" using False by blast
    then show ?thesis
    proof cases
      case 1
      then show ?thesis using run f F by (simp add: h2_pump_def)
    next
      case 2
      then obtain c m where "h2_fail i1 err1 c ZUH_PHASE_READ m 0 = (rc, i', err')" "c \<noteq> ZUH_OK"
        using run f by (cases "hi_goaway i1") (auto simp: h2_pump_def with_heap_eq)
      from h2_fail_fields [OF this(1)] this(2) F show ?thesis by (auto simp: moved_def)
    qed
  next
    case True
    obtain n data s err2 where rd: "zuh_stream_read (he_vt env) (hi_inner i1) H2_READ_CHUNK dl err1 = (n, data, s, err2)"
      by (rule prod_cases4)
    let ?i = "i1\<lparr>hi_inner := s, hi_last_frame := he_clock env s\<rparr>"
    have M: "moved arrived granted i i1" "hi_failed i1 = hi_failed i" using F True by simp_all
    show ?thesis
    proof (cases "n > 0")
      case False
      have "rc = ZUH_OK \<and> i' = i1\<lparr>hi_inner := s\<rparr> \<or> rc \<noteq> ZUH_OK \<and> i' = i1\<lparr>hi_inner := s, hi_failed := True\<rparr>"
        using run f True rd False by (auto simp: h2_pump_def Let_def with_heap_eq dest: h2_fail_fields split: if_splits)
      then show ?thesis using M by (auto simp: moved_def)
    next
      case pos: True
      obtain used i2 h2 where rcv: "ng_run env (ng_recv env (hi_sess ?i) data) ?i h1 = (used, i2, h2)" by (rule prod_cases3)
      note R = ng_recv_moved [OF acc rcv]
      have MI: "moved arrived granted i ?i" using M by (simp add: moved_def)
      show ?thesis
      proof (cases "used < 0")
        case True
        then have "rc \<noteq> ZUH_OK \<and> i' = i2\<lparr>hi_failed := True\<rparr>"
          using run f \<open>rc1 = ZUH_OK \<and> _\<close> rd pos rcv
          by (auto simp: h2_pump_def Let_def with_heap_eq recv_failed_def dest: h2_fail_fields split: if_splits)
        then show ?thesis using MI R(1-3,5) by (auto simp: moved_def)
      next
        case False
        then have "flush env i2 dl err2 h2 = Some (rc, i', err', h')"
          using run f \<open>rc1 = ZUH_OK \<and> _\<close> rd pos rcv by (simp add: h2_pump_def Let_def)
        note G = flush_moved [OF this acc]
        have "moved arrived granted ?i i2" using R(4) False by simp
        then have "moved arrived granted i i'" using G MI moved_trans by blast
        then show ?thesis using G R(2) M(2) by simp
      qed
    qed
  qed
qed

lemma pump_stream_moved:
  assumes run: "pump_stream env i dl err h = Some (rc, i', err', h')" and acc: "accounts env arrived granted"
  shows "moved arrived granted i i' \<and> (hi_failed i' \<longleftrightarrow> hi_failed i \<or> rc \<noteq> ZUH_OK)"
proof -
  obtain rc1 i1 err1 h1 where f: "flush env i dl err h = Some (rc1, i1, err1, h1)"
    using run by (auto simp: pump_stream_def split: option.splits prod.splits)
  note F = flush_moved [OF f acc]
  show ?thesis
  proof (cases "rc1 \<noteq> ZUH_OK \<or> hi_closed i1")
    case True
    then show ?thesis using run f F by (auto simp: pump_stream_def)
  next
    case False
    then have "h2_pump env i1 dl err1 h1 = Some (rc, i', err', h')" using run f by (simp add: pump_stream_def)
    note P = pump_moved [OF this acc]
    then have "moved arrived granted i i'" using F moved_trans by blast
    then show ?thesis using P F False by simp
  qed
qed

text \<open>
  The books of the open stream: what the driver took out of its buffer, with what still lies there, is
  what arrived, and exactly the bytes taken were granted since the books were opened at \<open>g\<close>.
\<close>

definition booked ::
    "('n \<Rightarrow> int \<Rightarrow> bytes) \<Rightarrow> ('n \<Rightarrow> nat) \<Rightarrow> int \<Rightarrow> bytes \<Rightarrow> ('s, 'n, 'b) h2_impl \<Rightarrow> bool" where
  "booked arrived granted g took i \<longleftrightarrow> int (granted (hi_sess i)) = g + int (length took)
     \<and> (hi_failed i \<or> arrived (hi_sess i) (hi_sid i) = took @ buf_data (hi_data i))"

lemma booked_moved: "booked arrived granted g took i \<Longrightarrow> moved arrived granted i i' \<Longrightarrow> booked arrived granted g took i'"
  by (auto simp: booked_def moved_def)

lemma accounts_consume:
  assumes "accounts env arrived granted"
  shows "ng_consume env n sid k = (rv, n') \<Longrightarrow> arrived n' = arrived n"
    "ng_consume env n sid k = (rv, n') \<Longrightarrow> granted n' = granted n + (if rv = 0 then k else 0)"
    "arrived (snd (ng_consume_connection env n k)) = arrived n"
    "granted (snd (ng_consume_connection env n k)) = granted n + k"
proof -
  note a = assms [unfolded accounts_def, THEN conjunct2, THEN conjunct2]
  show "ng_consume env n sid k = (rv, n') \<Longrightarrow> arrived n' = arrived n"
    "ng_consume env n sid k = (rv, n') \<Longrightarrow> granted n' = granted n + (if rv = 0 then k else 0)"
    using a [THEN conjunct1] by blast+
  show "arrived (snd (ng_consume_connection env n k)) = arrived n"
    "granted (snd (ng_consume_connection env n k)) = granted n + k"
    using a [THEN conjunct2, THEN conjunct1] by (metis prod.collapse)+
qed

lemma grant_books:
  assumes "accounts env arrived granted"
  shows "hi_sid (grant env i n) = hi_sid i" "hi_failed (grant env i n) = hi_failed i" "hi_data (grant env i n) = hi_data i"
    "hi_closed (grant env i n) = hi_closed i"
    "granted (hi_sess (grant env i n)) = granted (hi_sess i) + n" "arrived (hi_sess (grant env i n)) = arrived (hi_sess i)"
proof -
  obtain rv s where c: "ng_consume env (hi_sess i) (hi_sid i) n = (rv, s)" by (rule prod.exhaust)
  note C = accounts_consume(1,2) [OF assms c] and K = accounts_consume(3,4) [OF assms]
  show "hi_sid (grant env i n) = hi_sid i" "hi_failed (grant env i n) = hi_failed i" "hi_data (grant env i n) = hi_data i"
    "hi_closed (grant env i n) = hi_closed i"
    "granted (hi_sess (grant env i n)) = granted (hi_sess i) + n" "arrived (hi_sess (grant env i n)) = arrived (hi_sess i)"
    by (simp_all add: grant_def c C K)
qed

section \<open>What reaches the pipe\<close>

text \<open>
  \<open>handed\<close>: a step took the bytes \<open>y\<close> from the driver's buffer. The books grow by them, and a pipe that
  does not decompress passed them to its sink, or a prefix of them when it failed.
\<close>

definition handed ::
    "'c sink_vtable \<Rightarrow> ('n \<Rightarrow> int \<Rightarrow> bytes) \<Rightarrow> ('n \<Rightarrow> nat) \<Rightarrow> ('c zuh_sink \<Rightarrow> bytes) \<Rightarrow> int \<Rightarrow> bytes \<Rightarrow> ('c, 'z) zuh_body_pipe
     \<Rightarrow> ('s, 'n, 'b) h2_impl \<Rightarrow> ('c, 'z) zuh_body_pipe \<Rightarrow> bool \<Rightarrow> bytes \<Rightarrow> bool" where
  "handed kvt arrived granted sunk g took p i' p' ok y \<longleftrightarrow> booked arrived granted g (took @ y) i'
     \<and> (sink_contract kvt sunk \<and> \<not> bp_inflating p \<longrightarrow> \<not> bp_inflating p'
          \<and> (\<exists>k. sunk (bp_sink p') = sunk (bp_sink p) @ take k y \<and> (ok \<longrightarrow> k = length y)))"

lemma handed_nothing:
  "booked arrived granted g took i' \<Longrightarrow> bp_sink p' = bp_sink p \<Longrightarrow> bp_inflating p' = bp_inflating p \<Longrightarrow>
   handed kvt arrived granted sunk g took p i' p' ok []"
  by (simp add: handed_def)

lemma handed_trans:
  assumes "handed kvt arrived granted sunk g took p i1 p1 True y" and "handed kvt arrived granted sunk g (took @ y) p1 i2 p2 ok z"
  shows "handed kvt arrived granted sunk g took p i2 p2 ok (y @ z)"
proof -
  have "\<exists>k. sunk (bp_sink p2) = sunk (bp_sink p) @ take k (y @ z) \<and> (ok \<longrightarrow> k = length (y @ z))" if n: "sink_contract kvt sunk" "\<not> bp_inflating p"
  proof -
    from assms n have "\<not> bp_inflating p1" and s1: "sunk (bp_sink p1) = sunk (bp_sink p) @ y" by (auto simp: handed_def)
    with assms(2) n obtain k where "sunk (bp_sink p2) = sunk (bp_sink p1) @ take k z" "ok \<longrightarrow> k = length z" by (auto simp: handed_def)
    with s1 show ?thesis by (intro exI [of _ "length y + k"]) auto
  qed
  then show ?thesis using assms by (auto simp: handed_def)
qed

lemma deliver_handed:
  assumes run: "h2_deliver zl kvt env i p err h = Some (rc, i', p', dn, err', h')" and acc: "accounts env arrived granted"
    and b: "booked arrived granted g took i"
  shows "handed kvt arrived granted sunk g took p i' p' (rc = ZUH_OK) (buf_data (hi_data i))"
    "hi_sid i' = hi_sid i" "hi_failed i' = hi_failed i" "buf_data (hi_data i') = []"
proof -
  let ?d = "buf_data (hi_data i)"
  have "handed kvt arrived granted sunk g took p i' p' (rc = ZUH_OK) ?d \<and> hi_sid i' = hi_sid i \<and> hi_failed i' = hi_failed i
      \<and> buf_data (hi_data i') = []"
  proof (cases "?d = []")
    case True
    then show ?thesis using run b by (simp add: h2_deliver_def handed_nothing)
  next
    case False
    let ?p = "p\<lparr>bp_raw_seen := bp_raw_seen p + of_nat (length ?d)\<rparr>"
    note G = grant_books [OF acc, of i "length ?d"]
    obtain q e g' where f: "zuh_body_pipe_feed zl kvt ?p ?d err h = Some (rc, q, e, g')"
      and i': "i' = (grant env i (length ?d))\<lparr>hi_data := zuh_buf_reset (hi_data i)\<rparr>" "p' = q"
      using run False G by (auto simp: h2_deliver_def Let_def split: option.splits)
    have "booked arrived granted g (took @ ?d) i'" using b i' G by (auto simp: booked_def zuh_buf_reset_def)
    moreover have "\<not> bp_inflating p' \<and> (\<exists>k. sunk (bp_sink p') = sunk (bp_sink p) @ take k ?d \<and> (rc = ZUH_OK \<longrightarrow> k = length ?d))"
      if sink: "sink_contract kvt sunk" and p: "\<not> bp_inflating p"
    proof -
      have id: "\<not> bp_inflating ?p" using p by simp
      from feed_identity [OF sink id f] obtain k sk where
        "q = ?p\<lparr>bp_sink := sk\<rparr>" "sunk sk = sunk (bp_sink ?p) @ take k ?d" "rc = ZUH_OK \<longrightarrow> k = length ?d" by blast
      then show ?thesis using p i'(2) by (intro conjI exI [of _ k]) simp_all
    qed
    ultimately show ?thesis using i' G by (simp add: handed_def zuh_buf_reset_def)
  qed
  then show "handed kvt arrived granted sunk g took p i' p' (rc = ZUH_OK) ?d"
    "hi_sid i' = hi_sid i" "hi_failed i' = hi_failed i" "buf_data (hi_data i') = []" by simp_all
qed

lemma finish_identity: "\<not> bp_inflating p \<Longrightarrow> zuh_body_pipe_finish zl kvt p err h = Some (ZUH_OK, p, err, h)"
  by (simp add: zuh_body_pipe_finish_def)

lemma finish_stays:
  "zuh_body_pipe_finish zl kvt p err h = Some (rc, p', err', h') \<Longrightarrow> bp_inflating p' = bp_inflating p"
  by (auto simp: zuh_body_pipe_finish_def pipe_write_def Let_def split: if_splits option.splits prod.splits)

lemma outcome_cases:
  assumes "stream_outcome env i err = (rc, i', err')"
  shows "rc = ZUH_OK \<and> i' = i \<and> err' = err \<and> hi_close_code i = NGHTTP2_NO_ERROR
    \<or> rc \<noteq> ZUH_OK \<and> i' = i\<lparr>hi_failed := True\<rparr> \<and> hi_close_code i \<noteq> NGHTTP2_NO_ERROR \<and> err_code err' = rc"
  using assms by (auto simp: stream_outcome_def Let_def dest: h2_fail_fields split: if_splits)

text \<open>The end of the body takes nothing from the buffer, and on success everything that arrived had been taken.\<close>

lemma body_end_handed:
  assumes run: "body_end zl kvt env i p dl err h = Some (rc, i', p', dn, err', h')" and acc: "accounts env arrived granted"
    and b: "booked arrived granted g took i" and empty: "buf_data (hi_data i) = []"
  shows "handed kvt arrived granted sunk g took p i' p' (rc = ZUH_OK) []" "hi_sid i' = hi_sid i" "dn \<longleftrightarrow> rc = ZUH_OK"
    "hi_failed i \<Longrightarrow> hi_failed i'" "rc = ZUH_OK \<Longrightarrow> \<not> hi_failed i \<Longrightarrow> arrived (hi_sess i') (hi_sid i) = took"
    "arrived (hi_sess i') (hi_sid i) = arrived (hi_sess i) (hi_sid i)"
proof -
  have "handed kvt arrived granted sunk g took p i' p' (rc = ZUH_OK) [] \<and> hi_sid i' = hi_sid i \<and> (dn \<longleftrightarrow> rc = ZUH_OK)
      \<and> (hi_failed i \<longrightarrow> hi_failed i') \<and> (rc = ZUH_OK \<longrightarrow> \<not> hi_failed i \<longrightarrow> arrived (hi_sess i') (hi_sid i) = took)
      \<and> arrived (hi_sess i') (hi_sid i) = arrived (hi_sess i) (hi_sid i)"
  proof -
    obtain rc1 i1 err1 where o: "stream_outcome env i err = (rc1, i1, err1)" by (rule prod_cases3)
    note O = outcome_cases [OF o]
    have b1: "booked arrived granted g took i1" and sid: "hi_sid i1 = hi_sid i" and fl: "hi_failed i \<longrightarrow> hi_failed i1"
      and here: "arrived (hi_sess i1) (hi_sid i) = arrived (hi_sess i) (hi_sid i)"
      using b O by (auto simp: booked_def)
    have idle: "handed kvt arrived granted sunk g took p i1 q ok []" if "booked arrived granted g took i1" "bp_inflating q = bp_inflating p"
        "\<not> bp_inflating p \<longrightarrow> bp_sink q = bp_sink p" for q ok
      using that by (simp add: handed_def)
    show ?thesis
    proof (cases "rc1 = ZUH_OK")
      case False
      then have "rc = rc1" "i' = i1" "p' = p" "\<not> dn" using run o by (auto simp: body_end_def)
      then show ?thesis using False idle [OF b1, of p] sid fl here by simp
    next
      case True
      obtain frc q e fh where f: "zuh_body_pipe_finish zl kvt p err1 h = Some (frc, q, e, fh)"
        using run o True by (auto simp: body_end_def split: option.splits)
      have q: "bp_inflating q = bp_inflating p" "\<not> bp_inflating p \<longrightarrow> bp_sink q = bp_sink p \<and> frc = ZUH_OK"
        using finish_stays [OF f] finish_identity [of p zl kvt err1 h] f by auto
      show ?thesis
      proof (cases "frc = ZUH_OK")
        case False
        then have "rc = frc" "i' = i1" "p' = q" "\<not> dn" using run o True f by (auto simp: body_end_def)
        then show ?thesis using False idle [OF b1 q(1)] q sid fl here by simp
      next
        case ok: True
        let ?i = "i1\<lparr>hi_trailers := zuh_headers_init\<rparr>"
        obtain hs h2 where hf: "zuh_headers_free (bp_trailers q) fh = (hs, h2)" by (rule prod.exhaust)
        obtain rc2 i2 e2 h3 where fl2: "flush env ?i dl no_error h2 = Some (rc2, i2, e2, h3)"
          and res: "rc = ZUH_OK" "i' = i2" "p' = q\<lparr>bp_trailers := hi_trailers i1\<rparr>" "dn"
          using run o True f ok hf by (auto simp: body_end_def Let_def split: option.splits)
        note F = flush_moved [OF fl2 acc]
        have "booked arrived granted g took ?i" using b1 by (simp add: booked_def)
        with F have b2: "booked arrived granted g took i2" using booked_moved by blast
        have "hi_sid i2 = hi_sid i" using F sid by (simp add: moved_def)
        moreover have "arrived (hi_sess i2) (hi_sid i) = took" if "\<not> hi_failed i"
          using F that b empty O True sid by (auto simp: booked_def)
        moreover have "arrived (hi_sess i2) (hi_sid i) = arrived (hi_sess i) (hi_sid i)" using F sid here by simp
        ultimately show ?thesis using res b2 q fl F by (auto simp: handed_def)
      qed
    qed
  qed
  then show "handed kvt arrived granted sunk g took p i' p' (rc = ZUH_OK) []" "hi_sid i' = hi_sid i" "dn \<longleftrightarrow> rc = ZUH_OK"
    "hi_failed i \<Longrightarrow> hi_failed i'" "rc = ZUH_OK \<Longrightarrow> \<not> hi_failed i \<Longrightarrow> arrived (hi_sess i') (hi_sid i) = took"
    "arrived (hi_sess i') (hi_sid i) = arrived (hi_sess i) (hi_sid i)" by simp_all
qed

definition step_handed ::
    "'c sink_vtable \<Rightarrow> ('n \<Rightarrow> int \<Rightarrow> bytes) \<Rightarrow> ('n \<Rightarrow> nat) \<Rightarrow> ('c zuh_sink \<Rightarrow> bytes) \<Rightarrow> int \<Rightarrow> bytes \<Rightarrow> ('s, 'n, 'b) h2_impl \<Rightarrow> ('c, 'z) zuh_body_pipe
     \<Rightarrow> ('s, 'n, 'b, 'c, 'z) h2_body_result \<Rightarrow> bool" where
  "step_handed kvt arrived granted sunk g took i p r =
     (case r of (rc, i', p', dn, err', h') \<Rightarrow>
        \<exists>y. handed kvt arrived granted sunk g took p i' p' (rc = ZUH_OK) y \<and> hi_sid i' = hi_sid i
          \<and> (rc = ZUH_OK \<and> \<not> dn \<longrightarrow> hi_failed i' = hi_failed i)
          \<and> (\<not> hi_failed i \<longrightarrow> (\<exists>w. arrived (hi_sess i') (hi_sid i) = took @ y @ w))
          \<and> (rc = ZUH_OK \<and> dn \<and> \<not> hi_failed i \<longrightarrow> arrived (hi_sess i') (hi_sid i) = took @ y))"

lemma body_step_handed:
  assumes run: "zuh_h2_body_step zl kvt env i p dl err h = Some r" and acc: "accounts env arrived granted"
    and b: "booked arrived granted g took i"
  shows "step_handed kvt arrived granted sunk g took i p r"
proof -
  obtain rc i' p' dn err' h' where r: "r = (rc, i', p', dn, err', h')" by (metis prod.exhaust)
  obtain rc1 i1 err1 h1 where first: "(if buf_data (hi_data i) = [] \<and> \<not> hi_closed i then pump_stream env i dl err h
      else Some (ZUH_OK, i, err, h)) = Some (rc1, i1, err1, h1)"
    using run by (auto simp: zuh_h2_body_step_def split: option.splits)
  have F: "moved arrived granted i i1" "hi_failed i1 \<longleftrightarrow> hi_failed i \<or> rc1 \<noteq> ZUH_OK"
    using first pump_stream_moved [OF _ acc] moved_refl by (fastforce split: if_splits)+
  have b1: "booked arrived granted g took i1" using b F(1) by (rule booked_moved)
  have sid1: "hi_sid i1 = hi_sid i" using F(1) by (simp add: moved_def)
  have more: "\<exists>w. arrived (hi_sess i1) (hi_sid i) = took @ w" if "\<not> hi_failed i"
    using that b F(1) by (auto simp: booked_def moved_def)
  show ?thesis
  proof (cases "rc1 = ZUH_OK")
    case False
    then have "rc = rc1" "i' = i1" "p' = p" "\<not> dn" using run first r by (auto simp: zuh_h2_body_step_def)
    then show ?thesis using False b1 sid1 more handed_nothing [OF b1 refl refl]
      unfolding step_handed_def r prod.case by (intro exI [of _ "[]"]) simp
  next
    case True
    obtain rc2 i2 p2 d2 err2 h2 where d: "h2_deliver zl kvt env i1 p err1 h1 = Some (rc2, i2, p2, d2, err2, h2)"
      using run first True by (auto simp: zuh_h2_body_step_def split: option.splits)
    note D = deliver_handed [OF d acc b1]
    let ?y = "buf_data (hi_data i1)"
    show ?thesis
    proof (cases "rc2 = ZUH_OK \<and> hi_closed i2")
      case False
      then have "rc = rc2" "i' = i2" "p' = p2" "\<not> dn"
        using run first True d r D(4) by (auto simp: zuh_h2_body_step_def split: if_splits)
      moreover have "arrived (hi_sess i2) (hi_sid i) = took @ ?y" if "\<not> hi_failed i"
        using that D(1) [of sunk] D(2-4) sid1 F True by (auto simp: handed_def booked_def)
      ultimately show ?thesis using D(1) [of sunk] D(2-4) sid1 F True
        unfolding step_handed_def r prod.case by (intro exI [of _ ?y]) simp
    next
      case closed: True
      then have e: "body_end zl kvt env i2 p2 dl err2 h2 = Some (rc, i', p', dn, err', h')"
        using run first True d r D(4) by (simp add: zuh_h2_body_step_def)
      have h: "handed kvt arrived granted sunk g took p i2 p2 True ?y" using D(1) closed by simp
      then have b2: "booked arrived granted g (took @ ?y) i2" by (simp add: handed_def)
      note E = body_end_handed [OF e acc b2 D(4)]
      have "handed kvt arrived granted sunk g took p i' p' (rc = ZUH_OK) (?y @ [])"
        by (rule handed_trans [OF h E(1)])
      moreover have "arrived (hi_sess i') (hi_sid i) = took @ ?y" if "\<not> hi_failed i"
        using that b2 E(6) D(2-4) sid1 F True by (auto simp: booked_def)
      ultimately show ?thesis using E(2,3,5) D(2,3) sid1 F True
        unfolding step_handed_def r prod.case by (intro exI [of _ ?y]) simp
    qed
  qed
qed

lemma body_handed:
  assumes run: "zuh_h2_body zl kvt env i p dl err h = Some r" and acc: "accounts env arrived granted"
    and b: "booked arrived granted g took i"
  shows "step_handed kvt arrived granted sunk g took i p r \<and> (fst r = ZUH_OK \<longrightarrow> fst (snd (snd (snd r))))"
  using acc b
proof (induction arbitrary: arrived granted g took rule: zuh_h2_body.raw_induct [OF _ run])
  case (1 loop zl kvt env i p dl err h r)
  note body = "1"(2) and acc = "1"(3) and b = "1"(4)
  obtain rc i1 p1 dn err1 h1 where s: "zuh_h2_body_step zl kvt env i p dl err h = Some (rc, i1, p1, dn, err1, h1)"
    using body by (auto split: option.splits)
  note S = body_step_handed [OF s acc b]
  show ?case
  proof (cases "rc = ZUH_OK \<and> \<not> dn")
    case False
    then have "r = (rc, i1, p1, dn, err1, h1)" using body s by auto
    then show ?thesis using S False by simp
  next
    case True
    then have l: "loop zl kvt env i1 p1 dl err1 h1 = Some r" using body s by simp
    obtain y where y: "handed kvt arrived granted sunk g took p i1 p1 True y" "hi_sid i1 = hi_sid i" "hi_failed i1 = hi_failed i"
      using S True by (auto simp: step_handed_def)
    then have b1: "booked arrived granted g (took @ y) i1" by (simp add: handed_def)
    obtain rc2 i2 p2 d2 err2 h2 where r: "r = (rc2, i2, p2, d2, err2, h2)" by (metis prod.exhaust)
    from "1"(1) [OF l acc b1] obtain z where z: "handed kvt arrived granted sunk g (took @ y) p1 i2 p2 (rc2 = ZUH_OK) z"
        "hi_sid i2 = hi_sid i1" "rc2 = ZUH_OK \<and> \<not> d2 \<longrightarrow> hi_failed i2 = hi_failed i1"
        "rc2 = ZUH_OK \<and> d2 \<and> \<not> hi_failed i1 \<longrightarrow> arrived (hi_sess i2) (hi_sid i1) = (took @ y) @ z"
        "rc2 = ZUH_OK \<longrightarrow> d2" "\<not> hi_failed i1 \<longrightarrow> (\<exists>w. arrived (hi_sess i2) (hi_sid i1) = (took @ y) @ z @ w)"
      by (auto simp: step_handed_def r)
    from handed_trans [OF y(1) z(1)] z y(2,3) show ?thesis
      unfolding step_handed_def r prod.case by (intro conjI exI [of _ "y @ z"]) auto
  qed
qed

text \<open>
  C26: an HTTP/2 body is delivered. Over any nghttp2 that accounts for its DATA, whatever the transport
  does: \<^verbatim>\<open>zuh_h2_body\<close> hands the sink of a pipe that does not decompress the DATA of the open stream in
  order, without loss, repetition or bytes of another stream. What it took begins what arrived, also when the
  session fails; the sink has a prefix of what it took when the call fails, and all that arrived when it
  succeeds; and the window it grants the server is exactly the bytes it took.
\<close>
theorem h2_body_delivers:
  assumes "accounts env arrived granted" and "sink_contract kvt sunk"
    and "arrived (hi_sess i) (hi_sid i) = took @ buf_data (hi_data i)" and "\<not> hi_failed i" and "\<not> bp_inflating p"
    and "zuh_h2_body zl kvt env i p dl err h = Some (rc, i', p', dn, err', h')"
  shows "\<exists>y k. sunk (bp_sink p') = sunk (bp_sink p) @ take k y \<and> granted (hi_sess i') = granted (hi_sess i) + length y
    \<and> (\<exists>w. arrived (hi_sess i') (hi_sid i) = took @ y @ w \<and> (\<not> hi_failed i' \<longrightarrow> w = buf_data (hi_data i')))
    \<and> (rc = ZUH_OK \<longrightarrow> k = length y \<and> arrived (hi_sess i') (hi_sid i) = took @ y)"
proof -
  define g where "g = int (granted (hi_sess i)) - int (length took)"
  have b: "booked arrived granted g took i" using assms(3) by (simp add: booked_def g_def)
  from body_handed [OF assms(6,1) b, of sunk] obtain y where y: "handed kvt arrived granted sunk g took p i' p' (rc = ZUH_OK) y"
      "hi_sid i' = hi_sid i" "rc = ZUH_OK \<longrightarrow> dn" "rc = ZUH_OK \<and> dn \<and> \<not> hi_failed i \<longrightarrow> arrived (hi_sess i') (hi_sid i) = took @ y"
      "\<not> hi_failed i \<longrightarrow> (\<exists>w. arrived (hi_sess i') (hi_sid i) = took @ y @ w)"
    by (auto simp: step_handed_def)
  from y(1) assms(2,5) obtain k where k: "sunk (bp_sink p') = sunk (bp_sink p) @ take k y" "rc = ZUH_OK \<longrightarrow> k = length y"
    by (auto simp: handed_def)
  from y(1) have books: "granted (hi_sess i') = granted (hi_sess i) + length y"
      "\<not> hi_failed i' \<longrightarrow> arrived (hi_sess i') (hi_sid i') = (took @ y) @ buf_data (hi_data i')"
    by (auto simp: handed_def booked_def g_def)
  show ?thesis
    by (rule exI [of _ y], rule exI [of _ k], cases "hi_failed i'") (use k books y assms(4) in simp_all)
qed

section \<open>The window over an exchange\<close>

text \<open>
  Everything the client may do with a connection between one request and the next: read a step of the
  body, copy the unsent request body, cancel, PING, and probe it.
\<close>

inductive h2_exchange ::
    "'z zlib \<Rightarrow> 'c sink_vtable \<Rightarrow> ('s, 'n, 'b) h2_env \<Rightarrow> ('s, 'n, 'b) h2_impl \<Rightarrow> ('s, 'n, 'b) h2_impl \<Rightarrow> bool"
  for zl :: "'z zlib" and kvt :: "'c sink_vtable" and env :: "('s, 'n, 'b) h2_env" and i0 :: "('s, 'n, 'b) h2_impl" where
  idle: "h2_exchange zl kvt env i0 i0"
| stepped: "h2_exchange zl kvt env i0 i \<Longrightarrow>
    zuh_h2_body_step zl kvt env i (p :: ('c, 'z) zuh_body_pipe) dl err h = Some (rc, i', p', dn, err', h') \<Longrightarrow> h2_exchange zl kvt env i0 i'"
| owned_body: "h2_exchange zl kvt env i0 i \<Longrightarrow> zuh_h2_own_body (H2 i) err h = (rc, H2 i', err', h') \<Longrightarrow> h2_exchange zl kvt env i0 i'"
| cancelled: "h2_exchange zl kvt env i0 i \<Longrightarrow> zuh_h2_cancel env i dl h = Some (i', h') \<Longrightarrow> h2_exchange zl kvt env i0 i'"
| pinged: "h2_exchange zl kvt env i0 i \<Longrightarrow> zuh_h2_ping env i dl h = Some (b, i', h') \<Longrightarrow> h2_exchange zl kvt env i0 i'"
| probed: "h2_exchange zl kvt env i0 i \<Longrightarrow> h2_readable env i ms h = Some (r, i', h') \<Longrightarrow> h2_exchange zl kvt env i0 i'"

lemma booked_cong:
  "hi_sess i' = hi_sess i \<Longrightarrow> hi_sid i' = hi_sid i \<Longrightarrow> buf_data (hi_data i') = buf_data (hi_data i) \<Longrightarrow> (hi_failed i \<Longrightarrow> hi_failed i') \<Longrightarrow>
   booked arrived granted g took i \<Longrightarrow> booked arrived granted g took i'"
  by (auto simp: booked_def)

lemma accounts_submit:
  assumes "accounts env arrived granted"
  shows "ng_submit_request env n nv b = (sid, n') \<Longrightarrow> granted n' = granted n \<and> (sid \<ge> 0 \<longrightarrow> arrived n' sid = [])"
    "ng_submit_rst env n sid = (rv, n') \<Longrightarrow> arrived n' = arrived n \<and> granted n' = granted n"
    "ng_submit_ping env n = (rv, n') \<Longrightarrow> arrived n' = arrived n \<and> granted n' = granted n"
proof -
  note a = assms [unfolded accounts_def, THEN conjunct2, THEN conjunct2, THEN conjunct2, THEN conjunct2]
  show "ng_submit_request env n nv b = (sid, n') \<Longrightarrow> granted n' = granted n \<and> (sid \<ge> 0 \<longrightarrow> arrived n' sid = [])"
    using a [THEN conjunct1] by blast
  show "ng_submit_rst env n sid = (rv, n') \<Longrightarrow> arrived n' = arrived n \<and> granted n' = granted n"
    using a [THEN conjunct2, THEN conjunct1] by blast
  show "ng_submit_ping env n = (rv, n') \<Longrightarrow> arrived n' = arrived n \<and> granted n' = granted n"
    using a [THEN conjunct2, THEN conjunct2] by blast
qed

lemma cancel_books:
  assumes run: "zuh_h2_cancel env i dl h = Some (i', h')" and acc: "accounts env arrived granted" and b: "booked arrived granted g took i"
  shows "\<exists>y. booked arrived granted g (took @ y) i'"
proof (cases "hi_closed i \<or> hi_sid i = 0 \<or> hi_failed i")
  case True
  then show ?thesis using run b by (auto simp: zuh_h2_cancel_def intro!: exI [of _ "[]"])
next
  case False
  let ?d = "buf_data (hi_data i)"
  define i1 where "i1 = drop_data env (i\<lparr>hi_src := None\<rparr>)"
  have b1: "booked arrived granted g (took @ ?d) i1"
    using b False accounts_consume(3,4) [OF acc] by (auto simp: booked_def i1_def drop_data_def zuh_buf_reset_def)
  obtain rv n where rst: "ng_submit_rst env (hi_sess i1) (hi_sid i) = (rv, n)" by (rule prod.exhaust)
  have sid: "hi_sid i1 = hi_sid i" by (simp add: i1_def drop_data_def)
  have b2: "booked arrived granted g (took @ ?d) (i1\<lparr>hi_sess := n\<rparr>)"
    using b1 accounts_submit(2) [OF acc rst] by (simp add: booked_def)
  show ?thesis
  proof (cases "rv = 0")
    case False
    then have "i' = i1\<lparr>hi_sess := n, hi_failed := True\<rparr>"
      using run \<open>\<not> (hi_closed i \<or> _ \<or> _)\<close> rst sid by (simp add: zuh_h2_cancel_def Let_def i1_def)
    then show ?thesis using b2 by (auto simp: booked_def)
  next
    case True
    then obtain rc i2 e2 h2 where f: "flush env (i1\<lparr>hi_sess := n\<rparr>) dl no_error h = Some (rc, i2, e2, h2)"
      and i': "i' = (if rc \<noteq> ZUH_OK then i2\<lparr>hi_failed := True\<rparr> else i2\<lparr>hi_cancelled := True\<rparr>)"
      using run False rst sid by (auto simp: zuh_h2_cancel_def Let_def i1_def split: option.splits if_splits)
    have "booked arrived granted g (took @ ?d) i2" using booked_moved [OF b2] flush_moved [OF f acc] by blast
    then show ?thesis unfolding i' by (auto simp: booked_def split: if_splits)
  qed
qed

lemma ping_loop_moved:
  assumes run: "ping_loop env i dl err h = Some r" and acc: "accounts env arrived granted"
  shows "moved arrived granted i (fst (snd r))"
  using acc
proof (induction rule: ping_loop.raw_induct [OF _ run])
  case (1 loop env i dl err h r)
  note body = "1"(2) and acc = "1"(3)
  show ?case
  proof (cases "hi_ping_acked i")
    case False
    then obtain rc i1 e1 h1 where p: "h2_pump env i dl err h = Some (rc, i1, e1, h1)" using body by (auto split: option.splits)
    have m: "moved arrived granted i i1" using pump_moved [OF p acc] by simp
    show ?thesis
    proof (cases "rc \<noteq> ZUH_OK \<or> hi_goaway i1")
      case False
      then have "loop env i1 dl e1 h1 = Some r" using body p \<open>\<not> hi_ping_acked i\<close> by simp
      from "1"(1) [OF this acc] m show ?thesis using moved_trans by blast
    qed (use body p m \<open>\<not> hi_ping_acked i\<close> in auto)
  qed (use body moved_refl in auto)
qed

lemma ping_books:
  assumes run: "zuh_h2_ping env i dl h = Some (r, i', h')" and acc: "accounts env arrived granted" and b: "booked arrived granted g took i"
  shows "booked arrived granted g took i'"
proof (cases "hi_failed i \<or> hi_goaway i")
  case False
  obtain rv n where p: "ng_submit_ping env (hi_sess i) = (rv, n)" by (rule prod.exhaust)
  let ?i = "i\<lparr>hi_ping_acked := False, hi_sess := n\<rparr>"
  have b1: "booked arrived granted g took ?i" using b accounts_submit(3) [OF acc p] by (simp add: booked_def)
  then show ?thesis
    using run False p booked_moved [OF b1] ping_loop_moved [OF _ acc]
    by (fastforce simp: zuh_h2_ping_def Let_def split: if_splits)
qed (use run b in \<open>auto simp: zuh_h2_ping_def\<close>)

lemma readable_loop_books:
  assumes run: "readable_loop env r i err h = Some res" and acc: "accounts env arrived granted" and b: "booked arrived granted g took i"
  shows "booked arrived granted g took (fst (snd res))"
  using acc b
proof (induction rule: readable_loop.raw_induct [OF _ run])
  case (1 loop env r i err h res)
  note body = "1"(2) and acc = "1"(3) and b = "1"(4)
  show ?case
  proof (cases "r = 1")
    case True
    let ?dl = "\<lambda>i. zuh_deadline_in (he_clock env (hi_inner i)) 100"
    obtain rc i1 e1 h1 where p: "h2_pump env i (?dl i) err h = Some (rc, i1, e1, h1)" using body True by (auto split: option.splits)
    have b1: "booked arrived granted g took i1" using booked_moved [OF b] pump_moved [OF p acc] by blast
    show ?thesis
    proof (cases "rc \<noteq> ZUH_OK \<or> hi_goaway i1")
      case False
      then obtain rc2 i2 e2 h2 where f: "flush env i1 (?dl i1) e1 h1 = Some (rc2, i2, e2, h2)"
        using body True p by (auto split: option.splits)
      have b2: "booked arrived granted g took i2" using booked_moved [OF b1] flush_moved [OF f acc] by blast
      show ?thesis
      proof (cases "rc2 \<noteq> ZUH_OK \<or> \<not> ng_want_read env (hi_sess i2) \<or> \<not> ng_request_allowed env (hi_sess i2)")
        case True
        then have "fst (snd res) = i2 \<or> fst (snd res) = i2\<lparr>hi_failed := True\<rparr>"
          using body \<open>r = 1\<close> p \<open>\<not> (rc \<noteq> _ \<or> _)\<close> f by (auto split: if_splits)
        then show ?thesis using b2 by (auto simp: booked_def)
      next
        case go: False
        then have "loop env (zuh_stream_readable (he_vt env) (hi_inner i2) 0) i2 e2 h2 = Some res"
          using body True p False f by simp
        from "1"(1) [OF this acc b2] show ?thesis .
      qed
    qed (use body p b1 True in auto)
  qed (use body b in auto)
qed

lemma exchange_books:
  assumes "h2_exchange zl kvt env i0 i" and acc: "accounts env arrived granted" and b: "booked arrived granted g took i0"
  shows "\<exists>y. booked arrived granted g (took @ y) i"
  using assms(1)
proof induction
  case idle
  then show ?case using b by (intro exI [of _ "[]"]) simp
next
  case (stepped i p dl err h rc i' p' dn err' h')
  then obtain y where "booked arrived granted g (took @ y) i" by blast
  from body_step_handed [OF stepped(2) acc this, of undefined] show ?case
    by (auto simp: step_handed_def handed_def)
next
  case (owned_body i err h rc i' err' h')
  then obtain y where "booked arrived granted g (took @ y) i" by blast
  then have "booked arrived granted g (took @ y) i'"
    by (rule booked_cong [rotated 4]) (use owned_body(2) in \<open>auto simp: zuh_h2_own_body_def Let_def split: if_splits prod.splits\<close>)
  then show ?case by blast
next
  case (cancelled i dl h i' h')
  then obtain y where "booked arrived granted g (took @ y) i" by blast
  from cancel_books [OF cancelled(2) acc this] show ?case by (metis append.assoc)
next
  case (pinged i dl h b i' h')
  then show ?case using ping_books [OF pinged(2) acc] by blast
next
  case (probed i ms h r i' h')
  then obtain y where y: "booked arrived granted g (took @ y) i" by blast
  have "booked arrived granted g (took @ y) i'"
  proof (cases "hi_failed i \<or> hi_goaway i")
    case True
    then show ?thesis using probed(2) y by (auto simp: h2_readable_def Let_def)
  next
    case False
    then have "readable_loop env (zuh_stream_readable (he_vt env) (hi_inner i) ms) i no_error h = Some (r, i', h')"
      using probed(2) by (simp add: h2_readable_def Let_def)
    from readable_loop_books [OF this acc y] show ?thesis by simp
  qed
  then show ?case by blast
qed

text \<open>
  C25: the connection window is conserved. From the state a request leaves behind, through any sequence of
  body steps, copies of the request body, cancellations, PINGs and probes, with whatever the transport and
  nghttp2 do, the window granted grows by exactly the DATA the driver took out of its buffer, and until
  the session fails the taken bytes with the buffered ones are all the DATA that arrived, in order.
\<close>
theorem h2_window_conserved:
  assumes "h2_exchange zl kvt env i i'" and "accounts env arrived granted"
    and "arrived (hi_sess i) (hi_sid i) = took @ buf_data (hi_data i)"
  shows "\<exists>y. granted (hi_sess i') = granted (hi_sess i) + length y
    \<and> (hi_failed i' \<or> arrived (hi_sess i') (hi_sid i') = took @ y @ buf_data (hi_data i'))"
proof -
  define g where "g = int (granted (hi_sess i)) - int (length took)"
  have "booked arrived granted g took i" using assms(3) by (simp add: booked_def g_def)
  from exchange_books [OF assms(1,2) this] obtain y where "booked arrived granted g (took @ y) i'" by blast
  then show ?thesis by (intro exI [of _ y]) (auto simp: booked_def g_def)
qed

text \<open>A request opens the books of its stream: nothing arrived yet, nothing taken.\<close>

lemma begin_loop_moved:
  assumes run: "begin_loop env i dl err h = Some r" and acc: "accounts env arrived granted"
  shows "moved arrived granted i (fst (snd r)) \<and> (fst r = ZUH_OK \<longrightarrow> hi_headers_done (fst (snd r)))"
  using acc
proof (induction rule: begin_loop.raw_induct [OF _ run])
  case (1 loop env i dl err h r)
  note body = "1"(2) and acc = "1"(3)
  consider "hi_headers_done i" | "\<not> hi_headers_done i" "hi_closed i" | "\<not> hi_headers_done i" "\<not> hi_closed i" by blast
  then show ?case
  proof cases
    case 1
    then show ?thesis using body moved_refl by auto
  next
    case 2
    obtain rc i1 e1 where o: "stream_outcome env i err = (rc, i1, e1)" by (rule prod_cases3)
    note O = outcome_cases [OF o]
    obtain rc2 i2 e2 h2 where r: "r = (rc2, i2, e2, h2)" by (rule prod_cases4)
    have "hi_sid i2 = hi_sid i \<and> hi_failed i2 \<and> hi_sess i2 = hi_sess i \<and> rc2 \<noteq> ZUH_OK"
    proof (cases "rc = ZUH_OK")
      case True
      then have "h2_fail i1 e1 ZUH_ERR_PARSE ZUH_PHASE_READ ''the HTTP/2 stream ended without a response'' 0 = (rc2, i2, e2)"
        using body 2 o r by (simp add: with_heap_eq)
      from h2_fail_fields [OF this] O True show ?thesis by auto
    next
      case False
      then show ?thesis using body 2 o r O by auto
    qed
    then show ?thesis using r by (simp add: moved_failed)
  next
    case 3
    then obtain rc i1 e1 h1 where p: "pump_stream env i dl err h = Some (rc, i1, e1, h1)" using body by (auto split: option.splits)
    have m: "moved arrived granted i i1" using pump_stream_moved [OF p acc] by simp
    show ?thesis
    proof (cases "rc = ZUH_OK")
      case True
      then have "loop env i1 dl e1 h1 = Some r" using body 3 p by simp
      from "1"(1) [OF this acc] m show ?thesis using moved_trans by blast
    next
      case False
      then show ?thesis using body 3 p m by auto
    qed
  qed
qed

lemma begin_parts:
  assumes run: "zuh_h2_begin env (H2 i) rq hs dl err h = Some (ZUH_OK, conn, st, hs', err', h')"
  obtains h2 nvs names h3 i0 h4 sid n i1 e1 h5 where
    "\<not> te_refused (hs_items (hr_headers rq))" "h2_fields (hs_items (hr_headers rq)) h2 = (True, nvs, names, h3)"
    "reset_stream rq hs i h3 = (i0, h4)"
    "ng_submit_request env (hi_sess i) (h2_pseudo rq @ nvs) (hi_body i0 \<noteq> [] \<or> hi_src i0 \<noteq> None) = (sid, n)" "sid \<ge> 0"
    "begin_loop env (i0\<lparr>hi_sess := n, hi_sid := sid\<rparr>) dl err h4 = Some (ZUH_OK, i1, e1, h5)"
    "conn = H2 (i1\<lparr>hi_hdrs := None\<rparr>)" "st = Some (hi_status i1, hi_ended_on_headers i1)"
    "hs' = (case hi_hdrs i1 of Some x \<Rightarrow> x | None \<Rightarrow> hs)"
proof -
  have pass: "\<not> (hi_failed i \<or> \<not> ng_request_allowed env (hi_sess i))" "\<not> te_refused (hs_items (hr_headers rq))"
    using run by (auto simp: zuh_h2_begin_def Let_def split: if_splits prod.splits)
  let ?fs = "hs_items (hr_headers rq)"
  obtain nv_ok h1 where nv: "zuh_calloc (length ?fs + 4) SIZEOF_NV h = (nv_ok, h1)" by (rule prod.exhaust)
  obtain names_ok h2 where nm: "zuh_calloc (length ?fs + 1) 8 h1 = (names_ok, h2)" by (rule prod.exhaust)
  obtain ok nvs names h3 where f: "h2_fields ?fs h2 = (ok, nvs, names, h3)" by (rule prod_cases4)
  obtain i0 h4 where rs: "reset_stream rq hs i h3 = (i0, h4)" by (rule prod.exhaust)
  have oks: "nv_ok" "names_ok" "ok"
    using run pass nv nm f by (auto simp: zuh_h2_begin_def Let_def begin_out_def split: if_splits)
  then obtain rc i1 e1 h5 where w: "submit_and_wait env (h2_pseudo rq @ nvs) i0 dl err h4 = Some (rc, i1, e1, h5)"
    and out: "conn = H2 (i1\<lparr>hi_hdrs := None\<rparr>)" "rc = ZUH_OK" "st = Some (hi_status i1, hi_ended_on_headers i1)"
      "hs' = (case hi_hdrs i1 of Some x \<Rightarrow> x | None \<Rightarrow> hs)"
    using run pass nv nm f rs by (auto simp: zuh_h2_begin_def Let_def begin_out_def split: option.splits)
  have sess: "hi_sess i0 = hi_sess i" using rs by (auto simp: reset_stream_def Let_def)
  obtain sid n where s: "ng_submit_request env (hi_sess i) (h2_pseudo rq @ nvs) (hi_body i0 \<noteq> [] \<or> hi_src i0 \<noteq> None) = (sid, n)"
    by (rule prod.exhaust)
  have "\<not> sid < 0"
  proof
    assume neg: "sid < 0"
    then have "h2_fail (i0\<lparr>hi_sess := n\<rparr>) err (if sid = NGHTTP2_ERR_NOMEM then ZUH_ERR_NOMEM else ZUH_ERR_IO)
        ZUH_PHASE_WRITE (ng_strerror env sid) sid = (rc, i1, e1)" using w s sess by (simp add: submit_and_wait_def Let_def with_heap_eq)
    from h2_fail_fields(1) [OF this] out(2) show False by (simp split: if_splits)
  qed
  then have "begin_loop env (i0\<lparr>hi_sess := n, hi_sid := sid\<rparr>) dl err h4 = Some (rc, i1, e1, h5)"
    using w s sess by (simp add: submit_and_wait_def)
  with that [OF pass(2) _ rs s] f oks(3) out \<open>\<not> sid < 0\<close> show ?thesis by simp
qed

lemma begin_books:
  assumes run: "zuh_h2_begin env (H2 i) rq hs dl err h = Some (ZUH_OK, conn, st, hs', err', h')" and acc: "accounts env arrived granted"
  obtains i' where "conn = H2 i'" "booked arrived granted (int (granted (hi_sess i))) [] i'" "hi_headers_done i'"
proof -
  obtain nvs h3 i0 h4 sid n i1 e1 h5 where rs: "reset_stream rq hs i h3 = (i0, h4)"
    and s: "ng_submit_request env (hi_sess i) (h2_pseudo rq @ nvs) (hi_body i0 \<noteq> [] \<or> hi_src i0 \<noteq> None) = (sid, n)" "sid \<ge> 0"
    and l: "begin_loop env (i0\<lparr>hi_sess := n, hi_sid := sid\<rparr>) dl err h4 = Some (ZUH_OK, i1, e1, h5)"
    and out: "conn = H2 (i1\<lparr>hi_hdrs := None\<rparr>)"
    by (rule begin_parts [OF run]) blast
  have i0: "buf_data (hi_data i0) = []"
    using rs by (auto simp: reset_stream_def Let_def zuh_buf_reset_def)
  have "booked arrived granted (int (granted (hi_sess i))) [] (i0\<lparr>hi_sess := n, hi_sid := sid\<rparr>)"
    using accounts_submit(1) [OF acc s(1)] i0 s(2) by (simp add: booked_def)
  with begin_loop_moved [OF l acc] have "booked arrived granted (int (granted (hi_sess i))) [] i1" "hi_headers_done i1"
    using booked_moved by auto
  then show ?thesis by (intro that [OF out]) (auto simp: booked_def)
qed

text \<open>
  C30: an abandoned body costs window for good. When a whole response arrived with its headers and the
  caller gives the body up, the stream is closed, so \<^verbatim>\<open>zuh_h2_cancel\<close> does nothing and the connection counts
  as reusable; the next request then discards the buffered DATA. At its end the window granted accounts
  for the DATA of the new stream only, so the discarded bytes are never given back.
\<close>
theorem h2_abandoned_body_lost:
  assumes "accounts env arrived granted" and "hi_closed i" and "hi_close_code i = NGHTTP2_NO_ERROR"
    and "\<not> hi_failed i" and "\<not> hi_goaway i" and "ng_request_allowed env (hi_sess i)"
    and "zuh_h2_begin env (H2 i) rq hs dl2 err h2 = Some (ZUH_OK, H2 i1, st, hs', err', h')"
    and "h2_exchange zl kvt env i1 i2" and "\<not> hi_failed i2"
  shows "zuh_h2_cancel env i dl h = Some (i, h) \<and> zuh_h2_reusable env (H2 i)
    \<and> granted (hi_sess i2) + length (buf_data (hi_data i2)) = granted (hi_sess i) + length (arrived (hi_sess i2) (hi_sid i2))"
proof -
  obtain i1' where "H2 i1 = H2 i1'" "booked arrived granted (int (granted (hi_sess i))) [] i1'"
    by (rule begin_books [OF assms(7,1)])
  then have "booked arrived granted (int (granted (hi_sess i))) [] i1" by simp
  from exchange_books [OF assms(8,1) this] assms(2-6,9) show ?thesis
    by (auto simp: booked_def zuh_h2_cancel_def zuh_h2_reusable_def)
qed

section \<open>Header blocks\<close>

text \<open>
  A property of the connection that no callback breaks, and that does not look at what the loops set,
  holds through every loop.
\<close>

definition h2_stable :: "('s, 'n, 'b) h2_env \<Rightarrow> (('s, 'n, 'b) h2_impl \<Rightarrow> bool) \<Rightarrow> bool" where
  "h2_stable env P \<longleftrightarrow>
     (\<forall>e i h ok i' h'. P i \<longrightarrow> on_event e i h = (ok, i', h') \<longrightarrow> P i')
     \<and> (\<forall>n i a i'. P i \<longrightarrow> body_source env n i = (a, i') \<longrightarrow> P i')
     \<and> (\<forall>i s n t f. P (i\<lparr>hi_inner := s, hi_sess := n, hi_last_frame := t, hi_failed := f\<rparr>) = P i)"

lemma stable_sets:
  assumes "h2_stable env P"
  shows "P (i\<lparr>hi_inner := s\<rparr>) = P i" "P (i\<lparr>hi_sess := n\<rparr>) = P i" "P (i\<lparr>hi_last_frame := t\<rparr>) = P i" "P (i\<lparr>hi_failed := f\<rparr>) = P i"
    "P (i\<lparr>hi_inner := s, hi_last_frame := t\<rparr>) = P i" "P (i\<lparr>hi_inner := s, hi_failed := f\<rparr>) = P i"
proof -
  have k: "P (i\<lparr>hi_inner := s, hi_sess := n, hi_last_frame := t, hi_failed := f\<rparr>) = P i" for s n t f
    using assms unfolding h2_stable_def by blast
  show "P (i\<lparr>hi_inner := s\<rparr>) = P i" using k [of "hi_failed i" "hi_last_frame i" "hi_sess i" s] by simp
  show "P (i\<lparr>hi_sess := n\<rparr>) = P i" using k [of "hi_failed i" "hi_last_frame i" n "hi_inner i"] by simp
  show "P (i\<lparr>hi_last_frame := t\<rparr>) = P i" using k [of "hi_failed i" t "hi_sess i" "hi_inner i"] by simp
  show "P (i\<lparr>hi_failed := f\<rparr>) = P i" using k [of f "hi_last_frame i" "hi_sess i" "hi_inner i"] by simp
  show "P (i\<lparr>hi_inner := s, hi_last_frame := t\<rparr>) = P i" using k [of "hi_failed i" t "hi_sess i" s] by simp
  show "P (i\<lparr>hi_inner := s, hi_failed := f\<rparr>) = P i" using k [of f "hi_last_frame i" "hi_sess i" s] by simp
qed

lemma stable_run:
  assumes st: "h2_stable env P"
  shows "P i \<Longrightarrow> ng_run env t i h = (r, i', h') \<Longrightarrow> P i'"
proof (induction t arbitrary: i h)
  case (Ng_Return r n)
  then show ?case using stable_sets(2) [OF st] by auto
next
  case (Ng_Event e k)
  obtain b i1 h1 where e: "on_event e i h = (b, i1, h1)" by (rule prod_cases3)
  have "P i1" using st Ng_Event.prems(1) e unfolding h2_stable_def by blast
  then show ?case using Ng_Event.IH [OF rangeI \<open>P i1\<close>] Ng_Event.prems(2) e by simp
next
  case (Ng_Read m k)
  obtain a i1 where a: "body_source env m i = (a, i1)" by (rule prod.exhaust)
  have "P i1" using st Ng_Read.prems(1) a unfolding h2_stable_def by blast
  then show ?case using Ng_Read.IH [OF rangeI \<open>P i1\<close>] Ng_Read.prems(2) a by simp
qed

lemma stable_flush:
  assumes run: "flush env i dl err h = Some r" and st: "h2_stable env P" and P: "P i"
  shows "P (fst (snd r))"
  using st P
proof (induction rule: flush.raw_induct [OF _ run])
  case (1 loop env i dl err h r)
  note body = "1"(2) and st = "1"(3) and P = "1"(4)
  obtain n out i1 h1 where run: "ng_run env (ng_send env (hi_sess i)) i h = ((n, out), i1, h1)" by (metis prod.exhaust)
  have P1: "P i1" by (rule stable_run [OF st P run])
  show ?case
  proof (cases "n > 0")
    case False
    obtain rc i2 e2 h2 where r: "r = (rc, i2, e2, h2)" by (rule prod_cases4)
    have "i2 = i1 \<or> i2 = i1\<lparr>hi_failed := True\<rparr>"
    proof (cases "n = 0")
      case False
      then have "n < 0" using \<open>\<not> n > 0\<close> by simp
      then show ?thesis using body run r by (auto simp: with_heap_eq Let_def split: if_splits dest: h2_fail_fields)
    qed (use body run r in simp)
    then show ?thesis using P1 r stable_sets(4) [OF st] by auto
  next
    case True
    obtain ok s e where w: "zuh_stream_write_all (he_vt env) (he_clock env) (hi_inner i1) out dl err = Some (ok, s, e)"
      using body run True by (auto split: option.splits)
    show ?thesis
    proof (cases ok)
      case False
      then have "fst (snd r) = i1\<lparr>hi_inner := s, hi_failed := True\<rparr>" using body run True w by (auto split: if_splits)
      then show ?thesis using P1 stable_sets(6) [OF st] by simp
    next
      case ok: True
      let ?i = "i1\<lparr>hi_inner := s, hi_last_frame := he_clock env s\<rparr>"
      have "loop env ?i dl e h1 = Some r" using body run True w ok by simp
      moreover have "P ?i" using P1 stable_sets(5) [OF st] by simp
      ultimately show ?thesis using "1"(1) st by blast
    qed
  qed
qed

lemma stable_pump:
  assumes run: "h2_pump env i dl err h = Some (rc, i', err', h')" and st: "h2_stable env P" and P: "P i"
  shows "P i'"
proof -
  obtain rc1 i1 err1 h1 where f: "flush env i dl err h = Some (rc1, i1, err1, h1)"
    using run by (auto simp: h2_pump_def split: option.splits prod.splits)
  have P1: "P i1" using stable_flush [OF f st P] by simp
  consider "rc1 \<noteq> ZUH_OK" | "rc1 = ZUH_OK" "\<not> ng_want_read env (hi_sess i1)" | "rc1 = ZUH_OK" "ng_want_read env (hi_sess i1)" by blast
  then show ?thesis
  proof cases
    case 1
    then show ?thesis using run f P1 by (simp add: h2_pump_def)
  next
    case 2
    then obtain c m where "h2_fail i1 err1 c ZUH_PHASE_READ m 0 = (rc, i', err')"
      using run f by (cases "hi_goaway i1") (auto simp: h2_pump_def with_heap_eq)
    from h2_fail_fields [OF this] P1 stable_sets(4) [OF st] show ?thesis by simp
  next
    case 3
    obtain n data s err2 where rd: "zuh_stream_read (he_vt env) (hi_inner i1) H2_READ_CHUNK dl err1 = (n, data, s, err2)"
      by (rule prod_cases4)
    let ?i = "i1\<lparr>hi_inner := s, hi_last_frame := he_clock env s\<rparr>"
    have PI: "P ?i" using P1 stable_sets(5) [OF st] by simp
    show ?thesis
    proof (cases "n > 0")
      case False
      have "i' = i1\<lparr>hi_inner := s\<rparr> \<or> i' = i1\<lparr>hi_inner := s, hi_failed := True\<rparr>"
        using run f 3 rd False by (auto simp: h2_pump_def Let_def with_heap_eq dest: h2_fail_fields split: if_splits)
      then show ?thesis using P1 stable_sets [OF st] by auto
    next
      case pos: True
      obtain used i2 h2 where rcv: "ng_run env (ng_recv env (hi_sess ?i) data) ?i h1 = (used, i2, h2)" by (rule prod_cases3)
      have P2: "P i2" by (rule stable_run [OF st PI rcv])
      show ?thesis
      proof (cases "used < 0")
        case True
        then have "i' = i2\<lparr>hi_failed := True\<rparr>"
          using run f 3 rd pos rcv by (auto simp: h2_pump_def Let_def with_heap_eq recv_failed_def dest: h2_fail_fields split: if_splits)
        then show ?thesis using P2 stable_sets(4) [OF st] by simp
      next
        case False
        then have "flush env i2 dl err2 h2 = Some (rc, i', err', h')" using run f 3 rd pos rcv by (simp add: h2_pump_def Let_def)
        from stable_flush [OF this st P2] show ?thesis by simp
      qed
    qed
  qed
qed

lemma stable_pump_stream:
  assumes run: "pump_stream env i dl err h = Some (rc, i', err', h')" and st: "h2_stable env P" and P: "P i"
  shows "P i'"
proof -
  obtain rc1 i1 err1 h1 where f: "flush env i dl err h = Some (rc1, i1, err1, h1)"
    using run by (auto simp: pump_stream_def split: option.splits prod.splits)
  have P1: "P i1" using stable_flush [OF f st P] by simp
  then show ?thesis using run f stable_pump [OF _ st P1] by (auto simp: pump_stream_def split: if_splits)
qed

lemma stable_begin_loop:
  assumes run: "begin_loop env i dl err h = Some r" and st: "h2_stable env P" and P: "P i"
  shows "P (fst (snd r))"
  using st P
proof (induction rule: begin_loop.raw_induct [OF _ run])
  case (1 loop env i dl err h r)
  note body = "1"(2) and st = "1"(3) and P = "1"(4)
  consider "hi_headers_done i" | "\<not> hi_headers_done i" "hi_closed i" | "\<not> hi_headers_done i" "\<not> hi_closed i" by blast
  then show ?case
  proof cases
    case 1
    then show ?thesis using body P by auto
  next
    case 2
    obtain rc i1 e1 where o: "stream_outcome env i err = (rc, i1, e1)" by (rule prod_cases3)
    obtain rc2 i2 e2 h2 where r: "r = (rc2, i2, e2, h2)" by (rule prod_cases4)
    have "i2 = i \<or> i2 = i\<lparr>hi_failed := True\<rparr>"
      using body 2 o r outcome_cases [OF o] by (auto simp: with_heap_eq split: if_splits dest: h2_fail_fields)
    then show ?thesis using r P stable_sets(4) [OF st] by auto
  next
    case 3
    then obtain rc i1 e1 h1 where p: "pump_stream env i dl err h = Some (rc, i1, e1, h1)" using body by (auto split: option.splits)
    have P1: "P i1" by (rule stable_pump_stream [OF p st P])
    show ?thesis using body 3 p P1 "1"(1) [OF _ st P1] by (cases "rc = ZUH_OK") auto
  qed
qed

text \<open>The size of a block as HPACK counts it, and what both header lists satisfy under the limit \<open>mx\<close>.\<close>

definition hpack_size :: "zuh_headers \<Rightarrow> nat" where
  "hpack_size hs = sum_list (map (\<lambda>f. length (hd_name f) + length (hd_value f) + H2_FIELD_OVERHEAD) (hs_items hs))"

definition block_ok :: "nat \<Rightarrow> zuh_headers \<Rightarrow> bool" where
  "block_ok mx hs \<longleftrightarrow> hs_inv hs \<and> hs_limits hs = hs_limits zuh_headers_init \<and> hpack_size hs \<le> mx"

definition heads_ok :: "nat \<Rightarrow> ('s, 'n, 'b) h2_impl \<Rightarrow> bool" where
  "heads_ok mx i \<longleftrightarrow> hi_max_header_bytes i = mx \<and> hs_inv (hi_trailers i) \<and> hs_limits (hi_trailers i) = hs_limits zuh_headers_init
     \<and> (\<forall>hs. hi_hdrs i = Some hs \<longrightarrow> block_ok mx hs
          \<and> (\<not> hi_headers_done i \<longrightarrow> \<not> hi_in_trailers i) \<and> (\<not> hi_in_trailers i \<longrightarrow> hpack_size hs \<le> hi_block_bytes i))"

lemma block_ok_init [simp]: "block_ok mx zuh_headers_init" "hpack_size zuh_headers_init = 0"
  by (simp_all add: block_ok_def hpack_size_def)

lemma heads_cb_fail:
  "cb_fail c m i h = (ok, i', h') \<Longrightarrow> heads_ok mx i \<Longrightarrow> heads_ok mx i'"
  by (auto simp: cb_fail_def heads_ok_def split: if_splits)

lemma heads_fresh:
  "fresh_block i h = (ok, i', h') \<Longrightarrow> heads_ok mx i \<Longrightarrow> heads_ok mx i'"
  by (auto simp: fresh_block_def heads_ok_def split: option.splits prod.splits simp: cb_fail_def split: if_splits)

lemma heads_on_header:
  assumes run: "on_header f nm v i h = (ok, i', h')" and ok: "heads_ok mx i"
  shows "heads_ok mx i'"
proof (cases "fr_type f \<noteq> NG_HEADERS \<or> fr_stream f \<noteq> hi_sid i")
  case False
  let ?i = "i\<lparr>hi_block_bytes := hi_block_bytes i + (length nm + length v + H2_FIELD_OVERHEAD)\<rparr>"
  have ok1: "heads_ok mx ?i" using ok by (auto simp: heads_ok_def split: option.splits)
  let ?tooBig = "hi_block_bytes ?i > hi_max_header_bytes ?i"
  let ?pseudo = "length nm > 0 \<and> nm ! 0 = CHR '':''"
  consider "?tooBig" | "\<not> ?tooBig" "?pseudo" | "\<not> ?tooBig" "\<not> ?pseudo" "\<not> hi_in_trailers i \<and> hi_hdrs i = None"
    | "\<not> ?tooBig" "\<not> ?pseudo" "hi_in_trailers i \<or> hi_hdrs i \<noteq> None" by blast
  then show ?thesis
  proof cases
    case 1
    then show ?thesis using run False heads_cb_fail [OF _ ok1] by (auto simp: on_header_def Let_def)
  next
    case 2
    then have "i' = ?i \<or> (\<exists>st. i' = ?i\<lparr>hi_status := st\<rparr>)"
      using run False by (auto simp: on_header_def Let_def split: if_splits)
    then show ?thesis using ok1 by (auto simp: heads_ok_def)
  next
    case 3
    then show ?thesis using run False heads_cb_fail [OF _ ok1] by (auto simp: on_header_def Let_def)
  next
    case 4
    define tr where "tr = hi_in_trailers i"
    define hs where "hs = (if tr then hi_trailers i else the (hi_hdrs i))"
    obtain rc hs1 h1 where a: "zuh_headers_add hs nm v h = (rc, hs1, h1)" by (rule prod_cases3)
    define j where "j = (if tr then ?i\<lparr>hi_trailers := hs1\<rparr> else ?i\<lparr>hi_hdrs := Some hs1\<rparr>)"
    have fin: "i' = j \<or> (\<exists>c m g ok2. cb_fail c m j g = (ok2, i', h'))"
      using run False 4 a by (auto simp: on_header_def Let_def j_def hs_def tr_def split: if_splits prod.splits)
    have inv: "hs_inv hs" "hs_limits hs = hs_limits zuh_headers_init"
      using ok 4 by (auto simp: heads_ok_def hs_def tr_def block_ok_def split: option.splits)
    note A = headers_add_spec [OF inv(1) a]
    have size: "hpack_size hs1 \<le> hpack_size hs + (length nm + length v + H2_FIELD_OVERHEAD)"
      by (simp add: hpack_size_def A(3))
    have "heads_ok mx j"
    proof (cases tr)
      case True
      then show ?thesis using ok1 A inv by (auto simp: heads_ok_def j_def tr_def)
    next
      case nt: False
      then obtain hs0 where h0: "hi_hdrs i = Some hs0" using 4(3) by (auto simp: tr_def)
      have "hpack_size hs1 \<le> hi_block_bytes ?i" using size ok h0 nt by (auto simp: heads_ok_def hs_def tr_def)
      moreover have "hi_block_bytes ?i \<le> mx" using 4(1) ok by (simp add: heads_ok_def)
      ultimately show ?thesis using nt ok A(1,2) inv(2) by (auto simp: heads_ok_def block_ok_def j_def tr_def h0)
    qed
    then show ?thesis using fin heads_cb_fail by blast
  qed
qed (use run ok in \<open>simp add: on_header_def\<close>)

lemma heads_stable: "h2_stable env (heads_ok mx)"
proof -
  have ev: "heads_ok mx i'" if "heads_ok mx i" "on_event e i h = (ok, i', h')" for e i h ok i' h'
  proof (cases e)
    case (Begin_Headers f)
    have z: "hi_headers_done i \<Longrightarrow> heads_ok mx (i\<lparr>hi_block_bytes := 0, hi_in_trailers := True\<rparr>)"
      using that(1) by (auto simp: heads_ok_def split: option.splits)
    have fb: "heads_ok mx i'" if "\<not> hi_headers_done i" "fresh_block (i\<lparr>hi_block_bytes := 0\<rparr>) h = (ok, i', h')"
      using that \<open>heads_ok mx i\<close>
      by (auto simp: fresh_block_def heads_ok_def cb_fail_def split: option.splits prod.splits if_splits)
    show ?thesis using that Begin_Headers z fb by (auto simp: on_begin_headers_def Let_def split: if_splits)
  next
    case (Header_Field f nm v)
    then show ?thesis using that heads_on_header by auto
  next
    case (Frame_Recv f)
    have d: "heads_ok mx (i\<lparr>hi_headers_done := True\<rparr>)" "heads_ok mx (i\<lparr>hi_headers_done := True, hi_ended_on_headers := True\<rparr>)"
        "heads_ok mx (i\<lparr>hi_goaway := True\<rparr>)" "heads_ok mx (i\<lparr>hi_ping_acked := True\<rparr>)" "heads_ok mx (i\<lparr>hi_peer_reset := True\<rparr>)"
      using that(1) by (auto simp: heads_ok_def split: option.splits)
    show ?thesis using that Frame_Recv d heads_fresh by (fastforce simp: on_frame_recv_def Let_def split: if_splits)
  next
    case (Data_Chunk sid d)
    then show ?thesis using that
      by (auto simp: on_data_def Let_def heads_ok_def cb_fail_def split: if_splits prod.splits)
  next
    case (Stream_Close sid c)
    then show ?thesis using that by (auto simp: on_close_def heads_ok_def split: if_splits)
  qed
  have src: "heads_ok mx i'" if "heads_ok mx i" "body_source env n i = (a, i')" for n i a i'
    using that by (auto simp: body_source_def next_piece_def Let_def heads_ok_def split: option.splits prod.splits if_splits)
  show ?thesis unfolding h2_stable_def
  proof (intro conjI allI impI)
    show "heads_ok mx (i\<lparr>hi_inner := s, hi_sess := n, hi_last_frame := t, hi_failed := f\<rparr>) = heads_ok mx i" for i s n t f
      by (simp add: heads_ok_def)
  qed (use ev src in blast)+
qed

text \<open>
  C28: an HTTP/2 response head is bounded and clean. When \<^verbatim>\<open>zuh_h2_begin\<close> succeeds, the header list
  holds at most the configured size as HPACK counts it, at most the default number of fields and bytes, and no
  CR, LF or NUL, whatever blocks, informational responses and callbacks nghttp2 delivered; so does, but for
  the HPACK size, the list of trailers so far.
\<close>
theorem h2_head_bounded:
  assumes "zuh_h2_begin env (H2 i) rq zuh_headers_init dl err h = Some (ZUH_OK, H2 i', st, hs, err', h')"
  shows "hs_inv hs \<and> hs_limits hs = hs_limits zuh_headers_init \<and> hpack_size hs \<le> hi_max_header_bytes i
    \<and> hs_inv (hi_trailers i') \<and> hs_limits (hi_trailers i') = hs_limits zuh_headers_init
    \<and> (\<forall>f \<in> set (hs_items hs @ hs_items (hi_trailers i')). CR \<notin> set (hd_name f @ hd_value f) \<and> LF \<notin> set (hd_name f @ hd_value f)
         \<and> NUL \<notin> set (hd_name f @ hd_value f))"
proof -
  let ?mx = "hi_max_header_bytes i"
  obtain h3 i0 h4 sid n i1 e1 h5 where rs: "reset_stream rq zuh_headers_init i h3 = (i0, h4)"
    and l: "begin_loop env (i0\<lparr>hi_sess := n, hi_sid := sid\<rparr>) dl err h4 = Some (ZUH_OK, i1, e1, h5)"
    and out: "i' = i1\<lparr>hi_hdrs := None\<rparr>" "hs = (case hi_hdrs i1 of Some x \<Rightarrow> x | None \<Rightarrow> zuh_headers_init)"
    by (rule begin_parts [OF assms]) simp
  have "heads_ok ?mx (i0\<lparr>hi_sess := n, hi_sid := sid\<rparr>)" using rs by (auto simp: reset_stream_def Let_def heads_ok_def)
  from stable_begin_loop [OF l heads_stable this] have ok: "heads_ok ?mx i1" by simp
  then have "block_ok ?mx hs" using out(2) by (auto simp: heads_ok_def split: option.splits)
  moreover have tr: "hs_inv (hi_trailers i')" "hs_limits (hi_trailers i') = hs_limits zuh_headers_init"
    using ok out(1) by (auto simp: heads_ok_def)
  moreover have "list_all field_ok (hs_items hs @ hs_items (hi_trailers i'))"
    using calculation by (auto simp: block_ok_def hs_inv_def)
  ultimately show ?thesis using field_ok_no_break by (auto simp: block_ok_def list_all_iff)
qed

section \<open>The request\<close>

lemma h2_fields_exact:
  "h2_fields fs h = (True, nv, ns, h') \<Longrightarrow>
   nv = map (\<lambda>f. (lowers (c_string (hd_name f)), c_string (hd_value f))) (filter (\<lambda>f. \<not> is_conn_specific (hd_name f)) fs)"
  by (induction fs arbitrary: h nv ns h') (auto split: if_splits prod.splits)

lemma conn_specific_iff:
  "is_conn_specific nm \<longleftrightarrow> lowers (c_string nm)
     \<in> set [''connection'', ''keep-alive'', ''proxy-connection'', ''transfer-encoding'', ''upgrade'', ''host'']"
  by (simp add: is_conn_specific_def conn_specific_def casecmp_0 literal_simps)

text \<open>
  C27: what an HTTP/2 request carries. A request that got a response was submitted as the four pseudo-header
  fields, in order and with a path that is never empty, and the caller's fields in their order, in lower case,
  without \<^verbatim>\<open>Host\<close> and without the five fields that belong to one connection; the only \<^verbatim>\<open>TE\<close> is
  \<^verbatim>\<open>trailers\<close>. The stream it opened is the one the connection then reads. A request with another \<^verbatim>\<open>TE\<close> is
  refused as a parse error and leaves the connection untouched.
\<close>
theorem h2_request_exact:
  assumes "\<not> hi_failed i" and "ng_request_allowed env (hi_sess i)"
    and "zuh_h2_begin env (H2 i) rq hs dl err h = Some (rc, conn, st, hs', err', h')"
  shows "(te_refused (hs_items (hr_headers rq)) \<longrightarrow> rc = ZUH_ERR_PARSE \<and> conn = H2 i \<and> h' = h \<and> err_code err' = ZUH_ERR_PARSE)
    \<and> (rc = ZUH_OK \<longrightarrow> (\<exists>i' n streamed fields. conn = H2 i' \<and> hi_sid i' \<ge> 0
        \<and> ng_submit_request env (hi_sess i) (h2_pseudo rq @ fields) streamed = (hi_sid i', n)
        \<and> map fst (h2_pseudo rq) = ['':method'', '':scheme'', '':authority'', '':path''] \<and> snd (h2_pseudo rq ! 3) \<noteq> []
        \<and> fields = map (\<lambda>f. (lowers (c_string (hd_name f)), c_string (hd_value f)))
            (filter (\<lambda>f. lowers (c_string (hd_name f))
              \<notin> set [''connection'', ''keep-alive'', ''proxy-connection'', ''transfer-encoding'', ''upgrade'', ''host''])
            (hs_items (hr_headers rq)))
        \<and> (\<forall>v. (''te'', v) \<in> set fields \<longrightarrow> lowers v = ''trailers'')))"
proof (intro conjI impI)
  assume te: "te_refused (hs_items (hr_headers rq))"
  then show "rc = ZUH_ERR_PARSE" "conn = H2 i" "h' = h" "err_code err' = ZUH_ERR_PARSE"
    using assms by (auto simp: zuh_h2_begin_def Let_def zuh_error_set_def)
next
  assume rc: "rc = ZUH_OK"
  obtain h2 nvs names h3 i0 sid n i1 e1 h4 h5 where te: "\<not> te_refused (hs_items (hr_headers rq))"
    and f: "h2_fields (hs_items (hr_headers rq)) h2 = (True, nvs, names, h3)"
    and s: "ng_submit_request env (hi_sess i) (h2_pseudo rq @ nvs) (hi_body i0 \<noteq> [] \<or> hi_src i0 \<noteq> None) = (sid, n)" "sid \<ge> 0"
    and l: "begin_loop env (i0\<lparr>hi_sess := n, hi_sid := sid\<rparr>) dl err h4 = Some (ZUH_OK, i1, e1, h5)"
    and out: "conn = H2 (i1\<lparr>hi_hdrs := None\<rparr>)"
    by (rule begin_parts [OF assms(3) [unfolded rc]]) blast
  have "h2_stable env (\<lambda>i. hi_sid i = sid)"
    unfolding h2_stable_def using on_event_data body_source_keeps by fastforce
  from stable_begin_loop [OF l this] have sid: "hi_sid i1 = sid" by simp
  note nvs = h2_fields_exact [OF f, unfolded conn_specific_iff]
  have te_only: "\<forall>v. (''te'', v) \<in> set nvs \<longrightarrow> lowers v = ''trailers''"
  proof (intro allI impI)
    fix v assume that: "(''te'', v) \<in> set nvs"
    from that obtain fl where fl: "fl \<in> set (hs_items (hr_headers rq))" "lowers (c_string (hd_name fl)) = ''te''" "v = c_string (hd_value fl)"
      unfolding nvs by auto
    then have "zuh_ascii_casecmp (hd_name fl) ''TE'' = 0" by (simp add: casecmp_0 literal_simps)
    with te fl have "zuh_ascii_casecmp (hd_value fl) ''trailers'' = 0" by (auto simp: te_refused_def list_ex_iff)
    then show "lowers v = ''trailers''" using fl(3) by (simp add: casecmp_0 literal_simps)
  qed
  have pseudo: "map fst (h2_pseudo rq) = ['':method'', '':scheme'', '':authority'', '':path''] \<and> snd (h2_pseudo rq ! 3) \<noteq> []"
    by (simp add: h2_pseudo_def split: option.split)
  have sid1: "hi_sid (i1\<lparr>hi_hdrs := None\<rparr>) = sid" using sid by simp
  show "\<exists>i' n streamed fields. conn = H2 i' \<and> hi_sid i' \<ge> 0
        \<and> ng_submit_request env (hi_sess i) (h2_pseudo rq @ fields) streamed = (hi_sid i', n)
        \<and> map fst (h2_pseudo rq) = ['':method'', '':scheme'', '':authority'', '':path''] \<and> snd (h2_pseudo rq ! 3) \<noteq> []
        \<and> fields = map (\<lambda>f. (lowers (c_string (hd_name f)), c_string (hd_value f)))
            (filter (\<lambda>f. lowers (c_string (hd_name f))
              \<notin> set [''connection'', ''keep-alive'', ''proxy-connection'', ''transfer-encoding'', ''upgrade'', ''host''])
            (hs_items (hr_headers rq)))
        \<and> (\<forall>v. (''te'', v) \<in> set fields \<longrightarrow> lowers v = ''trailers'')"
    by (rule exI [of _ "i1\<lparr>hi_hdrs := None\<rparr>"], rule exI [of _ n], rule exI [of _ "hi_body i0 \<noteq> [] \<or> hi_src i0 \<noteq> None"],
        rule exI [of _ nvs], unfold sid1) (intro conjI out s te_only nvs pseudo [THEN conjunct1] pseudo [THEN conjunct2])
qed

text \<open>
  What is left to send. \<open>pieces env b ds\<close>: the body function in state \<open>b\<close> will give the pieces \<open>ds\<close>, none of
  them empty, and then the empty one that ends the body.
\<close>

fun pieces :: "('s, 'n, 'b) h2_env \<Rightarrow> 'b \<Rightarrow> bytes list \<Rightarrow> bool" where
  "pieces env b [] \<longleftrightarrow> (\<forall>e. \<exists>e' b'. src_next env b e = (ZUH_OK, [], e', b'))"
| "pieces env b (d # ds) \<longleftrightarrow> d \<noteq> [] \<and> (\<forall>e. \<exists>e' b'. src_next env b e = (ZUH_OK, d, e', b') \<and> pieces env b' ds)"

definition unsent :: "('s, 'n, 'b) h2_env \<Rightarrow> ('s, 'n, 'b) h2_impl \<Rightarrow> bytes \<Rightarrow> bool" where
  "unsent env i w \<longleftrightarrow>
     (case hi_src i of
        None \<Rightarrow> hi_body_off i \<le> length (hi_body i) \<and> w = drop (hi_body_off i) (hi_body i)
      | Some b \<Rightarrow> hi_src_off i \<le> length (hi_src_data i)
          \<and> (if hi_src_end i then w = drop (hi_src_off i) (hi_src_data i)
             else \<exists>ds. pieces env b ds \<and> w = drop (hi_src_off i) (hi_src_data i) @ concat ds))"

lemma next_piece_unsent:
  assumes "unsent env i w" and "hi_src i = Some b" and "next_piece env b i = (ok, i')"
  shows "ok" "unsent env i' w" "\<exists>b'. hi_src i' = Some b'" "hi_body_sent i' = hi_body_sent i"
    "hi_src_end i' \<or> hi_src_off i' < length (hi_src_data i')"
proof -
  have "ok \<and> unsent env i' w \<and> (\<exists>b'. hi_src i' = Some b') \<and> hi_body_sent i' = hi_body_sent i
      \<and> (hi_src_end i' \<or> hi_src_off i' < length (hi_src_data i'))"
  proof (cases "hi_src_off i = length (hi_src_data i) \<and> \<not> hi_src_end i")
    case True
    then obtain ds where ds: "pieces env b ds" "w = concat ds" using assms(1,2) by (auto simp: unsent_def)
    show ?thesis
    proof (cases ds)
      case Nil
      then obtain e' b' where n: "src_next env b (hi_src_err i) = (ZUH_OK, [], e', b')" using ds(1) by fastforce
      have i': "ok" "i' = i\<lparr>hi_src := Some b', hi_src_err := e', hi_src_end := True\<rparr>"
        using assms(3) True n by (auto simp: next_piece_def)
      then show ?thesis using True ds(2) Nil by (simp add: unsent_def)
    next
      case (Cons d ds')
      then obtain e' b' where n: "src_next env b (hi_src_err i) = (ZUH_OK, d, e', b')" "pieces env b' ds'" "d \<noteq> []"
        using ds(1) by fastforce
      have i': "ok" "i' = i\<lparr>hi_src := Some b', hi_src_err := e', hi_src_data := d, hi_src_off := 0\<rparr>"
        using assms(3) True n by (auto simp: next_piece_def)
      then show ?thesis using True ds(2) Cons n(2,3) by (auto simp: unsent_def)
    qed
  next
    case False
    then have "ok" "i' = i" using assms(3) by (auto simp: next_piece_def split: if_splits)
    then show ?thesis using assms(1,2) False by (auto simp: unsent_def split: if_splits)
  qed
  then show "ok" "unsent env i' w" "\<exists>b'. hi_src i' = Some b'" "hi_body_sent i' = hi_body_sent i"
    "hi_src_end i' \<or> hi_src_off i' < length (hi_src_data i')" by simp_all
qed

lemma body_source_unsent:
  assumes "unsent env i w" and "body_source env n i = (a, i')"
  shows "\<exists>d w'. a = Some (d, w' = [] \<and> (hi_src i \<noteq> None \<longrightarrow> hi_src_end i')) \<and> w = d @ w' \<and> length d \<le> n \<and> unsent env i' w'
    \<and> hi_body_sent i' = hi_body_sent i + of_nat (length d) \<and> (hi_src i' = None \<longleftrightarrow> hi_src i = None) \<and> (n > 0 \<and> w \<noteq> [] \<longrightarrow> d \<noteq> [])"
proof (cases "hi_src i")
  case None
  let ?k = "min n (length (hi_body i) - hi_body_off i)"
  have a: "a = Some (take ?k w, hi_body_off i + ?k = length (hi_body i))"
      "i' = i\<lparr>hi_body_off := hi_body_off i + ?k, hi_body_sent := hi_body_sent i + of_nat ?k\<rparr>"
    using assms None by (auto simp: body_source_def unsent_def Let_def min_def split: if_splits)
  have w: "w = drop (hi_body_off i) (hi_body i)" "hi_body_off i \<le> length (hi_body i)" using assms(1) None by (auto simp: unsent_def)
  have eof: "hi_body_off i + ?k = length (hi_body i) \<longleftrightarrow> drop ?k w = []" using w by (auto simp: min_def)
  have left: "unsent env i' (drop ?k w)" using a(2) w None by (simp add: unsent_def add.commute)
  have len: "length (take ?k w) = ?k" using w by simp
  show ?thesis
  proof (rule exI [of _ "take ?k w"], rule exI [of _ "drop ?k w"], intro conjI)
    show "w = take ?k w @ drop ?k w" by (rule append_take_drop_id [symmetric])
    show "hi_body_sent i' = hi_body_sent i + of_nat (length (take ?k w))" unfolding len a(2) by simp
    show "n > 0 \<and> w \<noteq> [] \<longrightarrow> take ?k w \<noteq> []" using w by auto
  qed (use a eof left len None in simp_all)
next
  case (Some b)
  obtain ok j where p: "next_piece env b i = (ok, j)" by (rule prod.exhaust)
  note P = next_piece_unsent [OF assms(1) Some p]
  obtain b' where b': "hi_src j = Some b'" using P(3) by blast
  let ?left = "drop (hi_src_off j) (hi_src_data j)"
  let ?k = "min n (length ?left)"
  have a: "a = Some (take ?k ?left, hi_src_end j \<and> hi_src_off j + ?k = length (hi_src_data j))"
      "i' = j\<lparr>hi_src_off := hi_src_off j + ?k, hi_body_sent := hi_body_sent j + of_nat ?k\<rparr>"
    using assms(2) Some p P(1) by (auto simp: body_source_def Let_def min_def split: if_splits)
  obtain ws where ws: "w = ?left @ ws" "hi_src_end j \<longrightarrow> ws = []" "\<not> hi_src_end j \<longrightarrow> (\<exists>ds. pieces env b' ds \<and> ws = concat ds)"
    using P(2) b' by (auto simp: unsent_def split: if_splits)
  have off: "hi_src_off j \<le> length (hi_src_data j)" using P(2) b' by (auto simp: unsent_def split: if_splits)
  have left: "unsent env i' (drop ?k ?left @ ws)" using ws b' off a(2) by (auto simp: unsent_def min_def add.commute)
  have eof: "hi_src_end j \<and> hi_src_off j + ?k = length (hi_src_data j) \<longleftrightarrow> drop ?k ?left @ ws = [] \<and> hi_src_end j"
    using ws(2) off by (auto simp: min_def)
  have len: "length (take ?k ?left) = ?k" by simp
  show ?thesis
  proof (rule exI [of _ "take ?k ?left"], rule exI [of _ "drop ?k ?left @ ws"], intro conjI)
    show "a = Some (take ?k ?left, drop ?k ?left @ ws = [] \<and> (hi_src i \<noteq> None \<longrightarrow> hi_src_end i'))"
      using a eof Some by simp
    show "w = take ?k ?left @ drop ?k ?left @ ws" unfolding append.assoc [symmetric] append_take_drop_id by (rule ws(1))
    show "hi_body_sent i' = hi_body_sent i + of_nat (length (take ?k ?left))" unfolding len a(2) using P(4) by simp
    show "n > 0 \<and> w \<noteq> [] \<longrightarrow> take ?k ?left \<noteq> []" using ws(1,2) P(5) by auto
  qed (use a(2) left len b' Some in simp_all)
qed

text \<open>The asks nghttp2 makes as the window opens, until one ends the body: what they get, and the end.\<close>

fun h2_asks :: "('s, 'n, 'b) h2_env \<Rightarrow> nat list \<Rightarrow> ('s, 'n, 'b) h2_impl \<Rightarrow> bytes option \<times> bool \<times> ('s, 'n, 'b) h2_impl" where
  "h2_asks env [] i = (Some [], False, i)"
| "h2_asks env (n # ns) i =
     (case body_source env n i of
        (None, i) \<Rightarrow> (None, False, i)
      | (Some (d, eof), i) \<Rightarrow>
          if eof then (Some d, True, i)
          else case h2_asks env ns i of (r, eof, i) \<Rightarrow> (map_option (\<lambda>x. d @ x) r, eof, i))"

lemma asks_unsent:
  assumes "unsent env i w"
  shows "case h2_asks env ns i of (out, eof, i') \<Rightarrow>
      (\<exists>d w'. out = Some d \<and> w = d @ w' \<and> unsent env i' w' \<and> hi_body_sent i' = hi_body_sent i + of_nat (length d)
         \<and> (eof \<longrightarrow> w' = []) \<and> (hi_src i = None \<and> ns \<noteq> [] \<and> w' = [] \<longrightarrow> eof))"
  using assms
proof (induction ns arbitrary: i w)
  case (Cons n ns)
  obtain a i1 where s: "body_source env n i = (a, i1)" by (rule prod.exhaust)
  obtain d w1 where d: "a = Some (d, w1 = [] \<and> (hi_src i \<noteq> None \<longrightarrow> hi_src_end i1)) \<and> w = d @ w1 \<and> length d \<le> n \<and> unsent env i1 w1
      \<and> hi_body_sent i1 = hi_body_sent i + of_nat (length d) \<and> (hi_src i1 = None \<longleftrightarrow> hi_src i = None) \<and> (n > 0 \<and> w \<noteq> [] \<longrightarrow> d \<noteq> [])"
    using body_source_unsent [OF Cons.prems s] by (elim exE)
  note a = d [THEN conjunct1] d [THEN conjunct2, THEN conjunct1] d [THEN conjunct2, THEN conjunct2, THEN conjunct2, THEN conjunct1]
    d [THEN conjunct2, THEN conjunct2, THEN conjunct2, THEN conjunct2, THEN conjunct1]
    d [THEN conjunct2, THEN conjunct2, THEN conjunct2, THEN conjunct2, THEN conjunct2, THEN conjunct1]
  show ?case
  proof (cases "w1 = [] \<and> (hi_src i \<noteq> None \<longrightarrow> hi_src_end i1)")
    case True
    then have "h2_asks env (n # ns) i = (Some d, True, i1)" using s a(1) by simp
    then show ?thesis using a(2-4) True by simp
  next
    case False
    obtain out eof i' where r: "h2_asks env ns i1 = (out, eof, i')" by (rule prod_cases3)
    from Cons.IH [OF a(3)] r obtain e w' where e: "out = Some e" "w1 = e @ w'" "unsent env i' w'"
        "hi_body_sent i' = hi_body_sent i1 + of_nat (length e)" "eof \<longrightarrow> w' = []" "hi_src i1 = None \<and> ns \<noteq> [] \<and> w' = [] \<longrightarrow> eof" by auto
    have fin: "eof" if h: "hi_src i = None" "w' = []"
    proof (cases "ns = []")
      case True
      then have "e = []" using r e(1) by simp
      then show ?thesis using False h e(2) by simp
    qed (use e(6) a(5) h in simp)
    have no: "(w1 = [] \<and> (hi_src i \<noteq> None \<longrightarrow> hi_src_end i1)) = False" using False by blast
    have "body_source env n i = (Some (d, False), i1)" using s unfolding a(1) no .
    then have "h2_asks env (n # ns) i = (Some (d @ e), eof, i')" using r e(1) by simp
    show ?thesis unfolding \<open>h2_asks env (n # ns) i = _\<close> prod.case
    proof (rule exI [of _ "d @ e"], rule exI [of _ w'], intro conjI)
      show "hi_body_sent i' = hi_body_sent i + of_nat (length (d @ e))" using a(4) e(4) by simp
      show "w = (d @ e) @ w'" using a(2) e(2) by simp
      show "hi_src i = None \<and> n # ns \<noteq> [] \<and> w' = [] \<longrightarrow> eof" using fin by blast
    qed (rule refl e(3) e(5))+
  qed
qed simp

lemma body_source_ends:
  assumes u: "unsent env i []" and b: "body_source env n i = (a, i')"
  shows "a = Some ([], True)"
proof (cases "hi_src i")
  case None
  with body_source_unsent [OF u b] show ?thesis by auto
next
  case (Some c)
  obtain ok j where p: "next_piece env c i = (ok, j)" by (rule prod.exhaust)
  note P = next_piece_unsent [OF u Some p]
  obtain c' where c': "hi_src j = Some c'" using P(3) by blast
  have j: "length (hi_src_data j) = hi_src_off j" using P(2) c' by (auto simp add: unsent_def simp del: concat_eq_Nil_conv split: if_splits)
  then have "hi_src_end j" using P(5) by simp
  with j Some p P(1) b show ?thesis by (auto simp: body_source_def Let_def)
qed

text \<open>With more asks than bytes are left, each of a byte or more, the body is sent and ended.\<close>

lemma asks_end:
  assumes "unsent env i w" and "list_all (\<lambda>n. n > 0) ns" and "length w < length ns"
  shows "\<exists>i'. h2_asks env ns i = (Some w, True, i')"
  using assms
proof (induction ns arbitrary: i w)
  case (Cons n ns)
  obtain a i1 where s: "body_source env n i = (a, i1)" by (rule prod.exhaust)
  from body_source_unsent [OF Cons.prems(1) s] obtain d w1 f where d: "a = Some (d, f)" "w = d @ w1" "f \<longrightarrow> w1 = []" "unsent env i1 w1"
      "n > 0 \<and> w \<noteq> [] \<longrightarrow> d \<noteq> []" by blast
  show ?case
  proof (cases f)
    case True
    with s d show ?thesis by simp
  next
    case False
    then have "w \<noteq> []" using body_source_ends [of env i n a i1] Cons.prems(1) s d(1) by auto
    then have "length w1 < length ns" using d(2,5) Cons.prems(2,3) by (cases d) auto
    with Cons.IH [OF d(4)] Cons.prems(2) obtain i' where "h2_asks env ns i1 = (Some w1, True, i')" by auto
    with s d False show ?thesis by simp
  qed
qed simp

lemma own_body_unsent:
  assumes "unsent env i w" and own: "zuh_h2_own_body (H2 i) err h = (ZUH_OK, H2 j, err', h')"
  shows "unsent env j w"
proof -
  have "j = i \<or> hi_src i = None \<and> (\<exists>n. j = i\<lparr>hi_body_owned := n, hi_body := drop (hi_body_off i) (hi_body i), hi_body_off := 0\<rparr>)"
    using own by (auto simp: zuh_h2_own_body_def Let_def split: if_splits prod.splits)
  then show ?thesis
  proof
    assume "hi_src i = None \<and> (\<exists>n. j = i\<lparr>hi_body_owned := n, hi_body := drop (hi_body_off i) (hi_body i), hi_body_off := 0\<rparr>)"
    then show ?thesis using assms(1) by (auto simp: unsent_def)
  qed (use assms(1) in simp)
qed

text \<open>
  C29: the request body goes out exactly. However nghttp2 divides its asks, what it gets is a prefix of
  the unsent body, in memory or from the caller's function, each piece once and in order; the count of bytes
  sent is exact; END_STREAM is set only when all of it went out, and on a body in memory always then; asks of a
  byte or more, one more than there are bytes left, get all of it and END_STREAM, also from a function; and
  copying the unsent part of a body in memory changes nothing of what will be sent.
\<close>
theorem h2_request_body_exact:
  assumes "unsent env i w"
  shows "case h2_asks env ns i of (out, eof, i') \<Rightarrow>
      (\<exists>d w'. out = Some d \<and> w = d @ w' \<and> unsent env i' w' \<and> hi_body_sent i' = hi_body_sent i + of_nat (length d)
         \<and> (eof \<longrightarrow> w' = []) \<and> (hi_src i = None \<and> ns \<noteq> [] \<and> w' = [] \<longrightarrow> eof)
         \<and> (list_all (\<lambda>n. n > 0) ns \<and> length w < length ns \<longrightarrow> eof \<and> w' = [])
         \<and> (\<forall>j err h err' h'. zuh_h2_own_body (H2 i) err h = (ZUH_OK, H2 j, err', h') \<longrightarrow> unsent env j w))"
  using asks_unsent [OF assms, of ns] own_body_unsent [OF assms] asks_end [OF assms, of ns] by (auto split: prod.splits)

section \<open>An example\<close>

text \<open>
  A session is the DATA that arrived on stream 1 and what was granted. Any input is the response
  \<open>200\<close> with the body \<open>hi\<close>; nothing is ever waiting to be sent.
\<close>

definition example_h2_head :: ng_frame where
  "example_h2_head = \<lparr>fr_type = NG_HEADERS, fr_stream = 1, fr_flags = 0\<rparr>"

definition example_response :: "bytes \<times> nat \<Rightarrow> (bytes \<times> nat, int) ng_call" where
  "example_response n =
     (let back = (\<lambda>m ok. Ng_Return (if ok then 2 else - 902) m); m = (fst n @ ''hi'', snd n) in
      Ng_Event (Begin_Headers example_h2_head) (\<lambda>a. if \<not> a then back n False else
      Ng_Event (Header_Field example_h2_head '':status'' ''200'') (\<lambda>a. if \<not> a then back n False else
      Ng_Event (Frame_Recv example_h2_head) (\<lambda>a. if \<not> a then back n False else
      Ng_Event (Data_Chunk 1 ''hi'') (\<lambda>a. if \<not> a then back m False else
      Ng_Event (Stream_Close 1 0) (\<lambda>a. back m a))))))"

definition example_h2 :: "(bytes \<times> bytes, bytes \<times> nat, nat) h2_env" where
  "example_h2 =
     \<lparr>he_vt = example_wire, he_clock = (\<lambda>s. 0), src_next = (\<lambda>b e. (ZUH_OK, if b = 0 then ''ab'' else [], e, b + 1)),
      ng_recv = (\<lambda>n d. example_response n), ng_send = (\<lambda>n. Ng_Return (0, []) n), ng_want_read = (\<lambda>n. True),
      ng_request_allowed = (\<lambda>n. True), ng_consume = (\<lambda>n sid k. (0, (fst n, snd n + k))),
      ng_consume_connection = (\<lambda>n k. (0, (fst n, snd n + k))), ng_submit_request = (\<lambda>n nv b. (1, ([], snd n))),
      ng_submit_rst = (\<lambda>n sid. (0, n)), ng_submit_ping = (\<lambda>n. (0, n)), ng_callbacks_new = 0, ng_option_new = 0,
      ng_client_new = (0, ([], 0)), ng_submit_settings = (\<lambda>n iv. (0, n)), ng_set_local_window = (\<lambda>n k. (0, n)),
      ng_strerror = (\<lambda>c. []), ng_http2_strerror = (\<lambda>c. [])\<rparr>"

definition example_arrived :: "bytes \<times> nat \<Rightarrow> int \<Rightarrow> bytes" where
  "example_arrived n sid = (if sid = 1 then fst n else [])"

lemma example_env_simps [simp]:
  "he_vt example_h2 = example_wire" "he_clock example_h2 = (\<lambda>s. 0)" "ng_recv example_h2 n d = example_response n"
  "ng_send example_h2 n = Ng_Return (0, []) n" "ng_want_read example_h2 n" "ng_request_allowed example_h2 n"
  "ng_consume example_h2 n sid k = (0, (fst n, snd n + k))" "ng_consume_connection example_h2 n k = (0, (fst n, snd n + k))"
  "ng_submit_request example_h2 n nv b = (1, ([], snd n))" "ng_submit_rst example_h2 n sid = (0, n)"
  "ng_submit_ping example_h2 n = (0, n)" "src_next example_h2 c e = (ZUH_OK, if c = 0 then ''ab'' else [], e, c + 1)"
  by (simp_all add: example_h2_def)

lemma example_flush [simp]: "flush example_h2 k dl e g = Some (ZUH_OK, k, e, g)"
  by (subst flush.simps) simp

lemma example_accounts: "accounts example_h2 example_arrived snd"
  by (auto simp: accounts_def example_response_def Let_def example_arrived_def event_data_def fun_eq_iff)

text \<open>A connection whose last stream ended with its body still in the buffer, and a request for the next.\<close>

definition example_conn :: "(bytes \<times> bytes, bytes \<times> nat, nat) h2_impl" where
  "example_conn = (zeroed_h2 ([], ''xyz'') (''old'', 0) 65536 \<lparr>buf_data = ''old'', buf_cap = 64, buf_max = H2_DATA_MAX, buf_hit_limit = False\<rparr> 0)
     \<lparr>hi_sid := 1, hi_closed := True, hi_headers_done := True\<rparr>"

definition example_h2_request :: "nat zuh_h2_request" where
  "example_h2_request = \<lparr>hr_method = ''GET'', hr_scheme = ''https'', hr_authority = ''h'', hr_path = None,
     hr_headers = zuh_headers_init, hr_body = None, hr_source = None\<rparr>"

lemma example_append:
  "zuh_buf_append ''hi'' (\<lparr>buf_data = [], buf_cap = 64, buf_max = m, buf_hit_limit = False\<rparr>, h)
     = (True, \<lparr>buf_data = ''hi'', buf_cap = 64, buf_max = m, buf_hit_limit = False\<rparr>, h)"
  by (simp add: zuh_buf_append_def zuh_size_add_def grow_to_def SIZE_MAX_def)

lemma example_pump:
  assumes "hi_data i = \<lparr>buf_data = [], buf_cap = 64, buf_max = m, buf_hit_limit = False\<rparr>" "hi_sid i = 1" "hi_inner i = ([], ''xyz'')"
    "hi_hdrs i = Some zuh_headers_init" "\<not> hi_headers_done i" "\<not> hi_in_trailers i" "hi_max_header_bytes i = 65536"
    "\<not> hi_closed i"
  shows "\<exists>j h'. pump_stream example_h2 i dl err h = Some (ZUH_OK, j, err, h') \<and> hi_headers_done j \<and> hi_status j = 200
    \<and> hi_failed j = hi_failed i"
proof -
  have read: "zuh_stream_read example_wire ([], ''xyz'') H2_READ_CHUNK dl err = (3, ''xyz'', (''xyz'', []), err)"
    by (simp add: zuh_stream_read_def example_wire_def H2_READ_CHUNK_def ZUH_SSIZE_MAX_def)
  show ?thesis
    using assms
    by (simp add: pump_stream_def h2_pump_def read example_response_def Let_def on_begin_headers_def example_h2_head_def fresh_block_def
        zuh_headers_free_def on_header_def H2_FIELD_OVERHEAD_def digit_of_def on_frame_recv_def NGHTTP2_FLAG_END_STREAM_def
        on_data_def example_append on_close_def)
qed

lemma example_begin:
  "\<exists>i' hs h'. zuh_h2_begin example_h2 (H2 example_conn) example_h2_request zuh_headers_init dl no_error fresh_heap
     = Some (ZUH_OK, H2 i', Some (200, hi_ended_on_headers i'), hs, no_error, h') \<and> \<not> hi_failed i'"
proof -
  let ?hd = "zuh_headers_init"
  obtain h1 where c1: "zuh_calloc 4 SIZEOF_NV fresh_heap = (True, h1)" "plenty h1"
    using zuh_alloc_plenty [of fresh_heap "4 * SIZEOF_NV"]
    by (auto simp: zuh_calloc_def zuh_size_mul_def SIZEOF_NV_def SIZE_MAX_def ZUH_HDR_def)
  obtain h2 where c2: "zuh_calloc (Suc 0) 8 h1 = (True, h2)"
    using zuh_alloc_plenty [of h1 8] c1(2) by (auto simp: zuh_calloc_def zuh_size_mul_def SIZE_MAX_def ZUH_HDR_def)
  obtain i0 h3 where rs: "reset_stream example_h2_request ?hd example_conn h2 = (i0, h3)" by (rule prod.exhaust)
  define i1 where "i1 = i0\<lparr>hi_sess := ([], snd (hi_sess i0)), hi_sid := 1\<rparr>"
  have i1: "hi_data i1 = \<lparr>buf_data = [], buf_cap = 64, buf_max = H2_DATA_MAX, buf_hit_limit = False\<rparr>" "hi_sid i1 = 1"
      "hi_inner i1 = ([], ''xyz'')" "hi_hdrs i1 = Some ?hd" "\<not> hi_headers_done i1" "\<not> hi_in_trailers i1"
      "hi_max_header_bytes i1 = 65536" "\<not> hi_closed i1" "\<not> hi_failed i1" "hi_body i1 = []" "hi_src i1 = None"
    using rs by (auto simp: i1_def reset_stream_def Let_def example_conn_def zeroed_h2_def zuh_buf_reset_def example_h2_request_def)
  obtain j h4 where p: "pump_stream example_h2 i1 dl no_error h3 = Some (ZUH_OK, j, no_error, h4)" "hi_headers_done j"
      "hi_status j = 200" "hi_failed j = hi_failed i1"
    using example_pump [OF i1(1-8), of dl no_error h3] by blast
  have loop: "begin_loop example_h2 i1 dl no_error h3 = Some (ZUH_OK, j, no_error, h4)"
    using i1(5,8) p(1,2) by (subst begin_loop.simps) (simp, subst begin_loop.simps, simp)
  then have w: "submit_and_wait example_h2 (h2_pseudo example_h2_request) i0 dl no_error h3 = Some (ZUH_OK, j, no_error, h4)"
    by (simp add: submit_and_wait_def i1_def)
  have "\<not> hi_failed example_conn" by (simp add: example_conn_def zeroed_h2_def)
  then show ?thesis
    using c1 c2 rs w p(3,4) i1(9)
    by (simp add: zuh_h2_begin_def te_refused_def Let_def)
      (simp add: example_h2_request_def begin_out_def)
qed

lemma example_body_step:
  "\<exists>i' p' err' h'. zuh_h2_body_step example_zlib example_collector example_h2 example_conn (example_pipe 0) dl no_error fresh_heap
     = Some (ZUH_OK, i', p', True, err', h') \<and> sk_ctx (bp_sink p') = ''old''"
  by (simp add: zuh_h2_body_step_def h2_deliver_def example_conn_def zeroed_h2_def Let_def grant_def zuh_body_pipe_feed_def
      example_pipe_def cap_check_def pipe_write_def zuh_sink_write_def example_collector_def zuh_buf_reset_def body_end_def
      stream_outcome_def NGHTTP2_NO_ERROR_def zuh_body_pipe_finish_def zuh_headers_free_def split: prod.split)

lemma example_books: "example_arrived (hi_sess example_conn) (hi_sid example_conn) = [] @ buf_data (hi_data example_conn)"
  "\<not> hi_failed example_conn" "\<not> bp_inflating (example_pipe c)" "hi_closed example_conn" "hi_close_code example_conn = NGHTTP2_NO_ERROR"
  "\<not> hi_goaway example_conn" "ng_request_allowed example_h2 (hi_sess example_conn)"
  by (simp_all add: example_arrived_def example_conn_def zeroed_h2_def example_pipe_def NGHTTP2_NO_ERROR_def)

lemma h2_body_delivers_witness:
  "\<exists>i' p' err' h'. zuh_h2_body example_zlib example_collector example_h2 example_conn (example_pipe 0) (zuh_deadline_in 0 1000) no_error fresh_heap
     = Some (ZUH_OK, i', p', True, err', h') \<and> sk_ctx (bp_sink p') = ''old'' \<and> snd (hi_sess i') = 3"
proof -
  obtain i' p' err' h' where s: "zuh_h2_body_step example_zlib example_collector example_h2 example_conn (example_pipe 0) (zuh_deadline_in 0 1000) no_error fresh_heap
     = Some (ZUH_OK, i', p', True, err', h')" "sk_ctx (bp_sink p') = ''old''" using example_body_step by blast
  then have run: "zuh_h2_body example_zlib example_collector example_h2 example_conn (example_pipe 0) (zuh_deadline_in 0 1000) no_error fresh_heap
     = Some (ZUH_OK, i', p', True, err', h')" by (subst zuh_h2_body.simps) simp
  from h2_body_delivers [OF example_accounts example_contracts(2) example_books(1-3) run]
  obtain y where "sk_ctx (bp_sink p') = sk_ctx (bp_sink (example_pipe 0)) @ y" "snd (hi_sess i') = snd (hi_sess example_conn) + length y"
    by (auto simp: take_all)
  with s(2) have "snd (hi_sess i') = 3" by (simp add: example_pipe_def example_conn_def zeroed_h2_def)
  with run s(2) show ?thesis by blast
qed

lemma h2_window_conserved_witness:
  "\<exists>i' p' err' h' y. zuh_h2_body_step example_zlib example_collector example_h2 example_conn (example_pipe 0) (zuh_deadline_in 0 1000) no_error fresh_heap
       = Some (ZUH_OK, i', p', True, err', h')
     \<and> snd (hi_sess i') = length y \<and> (hi_failed i' \<or> example_arrived (hi_sess i') (hi_sid i') = y @ buf_data (hi_data i'))"
proof -
  obtain i' p' err' h' where s: "zuh_h2_body_step example_zlib example_collector example_h2 example_conn (example_pipe 0) (zuh_deadline_in 0 1000) no_error fresh_heap
     = Some (ZUH_OK, i', p', True, err', h')" using example_body_step by blast
  have "h2_exchange example_zlib example_collector example_h2 example_conn i'"
    by (rule h2_exchange.stepped [OF h2_exchange.idle s])
  from h2_window_conserved [OF this example_accounts example_books(1)] s show ?thesis
    by (auto simp: example_conn_def zeroed_h2_def)
qed

lemma h2_abandoned_body_lost_witness:
  "\<exists>i2 :: (bytes \<times> bytes, bytes \<times> nat, nat) h2_impl. snd (hi_sess i2) + length (buf_data (hi_data i2)) = length (example_arrived (hi_sess i2) (hi_sid i2))
     \<and> zuh_h2_cancel example_h2 example_conn (zuh_deadline_in 0 1000) fresh_heap = Some (example_conn, fresh_heap) \<and> buf_data (hi_data example_conn) = ''old''"
proof -
  obtain i1 hs h' where run: "zuh_h2_begin example_h2 (H2 example_conn) example_h2_request zuh_headers_init (zuh_deadline_in 0 1000) no_error fresh_heap
     = Some (ZUH_OK, H2 i1, Some (200, hi_ended_on_headers i1), hs, no_error, h')" "\<not> hi_failed i1" using example_begin by blast
  have idle: "h2_exchange example_zlib example_collector example_h2 i1 i1" by (rule h2_exchange.idle)
  have c: "snd (hi_sess example_conn) = 0" "buf_data (hi_data example_conn) = ''old''"
    by (simp_all add: example_conn_def zeroed_h2_def)
  from h2_abandoned_body_lost [OF example_accounts example_books(4,5,2,6,7) run(1) idle run(2), of "zuh_deadline_in 0 1000" fresh_heap] c
  show ?thesis by (intro exI [of _ i1]) simp
qed

lemma h2_head_bounded_witness:
  "\<exists>i' hs h'. zuh_h2_begin example_h2 (H2 example_conn) example_h2_request zuh_headers_init zuh_deadline_never no_error fresh_heap
     = Some (ZUH_OK, H2 i', Some (200, hi_ended_on_headers i'), hs, no_error, h') \<and> hpack_size hs \<le> 65536"
proof -
  obtain i' hs h' where run: "zuh_h2_begin example_h2 (H2 example_conn) example_h2_request zuh_headers_init zuh_deadline_never no_error fresh_heap
     = Some (ZUH_OK, H2 i', Some (200, hi_ended_on_headers i'), hs, no_error, h')" using example_begin by blast
  from h2_head_bounded [OF run] run show ?thesis by (auto simp: example_conn_def zeroed_h2_def)
qed

lemma h2_request_exact_witness:
  "\<exists>i' hs h' n b. zuh_h2_begin example_h2 (H2 example_conn) example_h2_request zuh_headers_init zuh_deadline_never no_error fresh_heap
     = Some (ZUH_OK, H2 i', Some (200, hi_ended_on_headers i'), hs, no_error, h')
     \<and> ng_submit_request example_h2 (hi_sess example_conn)
         [('':method'', ''GET''), ('':scheme'', ''https''), ('':authority'', ''h''), ('':path'', ''/'')] b = (hi_sid i', n)"
proof -
  obtain i' hs h' where run: "zuh_h2_begin example_h2 (H2 example_conn) example_h2_request zuh_headers_init zuh_deadline_never no_error fresh_heap
     = Some (ZUH_OK, H2 i', Some (200, hi_ended_on_headers i'), hs, no_error, h')" using example_begin by blast
  have p: "h2_pseudo example_h2_request = [('':method'', ''GET''), ('':scheme'', ''https''), ('':authority'', ''h''), ('':path'', ''/'')]"
    "hs_items (hr_headers example_h2_request) = []" by (simp_all add: h2_pseudo_def example_h2_request_def literal_simps)
  from h2_request_exact [OF example_books(2,7) run] obtain n b where
    "ng_submit_request example_h2 (hi_sess example_conn) (h2_pseudo example_h2_request @ []) b = (hi_sid i', n)" by (auto simp: p(2))
  with run p(1) show ?thesis by auto
qed

lemma h2_request_body_exact_witness:
  "fst (h2_asks example_h2 [1, 5, 5] (example_conn\<lparr>hi_src := Some 0\<rparr>)) = Some ''ab''
   \<and> fst (snd (h2_asks example_h2 [1, 5, 5] (example_conn\<lparr>hi_src := Some 0\<rparr>)))"
proof -
  have "pieces example_h2 0 [''ab'']" by simp
  then have u: "unsent example_h2 (example_conn\<lparr>hi_src := Some 0\<rparr>) ''ab''"
    by (auto simp: unsent_def example_conn_def zeroed_h2_def intro!: exI [of _ "[''ab'']"])
  from h2_request_body_exact [OF u, of "[1, 5, 5]"] show ?thesis by (auto split: prod.splits)
qed

end
