(* ===== verification/Zuh_Net.thy ===== *)
theory Zuh_Net
  imports Zuh_Stream Zuh_Trace
begin

text \<open>
  \<^verbatim>\<open>src/zuh_net.c\<close>: TCP connections, POSIX branch. The operating system is a parameter: a world of
  any type, the calls of the socket interface on it, each with its result and the \<^verbatim>\<open>errno\<close> it leaves, and the
  monotonic clock it shows. The tick callback acts on the same world. A call that can loop for ever, because
  the system interrupts it again and again, returns an option. The log and the timings that the options
  point to are kept in the options, and come back with the result.
\<close>

section \<open>The operating system\<close>

record ('o, 'a) net_env =
  os_clock :: "'o \<Rightarrow> zuh_millis"
  os_poll :: "int \<Rightarrow> bool \<Rightarrow> int \<Rightarrow> 'o \<Rightarrow> int \<times> int \<times> 'o"
  os_recv :: "int \<Rightarrow> nat \<Rightarrow> 'o \<Rightarrow> bytes option \<times> int \<times> 'o"
  os_send :: "int \<Rightarrow> bytes \<Rightarrow> 'o \<Rightarrow> int \<times> int \<times> 'o"
  os_close :: "int \<Rightarrow> 'o \<Rightarrow> 'o"
  os_getaddrinfo :: "bytes \<Rightarrow> bytes \<Rightarrow> 'o \<Rightarrow> int \<times> 'a list \<times> 'o"
  os_freeaddrinfo :: "'a list \<Rightarrow> 'o \<Rightarrow> 'o"
  os_socket :: "'a \<Rightarrow> 'o \<Rightarrow> int \<times> 'o"
  os_getfl :: "int \<Rightarrow> 'o \<Rightarrow> int \<times> 'o"
  os_setfl_nonblock :: "int \<Rightarrow> int \<Rightarrow> 'o \<Rightarrow> int \<times> 'o"
  os_nodelay :: "int \<Rightarrow> 'o \<Rightarrow> 'o"
  os_connect :: "int \<Rightarrow> 'a \<Rightarrow> 'o \<Rightarrow> int \<times> int \<times> 'o"
  os_soerror :: "int \<Rightarrow> 'o \<Rightarrow> int \<times> int \<times> 'o"
  os_nameinfo :: "'a \<Rightarrow> 'o \<Rightarrow> bytes option \<times> 'o"

definition ZUH_INVALID_SOCK :: int where
  "ZUH_INVALID_SOCK = -1"

definition ZUH_EINTR :: int where
  "ZUH_EINTR = 4"

definition ZUH_EWOULDBLOCK :: int where
  "ZUH_EWOULDBLOCK = 11"

definition ZUH_EINPROGRESS :: int where
  "ZUH_EINPROGRESS = 115"

definition set_nonblocking :: "('o, 'a) net_env \<Rightarrow> int \<Rightarrow> 'o \<Rightarrow> bool \<times> 'o" where
  "set_nonblocking env s w =
     (case os_getfl env s w of (fl, w) \<Rightarrow>
      if fl = -1 then (False, w) else case os_setfl_nonblock env s fl w of (r, w) \<Rightarrow> (r = 0, w))"

section \<open>The connection\<close>

record 'o zuh_net_opts =
  no_tick :: "('o \<Rightarrow> bool \<times> 'o) option"
  no_tick_ms :: int
  no_trace :: "zuh_trace option"
  no_timings :: "zuh_timings option"

record 'o net_impl =
  ni_fd :: int
  ni_opts :: "'o zuh_net_opts"
  ni_peer :: bytes

definition SIZEOF_NET_IMPL :: nat where
  "SIZEOF_NET_IMPL = 112"

definition SIZEOF_NET_STREAM :: nat where
  "SIZEOF_NET_STREAM = 16"

definition zuh_net_init :: zuh_code where
  "zuh_net_init = ZUH_OK"

definition zuh_net_opts_init :: "'o zuh_net_opts" where
  "zuh_net_opts_init = \<lparr>no_tick = None, no_tick_ms = 100, no_trace = None, no_timings = None\<rparr>"

text \<open>One bounded wait.\<close>

definition tick_stops :: "'o net_impl \<Rightarrow> 'o \<Rightarrow> bool \<times> 'o" where
  "tick_stops m w = (case no_tick (ni_opts m) of None \<Rightarrow> (False, w) | Some f \<Rightarrow> f w)"

partial_function (option) wait_ready ::
    "('o, 'a) net_env \<Rightarrow> 'o net_impl \<Rightarrow> bool \<Rightarrow> zuh_deadline \<Rightarrow> zuh_error \<Rightarrow> 'o \<Rightarrow> (zuh_code \<times> zuh_error \<times> 'o) option" where
  "wait_ready env m want_write d err w =
     (case tick_stops m w of (stop, w) \<Rightarrow>
      if stop then Some (ZUH_ERR_CANCELLED, zuh_error_set err ZUH_ERR_CANCELLED ZUH_PHASE_NONE ''operation cancelled'', w)
      else if zuh_deadline_expired (os_clock env w) d then
        Some (ZUH_ERR_TIMEOUT, zuh_error_set err ZUH_ERR_TIMEOUT ZUH_PHASE_NONE ''deadline exceeded'', w)
      else
        let ms = zuh_deadline_poll_ms (os_clock env w) d (if no_tick_ms (ni_opts m) > 0 then no_tick_ms (ni_opts m) else 100)
        in case os_poll env (ni_fd m) want_write ms w of (rc, e, w) \<Rightarrow>
           if rc > 0 then Some (ZUH_OK, err, w)
           else if rc = 0 then wait_ready env m want_write d err w
           else if e = ZUH_EINTR then wait_ready env m want_write d err w
           else Some (ZUH_ERR_IO, zuh_error_set err ZUH_ERR_IO ZUH_PHASE_NONE (''poll failed ('' @ show_int e @ '')''), w))"

partial_function (option) net_read ::
    "('o, 'a) net_env \<Rightarrow> 'o net_impl \<Rightarrow> nat \<Rightarrow> zuh_deadline \<Rightarrow> zuh_error \<Rightarrow> 'o \<Rightarrow> (int \<times> bytes \<times> zuh_error \<times> 'o) option" where
  "net_read env m n d err w =
     (case os_recv env (ni_fd m) n w of (r, e, w) \<Rightarrow>
      (case r of
         Some data \<Rightarrow> Some (int (length data), data, err, w)
       | None \<Rightarrow>
           if e = ZUH_EINTR then net_read env m n d err w
           else if e \<noteq> ZUH_EWOULDBLOCK then
             Some (-1, [], zuh_error_set err ZUH_ERR_IO ZUH_PHASE_READ (''read failed ('' @ show_int e @ '')''), w)
           else (case wait_ready env m False d err w of
                   None \<Rightarrow> None
                 | Some (rc, err, w) \<Rightarrow>
                     if rc \<noteq> ZUH_OK then Some (-1, [], err\<lparr>err_phase := ZUH_PHASE_READ\<rparr>, w)
                     else net_read env m n d err w)))"

partial_function (option) net_write ::
    "('o, 'a) net_env \<Rightarrow> 'o net_impl \<Rightarrow> bytes \<Rightarrow> zuh_deadline \<Rightarrow> zuh_error \<Rightarrow> 'o \<Rightarrow> (int \<times> zuh_error \<times> 'o) option" where
  "net_write env m buf d err w =
     (case os_send env (ni_fd m) buf w of (k, e, w) \<Rightarrow>
      if k \<ge> 0 then Some (k, err, w)
      else if e = ZUH_EINTR then net_write env m buf d err w
      else if e \<noteq> ZUH_EWOULDBLOCK then
        Some (-1, zuh_error_set err ZUH_ERR_IO ZUH_PHASE_WRITE (''write failed ('' @ show_int e @ '')''), w)
      else (case wait_ready env m True d err w of
              None \<Rightarrow> None
            | Some (rc, err, w) \<Rightarrow>
                if rc \<noteq> ZUH_OK then Some (-1, err\<lparr>err_phase := ZUH_PHASE_WRITE\<rparr>, w)
                else net_write env m buf d err w))"

definition net_close :: "('o, 'a) net_env \<Rightarrow> 'o net_impl \<Rightarrow> 'o \<Rightarrow> 'o net_impl \<times> 'o" where
  "net_close env m w =
     (if ni_fd m \<noteq> ZUH_INVALID_SOCK then (m\<lparr>ni_fd := ZUH_INVALID_SOCK\<rparr>, os_close env (ni_fd m) w) else (m, w))"

partial_function (option) poll_again :: "('o, 'a) net_env \<Rightarrow> int \<Rightarrow> int \<Rightarrow> 'o \<Rightarrow> (int \<times> 'o) option" where
  "poll_again env fd timeout_ms w =
     (case os_poll env fd False timeout_ms w of (rc, e, w) \<Rightarrow>
      if rc < 0 \<and> e = ZUH_EINTR then poll_again env fd timeout_ms w else Some (rc, w))"

definition net_readable :: "('o, 'a) net_env \<Rightarrow> 'o net_impl \<Rightarrow> int \<Rightarrow> 'o \<Rightarrow> (int \<times> 'o) option" where
  "net_readable env m timeout_ms w =
     (if ni_fd m = ZUH_INVALID_SOCK then Some (1, w)
      else case poll_again env (ni_fd m) (if timeout_ms < 0 then 0 else timeout_ms) w of
          None \<Rightarrow> None
        | Some (rc, w) \<Rightarrow> Some (if rc < 0 then -1 else if rc > 0 then 1 else 0, w))"

definition net_destroy :: "('o, 'a) net_env \<Rightarrow> 'o net_impl \<Rightarrow> 'o \<Rightarrow> heap \<Rightarrow> 'o \<times> heap" where
  "net_destroy env m w h =
     (case net_close env m w of (m, w) \<Rightarrow>
      (w, zuh_free (Some SIZEOF_NET_STREAM) (zuh_free (Some SIZEOF_NET_IMPL) h)))"

section \<open>Connecting\<close>

text \<open>The host name of at most 63 bytes that \<^verbatim>\<open>getnameinfo\<close> left in the local array.\<close>

definition record_peer :: "('o, 'a) net_env \<Rightarrow> 'o net_impl \<Rightarrow> 'a \<Rightarrow> 'o \<Rightarrow> 'o net_impl \<times> 'o" where
  "record_peer env m ai w =
     (case os_nameinfo env ai w of (r, w) \<Rightarrow>
      (m\<lparr>ni_peer := (case r of None \<Rightarrow> [] | Some host \<Rightarrow> take 63 (c_string host))\<rparr>, w))"

definition net_trace :: "('o, 'a) net_env \<Rightarrow> 'o \<Rightarrow> 'o zuh_net_opts \<Rightarrow> zuh_event \<Rightarrow> bytes \<Rightarrow> 'o zuh_net_opts" where
  "net_trace env w o' ev detail =
     o'\<lparr>no_trace := map_option (\<lambda>t. zuh_trace_add (os_clock env w) t ev (Some detail) 0) (no_trace o')\<rparr>"

definition trace_impl :: "('o, 'a) net_env \<Rightarrow> 'o \<Rightarrow> 'o net_impl \<Rightarrow> zuh_event \<Rightarrow> bytes \<Rightarrow> 'o net_impl" where
  "trace_impl env w m ev detail = m\<lparr>ni_opts := net_trace env w (ni_opts m) ev detail\<rparr>"

text \<open>
  One address of the list. \<open>Skipped\<close> is a \<^verbatim>\<open>continue\<close>, which leaves the code of the last attempt as it
  was; \<open>Final\<close> is the return from inside the loop.
\<close>

datatype attempt = Skipped | Connected | Declined | Final zuh_code

definition connected :: "('o, 'a) net_env \<Rightarrow> 'o net_impl \<Rightarrow> 'a \<Rightarrow> 'o \<Rightarrow> 'o net_impl \<times> 'o" where
  "connected env m ai w =
     (case record_peer env m ai w of (m, w) \<Rightarrow> (trace_impl env w m ZUH_EV_CONNECT_DONE (ni_peer m), w))"

definition give_up :: "('o, 'a) net_env \<Rightarrow> 'o net_impl \<Rightarrow> 'o \<Rightarrow> 'o net_impl \<times> 'o" where
  "give_up env m w = (m\<lparr>ni_fd := ZUH_INVALID_SOCK\<rparr>, os_close env (ni_fd m) w)"

text \<open>A connection in progress: wait until the socket is writable and read its outcome.\<close>

definition finish_connect ::
    "('o, 'a) net_env \<Rightarrow> bytes \<Rightarrow> nat \<Rightarrow> zuh_deadline \<Rightarrow> 'a \<Rightarrow> 'o net_impl \<Rightarrow> zuh_error \<Rightarrow> 'o
     \<Rightarrow> (attempt \<times> 'o net_impl \<times> zuh_error \<times> 'o) option" where
  "finish_connect env host port d ai m err w =
     (case wait_ready env m True d err w of
        None \<Rightarrow> None
      | Some (rc, err, w) \<Rightarrow>
          if rc = ZUH_OK then
            (case os_soerror env (ni_fd m) w of (r, soerr, w) \<Rightarrow>
             if r = 0 \<and> soerr = 0 then (case connected env m ai w of (m, w) \<Rightarrow> Some (Connected, m, err, w))
             else case give_up env m w of (m, w) \<Rightarrow>
               Some (Declined, m, zuh_error_set err ZUH_ERR_CONNECT ZUH_PHASE_CONNECT
                 (''connection to '' @ c_string host @ '':'' @ show_nat port @ '' refused ('' @ show_int soerr @ '')''), w))
          else case give_up env m w of (m, w) \<Rightarrow> Some (Final rc, m, err\<lparr>err_phase := ZUH_PHASE_CONNECT\<rparr>, w))"

definition try_address ::
    "('o, 'a) net_env \<Rightarrow> bytes \<Rightarrow> nat \<Rightarrow> zuh_deadline \<Rightarrow> 'a \<Rightarrow> 'o net_impl \<Rightarrow> zuh_error \<Rightarrow> 'o
     \<Rightarrow> (attempt \<times> 'o net_impl \<times> zuh_error \<times> 'o) option" where
  "try_address env host port d ai m err w =
     (case os_socket env ai w of (fd, w) \<Rightarrow>
      if fd = ZUH_INVALID_SOCK then Some (Skipped, m, err, w)
      else case set_nonblocking env fd w of (ok, w) \<Rightarrow>
      if \<not> ok then Some (Skipped, m, err, os_close env fd w)
      else
        let m = trace_impl env w m ZUH_EV_CONNECT_START host;
            m = m\<lparr>ni_fd := fd\<rparr>
        in case os_connect env fd ai (os_nodelay env fd w) of (r, e, w) \<Rightarrow>
           if r = 0 then (case connected env m ai w of (m, w) \<Rightarrow> Some (Connected, m, err, w))
           else if e = ZUH_EINPROGRESS \<or> e = ZUH_EWOULDBLOCK then finish_connect env host port d ai m err w
           else case give_up env m w of (m, w) \<Rightarrow>
             Some (Declined, m, zuh_error_set err ZUH_ERR_CONNECT ZUH_PHASE_CONNECT
               (''cannot connect to '' @ c_string host @ '':'' @ show_nat port @ '' ('' @ show_int e @ '')''), w))"

text \<open>The loop over the addresses; its first result is the code of a return from inside it.\<close>

fun connect_loop ::
    "('o, 'a) net_env \<Rightarrow> bytes \<Rightarrow> nat \<Rightarrow> zuh_deadline \<Rightarrow> 'a list \<Rightarrow> zuh_code \<Rightarrow> 'o net_impl \<Rightarrow> zuh_error \<Rightarrow> 'o
     \<Rightarrow> (zuh_code option \<times> zuh_code \<times> 'o net_impl \<times> zuh_error \<times> 'o) option" where
  "connect_loop env host port d [] last_rc m err w = Some (None, last_rc, m, err, w)"
| "connect_loop env host port d (ai # ais) last_rc m err w =
     (case try_address env host port d ai m err w of
        None \<Rightarrow> None
      | Some (Skipped, m, err, w) \<Rightarrow> connect_loop env host port d ais last_rc m err w
      | Some (Connected, m, err, w) \<Rightarrow> Some (None, ZUH_OK, m, err, w)
      | Some (Declined, m, err, w) \<Rightarrow> connect_loop env host port d ais ZUH_ERR_CONNECT m err w
      | Some (Final rc, m, err, w) \<Rightarrow> Some (Some rc, last_rc, m, err, w))"

definition timed :: "(int \<Rightarrow> zuh_timings \<Rightarrow> zuh_timings) \<Rightarrow> int \<Rightarrow> 'o zuh_net_opts \<Rightarrow> 'o zuh_net_opts" where
  "timed f ms o' = o'\<lparr>no_timings := map_option (f ms) (no_timings o')\<rparr>"

text \<open>
  Name resolution: the addresses, if any.
\<close>

definition resolve_host ::
    "('o, 'a) net_env \<Rightarrow> bytes \<Rightarrow> nat \<Rightarrow> 'o zuh_net_opts \<Rightarrow> 'o \<Rightarrow> 'a list \<times> 'o zuh_net_opts \<times> 'o" where
  "resolve_host env host port o' w =
     (let o' = net_trace env w o' ZUH_EV_DNS_START host; t_dns = os_clock env w in
      case os_getaddrinfo env (c_string host) (show_nat port) w of (gai, res, w) \<Rightarrow>
      let o' = timed (\<lambda>ms t. t\<lparr>tm_dns := ms\<rparr>) (os_clock env w - t_dns) o' in
      if gai \<noteq> 0 \<or> res = [] then ([], o', w) else (res, net_trace env w o' ZUH_EV_DNS_DONE host, w))"

text \<open>With the result come the log and the timings that the caller's options point to.\<close>

definition pointees :: "'o zuh_net_opts \<Rightarrow> zuh_trace option \<times> zuh_timings option" where
  "pointees o' = (no_trace o', no_timings o')"

type_synonym 'o connect_result =
  "zuh_code \<times> 'o net_impl option \<times> (zuh_trace option \<times> zuh_timings option) \<times> zuh_error \<times> 'o \<times> heap"

text \<open>After the loop: the timing, the address list and, on a failure, the blocks.\<close>

definition connect_end ::
    "('o, 'a) net_env \<Rightarrow> 'a list \<Rightarrow> zuh_millis \<Rightarrow> zuh_code option \<times> zuh_code \<times> 'o net_impl \<times> zuh_error \<times> 'o \<Rightarrow> heap
     \<Rightarrow> 'o connect_result" where
  "connect_end env res t_conn r h =
     (let free_both = (\<lambda>h. zuh_free (Some SIZEOF_NET_STREAM) (zuh_free (Some SIZEOF_NET_IMPL) h)) in
      case r of (fin, last_rc, m, err, w) \<Rightarrow>
      (case fin of
         Some rc \<Rightarrow> (rc, None, pointees (ni_opts m), err, os_freeaddrinfo env res w, free_both h)
       | None \<Rightarrow>
           let m = m\<lparr>ni_opts := timed (\<lambda>ms t. t\<lparr>tm_connect := ms\<rparr>) (os_clock env w - t_conn) (ni_opts m)\<rparr>;
               w = os_freeaddrinfo env res w
           in if last_rc \<noteq> ZUH_OK then (last_rc, None, pointees (ni_opts m), err, w, free_both h)
              else (ZUH_OK, Some m, pointees (ni_opts m), err, w, h)))"

definition zuh_net_connect ::
    "('o, 'a) net_env \<Rightarrow> bytes \<Rightarrow> nat \<Rightarrow> zuh_deadline \<Rightarrow> 'o zuh_net_opts option \<Rightarrow> zuh_error \<Rightarrow> 'o \<Rightarrow> heap
     \<Rightarrow> 'o connect_result option" where
  "zuh_net_connect env host port d opts err w h =
     (let o' = (case opts of Some o' \<Rightarrow> o' | None \<Rightarrow> zuh_net_opts_init) in
      case resolve_host env host port o' w of (res, o', w) \<Rightarrow>
      if res = [] then
        Some (ZUH_ERR_DNS, None, pointees o',
          zuh_error_set err ZUH_ERR_DNS ZUH_PHASE_DNS (''cannot resolve '' @ [CHR 0x27] @ c_string host @ [CHR 0x27]), w, h)
      else
        let t_conn = os_clock env w in
        case zuh_calloc 1 SIZEOF_NET_STREAM h of (st_ok, h) \<Rightarrow>
        case zuh_calloc 1 SIZEOF_NET_IMPL h of (m_ok, h) \<Rightarrow>
        if \<not> st_ok \<or> \<not> m_ok then
          Some (ZUH_ERR_NOMEM, None, pointees o', err, os_freeaddrinfo env res w,
            zuh_free (if m_ok then Some SIZEOF_NET_IMPL else None) (zuh_free (if st_ok then Some SIZEOF_NET_STREAM else None) h))
        else
          let m = \<lparr>ni_fd = ZUH_INVALID_SOCK,
                   ni_opts = (if no_tick_ms o' \<le> 0 then o'\<lparr>no_tick_ms := 100\<rparr> else o'), ni_peer = []\<rparr>
          in map_option (\<lambda>r. connect_end env res t_conn r h) (connect_loop env host port d res ZUH_ERR_CONNECT m err w))"

text \<open>The bytes the caller's array holds, up to their NUL, and whether there is an address.\<close>

definition zuh_net_peer_ip :: "'o net_impl \<Rightarrow> nat \<Rightarrow> bytes \<times> bool" where
  "zuh_net_peer_ip m cap = (if cap = 0 then ([], False) else (take (cap - 1) (ni_peer m), ni_peer m \<noteq> []))"

section \<open>Descriptors\<close>

text \<open>
  \<open>fds w\<close> are the open descriptors and \<open>infos w\<close> counts the address lists not yet freed. Only opening and
  closing change them, and closing is described for an open descriptor only, as freeing is for a live list.
\<close>

definition same_held :: "('o \<Rightarrow> int set) \<Rightarrow> ('o \<Rightarrow> nat) \<Rightarrow> 'o \<Rightarrow> 'o \<Rightarrow> bool" where
  "same_held fds infos w w' \<longleftrightarrow> fds w' = fds w \<and> infos w' = infos w"

text \<open>The calls that neither open nor close anything.\<close>

definition quiet_calls :: "('o, 'a) net_env \<Rightarrow> ('o \<Rightarrow> 'o \<Rightarrow> bool) \<Rightarrow> bool" where
  "quiet_calls env same \<longleftrightarrow>
     (\<forall>fd b ms w. same w (snd (snd (os_poll env fd b ms w)))) \<and> (\<forall>fd w. same w (snd (os_getfl env fd w)))
     \<and> (\<forall>fd fl w. same w (snd (os_setfl_nonblock env fd fl w))) \<and> (\<forall>fd w. same w (os_nodelay env fd w))
     \<and> (\<forall>fd a w. same w (snd (snd (os_connect env fd a w)))) \<and> (\<forall>fd w. same w (snd (snd (os_soerror env fd w))))
     \<and> (\<forall>a w. same w (snd (os_nameinfo env a w)))"

definition tracks :: "('o, 'a) net_env \<Rightarrow> ('o \<Rightarrow> int set) \<Rightarrow> ('o \<Rightarrow> nat) \<Rightarrow> bool" where
  "tracks env fds infos \<longleftrightarrow>
     (\<forall>a w fd w'. os_socket env a w = (fd, w') \<longrightarrow> infos w' = infos w
        \<and> (if fd = ZUH_INVALID_SOCK then fds w' = fds w else fd \<notin> fds w \<and> fds w' = insert fd (fds w)))
     \<and> (\<forall>fd w. fd \<in> fds w \<longrightarrow> fds (os_close env fd w) = fds w - {fd} \<and> infos (os_close env fd w) = infos w)
     \<and> (\<forall>h p w g res w'. os_getaddrinfo env h p w = (g, res, w') \<longrightarrow> fds w' = fds w
        \<and> infos w' = infos w + (if g \<noteq> 0 \<or> res = [] then 0 else 1))
     \<and> (\<forall>res w. infos w > 0 \<longrightarrow> fds (os_freeaddrinfo env res w) = fds w \<and> Suc (infos (os_freeaddrinfo env res w)) = infos w)
     \<and> quiet_calls env (same_held fds infos)"

definition tick_tracks :: "('o \<Rightarrow> int set) \<Rightarrow> ('o \<Rightarrow> nat) \<Rightarrow> 'o zuh_net_opts \<Rightarrow> bool" where
  "tick_tracks fds infos o' \<longleftrightarrow> (\<forall>f w. no_tick o' = Some f \<longrightarrow> same_held fds infos w (snd (f w)))"

lemma same_held_trans: "same_held fds infos w w1 \<Longrightarrow> same_held fds infos w1 w2 \<Longrightarrow> same_held fds infos w w2"
  by (simp add: same_held_def)

lemma tracks_close: "tracks env fds infos \<Longrightarrow> fd \<in> fds w \<Longrightarrow> fds (os_close env fd w) = fds w - {fd} \<and> infos (os_close env fd w) = infos w"
  by (simp add: tracks_def)

lemma tracks_free: "tracks env fds infos \<Longrightarrow> infos w > 0 \<Longrightarrow> fds (os_freeaddrinfo env res w) = fds w \<and> Suc (infos (os_freeaddrinfo env res w)) = infos w"
  by (simp add: tracks_def)

lemma tracks_quiet: "tracks env fds infos \<Longrightarrow> quiet_calls env (same_held fds infos)"
  unfolding tracks_def by blast

lemma quiet_poll: "quiet_calls env same \<Longrightarrow> os_poll env fd b ms w = (x, e, w') \<Longrightarrow> same w w'"
  unfolding quiet_calls_def by (metis snd_conv)

lemma quiet_connect: "quiet_calls env same \<Longrightarrow> os_connect env fd a w = (x, e, w') \<Longrightarrow> same w w'"
  unfolding quiet_calls_def by (metis snd_conv)

lemma quiet_soerror: "quiet_calls env same \<Longrightarrow> os_soerror env fd w = (x, e, w') \<Longrightarrow> same w w'"
  unfolding quiet_calls_def by (metis snd_conv)

lemma quiet_nodelay: "quiet_calls env same \<Longrightarrow> same w (os_nodelay env fd w)"
  unfolding quiet_calls_def by blast

lemma quiet_nonblocking:
  assumes "quiet_calls env (same_held fds infos)" and "set_nonblocking env fd w = (ok, w')"
  shows "same_held fds infos w w'"
proof -
  obtain fl w1 where g: "os_getfl env fd w = (fl, w1)" by (rule prod.exhaust)
  have "same_held fds infos w w1" "same_held fds infos w1 (snd (os_setfl_nonblock env fd fl w1))"
    using assms(1) g unfolding quiet_calls_def by (metis snd_conv, blast)
  with assms(2) g show ?thesis by (auto simp: set_nonblocking_def intro: same_held_trans split: if_splits prod.splits)
qed

lemma quiet_connected:
  assumes "quiet_calls env same" and "connected env m a w = (m', w')"
  shows "same w w' \<and> ni_fd m' = ni_fd m \<and> no_tick (ni_opts m') = no_tick (ni_opts m)"
proof -
  obtain r w1 where g: "os_nameinfo env a w = (r, w1)" by (rule prod.exhaust)
  have "same w w1" using assms(1) g unfolding quiet_calls_def by (metis snd_conv)
  with assms(2) g show ?thesis by (auto simp: connected_def record_peer_def trace_impl_def net_trace_def)
qed

lemma wait_tracks:
  assumes run: "wait_ready env m b d err w = Some r"
    and "quiet_calls env (same_held fds infos)" and "tick_tracks fds infos (ni_opts m)"
  shows "same_held fds infos w (snd (snd r))"
  using assms(2,3)
proof (induction rule: wait_ready.raw_induct [OF _ run])
  case (1 loop env m b d err w r)
  obtain stop w1 where t: "tick_stops m w = (stop, w1)" by (rule prod.exhaust)
  have t1: "same_held fds infos w w1"
    using t "1"(4) by (auto simp: tick_stops_def tick_tracks_def same_held_def split: option.splits) (metis snd_conv)+
  let ?ms = "zuh_deadline_poll_ms (os_clock env w1) d (if no_tick_ms (ni_opts m) > 0 then no_tick_ms (ni_opts m) else 100)"
  obtain rc e w2 where p: "os_poll env (ni_fd m) b ?ms w1 = (rc, e, w2)" by (rule prod_cases3)
  from same_held_trans [OF t1 quiet_poll [OF "1"(3) p]] have t2: "same_held fds infos w w2" .
  have again: "loop env m b d err w2 = Some r \<Longrightarrow> ?case" using "1"(1) [OF _ "1"(3,4)] same_held_trans [OF t2] by blast
  show ?case using "1"(2) t p t1 t2 again by (auto simp: Let_def split: if_splits)
qed

text \<open>What an attempt leaves behind: its socket when it connected, nothing otherwise.\<close>

definition holds :: "('o \<Rightarrow> int set) \<Rightarrow> ('o \<Rightarrow> nat) \<Rightarrow> 'o \<Rightarrow> bool \<Rightarrow> 'o net_impl \<Rightarrow> 'o \<Rightarrow> bool" where
  "holds fds infos w ok m w' \<longleftrightarrow> infos w' = infos w
     \<and> (if ok then ni_fd m \<noteq> ZUH_INVALID_SOCK \<and> ni_fd m \<notin> fds w \<and> fds w' = insert (ni_fd m) (fds w) else fds w' = fds w)"

lemma give_up_holds:
  assumes "tracks env fds infos" and "ni_fd m \<in> fds w1" and "fds w1 = insert (ni_fd m) (fds w)" and "ni_fd m \<notin> fds w"
    and "infos w1 = infos w" and "give_up env m w1 = (m', w')"
  shows "holds fds infos w False m' w' \<and> ni_opts m' = ni_opts m"
proof -
  from tracks_close [OF assms(1,2)] assms show ?thesis by (auto simp: give_up_def holds_def)
qed

lemma finish_connect_holds:
  assumes tr: "tracks env fds infos" and tick: "tick_tracks fds infos (ni_opts m)"
    and fd: "fds w1 = insert (ni_fd m) (fds w)" "ni_fd m \<notin> fds w" "infos w1 = infos w" and ok: "ni_fd m \<noteq> ZUH_INVALID_SOCK"
    and run: "finish_connect env host port d ai m err w1 = Some (r, m', err', w')"
  shows "holds fds infos w (r = Connected) m' w' \<and> no_tick (ni_opts m') = no_tick (ni_opts m) \<and> r \<noteq> Final ZUH_OK"
proof -
  note q = tracks_quiet [OF tr]
  obtain rc err1 w2 where w: "wait_ready env m True d err w1 = Some (rc, err1, w2)"
    using run by (auto simp: finish_connect_def split: option.splits)
  have w2: "fds w2 = fds w1" "infos w2 = infos w1" using wait_tracks [OF w q tick] by (auto simp: same_held_def)
  obtain x e w3 where so: "os_soerror env (ni_fd m) w2 = (x, e, w3)" by (rule prod_cases3)
  have w3: "fds w3 = fds w2" "infos w3 = infos w2" using quiet_soerror [OF q so] by (auto simp: same_held_def)
  obtain m2 w4 where g2: "give_up env m w2 = (m2, w4)" by (rule prod.exhaust)
  obtain m3 w5 where g3: "give_up env m w3 = (m3, w5)" by (rule prod.exhaust)
  obtain m4 w6 where c: "connected env m ai w3 = (m4, w6)" by (rule prod.exhaust)
  have h2: "holds fds infos w False m2 w4 \<and> ni_opts m2 = ni_opts m"
    by (rule give_up_holds [OF tr _ _ _ _ g2]) (use fd w2 in auto)
  have h3: "holds fds infos w False m3 w5 \<and> ni_opts m3 = ni_opts m"
    by (rule give_up_holds [OF tr _ _ _ _ g3]) (use fd w2 w3 in auto)
  have h4: "holds fds infos w True m4 w6 \<and> no_tick (ni_opts m4) = no_tick (ni_opts m)"
    using quiet_connected [OF q c] fd ok w2 w3 by (auto simp: holds_def same_held_def)
  note eq = run [unfolded finish_connect_def w, simplified]
  show ?thesis
  proof (cases "rc = ZUH_OK")
    case True
    with eq so g3 c h3 h4 show ?thesis by (cases "x = 0 \<and> e = 0") auto
  next
    case False
    with eq g2 h2 show ?thesis by auto
  qed
qed

lemma try_address_holds:
  assumes tr: "tracks env fds infos" and tick: "tick_tracks fds infos (ni_opts m)"
    and run: "try_address env host port d ai m err w = Some (r, m', err', w')"
  shows "holds fds infos w (r = Connected) m' w' \<and> no_tick (ni_opts m') = no_tick (ni_opts m) \<and> r \<noteq> Final ZUH_OK"
proof -
  note q = tracks_quiet [OF tr]
  obtain fd w1 where s: "os_socket env ai w = (fd, w1)" by (rule prod.exhaust)
  have s1: "infos w1 = infos w" "if fd = ZUH_INVALID_SOCK then fds w1 = fds w else fd \<notin> fds w \<and> fds w1 = insert fd (fds w)"
    using tr s unfolding tracks_def by blast+
  show ?thesis
  proof (cases "fd = ZUH_INVALID_SOCK")
    case True
    with run s s1 show ?thesis by (auto simp: try_address_def holds_def)
  next
    case False
    with s1 have f: "fd \<notin> fds w" "fds w1 = insert fd (fds w)" by auto
    obtain ok w2 where n: "set_nonblocking env fd w1 = (ok, w2)" by (rule prod.exhaust)
    from quiet_nonblocking [OF q n] f s1 have w2: "fds w2 = insert fd (fds w)" "infos w2 = infos w" by (auto simp: same_held_def)
    show ?thesis
    proof (cases ok)
      case False
      from tracks_close [OF tr, of fd w2] w2(1)
      have "fds (os_close env fd w2) = fds w2 - {fd} \<and> infos (os_close env fd w2) = infos w2" by simp
      moreover have "r = Skipped \<and> m' = m \<and> w' = os_close env fd w2"
        using run s n False \<open>fd \<noteq> ZUH_INVALID_SOCK\<close> by (simp add: try_address_def)
      ultimately show ?thesis using w2 f(1) by (simp add: holds_def)
    next
      case True
      let ?m = "(trace_impl env w2 m ZUH_EV_CONNECT_START host)\<lparr>ni_fd := fd\<rparr>"
      have m: "ni_fd ?m = fd" "no_tick (ni_opts ?m) = no_tick (ni_opts m)" by (auto simp: trace_impl_def net_trace_def)
      with tick have tick': "tick_tracks fds infos (ni_opts ?m)" by (simp add: tick_tracks_def)
      obtain x e w3 where c: "os_connect env fd ai (os_nodelay env fd w2) = (x, e, w3)" by (rule prod_cases3)
      have w3: "fds w3 = insert (ni_fd ?m) (fds w)" "infos w3 = infos w" "ni_fd ?m \<notin> fds w" "ni_fd ?m \<noteq> ZUH_INVALID_SOCK"
        using quiet_connect [OF q c] quiet_nodelay [OF q, of w2 fd] w2 f m(1) \<open>fd \<noteq> ZUH_INVALID_SOCK\<close> by (auto simp: same_held_def)
      obtain m1 w4 where k: "connected env ?m ai w3 = (m1, w4)" by (rule prod.exhaust)
      obtain m2 w5 where g: "give_up env ?m w3 = (m2, w5)" by (rule prod.exhaust)
      have h1: "holds fds infos w True m1 w4 \<and> no_tick (ni_opts m1) = no_tick (ni_opts m)"
        using quiet_connected [OF q k] w3 m by (auto simp: holds_def same_held_def)
      have h2: "holds fds infos w False m2 w5 \<and> no_tick (ni_opts m2) = no_tick (ni_opts m)"
        using give_up_holds [OF tr _ w3(1,3,2) g] w3 m by auto
      have h3: "finish_connect env host port d ai ?m err w3 = Some (r, m', err', w') \<Longrightarrow> ?thesis"
        using finish_connect_holds [OF tr tick' w3(1,3,2,4)] m(2) by auto
      show ?thesis
      proof (cases "x = 0")
        case True
        with run s n \<open>ok\<close> \<open>fd \<noteq> ZUH_INVALID_SOCK\<close> c k h1 show ?thesis by (auto simp: try_address_def Let_def)
      next
        case failed: False
        show ?thesis
        proof (cases "e = ZUH_EINPROGRESS \<or> e = ZUH_EWOULDBLOCK")
          case True
          with run s n \<open>ok\<close> \<open>fd \<noteq> ZUH_INVALID_SOCK\<close> c failed
          have "finish_connect env host port d ai ?m err w3 = Some (r, m', err', w')" by (simp add: try_address_def Let_def)
          with h3 show ?thesis by blast
        next
          case False
          with run s n \<open>ok\<close> \<open>fd \<noteq> ZUH_INVALID_SOCK\<close> c failed g h2 show ?thesis by (auto simp: try_address_def Let_def)
        qed
      qed
    qed
  qed
qed

lemma connect_loop_holds:
  assumes "tracks env fds infos"
  shows "tick_tracks fds infos (ni_opts m) \<Longrightarrow> last_rc \<noteq> ZUH_OK \<Longrightarrow>
    connect_loop env host port d ais last_rc m err w = Some (fin, rc, m', err', w') \<Longrightarrow>
    holds fds infos w (fin = None \<and> rc = ZUH_OK) m' w' \<and> fin \<noteq> Some ZUH_OK"
proof (induction ais arbitrary: last_rc m err w)
  case Nil
  then show ?case by (auto simp: holds_def)
next
  case (Cons ai ais)
  obtain r m1 err1 w1 where t: "try_address env host port d ai m err w = Some (r, m1, err1, w1)"
    using Cons.prems(3) by (auto split: option.splits)
  note h = try_address_holds [OF assms Cons.prems(1) t]
  have tick: "tick_tracks fds infos (ni_opts m1)" using h Cons.prems(1) by (simp add: tick_tracks_def)
  show ?case
  proof (cases "r = Skipped \<or> r = Declined")
    case True
    define l where "l = (if r = Skipped then last_rc else ZUH_ERR_CONNECT)"
    have l: "l \<noteq> ZUH_OK" "connect_loop env host port d ais l m1 err1 w1 = Some (fin, rc, m', err', w')"
      using Cons.prems(2,3) t True by (auto simp: l_def)
    from h True have "fds w1 = fds w" "infos w1 = infos w" by (auto simp: holds_def)
    with Cons.IH [OF tick l] show ?thesis by (auto simp: holds_def)
  next
    case False
    with Cons.prems t h show ?thesis by (cases r) auto
  qed
qed

lemma resolve_host_held:
  assumes "tracks env fds infos" and "resolve_host env host port o' w = (res, o2, w')"
  shows "fds w' = fds w \<and> infos w' = infos w + (if res = [] then 0 else 1) \<and> no_tick o2 = no_tick o'"
proof -
  obtain g rs w1 where a: "os_getaddrinfo env (c_string host) (show_nat port) w = (g, rs, w1)" by (rule prod_cases3)
  have "fds w1 = fds w \<and> infos w1 = infos w + (if g \<noteq> 0 \<or> rs = [] then 0 else 1)"
    using assms(1) a unfolding tracks_def by blast
  with assms(2) a show ?thesis by (auto simp: resolve_host_def Let_def net_trace_def timed_def split: if_splits)
qed

lemma connect_end_held:
  assumes tr: "tracks env fds infos" and loop: "holds fds infos w (fin = None \<and> rc0 = ZUH_OK) m w1" "fin \<noteq> Some ZUH_OK"
    and "infos w > 0" and "grew h0 h 2 (of_nat (SIZEOF_NET_STREAM + SIZEOF_NET_IMPL))"
    and "connect_end env res t (fin, rc0, m, err, w1) h = (rc, out, ptrs, err', w', h')"
  shows "Suc (infos w') = infos w \<and> (rc = ZUH_OK \<longleftrightarrow> out \<noteq> None)
    \<and> (case out of
         None \<Rightarrow> fds w' = fds w \<and> grew h0 h' 0 0
       | Some m \<Rightarrow> ni_fd m \<noteq> ZUH_INVALID_SOCK \<and> ni_fd m \<notin> fds w \<and> fds w' = insert (ni_fd m) (fds w)
           \<and> grew h0 h' 2 (of_nat (SIZEOF_NET_STREAM + SIZEOF_NET_IMPL)))"
proof -
  have f: "fds (os_freeaddrinfo env res w1) = fds w1 \<and> Suc (infos (os_freeaddrinfo env res w1)) = infos w1"
    using tr loop(1) assms(4) unfolding tracks_def holds_def by auto
  have freed: "grew h0 (zuh_free (Some SIZEOF_NET_STREAM) (zuh_free (Some SIZEOF_NET_IMPL) h)) 0 0"
    using assms(5) by (simp add: grew_def zuh_free_def)
  show ?thesis
  proof (cases "fin = None \<and> rc0 = ZUH_OK")
    case True
    with assms(6) loop(1) f assms(5) show ?thesis by (auto simp: connect_end_def Let_def holds_def timed_def)
  next
    case False
    with assms(6) loop(2) f freed have "out = None \<and> rc \<noteq> ZUH_OK \<and> w' = os_freeaddrinfo env res w1 \<and> grew h0 h' 0 0"
      by (auto simp: connect_end_def Let_def split: option.splits if_splits)
    with False loop(1) f show ?thesis by (auto simp: holds_def)
  qed
qed

text \<open>
  C10: a connection attempt leaks nothing. Whatever the resolver, the sockets, the tick and the allocator do:
  \<^verbatim>\<open>zuh_net_connect\<close> either returns a connection that owns exactly one new descriptor and its two blocks, or
  fails with no descriptor, no address list and no memory left behind. It closes only descriptors
  it opened, each once. Destroying the connection gives back the descriptor and the blocks.
\<close>
theorem net_connect_leaks_nothing:
  assumes "tracks env fds infos" and "\<forall>o'. opts = Some o' \<longrightarrow> tick_tracks fds infos o'"
    and "zuh_net_connect env host port d opts err w h = Some (rc, out, ptrs, err', w', h')"
  shows "infos w' = infos w \<and> (rc = ZUH_OK \<longleftrightarrow> out \<noteq> None)
    \<and> (case out of
         None \<Rightarrow> fds w' = fds w \<and> grew h h' 0 0
       | Some m \<Rightarrow> ni_fd m \<notin> fds w \<and> fds w' = insert (ni_fd m) (fds w)
           \<and> grew h h' 2 (of_nat (SIZEOF_NET_STREAM + SIZEOF_NET_IMPL))
           \<and> (case net_destroy env m w' h' of (w2, h2) \<Rightarrow> fds w2 = fds w \<and> infos w2 = infos w \<and> grew h h2 0 0))"
proof -
  let ?o = "case opts of Some o' \<Rightarrow> o' | None \<Rightarrow> zuh_net_opts_init"
  obtain res o2 w1 where r: "resolve_host env host port ?o w = (res, o2, w1)" by (rule prod_cases3)
  note r1 = resolve_host_held [OF assms(1) r]
  have "tick_tracks fds infos ?o"
    using assms(2) by (cases opts) (auto simp: tick_tracks_def zuh_net_opts_init_def)
  with r1 have tick: "tick_tracks fds infos o2" by (simp add: tick_tracks_def)
  obtain a h1 where c1: "zuh_calloc 1 SIZEOF_NET_STREAM h = (a, h1)" by (rule prod.exhaust)
  obtain b h2 where c2: "zuh_calloc 1 SIZEOF_NET_IMPL h1 = (b, h2)" by (rule prod.exhaust)
  note g = zuh_calloc_grew [OF c1] zuh_calloc_grew [OF c2]
  show ?thesis
  proof (cases "res = [] \<or> \<not> a \<or> \<not> b")
    case True
    have f: "res \<noteq> [] \<Longrightarrow> fds (os_freeaddrinfo env res w1) = fds w \<and> infos (os_freeaddrinfo env res w1) = infos w"
      using tracks_free [OF assms(1), of w1 res] r1 by auto
    have "out = None \<and> rc \<noteq> ZUH_OK \<and> w' = (if res = [] then w1 else os_freeaddrinfo env res w1) \<and> grew h h' 0 0"
      using assms(3) r c1 c2 True g by (auto simp: zuh_net_connect_def Let_def grew_def zuh_free_def split: if_splits)
    with f r1 show ?thesis by auto
  next
    case False
    let ?m = "\<lparr>ni_fd = ZUH_INVALID_SOCK, ni_opts = (if no_tick_ms o2 \<le> 0 then o2\<lparr>no_tick_ms := 100\<rparr> else o2), ni_peer = []\<rparr>"
    obtain fin rc0 m err1 w2 where l: "connect_loop env host port d res ZUH_ERR_CONNECT ?m err w1 = Some (fin, rc0, m, err1, w2)"
      and e: "connect_end env res (os_clock env w1) (fin, rc0, m, err1, w2) h2 = (rc, out, ptrs, err', w', h')"
      using assms(3) r c1 c2 False by (auto simp: zuh_net_connect_def Let_def)
    have "tick_tracks fds infos (ni_opts ?m)" using tick by (simp add: tick_tracks_def)
    from connect_loop_holds [OF assms(1) this _ l]
    have lp: "holds fds infos w1 (fin = None \<and> rc0 = ZUH_OK) m w2" "fin \<noteq> Some ZUH_OK" by auto
    have "grew h h2 2 (of_nat (SIZEOF_NET_STREAM + SIZEOF_NET_IMPL))" using g False by (simp add: grew_def)
    note en = connect_end_held [OF assms(1) lp _ this e]
    have d: "fds (fst (net_destroy env m w' h')) = fds w \<and> infos (fst (net_destroy env m w' h')) = infos w'
        \<and> grew h (snd (net_destroy env m w' h')) 0 0"
      if "ni_fd m \<noteq> ZUH_INVALID_SOCK" "ni_fd m \<notin> fds w" "fds w' = insert (ni_fd m) (fds w)"
        "grew h h' 2 (of_nat (SIZEOF_NET_STREAM + SIZEOF_NET_IMPL))" for m :: "'a net_impl"
      using that tracks_close [OF assms(1), of "ni_fd m" w'] by (simp add: net_destroy_def net_close_def grew_def zuh_free_def)
    show ?thesis
    proof (cases out)
      case None
      with en r1 False show ?thesis by simp
    next
      case (Some k)
      with en r1 False d [of k] show ?thesis by (simp add: split_beta)
    qed
  qed
qed

section \<open>Time\<close>

text \<open>
  Only \<^verbatim>\<open>poll\<close> takes time, at most what it was asked for, and the system does not interrupt or refuse for
  ever within one millisecond: \<open>patience\<close> counts how often it still may before the clock moves.
\<close>

definition immediate :: "('o, 'a) net_env \<Rightarrow> ('o \<Rightarrow> nat) \<Rightarrow> bool \<Rightarrow> 'o \<Rightarrow> 'o \<Rightarrow> bool" where
  "immediate env patience refused w w' \<longleftrightarrow> os_clock env w' = os_clock env w \<and> patience w' \<le> patience w
     \<and> (refused \<longrightarrow> patience w' < patience w)"

definition well_timed :: "('o, 'a) net_env \<Rightarrow> ('o \<Rightarrow> nat) \<Rightarrow> 'o zuh_net_opts \<Rightarrow> bool" where
  "well_timed env patience o' \<longleftrightarrow>
     (\<forall>fd n w r e w'. os_recv env fd n w = (r, e, w') \<longrightarrow> immediate env patience (r = None) w w')
     \<and> (\<forall>fd b w k e w'. os_send env fd b w = (k, e, w') \<longrightarrow> immediate env patience (k < 0) w w')
     \<and> (\<forall>fd b ms w rc e w'. os_poll env fd b ms w = (rc, e, w') \<longrightarrow>
          os_clock env w \<le> os_clock env w' \<and> os_clock env w' \<le> os_clock env w + max 0 ms
          \<and> (os_clock env w' = os_clock env w \<longrightarrow> patience w' \<le> patience w \<and> (rc \<le> 0 \<longrightarrow> patience w' < patience w)))
     \<and> (\<forall>f w. no_tick o' = Some f \<longrightarrow> immediate env patience False w (snd (f w)))"

lemma timed_recv: "well_timed env patience o' \<Longrightarrow> os_recv env fd n w = (r, e, w') \<Longrightarrow> immediate env patience (r = None) w w'"
  by (simp add: well_timed_def)

lemma timed_send: "well_timed env patience o' \<Longrightarrow> os_send env fd b w = (k, e, w') \<Longrightarrow> immediate env patience (k < 0) w w'"
  by (simp add: well_timed_def)

text \<open>A step towards the deadline, which never passes it.\<close>

definition closer :: "('o \<Rightarrow> zuh_millis) \<Rightarrow> ('o \<Rightarrow> nat) \<Rightarrow> zuh_deadline \<Rightarrow> 'o \<Rightarrow> 'o \<Rightarrow> bool" where
  "closer clock patience d w w' \<longleftrightarrow> clock w \<le> clock w' \<and> clock w' \<le> max (clock w) (dl_at d)
     \<and> (clock w' = clock w \<longrightarrow> patience w' \<le> patience w)"

lemma closer_trans: "closer clock patience d w w1 \<Longrightarrow> closer clock patience d w1 w2 \<Longrightarrow> closer clock patience d w w2"
  by (auto simp: closer_def max_def split: if_splits)

lemma tick_closer:
  assumes "well_timed env patience (ni_opts m)" and "tick_stops m w = (stop, w')"
  shows "os_clock env w' = os_clock env w \<and> patience w' \<le> patience w"
proof (cases "no_tick (ni_opts m)")
  case (Some f)
  with assms(1) have "immediate env patience False w (snd (f w))" unfolding well_timed_def by blast
  then have "os_clock env (snd (f w)) = os_clock env w \<and> patience (snd (f w)) \<le> patience w" by (simp add: immediate_def)
  with Some assms(2) show ?thesis by (simp add: tick_stops_def)
qed (use assms(2) in \<open>simp add: tick_stops_def\<close>)

lemma wait_returns:
  assumes time: "well_timed env patience (ni_opts m)" and d: "\<not> dl_infinite d"
  shows "\<exists>rc err' w'. wait_ready env m b d err w = Some (rc, err', w') \<and> closer (os_clock env) patience d w w'
    \<and> (rc \<noteq> ZUH_OK \<longrightarrow> err_code err' = rc) \<and> (rc = ZUH_ERR_TIMEOUT \<longrightarrow> dl_at d \<le> os_clock env w')"
proof (induction "(nat (dl_at d - os_clock env w), patience w)" arbitrary: w
    rule: wf_induct_rule [OF wf_lex_prod [OF wf_less_than wf_less_than]])
  case 1
  obtain stop w1 where t: "tick_stops m w = (stop, w1)" by (rule prod.exhaust)
  note t1 = tick_closer [OF time t]
  let ?ms = "zuh_deadline_poll_ms (os_clock env w1) d (if no_tick_ms (ni_opts m) > 0 then no_tick_ms (ni_opts m) else 100)"
  obtain rc e w2 where p: "os_poll env (ni_fd m) b ?ms w1 = (rc, e, w2)" by (rule prod_cases3)
  have p2: "os_clock env w1 \<le> os_clock env w2" "os_clock env w2 \<le> os_clock env w1 + max 0 ?ms"
      "os_clock env w2 = os_clock env w1 \<longrightarrow> patience w2 \<le> patience w1 \<and> (rc \<le> 0 \<longrightarrow> patience w2 < patience w1)"
    using time p unfolding well_timed_def by blast+
  have c1: "closer (os_clock env) patience d w w1" using t1 by (simp add: closer_def)
  show ?case
  proof (cases "stop \<or> zuh_deadline_expired (os_clock env w1) d")
    case True
    with t c1 d show ?thesis
      by (subst wait_ready.simps) (auto simp: zuh_deadline_expired_def zuh_deadline_remaining_def)
  next
    case False
    then have left: "os_clock env w1 < dl_at d" using d by (simp add: zuh_deadline_expired_def zuh_deadline_remaining_def)
    have ms: "os_clock env w1 + max 0 ?ms \<le> dl_at d"
      using left d by (simp add: zuh_deadline_poll_ms_def zuh_deadline_remaining_def Let_def)
    with c1 p2 left have c2: "closer (os_clock env) patience d w w2" by (auto simp: closer_def)
    show ?thesis
    proof (cases "rc = 0 \<or> rc < 0 \<and> e = ZUH_EINTR")
      case True
      then have "((nat (dl_at d - os_clock env w2), patience w2), nat (dl_at d - os_clock env w), patience w) \<in> less_than <*lex*> less_than"
        using p2 t1 left by auto
      from 1 [OF this] obtain rc' err' w' where "wait_ready env m b d err w2 = Some (rc', err', w')"
          "closer (os_clock env) patience d w2 w'" "rc' \<noteq> ZUH_OK \<longrightarrow> err_code err' = rc'"
          "rc' = ZUH_ERR_TIMEOUT \<longrightarrow> dl_at d \<le> os_clock env w'" by blast
      moreover have "wait_ready env m b d err w = wait_ready env m b d err w2"
        using t p False True by (subst wait_ready.simps) (auto simp: Let_def)
      ultimately show ?thesis using closer_trans [OF c2] by auto
    next
      case other: False
      with t p False c2 show ?thesis by (subst wait_ready.simps) (auto simp: Let_def)
    qed
  qed
qed

lemma closer_less:
  assumes "closer clock patience d w w'" and "clock w' = clock w \<Longrightarrow> patience w' < patience w" and "clock w < dl_at d \<or> clock w' = clock w"
  shows "((nat (dl_at d - clock w'), patience w'), nat (dl_at d - clock w), patience w) \<in> less_than <*lex*> less_than"
proof (cases "clock w' = clock w")
  case False
  with assms(1,3) have "clock w < clock w'" "clock w < dl_at d" by (auto simp: closer_def)
  then show ?thesis by auto
qed (use assms(2) in auto)

text \<open>The rounds of a read or write after the system refused: again at once, or after a wait.\<close>

lemma refused_round:
  assumes time: "well_timed env patience (ni_opts m)" and d: "\<not> dl_infinite d"
    and refused: "os_clock env w1 = os_clock env w" "patience w1 < patience w"
  obtains rc err' w2 where "wait_ready env m b d err w1 = Some (rc, err', w2)" "closer (os_clock env) patience d w w2"
    "rc \<noteq> ZUH_OK \<longrightarrow> err_code err' = rc" "rc = ZUH_ERR_TIMEOUT \<longrightarrow> dl_at d \<le> os_clock env w2"
    "((nat (dl_at d - os_clock env w2), patience w2), nat (dl_at d - os_clock env w), patience w) \<in> less_than <*lex*> less_than"
proof -
  from wait_returns [OF time d, of b err w1] obtain rc err' w2 where r: "wait_ready env m b d err w1 = Some (rc, err', w2)"
      "closer (os_clock env) patience d w1 w2" "rc \<noteq> ZUH_OK \<longrightarrow> err_code err' = rc"
      "rc = ZUH_ERR_TIMEOUT \<longrightarrow> dl_at d \<le> os_clock env w2" by blast
  have c: "closer (os_clock env) patience d w w2"
    using closer_trans [OF _ r(2), of w] refused by (simp add: closer_def)
  have "((nat (dl_at d - os_clock env w2), patience w2), nat (dl_at d - os_clock env w), patience w) \<in> less_than <*lex*> less_than"
    by (rule closer_less [OF c]) (use r(2) refused in \<open>auto simp: closer_def max_def split: if_splits\<close>)
  with r c that show thesis by blast
qed

text \<open>\<open>call\<close> is what a round comes to: a result, or the next round in a later world.\<close>

lemma rounds_return:
  assumes step: "\<And>w err. (\<exists>r. call w err = Some r \<and> good w r)
      \<or> (\<exists>w2 err2. call w err = call w2 err2 \<and> closer clock patience d w w2
          \<and> ((nat (dl_at d - clock w2), patience w2), nat (dl_at d - clock w), patience w) \<in> less_than <*lex*> less_than)"
    and good: "\<And>w w2 r. closer clock patience d w w2 \<Longrightarrow> good w2 r \<Longrightarrow> good w r"
  shows "\<exists>r. call w err = Some r \<and> good w r"
proof (induction "(nat (dl_at d - clock w), patience w)" arbitrary: err w
    rule: wf_induct_rule [OF wf_lex_prod [OF wf_less_than wf_less_than]])
  case 1
  from step [of w err] show ?case
  proof
    assume "\<exists>w2 err2. call w err = call w2 err2 \<and> closer clock patience d w w2
          \<and> ((nat (dl_at d - clock w2), patience w2), nat (dl_at d - clock w), patience w) \<in> less_than <*lex*> less_than"
    then obtain w2 err2 where n: "call w err = call w2 err2" "closer clock patience d w w2"
      "((nat (dl_at d - clock w2), patience w2), nat (dl_at d - clock w), patience w) \<in> less_than <*lex*> less_than" by blast
    from 1 [OF n(3), of err2] n(1) good [OF n(2)] show ?thesis by metis
  qed
qed

text \<open>A result in time: the clock is not past the deadline, and at it after a timeout.\<close>

definition in_time :: "('o \<Rightarrow> zuh_millis) \<Rightarrow> ('o \<Rightarrow> nat) \<Rightarrow> zuh_deadline \<Rightarrow> 'o \<Rightarrow> int \<Rightarrow> zuh_error \<Rightarrow> 'o \<Rightarrow> bool" where
  "in_time clock patience d w k err' w' \<longleftrightarrow>
     closer clock patience d w w' \<and> (k < 0 \<and> err_code err' = ZUH_ERR_TIMEOUT \<longrightarrow> dl_at d \<le> clock w')"

lemma immediate_round:
  "immediate env patience True w w1 \<Longrightarrow> closer (os_clock env) patience d w w1
     \<and> ((nat (dl_at d - os_clock env w1), patience w1), nat (dl_at d - os_clock env w), patience w) \<in> less_than <*lex*> less_than"
  by (auto simp: immediate_def closer_def)

lemma net_read_returns:
  assumes time: "well_timed env patience (ni_opts m)" and d: "\<not> dl_infinite d"
  shows "\<exists>r. net_read env m n d err w = Some r \<and> (case r of (k, data, err', w') \<Rightarrow> in_time (os_clock env) patience d w k err' w')"
proof (rule rounds_return [where call = "\<lambda>w err. net_read env m n d err w" and clock = "os_clock env" and patience = patience
      and good = "\<lambda>w r. case r of (k, data, err', w') \<Rightarrow> in_time (os_clock env) patience d w k err' w'"])
  fix w err
  let ?good = "\<lambda>r. case r of (k, data, err', w') \<Rightarrow> in_time (os_clock env) patience d w k err' w'"
  obtain r e w1 where q: "os_recv env (ni_fd m) n w = (r, e, w1)" by (rule prod_cases3)
  have q1: "immediate env patience (r = None) w w1" by (rule timed_recv [OF time q])
  then have c: "closer (os_clock env) patience d w w1" by (auto simp: immediate_def closer_def)
  consider data where "r = Some data" | "r = None" "e = ZUH_EINTR" | "r = None" "e \<noteq> ZUH_EINTR" "e \<noteq> ZUH_EWOULDBLOCK"
    | "r = None" "e \<noteq> ZUH_EINTR" "e = ZUH_EWOULDBLOCK" by blast
  then show "(\<exists>r. net_read env m n d err w = Some r \<and> ?good r)
      \<or> (\<exists>w2 err2. net_read env m n d err w = net_read env m n d err2 w2 \<and> closer (os_clock env) patience d w w2
          \<and> ((nat (dl_at d - os_clock env w2), patience w2), nat (dl_at d - os_clock env w), patience w) \<in> less_than <*lex*> less_than)"
  proof cases
    case 1
    with q c show ?thesis by (intro disjI1) (subst net_read.simps, simp add: in_time_def)
  next
    case 2
    with q have "net_read env m n d err w = net_read env m n d err w1" by (subst net_read.simps) simp
    with immediate_round [of env patience w w1 d] q1 2(1) show ?thesis by auto
  next
    case 3
    with q c show ?thesis by (intro disjI1) (subst net_read.simps, simp add: in_time_def)
  next
    case 4
    with q1 have "os_clock env w1 = os_clock env w" "patience w1 < patience w" by (auto simp: immediate_def)
    from refused_round [OF time d this, of False err] obtain rc err' w2 where
      r: "wait_ready env m False d err w1 = Some (rc, err', w2)" "closer (os_clock env) patience d w w2"
        "rc \<noteq> ZUH_OK \<longrightarrow> err_code err' = rc" "rc = ZUH_ERR_TIMEOUT \<longrightarrow> dl_at d \<le> os_clock env w2"
        "((nat (dl_at d - os_clock env w2), patience w2), nat (dl_at d - os_clock env w), patience w) \<in> less_than <*lex*> less_than"
      by metis
    have "net_read env m n d err w
        = (if rc \<noteq> ZUH_OK then Some (-1, [], err'\<lparr>err_phase := ZUH_PHASE_READ\<rparr>, w2) else net_read env m n d err' w2)"
      using q 4 r(1) by (subst net_read.simps) (simp add: ZUH_EINTR_def ZUH_EWOULDBLOCK_def)
    with r show ?thesis by (cases "rc = ZUH_OK") (auto simp: in_time_def)
  qed
qed (auto simp: in_time_def intro: closer_trans)

lemma net_write_returns:
  assumes time: "well_timed env patience (ni_opts m)" and d: "\<not> dl_infinite d"
  shows "\<exists>r. net_write env m buf d err w = Some r \<and> (case r of (k, err', w') \<Rightarrow> in_time (os_clock env) patience d w k err' w')"
proof (rule rounds_return [where call = "\<lambda>w err. net_write env m buf d err w" and clock = "os_clock env" and patience = patience
      and good = "\<lambda>w r. case r of (k, err', w') \<Rightarrow> in_time (os_clock env) patience d w k err' w'"])
  fix w err
  let ?good = "\<lambda>r. case r of (k, err', w') \<Rightarrow> in_time (os_clock env) patience d w k err' w'"
  obtain k e w1 where q: "os_send env (ni_fd m) buf w = (k, e, w1)" by (rule prod_cases3)
  have q1: "immediate env patience (k < 0) w w1" by (rule timed_send [OF time q])
  then have c: "closer (os_clock env) patience d w w1" by (auto simp: immediate_def closer_def)
  consider "k \<ge> 0" | "k < 0" "e = ZUH_EINTR" | "k < 0" "e \<noteq> ZUH_EINTR" "e \<noteq> ZUH_EWOULDBLOCK"
    | "k < 0" "e \<noteq> ZUH_EINTR" "e = ZUH_EWOULDBLOCK" by linarith
  then show "(\<exists>r. net_write env m buf d err w = Some r \<and> ?good r)
      \<or> (\<exists>w2 err2. net_write env m buf d err w = net_write env m buf d err2 w2 \<and> closer (os_clock env) patience d w w2
          \<and> ((nat (dl_at d - os_clock env w2), patience w2), nat (dl_at d - os_clock env w), patience w) \<in> less_than <*lex*> less_than)"
  proof cases
    case 1
    with q c show ?thesis by (intro disjI1) (subst net_write.simps, simp add: in_time_def)
  next
    case 2
    with q have "net_write env m buf d err w = net_write env m buf d err w1" by (subst net_write.simps) simp
    with immediate_round [of env patience w w1 d] q1 2(1) show ?thesis by auto
  next
    case 3
    with q c show ?thesis by (intro disjI1) (subst net_write.simps, simp add: in_time_def)
  next
    case 4
    with q1 have "os_clock env w1 = os_clock env w" "patience w1 < patience w" by (auto simp: immediate_def)
    from refused_round [OF time d this, of True err] obtain rc err' w2 where
      r: "wait_ready env m True d err w1 = Some (rc, err', w2)" "closer (os_clock env) patience d w w2"
        "rc \<noteq> ZUH_OK \<longrightarrow> err_code err' = rc" "rc = ZUH_ERR_TIMEOUT \<longrightarrow> dl_at d \<le> os_clock env w2"
        "((nat (dl_at d - os_clock env w2), patience w2), nat (dl_at d - os_clock env w), patience w) \<in> less_than <*lex*> less_than"
      by metis
    have "net_write env m buf d err w
        = (if rc \<noteq> ZUH_OK then Some (-1, err'\<lparr>err_phase := ZUH_PHASE_WRITE\<rparr>, w2) else net_write env m buf d err' w2)"
      using q 4 r(1) by (subst net_write.simps) (simp add: ZUH_EINTR_def ZUH_EWOULDBLOCK_def)
    with r show ?thesis by (cases "rc = ZUH_OK") (auto simp: in_time_def)
  qed
qed (auto simp: in_time_def intro: closer_trans)

text \<open>
  C11: no read or write outlasts its deadline. With a finite deadline, and a system that does not refuse or
  interrupt for ever within one millisecond, a TCP read or write returns, the clock then shows no
  more than the deadline (or the time it began, when that was later), and a timeout is reported only once
  the deadline has come.
\<close>
theorem net_io_meets_deadline:
  assumes "well_timed env patience (ni_opts m)" and "\<not> dl_infinite d"
  shows "\<exists>k data err1 w1 k2 err2 w2. net_read env m n d err w = Some (k, data, err1, w1) \<and> net_write env m buf d err w = Some (k2, err2, w2)
    \<and> os_clock env w \<le> os_clock env w1 \<and> os_clock env w1 \<le> max (os_clock env w) (dl_at d)
    \<and> os_clock env w \<le> os_clock env w2 \<and> os_clock env w2 \<le> max (os_clock env w) (dl_at d)
    \<and> (k < 0 \<and> err_code err1 = ZUH_ERR_TIMEOUT \<longrightarrow> dl_at d \<le> os_clock env w1)
    \<and> (k2 < 0 \<and> err_code err2 = ZUH_ERR_TIMEOUT \<longrightarrow> dl_at d \<le> os_clock env w2)"
  using net_read_returns [OF assms, of n err w] net_write_returns [OF assms, of buf err w]
  by (fastforce simp: in_time_def closer_def)

section \<open>An example\<close>

text \<open>
  A system whose world is the open descriptors, the number of address lists, the clock and how often it still
  refuses a read or write. An address is whether it accepts.
\<close>

definition example_os :: "(int list \<times> nat \<times> int \<times> nat, bool) net_env" where
  "example_os = \<lparr>os_clock = (\<lambda>(l, n, t, p). t),
     os_poll = (\<lambda>fd b ms (l, n, t, p). (1, 0, (l, n, t + max 0 ms, p))),
     os_recv = (\<lambda>fd k (l, n, t, p). if p = 0 then (Some (take k ''pong''), 0, (l, n, t, p)) else (None, 11, (l, n, t, p - 1))),
     os_send = (\<lambda>fd buf (l, n, t, p). if p = 0 then (int (length buf), 0, (l, n, t, p)) else (-1, 11, (l, n, t, p - 1))),
     os_close = (\<lambda>fd (l, n, t, p). (filter (\<lambda>x. x \<noteq> fd) l, n, t, p)),
     os_getaddrinfo = (\<lambda>h q (l, n, t, p). (0, [False, True], (l, Suc n, t, p))),
     os_freeaddrinfo = (\<lambda>res (l, n, t, p). (l, n - 1, t, p)),
     os_socket = (\<lambda>a (l, n, t, p). (foldr max l 0 + 1, ((foldr max l 0 + 1) # l, n, t, p))),
     os_getfl = (\<lambda>fd w. (0, w)), os_setfl_nonblock = (\<lambda>fd fl w. (0, w)), os_nodelay = (\<lambda>fd w. w),
     os_connect = (\<lambda>fd a w. (if a then 0 else -1, 111, w)), os_soerror = (\<lambda>fd w. (0, 0, w)),
     os_nameinfo = (\<lambda>a w. (Some ''192.0.2.1'', w))\<rparr>"

definition example_fds :: "int list \<times> nat \<times> int \<times> nat \<Rightarrow> int set" where
  "example_fds w = set (fst w)"

definition example_infos :: "int list \<times> nat \<times> int \<times> nat \<Rightarrow> nat" where
  "example_infos w = fst (snd w)"

definition example_patience :: "int list \<times> nat \<times> int \<times> nat \<Rightarrow> nat" where
  "example_patience w = snd (snd (snd w))"

lemma foldr_max_ge: "(x :: int) \<in> set l \<Longrightarrow> x \<le> foldr max l 0"
  by (induction l) auto

lemma foldr_max_0: "0 \<le> foldr max l (0 :: int)"
  by (induction l) auto

lemma example_tracks: "tracks example_os example_fds example_infos"
proof -
  have "foldr max l 0 + 1 \<notin> set l" "foldr max l 0 + 1 \<noteq> (-1 :: int)" for l :: "int list"
    using foldr_max_ge [of "foldr max l 0 + 1" l] foldr_max_0 [of l] by auto
  then show ?thesis
    by (auto simp: tracks_def quiet_calls_def same_held_def example_os_def example_fds_def example_infos_def ZUH_INVALID_SOCK_def)
qed

lemma example_timed: "well_timed example_os example_patience zuh_net_opts_init"
  by (auto simp: well_timed_def immediate_def example_os_def example_patience_def zuh_net_opts_init_def split: if_splits)

lemma example_os_simps [simp]:
  "os_clock example_os (l, n, t, p) = t" "os_close example_os fd (l, n, t, p) = (filter (\<lambda>x. x \<noteq> fd) l, n, t, p)"
  "os_getaddrinfo example_os hst q (l, n, t, p) = (0, [False, True], (l, Suc n, t, p))"
  "os_freeaddrinfo example_os res (l, n, t, p) = (l, n - 1, t, p)"
  "os_socket example_os a (l, n, t, p) = (foldr max l 0 + 1, ((foldr max l 0 + 1) # l, n, t, p))"
  "os_getfl example_os fd w = (0, w)" "os_setfl_nonblock example_os fd fl w = (0, w)" "os_nodelay example_os fd w = w"
  "os_connect example_os fd a w = (if a then 0 else -1, 111, w)" "os_nameinfo example_os a w = (Some ''192.0.2.1'', w)"
  by (simp_all add: example_os_def)

lemma example_callocs:
  "zuh_calloc 1 SIZEOF_NET_STREAM fresh_heap = (True, note_alloc SIZEOF_NET_STREAM fresh_heap)"
  "zuh_calloc 1 SIZEOF_NET_IMPL (note_alloc k fresh_heap) = (True, note_alloc SIZEOF_NET_IMPL (note_alloc k fresh_heap))"
  by (simp_all add: zuh_calloc_def zuh_size_mul_def zuh_alloc_plenty SIZEOF_NET_STREAM_def SIZEOF_NET_IMPL_def SIZE_MAX_def ZUH_HDR_def)

lemma example_first:
  assumes "no_trace (ni_opts m0) = None"
  shows "\<exists>m e'. try_address example_os ''h'' 80 d False m0 e ([], n, t, p) = Some (Declined, m, e', ([], n, t, p))
    \<and> no_trace (ni_opts m) = None \<and> err_code e' = ZUH_ERR_CONNECT"
  using assms by (simp add: try_address_def ZUH_INVALID_SOCK_def set_nonblocking_def trace_impl_def net_trace_def give_up_def
      ZUH_EINPROGRESS_def ZUH_EWOULDBLOCK_def)

lemma example_second:
  assumes "no_trace (ni_opts m0) = None"
  shows "\<exists>m. try_address example_os ''h'' 80 d True m0 e ([], n, t, p) = Some (Connected, m, e, ([1], n, t, p)) \<and> ni_fd m = 1"
  using assms by (simp add: try_address_def ZUH_INVALID_SOCK_def set_nonblocking_def trace_impl_def net_trace_def connected_def
      record_peer_def)

lemma example_connect:
  "\<exists>m ptrs err' w' h'. zuh_net_connect example_os ''h'' 80 zuh_deadline_never None no_error ([], 0, 5, 0) fresh_heap
      = Some (ZUH_OK, Some m, ptrs, err', w', h') \<and> err_code err' = ZUH_ERR_CONNECT"
proof -
  let ?o = "zuh_net_opts_init :: (int list \<times> nat \<times> int \<times> nat) zuh_net_opts"
  let ?m = "\<lparr>ni_fd = ZUH_INVALID_SOCK, ni_opts = ?o, ni_peer = []\<rparr>"
  have r: "resolve_host example_os ''h'' 80 ?o ([], 0, 5, 0) = ([False, True], ?o, ([], 1, 5, 0))"
    by (simp add: resolve_host_def Let_def net_trace_def timed_def zuh_net_opts_init_def)
  obtain m1 e1 where f: "try_address example_os ''h'' 80 zuh_deadline_never False ?m no_error ([], 1, 5, 0)
      = Some (Declined, m1, e1, ([], 1, 5, 0))" "no_trace (ni_opts m1) = None" "err_code e1 = ZUH_ERR_CONNECT"
    using example_first [of ?m zuh_deadline_never no_error 1 5 0] by (auto simp: zuh_net_opts_init_def)
  obtain m2 where g: "try_address example_os ''h'' 80 zuh_deadline_never True m1 e1 ([], 1, 5, 0) = Some (Connected, m2, e1, ([1], 1, 5, 0))"
    using example_second [OF f(2)] by blast
  have l: "connect_loop example_os ''h'' 80 zuh_deadline_never [False, True] ZUH_ERR_CONNECT ?m no_error ([], 1, 5, 0)
      = Some (None, ZUH_OK, m2, e1, ([1], 1, 5, 0))"
    using f(1) g by simp
  have t: "no_tick_ms ?o = 100" by (simp add: zuh_net_opts_init_def)
  show ?thesis
    using f(3) by (simp add: zuh_net_connect_def r l example_callocs connect_end_def Let_def t del: connect_loop.simps One_nat_def)
qed

text \<open>
  The error of an address that failed is still set when a later one connects, so a failure after that which
  sets no error of its own is reported with this code and message.
\<close>

lemma net_connect_leaves_stale_error:
  "\<exists>m ptrs err' w' h'. zuh_net_connect example_os ''h'' 80 zuh_deadline_never None no_error ([], 0, 5, 0) fresh_heap
      = Some (ZUH_OK, Some m, ptrs, err', w', h') \<and> err_code err' \<noteq> ZUH_OK"
  using example_connect by fastforce

lemma net_connect_leaks_nothing_witness:
  "\<exists>m ptrs err' w' h'. zuh_net_connect example_os ''h'' 80 zuh_deadline_never None no_error ([], 0, 5, 0) fresh_heap
      = Some (ZUH_OK, Some m, ptrs, err', w', h') \<and> example_fds w' = {ni_fd m} \<and> example_infos w' = 0"
proof -
  obtain m ptrs err' w' h' where c: "zuh_net_connect example_os ''h'' 80 zuh_deadline_never None no_error ([], 0, 5, 0) fresh_heap
      = Some (ZUH_OK, Some m, ptrs, err', w', h')"
    using example_connect by blast
  from net_connect_leaks_nothing [OF example_tracks _ c] c show ?thesis
    by (auto simp: example_fds_def example_infos_def)
qed

lemma net_io_meets_deadline_witness:
  "\<exists>k data err' w'. net_read example_os \<lparr>ni_fd = 1, ni_opts = zuh_net_opts_init, ni_peer = []\<rparr> 10 (zuh_deadline_at 50) no_error ([1], 0, 5, 3)
      = Some (k, data, err', w') \<and> os_clock example_os w' \<le> 50"
  using net_io_meets_deadline [of example_os example_patience "\<lparr>ni_fd = 1, ni_opts = zuh_net_opts_init, ni_peer = []\<rparr>"
      "zuh_deadline_at 50" 10 no_error "([1], 0, 5, 3)" "[]"] example_timed
  by (auto simp: zuh_deadline_at_def)

end
