(* ===== verification/Zuh_Conn.thy ===== *)
theory Zuh_Conn
  imports Zuh_H2 Zuh_Trace
begin

text \<open>
  \<^verbatim>\<open>src/zuh_engine.c\<close>, the connection of one hop: the pool or a new transport, the CONNECT tunnel, TLS, the
  choice of the protocol, the response head, and giving the connection back. The transports below (TCP, the TLS
  backends, the dial seam of the tests) are parameters that answer with a stream state; they act on one
  world, which the pool's probes act on too. A connection is a value that the operations thread. The clock is
  read off the world, or off the transport once there is one. The tick of the options is part of the transports.
\<close>

section \<open>The state of the engine\<close>

record zuh_tls_info =
  ti_protocol :: bytes
  ti_cipher :: bytes
  ti_trust_backend :: bytes
  ti_reused_session :: bool
  ti_alpn :: bytes

text \<open>What a transport call returns besides its code: the stream, and the options' log and timings.\<close>

type_synonym 's opened = "'s option \<times> zuh_trace option \<times> zuh_timings"

record ('s, 'n, 'b, 'w) eng_env =
  ev_h2 :: "('s, 'n, 'b) h2_env"
  ev_pool :: "(('s, 'n, 'b) zuh_conn, 'w) pool_env"
  ev_now :: "'w \<Rightarrow> zuh_millis"
  ev_dial :: "(bytes \<Rightarrow> 16 word \<Rightarrow> zuh_error \<Rightarrow> 'w \<Rightarrow> heap \<Rightarrow> zuh_code \<times> 's option \<times> zuh_error \<times> 'w \<times> heap) option"
  ev_net_connect :: "bytes \<Rightarrow> 16 word \<Rightarrow> zuh_deadline \<Rightarrow> zuh_trace option \<Rightarrow> zuh_timings \<Rightarrow> zuh_error \<Rightarrow> 'w \<Rightarrow> heap
    \<Rightarrow> zuh_code \<times> 's opened \<times> zuh_error \<times> 'w \<times> heap"
  ev_net_peer_ip :: "'s \<Rightarrow> bytes option"
  ev_tls_available :: bool
  ev_tls_caps :: caps
  ev_tls_connect :: "'s \<Rightarrow> bytes \<Rightarrow> zuh_tls_config \<Rightarrow> zuh_deadline \<Rightarrow> zuh_error \<Rightarrow> 'w \<Rightarrow> heap
    \<Rightarrow> zuh_code \<times> 's \<times> zuh_error \<times> 'w \<times> heap"
  ev_tls_dial :: "bytes \<Rightarrow> 16 word \<Rightarrow> zuh_proxy option \<Rightarrow> zuh_tls_config \<Rightarrow> zuh_deadline \<Rightarrow> zuh_trace option \<Rightarrow> zuh_timings \<Rightarrow> zuh_error \<Rightarrow> 'w \<Rightarrow> heap
    \<Rightarrow> zuh_code \<times> 's opened \<times> zuh_error \<times> 'w \<times> heap"
  ev_tls_peer_ip :: "'s \<Rightarrow> bytes option"
  ev_tls_info :: "'s \<Rightarrow> zuh_tls_info option"

text \<open>
  The log is not in the code. Of a connection: a new one was opened or a pooled one taken, one was closed and
  freed (with the state that left its transport in), or handed to the pool with a verdict. Of a request: it
  was built with these headers, perhaps with a streamed body; the caller's body function was released.
\<close>

datatype ('s, 'n, 'b) eng_event =
    Connected
  | Reused
  | Dropped "('s, 'n, 'b) zuh_conn" 's
  | Released "('s, 'n, 'b) zuh_conn" zuh_reuse
  | Asked bytes zuh_uri zuh_headers bool
  | Source_Released

record ('s, 'n, 'b, 'w) eng =
  eg_heap :: heap
  eg_pool :: "(('s, 'n, 'b) zuh_conn, 'w) zuh_pool option"
  eg_trace :: "zuh_trace option"
  eg_world :: 'w
  eg_log :: "('s, 'n, 'b) eng_event list"

definition ZUH_MAX_HEADER_BYTES :: nat where
  "ZUH_MAX_HEADER_BYTES = 65536"

definition ZUH_TLS_CAP_DIALS :: caps where
  "ZUH_TLS_CAP_DIALS = 0x20"

text \<open>The result of a request; the type of the unread body is a parameter, since that body is built on connections.\<close>

record 'o zuh_result =
  rz_status :: int
  rz_headers :: zuh_headers
  rz_body :: zuh_buffer
  rz_final_url :: "bytes option"
  rz_tls_version :: "bytes option"
  rz_tls_cipher :: "bytes option"
  rz_redirects :: nat
  rz_remote_ip :: "bytes option"
  rz_trust_backend :: "bytes option"
  rz_http_version :: int
  rz_http_major :: int
  rz_trailers :: zuh_headers
  rz_open :: "'o option"
  rz_proxy_used :: bool
  rz_reused_connection :: bool
  rz_timings :: zuh_timings

definition zuh_result_init :: "'o zuh_result" where
  "zuh_result_init =
     \<lparr>rz_status = 0, rz_headers = zuh_headers_init, rz_body = zeroed_buffer, rz_final_url = None, rz_tls_version = None,
      rz_tls_cipher = None, rz_redirects = 0, rz_remote_ip = None, rz_trust_backend = None, rz_http_version = 0,
      rz_http_major = 0, rz_trailers = zuh_headers_init, rz_open = None, rz_proxy_used = False,
      rz_reused_connection = False, rz_timings = zuh_timings_init\<rparr>"

definition log_event :: "('s, 'n, 'b) eng_event \<Rightarrow> ('s, 'n, 'b, 'w) eng \<Rightarrow> ('s, 'n, 'b, 'w) eng" where
  "log_event e g = g\<lparr>eg_log := eg_log g @ [e]\<rparr>"

definition trace_event ::
    "zuh_millis \<Rightarrow> zuh_event \<Rightarrow> bytes option \<Rightarrow> u64 \<Rightarrow> ('s, 'n, 'b, 'w) eng \<Rightarrow> ('s, 'n, 'b, 'w) eng" where
  "trace_event now e detail n g = g\<lparr>eg_trace := map_option (\<lambda>t. zuh_trace_add now t e detail n) (eg_trace g)\<rparr>"

text \<open>The pool works on the same heap and world.\<close>

definition enter_pool ::
    "('s, 'n, 'b, 'w) eng \<Rightarrow> (('s, 'n, 'b) zuh_conn, 'w) zuh_pool \<Rightarrow> (('s, 'n, 'b) zuh_conn, 'w) zuh_pool" where
  "enter_pool g p = p\<lparr>pl_heap := eg_heap g, pl_world := eg_world g\<rparr>"

definition leave_pool ::
    "(('s, 'n, 'b) zuh_conn, 'w) zuh_pool \<Rightarrow> ('s, 'n, 'b, 'w) eng \<Rightarrow> ('s, 'n, 'b, 'w) eng" where
  "leave_pool p g = g\<lparr>eg_pool := Some p, eg_heap := pl_heap p, eg_world := pl_world p\<rparr>"

section \<open>Giving a connection up\<close>

text \<open>Closed, then freed.\<close>

definition drop_stream :: "('s, 'n, 'b, 'w) eng_env \<Rightarrow> ('s, 'n, 'b) zuh_conn option \<Rightarrow> ('s, 'n, 'b, 'w) eng \<Rightarrow> ('s, 'n, 'b, 'w) eng" where
  "drop_stream env s g =
     (let h2 = ev_h2 env in
      case s of
        None \<Rightarrow> g
      | Some (Transport s) \<Rightarrow> log_event (Dropped (Transport s) (zuh_stream_free (he_vt h2) (zuh_stream_close (he_vt h2) s))) g
      | Some (H2 i) \<Rightarrow>
          (case h2_destroy h2 (h2_close h2 i) (eg_heap g) of (s, h) \<Rightarrow> log_event (Dropped (H2 i) s) (g\<lparr>eg_heap := h\<rparr>)))"

definition pool_release ::
    "('s, 'n, 'b, 'w) eng_env \<Rightarrow> zuh_pool_key \<Rightarrow> ('s, 'n, 'b) zuh_conn \<Rightarrow> zuh_reuse \<Rightarrow> (('s, 'n, 'b) zuh_conn, 'w) zuh_pool
     \<Rightarrow> ('s, 'n, 'b, 'w) eng \<Rightarrow> ('s, 'n, 'b, 'w) eng" where
  "pool_release env k s r p g =
     log_event (Released s r) (leave_pool (zuh_pool_release (ev_pool env) k s r (enter_pool g p)) g)"

definition done_with_stream ::
    "('s, 'n, 'b, 'w) eng_env \<Rightarrow> zuh_get_opts \<Rightarrow> zuh_uri \<Rightarrow> zuh_proxy \<Rightarrow> ('s, 'n, 'b) zuh_conn option \<Rightarrow> zuh_reuse
     \<Rightarrow> ('s, 'n, 'b, 'w) eng \<Rightarrow> ('s, 'n, 'b, 'w) eng" where
  "done_with_stream env opts u px s r g =
     (case s of
        None \<Rightarrow> g
      | Some c \<Rightarrow>
          (case eg_pool g of
             None \<Rightarrow> drop_stream env s g
           | Some p \<Rightarrow>
               (case zuh_engine_pool_key u opts (Some px) (eg_heap g) of
                  (None, h) \<Rightarrow> drop_stream env s (g\<lparr>eg_heap := h\<rparr>)
                | (Some k, h) \<Rightarrow>
                    let g = pool_release env k c r p (g\<lparr>eg_heap := h\<rparr>) in g\<lparr>eg_heap := zuh_pool_key_free k (eg_heap g)\<rparr>)))"

section \<open>Opening a connection\<close>

definition record_tls_info ::
    "('s, 'n, 'b, 'w) eng_env \<Rightarrow> 's \<Rightarrow> 'o zuh_result \<Rightarrow> heap \<Rightarrow> 'o zuh_result \<times> heap" where
  "record_tls_info env s res h =
     (case ev_tls_info env s of
        None \<Rightarrow> (res, h)
      | Some info \<Rightarrow>
          let h = zuh_free (str_block (rz_trust_backend res)) (zuh_free (str_block (rz_tls_cipher res))
                 (zuh_free (str_block (rz_tls_version res)) h))
          in case dup_cstr (Some (ti_protocol info)) h of (v, h) \<Rightarrow>
             case dup_cstr (Some (ti_cipher info)) h of (c, h) \<Rightarrow>
             case dup_cstr (Some (ti_trust_backend info)) h of (t, h) \<Rightarrow>
             (res\<lparr>rz_tls_version := v, rz_tls_cipher := c, rz_trust_backend := t\<rparr>, h))"

definition record_ip :: "bytes option \<Rightarrow> 'o zuh_result \<Rightarrow> heap \<Rightarrow> 'o zuh_result \<times> heap" where
  "record_ip ip res h =
     (case ip of
        None \<Rightarrow> (res, h)
      | Some ip \<Rightarrow>
          (case dup_cstr (Some ip) (zuh_free (str_block (rz_remote_ip res)) h) of (d, h) \<Rightarrow> (res\<lparr>rz_remote_ip := d\<rparr>, h)))"

text \<open>
  The CONNECT tunnel. The loop reads until the response is complete; its results are the code, how many
  bytes the response took, the bytes read, the stream, the error and the heap.
\<close>

type_synonym 's tunnel_result = "zuh_code \<times> nat \<times> zuh_buffer \<times> 's \<times> zuh_error \<times> heap"

partial_function (option) tunnel_loop ::
    "('s, 'n, 'b) h2_env \<Rightarrow> zuh_buffer \<Rightarrow> 's \<Rightarrow> zuh_deadline \<Rightarrow> zuh_error \<Rightarrow> heap \<Rightarrow> 's tunnel_result option" where
  "tunnel_loop env raw s dl err h =
     (case zuh_proxy_connect_response (buf_data raw) err h of (rc, consumed, status, err, h) \<Rightarrow>
      if rc \<noteq> ZUH_ERR_WOULDBLOCK then Some (rc, consumed, raw, s, err, h)
      else if length (buf_data raw) \<ge> ZUH_MAX_HEADER_BYTES then
        Some (ZUH_ERR_PROXY, consumed, raw, s,
          zuh_error_set err ZUH_ERR_PROXY ZUH_PHASE_CONNECT ''proxy CONNECT response header block is too large'', h)
      else case zuh_stream_read (he_vt env) s ZUH_READ_CHUNK dl err of (n, data, s, err) \<Rightarrow>
        if n < 0 then Some (err_code err, consumed, raw, s, err, h)
        else if n = 0 then
          Some (ZUH_ERR_PROXY, consumed, raw, s,
            zuh_error_set err ZUH_ERR_PROXY ZUH_PHASE_CONNECT ''proxy closed the connection during CONNECT'', h)
        else case zuh_buf_append data (raw, h) of (ok, raw, h) \<Rightarrow>
          if \<not> ok then Some (ZUH_ERR_NOMEM, consumed, raw, s, err, h) else tunnel_loop env raw s dl err h)"

text \<open>The first half: the request is built and written.\<close>

definition tunnel_request ::
    "('s, 'n, 'b) h2_env \<Rightarrow> 's \<Rightarrow> zuh_proxy \<Rightarrow> zuh_uri \<Rightarrow> zuh_deadline \<Rightarrow> zuh_error \<Rightarrow> heap
     \<Rightarrow> (zuh_code \<times> 's \<times> zuh_error \<times> heap) option" where
  "tunnel_request env s px target dl err h =
     (case zuh_buf_init 256 0 h of (ok, req, h) \<Rightarrow>
      if \<not> ok then Some (ZUH_ERR_NOMEM, s, err, h)
      else case zuh_proxy_connect_request px target (req, h) err of (rc, (req, h), err) \<Rightarrow>
        if rc \<noteq> ZUH_OK then Some (rc, s, err, snd (zuh_buf_free req h))
        else (case zuh_stream_write_all (he_vt env) (he_clock env) s (buf_data req) dl err of
                None \<Rightarrow> None
              | Some (sent, s, err) \<Rightarrow>
                  Some (if sent then ZUH_OK else if err_code err \<noteq> ZUH_OK then err_code err else ZUH_ERR_IO,
                        s, err, snd (zuh_buf_free req h))))"

definition proxy_tunnel ::
    "('s, 'n, 'b) h2_env \<Rightarrow> 's \<Rightarrow> zuh_proxy \<Rightarrow> zuh_uri \<Rightarrow> zuh_deadline \<Rightarrow> zuh_error \<Rightarrow> heap
     \<Rightarrow> (zuh_code \<times> 's \<times> zuh_error \<times> heap) option" where
  "proxy_tunnel env s px target dl err h =
     (case tunnel_request env s px target dl err h of
        None \<Rightarrow> None
      | Some (rc, s, err, h) \<Rightarrow>
          if rc \<noteq> ZUH_OK then Some (rc, s, err, h)
          else case zuh_buf_init 1024 ZUH_MAX_HEADER_BYTES h of (ok, raw, h) \<Rightarrow>
            if \<not> ok then Some (ZUH_ERR_NOMEM, s, err, h)
            else (case tunnel_loop env raw s dl err h of
                    None \<Rightarrow> None
                  | Some (rc, consumed, raw, s, err, h) \<Rightarrow>
                      let over = (rc = ZUH_OK \<and> length (buf_data raw) > consumed);
                          err = (if over then zuh_error_set err ZUH_ERR_PROXY ZUH_PHASE_CONNECT
                            (''proxy sent '' @ show_nat (length (buf_data raw) - consumed) @ '' unexpected bytes after CONNECT'') else err)
                      in Some (if over then ZUH_ERR_PROXY else rc, s, err, snd (zuh_buf_free raw h))))"

type_synonym ('s, 'n, 'b, 'w, 'o) open_reply =
  "zuh_code \<times> ('s, 'n, 'b) zuh_conn option \<times> 'o zuh_result \<times> zuh_error \<times> ('s, 'n, 'b, 'w) eng"

text \<open>A backend that dials opens HTTPS itself.\<close>

definition open_dialled ::
    "('s, 'n, 'b, 'w) eng_env \<Rightarrow> zuh_uri \<Rightarrow> zuh_get_opts \<Rightarrow> zuh_proxy \<Rightarrow> zuh_deadline \<Rightarrow> 'o zuh_result \<Rightarrow> zuh_error
     \<Rightarrow> ('s, 'n, 'b, 'w) eng \<Rightarrow> ('s, 'n, 'b, 'w, 'o) open_reply" where
  "open_dialled env u opts px dl res err g =
     (let t0 = ev_now env (eg_world g) in
      case ev_tls_dial env (the (u_host u)) (u_port u) (if px_in_use px then Some px else None) (tls_cfg_for opts) dl
             (eg_trace g) (rz_timings res) err (eg_world g) (eg_heap g) of
        (rc, (out, tr, tm), err, w, h) \<Rightarrow>
      let g = g\<lparr>eg_trace := tr, eg_world := w, eg_heap := h\<rparr>;
          res = res\<lparr>rz_timings := tm\<rparr>
      in case out of
           None \<Rightarrow> (rc, None, res, err, g)
         | Some tls \<Rightarrow>
             if rc \<noteq> ZUH_OK then (rc, None, res, err, g)
             else
               let g = log_event Connected g;
                   res = (if tm_tls (rz_timings res) < 0
                          then res\<lparr>rz_timings := (rz_timings res)\<lparr>tm_tls := ev_now env (eg_world g) - t0\<rparr>\<rparr> else res)
               in case record_ip (ev_tls_peer_ip env tls) res (eg_heap g) of (res, h) \<Rightarrow>
                  case record_tls_info env tls (res\<lparr>rz_reused_connection := False, rz_proxy_used := px_in_use px\<rparr>) h of (res, h) \<Rightarrow>
                  (ZUH_OK, Some (Transport tls), res, err, g\<lparr>eg_heap := h\<rparr>))"

text \<open>A pooled connection, if the pool has one; a code other than \<^verbatim>\<open>ZUH_OK\<close> when the key could not be built.\<close>

definition from_pool ::
    "('s, 'n, 'b, 'w) eng_env \<Rightarrow> zuh_uri \<Rightarrow> zuh_get_opts \<Rightarrow> zuh_proxy \<Rightarrow> zuh_deadline \<Rightarrow> ('s, 'n, 'b, 'w) eng
     \<Rightarrow> (zuh_code \<times> ('s, 'n, 'b) zuh_conn option \<times> ('s, 'n, 'b, 'w) eng) option" where
  "from_pool env u opts px dl g =
     (case eg_pool g of
        None \<Rightarrow> Some (ZUH_OK, None, g)
      | Some p \<Rightarrow>
          (case zuh_engine_pool_key u opts (Some px) (eg_heap g) of
             (None, h) \<Rightarrow> Some (ZUH_ERR_NOMEM, None, g\<lparr>eg_heap := h\<rparr>)
           | (Some k, h) \<Rightarrow>
               (case zuh_pool_acquire_by (ev_pool env) k dl (enter_pool (g\<lparr>eg_heap := h\<rparr>) p) of
                  None \<Rightarrow> None
                | Some (c, p) \<Rightarrow>
                    let g = leave_pool p g; g = g\<lparr>eg_heap := zuh_pool_key_free k (eg_heap g)\<rparr>
                    in Some (ZUH_OK, c, if c = None then g else log_event Reused g))))"

definition note_reused ::
    "('s, 'n, 'b, 'w) eng_env \<Rightarrow> zuh_uri \<Rightarrow> zuh_proxy \<Rightarrow> ('s, 'n, 'b) zuh_conn \<Rightarrow> 'o zuh_result \<Rightarrow> ('s, 'n, 'b, 'w) eng
     \<Rightarrow> 'o zuh_result \<times> ('s, 'n, 'b, 'w) eng" where
  "note_reused env u px c res g =
     (let t = zuh_h2_transport c in
      case (if u_is_https u then record_tls_info env t res (eg_heap g) else (res, eg_heap g)) of (res, h) \<Rightarrow>
      case record_ip (case ev_tls_peer_ip env t of Some ip \<Rightarrow> Some ip | None \<Rightarrow> ev_net_peer_ip env t)
             (res\<lparr>rz_reused_connection := True, rz_proxy_used := px_in_use px\<rparr>) h of (res, h) \<Rightarrow>
      (res, trace_event (ev_now env (eg_world g)) ZUH_EV_CONNECTION_REUSED (u_host u) 0 (g\<lparr>eg_heap := h\<rparr>)))"

text \<open>TLS over a transport that is connected, and tunnelled when there is a proxy.\<close>

definition open_tls ::
    "('s, 'n, 'b, 'w) eng_env \<Rightarrow> 's \<Rightarrow> zuh_uri \<Rightarrow> zuh_get_opts \<Rightarrow> zuh_deadline \<Rightarrow> 'o zuh_result \<Rightarrow> zuh_error
     \<Rightarrow> ('s, 'n, 'b, 'w) eng \<Rightarrow> ('s, 'n, 'b, 'w, 'o) open_reply" where
  "open_tls env tcp u opts dl res err g =
     (if \<not> ev_tls_available env then
        (ZUH_ERR_TLS, None, res, zuh_error_set err ZUH_ERR_TLS ZUH_PHASE_TLS
           ''this build has no TLS backend, so https:// is unavailable'', drop_stream env (Some (Transport tcp)) g)
      else
        let t_tls = ev_now env (eg_world g);
            g = trace_event t_tls ZUH_EV_TLS_START (u_host u) 0 g
        in case ev_tls_connect env tcp (the (u_host u)) (tls_cfg_for opts) dl err (eg_world g) (eg_heap g) of (rc, s, err, w, h) \<Rightarrow>
           let g = g\<lparr>eg_world := w, eg_heap := h\<rparr>;
               res = res\<lparr>rz_timings := (rz_timings res)\<lparr>tm_tls := ev_now env w - t_tls\<rparr>\<rparr>
           in if rc \<noteq> ZUH_OK then (rc, None, res, err, drop_stream env (Some (Transport s)) g)
              else case record_tls_info env s res (eg_heap g) of (res, h) \<Rightarrow>
                (ZUH_OK, Some (Transport s), res, err,
                 trace_event (ev_now env w) ZUH_EV_TLS_DONE
                   (Some (case rz_tls_version res of Some v \<Rightarrow> v | None \<Rightarrow> ''tls'')) 0 (g\<lparr>eg_heap := h\<rparr>)))"

text \<open>A new TCP connection, to the origin or to the proxy, from the dial seam when it is set.\<close>

definition tcp_answer ::
    "('s, 'n, 'b, 'w) eng_env \<Rightarrow> bytes \<Rightarrow> 16 word \<Rightarrow> zuh_deadline \<Rightarrow> zuh_timings \<Rightarrow> zuh_error \<Rightarrow> ('s, 'n, 'b, 'w) eng
     \<Rightarrow> zuh_code \<times> 's opened \<times> zuh_error \<times> 'w \<times> heap" where
  "tcp_answer env host port dl tm err g =
     (case ev_dial env of
        Some f \<Rightarrow> (case f host port err (eg_world g) (eg_heap g) of (rc, s, err, w, h) \<Rightarrow> (rc, (s, eg_trace g, tm), err, w, h))
      | None \<Rightarrow> ev_net_connect env host port dl (eg_trace g) tm err (eg_world g) (eg_heap g))"

definition open_tcp ::
    "('s, 'n, 'b, 'w) eng_env \<Rightarrow> zuh_uri \<Rightarrow> zuh_proxy \<Rightarrow> zuh_deadline \<Rightarrow> 'o zuh_result \<Rightarrow> zuh_error
     \<Rightarrow> ('s, 'n, 'b, 'w) eng \<Rightarrow> zuh_code \<times> 's option \<times> 'o zuh_result \<times> zuh_error \<times> ('s, 'n, 'b, 'w) eng" where
  "open_tcp env u px dl res err g =
     (let host = (if px_in_use px then the (px_host px) else the (u_host u));
          port = (if px_in_use px then px_port px else u_port u)
      in case tcp_answer env host port dl (rz_timings res) err g of
           (rc, (tcp, tr, tm), err, w, h) \<Rightarrow>
         let g = g\<lparr>eg_trace := tr, eg_world := w, eg_heap := h\<rparr>;
             res = res\<lparr>rz_timings := tm\<rparr>
         in case tcp of
              None \<Rightarrow> (rc, None, res, err, g)
            | Some s \<Rightarrow> if rc \<noteq> ZUH_OK then (rc, None, res, err, g)
                else case record_ip (ev_net_peer_ip env s) res (eg_heap g) of (res, h) \<Rightarrow>
                  (ZUH_OK, Some s, res\<lparr>rz_reused_connection := False, rz_proxy_used := px_in_use px\<rparr>, err,
                   log_event Connected (g\<lparr>eg_heap := h\<rparr>)))"

text \<open>HTTPS over a TCP connection: the tunnel when there is a proxy, then TLS with the origin.\<close>

definition open_secure ::
    "('s, 'n, 'b, 'w) eng_env \<Rightarrow> 's \<Rightarrow> zuh_uri \<Rightarrow> zuh_get_opts \<Rightarrow> zuh_proxy \<Rightarrow> zuh_deadline \<Rightarrow> 'o zuh_result \<Rightarrow> zuh_error
     \<Rightarrow> ('s, 'n, 'b, 'w) eng \<Rightarrow> ('s, 'n, 'b, 'w, 'o) open_reply option" where
  "open_secure env s u opts px dl res err g =
     (case (if px_in_use px then proxy_tunnel (ev_h2 env) s px u dl err (eg_heap g) else Some (ZUH_OK, s, err, eg_heap g)) of
        None \<Rightarrow> None
      | Some (rc, s, err, h) \<Rightarrow>
          let g = g\<lparr>eg_heap := h\<rparr> in
          if rc \<noteq> ZUH_OK then Some (rc, None, res, err, drop_stream env (Some (Transport s)) g)
          else Some (open_tls env s u opts dl res err g))"

definition open_stream ::
    "('s, 'n, 'b, 'w) eng_env \<Rightarrow> zuh_uri \<Rightarrow> zuh_get_opts \<Rightarrow> zuh_proxy \<Rightarrow> zuh_deadline \<Rightarrow> 'o zuh_result \<Rightarrow> zuh_error
     \<Rightarrow> ('s, 'n, 'b, 'w) eng \<Rightarrow> ('s, 'n, 'b, 'w, 'o) open_reply option" where
  "open_stream env u opts px dl res err g =
     (case from_pool env u opts px dl g of
        None \<Rightarrow> None
      | Some (rc, c, g) \<Rightarrow>
          if rc \<noteq> ZUH_OK then Some (rc, None, res, err, g)
          else case c of
            Some c \<Rightarrow> (case note_reused env u px c res g of (res, g) \<Rightarrow> Some (ZUH_OK, Some c, res, err, g))
          | None \<Rightarrow>
            if u_is_https u \<and> ev_dial env = None \<and> ev_tls_available env \<and> has_cap (ev_tls_caps env) ZUH_TLS_CAP_DIALS then
              Some (open_dialled env u opts px dl res err g)
            else case open_tcp env u px dl res err g of (rc, tcp, res, err, g) \<Rightarrow>
              (case tcp of
                 None \<Rightarrow> Some (rc, None, res, err, g)
               | Some s \<Rightarrow>
                   if \<not> u_is_https u then Some (ZUH_OK, Some (Transport s), res, err, g)
                   else open_secure env s u opts px dl res err g))"

section \<open>The protocol\<close>

definition choose_protocol ::
    "('s, 'n, 'b, 'w) eng_env \<Rightarrow> ('s, 'n, 'b) zuh_conn \<Rightarrow> zuh_uri \<Rightarrow> zuh_get_opts \<Rightarrow> zuh_proxy \<Rightarrow> zuh_error \<Rightarrow> ('s, 'n, 'b, 'w) eng
     \<Rightarrow> zuh_code \<times> ('s, 'n, 'b) zuh_conn option \<times> bool \<times> zuh_error \<times> ('s, 'n, 'b, 'w) eng" where
  "choose_protocol env c u opts px err g =
     (case c of
        H2 i \<Rightarrow> (ZUH_OK, Some c, True, err, g)
      | Transport s \<Rightarrow>
          let want = (if u_is_https u
                then (case ev_tls_info env s of Some ti \<Rightarrow> zuh_h2_alpn_is_h2 (Some (ti_alpn ti)) | None \<Rightarrow> False)
                else go_http2 opts = ZUH_H2_REQUIRED \<and> \<not> px_in_use px);
              host = take 200 (c_string (the (u_host u)))
          in if \<not> want then
               (if go_http2 opts \<noteq> ZUH_H2_REQUIRED then (ZUH_OK, Some c, False, err, g)
                else (ZUH_ERR_CONNECT, None, False,
                  zuh_error_set err ZUH_ERR_CONNECT ZUH_PHASE_CONNECT
                    (if u_is_https u then ''HTTP/2 is required, but '' @ host @ '' did not negotiate it''
                     else ''HTTP/2 is required, but cleartext HTTP/2 to '' @ host @ '' cannot go through an HTTP proxy''),
                  drop_stream env (Some c) g))
             else case zuh_h2_wrap (ev_h2 env) s ZUH_MAX_HEADER_BYTES err (eg_heap g) of (rc, h2, err, h) \<Rightarrow>
               (case h2 of
                  Some i \<Rightarrow> (rc, Some (H2 i), True, err, g\<lparr>eg_heap := h\<rparr>)
                | None \<Rightarrow> (rc, None, False, err, drop_stream env (Some c) (g\<lparr>eg_heap := h\<rparr>))))"

definition h2_reuse :: "('s, 'n, 'b, 'w) eng_env \<Rightarrow> zuh_code \<Rightarrow> ('s, 'n, 'b) zuh_conn option \<Rightarrow> zuh_reuse" where
  "h2_reuse env rc s =
     (if rc = ZUH_ERR_TIMEOUT \<or> rc = ZUH_ERR_CANCELLED \<or> rc = ZUH_ERR_INTERRUPTED then ZUH_NOREUSE_CANCELLED
      else if rc \<noteq> ZUH_OK \<or> \<not> (case s of Some c \<Rightarrow> zuh_h2_reusable (ev_h2 env) c | None \<Rightarrow> False) then ZUH_NOREUSE_BODY_INCOMPLETE
      else ZUH_REUSE_OK)"

text \<open>
  \<^verbatim>\<open>read_headers\<close>: the loop, with the length of the buffer at the previous parse. The results are the code,
  the buffer, the response, how many bytes the head took, the stream, the error and the heap.
\<close>

type_synonym 's head_result = "zuh_code \<times> zuh_buffer \<times> zuh_response \<times> nat \<times> 's \<times> zuh_error \<times> heap"

partial_function (option) head_loop ::
    "('s, 'n, 'b) h2_env \<Rightarrow> nat \<Rightarrow> 's \<Rightarrow> zuh_buffer \<Rightarrow> zuh_response \<Rightarrow> zuh_deadline \<Rightarrow> zuh_error \<Rightarrow> heap \<Rightarrow> 's head_result option" where
  "head_loop env last_len s raw resp dl err h =
     (case zuh_response_parse resp (buf_data raw) last_len err h of (rc, resp, consumed, err, h) \<Rightarrow>
      if rc \<noteq> ZUH_ERR_WOULDBLOCK then Some (rc, raw, resp, consumed, s, err, h)
      else if length (buf_data raw) \<ge> ZUH_MAX_HEADER_BYTES then
        Some (ZUH_ERR_BODY_LIMIT, raw, resp, consumed, s,
          zuh_error_set err ZUH_ERR_BODY_LIMIT ZUH_PHASE_READ
            (''response header block exceeds '' @ show_nat ZUH_MAX_HEADER_BYTES @ '' bytes''), h)
      else case zuh_stream_read (he_vt env) s ZUH_READ_CHUNK dl err of (n, data, s, err) \<Rightarrow>
        if n < 0 then Some (err_code err, raw, resp, consumed, s, err, h)
        else if n = 0 then
          Some (ZUH_ERR_PARSE, raw, resp, consumed, s,
            zuh_error_set err ZUH_ERR_PARSE ZUH_PHASE_READ ''connection closed before the response headers ended'', h)
        else case zuh_buf_append data (raw, h) of (ok, raw', h) \<Rightarrow>
          if \<not> ok then Some (ZUH_ERR_NOMEM, raw', resp, consumed, s, err, h)
          else head_loop env (length (buf_data raw)) s raw' resp dl err h)"

definition read_headers ::
    "('s, 'n, 'b) h2_env \<Rightarrow> 's \<Rightarrow> zuh_buffer \<Rightarrow> zuh_response \<Rightarrow> zuh_deadline \<Rightarrow> zuh_error \<Rightarrow> heap \<Rightarrow> 's head_result option" where
  "read_headers env s raw resp dl err h = head_loop env 0 s raw resp dl err h"

section \<open>The account of connections\<close>

fun event_held :: "('s, 'n, 'b) eng_event \<Rightarrow> int" where
  "event_held Connected = 1"
| "event_held Reused = 1"
| "event_held (Dropped c s) = -1"
| "event_held (Released c r) = -1"
| "event_held (Asked m u hs st) = 0"
| "event_held Source_Released = 0"

text \<open>How many connections the engine has taken and not given up.\<close>

definition held :: "('s, 'n, 'b, 'w) eng \<Rightarrow> int" where
  "held g = sum_list (map event_held (eg_log g))"

text \<open>A transport call answers with a stream exactly when it succeeds.\<close>

definition answers_well :: "('s, 'n, 'b, 'w) eng_env \<Rightarrow> bool" where
  "answers_well env \<longleftrightarrow>
     (\<forall>ho po d tr tm e w h rc s tr' tm' e' w' h'. ev_net_connect env ho po d tr tm e w h = (rc, (s, tr', tm'), e', w', h') \<longrightarrow> (rc = ZUH_OK \<longleftrightarrow> s \<noteq> None))
     \<and> (\<forall>ho po px c d tr tm e w h rc s tr' tm' e' w' h'. ev_tls_dial env ho po px c d tr tm e w h = (rc, (s, tr', tm'), e', w', h') \<longrightarrow> (rc = ZUH_OK \<longleftrightarrow> s \<noteq> None))
     \<and> (\<forall>f ho po e w h rc s e' w' h'. ev_dial env = Some f \<longrightarrow> f ho po e w h = (rc, s, e', w', h') \<longrightarrow> (rc = ZUH_OK \<longleftrightarrow> s \<noteq> None))"

lemma held_simps [simp]:
  "held (log_event e g) = held g + event_held e" "held (trace_event now ev d n g) = held g" "held (leave_pool p g) = held g"
  "held (g\<lparr>eg_heap := h\<rparr>) = held g" "held (g\<lparr>eg_trace := tr\<rparr>) = held g" "held (g\<lparr>eg_world := w\<rparr>) = held g"
  "held (g\<lparr>eg_trace := tr, eg_world := w, eg_heap := h\<rparr>) = held g" "held (g\<lparr>eg_world := w, eg_heap := h\<rparr>) = held g"
  by (simp_all add: held_def log_event_def trace_event_def leave_pool_def)

lemma held_drop [simp]: "held (drop_stream env c g) = held g - (if c = None then 0 else 1)"
  by (auto simp: drop_stream_def Let_def split: option.splits zuh_conn.splits prod.splits)

lemma held_release [simp]: "held (pool_release env k s r p g) = held g - 1"
  by (simp add: pool_release_def)

lemma held_done [simp]: "held (done_with_stream env opts u px c r g) = held g - (if c = None then 0 else 1)"
  by (auto simp: done_with_stream_def Let_def split: option.splits prod.splits)

lemma held_from_pool:
  "from_pool env u opts px dl g = Some (rc, c, g') \<Longrightarrow> held g' = held g + (if c = None then 0 else 1)"
  by (auto simp: from_pool_def Let_def split: option.splits prod.splits if_splits)

lemma held_note_reused: "note_reused env u px c res g = (res', g') \<Longrightarrow> held g' = held g"
  by (auto simp: note_reused_def Let_def split: prod.splits if_splits)

lemma answers_dialled:
  "answers_well env \<Longrightarrow> ev_tls_dial env ho po px c d tr tm e w h = (rc, (s, tr', tm'), e', w', h') \<Longrightarrow> rc = ZUH_OK \<longleftrightarrow> s \<noteq> None"
  unfolding answers_well_def by blast

lemma held_dialled:
  assumes "answers_well env" and "open_dialled env u opts px dl res err g = (rc, c, res', err', g')"
  shows "held g' = held g + (if c = None then 0 else 1) \<and> (rc = ZUH_OK \<longleftrightarrow> c \<noteq> None)"
proof -
  obtain rc1 out tr tm err1 w h where d: "ev_tls_dial env (the (u_host u)) (u_port u) (if px_in_use px then Some px else None)
      (tls_cfg_for opts) dl (eg_trace g) (rz_timings res) err (eg_world g) (eg_heap g) = (rc1, (out, tr, tm), err1, w, h)"
    by (metis prod.exhaust)
  note a = answers_dialled [OF assms(1) d]
  show ?thesis
  proof (cases out)
    case None
    with a d assms(2) show ?thesis by (simp add: open_dialled_def Let_def split: prod.splits) auto
  next
    case (Some tls)
    with a d assms(2) show ?thesis by (auto simp: open_dialled_def Let_def split: prod.splits)
  qed
qed

lemma answers_tcp:
  assumes "answers_well env" and "tcp_answer env ho po dl tm err g = (rc, (s, tr, tm'), err', w, h)"
  shows "rc = ZUH_OK \<longleftrightarrow> s \<noteq> None"
proof (cases "ev_dial env")
  case None
  with assms show ?thesis unfolding answers_well_def tcp_answer_def by simp blast
next
  case (Some f)
  then obtain e' w' h' where "f ho po err (eg_world g) (eg_heap g) = (rc, s, e', w', h')"
    using assms(2) by (auto simp: tcp_answer_def split: prod.splits)
  moreover have "\<forall>f ho po e w h rc s e' w' h'. ev_dial env = Some f \<longrightarrow> f ho po e w h = (rc, s, e', w', h') \<longrightarrow> (rc = ZUH_OK \<longleftrightarrow> s \<noteq> None)"
    using assms(1) by (simp add: answers_well_def)
  ultimately show ?thesis using Some by metis
qed

lemma held_tcp:
  assumes "answers_well env" and "open_tcp env u px dl res err g = (rc, c, res', err', g')"
  shows "held g' = held g + (if c = None then 0 else 1) \<and> (rc = ZUH_OK \<longleftrightarrow> c \<noteq> None)"
proof -
  obtain rc1 out tr tm err1 w h where d: "tcp_answer env (if px_in_use px then the (px_host px) else the (u_host u))
      (if px_in_use px then px_port px else u_port u) dl (rz_timings res) err g = (rc1, (out, tr, tm), err1, w, h)"
    by (metis prod.exhaust)
  note a = answers_tcp [OF assms(1) d]
  show ?thesis
  proof (cases out)
    case None
    with a d assms(2) show ?thesis by (simp add: open_tcp_def Let_def) auto
  next
    case (Some s)
    with a d assms(2) show ?thesis by (auto simp: open_tcp_def Let_def split: prod.splits)
  qed
qed

lemma held_tls:
  "open_tls env s u opts dl res err g = (rc, c, res', err', g') \<Longrightarrow>
   held g' = held g - (if c = None then 1 else 0) \<and> (rc = ZUH_OK \<longleftrightarrow> c \<noteq> None)"
  by (auto simp: open_tls_def Let_def split: prod.splits if_splits)

lemma held_secure:
  assumes "open_secure env s u opts px dl res err g = Some (rc, c, res', err', g')"
  shows "held g' = held g - (if c = None then 1 else 0) \<and> (rc = ZUH_OK \<longleftrightarrow> c \<noteq> None)"
proof -
  obtain rc1 s1 err1 h1 where t: "(if px_in_use px then proxy_tunnel (ev_h2 env) s px u dl err (eg_heap g) else Some (ZUH_OK, s, err, eg_heap g))
      = Some (rc1, s1, err1, h1)"
    using assms unfolding open_secure_def by (auto split: option.splits)
  show ?thesis
  proof (cases "rc1 = ZUH_OK")
    case True
    with assms t have "open_tls env s1 u opts dl res err1 (g\<lparr>eg_heap := h1\<rparr>) = (rc, c, res', err', g')"
      by (simp add: open_secure_def Let_def)
    from held_tls [OF this] show ?thesis by simp
  next
    case False
    with assms t show ?thesis by (auto simp: open_secure_def Let_def)
  qed
qed

lemma held_open:
  assumes "answers_well env" and "open_stream env u opts px dl res err g = Some (rc, c, res', err', g')"
  shows "held g' = held g + (if c = None then 0 else 1) \<and> (rc = ZUH_OK \<longleftrightarrow> c \<noteq> None)"
proof -
  obtain rc1 c1 g1 where p: "from_pool env u opts px dl g = Some (rc1, c1, g1)"
    using assms(2) by (auto simp: open_stream_def split: option.splits)
  note h1 = held_from_pool [OF p]
  have bad: "rc1 \<noteq> ZUH_OK \<Longrightarrow> c1 = None"
    using p by (auto simp: from_pool_def Let_def split: option.splits prod.splits)
  show ?thesis
  proof (cases "rc1 \<noteq> ZUH_OK \<or> c1 \<noteq> None")
    case True
    with assms(2) p h1 bad show ?thesis
      by (auto simp: open_stream_def dest: held_note_reused split: option.splits prod.splits if_splits)
  next
    case False
    show ?thesis
    proof (cases "u_is_https u \<and> ev_dial env = None \<and> ev_tls_available env \<and> has_cap (ev_tls_caps env) ZUH_TLS_CAP_DIALS")
      case True
      with False assms(2) p have "open_dialled env u opts px dl res err g1 = (rc, c, res', err', g')"
        by (simp add: open_stream_def)
      from held_dialled [OF assms(1) this] h1 False show ?thesis by simp
    next
      case nodial: False
      obtain rc2 tcp res2 err2 g2 where t: "open_tcp env u px dl res err g1 = (rc2, tcp, res2, err2, g2)" by (metis prod.exhaust)
      note h2 = held_tcp [OF assms(1) t]
      show ?thesis
      proof (cases tcp)
        case None
        with False nodial assms(2) p t h1 h2 show ?thesis by (auto simp: open_stream_def)
      next
        case (Some s)
        show ?thesis
        proof (cases "u_is_https u")
          case False
          with \<open>\<not> (rc1 \<noteq> ZUH_OK \<or> c1 \<noteq> None)\<close> assms(2) p t h1 h2 Some show ?thesis by (auto simp: open_stream_def)
        next
          case True
          with False nodial assms(2) p t Some have "open_secure env s u opts px dl res2 err2 g2 = Some (rc, c, res', err', g')"
            by (auto simp: open_stream_def split: if_splits)
          from held_secure [OF this] h1 h2 Some False show ?thesis by (auto split: if_splits)
        qed
      qed
    qed
  qed
qed

section \<open>The tunnel\<close>

text \<open>Reading sends nothing and writing receives nothing.\<close>

definition one_way :: "'s zuh_stream_vtable \<Rightarrow> ('s \<Rightarrow> bytes) \<Rightarrow> ('s \<Rightarrow> bytes) \<Rightarrow> bool" where
  "one_way vt got sent \<longleftrightarrow>
     (\<forall>s n d e k x s' e'. zuh_stream_read vt s n d e = (k, x, s', e') \<longrightarrow> sent s' = sent s)
     \<and> (\<forall>s b d e k s' e'. zuh_stream_write vt s b d e = (k, s', e') \<longrightarrow> got s' = got s)"

lemma one_way_read: "one_way vt got sent \<Longrightarrow> zuh_stream_read vt s n d e = (k, x, s', e') \<Longrightarrow> sent s' = sent s"
  unfolding one_way_def by blast

lemma faithfulD:
  "reads_faithful vt got \<Longrightarrow> zuh_stream_read vt s n d e = (k, x, s', e') \<Longrightarrow>
   length x = nat k \<and> nat k \<le> n \<and> got s' = got s @ x \<and> (k < 0 \<longrightarrow> err_code e' \<noteq> ZUH_OK)"
  by (simp add: reads_faithful_def)

lemma write_all_keeps:
  assumes run: "zuh_stream_write_all vt clock s buf d err = Some r" and "one_way vt got sent"
  shows "got (fst (snd r)) = got s"
proof -
  have "write_all_loop vt clock buf d 0 s err = Some r" using run by (simp add: zuh_stream_write_all_def)
  then show ?thesis using assms(2)
  proof (induction rule: write_all_loop.raw_induct [rotated 1, consumes 1])
    case (1 loop vt clock buf d off s err r)
    obtain w s1 err1 where w: "zuh_stream_write vt s (drop off buf) d err = (w, s1, err1)" by (rule prod_cases3)
    have g: "got s1 = got s" using "1"(3) w unfolding one_way_def by blast
    show ?case using "1"(2) w g "1"(1) [OF _ "1"(3)] by (auto split: if_splits)
  qed
qed

lemma tunnel_request_sends:
  assumes run: "tunnel_request env s px u dl err h = Some (ZUH_OK, s', err', h')"
    and "writes_prefix (he_vt env) sent" and "one_way (he_vt env) got sent"
  shows "sent s' = sent s @ concat (map (\<lambda>l. l @ CRLF) (connect_lines px u)) \<and> got s' = got s"
proof -
  obtain ok b h1 where b: "zuh_buf_init 256 0 h = (ok, b, h1)" by (rule prod_cases3)
  obtain rc b2 h2 err2 where r: "zuh_proxy_connect_request px u (b, h1) err = (rc, (b2, h2), err2)" by (metis prod.exhaust)
  have ok: "ok" "rc = ZUH_OK" using run b r by (auto simp: tunnel_request_def split: if_splits)
  then obtain t s1 err3 where w: "zuh_stream_write_all (he_vt env) (he_clock env) s (buf_data b2) dl err2 = Some (t, s1, err3)"
    using run b r by (auto simp: tunnel_request_def split: option.splits)
  then have t: "t" "s' = s1" using run b r ok by (auto simp: tunnel_request_def split: if_splits)
  have "buf_inv b" "buf_data b = []" using zuh_buf_init_spec [OF _ _ b] by (auto simp: SIZE_MAX_def)
  moreover have "u_host u \<noteq> None" "length (connect_hostport u) < 300"
    using r ok by (auto simp: zuh_proxy_connect_request_def Let_def split: if_splits)
  ultimately have "buf_data b2 = concat (map (\<lambda>l. l @ CRLF) (connect_lines px u))"
    using connect_writes [OF _ _ _ r] ok by simp
  moreover have "sent s1 = sent s @ buf_data b2"
    using w t write_all_loop_sent [OF _ assms(2), of "he_clock env" "buf_data b2" dl 0 s err2]
    by (auto simp: zuh_stream_write_all_def)
  ultimately show ?thesis using t write_all_keeps [OF w assms(3)] by simp
qed

lemma tunnel_loop_reads:
  assumes run: "tunnel_loop env raw s dl err h = Some r"
    and "reads_faithful (he_vt env) got" and "one_way (he_vt env) got sent"
  shows "case r of (rc, consumed, raw', s', err', h') \<Rightarrow> sent s' = sent s
    \<and> (rc = ZUH_OK \<longrightarrow> (\<exists>x e h0 e1 h1 status. buf_data raw' = buf_data raw @ x \<and> got s' = got s @ x
         \<and> zuh_proxy_connect_response (buf_data raw') e h0 = (ZUH_OK, consumed, status, e1, h1)))"
  using assms(2,3)
proof (induction rule: tunnel_loop.raw_induct [OF _ run])
  case (1 loop env raw s dl err h r)
  obtain rc consumed status err1 h1 where v: "zuh_proxy_connect_response (buf_data raw) err h = (rc, consumed, status, err1, h1)"
    by (metis prod.exhaust)
  show ?case
  proof (cases "rc \<noteq> ZUH_ERR_WOULDBLOCK \<or> length (buf_data raw) \<ge> ZUH_MAX_HEADER_BYTES")
    case True
    with "1"(2) v show ?thesis by (auto split: if_splits) blast+
  next
    case False
    obtain n data s2 err2 where rd: "zuh_stream_read (he_vt env) s ZUH_READ_CHUNK dl err1 = (n, data, s2, err2)" by (metis prod.exhaust)
    have rd2: "got s2 = got s @ data" "n < 0 \<longrightarrow> err_code err2 \<noteq> ZUH_OK" "sent s2 = sent s"
      using faithfulD [OF "1"(3) rd] one_way_read [OF "1"(4) rd] by auto
    obtain ok raw2 h2 where ap: "zuh_buf_append data (raw, h1) = (ok, raw2, h2)" by (rule prod_cases3)
    show ?thesis
    proof (cases "n > 0 \<and> ok")
      case False
      with "1"(2) v rd ap rd2 \<open>\<not> (rc \<noteq> ZUH_ERR_WOULDBLOCK \<or> _)\<close> show ?thesis by (auto split: if_splits)
    next
      case True
      with "1"(2) v rd ap \<open>\<not> (rc \<noteq> ZUH_ERR_WOULDBLOCK \<or> _)\<close> have l: "loop env raw2 s2 dl err2 h2 = Some r" by simp
      have d: "buf_data raw2 = buf_data raw @ data" using buf_append_data [OF ap] True by simp
      from "1"(1) [OF l "1"(3,4)] rd2 d show ?thesis by (auto split: prod.splits) (metis append.assoc)+
    qed
  qed
qed

lemma connect_consumed:
  assumes "zuh_proxy_connect_response buf e h = (ZUH_OK, consumed, status, e', h')"
  shows "consumed \<le> length buf \<and> 200 \<le> status \<and> status < 300"
proof -
  obtain rc r n e1 h1 where p: "zuh_response_parse zuh_response_init buf 0 e h = (rc, r, n, e1, h1)" by (metis prod.exhaust)
  have "hs_inv (rs_headers zuh_response_init)" by (simp add: zuh_response_init_def)
  from response_parse_facts [OF p this] assms p show ?thesis
    by (auto simp: zuh_proxy_connect_response_def Let_def split: if_splits)
qed

text \<open>
  C7: a tunnel is clean. When \<^verbatim>\<open>proxy_tunnel\<close> succeeds, exactly the lines of the CONNECT request went to the
  proxy, and what was read is exactly a complete response head with a 2xx status: not one byte beyond it, so
  nothing the proxy sent can reach the TLS handshake.
\<close>
theorem tunnel_is_clean:
  assumes "proxy_tunnel env s px u dl err h = Some (ZUH_OK, s', err', h')"
    and "reads_faithful (he_vt env) got" and "writes_prefix (he_vt env) sent" and "one_way (he_vt env) got sent"
  shows "sent s' = sent s @ concat (map (\<lambda>l. l @ CRLF) (connect_lines px u))
    \<and> (\<exists>head e h0 e1 h1 status. got s' = got s @ head \<and> 200 \<le> status \<and> status < 300
         \<and> zuh_proxy_connect_response head e h0 = (ZUH_OK, length head, status, e1, h1))"
proof -
  obtain s1 err1 h1 where q: "tunnel_request env s px u dl err h = Some (ZUH_OK, s1, err1, h1)"
    using assms(1) by (auto simp: proxy_tunnel_def split: option.splits if_splits)
  obtain ok raw h2 where b: "zuh_buf_init 1024 ZUH_MAX_HEADER_BYTES h1 = (ok, raw, h2)" by (rule prod_cases3)
  have empty: "buf_data raw = []" using zuh_buf_init_spec [OF _ _ b] by (simp add: SIZE_MAX_def ZUH_MAX_HEADER_BYTES_def)
  have ok using assms(1) q b by (auto simp: proxy_tunnel_def split: if_splits)
  then obtain rc consumed raw2 s2 err2 h3 where l: "tunnel_loop env raw s1 dl err1 h2 = Some (rc, consumed, raw2, s2, err2, h3)"
    and f: "rc = ZUH_OK" "length (buf_data raw2) \<le> consumed" "s' = s2"
    using assms(1) q b by (auto simp: proxy_tunnel_def Let_def split: option.splits if_splits)
  from tunnel_loop_reads [OF l assms(2,4)] f(1) empty obtain e h0 e1 h4 status where
    v: "zuh_proxy_connect_response (buf_data raw2) e h0 = (ZUH_OK, consumed, status, e1, h4)" "got s2 = got s1 @ buf_data raw2" "sent s2 = sent s1"
    by auto
  have "consumed \<le> length (buf_data raw2)" "200 \<le> status" "status < 300"
    using v(1) connect_consumed [OF v(1)] by auto
  with tunnel_request_sends [OF q assms(3,4)] v f show ?thesis by auto blast
qed

section \<open>TLS and HTTP/2\<close>

text \<open>
  What the engine may talk to for an HTTPS hop: what the pool answers for the key of this hop, what the
  backend dialled for its host and configuration, or a TLS handshake with its host under its configuration, run
  over a tunnel that was built if there is a proxy.
\<close>

definition pooled_for ::
    "('s, 'n, 'b, 'w) eng_env \<Rightarrow> zuh_uri \<Rightarrow> zuh_get_opts \<Rightarrow> zuh_proxy \<Rightarrow> zuh_deadline \<Rightarrow> ('s, 'n, 'b, 'w) eng \<Rightarrow> ('s, 'n, 'b) zuh_conn \<Rightarrow> bool" where
  "pooled_for env u opts px dl g c \<longleftrightarrow>
     (\<exists>k h p p'. eg_pool g = Some p \<and> zuh_engine_pool_key u opts (Some px) (eg_heap g) = (Some k, h)
        \<and> zuh_pool_acquire_by (ev_pool env) k dl (enter_pool (g\<lparr>eg_heap := h\<rparr>) p) = Some (Some c, p'))"

definition dialled_for :: "('s, 'n, 'b, 'w) eng_env \<Rightarrow> zuh_uri \<Rightarrow> zuh_get_opts \<Rightarrow> zuh_proxy \<Rightarrow> zuh_deadline \<Rightarrow> 's \<Rightarrow> bool" where
  "dialled_for env u opts px dl s \<longleftrightarrow>
     (\<exists>tr tm e w h tr' tm' e' w' h'. ev_tls_dial env (the (u_host u)) (u_port u) (if px_in_use px then Some px else None)
        (tls_cfg_for opts) dl tr tm e w h = (ZUH_OK, (Some s, tr', tm'), e', w', h'))"

definition shaken_for :: "('s, 'n, 'b, 'w) eng_env \<Rightarrow> zuh_uri \<Rightarrow> zuh_get_opts \<Rightarrow> zuh_proxy \<Rightarrow> zuh_deadline \<Rightarrow> 's \<Rightarrow> bool" where
  "shaken_for env u opts px dl s \<longleftrightarrow>
     (\<exists>tcp e w h e' w' h'. ev_tls_connect env tcp (the (u_host u)) (tls_cfg_for opts) dl e w h = (ZUH_OK, s, e', w', h')
        \<and> (if px_in_use px then \<exists>s0 e0 h0. proxy_tunnel (ev_h2 env) s0 px u dl e0 h0 = Some (ZUH_OK, tcp, e, h) else True))"

lemma from_pool_pooled:
  "from_pool env u opts px dl g = Some (ZUH_OK, Some c, g') \<Longrightarrow> pooled_for env u opts px dl g c"
  unfolding from_pool_def pooled_for_def by (auto simp: Let_def split: option.splits prod.splits)

lemma open_dialled_secure:
  assumes "open_dialled env u opts px dl res err g = (ZUH_OK, Some c, res', err', g')"
  shows "\<exists>s. c = Transport s \<and> dialled_for env u opts px dl s"
proof -
  obtain rc1 out tr tm err1 w h where d: "ev_tls_dial env (the (u_host u)) (u_port u) (if px_in_use px then Some px else None)
      (tls_cfg_for opts) dl (eg_trace g) (rz_timings res) err (eg_world g) (eg_heap g) = (rc1, (out, tr, tm), err1, w, h)"
    by (metis prod.exhaust)
  with assms obtain s where "out = Some s" "rc1 = ZUH_OK" "c = Transport s"
    by (auto simp: open_dialled_def Let_def split: option.splits prod.splits if_splits)
  with d show ?thesis unfolding dialled_for_def by blast
qed

lemma open_secure_shakes:
  assumes "open_secure env s u opts px dl res err g = Some (ZUH_OK, Some c, res', err', g')"
  shows "\<exists>s. c = Transport s \<and> shaken_for env u opts px dl s"
proof -
  obtain rc1 s1 err1 h1 where t: "(if px_in_use px then proxy_tunnel (ev_h2 env) s px u dl err (eg_heap g) else Some (ZUH_OK, s, err, eg_heap g))
      = Some (rc1, s1, err1, h1)"
    using assms unfolding open_secure_def by (auto split: option.splits)
  with assms have ok: "rc1 = ZUH_OK" "open_tls env s1 u opts dl res err1 (g\<lparr>eg_heap := h1\<rparr>) = (ZUH_OK, Some c, res', err', g')"
    by (auto simp: open_secure_def Let_def split: if_splits)
  obtain rc s2 e w h2 where x: "ev_tls_connect env s1 (the (u_host u)) (tls_cfg_for opts) dl err1 (eg_world g) h1 = (rc, s2, e, w, h2)"
    by (metis prod.exhaust)
  with ok have "rc = ZUH_OK" "c = Transport s2"
    by (auto simp: open_tls_def Let_def trace_event_def split: if_splits prod.splits)
  with x t ok(1) show ?thesis unfolding shaken_for_def by (auto split: if_splits) blast+
qed

text \<open>
  C6: HTTPS is never plain. When \<^verbatim>\<open>open_stream\<close> succeeds for an HTTPS hop, the connection is the pool's answer for
  the key of exactly this hop, or was dialled by the TLS backend for its host under its TLS configuration,
  or comes from a TLS handshake with its host under that configuration, and then through a proxy only over a
  tunnel that succeeded. The configuration verifies peer and host name exactly when the options say so.
\<close>
theorem https_never_plain:
  assumes "u_is_https u" and "open_stream env u opts px dl res err g = Some (ZUH_OK, Some c, res', err', g')"
  shows "(pooled_for env u opts px dl g c \<or> (\<exists>s. c = Transport s \<and> (dialled_for env u opts px dl s \<or> shaken_for env u opts px dl s)))
    \<and> tc_verify_peer (tls_cfg_for opts) = (go_verify opts \<noteq> 0) \<and> tc_verify_hostname (tls_cfg_for opts) = (go_verify opts \<noteq> 0)"
proof -
  obtain rc1 c1 g1 where p: "from_pool env u opts px dl g = Some (rc1, c1, g1)"
    using assms(2) by (auto simp: open_stream_def split: option.splits)
  have rc1: "rc1 = ZUH_OK" using assms(2) p by (auto simp: open_stream_def split: if_splits)
  have "pooled_for env u opts px dl g c \<or> (\<exists>s. c = Transport s \<and> (dialled_for env u opts px dl s \<or> shaken_for env u opts px dl s))"
  proof (cases c1)
    case (Some x)
    with assms(2) p rc1 have "x = c" by (auto simp: open_stream_def split: prod.splits)
    with from_pool_pooled p rc1 Some show ?thesis by blast
  next
    case None
    show ?thesis
    proof (cases "ev_dial env = None \<and> ev_tls_available env \<and> has_cap (ev_tls_caps env) ZUH_TLS_CAP_DIALS")
      case True
      with assms p rc1 None have "open_dialled env u opts px dl res err g1 = (ZUH_OK, Some c, res', err', g')"
        by (simp add: open_stream_def)
      from open_dialled_secure [OF this] show ?thesis by blast
    next
      case False
      obtain rc2 tcp res2 err2 g2 where t: "open_tcp env u px dl res err g1 = (rc2, tcp, res2, err2, g2)" by (metis prod.exhaust)
      with False assms p rc1 None obtain s where "open_secure env s u opts px dl res2 err2 g2 = Some (ZUH_OK, Some c, res', err', g')"
        by (cases tcp) (auto simp: open_stream_def split: if_splits)
      from open_secure_shakes [OF this] show ?thesis by blast
    qed
  qed
  then show ?thesis by (auto simp: tls_cfg_for_def Let_def split: option.splits)
qed

lemma h2_wrap_inner:
  assumes "zuh_h2_wrap h2 s mx err h = (rc, out, err', h')"
  shows "(rc = ZUH_OK \<longleftrightarrow> out \<noteq> None) \<and> (\<forall>i. out = Some i \<longrightarrow> hi_inner i = s)"
proof -
  obtain a h1 where 1: "zuh_calloc 1 SIZEOF_STREAM h = (a, h1)" by (rule prod.exhaust)
  obtain b h2' where 2: "zuh_calloc 1 SIZEOF_H2_IMPL h1 = (b, h2')" by (rule prod.exhaust)
  obtain ok buf h3 where 3: "(if a \<and> b then zuh_buf_init 0 H2_DATA_MAX h2' else (False, zeroed_buffer, h2')) = (ok, buf, h3)"
    by (rule prod_cases3)
  obtain rv n where 4: "h2_session h2 (if mx \<noteq> 0 then mx else ZUH_DEFAULT_MAX_HEADER_BYTES) = (rv, n)" by (rule prod.exhaust)
  show ?thesis using assms 4 unfolding zuh_h2_wrap_def 1 2 3 prod.case Let_def
    by (auto simp: zeroed_h2_def split: if_splits)
qed

text \<open>
  C12: the protocol is the one that was negotiated or asked for. \<^verbatim>\<open>choose_protocol\<close> succeeds with HTTP/2 exactly on
  an HTTP/2 connection: one that was it already, TLS whose ALPN chose \<^verbatim>\<open>h2\<close>, or cleartext without a proxy when
  HTTP/2 is required. A client that requires HTTP/2 never goes on over HTTP/1.1: a requirement that cannot be met
  is a connection error. Every failure closes and frees the connection in the very state in which it came, so
  that nothing was written, and a success leaves the transport as it was and the log alone.
\<close>
theorem protocol_as_negotiated:
  assumes "choose_protocol env c u opts px err g = (rc, c', use_h2, err', g')"
  shows "(rc = ZUH_OK \<longleftrightarrow> c' \<noteq> None) \<and> held g' = held g - (if c' = None then 1 else 0)
    \<and> (c' = None \<longrightarrow> \<not> use_h2 \<and> (\<exists>s. c = Transport s
         \<and> eg_log g' = eg_log g @ [Dropped c (zuh_stream_free (he_vt (ev_h2 env)) (zuh_stream_close (he_vt (ev_h2 env)) s))]))
    \<and> (c' \<noteq> None \<longrightarrow> eg_log g' = eg_log g)
    \<and> (\<forall>s. c = Transport s \<longrightarrow> go_http2 opts = ZUH_H2_REQUIRED
         \<and> \<not> (if u_is_https u then \<exists>ti. ev_tls_info env s = Some ti \<and> c_string (ti_alpn ti) = ''h2'' else \<not> px_in_use px)
         \<longrightarrow> rc = ZUH_ERR_CONNECT \<and> err_code err' = ZUH_ERR_CONNECT)
    \<and> (\<forall>x. c' = Some x \<longrightarrow> use_h2 = zuh_h2_is x \<and> zuh_h2_transport x = zuh_h2_transport c
         \<and> (go_http2 opts = ZUH_H2_REQUIRED \<longrightarrow> use_h2)
         \<and> (\<forall>s. c = Transport s \<longrightarrow> use_h2 = (if u_is_https u then \<exists>ti. ev_tls_info env s = Some ti \<and> c_string (ti_alpn ti) = ''h2''
               else go_http2 opts = ZUH_H2_REQUIRED \<and> \<not> px_in_use px)))"
proof (cases c)
  case (H2 i)
  with assms show ?thesis by (auto simp: choose_protocol_def)
next
  case (Transport s)
  define want where "want = (if u_is_https u
      then (case ev_tls_info env s of Some ti \<Rightarrow> zuh_h2_alpn_is_h2 (Some (ti_alpn ti)) | None \<Rightarrow> False)
      else go_http2 opts = ZUH_H2_REQUIRED \<and> \<not> px_in_use px)"
  have w: "want = (if u_is_https u then \<exists>ti. ev_tls_info env s = Some ti \<and> c_string (ti_alpn ti) = ''h2''
      else go_http2 opts = ZUH_H2_REQUIRED \<and> \<not> px_in_use px)"
    by (auto simp: want_def zuh_h2_alpn_is_h2_def split: option.splits)
  obtain rc1 h2 err1 h where wr: "zuh_h2_wrap (ev_h2 env) s ZUH_MAX_HEADER_BYTES err (eg_heap g) = (rc1, h2, err1, h)"
    by (metis prod.exhaust)
  show ?thesis
  proof (cases want)
    case True
    then have d: "choose_protocol env c u opts px err g = (case h2 of
        Some i \<Rightarrow> (rc1, Some (H2 i), True, err1, g\<lparr>eg_heap := h\<rparr>)
      | None \<Rightarrow> (rc1, None, False, err1, drop_stream env (Some c) (g\<lparr>eg_heap := h\<rparr>)))"
      unfolding choose_protocol_def Transport zuh_conn.case Let_def want_def [symmetric] wr by simp
    from d assms have r: "rc = rc1" "c' = map_option H2 h2" "use_h2 = (h2 \<noteq> None)"
        "held g' = held g - (if h2 = None then 1 else 0)"
      by (auto split: option.splits)
    have "eg_log g' = eg_log g @ (if h2 = None
           then [Dropped c (zuh_stream_free (he_vt (ev_h2 env)) (zuh_stream_close (he_vt (ev_h2 env)) s))] else [])"
      using d assms Transport by (auto simp: drop_stream_def log_event_def Let_def split: option.splits)
    with h2_wrap_inner [OF wr] r w True Transport show ?thesis by auto
  next
    case False
    with assms Transport have "if go_http2 opts \<noteq> ZUH_H2_REQUIRED then rc = ZUH_OK \<and> c' = Some c \<and> \<not> use_h2 \<and> g' = g
        else rc = ZUH_ERR_CONNECT \<and> err_code err' = ZUH_ERR_CONNECT \<and> c' = None \<and> \<not> use_h2 \<and> g' = drop_stream env (Some c) g"
      using want_def by (auto simp: choose_protocol_def Let_def split: if_splits)
    moreover have "eg_log (drop_stream env (Some c) g)
        = eg_log g @ [Dropped c (zuh_stream_free (he_vt (ev_h2 env)) (zuh_stream_close (he_vt (ev_h2 env)) s))]"
      using Transport by (simp add: drop_stream_def log_event_def Let_def)
    ultimately show ?thesis using w False Transport by (auto split: if_splits)
  qed
qed

section \<open>Examples\<close>

text \<open>A transport: what was read, what is waiting, what was sent. A read takes what is asked for, a write everything.\<close>

definition example_line :: "(bytes \<times> bytes \<times> bytes) zuh_stream_vtable" where
  "example_line =
     \<lparr>vt_read = Some (\<lambda>s n d e. (int (length (take n (fst (snd s)))), take n (fst (snd s)),
          (fst s @ take n (fst (snd s)), drop n (fst (snd s)), snd (snd s)), e)),
      vt_write = Some (\<lambda>s b d e. (int (length b), (fst s, fst (snd s), snd (snd s) @ b), e)),
      vt_close = None, vt_destroy = None, vt_readable = None, vt_name = None\<rparr>"

definition example_net :: "(bytes \<times> bytes \<times> bytes, unit, unit) h2_env" where
  "example_net =
     \<lparr>he_vt = example_line, he_clock = (\<lambda>s. 0), src_next = (\<lambda>b e. (ZUH_OK, [], e, b)),
      ng_recv = (\<lambda>n d. Ng_Return 0 n), ng_send = (\<lambda>n. Ng_Return (0, []) n), ng_want_read = (\<lambda>n. True),
      ng_request_allowed = (\<lambda>n. True), ng_consume = (\<lambda>n sid k. (0, n)),
      ng_consume_connection = (\<lambda>n k. (0, n)), ng_submit_request = (\<lambda>n nv b. (1, n)),
      ng_submit_rst = (\<lambda>n sid. (0, n)), ng_submit_ping = (\<lambda>n. (0, n)), ng_callbacks_new = 0, ng_option_new = 0,
      ng_client_new = (0, ()), ng_submit_settings = (\<lambda>n iv. (0, n)), ng_set_local_window = (\<lambda>n k. (0, n)),
      ng_strerror = (\<lambda>c. []), ng_http2_strerror = (\<lambda>c. [])\<rparr>"

lemma example_net_simps [simp]: "he_vt example_net = example_line" "he_clock example_net = (\<lambda>s. 0)"
  by (simp_all add: example_net_def)

lemma example_line_contracts:
  "reads_faithful example_line fst" "writes_prefix example_line (\<lambda>s. snd (snd s))" "one_way example_line fst (\<lambda>s. snd (snd s))"
  by (auto simp: reads_faithful_def writes_prefix_def one_way_def example_line_def zuh_stream_read_def zuh_stream_write_def
      split: if_splits)

lemma example_write:
  assumes "length d \<le> ZUH_SSIZE_MAX"
  shows "zuh_stream_write_all example_line clock s d zuh_deadline_never e = Some (True, (fst s, fst (snd s), snd (snd s) @ d), e)"
proof -
  have w: "zuh_stream_write example_line s d zuh_deadline_never e = (int (length d), (fst s, fst (snd s), snd (snd s) @ d), e)"
    using assms by (simp add: zuh_stream_write_def example_line_def)
  have "write_all_loop example_line clock d zuh_deadline_never (length d) t e = Some (True, t, e)" for t
    by (subst write_all_loop.simps) simp
  then show ?thesis using w unfolding zuh_stream_write_all_def
    by (subst write_all_loop.simps) (auto simp: zuh_deadline_expired_def zuh_deadline_never_def)
qed

lemma example_connect_text: "length (concat (map (\<lambda>l. l @ CRLF) (connect_lines zuh_proxy_init proxy_example_target))) < 200"
  by code_simp

lemma example_verdicts:
  "\<exists>h'. zuh_proxy_connect_response [] e h = (ZUH_ERR_WOULDBLOCK, 0, 0, e, h') \<and> plenty h' = plenty h"
  "\<exists>h'. zuh_proxy_connect_response (head_text 1 200 ''OK'' []) e h = (ZUH_OK, 19, 200, e, h')"
proof -
  have mx: "response_max zuh_response_init = 100"
    by (simp add: response_max_def zuh_response_init_def zuh_headers_init_def zuh_headers_init_limited_def
        ZUH_DEFAULT_MAX_HEADER_COUNT_def)
  have none: "parse_response 100 [] = PhrIncomplete" by code_simp
  have head: "parse_response 100 (head_text 1 200 ''OK'' [] @ []) =
      PhrOk \<lparr>pr_minor = int 1, pr_status = int 200, pr_msg = ''OK'', pr_headers = map parsed []\<rparr> []"
    by (rule head_parses) (simp_all add: found_ctl_def SP_def HTAB_def)
  have len: "length (head_text 1 200 ''OK'' []) = 19" by (simp add: head_text_def status_line_def)
  show "\<exists>h'. zuh_proxy_connect_response [] e h = (ZUH_ERR_WOULDBLOCK, 0, 0, e, h') \<and> plenty h' = plenty h"
    using none plenty_headers_free [of "rs_headers zuh_response_init" h] by (simp add: zuh_response_free_def Let_def split_beta zuh_proxy_connect_response_def zuh_response_parse_def phr_parse_response_def mx)
  show "\<exists>h'. zuh_proxy_connect_response (head_text 1 200 ''OK'' []) e h = (ZUH_OK, 19, 200, e, h')"
    using head len
    by (auto simp: zuh_proxy_connect_response_def zuh_response_parse_def phr_parse_response_def response_accept_def mx ZUH_REASON_MAX_def)
qed

lemma example_tunnel_loop:
  assumes "buf_room (raw, h) 100" "buf_data raw = []"
  shows "\<exists>raw' h'. tunnel_loop example_net raw ([], head_text 1 200 ''OK'' [], x) zuh_deadline_never e h
    = Some (ZUH_OK, 19, raw', (head_text 1 200 ''OK'' [], [], x), e, h') \<and> length (buf_data raw') = 19"
proof -
  let ?hd = "head_text 1 200 ''OK'' []"
  have len: "length ?hd = 19" by (simp add: head_text_def status_line_def)
  obtain h1 where v: "zuh_proxy_connect_response [] e h = (ZUH_ERR_WOULDBLOCK, 0, 0, e, h1)" "plenty h1 = plenty h"
    using example_verdicts(1) by blast
  have rd: "zuh_stream_read example_line ([], ?hd, x) ZUH_READ_CHUNK zuh_deadline_never e = (19, ?hd, (?hd, [], x), e)"
    using len by (simp add: zuh_stream_read_def example_line_def ZUH_READ_CHUNK_def ZUH_SSIZE_MAX_def)
  have "plenty h1" using v(2) assms(1) by (simp add: buf_room_def)
  then have "buf_room (raw, h1) (19 + 81)" using assms(1) by (simp add: buf_room_def split: if_splits)
  then obtain raw2 h2 where ap: "zuh_buf_append ?hd (raw, h1) = (True, raw2, h2)" using buf_append_room [of "(raw, h1)" ?hd 81] len by auto
  have d: "buf_data raw2 = ?hd" using buf_append_data [OF ap] assms(2) by simp
  obtain h3 where v2: "zuh_proxy_connect_response ?hd e h2 = (ZUH_OK, 19, 200, e, h3)" using example_verdicts(2) by blast
  have "tunnel_loop example_net raw2 (?hd, [], x) zuh_deadline_never e h2 = Some (ZUH_OK, 19, raw2, (?hd, [], x), e, h3)"
    by (subst tunnel_loop.simps) (simp add: d v2 del: One_nat_def)
  then have "tunnel_loop example_net raw ([], ?hd, x) zuh_deadline_never e h = Some (ZUH_OK, 19, raw2, (?hd, [], x), e, h3)"
    by (subst tunnel_loop.simps) (simp add: assms(2) v(1) ZUH_MAX_HEADER_BYTES_def rd ap del: One_nat_def)
  then show ?thesis using d len by auto
qed

lemma tunnel_is_clean_witness:
  "\<exists>s err h. proxy_tunnel example_net ([], head_text 1 200 ''OK'' [], []) zuh_proxy_init proxy_example_target zuh_deadline_never no_error fresh_heap
     = Some (ZUH_OK, s, err, h)
   \<and> snd (snd s) = concat (map (\<lambda>l. l @ CRLF) (connect_lines zuh_proxy_init proxy_example_target)) \<and> 12 \<le> length (fst s)"
proof -
  let ?hd = "head_text 1 200 ''OK'' []" and ?rq = "concat (map (\<lambda>l. l @ CRLF) (connect_lines zuh_proxy_init proxy_example_target))"
  obtain b0 h0 where b0: "zuh_buf_init 256 0 fresh_heap = (True, b0, h0)" "buf_room (b0, h0) 200" "buf_data b0 = []"
    using zuh_buf_init_room [OF plenty_fresh, of 256 0 200] by auto
  obtain b h1 where rq: "zuh_proxy_connect_request zuh_proxy_init proxy_example_target (b0, h0) no_error = (ZUH_OK, (b, h1), no_error)"
      "plenty h1" using example_connect_room [OF b0(2)] by blast
  have "buf_inv b0" using b0(2) by (simp add: buf_room_def)
  moreover have "u_host proxy_example_target \<noteq> None" "length (connect_hostport proxy_example_target) < 300"
    by (simp add: proxy_example_target_def) code_simp
  ultimately have d: "buf_data b = ?rq" using connect_writes [OF _ _ _ rq(1)] b0(3) by simp
  have "length ?rq \<le> ZUH_SSIZE_MAX" using example_connect_text by (simp add: ZUH_SSIZE_MAX_def)
  then have q: "tunnel_request example_net ([], ?hd, []) zuh_proxy_init proxy_example_target zuh_deadline_never no_error fresh_heap
      = Some (ZUH_OK, ([], ?hd, ?rq), no_error, snd (zuh_buf_free b h1))"
    using example_write [of ?rq] by (simp add: tunnel_request_def b0(1) rq(1) d)
  have "plenty (snd (zuh_buf_free b h1))" using rq(2) by (simp add: zuh_buf_free_def)
  then obtain raw h2 where raw: "zuh_buf_init 1024 ZUH_MAX_HEADER_BYTES (snd (zuh_buf_free b h1)) = (True, raw, h2)"
      "buf_room (raw, h2) 100" "buf_data raw = []"
    using zuh_buf_init_room [of _ 1024 ZUH_MAX_HEADER_BYTES 100] by (fastforce simp: ZUH_MAX_HEADER_BYTES_def SIZE_MAX_def)
  obtain raw2 h3 where l: "tunnel_loop example_net raw ([], ?hd, ?rq) zuh_deadline_never no_error h2
      = Some (ZUH_OK, 19, raw2, (?hd, [], ?rq), no_error, h3)" "buf_len raw2 = 19"
    using example_tunnel_loop [OF raw(2,3)] by blast
  have run: "proxy_tunnel example_net ([], ?hd, []) zuh_proxy_init proxy_example_target zuh_deadline_never no_error fresh_heap
      = Some (ZUH_OK, (?hd, [], ?rq), no_error, snd (zuh_buf_free raw2 h3))"
    unfolding proxy_tunnel_def q option.case prod.case simp_thms if_False raw(1) l(1) Let_def l(2) by simp
  have "reads_faithful (he_vt example_net) fst" "writes_prefix (he_vt example_net) (\<lambda>s. snd (snd s))"
      "one_way (he_vt example_net) fst (\<lambda>s. snd (snd s))" using example_line_contracts by simp_all
  from tunnel_is_clean [OF run this] run show ?thesis by (simp add: head_text_def status_line_def)
qed

text \<open>
  Everything is one world without content; the TLS backend wraps a transport and dials none, and negotiates
  the protocol it is made with.
\<close>

definition example_eng_env :: "bytes \<Rightarrow> (bytes \<times> bytes \<times> bytes, unit, unit, unit) eng_env" where
  "example_eng_env alpn =
     \<lparr>ev_h2 = example_net,
      ev_pool = \<lparr>en_now_ms = \<lambda>w. 0, en_pid = \<lambda>w. 7, en_readable = \<lambda>s ms w. (0, w), en_h2_is = \<lambda>s w. False,
        en_h2_idle_ms = \<lambda>s w. 0, en_h2_ping = \<lambda>s d w. (True, [], w)\<rparr>,
      ev_now = (\<lambda>w. 0), ev_dial = None,
      ev_net_connect = (\<lambda>ho po d tr tm e w h. (ZUH_OK, (Some ([], head_text 1 200 ''OK'' [], []), tr, tm), e, w, h)),
      ev_net_peer_ip = (\<lambda>s. None), ev_tls_available = True, ev_tls_caps = 0,
      ev_tls_connect = (\<lambda>s ho c d e w h. (ZUH_OK, s, e, w, h)),
      ev_tls_dial = (\<lambda>ho po px c d tr tm e w h. (ZUH_ERR_TLS, (None, tr, tm), e, w, h)),
      ev_tls_peer_ip = (\<lambda>s. None),
      ev_tls_info = (\<lambda>s. Some \<lparr>ti_protocol = ''TLSv1.3'', ti_cipher = ''c'', ti_trust_backend = ''t'', ti_reused_session = False, ti_alpn = alpn\<rparr>)\<rparr>"

definition example_eng :: "(bytes \<times> bytes \<times> bytes, unit, unit, unit) eng" where
  "example_eng = \<lparr>eg_heap = fresh_heap, eg_pool = None, eg_trace = None, eg_world = (), eg_log = []\<rparr>"

definition example_https :: zuh_uri where
  "example_https = zuh_uri_init\<lparr>u_scheme := Some ''https'', u_host := Some ''h'', u_path_query := Some ''/'', u_port := 443, u_is_https := True\<rparr>"

lemma https_never_plain_witness:
  "\<exists>s res err g. open_stream (example_eng_env ''h2'') example_https zuh_get_opts_init zuh_proxy_init zuh_deadline_never
       (zuh_result_init :: unit zuh_result) no_error example_eng = Some (ZUH_OK, Some (Transport s), res, err, g)
     \<and> shaken_for (example_eng_env ''h2'') example_https zuh_get_opts_init zuh_proxy_init zuh_deadline_never s
     \<and> tc_verify_peer (tls_cfg_for zuh_get_opts_init)"
proof -
  obtain s and res :: "unit zuh_result" and err g where run:
    "open_stream (example_eng_env ''h2'') example_https zuh_get_opts_init zuh_proxy_init zuh_deadline_never
       zuh_result_init no_error example_eng = Some (ZUH_OK, Some (Transport s), res, err, g)"
    by (auto simp: open_stream_def from_pool_def example_eng_def open_tcp_def tcp_answer_def example_eng_env_def Let_def
        example_https_def has_cap_def open_secure_def open_tls_def zuh_proxy_init_def record_ip_def split_beta)
  have "u_is_https example_https" by (simp add: example_https_def)
  from https_never_plain [OF this run] run show ?thesis
    by (auto simp: pooled_for_def dialled_for_def example_eng_def example_eng_env_def zuh_get_opts_init_def)
qed

lemma protocol_as_negotiated_witness:
  "\<exists>err g. choose_protocol (example_eng_env ''http/1.1'') (Transport ([], [], [])) example_https zuh_get_opts_init zuh_proxy_init no_error example_eng
     = (ZUH_OK, Some (Transport ([], [], [])), False, err, g) \<and> held g = held example_eng"
proof -
  obtain rc c use_h2 err g where run: "choose_protocol (example_eng_env ''http/1.1'') (Transport ([], [], [])) example_https
      zuh_get_opts_init zuh_proxy_init no_error example_eng = (rc, c, use_h2, err, g)" by (metis prod.exhaust)
  have "c = Some (Transport ([], [], []))"
    using run by (simp add: choose_protocol_def example_https_def example_eng_env_def zuh_h2_alpn_is_h2_def zuh_get_opts_init_def
        literal_simps)
  with protocol_as_negotiated [OF run] run show ?thesis
    by (auto simp: example_https_def example_eng_env_def literal_simps)
qed

end
