(* ===== verification/Zuh_Open.thy ===== *)
theory Zuh_Open
  imports Zuh_Conn
begin

text \<open>
  \<^verbatim>\<open>src/zuh_engine.c\<close>, the response body that the caller pulls: it owns the connection until the body ends, is
  aborted or is freed, and then gives it back to the pool or closes it. The bytes that are decoded and not
  yet handed out (\<^verbatim>\<open>staged\<close>) are the context of its memory sink, so they are not a field of their own; the
  key is present when \<^verbatim>\<open>have_key\<close> is set, and the HTTP/1.1 reader when the connection is not HTTP/2.
\<close>

section \<open>The body\<close>

record ('s, 'n, 'b, 'z) zuh_open_body =
  ob_s :: "('s, 'n, 'b) zuh_conn option"
  ob_h2 :: bool
  ob_key :: "zuh_pool_key option"
  ob_reuse_if_ended :: zuh_reuse
  ob_rd :: "zuh_body_reader option"
  ob_pipe :: "(zuh_buffer, 'z) zuh_body_pipe"
  ob_staged_off :: nat
  ob_timeout_ms :: int
  ob_ended :: bool
  ob_aborted :: bool
  ob_failed :: bool
  ob_src :: "'b option"

text \<open>A size for \<^verbatim>\<open>struct zuh_open_body\<close>.\<close>

definition SIZEOF_OPEN_BODY :: nat where
  "SIZEOF_OPEN_BODY = 1024"

definition staged :: "('s, 'n, 'b, 'z) zuh_open_body \<Rightarrow> bytes" where
  "staged b = buf_data (sk_ctx (bp_sink (ob_pipe b)))"

definition open_body_release ::
    "('s, 'n, 'b, 'w) eng_env \<Rightarrow> zuh_reuse \<Rightarrow> ('s, 'n, 'b, 'z) zuh_open_body \<Rightarrow> ('s, 'n, 'b, 'w) eng
     \<Rightarrow> ('s, 'n, 'b, 'z) zuh_open_body \<times> ('s, 'n, 'b, 'w) eng" where
  "open_body_release env r b g =
     (case ob_s b of
        None \<Rightarrow> (b, g)
      | Some c \<Rightarrow>
          (b\<lparr>ob_s := None\<rparr>,
           case (eg_pool g, ob_key b) of
             (Some p, Some k) \<Rightarrow> pool_release env k c r p g
           | _ \<Rightarrow> drop_stream env (Some c) g))"

text \<open>The reader of an HTTP/1.1 body; a failure frees the pipe that was made before it.\<close>

definition open_reader ::
    "bool \<Rightarrow> zuh_framing \<Rightarrow> bytes \<Rightarrow> u64 \<Rightarrow> (zuh_buffer, 'z) zuh_body_pipe \<Rightarrow> zuh_error \<Rightarrow> heap
     \<Rightarrow> zuh_code \<times> zuh_body_reader option \<times> (zuh_buffer, 'z) zuh_body_pipe \<times> zuh_error \<times> heap" where
  "open_reader h2 fr seed cap p err h =
     (if h2 then (ZUH_OK, None, p, err, h)
      else case zuh_body_reader_init fr seed cap err h of (rc, r, err, h) \<Rightarrow>
        if rc \<noteq> ZUH_OK then (case zuh_body_pipe_free p h of (p, h) \<Rightarrow> (rc, None, p, err, h))
        else (ZUH_OK, Some r, p, err, h))"

definition open_timeout :: "zuh_get_opts \<Rightarrow> int" where
  "open_timeout opts =
     (if go_body_timeout_ms opts > 0 then go_body_timeout_ms opts
      else if go_timeout_ms opts > 0 then go_timeout_ms opts else ZUH_DEFAULT_TIMEOUT_MS)"

text \<open>
  \<^verbatim>\<open>open_body_new\<close>: the code, the body if there is one, the connection (whose request body may have been
  copied), the response headers, the error and the state.
\<close>

type_synonym ('s, 'n, 'b, 'w, 'z) open_new_result =
  "zuh_code \<times> ('s, 'n, 'b, 'z) zuh_open_body option \<times> ('s, 'n, 'b) zuh_conn \<times> zuh_headers \<times> zuh_error \<times> ('s, 'n, 'b, 'w) eng"

definition open_body_new ::
    "('s, 'n, 'b, 'w) eng_env \<Rightarrow> 'z zlib \<Rightarrow> ('s, 'n, 'b) zuh_conn \<Rightarrow> bool \<Rightarrow> zuh_framing \<Rightarrow> bytes \<Rightarrow> zuh_headers \<Rightarrow> int \<Rightarrow> u64 \<Rightarrow> bool
     \<Rightarrow> zuh_get_opts \<Rightarrow> zuh_uri \<Rightarrow> zuh_proxy \<Rightarrow> zuh_error \<Rightarrow> ('s, 'n, 'b, 'w) eng \<Rightarrow> ('s, 'n, 'b, 'w, 'z) open_new_result" where
  "open_body_new env zl c h2 fr seed hs minor cap no_decode opts u px err g =
     (case (if h2 then zuh_h2_own_body c err (eg_heap g) else (ZUH_OK, c, err, eg_heap g)) of (rc, c, err, h) \<Rightarrow>
      if rc \<noteq> ZUH_OK then (rc, None, c, hs, err, g\<lparr>eg_heap := h\<rparr>)
      else case zuh_calloc 1 SIZEOF_OPEN_BODY h of (b_ok, h) \<Rightarrow>
        case (if b_ok then zuh_buf_init 0 SIZE_MAX h else (False, zeroed_buffer, h)) of (ok, b0, h) \<Rightarrow>
        let block = (if b_ok then Some SIZEOF_OPEN_BODY else None) in
        if \<not> ok then
          (ZUH_ERR_NOMEM, None, c, hs, zuh_error_set err ZUH_ERR_NOMEM ZUH_PHASE_READ ''out of memory'',
           g\<lparr>eg_heap := zuh_free block h\<rparr>)
        else case zuh_body_pipe_init zl (zuh_sink_memory_init b0) hs no_decode cap err h of (rc, p, hs, err, h) \<Rightarrow>
          case (if rc = ZUH_OK then open_reader h2 fr seed cap p err h else (rc, None, p, err, h)) of (rc, rd, p, err, h) \<Rightarrow>
          if rc \<noteq> ZUH_OK then
            (rc, None, c, hs, err, g\<lparr>eg_heap := zuh_free block (snd (zuh_buf_free (sk_ctx (bp_sink p)) h))\<rparr>)
          else case (case eg_pool g of None \<Rightarrow> (None, h) | Some _ \<Rightarrow> zuh_engine_pool_key u opts (Some px) h) of (key, h) \<Rightarrow>
            (ZUH_OK,
             Some \<lparr>ob_s = Some c, ob_h2 = h2, ob_key = key,
               ob_reuse_if_ended = (if h2 then ZUH_REUSE_OK else zuh_reuse_decide ZUH_OK fr hs minor),
               ob_rd = rd, ob_pipe = p, ob_staged_off = 0, ob_timeout_ms = open_timeout opts,
               ob_ended = False, ob_aborted = False, ob_failed = False, ob_src = None\<rparr>,
             c, hs, err, g\<lparr>eg_heap := h\<rparr>))"

section \<open>Reading\<close>

type_synonym ('s, 'n, 'b, 'w, 'z) pull_result =
  "zuh_code \<times> ('s, 'n, 'b, 'z) zuh_open_body \<times> zuh_error \<times> ('s, 'n, 'b, 'w) eng"

definition unstage :: "('s, 'n, 'b, 'z) zuh_open_body \<Rightarrow> ('s, 'n, 'b, 'z) zuh_open_body" where
  "unstage b =
     (let p = ob_pipe b; s = bp_sink p
      in b\<lparr>ob_pipe := p\<lparr>bp_sink := s\<lparr>sk_ctx := (sk_ctx s)\<lparr>buf_data := []\<rparr>\<rparr>\<rparr>, ob_staged_off := 0\<rparr>)"

text \<open>One step of the driver of the connection. A body that was not ended has its connection; \<open>None\<close> is also the crash without.\<close>

definition pull_step ::
    "('s, 'n, 'b, 'w) eng_env \<Rightarrow> 'z zlib \<Rightarrow> zuh_deadline \<Rightarrow> ('s, 'n, 'b, 'z) zuh_open_body \<Rightarrow> zuh_error \<Rightarrow> ('s, 'n, 'b, 'w) eng
     \<Rightarrow> ('s, 'n, 'b, 'w, 'z) pull_result option" where
  "pull_step env zl dl b err g =
     (case (ob_s b, ob_rd b) of
        (Some (H2 i), _) \<Rightarrow>
          (case zuh_h2_body_step zl memory_vtable (ev_h2 env) i (ob_pipe b) dl err (eg_heap g) of
             None \<Rightarrow> None
           | Some (rc, i, p, d, err, h) \<Rightarrow>
               Some (rc, b\<lparr>ob_s := Some (H2 i), ob_pipe := p, ob_ended := (if rc = ZUH_OK then d else ob_ended b)\<rparr>, err, g\<lparr>eg_heap := h\<rparr>))
      | (Some (Transport s), Some r) \<Rightarrow>
          (case zuh_body_reader_step zl (he_vt (ev_h2 env)) memory_vtable r s (ob_pipe b) dl err (eg_heap g) of
             None \<Rightarrow> None
           | Some (rc, r, s, p, err, h) \<Rightarrow>
               Some (rc, b\<lparr>ob_s := Some (Transport s), ob_rd := Some r, ob_pipe := p,
                           ob_ended := (if rc = ZUH_OK then br_done r else ob_ended b)\<rparr>, err, g\<lparr>eg_heap := h\<rparr>))
      | _ \<Rightarrow> None)"

text \<open>What the end of the body says about the connection.\<close>

definition ended_reuse :: "('s, 'n, 'b, 'w) eng_env \<Rightarrow> ('s, 'n, 'b, 'z) zuh_open_body \<Rightarrow> zuh_reuse" where
  "ended_reuse env b =
     (let r = (if ob_h2 b
               then (if (case ob_s b of Some c \<Rightarrow> zuh_h2_reusable (ev_h2 env) c | None \<Rightarrow> False) then ZUH_REUSE_OK
                     else ZUH_NOREUSE_BODY_INCOMPLETE)
               else ob_reuse_if_ended b)
      in if r = ZUH_REUSE_OK \<and> bp_surplus (ob_pipe b) > 0 then ZUH_NOREUSE_FRAMING else r)"

text \<open>After a step: a failed body and an ended one give the connection up.\<close>

definition pull_settle ::
    "('s, 'n, 'b, 'w) eng_env \<Rightarrow> zuh_code \<Rightarrow> ('s, 'n, 'b, 'z) zuh_open_body \<Rightarrow> ('s, 'n, 'b, 'w) eng
     \<Rightarrow> ('s, 'n, 'b, 'z) zuh_open_body \<times> ('s, 'n, 'b, 'w) eng" where
  "pull_settle env rc b g =
     (if rc \<noteq> ZUH_OK then
        open_body_release env
          (if rc = ZUH_ERR_CANCELLED \<or> rc = ZUH_ERR_TIMEOUT then ZUH_NOREUSE_CANCELLED else ZUH_NOREUSE_BODY_INCOMPLETE)
          (b\<lparr>ob_failed := True\<rparr>) g
      else if ob_ended b then open_body_release env (ended_reuse env b) b g
      else (b, g))"

partial_function (option) pull_loop ::
    "('s, 'n, 'b, 'w) eng_env \<Rightarrow> 'z zlib \<Rightarrow> zuh_deadline \<Rightarrow> ('s, 'n, 'b, 'z) zuh_open_body \<Rightarrow> zuh_error \<Rightarrow> ('s, 'n, 'b, 'w) eng
     \<Rightarrow> ('s, 'n, 'b, 'w, 'z) pull_result option" where
  "pull_loop env zl dl b err g =
     (if length (staged b) \<noteq> ob_staged_off b \<or> ob_ended b then Some (ZUH_OK, b, err, g)
      else case pull_step env zl dl (unstage b) err g of
          None \<Rightarrow> None
        | Some (rc, b, err, g) \<Rightarrow>
            (case pull_settle env rc b g of (b, g) \<Rightarrow>
             if rc \<noteq> ZUH_OK then Some (rc, b, err, g) else pull_loop env zl dl b err g))"

text \<open>Up to \<open>n\<close> of the staged bytes go to the caller's buffer.\<close>

type_synonym ('s, 'n, 'b, 'w, 'z) open_read_result =
  "zuh_code \<times> ('s, 'n, 'b, 'z) zuh_open_body \<times> zuh_buffer \<times> zuh_error \<times> ('s, 'n, 'b, 'w) eng"

definition hand_out ::
    "('s, 'n, 'b, 'z) zuh_open_body \<Rightarrow> zuh_buffer \<Rightarrow> nat \<Rightarrow> zuh_error \<Rightarrow> ('s, 'n, 'b, 'w) eng \<Rightarrow> ('s, 'n, 'b, 'w, 'z) open_read_result" where
  "hand_out b out n err g =
     (let avail = length (staged b) - ob_staged_off b;
          n = (if n > avail then avail else n)
      in case (if n \<noteq> 0 then zuh_buf_append (take n (drop (ob_staged_off b) (staged b))) (out, eg_heap g)
               else (True, out, eg_heap g)) of (ok, out, h) \<Rightarrow>
         if \<not> ok then
           (ZUH_ERR_NOMEM, b, out, zuh_error_set err ZUH_ERR_NOMEM ZUH_PHASE_READ ''out of memory'', g\<lparr>eg_heap := h\<rparr>)
         else (ZUH_OK, b\<lparr>ob_staged_off := ob_staged_off b + n\<rparr>, out, err, g\<lparr>eg_heap := h\<rparr>))"

definition zuh_open_body_read_within ::
    "('s, 'n, 'b, 'w) eng_env \<Rightarrow> 'z zlib \<Rightarrow> ('s, 'n, 'b, 'z) zuh_open_body \<Rightarrow> zuh_buffer \<Rightarrow> nat \<Rightarrow> int \<Rightarrow> zuh_error \<Rightarrow> ('s, 'n, 'b, 'w) eng
     \<Rightarrow> ('s, 'n, 'b, 'w, 'z) open_read_result option" where
  "zuh_open_body_read_within env zl b out n timeout_ms err g =
     (if ob_failed b then
        Some (ZUH_ERR_IO, b, out, zuh_error_set err ZUH_ERR_IO ZUH_PHASE_READ ''the response body failed earlier'', g)
      else if ob_aborted b then
        Some (ZUH_ERR_CANCELLED, b, out,
          zuh_error_set err ZUH_ERR_CANCELLED ZUH_PHASE_READ ''the response body was aborted'', g)
      else
        let dl = zuh_deadline_in (ev_now env (eg_world g)) (if timeout_ms > 0 then timeout_ms else ob_timeout_ms b)
        in case pull_loop env zl dl b err g of
             None \<Rightarrow> None
           | Some (rc, b, err, g) \<Rightarrow>
               if rc \<noteq> ZUH_OK then Some (rc, b, out, err, g) else Some (hand_out b out n err g))"

definition zuh_open_body_read ::
    "('s, 'n, 'b, 'w) eng_env \<Rightarrow> 'z zlib \<Rightarrow> ('s, 'n, 'b, 'z) zuh_open_body \<Rightarrow> zuh_buffer \<Rightarrow> nat \<Rightarrow> zuh_error \<Rightarrow> ('s, 'n, 'b, 'w) eng
     \<Rightarrow> ('s, 'n, 'b, 'w, 'z) open_read_result option" where
  "zuh_open_body_read env zl b out n err g = zuh_open_body_read_within env zl b out n 0 err g"

section \<open>Ending early\<close>

definition zuh_open_body_abort ::
    "('s, 'n, 'b, 'w) eng_env \<Rightarrow> ('s, 'n, 'b, 'z) zuh_open_body \<Rightarrow> ('s, 'n, 'b, 'w) eng
     \<Rightarrow> (('s, 'n, 'b, 'z) zuh_open_body \<times> ('s, 'n, 'b, 'w) eng) option" where
  "zuh_open_body_abort env b g =
     (if ob_ended b \<or> ob_aborted b \<or> ob_failed b then Some (b, g)
      else
        let b = b\<lparr>ob_aborted := True\<rparr>
        in case ob_s b of
             Some (H2 i) \<Rightarrow>
               (case zuh_h2_cancel (ev_h2 env) i (zuh_deadline_in (ev_now env (eg_world g)) 1000) (eg_heap g) of
                  None \<Rightarrow> None
                | Some (i, h) \<Rightarrow>
                    Some (open_body_release env
                      (if zuh_h2_reusable (ev_h2 env) (H2 i) then ZUH_REUSE_OK else ZUH_NOREUSE_CANCELLED)
                      (b\<lparr>ob_s := Some (H2 i)\<rparr>) (g\<lparr>eg_heap := h\<rparr>)))
           | _ \<Rightarrow> Some (open_body_release env ZUH_NOREUSE_CANCELLED b g))"

definition zuh_open_body_done :: "('s, 'n, 'b, 'z) zuh_open_body \<Rightarrow> bool" where
  "zuh_open_body_done b = (ob_aborted b \<or> ob_failed b \<or> (ob_ended b \<and> ob_staged_off b = length (staged b)))"

definition zuh_open_body_ended_clean :: "('s, 'n, 'b, 'z) zuh_open_body \<Rightarrow> bool" where
  "zuh_open_body_ended_clean b = (\<not> ob_aborted b \<and> \<not> ob_failed b \<and> ob_ended b \<and> ob_staged_off b = length (staged b))"

definition zuh_open_body_trailers :: "('s, 'n, 'b, 'z) zuh_open_body \<Rightarrow> zuh_headers" where
  "zuh_open_body_trailers b = bp_trailers (ob_pipe b)"

definition zuh_open_body_source_ctx :: "('s, 'n, 'b, 'z) zuh_open_body \<Rightarrow> 'b option" where
  "zuh_open_body_source_ctx b = ob_src b"

definition zuh_open_body_free ::
    "('s, 'n, 'b, 'w) eng_env \<Rightarrow> ('s, 'n, 'b, 'z) zuh_open_body \<Rightarrow> ('s, 'n, 'b, 'w) eng \<Rightarrow> ('s, 'n, 'b, 'w) eng option" where
  "zuh_open_body_free env b g =
     (case zuh_open_body_abort env b g of
        None \<Rightarrow> None
      | Some (b, g) \<Rightarrow>
          (case open_body_release env ZUH_NOREUSE_CANCELLED b g of (b, g) \<Rightarrow>
           let h = (case ob_rd b of Some r \<Rightarrow> snd (zuh_body_reader_free r (eg_heap g)) | None \<Rightarrow> eg_heap g);
               h = snd (zuh_body_pipe_free (ob_pipe b) h);
               h = snd (zuh_buf_free (sk_ctx (bp_sink (ob_pipe b))) h);
               h = (case ob_key b of Some k \<Rightarrow> zuh_pool_key_free k h | None \<Rightarrow> h);
               g = g\<lparr>eg_heap := zuh_free (Some SIZEOF_OPEN_BODY) h\<rparr>
           in Some (if ob_src b = None then g else log_event Source_Released g)))"

section \<open>The account of one body\<close>

text \<open>The life of a body: reads and aborts, with other code running between them, which does not touch its connection.\<close>

inductive pulled ::
    "('s, 'n, 'b, 'w) eng_env \<Rightarrow> 'z zlib \<Rightarrow> ('s, 'n, 'b, 'z) zuh_open_body \<Rightarrow> ('s, 'n, 'b, 'w) eng
     \<Rightarrow> ('s, 'n, 'b, 'z) zuh_open_body \<Rightarrow> ('s, 'n, 'b, 'w) eng \<Rightarrow> bool" for env zl b0 g0 where
  fresh: "pulled env zl b0 g0 b0 g0"
| read: "pulled env zl b0 g0 b g \<Longrightarrow> zuh_open_body_read_within env zl b out n ms err g = Some (rc, b', out', err', g')
    \<Longrightarrow> pulled env zl b0 g0 b' g'"
| abort: "pulled env zl b0 g0 b g \<Longrightarrow> zuh_open_body_abort env b g = Some (b', g') \<Longrightarrow> pulled env zl b0 g0 b' g'"
| elsewhere: "pulled env zl b0 g0 b g \<Longrightarrow> eg_log g' = eg_log g \<Longrightarrow> pulled env zl b0 g0 b g'"

text \<open>What an event says of the connection it gives up: whether it may carry another request.\<close>

definition fit_again :: "('s, 'n, 'b, 'w) eng_env \<Rightarrow> ('s, 'n, 'b, 'z) zuh_open_body \<Rightarrow> ('s, 'n, 'b) zuh_conn \<Rightarrow> bool" where
  "fit_again env b c \<longleftrightarrow> \<not> ob_failed b \<and>
     (ob_aborted b \<and> zuh_h2_reusable (ev_h2 env) c
      \<or> ob_ended b \<and> bp_surplus (ob_pipe b) = 0
        \<and> (if ob_h2 b then zuh_h2_reusable (ev_h2 env) c else ob_reuse_if_ended b = ZUH_REUSE_OK))"

definition gave_up ::
    "('s, 'n, 'b, 'w) eng_env \<Rightarrow> ('s, 'n, 'b, 'z) zuh_open_body \<Rightarrow> ('s, 'n, 'b) eng_event \<Rightarrow> bool" where
  "gave_up env b e \<longleftrightarrow> (\<exists>c. (\<exists>s. e = Dropped c s) \<or> (\<exists>r. e = Released c r \<and> (r = ZUH_REUSE_OK \<longrightarrow> fit_again env b c)))"

definition accounted ::
    "('s, 'n, 'b, 'w) eng_env \<Rightarrow> ('s, 'n, 'b, 'w) eng \<Rightarrow> ('s, 'n, 'b, 'z) zuh_open_body \<Rightarrow> ('s, 'n, 'b, 'w) eng \<Rightarrow> bool" where
  "accounted env g0 b g \<longleftrightarrow>
     (if ob_s b = None then (ob_ended b \<or> ob_aborted b \<or> ob_failed b) \<and> (\<exists>e. eg_log g = eg_log g0 @ [e] \<and> gave_up env b e)
      else \<not> (ob_ended b \<or> ob_aborted b \<or> ob_failed b) \<and> eg_log g = eg_log g0)"

lemma eng_log_simps [simp]:
  "eg_log (log_event e g) = eg_log g @ [e]" "eg_log (leave_pool p g) = eg_log g" "eg_log (trace_event now ev d n g) = eg_log g"
  by (simp_all add: log_event_def leave_pool_def trace_event_def)

lemma release_fields:
  assumes "open_body_release env r b g = (b', g')"
  shows "b' = b\<lparr>ob_s := None\<rparr> \<and> (case ob_s b of None \<Rightarrow> g' = g
    | Some c \<Rightarrow> \<exists>e. eg_log g' = eg_log g @ [e] \<and> (e = Released c r \<or> (\<exists>s. e = Dropped c s)))"
proof (cases "ob_s b")
  case None
  with assms show ?thesis by (cases b) (auto simp: open_body_release_def)
next
  case (Some c)
  have "\<exists>s. eg_log (drop_stream env (Some c) g) = eg_log g @ [Dropped c s]"
    by (cases c) (auto simp: drop_stream_def Let_def split: prod.splits)
  with assms Some show ?thesis
    by (auto simp: open_body_release_def pool_release_def split: option.splits)
qed

lemma pull_step_keeps:
  assumes "pull_step env zl dl b err g = Some (rc, b', err', g')"
  shows "ob_s b' \<noteq> None \<and> ob_failed b' = ob_failed b \<and> ob_aborted b' = ob_aborted b \<and> ob_h2 b' = ob_h2 b \<and> ob_src b' = ob_src b
    \<and> ob_reuse_if_ended b' = ob_reuse_if_ended b \<and> ob_key b' = ob_key b \<and> eg_log g' = eg_log g \<and> (rc \<noteq> ZUH_OK \<longrightarrow> ob_ended b' = ob_ended b)"
  using assms by (auto simp: pull_step_def split: option.splits zuh_conn.splits prod.splits)

lemma unstage_fields [simp]:
  "ob_s (unstage b) = ob_s b" "ob_failed (unstage b) = ob_failed b" "ob_aborted (unstage b) = ob_aborted b" "ob_h2 (unstage b) = ob_h2 b"
  "ob_ended (unstage b) = ob_ended b" "ob_src (unstage b) = ob_src b" "ob_reuse_if_ended (unstage b) = ob_reuse_if_ended b"
  "ob_key (unstage b) = ob_key b" "ob_rd (unstage b) = ob_rd b" "staged (unstage b) = []" "ob_staged_off (unstage b) = 0"
  by (simp_all add: unstage_def Let_def staged_def)

lemma settle_accounted:
  assumes "accounted env g0 b g" "ob_s b \<noteq> None" and step: "pull_step env zl dl (unstage b) err g = Some (rc, b1, err1, g1)"
    and settle: "pull_settle env rc b1 g1 = (b2, g2)"
  shows "accounted env g0 b2 g2 \<and> (ob_s b2 = None \<longleftrightarrow> rc \<noteq> ZUH_OK \<or> ob_ended b2)"
proof -
  note k = pull_step_keeps [OF step]
  have st: "\<not> ob_ended b" "\<not> ob_aborted b" "\<not> ob_failed b" "eg_log g = eg_log g0" using assms(1,2) by (simp_all add: accounted_def)
  then obtain c where c: "ob_s b1 = Some c" using k by auto
  show ?thesis
  proof (cases "rc = ZUH_OK \<and> \<not> ob_ended b1")
    case True
    with settle k st show ?thesis by (simp add: pull_settle_def accounted_def)
  next
    case False
    define r where "r = (if rc \<noteq> ZUH_OK then if rc = ZUH_ERR_CANCELLED \<or> rc = ZUH_ERR_TIMEOUT then ZUH_NOREUSE_CANCELLED else ZUH_NOREUSE_BODY_INCOMPLETE
        else ended_reuse env b1)"
    define b where "b = (if rc \<noteq> ZUH_OK then b1\<lparr>ob_failed := True\<rparr> else b1)"
    have "open_body_release env r b g1 = (b2, g2)" using settle False by (auto simp: pull_settle_def r_def b_def)
    from release_fields [OF this] c obtain e where e: "b2 = b\<lparr>ob_s := None\<rparr>" "eg_log g2 = eg_log g1 @ [e]"
        "e = Released c r \<or> (\<exists>s. e = Dropped c s)" by (auto simp: b_def split: if_splits)
    have "fit_again env b2 c" if "r = ZUH_REUSE_OK"
      using that False e(1) k st c
      by (auto simp: r_def b_def fit_again_def ended_reuse_def Let_def word_gt_0 split: if_splits)
    then have "gave_up env b2 e" using e(3) by (auto simp: gave_up_def)
    with False e k st show ?thesis by (auto simp: accounted_def b_def)
  qed
qed

lemma pull_loop_accounted:
  assumes run: "pull_loop env zl dl b err g = Some r" and "accounted env g0 b g" "\<not> ob_failed b" "\<not> ob_aborted b"
  shows "case r of (rc, b', err', g') \<Rightarrow> accounted env g0 b' g'"
  using assms(2-4)
proof (induction rule: pull_loop.raw_induct [OF _ run])
  case (1 loop env zl dl b err g r)
  show ?case
  proof (cases "length (staged b) \<noteq> ob_staged_off b \<or> ob_ended b")
    case True
    with "1"(2-) show ?thesis by auto
  next
    case False
    obtain rc b1 err1 g1 where st: "pull_step env zl dl (unstage b) err g = Some (rc, b1, err1, g1)"
      using "1"(2) False by (auto split: option.splits)
    obtain b2 g2 where se: "pull_settle env rc b1 g1 = (b2, g2)" by (rule prod.exhaust)
    have has: "ob_s b \<noteq> None" using "1"(3-) False by (auto simp: accounted_def split: if_splits)
    note a = settle_accounted [OF "1"(3) has st se]
    have f: "rc = ZUH_OK \<Longrightarrow> \<not> ob_failed b2 \<and> \<not> ob_aborted b2"
      using se pull_step_keeps [OF st] "1"(4,5)
      by (auto simp: pull_settle_def dest!: release_fields split: if_splits)
    show ?thesis
    proof (cases "rc = ZUH_OK")
      case True
      with "1"(2) False st se have "loop env zl dl b2 err1 g2 = Some r" by simp
      from "1"(1) [OF this] a f True show ?thesis by blast
    next
      case bad: False
      with "1"(2) False st se a show ?thesis by auto
    qed
  qed
qed

lemma hand_out_keeps:
  assumes "hand_out b out n err g = (rc, b', out', err', g')"
  shows "eg_log g' = eg_log g \<and> (b' = b \<or> (\<exists>off. b' = b\<lparr>ob_staged_off := off\<rparr>))"
  using assms by (auto simp: hand_out_def Let_def split: prod.splits if_splits)

lemma accounted_off [simp]: "accounted env g0 (b\<lparr>ob_staged_off := off\<rparr>) g = accounted env g0 b g"
  by (simp add: accounted_def gave_up_def fit_again_def)

lemma gave_up_s [simp]: "gave_up env (b\<lparr>ob_s := x\<rparr>) e = gave_up env b e"
  by (simp add: gave_up_def fit_again_def)

lemma accounted_log: "accounted env g0 b g \<Longrightarrow> eg_log g' = eg_log g \<Longrightarrow> accounted env g0 b g'"
  by (simp add: accounted_def)

lemma read_accounted:
  assumes "accounted env g0 b g" and run: "zuh_open_body_read_within env zl b out n ms err g = Some (rc, b', out', err', g')"
  shows "accounted env g0 b' g'"
proof (cases "ob_failed b \<or> ob_aborted b")
  case True
  with assms show ?thesis by (auto simp: zuh_open_body_read_within_def split: if_splits)
next
  case False
  then obtain rc1 b1 err1 g1 where l: "pull_loop env zl (zuh_deadline_in (ev_now env (eg_world g)) (if ms > 0 then ms else ob_timeout_ms b)) b err g
      = Some (rc1, b1, err1, g1)"
    using run by (auto simp: zuh_open_body_read_within_def Let_def split: option.splits)
  from pull_loop_accounted [OF l assms(1)] False have a: "accounted env g0 b1 g1" by simp
  show ?thesis
  proof (cases "rc1 = ZUH_OK")
    case True
    with run False l have "hand_out b1 out n err1 g1 = (rc, b', out', err', g')"
      by (simp add: zuh_open_body_read_within_def Let_def)
    from hand_out_keeps [OF this] accounted_log [OF a] show ?thesis by auto
  next
    case False
    with run \<open>\<not> (ob_failed b \<or> ob_aborted b)\<close> l have "b' = b1" "g' = g1"
      by (simp_all add: zuh_open_body_read_within_def Let_def)
    with a show ?thesis by simp
  qed
qed

lemma abort_accounted:
  assumes "accounted env g0 b g" and run: "zuh_open_body_abort env b g = Some (b', g')"
  shows "accounted env g0 b' g' \<and> b' = (if ob_s b = None then b else b\<lparr>ob_aborted := True, ob_s := None\<rparr>)"
proof (cases "ob_ended b \<or> ob_aborted b \<or> ob_failed b")
  case True
  with assms show ?thesis by (auto simp: zuh_open_body_abort_def accounted_def split: if_splits)
next
  case False
  then obtain c where c: "ob_s b = Some c" and log: "eg_log g = eg_log g0" using assms(1) by (auto simp: accounted_def split: if_splits)
  have "\<exists>r c2 g1. open_body_release env r (b\<lparr>ob_aborted := True, ob_s := Some c2\<rparr>) g1 = (b', g') \<and> eg_log g1 = eg_log g
      \<and> (r = ZUH_REUSE_OK \<longrightarrow> zuh_h2_reusable (ev_h2 env) c2)"
  proof (cases c)
    case (Transport s)
    have "b\<lparr>ob_aborted := True\<rparr> = b\<lparr>ob_aborted := True, ob_s := Some c\<rparr>" using c by (cases b) simp
    moreover have "open_body_release env ZUH_NOREUSE_CANCELLED (b\<lparr>ob_aborted := True\<rparr>) g = (b', g')"
      using run False c Transport by (simp add: zuh_open_body_abort_def Let_def)
    ultimately have "open_body_release env ZUH_NOREUSE_CANCELLED (b\<lparr>ob_aborted := True, ob_s := Some c\<rparr>) g = (b', g')" by argo
    then show ?thesis by blast
  next
    case (H2 i)
    then obtain j h where j: "zuh_h2_cancel (ev_h2 env) i (zuh_deadline_in (ev_now env (eg_world g)) 1000) (eg_heap g) = Some (j, h)"
      using run False c by (auto simp: zuh_open_body_abort_def Let_def split: option.splits)
    with run False c H2 show ?thesis
      by (intro exI [of _ "if zuh_h2_reusable (ev_h2 env) (H2 j) then ZUH_REUSE_OK else ZUH_NOREUSE_CANCELLED"]
          exI [of _ "H2 j"] exI [of _ "g\<lparr>eg_heap := h\<rparr>"]) (simp add: zuh_open_body_abort_def Let_def)
  qed
  then obtain r c2 g1 where r: "open_body_release env r (b\<lparr>ob_aborted := True, ob_s := Some c2\<rparr>) g1 = (b', g')"
      "eg_log g1 = eg_log g" "r = ZUH_REUSE_OK \<longrightarrow> zuh_h2_reusable (ev_h2 env) c2" by blast
  from release_fields [OF r(1)] obtain e where e: "b' = b\<lparr>ob_aborted := True, ob_s := None\<rparr>" "eg_log g' = eg_log g1 @ [e]"
      "e = Released c2 r \<or> (\<exists>s. e = Dropped c2 s)" by auto
  have "gave_up env b' e" using e(1,3) r(3) False by (auto simp: gave_up_def fit_again_def)
  with e r(2) log c show ?thesis by (auto simp: accounted_def)
qed

lemma pulled_accounted:
  assumes "pulled env zl b0 g0 b g" and "accounted env g0 b0 g0"
  shows "accounted env g0 b g"
  using assms(1)
proof induction
  case fresh
  show ?case by (rule assms(2))
next
  case (read b g out n ms err rc b' out' err' g')
  then show ?case using read_accounted by blast
next
  case (abort b g b' g')
  then show ?case using abort_accounted by blast
next
  case (elsewhere b g g')
  from accounted_log [OF elsewhere(3,2)] show ?case .
qed

lemma new_accounted:
  assumes "open_body_new env zl c h2 fr seed hs minor cap nd opts u px err g = (rc, ob, c', hs', err', g')"
  shows "eg_log g' = eg_log g \<and> (rc = ZUH_OK \<longleftrightarrow> ob \<noteq> None)
    \<and> (\<forall>b. ob = Some b \<longrightarrow> accounted env g' b g' \<and> ob_s b = Some c' \<and> ob_src b = None \<and> ob_h2 b = h2)"
proof -
  obtain rc1 c1 err1 h1 where 1: "(if h2 then zuh_h2_own_body c err (eg_heap g) else (ZUH_OK, c, err, eg_heap g)) = (rc1, c1, err1, h1)"
    by (metis prod.exhaust)
  obtain ok1 h2' where 2: "zuh_calloc 1 SIZEOF_OPEN_BODY h1 = (ok1, h2')" by (rule prod.exhaust)
  obtain ok b h3 where 3: "(if ok1 then zuh_buf_init 0 SIZE_MAX h2' else (False, zeroed_buffer, h2')) = (ok, b, h3)" by (rule prod_cases3)
  obtain rc2 p hs2 err2 h4 where 4: "zuh_body_pipe_init zl (zuh_sink_memory_init b) hs nd cap err1 h3 = (rc2, p, hs2, err2, h4)"
    by (metis prod.exhaust)
  obtain rc3 rd p3 err3 h5 where 5: "(if rc2 = ZUH_OK then open_reader h2 fr seed cap p err2 h4 else (rc2, None, p, err2, h4)) = (rc3, rd, p3, err3, h5)"
    by (metis prod.exhaust)
  obtain key h6 where 6: "(case eg_pool g of None \<Rightarrow> (None, h5) | Some _ \<Rightarrow> zuh_engine_pool_key u opts (Some px) h5) = (key, h6)"
    by (rule prod.exhaust)
  show ?thesis using assms unfolding open_body_new_def 1 2 3 4 5 6 prod.case Let_def
    by (auto simp: accounted_def split: if_splits)
qed

lemma free_given_up:
  assumes "accounted env g0 b g" and "zuh_open_body_free env b g = Some g'"
  shows "\<exists>e. gave_up env (if ob_s b = None then b else b\<lparr>ob_aborted := True\<rparr>) e
    \<and> eg_log g' = eg_log g0 @ [e] @ (if ob_src b = None then [] else [Source_Released])"
proof -
  obtain b1 g1 where a: "zuh_open_body_abort env b g = Some (b1, g1)"
    using assms(2) by (auto simp: zuh_open_body_free_def split: option.splits)
  let ?b = "if ob_s b = None then b else b\<lparr>ob_aborted := True\<rparr>"
  from abort_accounted [OF assms(1) a] have b1: "accounted env g0 b1 g1" "b1 = ?b\<lparr>ob_s := None\<rparr>" by (auto split: if_splits)
  then have "ob_s b1 = None" by simp
  with b1 obtain e where "gave_up env ?b e" "eg_log g1 = eg_log g0 @ [e]"
    unfolding accounted_def by (metis gave_up_s)
  moreover have "eg_log g' = eg_log g1 @ (if ob_src b = None then [] else [Source_Released])"
    using assms(2) a b1(2) by (auto simp: zuh_open_body_free_def Let_def open_body_release_def split: if_splits)
  ultimately show ?thesis by (intro exI [of _ e]) simp
qed

lemma free_returns: "zuh_open_body_free env b g = None \<longleftrightarrow> zuh_open_body_abort env b g = None"
  by (cases "zuh_open_body_abort env b g") (auto simp: zuh_open_body_free_def Let_def split_beta)


section \<open>The bytes of one body\<close>

text \<open>A sequence of reads into one buffer, each with a size and a time limit, until one fails.\<close>

fun pull_all ::
    "('s, 'n, 'b, 'w) eng_env \<Rightarrow> 'z zlib \<Rightarrow> (nat \<times> int) list \<Rightarrow> ('s, 'n, 'b, 'z) zuh_open_body \<Rightarrow> zuh_buffer \<Rightarrow> zuh_error
     \<Rightarrow> ('s, 'n, 'b, 'w) eng \<Rightarrow> ('s, 'n, 'b, 'w, 'z) open_read_result option" where
  "pull_all env zl [] b out err g = Some (ZUH_OK, b, out, err, g)"
| "pull_all env zl ((n, ms) # ns) b out err g =
     (case zuh_open_body_read_within env zl b out n ms err g of
        None \<Rightarrow> None
      | Some (rc, b, out, err, g) \<Rightarrow> if rc \<noteq> ZUH_OK then Some (rc, b, out, err, g) else pull_all env zl ns b out err g)"

text \<open>The state a connection was given up in, and where the connection of a body is.\<close>

fun parted :: "('s, 'n, 'b) eng_event \<Rightarrow> ('s, 'n, 'b) zuh_conn option" where
  "parted (Dropped c s) = Some c"
| "parted (Released c r) = Some c"
| "parted e = None"

definition conn_at :: "('s, 'n, 'b, 'z) zuh_open_body \<Rightarrow> ('s, 'n, 'b, 'w) eng \<Rightarrow> 's \<Rightarrow> bool" where
  "conn_at b g s \<longleftrightarrow> ob_s b = Some (Transport s) \<or> ob_s b = None \<and> (\<exists>e \<in> set (eg_log g). parted e = Some (Transport s))"

text \<open>After \<open>D\<close> was handed out: \<open>D\<close> and what is staged are what the reader has delivered of the bytes that arrived.\<close>

definition pulling ::
    "('s \<Rightarrow> bytes) \<Rightarrow> zuh_framing \<Rightarrow> bytes \<Rightarrow> 's \<Rightarrow> bytes \<Rightarrow> ('s, 'n, 'b, 'z) zuh_open_body \<Rightarrow> ('s, 'n, 'b, 'w) eng \<Rightarrow> bool" where
  "pulling got fr seed s0 D b g \<longleftrightarrow>
     (\<exists>seen s. got s = got s0 @ seen \<and> conn_at b g s \<and>
        (if ob_failed b then \<exists>k. D = take k (wanted fr (seed @ seen))
         else ob_staged_off b \<le> length (staged b)
           \<and> (\<exists>r. ob_rd b = Some r \<and> ob_ended b = br_done r
                 \<and> reading fr [] (D @ drop (ob_staged_off b) (staged b)) (seed @ seen) r (ob_pipe b))))"

lemma memory_after: "sink_contract memory_vtable (\<lambda>s. D @ buf_data (sk_ctx s))"
proof
  fix s data err h rc s' err' h'
  assume w: "zuh_sink_write memory_vtable s data err h = (rc, s', err', h')"
  from memk.sinks_prefix [OF w] show "\<exists>k. D @ buf_data (sk_ctx s') = (D @ buf_data (sk_ctx s)) @ take k data \<and> (rc = ZUH_OK \<longrightarrow> k = length data)"
    by auto
  from memk.counts [OF w] show "sk_written s' = sk_written s + (if rc = ZUH_OK then of_nat (length data) else 0)" .
  from memk.reports [OF w] show "if rc = ZUH_OK then err' = err else err_code err' = rc" .
qed

lemma reading_prefix: "reading fr [] S T r p \<Longrightarrow> \<exists>k. S = take k (wanted fr T)"
proof -
  assume r: "reading fr [] S T r p"
  show ?thesis
  proof (cases "br_done r")
    case True
    with r show ?thesis by (intro exI [of _ "length S"]) (simp add: reading_def)
  next
    case False
    with r obtain C where "T = C @ buf_data (br_seed r)" "S = C" "fr_kind fr = ZUH_FRAME_NONE \<longrightarrow> C = []"
        "fr_kind fr = ZUH_FRAME_LENGTH \<longrightarrow> length C \<le> unat (fr_length fr)"
      by (auto simp: reading_def)
    then show ?thesis by (intro exI [of _ "length S"]) (auto simp: wanted_def split: zuh_frame_kind.splits)
  qed
qed

lemma reading_pipe:
  "bp_inflating p = bp_inflating q \<Longrightarrow> bp_raw_seen p = bp_raw_seen q \<Longrightarrow> bp_surplus p = bp_surplus q \<Longrightarrow>
   reading fr S0 S T r p = reading fr S0 S T r q"
  by (simp add: reading_def)

lemma prefix_of_take: "D @ x = take k W \<Longrightarrow> \<exists>j. D = take j W"
  by (metis append_eq_conv_conj take_take)

lemma settle_keeps:
  assumes "pull_settle env rc b g = (b', g')"
  shows "ob_rd b' = ob_rd b \<and> ob_pipe b' = ob_pipe b \<and> ob_staged_off b' = ob_staged_off b \<and> ob_ended b' = ob_ended b
    \<and> ob_failed b' = (ob_failed b \<or> rc \<noteq> ZUH_OK) \<and> (ob_s b = Some (Transport s) \<longrightarrow> conn_at b' g' s)"
  using assms by (auto simp: pull_settle_def conn_at_def dest!: release_fields split: if_splits)

lemma step_pulling:
  assumes reads: "reads_faithful (he_vt (ev_h2 env)) got" and nck: "fr_kind fr \<noteq> ZUH_FRAME_CHUNKED"
    and big: "unat (fr_length fr) + ZUH_READ_CHUNK < 2 ^ 64"
    and inv: "pulling got fr seed s0 D b g" "\<not> ob_failed b" "length (staged b) = ob_staged_off b" "\<not> ob_ended b"
    and step: "pull_step env zl dl (unstage b) err g = Some (rc, b1, err1, g1)"
    and settle: "pull_settle env rc b1 g1 = (b2, g2)"
  shows "pulling got fr seed s0 D b2 g2"
proof -
  obtain seen s r where s: "got s = got s0 @ seen" "conn_at b g s" "ob_rd b = Some r" "\<not> br_done r"
      "reading fr [] (D @ drop (ob_staged_off b) (staged b)) (seed @ seen) r (ob_pipe b)"
    using inv by (auto simp: pulling_def)
  have conn: "ob_s b = Some (Transport s)" using s(2) step by (auto simp: conn_at_def pull_step_def)
  let ?p = "ob_pipe (unstage b)" and ?D = "\<lambda>s. D @ buf_data (sk_ctx s)"
  have rd: "reading fr [] (?D (bp_sink ?p)) (seed @ seen) r ?p"
    using s(5) inv(3) reading_pipe [of ?p "ob_pipe b"] by (simp add: unstage_def Let_def)
  obtain r1 s1 p1 h1 where st: "zuh_body_reader_step zl (he_vt (ev_h2 env)) memory_vtable r s ?p dl err (eg_heap g) = Some (rc, r1, s1, p1, err1, h1)"
    and b1: "b1 = (unstage b)\<lparr>ob_s := Some (Transport s1), ob_rd := Some r1, ob_pipe := p1, ob_ended := (if rc = ZUH_OK then br_done r1 else ob_ended b)\<rparr>"
    using step conn s(3) by (auto simp: pull_step_def split: option.splits)
  from step_reading [OF reads memory_after nck big rd s(4) st] obtain x where x: "got s1 = got s @ x"
      "if rc = ZUH_OK then reading fr [] (?D (bp_sink p1)) ((seed @ seen) @ x) r1 p1
       else \<exists>k. ?D (bp_sink p1) = [] @ take k (wanted fr ((seed @ seen) @ x))"
    by (elim exE conjE) (rule that, assumption, erule if_weaken)
  have k: "ob_rd b2 = Some r1 \<and> ob_pipe b2 = p1 \<and> ob_staged_off b2 = 0 \<and> ob_failed b2 = (rc \<noteq> ZUH_OK) \<and> conn_at b2 g2 s1
      \<and> (rc = ZUH_OK \<longrightarrow> ob_ended b2 = br_done r1)"
    using settle_keeps [OF settle, of s1] b1 inv(2) by simp
  have g: "got s1 = got s0 @ seen @ x" using x(1) s(1) by simp
  show ?thesis
  proof (cases "rc = ZUH_OK")
    case True
    with x(2) k have "reading fr [] (D @ drop (ob_staged_off b2) (staged b2)) (seed @ seen @ x) r1 (ob_pipe b2)" by (simp add: staged_def)
    with True k g show ?thesis unfolding pulling_def by (intro exI [of _ "seen @ x"] exI [of _ s1]) simp
  next
    case False
    with x(2) have "\<exists>j. D = take j (wanted fr (seed @ seen @ x))" using prefix_of_take by fastforce
    with False k g show ?thesis unfolding pulling_def by (intro exI [of _ "seen @ x"] exI [of _ s1]) simp
  qed
qed

lemma loop_pulling:
  assumes run: "pull_loop env zl dl b err g = Some res"
    and nck: "fr_kind fr \<noteq> ZUH_FRAME_CHUNKED" and big: "unat (fr_length fr) + ZUH_READ_CHUNK < 2 ^ 64"
    and reads: "reads_faithful (he_vt (ev_h2 env)) got" and "pulling got fr seed s0 D b g" and "\<not> ob_failed b"
  shows "case res of (rc, b', err', g') \<Rightarrow> pulling got fr seed s0 D b' g' \<and> (rc = ZUH_OK \<longrightarrow> \<not> ob_failed b')"
  using reads assms(5,6)
proof (induction rule: pull_loop.raw_induct [OF _ run])
  case (1 loop env zl dl b err g res)
  show ?case
  proof (cases "length (staged b) \<noteq> ob_staged_off b \<or> ob_ended b")
    case True
    with "1"(2-) show ?thesis by auto
  next
    case False
    obtain rc b1 err1 g1 where st: "pull_step env zl dl (unstage b) err g = Some (rc, b1, err1, g1)"
      using "1"(2) False by (auto split: option.splits)
    obtain b2 g2 where se: "pull_settle env rc b1 g1 = (b2, g2)" by (rule prod.exhaust)
    have p: "pulling got fr seed s0 D b2 g2"
      using step_pulling [OF "1"(3) nck big "1"(4,5) _ _ st se] False by simp
    have f: "ob_failed b2 = (rc \<noteq> ZUH_OK)" using settle_keeps [OF se] pull_step_keeps [OF st] "1"(5) by simp
    show ?thesis
    proof (cases "rc = ZUH_OK")
      case True
      with "1"(2) False st se have "loop env zl dl b2 err1 g2 = Some res" by simp
      from "1"(1) [OF this "1"(3) p] f True show ?thesis by simp
    next
      case bad: False
      with "1"(2) False st se p show ?thesis by auto
    qed
  qed
qed

lemma hand_out_pulling:
  assumes h: "hand_out b out n err g = (rc, b', out', err', g')" and p: "pulling got fr seed s0 D b g" "\<not> ob_failed b"
  shows "\<exists>x. buf_data out' = buf_data out @ x \<and> pulling got fr seed s0 (D @ x) b' g'"
proof -
  define m where "m = (if n > length (staged b) - ob_staged_off b then length (staged b) - ob_staged_off b else n)"
  obtain ok o1 h1 where a: "(if m \<noteq> 0 then zuh_buf_append (take m (drop (ob_staged_off b) (staged b))) (out, eg_heap g) else (True, out, eg_heap g))
      = (ok, o1, h1)" by (rule prod_cases3)
  have d: "buf_data o1 = buf_data out @ (if ok then take m (drop (ob_staged_off b) (staged b)) else [])"
    using a buf_append_data by (auto split: if_splits)
  have le: "ob_staged_off b \<le> length (staged b)" using p by (auto simp: pulling_def)
  have off: "staged (b\<lparr>ob_staged_off := k\<rparr>) = staged b" for k by (simp add: staged_def)
  show ?thesis
  proof (cases ok)
    case True
    then have r: "b' = b\<lparr>ob_staged_off := ob_staged_off b + m\<rparr>" "out' = o1" "g' = g\<lparr>eg_heap := h1\<rparr>"
      using h a unfolding hand_out_def Let_def m_def [symmetric] by simp_all
    have "take m (drop (ob_staged_off b) (staged b)) @ drop (ob_staged_off b + m) (staged b) = drop (ob_staged_off b) (staged b)"
      by (metis add.commute append_take_drop_id drop_drop)
    moreover have "ob_staged_off b + m \<le> length (staged b)" using le by (auto simp: m_def)
    ultimately have "pulling got fr seed s0 (D @ take m (drop (ob_staged_off b) (staged b))) b' g'"
      using p unfolding r pulling_def by (simp add: conn_at_def off)
    with d True r show ?thesis by auto
  next
    case False
    then have r: "b' = b" "out' = o1" "g' = g\<lparr>eg_heap := h1\<rparr>"
      using h a unfolding hand_out_def Let_def m_def [symmetric] by simp_all
    have "pulling got fr seed s0 D b g'" using p(1) unfolding r pulling_def conn_at_def by simp
    with d False r show ?thesis by auto
  qed
qed

lemma read_pulling:
  assumes run: "zuh_open_body_read_within env zl b out n ms err g = Some (rc, b', out', err', g')"
    and nck: "fr_kind fr \<noteq> ZUH_FRAME_CHUNKED" and big: "unat (fr_length fr) + ZUH_READ_CHUNK < 2 ^ 64"
    and reads: "reads_faithful (he_vt (ev_h2 env)) got" and p: "pulling got fr seed s0 D b g"
  shows "\<exists>x. buf_data out' = buf_data out @ x \<and> pulling got fr seed s0 (D @ x) b' g'"
proof (cases "ob_failed b \<or> ob_aborted b")
  case True
  with run p show ?thesis by (auto simp: zuh_open_body_read_within_def split: if_splits)
next
  case False
  then obtain rc1 b1 err1 g1 where l: "pull_loop env zl (zuh_deadline_in (ev_now env (eg_world g)) (if ms > 0 then ms else ob_timeout_ms b)) b err g
      = Some (rc1, b1, err1, g1)"
    using run by (auto simp: zuh_open_body_read_within_def Let_def split: option.splits)
  have a: "pulling got fr seed s0 D b1 g1" "rc1 = ZUH_OK \<Longrightarrow> \<not> ob_failed b1"
    using loop_pulling [OF l nck big reads p] False by simp_all
  show ?thesis
  proof (cases "rc1 = ZUH_OK")
    case True
    with run False l have "hand_out b1 out n err1 g1 = (rc, b', out', err', g')"
      by (simp add: zuh_open_body_read_within_def Let_def)
    from hand_out_pulling [OF this a(1) a(2) [OF True]] show ?thesis .
  next
    case bad: False
    with run False l have "b' = b1" "g' = g1" "out' = out" by (simp_all add: zuh_open_body_read_within_def Let_def)
    with a show ?thesis by auto
  qed
qed

lemma pull_all_pulling:
  assumes "pull_all env zl ns b out err g = Some (rc, b', out', err', g')"
    and nck: "fr_kind fr \<noteq> ZUH_FRAME_CHUNKED" and big: "unat (fr_length fr) + ZUH_READ_CHUNK < 2 ^ 64"
    and reads: "reads_faithful (he_vt (ev_h2 env)) got" and "pulling got fr seed s0 D b g"
  shows "\<exists>x. buf_data out' = buf_data out @ x \<and> pulling got fr seed s0 (D @ x) b' g'"
  using assms(1,5)
proof (induction ns arbitrary: b out err g D)
  case (Cons nm ns)
  obtain n ms where nm: "nm = (n, ms)" by (rule prod.exhaust)
  obtain rc1 b1 out1 err1 g1 where r: "zuh_open_body_read_within env zl b out n ms err g = Some (rc1, b1, out1, err1, g1)"
    using Cons.prems(1) nm by (auto split: option.splits)
  obtain x where x: "buf_data out1 = buf_data out @ x" "pulling got fr seed s0 (D @ x) b1 g1"
    using read_pulling [OF r nck big reads Cons.prems(2)] by blast
  show ?case
  proof (cases "rc1 = ZUH_OK")
    case True
    with Cons.prems(1) nm r have "pull_all env zl ns b1 out1 err1 g1 = Some (rc, b', out', err', g')" by simp
    from Cons.IH [OF this x(2)] x(1) show ?thesis by auto
  next
    case False
    with Cons.prems(1) nm r x show ?thesis by auto
  qed
qed auto

lemma new_pulling:
  assumes "open_body_new env zl (Transport s) False fr seed hs minor cap nd opts u px err g = (ZUH_OK, Some b, c', hs', err', g')"
    and "fr_kind fr \<noteq> ZUH_FRAME_CHUNKED" and "\<not> bp_inflating (ob_pipe b)"
  shows "pulling got fr seed s [] b g1"
proof -
  obtain ok1 h1 where 1: "zuh_calloc 1 SIZEOF_OPEN_BODY (eg_heap g) = (ok1, h1)" by (rule prod.exhaust)
  obtain ok b0 h2 where 2: "(if ok1 then zuh_buf_init 0 SIZE_MAX h1 else (False, zeroed_buffer, h1)) = (ok, b0, h2)" by (rule prod_cases3)
  obtain rc p hs2 err2 h3 where 3: "zuh_body_pipe_init zl (zuh_sink_memory_init b0) hs nd cap err h2 = (rc, p, hs2, err2, h3)"
    by (metis prod.exhaust)
  obtain rc2 rd err3 h4 where 4: "zuh_body_reader_init fr seed cap err2 h3 = (rc2, rd, err3, h4)" by (rule prod_cases4)
  obtain rc3 rd3 p3 err4 h5 where 5: "(if rc = ZUH_OK then open_reader False fr seed cap p err2 h3 else (rc, None, p, err2, h3))
      = (rc3, rd3, p3, err4, h5)" by (metis prod.exhaust)
  have made: "rc3 = ZUH_OK" "ob_pipe b = p3" "ob_rd b = rd3" "ob_s b = Some (Transport s)" "ob_staged_off b = 0" "\<not> ob_ended b" "\<not> ob_failed b"
    using assms(1) unfolding open_body_new_def if_False prod.case 1 2 3 5 Let_def by (auto split: if_splits prod.splits)
  have ok: "rc = ZUH_OK" "rc2 = ZUH_OK" "p3 = p" "rd3 = Some rd"
    using 5 4 made(1) by (auto simp: open_reader_def split: if_splits prod.splits)
  have "\<not> bp_inflating p" using made(2) ok(3) assms(3) by simp
  then have "p = \<lparr>bp_sink = zuh_sink_memory_init b0, bp_inflate = zeroed_inflate, bp_inflating = False, bp_staging = zeroed_buffer,
      bp_raw_seen = 0, bp_surplus = 0, bp_max_body = cap, bp_trailers = zuh_headers_init\<rparr>"
    using 3 ok(1) by (auto simp: zuh_body_pipe_init_def Let_def split: if_splits prod.splits)
  moreover have "buf_data b0 = []"
    using 2 by (auto simp: zeroed_buffer_def zuh_buf_init_def Let_def split: if_splits dest: grow_to_data)
  moreover note reader_init_plain [OF 4 assms(2) ok(2)]
  ultimately show ?thesis unfolding pulling_def
    by (intro exI [of _ "[]"] exI [of _ s])
      (auto simp: conn_at_def made ok staged_def zuh_sink_memory_init_def reading_def)
qed

lemma pull_all_accounted:
  assumes "pull_all env zl ns b out err g = Some (rc, b', out', err', g')" and "accounted env g0 b g"
  shows "accounted env g0 b' g'"
  using assms
proof (induction ns arbitrary: b out err g)
  case (Cons nm ns)
  obtain n ms where nm: "nm = (n, ms)" by (rule prod.exhaust)
  obtain rc1 b1 out1 err1 g1 where r: "zuh_open_body_read_within env zl b out n ms err g = Some (rc1, b1, out1, err1, g1)"
    using Cons.prems(1) nm by (auto split: option.splits)
  note a = read_accounted [OF Cons.prems(2) r]
  show ?case using Cons.prems(1) nm r a Cons.IH [OF _ a] by (auto split: if_splits)
qed simp

text \<open>
  C9: a pulled body is the body. However the caller divides its reads, what it has received of a body that is not
  decompressed, under a framing that is not chunked and of a length that leaves room for one more read in 64 bits,
  is a prefix of exactly the bytes the framing claims of those that arrived, each once and in order. When
  the body reports a clean end it is all of them, with a Content-Length as many as it says, and the connection was
  given up exactly once, to the pool for reuse only when it may carry another request.
\<close>
theorem pulled_body_exact:
  assumes new: "open_body_new env zl (Transport s) False fr seed hs minor cap nd opts u px err g = (ZUH_OK, Some b0, c', hs', err', g0)"
    and nck: "fr_kind fr \<noteq> ZUH_FRAME_CHUNKED" and id: "\<not> bp_inflating (ob_pipe b0)"
    and big: "unat (fr_length fr) + ZUH_READ_CHUNK < 2 ^ 64" and reads: "reads_faithful (he_vt (ev_h2 env)) got"
    and run: "pull_all env zl ns b0 out err1 g1 = Some (rc, b, out', err2, g2)"
  shows "\<exists>seen s' x k. got s' = got s @ seen \<and> conn_at b g2 s'
    \<and> buf_data out' = buf_data out @ x \<and> x = take k (wanted fr (seed @ seen))
    \<and> (zuh_open_body_ended_clean b \<longrightarrow> x = wanted fr (seed @ seen)
         \<and> (fr_kind fr = ZUH_FRAME_LENGTH \<longrightarrow> length x = unat (fr_length fr))
         \<and> ob_s b = None \<and> (\<exists>e. eg_log g2 = eg_log g1 @ [e] \<and> gave_up env b e))"
proof -
  from pull_all_pulling [OF run nck big reads new_pulling [OF new nck id]] obtain x where
    x: "buf_data out' = buf_data out @ x" "pulling got fr seed s x b g2" by auto
  then obtain seen s' where s': "got s' = got s @ seen" "conn_at b g2 s'"
    and p: "if ob_failed b then \<exists>k. x = take k (wanted fr (seed @ seen))
         else ob_staged_off b \<le> length (staged b) \<and> (\<exists>r. ob_rd b = Some r \<and> ob_ended b = br_done r
                 \<and> reading fr [] (x @ drop (ob_staged_off b) (staged b)) (seed @ seen) r (ob_pipe b))"
    unfolding pulling_def by blast
  have "\<exists>k. x = take k (wanted fr (seed @ seen))" using p reading_prefix prefix_of_take by (metis (no_types, lifting))
  moreover have "x = wanted fr (seed @ seen) \<and> (fr_kind fr = ZUH_FRAME_LENGTH \<longrightarrow> length x = unat (fr_length fr))"
    if "zuh_open_body_ended_clean b"
    using that p by (auto simp: zuh_open_body_ended_clean_def reading_def wanted_def)
  moreover have "accounted env g1 b g2"
    using new_accounted [OF new] by (intro pull_all_accounted [OF run]) (auto simp: accounted_def split: if_splits)
  then have "ob_s b = None \<and> (\<exists>e. eg_log g2 = eg_log g1 @ [e] \<and> gave_up env b e)" if "zuh_open_body_ended_clean b"
    using that by (auto simp: accounted_def zuh_open_body_ended_clean_def split: if_splits)
  ultimately show ?thesis using s' x(1) by blast
qed

section \<open>Examples\<close>

lemma plenty_append: "zuh_buf_append t (b, h) = (ok, b', h') \<Longrightarrow> plenty h \<Longrightarrow> plenty h'"
  using keepsD [OF _ _ keeps_append, of t "(b, h)" ok "(b', h')"] by simp

lemma plenty_reader_init:
  "zuh_body_reader_init fr seed mb err h = (ZUH_OK, r, err', h') \<Longrightarrow> fr_kind fr \<noteq> ZUH_FRAME_CHUNKED \<Longrightarrow> plenty h \<Longrightarrow> plenty h'"
  by (auto simp: zuh_body_reader_init_def reader_buffers_def Let_def split: prod.splits if_splits
      dest: plenty_alloc plenty_buf_init plenty_append)

text \<open>A body of two bytes that arrived with its head, and one byte more.\<close>

definition example_two :: zuh_framing where
  "example_two = \<lparr>fr_kind = ZUH_FRAME_LENGTH, fr_length = 2, fr_poolable = True\<rparr>"

abbreviation "example_open_env \<equiv> example_eng_env ''http/1.1''"

lemma example_open:
  "\<exists>b g0. open_body_new example_open_env example_zlib (Transport ([], [], [])) False example_two ''abX'' zuh_headers_init 1 0 True
      zuh_get_opts_init example_https zuh_proxy_init no_error example_eng = (ZUH_OK, Some b, Transport ([], [], []), zuh_headers_init, no_error, g0)
    \<and> buf_room (sk_ctx (bp_sink (ob_pipe b)), eg_heap g0) 2 \<and> staged b = [] \<and> \<not> bp_inflating (ob_pipe b) \<and> bp_max_body (ob_pipe b) = 0
    \<and> bp_raw_seen (ob_pipe b) = 0 \<and> (\<exists>r. ob_rd b = Some r \<and> br_fr r = example_two \<and> \<not> br_done r \<and> buf_data (br_seed r) = ''abX'')
    \<and> ob_s b = Some (Transport ([], [], [])) \<and> \<not> ob_ended b \<and> \<not> ob_failed b \<and> \<not> ob_aborted b \<and> ob_staged_off b = 0 \<and> eg_pool g0 = None"
proof -
  obtain h1 where 1: "zuh_calloc 1 SIZEOF_OPEN_BODY fresh_heap = (True, h1)" "plenty h1"
    using zuh_alloc_plenty [OF plenty_fresh, of SIZEOF_OPEN_BODY]
    by (auto simp: zuh_calloc_def zuh_size_mul_def SIZEOF_OPEN_BODY_def SIZE_MAX_def ZUH_HDR_def)
  obtain b0 h2 where 2: "zuh_buf_init 0 SIZE_MAX h1 = (True, b0, h2)" "buf_room (b0, h2) 2" "buf_data b0 = []"
    using zuh_buf_init_room [OF 1(2), of 0 SIZE_MAX 2] by (auto simp: SIZE_MAX_def)
  then have h2: "plenty h2" by (simp add: buf_room_def)
  obtain r h3 where 3: "zuh_body_reader_init example_two ''abX'' 0 no_error h2 = (ZUH_OK, r, no_error, h3)"
    using reader_init_plenty [OF h2] by fastforce
  have kind: "fr_kind example_two \<noteq> ZUH_FRAME_CHUNKED" by (simp add: example_two_def)
  have "plenty h3" using plenty_reader_init [OF 3 kind h2] .
  then have "buf_room (b0, h3) 2" using 2(2) by (simp add: buf_room_def split: if_splits)
  then show ?thesis using 1(1) 2(1,3) 3 reader_init_plain [OF 3 kind]
    by (simp add: open_body_new_def example_eng_def zuh_body_pipe_init_def Let_def open_reader_def staged_def zuh_sink_memory_init_def)
qed


lemma pulled_body_exact_witness:
  "\<exists>(b0 :: (bytes \<times> bytes \<times> bytes, unit, unit, unit) zuh_open_body) g0 b out' g2. open_body_new example_open_env example_zlib (Transport ([], [], [])) False example_two ''abX'' zuh_headers_init 1 0 True
      zuh_get_opts_init example_https zuh_proxy_init no_error example_eng = (ZUH_OK, Some b0, Transport ([], [], []), zuh_headers_init, no_error, g0)
    \<and> pull_all example_open_env example_zlib [(5, 0)] b0 \<lparr>buf_data = [], buf_cap = 64, buf_max = 0, buf_hit_limit = False\<rparr> no_error g0
       = Some (ZUH_OK, b, out', no_error, g2) \<and> buf_data out' = ''ab''"
proof -
  let ?out = "\<lparr>buf_data = [], buf_cap = 64, buf_max = 0, buf_hit_limit = False\<rparr>"
  obtain b0 :: "(bytes \<times> bytes \<times> bytes, unit, unit, unit) zuh_open_body" and g0 r
    where b0: "open_body_new example_open_env example_zlib (Transport ([], [], [])) False example_two ''abX'' zuh_headers_init 1 0 True
      zuh_get_opts_init example_https zuh_proxy_init no_error example_eng = (ZUH_OK, Some b0, Transport ([], [], []), zuh_headers_init, no_error, g0)"
    and room: "buf_room (sk_ctx (bp_sink (ob_pipe b0)), eg_heap g0) 2"
    and f: "staged b0 = []" "\<not> bp_inflating (ob_pipe b0)" "bp_max_body (ob_pipe b0) = 0" "bp_raw_seen (ob_pipe b0) = 0" "ob_rd b0 = Some r"
      "br_fr r = example_two" "\<not> br_done r" "buf_data (br_seed r) = ''abX''"
      "ob_s b0 = Some (Transport ([], [], []))" "\<not> ob_ended b0" "\<not> ob_failed b0" "\<not> ob_aborted b0" "ob_staged_off b0 = 0" "eg_pool g0 = None"
    using example_open by blast
  let ?dl = "zuh_deadline_in (ev_now example_open_env ()) (ob_timeout_ms b0)"
  let ?p = "ob_pipe (unstage b0)"
  have same: "(sk_ctx (bp_sink (ob_pipe b0)))\<lparr>buf_data := []\<rparr> = sk_ctx (bp_sink (ob_pipe b0))" using f(1) by (simp add: staged_def)
  obtain sb h1 where ap: "zuh_buf_append ''ab'' ((sk_ctx (bp_sink (ob_pipe b0)))\<lparr>buf_data := []\<rparr>, eg_heap g0) = (True, sb, h1)"
    unfolding same using buf_append_room [of "(sk_ctx (bp_sink (ob_pipe b0)), eg_heap g0)" "''ab''" 0] room
    by (auto simp: numeral_2_eq_2)
  have d: "buf_data sb = ''ab''" using buf_append_data [OF ap] by simp
  have "\<exists>r' p'. zuh_body_reader_step example_zlib example_line memory_vtable r ([], [], []) ?p ?dl no_error (eg_heap g0)
      = Some (ZUH_OK, r', ([], [], []), p', no_error, h1) \<and> br_done r' \<and> sk_ctx (bp_sink p') = sb"
    using f ap by (simp add: zuh_body_reader_step_def step_framed_def next_bytes_def step_plain_def example_two_def ZUH_READ_CHUNK_def
        zuh_buf_consume_def Let_def zuh_body_pipe_feed_def cap_check_def pipe_write_def zuh_sink_write_def memory_vtable_def mem_write_def
        body_over_def zuh_body_pipe_finish_def unstage_def)
  then obtain r' p' where st: "zuh_body_reader_step example_zlib example_line memory_vtable r ([], [], []) ?p ?dl no_error (eg_heap g0)
      = Some (ZUH_OK, r', ([], [], []), p', no_error, h1)" "br_done r'" "sk_ctx (bp_sink p') = sb" by blast
  define b1 where "b1 = (unstage b0)\<lparr>ob_s := Some (Transport ([], [], [])), ob_rd := Some r', ob_pipe := p', ob_ended := True\<rparr>"
  have ps: "pull_step example_open_env example_zlib ?dl (unstage b0) no_error g0 = Some (ZUH_OK, b1, no_error, g0\<lparr>eg_heap := h1\<rparr>)"
    using st f(5,9) by (simp add: pull_step_def b1_def example_eng_env_def)
  obtain b2 g2 where se: "pull_settle example_open_env ZUH_OK b1 (g0\<lparr>eg_heap := h1\<rparr>) = (b2, g2)" by (rule prod.exhaust)
  note k = settle_keeps [OF se]
  have b2: "staged b2 = ''ab''" "ob_staged_off b2 = 0" "ob_ended b2" "\<not> ob_failed b2"
    using k st(3) d f(11) by (simp_all add: staged_def b1_def)
  have ab: "ob_aborted b2 = ob_aborted b1" using se by (auto simp: pull_settle_def dest!: release_fields split: if_splits)
  have "pull_loop example_open_env example_zlib ?dl b2 no_error g2 = Some (ZUH_OK, b2, no_error, g2)"
    by (subst pull_loop.simps) (simp add: b2)
  then have l: "pull_loop example_open_env example_zlib ?dl b0 no_error g0 = Some (ZUH_OK, b2, no_error, g2)"
    by (subst pull_loop.simps) (simp add: f ps se)
  have "\<exists>out' h. zuh_buf_append ''ab'' (?out, eg_heap g2) = (True, out', h)"
    by (simp add: zuh_buf_append_def zuh_size_add_def grow_to_def SIZE_MAX_def)
  then obtain out' h where o: "zuh_buf_append ''ab'' (?out, eg_heap g2) = (True, out', h)" by blast
  have run: "pull_all example_open_env example_zlib [(5, 0)] b0 ?out no_error g0
       = Some (ZUH_OK, b2\<lparr>ob_staged_off := 2\<rparr>, out', no_error, g2\<lparr>eg_heap := h\<rparr>)"
    using f(11,12) l b2(1,2) o by (simp add: zuh_open_body_read_within_def hand_out_def Let_def)
  have "zuh_open_body_ended_clean (b2\<lparr>ob_staged_off := 2\<rparr>)"
    using b2 ab f(12) by (simp add: zuh_open_body_ended_clean_def staged_def b1_def)
  moreover have reads: "reads_faithful (he_vt (ev_h2 example_open_env)) fst" using example_line_contracts(1) by (simp add: example_eng_env_def)
  ultimately obtain seen where "buf_data out' = wanted example_two (''abX'' @ seen)"
    using pulled_body_exact [OF b0 _ f(2) _ reads run] by (auto simp: example_two_def ZUH_READ_CHUNK_def)
  then have "buf_data out' = ''ab''" by (simp add: wanted_def example_two_def)
  with b0 run show ?thesis by blast
qed

end
