(* ===== verification/Spec2Isabelle.thy ===== *)
theory Spec2Isabelle
  imports Zuh_Framing Zuh_Redirect Zuh_Request Zuh_Stream Zuh_Trace Zuh_Pool Zuh_Proxy Zuh_H2_Exchange Zuh_Net Zuh_Open
begin

text \<open>
  \<^bold>\<open>The verification development of the zuhttp core.\<close>

  zuhttp is an HTTP client for R. Its core is a C library under \<^verbatim>\<open>src/\<close> with no R in it: one request is made by
  \<^verbatim>\<open>zuh_engine.c\<close>, hop by hop. For each hop the engine asks the pool (\<^verbatim>\<open>zuh_pool.c\<close>) for a connection under a key
  made of everything that matters to who is on the other end; without one it opens TCP (\<^verbatim>\<open>zuh_net.c\<close>), sends a
  CONNECT through a proxy (\<^verbatim>\<open>zuh_proxy.c\<close>) and sets up TLS (\<^verbatim>\<open>zuh_tls.c\<close> and a backend). The request goes out over
  HTTP/1.1 (\<^verbatim>\<open>zuh_request.c\<close>) or HTTP/2 (\<^verbatim>\<open>zuh_h2.c\<close> over nghttp2). The head is parsed (\<^verbatim>\<open>zuh_response.c\<close> over
  picohttpparser), the framing is decided (\<^verbatim>\<open>zuh_framing.c\<close>), and the body is read, decoded and delivered to a sink
  (\<^verbatim>\<open>zuh_body.c\<close>, \<^verbatim>\<open>zuh_inflate.c\<close>, \<^verbatim>\<open>zuh_sink.c\<close>), or handed to the caller who pulls it. A redirect is decided
  in \<^verbatim>\<open>zuh_redirect.c\<close>. Every layer reports failures in one error object (\<^verbatim>\<open>zuh_error.c\<close>), allocates through
  \<^verbatim>\<open>zuh_alloc.c\<close>, obeys one deadline (\<^verbatim>\<open>zuh_time.c\<close>) and logs to one trace (\<^verbatim>\<open>zuh_trace.c\<close>).

  \<^bold>\<open>How the code is represented.\<close> Definitions have the names of the C functions. A C struct is a record, an enum
  a datatype, \<^verbatim>\<open>uint64_t\<close> and \<^verbatim>\<open>uint16_t\<close> are words, byte strings are lists of characters, a pointer to text that
  may be NULL is an option. A pointer to a struct is the struct's value, passed in and returned; so the checks
  for a NULL struct pointer, which the callers in the library never pass, are left out. Allocation is a state:
  \<open>heap\<close> holds the statistics of \<^verbatim>\<open>zuh_alloc.c\<close> and an oracle that says of each call to the C library's allocator
  whether it succeeds, so a theorem about a heap is about every pattern of failures; \<open>grew\<close> says how many blocks
  and bytes an operation leaves allocated, \<open>plenty\<close> that nothing fails. The sizes of structs are constants that
  stand for the platform's. A loop whose end depends on the outside (a stream, a socket, zlib, nghttp2, the
  finalizers of a pool) is a partial function with an optional result: \<open>None\<close> is a call that does not return, for
  a pulled body also a step without its connection; what is claimed to return is proved to be \<open>Some\<close>. Loops bounded by their
  data are structural or have a measure; the growth of a buffer and the stripping of credentials, which need not
  end on their own, are \<open>while_option\<close> loops. No fuel is used.

  \<^bold>\<open>What is a parameter.\<close> Code that is not part of the library enters as an argument: the streams of the transports
  and TLS backends (\<open>zuh_stream_vtable\<close>), zlib (\<open>zlib\<close>), the vendored uriparser (\<open>uri_parser\<close>) and nghttp2 (\<open>h2_env\<close>), the
  sockets and the resolver (\<open>net_env\<close>), the file system (\<open>filesys\<close>), the environment variables, the clock, the process
  id. What is relied on is a named predicate with an instance that satisfies it: \<open>reads_faithful\<close> (a read returns the
  next bytes), \<open>writes_prefix\<close> (a write reports what it sent), \<open>one_way\<close> (reading sends nothing), \<open>time_passes\<close>,
  \<open>zlib_progress\<close>, \<open>ranges_in\<close> (uriparser answers with ranges of its input), \<open>accounts\<close> (nghttp2 hands out DATA only while it
  receives, and grants the window it is told to grant), \<open>tracks\<close> (what the descriptor calls do to the table of descriptors),
  \<open>well_timed\<close> (a poll waits no longer than it was told).

  \<^bold>\<open>The theories.\<close>
  \<^item> \<open>Zuh_Prelude\<close>: types, C strings, decimal output, ASCII classes, lemmas on lists and words.
  \<^item> \<open>Zuh_Alloc\<close>, \<open>Zuh_Error\<close>: the allocator with its balance; codes, phases, classes, retryability.
  \<^item> \<open>Zuh_Buffer\<close>: the growable buffer. The locale \<open>byte_writer\<close> says what appending keeps under any failures,
    \<open>total_writer\<close> extends it with the exact result when there is room; both are interpreted on \<open>zuh_buf_append\<close> and carry
    every module that builds text.
  \<^item> \<open>Zuh_Headers\<close>: the header list and UTF-8; the locale \<open>field_list\<close> is the lookup contract, interpreted on the list.
    No operation admits CR, LF or NUL.
  \<^item> \<open>Zuh_Framing\<close>, \<open>Zuh_Lists\<close>: body framing against a declarative contract; comma-separated lists.
  \<^item> \<open>Zuh_Uri\<close>, \<open>Zuh_Redact\<close>, \<open>Zuh_Redirect\<close>: URLs and their text; removal of secrets, against the grammar of a URL; the
    redirect decision, the stripping of credentials and the trail of visited URLs.
  \<^item> \<open>Zuh_Request\<close>, \<open>Zuh_Pico\<close>, \<open>Zuh_Chunk\<close>, \<open>Zuh_Response\<close>: the request head; the vendored parser of heads and the
    chunked decoder; the response built on them. A head that is written is parsed back; the chunked body
    does not depend on how it is cut.
  \<^item> \<open>Zuh_Sink\<close>, \<open>Zuh_Inflate\<close>, \<open>Zuh_Body\<close>: sinks (the locale \<open>sink_contract\<close>, interpreted on the memory and the file sink),
    decompression with its limits, and the body reader that joins stream, framing, decoder and sink.
  \<^item> \<open>Zuh_Time\<close>, \<open>Zuh_Stream\<close>, \<open>Zuh_Trace\<close>: deadlines, the stream interface and its write loop, the event log.
  \<^item> \<open>Zuh_Pool\<close>: the pool and the fork guard, with the transition relation \<open>pool_reachable\<close> and the account of connections.
  \<^item> \<open>Zuh_Proxy\<close>, \<open>Zuh_Tls\<close>: choice of the proxy, credentials and CONNECT; the TLS policy.
  \<^item> \<open>Zuh_Net\<close>: TCP. A connection attempt leaks nothing; reads and writes end by their deadline.
  \<^item> \<open>Zuh_H2\<close>, \<open>Zuh_H2_Exchange\<close>: the HTTP/2 driver, whose calls into nghttp2 return events that run its callbacks; and what
    an exchange keeps (window, data, request and response heads), with the relation \<open>h2_exchange\<close>.
  \<^item> \<open>Zuh_Key\<close>, \<open>Zuh_Conn\<close>, \<open>Zuh_Open\<close>: the engine. The options, the pool key and the checks before connecting; opening the
    connection of a hop, the protocol, the response head and giving the connection back; the pulled body, with
    the relation \<open>pulled\<close>.

  \<^bold>\<open>What the theorems show.\<close> That no peer or caller can smuggle or inject (framing, header lists, request heads,
  CONNECT, tunnels, HTTP/2 fields); that secrets stay out of logs and off other hosts (redaction, redirects,
  the trace, the pool key); that connections are neither lost, doubled nor reused when they should not be (pool, engine,
  pulled bodies, sockets); that bodies arrive whole, in order and once, within their limits, over HTTP/1.1 and
  HTTP/2; and that waits end. Lemmas that are not properties of their own say where the code does something else than
  its comments (for example \<open>set_over_limit_loses_field\<close>, \<open>ipv6_origins_collide\<close>, \<open>net_connect_leaves_stale_error\<close>).

  \<^bold>\<open>What is not modelled.\<close> The loop over the hops in \<^verbatim>\<open>zuh_engine.c\<close> (\<^verbatim>\<open>perform_hops\<close>, \<^verbatim>\<open>zuh_engine_perform\<close>) that composes
  the parts above; \<^verbatim>\<open>zuh_open_body_busy\<close> and the flag of \<^verbatim>\<open>zuh_h2.c\<close> it reads, which is set only while the caller's body function
  runs; the TLS backends, which are calls into platform libraries; the R interface in \<^verbatim>\<open>init.c\<close>; the Windows branches;
  nghttp2 and uriparser themselves; tests, fuzzers and prototypes.
\<close>

end
